(* ===== verification/Prelude.thy ===== *)
theory Prelude
  imports Main "HOL-Library.Word"
begin

text \<open>
  The development's prelude: the names of the model's machine types, the collections the
  component theories extend, little-endian byte codecs (Go's \<open>encoding/binary\<close>), and the
  generic lemmas and locales on lists, words and runs that more than one component uses.

  A Go \<open>byte\<close>, \<open>uint16\<close>, \<open>uint32\<close> or \<open>uint64\<close> is a word of that width and a \<open>[]byte\<close> is a
  list of 8-bit words. The length of a slice is a \<open>nat\<close>: a Go slice cannot be longer than an
  \<open>int\<close> holds. A nil and an empty slice are distinguished only where the code does so.
\<close>

type_synonym u8 = "8 word"
type_synonym u16 = "16 word"
type_synonym u32 = "32 word"
type_synonym u64 = "64 word"
type_synonym bytes = "8 word list"

named_theorems codec_simps \<open>equations that evaluate byte codecs\<close>
named_theorems inv_intros \<open>preservation lemmas of component invariants\<close>
named_theorems frame_simps \<open>fields an operation leaves alone\<close>

section \<open>Little-endian integers\<close>

unbundle bit_operations_syntax

primrec put_le :: "nat \<Rightarrow> 'a::len word \<Rightarrow> bytes" where
  "put_le 0 w = []"
| "put_le (Suc k) w = ucast w # put_le k (drop_bit 8 w)"

primrec get_le :: "bytes \<Rightarrow> 'a::len word" where
  "get_le [] = 0"
| "get_le (b # bs) = ucast b OR push_bit 8 (get_le bs)"

abbreviation le16 :: "u16 \<Rightarrow> bytes" where "le16 \<equiv> put_le 2"
abbreviation le32 :: "u32 \<Rightarrow> bytes" where "le32 \<equiv> put_le 4"
abbreviation le64 :: "u64 \<Rightarrow> bytes" where "le64 \<equiv> put_le 8"

lemma length_put_le [simp]: "length (put_le k w) = k"
  by (induction k arbitrary: w) auto

lemma put_le_2: "put_le 2 w = [ucast w, ucast (drop_bit 8 w)]"
  by (simp add: numeral_2_eq_2)

lemma put_le_3: "put_le 3 w = [ucast w, ucast (drop_bit 8 w), ucast (drop_bit 8 (drop_bit 8 w))]"
  by (simp add: numeral_3_eq_3)

lemma get_put_le: "get_le (put_le k w) = take_bit (8 * k) (w :: 'a::len word)"
proof (induction k arbitrary: w)
  case 0
  then show ?case by simp
next
  case (Suc k)
  show ?case
    by (simp add: Suc.IH) (rule bit_word_eqI, auto simp: bit_simps)
qed

lemma get_put_le_id [codec_simps]:
  "LENGTH('a) \<le> 8 * k \<Longrightarrow> get_le (put_le k w) = (w :: 'a::len word)"
  by (simp add: get_put_le take_bit_word_eq_self)

lemma get_put_le16 [simp, codec_simps]: "get_le (put_le 2 w) = (w :: u16)"
  by (rule get_put_le_id) simp

lemma get_put_le32 [simp, codec_simps]: "get_le (put_le 4 w) = (w :: u32)"
  by (rule get_put_le_id) simp

lemma get_put_le64 [simp, codec_simps]: "get_le (put_le 8 w) = (w :: u64)"
  by (rule get_put_le_id) simp

lemma put_get_le:
  "8 * length bs \<le> LENGTH('a) \<Longrightarrow> put_le (length bs) (get_le bs :: 'a::len word) = bs"
proof (induction bs)
  case Nil
  then show ?case by simp
next
  case (Cons b bs)
  have low: "ucast (ucast b OR push_bit 8 (get_le bs) :: 'a word) = b"
    using Cons.prems by (intro bit_word_eqI) (auto simp: bit_simps)
  have high: "drop_bit 8 (ucast b OR push_bit 8 (get_le bs) :: 'a word)
      = take_bit (LENGTH('a) - 8) (get_le bs :: 'a word)"
    by (intro bit_word_eqI) (auto simp: bit_simps dest: bit_imp_le_length)
  have small: "take_bit (LENGTH('a) - 8) (get_le bs :: 'a word) = get_le bs"
  proof -
    have "8 * length bs \<le> LENGTH('a) - 8" using Cons.prems by simp
    moreover have "(get_le bs :: 'a word) = take_bit (8 * length bs) (get_le bs)"
      by (metis Cons.IH Cons.prems get_put_le le_add2 length_Cons mult_Suc_right order_trans)
    ultimately show ?thesis
      by (metis min.absorb2 take_bit_take_bit)
  qed
  show ?case
    using Cons low high small by simp
qed

lemma put_get_le_16 [codec_simps]: "length bs = 2 \<Longrightarrow> put_le 2 (get_le bs :: u16) = bs"
  using put_get_le [of bs, where 'a = 16] by simp

lemma put_get_le_32 [codec_simps]: "length bs = 4 \<Longrightarrow> put_le 4 (get_le bs :: u32) = bs"
  using put_get_le [of bs, where 'a = 32] by simp

lemma put_get_le_64 [codec_simps]: "length bs = 8 \<Longrightarrow> put_le 8 (get_le bs :: u64) = bs"
  using put_get_le [of bs, where 'a = 64] by simp

lemma unat_of_nat_u32 [simp]: "n < 4294967296 \<Longrightarrow> unat (word_of_nat n :: u32) = n"
  by (simp add: unat_of_nat)

lemma unat_of_nat_u16 [simp]: "n < 65536 \<Longrightarrow> unat (word_of_nat n :: u16) = n"
  by (simp add: unat_of_nat)

lemma unat_of_nat_u8 [simp]: "n < 256 \<Longrightarrow> unat (word_of_nat n :: u8) = n"
  by (simp add: unat_of_nat)

lemma unat_of_nat_u64 [simp]: "n < 18446744073709551616 \<Longrightarrow> unat (word_of_nat n :: u64) = n"
  by (simp add: unat_of_nat)

lemma unat_u8_less [simp]: "unat (w :: u8) < 256"
  using unsigned_less [of w] by simp

lemma unat_u16_less [simp]: "unat (w :: u16) < 65536"
  using unsigned_less [of w] by simp

lemma unat_u16_le [simp]: "unat (w :: u16) \<le> 65535"
  using unat_u16_less [of w] by linarith

lemma unat_u32_less [simp]: "unat (w :: u32) < 4294967296"
  using unsigned_less [of w] by simp

lemma unat_u64_less [simp]: "unat (w :: u64) < 18446744073709551616"
  using unsigned_less [of w] by simp

lemma unat_get_le_Cons:
  assumes "8 * Suc (length bs) \<le> LENGTH('a)"
  shows "unat (get_le (b # bs) :: 'a::len word) = unat b + 256 * unat (get_le bs :: 'a word)"
proof -
  let ?x = "get_le bs :: 'a word" and ?b = "ucast b :: 'a word"
  have "?x = take_bit (8 * length bs) ?x"
    using get_put_le [of "length bs" ?x] put_get_le [of bs, where 'a = 'a] assms by simp
  then have "unat ?x = take_bit (8 * length bs) (unat ?x)" by (metis unsigned_take_bit_eq)
  then have x: "unat ?x < 2 ^ (8 * length bs)" by (metis take_bit_nat_less_exp)
  have p: "2 ^ (8 * Suc (length bs)) \<le> (2 :: nat) ^ LENGTH('a)" using assms by (simp add: power_increasing del: mult_Suc_right)
  have e: "(2 :: nat) ^ (8 * Suc (length bs)) = 256 * 2 ^ (8 * length bs)" by (simp add: power_add)
  have c: "256 * unat ?x + 256 \<le> 256 * 2 ^ (8 * length bs)" using x by linarith
  have "(1 :: nat) \<le> 2 ^ (8 * length bs)" by simp
  then have "unat b < 2 ^ LENGTH('a)" using p e unat_u8_less [of b] by linarith
  then have b: "unat ?b = unat b" "unat b < 256"
    by (simp_all add: unsigned_ucast_eq take_bit_nat_eq_self_iff)
  have "get_le (b # bs) = ?b + push_bit 8 ?x"
    by (simp, rule disjunctive_add [symmetric], auto simp: bit_simps dest: bit_imp_le_length)
  also have "push_bit 8 ?x = word_of_nat (256 * unat ?x)" by (simp add: push_bit_eq_mult mult.commute)
  also have "?b = word_of_nat (unat b)" by (simp add: b(1) flip: word_unat_eq_iff)
  also have "word_of_nat (unat b) + word_of_nat (256 * unat ?x) = (word_of_nat (unat b + 256 * unat ?x) :: 'a word)"
    by (simp only: of_nat_add)
  finally have "unat (get_le (b # bs) :: 'a word) = (unat b + 256 * unat ?x) mod 2 ^ LENGTH('a)"
    by (simp only: unat_of_nat)
  also have "\<dots> = unat b + 256 * unat ?x" using b(2) c p e by (intro mod_less) linarith
  finally show ?thesis .
qed

lemma unat_ucast_u16_u32 [simp]: "unat (ucast (w :: u16) :: u32) = unat w"
  using less_trans [OF unat_u16_less, of 4294967296 w]
  by (simp add: unsigned_ucast_eq take_bit_nat_eq_self_iff)

lemma unat_ucast_u8_u64 [simp]: "unat (ucast (w :: u8) :: u64) = unat w"
  using less_trans [OF unat_u8_less, of 18446744073709551616 w]
  by (simp add: unsigned_ucast_eq take_bit_nat_eq_self_iff)

lemma ucast_of_nat_u16_u32: "n < 65536 \<Longrightarrow> (ucast (word_of_nat n :: u16) :: u32) = word_of_nat n"
  by (simp add: word_unat_eq_iff)

section \<open>Lists\<close>

lemma drop_split: "drop n b = take k (drop n b) @ drop (n + k) b"
  by (metis add.commute append_take_drop_id drop_drop)

lemma take4_eq: "4 \<le> length p \<Longrightarrow> take 4 p = [p ! 0, p ! 1, p ! 2, p ! 3]"
  by (intro nth_equalityI) (auto simp: less_Suc_eq numeral_nat)

lemma take_drop_append_eq:
  "length xs = n \<Longrightarrow> take n (xs @ ys) = xs \<and> drop n (xs @ ys) = ys"
  by auto

lemma split_at: "n \<le> length xs \<Longrightarrow> \<exists>ys zs. xs = ys @ zs \<and> length ys = n"
  by (metis append_take_drop_id length_take min.absorb2)

section \<open>Runs of deterministic machines\<close>

text \<open>
  Several components are machines: a state and a function that takes an operation to the next
  state. The contract \<open>inv_machine\<close> says that an invariant survives one operation; every run
  from a good state then ends in a good state.
\<close>

locale inv_machine =
  fixes step :: "'s \<Rightarrow> 'op \<Rightarrow> 's"
    and inv :: "'s \<Rightarrow> bool"
  assumes step_inv: "inv s \<Longrightarrow> inv (step s x)"
begin

lemma run_inv: "inv s \<Longrightarrow> inv (foldl step s xs)"
  by (induction xs arbitrary: s) (auto intro: step_inv)

lemma run_prefix_inv: "inv s \<Longrightarrow> inv (foldl step s (take n xs))"
  by (rule run_inv)

end

text \<open>A measure that no step decreases, nor any run.\<close>

locale mono_machine =
  fixes step :: "'s \<Rightarrow> 'op \<Rightarrow> 's"
    and level :: "'s \<Rightarrow> nat"
  assumes step_mono: "level s \<le> level (step s x)"
begin

lemma run_mono: "level s \<le> level (foldl step s xs)"
proof (induction xs arbitrary: s)
  case Nil
  then show ?case by simp
next
  case (Cons x xs)
  show ?case using step_mono [of s x] Cons.IH [of "step s x"] by simp
qed

end

section \<open>Prefix codecs\<close>

text \<open>
  The contract of a self-delimiting byte format: an encoder, and a decoder that takes what the
  encoder wrote off the front of a packet and hands back the rest. A sequence of items then
  decodes item by item.
\<close>

locale prefix_codec =
  fixes enc :: "'x \<Rightarrow> bytes"
    and dec :: "bytes \<Rightarrow> ('x \<times> bytes) option"
    and ok :: "'x \<Rightarrow> bool"
  assumes dec_enc: "ok x \<Longrightarrow> dec (enc x @ rest) = Some (x, rest)"
begin

lemma dec_enc_nil: "ok x \<Longrightarrow> dec (enc x) = Some (x, [])"
  by (metis append_Nil2 dec_enc)

lemma enc_inject: "ok x \<Longrightarrow> ok y \<Longrightarrow> enc x @ r = enc y @ s \<Longrightarrow> x = y \<and> r = s"
  by (metis Pair_inject dec_enc option.inject)

end

text \<open>Decoding a fixed number of items in sequence.\<close>

fun decode_seq :: "(bytes \<Rightarrow> ('x \<times> bytes) option) \<Rightarrow> nat \<Rightarrow> bytes \<Rightarrow> ('x list \<times> bytes) option" where
  "decode_seq d 0 b = Some ([], b)"
| "decode_seq d (Suc n) b =
     (case d b of None \<Rightarrow> None
      | Some (x, r) \<Rightarrow> (case decode_seq d n r of None \<Rightarrow> None | Some (xs, r') \<Rightarrow> Some (x # xs, r')))"

context prefix_codec
begin

lemma decode_seq_concat:
  "list_all ok xs \<Longrightarrow> decode_seq dec (length xs) (concat (map enc xs) @ rest) = Some (xs, rest)"
  by (induction xs) (auto simp: dec_enc)

end

end
