(* ===== verification/GoStd.thy ===== *)
theory GoStd
  imports Prelude
begin

text \<open>
  The parts of Go's standard library the modelled packages call on data: conversions between
  text and bytes, decimal formatting and parsing (\<open>fmt\<close> with \<open>%d\<close>, \<open>strconv.ParseUint\<close> in base
  10), \<open>hex.DecodeString\<close> and \<open>bytes.IndexByte\<close>, with their error results as \<open>None\<close>.
  A Go \<open>string\<close> is a HOL \<open>string\<close>: its characters are bytes.
\<close>

section \<open>Text and bytes\<close>

definition str_bytes :: "string \<Rightarrow> bytes" where
  "str_bytes s = map (\<lambda>c. word_of_nat (of_char c)) s"

definition bytes_str :: "bytes \<Rightarrow> string" where
  "bytes_str b = map (\<lambda>w. char_of (unat w)) b"

lemma length_str_bytes [simp]: "length (str_bytes s) = length s"
  by (simp add: str_bytes_def)

lemma length_bytes_str [simp]: "length (bytes_str b) = length b"
  by (simp add: bytes_str_def)

lemma str_bytes_Nil [simp]: "str_bytes [] = []"
  by (simp add: str_bytes_def)

lemma str_bytes_append: "str_bytes (s @ t) = str_bytes s @ str_bytes t"
  by (simp add: str_bytes_def)

lemma bytes_str_str_bytes [simp]: "bytes_str (str_bytes s) = s"
  by (simp add: bytes_str_def str_bytes_def comp_def map_idI)

lemma str_bytes_bytes_str [simp]: "str_bytes (bytes_str b) = b"
  by (simp add: bytes_str_def str_bytes_def comp_def take_bit_eq_mod map_idI)

section \<open>Decimal numbers\<close>

definition digit_char :: "nat \<Rightarrow> char" where
  "digit_char d = char_of (48 + d)"

fun itoa :: "nat \<Rightarrow> string" where
  "itoa n = (if n < 10 then [digit_char n] else itoa (n div 10) @ [digit_char (n mod 10)])"

declare itoa.simps [simp del]

definition digit_val :: "char \<Rightarrow> nat option" where
  "digit_val c = (let k = (of_char c :: nat) in if 48 \<le> k \<and> k \<le> 57 then Some (k - 48) else None)"

fun parse_digits :: "nat \<Rightarrow> nat \<Rightarrow> string \<Rightarrow> nat option" where
  "parse_digits mx acc [] = Some acc"
| "parse_digits mx acc (c # cs) =
     (case digit_val c of None \<Rightarrow> None
      | Some d \<Rightarrow> if mx < acc * 10 + d then None else parse_digits mx (acc * 10 + d) cs)"

definition parse_uint :: "nat \<Rightarrow> string \<Rightarrow> nat option" where
  "parse_uint bits s = (if s = [] then None else parse_digits (2 ^ bits - 1) 0 s)"

lemma digit_val_char [simp]: "d < 10 \<Longrightarrow> digit_val (digit_char d) = Some d"
  by (simp add: digit_val_def digit_char_def)

lemma itoa_not_Nil [simp]: "itoa n \<noteq> []"
  by (subst itoa.simps) simp

lemma parse_digits_append:
  "parse_digits mx acc (s @ t) =
     (case parse_digits mx acc s of None \<Rightarrow> None | Some a \<Rightarrow> parse_digits mx a t)"
  by (induction s arbitrary: acc) (auto split: option.splits)

lemma parse_digits_bound: "parse_digits mx acc s = Some n \<Longrightarrow> acc \<le> mx \<Longrightarrow> n \<le> mx"
  by (induction s arbitrary: acc) (auto split: option.splits if_splits)

lemma parse_digits_itoa: "n \<le> mx \<Longrightarrow> parse_digits mx 0 (itoa n) = Some n"
proof (induction n rule: itoa.induct)
  case (1 n)
  show ?case
  proof (cases "n < 10")
    case True
    with "1.prems" show ?thesis by (subst itoa.simps) simp
  next
    case False
    with "1.prems" have "n div 10 \<le> mx" by linarith
    with False "1.IH" have IH: "parse_digits mx 0 (itoa (n div 10)) = Some (n div 10)"
      by simp
    have "n div 10 * 10 + n mod 10 = n" by simp
    with False IH "1.prems" show ?thesis
      by (subst itoa.simps) (simp add: parse_digits_append)
  qed
qed

lemma parse_uint_itoa [simp]: "n < 2 ^ bits \<Longrightarrow> parse_uint bits (itoa n) = Some n"
  by (simp add: parse_uint_def parse_digits_itoa)

lemma parse_uint_bound: "parse_uint bits s = Some n \<Longrightarrow> n < 2 ^ bits"
proof -
  assume "parse_uint bits s = Some n"
  then have "n \<le> 2 ^ bits - 1"
    using parse_digits_bound [of "2 ^ bits - 1" 0 s n] by (simp add: parse_uint_def split: if_splits)
  moreover have "(0::nat) < 2 ^ bits" by simp
  ultimately show ?thesis by linarith
qed

section \<open>Hexadecimal text\<close>

definition hex_val :: "char \<Rightarrow> nat option" where
  "hex_val c = (let k = (of_char c :: nat) in
     if 48 \<le> k \<and> k \<le> 57 then Some (k - 48)
     else if 97 \<le> k \<and> k \<le> 102 then Some (k - 87)
     else if 65 \<le> k \<and> k \<le> 70 then Some (k - 55) else None)"

fun hex_decode :: "string \<Rightarrow> bytes option" where
  "hex_decode [] = Some []"
| "hex_decode [_] = None"
| "hex_decode (a # b # s) =
     (case (hex_val a, hex_val b, hex_decode s) of
        (Some x, Some y, Some r) \<Rightarrow> Some (word_of_nat (16 * x + y) # r)
      | _ \<Rightarrow> None)"

definition hex_digit :: "nat \<Rightarrow> char" where
  "hex_digit d = char_of (if d < 10 then 48 + d else 87 + d)"

definition hex_encode :: "bytes \<Rightarrow> string" where
  "hex_encode b = concat (map (\<lambda>w. [hex_digit (unat w div 16), hex_digit (unat w mod 16)]) b)"

lemma hex_val_digit [simp]: "d < 16 \<Longrightarrow> hex_val (hex_digit d) = Some d"
  by (auto simp: hex_val_def hex_digit_def Let_def)

lemma hex_decode_encode [simp]: "hex_decode (hex_encode b) = Some b"
proof (induction b)
  case Nil
  then show ?case by (simp add: hex_encode_def)
next
  case (Cons w b)
  have "unat w div 16 < 16" using unat_u8_less [of w] by linarith
  moreover have "16 * (unat w div 16) + unat w mod 16 = unat w" by simp
  ultimately show ?case using Cons by (simp add: hex_encode_def)
qed

lemma length_hex_decode: "hex_decode s = Some b \<Longrightarrow> length s = 2 * length b"
  by (induction s arbitrary: b rule: hex_decode.induct) (auto split: option.splits)

section \<open>Searching bytes\<close>

fun index_byte :: "bytes \<Rightarrow> u8 \<Rightarrow> nat option" where
  "index_byte [] w = None"
| "index_byte (b # bs) w = (if b = w then Some 0 else map_option Suc (index_byte bs w))"

lemma index_byte_Some:
  "index_byte b w = Some i \<Longrightarrow> i < length b \<and> b ! i = w \<and> w \<notin> set (take i b)"
  by (induction b arbitrary: i) (auto split: if_splits)

lemma index_byte_None: "index_byte b w = None \<longleftrightarrow> w \<notin> set b"
  by (induction b) auto

lemma index_byte_append: "w \<notin> set a \<Longrightarrow> index_byte (a @ w # r) w = Some (length a)"
  by (induction a) auto

end
