(* ===== verification/GoError.thy ===== *)
theory GoError
  imports GoStd
begin

text \<open>
  Go errors as values: sentinels (package-level \<open>errors.New\<close> variables, and the standard library's),
  wrappers (\<open>fmt.Errorf\<close> with one \<open>%w\<close>), joins, the \<open>pending\<close> wrapper of \<open>internal/disposal\<close> and the
  \<open>Error\<close> of \<open>internal/diagnostic\<close>. A nil error is \<open>None\<close>. A sentinel stands for its identity, so its
  text must be unique to its variable; an error the code creates at one place and never compares
  is a sentinel too. \<open>errors.Is\<close>, \<open>errors.As\<close> (for \<open>*diagnostic.Error\<close>) and \<open>errors.Join\<close> are the
  functions on these trees that the modelled packages call.
\<close>

datatype goerr =
    Sentinel string
  | Wrapped string goerr string
  | Joined "goerr list"
  | Pending "goerr option" goerr nat
  | Diag string string goerr

definition err_deadline :: goerr where "err_deadline = Sentinel ''context deadline exceeded''"
definition err_canceled :: goerr where "err_canceled = Sentinel ''context canceled''"

text \<open>\<open>Unwrap\<close>: the children \<open>errors.Is\<close> and \<open>errors.As\<close> descend into.\<close>

fun unwrap :: "goerr \<Rightarrow> goerr list" where
  "unwrap (Sentinel _) = []"
| "unwrap (Wrapped _ e _) = [e]"
| "unwrap (Joined es) = es"
| "unwrap (Pending (Some c) e _) = [Joined [c, e]]"
| "unwrap (Pending None e _) = [Joined [e]]"
| "unwrap (Diag _ _ e) = [e]"

fun err_is :: "goerr \<Rightarrow> goerr \<Rightarrow> bool" where
  "err_is (Sentinel s) t = (Sentinel s = t)"
| "err_is (Wrapped a e b) t = (Wrapped a e b = t \<or> err_is e t)"
| "err_is (Joined es) t = (Joined es = t \<or> (\<exists>e\<in>set es. err_is e t))"
| "err_is (Pending c e n) t =
     (Pending c e n = t \<or> (case c of None \<Rightarrow> False | Some d \<Rightarrow> err_is d t) \<or> err_is e t)"
| "err_is (Diag a b e) t = (Diag a b e = t \<or> err_is e t)"

text \<open>The first \<open>*diagnostic.Error\<close> in pre-order, as \<open>errors.As\<close> finds it: its code.\<close>

fun diag_code :: "goerr \<Rightarrow> string option" and diag_code_list :: "goerr list \<Rightarrow> string option" where
  "diag_code (Sentinel _) = None"
| "diag_code (Wrapped _ e _) = diag_code e"
| "diag_code (Joined es) = diag_code_list es"
| "diag_code (Pending (Some c) e _) = (case diag_code c of None \<Rightarrow> diag_code e | Some k \<Rightarrow> Some k)"
| "diag_code (Pending None e _) = diag_code e"
| "diag_code (Diag k _ _) = Some k"
| "diag_code_list [] = None"
| "diag_code_list (e # es) = (case diag_code e of None \<Rightarrow> diag_code_list es | Some k \<Rightarrow> Some k)"

fun err_join :: "goerr option list \<Rightarrow> goerr option" where
  "err_join es = (case filter (\<lambda>e. e \<noteq> None) es of [] \<Rightarrow> None | xs \<Rightarrow> Some (Joined (map the xs)))"

declare err_join.simps [simp del]

fun err_text :: "goerr \<Rightarrow> string" and err_text_list :: "goerr list \<Rightarrow> string" where
  "err_text (Sentinel s) = s"
| "err_text (Wrapped a e b) = a @ err_text e @ b"
| "err_text (Joined es) = err_text_list es"
| "err_text (Pending None e _) = ''cleanup incomplete: '' @ err_text e"
| "err_text (Pending (Some c) e _) = err_text c @ ''; cleanup incomplete: '' @ err_text e"
| "err_text (Diag _ stage e) = stage @ '': '' @ err_text e"
| "err_text_list [] = []"
| "err_text_list [e] = err_text e"
| "err_text_list (e # es) = err_text e @ [CHR 0x0A] @ err_text_list es"

section \<open>Diagnostics\<close>

text \<open>\<open>internal/diagnostic\<close>: the wrapper of the failure boundary, and the control protocol's code.\<close>

definition diag_wrap :: "string \<Rightarrow> string \<Rightarrow> goerr option \<Rightarrow> goerr option" where
  "diag_wrap code stage e = (case e of None \<Rightarrow> None | Some x \<Rightarrow> Some (Diag code stage x))"

definition control_code :: "goerr \<Rightarrow> string \<Rightarrow> string" where
  "control_code e code =
     (if (err_is e err_canceled \<or> err_is e err_deadline) \<and> diag_code e \<noteq> Some ''unusable''
      then ''timeout'' else code)"

lemma err_join_None [simp]: "err_join es = None \<longleftrightarrow> (\<forall>e\<in>set es. e = None)"
proof -
  have "err_join es = None \<longleftrightarrow> filter (\<lambda>e. e \<noteq> None) es = []"
    by (simp add: err_join.simps split: list.split)
  then show ?thesis by (simp add: filter_empty_conv)
qed

lemma err_join_Some:
  assumes "err_join es = Some e"
  shows "\<exists>xs. e = Joined xs \<and> xs \<noteq> [] \<and> set xs = {x. Some x \<in> set es}"
proof -
  let ?ys = "filter (\<lambda>e. e \<noteq> None) es"
  have "?ys \<noteq> []" and e: "e = Joined (map the ?ys)"
    using assms by (auto simp: err_join.simps split: list.splits)
  moreover have "set (map the ?ys) = {x. Some x \<in> set es}"
    by (force simp: image_iff)
  ultimately show ?thesis by blast
qed

lemma err_join_is:
  "err_join es = Some e \<Longrightarrow> \<nexists>xs. t = Joined xs \<Longrightarrow>
     err_is e t \<longleftrightarrow> (\<exists>x. Some x \<in> set es \<and> err_is x t)"
  using err_join_Some [of es e] by auto

lemma err_is_refl [simp]: "err_is e e"
  by (cases e) auto

end
