(* ===== verification/GuestResult.thy ===== *)
theory GuestResult
  imports GoError
begin

text \<open>
  The framed API's result type of \<open>internal/guest/guest.go\<close>. \<open>Result\<close> nests only through its
  \<open>Results\<close> field; the other fields are a record of their own. A slice whose nil value the code
  tests (\<open>Columns\<close>, \<open>Rows\<close>, \<open>Parameters\<close>, \<open>Results\<close>) is an option. A row cell is NULL or the hex
  text of its bytes.
\<close>

record column =
  c_name :: string
  c_org_name :: string
  c_table :: string
  c_org_table :: string
  c_db :: string
  c_catalog :: string
  c_type :: u8
  c_charset :: u16
  c_flags :: u16
  c_length :: u32
  c_decimals :: u8

type_synonym cell = "string option"

record result_fields =
  binary_rows :: bool
  prepared_operations :: "u8 list"
  prepared_version :: int
  session_generation :: u32
  statement_id :: u32
  param_count :: u32
  parameters :: "column list option"
  ok :: bool
  ready :: bool
  closed :: bool
  api_version :: int
  max_sessions :: int
  snapshot_version :: int
  snapshot :: bool
  status :: u16
  warnings :: u16
  errno :: u16
  err_message :: string
  sqlstate :: string
  affected :: string
  insert_id :: string
  columns :: "column list option"
  rows :: "cell list list option"

datatype result = Result (body: result_fields) (results: "result list option")

text \<open>The zero \<open>guest.Result\<close>.\<close>

definition zero_fields :: result_fields where
  "zero_fields = \<lparr>binary_rows = False, prepared_operations = [], prepared_version = 0,
     session_generation = 0, statement_id = 0, param_count = 0, parameters = None, ok = False,
     ready = False, closed = False, api_version = 0, max_sessions = 0, snapshot_version = 0,
     snapshot = False, status = 0, warnings = 0, errno = 0, err_message = [], sqlstate = [],
     affected = [], insert_id = [], columns = None, rows = None\<rparr>"

abbreviation list_of :: "'a list option \<Rightarrow> 'a list" where
  "list_of xs \<equiv> (case xs of None \<Rightarrow> [] | Some ys \<Rightarrow> ys)"

text \<open>
  \<open>UnmarshalJSON\<close> reads \<open>server_status\<close> as an unsigned 32-bit number and keeps its low 16 bits; the
  other fields are decoded by \<open>encoding/json\<close>. The raw token is absent, the literal null, or a
  number; \<open>parse_uint32\<close> rejects what \<open>json.Unmarshal\<close> into a \<open>uint32\<close> rejects.
\<close>

definition decode_status :: "string option \<Rightarrow> goerr + u16" where
  "decode_status raw =
     (case raw of
        None \<Rightarrow> Inr 0
      | Some t \<Rightarrow>
          if t = ''null'' then Inl (Sentinel ''invalid null server_status'')
          else case parse_uint 32 t of
            None \<Rightarrow> Inl (Wrapped ''invalid server_status: '' (Sentinel ''json'') '''')
          | Some n \<Rightarrow> Inr (ucast (word_of_nat n :: u32)))"

end
