(* ===== verification/PreparedRequest.thy ===== *)
theory PreparedRequest
  imports GoStd
begin

text \<open>
  The host/guest statement envelope of \<open>internal/preparedproto/request.go\<close>: a 16-byte header
  (magic \<open>PS\<close>, version, operation, generation, handle, payload length) and the payload.
  \<open>encode\<close> and \<open>decode\<close> validate the operation-specific shape; both report only
  \<open>ErrEnvelope\<close>.
\<close>

definition pp_version :: u8 where "pp_version = 1"
definition op_prepare :: u8 where "op_prepare = 22"
definition op_execute :: u8 where "op_execute = 23"
definition op_long_data :: u8 where "op_long_data = 24"
definition op_close :: u8 where "op_close = 25"
definition op_reset :: u8 where "op_reset = 26"
definition header_size :: nat where "header_size = 16"
definition max_sql :: nat where "max_sql = 1048576"
definition max_envelope :: nat where "max_envelope = 33554432"

lemmas pp_ops = op_prepare_def op_execute_def op_long_data_def op_close_def op_reset_def
lemmas pp_consts = pp_version_def pp_ops header_size_def max_sql_def max_envelope_def

datatype envelope_error = ErrEnvelope

record request =
  operation :: u8
  generation :: u32
  handle :: u32
  payload :: bytes

definition valid_request :: "request \<Rightarrow> bool" where
  "valid_request r =
     (if generation r = 0 \<or> max_envelope - header_size < length (payload r) then False
      else if operation r = op_prepare then
        handle r = 0 \<and> 0 < length (payload r) \<and> length (payload r) \<le> max_sql
      else if operation r = op_close \<or> operation r = op_reset then
        handle r \<noteq> 0 \<and> length (payload r) = 0
      else if operation r = op_execute \<or> operation r = op_long_data then handle r \<noteq> 0
      else False)"

definition encode_request :: "request \<Rightarrow> envelope_error + bytes" where
  "encode_request r =
     (if \<not> valid_request r then Inl ErrEnvelope
      else Inr ([80, 83, pp_version, operation r] @ le32 (generation r) @ le32 (handle r)
                @ le32 (word_of_nat (length (payload r))) @ payload r))"

definition decode_request :: "bytes \<Rightarrow> envelope_error + request" where
  "decode_request b =
     (if length b < header_size \<or> max_envelope < length b
         \<or> b ! 0 \<noteq> 80 \<or> b ! 1 \<noteq> 83 \<or> b ! 2 \<noteq> pp_version then Inl ErrEnvelope
      else
        let n = (get_le (take 4 (drop 12 b)) :: u32) in
        if unat n \<noteq> length b - header_size then Inl ErrEnvelope
        else
          let r = \<lparr>operation = b ! 3, generation = get_le (take 4 (drop 4 b)),
                   handle = get_le (take 4 (drop 8 b)), payload = drop header_size b\<rparr> in
          if \<not> valid_request r then Inl ErrEnvelope else Inr r)"

lemma valid_request_payload: "valid_request r \<Longrightarrow> length (payload r) \<le> max_envelope - header_size"
  by (simp add: valid_request_def split: if_splits)

lemma encode_request_valid: "encode_request r = Inr b \<longleftrightarrow> valid_request r \<and>
    b = [80, 83, pp_version, operation r] @ le32 (generation r) @ le32 (handle r)
        @ le32 (word_of_nat (length (payload r))) @ payload r"
  by (auto simp: encode_request_def)

text \<open>The header written by the encoder, read back at the decoder's offsets.\<close>

lemma header_fields:
  fixes g h n :: u32
  assumes b_def: "b = [80, 83, v, op] @ le32 g @ le32 h @ le32 n @ p"
  shows "length b = 16 + length p" "b ! 0 = 80" "b ! 1 = 83" "b ! 2 = v" "b ! 3 = op"
    "take 4 (drop 4 b) = le32 g" "take 4 (drop 8 b) = le32 h" "take 4 (drop 12 b) = le32 n"
    "drop 16 b = p"
  by (simp_all add: b_def numeral_nat)

lemma decode_encode_request:
  assumes "encode_request r = Inr b"
  shows "decode_request b = Inr r"
proof -
  have v: "valid_request r"
    and b: "b = [80, 83, pp_version, operation r] @ le32 (generation r) @ le32 (handle r)
        @ le32 (word_of_nat (length (payload r))) @ payload r"
    using assms by (auto simp: encode_request_valid)
  have len: "length (payload r) \<le> 33554416"
    using valid_request_payload [OF v] by (simp add: pp_consts)
  note f = header_fields [OF b]
  have "\<lparr>operation = operation r, generation = generation r, handle = handle r,
         payload = payload r\<rparr> = r" by simp
  with v have "valid_request \<lparr>operation = operation r, generation = generation r,
      handle = handle r, payload = payload r\<rparr>" by metis
  with len f show ?thesis
    by (simp add: decode_request_def header_size_def max_envelope_def Let_def)
qed

lemma split_header:
  assumes "16 \<le> length b"
  shows "b = take 4 b @ take 4 (drop 4 b) @ take 4 (drop 8 b) @ take 4 (drop 12 b) @ drop 16 b"
    and "take 4 b = [b ! 0, b ! 1, b ! 2, b ! 3]"
proof -
  show "b = take 4 b @ take 4 (drop 4 b) @ take 4 (drop 8 b) @ take 4 (drop 12 b) @ drop 16 b"
    using drop_split [of 0 b 4] drop_split [of 4 b 4] drop_split [of 8 b 4] drop_split [of 12 b 4]
    by simp
  show "take 4 b = [b ! 0, b ! 1, b ! 2, b ! 3]"
    using assms by (intro take4_eq) simp
qed

lemma encode_decode_request:
  assumes "decode_request b = Inr r"
  shows "encode_request r = Inr b"
proof -
  let ?r = "\<lparr>operation = b ! 3, generation = get_le (take 4 (drop 4 b)),
                   handle = get_le (take 4 (drop 8 b)), payload = drop header_size b\<rparr>"
  let ?n = "get_le (take 4 (drop 12 b)) :: u32"
  have len: "16 \<le> length b" "length b \<le> 33554432" "b ! 0 = 80" "b ! 1 = 83" "b ! 2 = pp_version"
    and n: "unat ?n = length b - 16" and r: "r = ?r" and v: "valid_request r"
    using assms by (auto simp: decode_request_def Let_def header_size_def max_envelope_def
        split: if_splits)
  have w: "(word_of_nat (length b - 16) :: u32) = ?n" by (simp flip: n)
  have fields: "le32 (get_le (take 4 (drop 4 b))) = take 4 (drop 4 b)"
    "le32 (get_le (take 4 (drop 8 b))) = take 4 (drop 8 b)" "le32 ?n = take 4 (drop 12 b)"
    using len by (simp_all add: put_get_le_32)
  have "[80, 83, pp_version, b ! 3] @ take 4 (drop 4 b) @ take 4 (drop 8 b)
      @ take 4 (drop 12 b) @ drop 16 b = b"
    using split_header [OF len(1)] len by metis
  with v show ?thesis
    by (simp add: encode_request_valid r w fields header_size_def)
qed

section \<open>Property\<close>

text \<open>
  The envelope codec is a bijection between valid requests and the packets \<open>Decode\<close> accepts:
  a request encodes to a packet exactly when that packet decodes to the request. In particular
  \<open>Decode\<close> accepts no packet that \<open>Encode\<close> could not have produced.
\<close>

lemma request_envelope_bijection: "encode_request r = Inr b \<longleftrightarrow> decode_request b = Inr r"
  using decode_encode_request encode_decode_request by blast

end
