(* ===== verification/PreparedValues.thy ===== *)
theory PreparedValues
  imports PreparedRequest
begin

text \<open>
  The typed value codecs of \<open>internal/preparedproto/values.go\<close>: the shape of each MySQL parameter
  type, the internal EXECUTE payload (\<open>EncodeValues\<close>, \<open>DecodeValues\<close>), the client's
  COM_STMT_EXECUTE body (\<open>DecodeExecute\<close>, \<open>DecodeExecuteLongData\<close>), length-encoded integers
  (\<open>readLength\<close>, \<open>appendLength\<close>) and the binary result row (\<open>EncodeBinaryRow\<close>).
  \<open>value_shape\<close> is an \<open>int\<close> as in the code: a positive width, 0 for NULL, -1 for length-encoded
  bytes, -2 for a temporal body and -3 for a type that is rejected.
\<close>

datatype value_error = ErrValue
datatype exec_error = ErrExecute | ErrCursor

record ptype =
  p_type :: u8
  p_unsigned :: bool

record pvalue =
  v_ptype :: ptype
  v_null :: bool
  v_bytes :: bytes

definition value_shape :: "u8 \<Rightarrow> int" where
  "value_shape t =
     (if t = 1 then 1
      else if t = 2 \<or> t = 13 then 2
      else if t = 3 \<or> t = 9 \<or> t = 4 then 4
      else if t = 8 \<or> t = 5 then 8
      else if t = 6 then 0
      else if t = 7 \<or> t = 10 \<or> t = 11 \<or> t = 12 \<or> t = 14 then -2
      else if t = 0 \<or> t = 15 \<or> t = 16 \<or> t = 246 \<or> t = 247 \<or> t = 248 \<or> t = 249 \<or> t = 250
        \<or> t = 251 \<or> t = 252 \<or> t = 253 \<or> t = 254 \<or> t = 255 then -1
      else -3)"

definition valid_value :: "pvalue \<Rightarrow> bool" where
  "valid_value v =
     (let s = value_shape (p_type (v_ptype v)); n = length (v_bytes v); t = p_type (v_ptype v) in
      if s = -3 then False
      else if v_null v then n = 0
      else if 0 \<le> s then s \<noteq> 0 \<and> int n = s
      else if s = -1 then True
      else if t = 10 \<or> t = 14 then n = 0 \<or> n = 4
      else if t = 7 \<or> t = 12 then n = 0 \<or> n = 4 \<or> n = 7 \<or> n = 11
      else if t = 11 then n = 0 \<or> n = 8 \<or> n = 12
      else False)"

lemma value_shape_cases:
  "value_shape t = 1 \<or> value_shape t = 2 \<or> value_shape t = 4 \<or> value_shape t = 8
   \<or> value_shape t = 0 \<or> value_shape t = -2 \<or> value_shape t = -1 \<or> value_shape t = -3"
  by (simp add: value_shape_def)

lemma value_shape_6 [simp]: "value_shape 6 = 0"
  by (simp add: value_shape_def)

lemma value_shape_0: "value_shape t = 0 \<longleftrightarrow> t = 6"
  by (simp add: value_shape_def)

lemma valid_value_null: "valid_value v \<Longrightarrow> v_null v \<Longrightarrow> v_bytes v = []"
  by (simp add: valid_value_def Let_def split: if_splits)

lemma valid_value_shape: "valid_value v \<Longrightarrow> value_shape (p_type (v_ptype v)) \<noteq> -3"
  by (simp add: valid_value_def Let_def split: if_splits)

lemma valid_value_fixed:
  "valid_value v \<Longrightarrow> \<not> v_null v \<Longrightarrow> 0 \<le> value_shape (p_type (v_ptype v)) \<Longrightarrow>
     int (length (v_bytes v)) = value_shape (p_type (v_ptype v)) \<and> 0 < value_shape (p_type (v_ptype v))"
  by (simp add: valid_value_def Let_def split: if_splits)

lemma valid_value_temporal:
  "valid_value v \<Longrightarrow> \<not> v_null v \<Longrightarrow> value_shape (p_type (v_ptype v)) = -2 \<Longrightarrow>
     length (v_bytes v) \<le> 12"
  by (auto simp: valid_value_def Let_def split: if_splits)

section \<open>The internal EXECUTE payload\<close>

text \<open>
  \<open>values_size\<close> is the validation pass of \<open>EncodeValues\<close>; \<open>None\<close> is \<open>ErrValue\<close>. The code's
  comparison \<open>len > MaxEnvelope - HeaderSize - n - 8\<close> is on signed ints and is written here without
  the subtraction.
\<close>

fun values_size :: "nat \<Rightarrow> pvalue list \<Rightarrow> nat option" where
  "values_size n [] = Some n"
| "values_size n (v # vs) =
     (if \<not> valid_value v \<or> max_envelope - header_size < n + 8 + length (v_bytes v) then None
      else values_size (n + 8 + length (v_bytes v)) vs)"

definition value_flags :: "pvalue \<Rightarrow> u8" where
  "value_flags v = (if p_unsigned (v_ptype v) then 1 else 0) OR (if v_null v then 2 else 0)"

definition encode_value :: "pvalue \<Rightarrow> bytes" where
  "encode_value v = [p_type (v_ptype v), value_flags v, 0, 0]
     @ le32 (word_of_nat (length (v_bytes v))) @ v_bytes v"

definition encode_values :: "pvalue list \<Rightarrow> value_error + bytes" where
  "encode_values vs =
     (if 65535 < length vs then Inl ErrValue
      else case values_size 4 vs of
        None \<Rightarrow> Inl ErrValue
      | Some n \<Rightarrow> Inr (le32 (word_of_nat (length vs)) @ concat (map encode_value vs)))"

text \<open>One item of \<open>DecodeValues\<close>, and its scan over the whole body.\<close>

definition decode_value :: "bytes \<Rightarrow> (pvalue \<times> bytes) option" where
  "decode_value p =
     (if length p < 8 \<or> (p ! 1) AND NOT 3 \<noteq> 0 \<or> p ! 2 \<noteq> 0 \<or> p ! 3 \<noteq> 0 then None
      else
        let n = unat (get_le (take 4 (drop 4 p)) :: u32) in
        if length p - 8 < n then None
        else
          let v = \<lparr>v_ptype = \<lparr>p_type = p ! 0, p_unsigned = (p ! 1) AND 1 \<noteq> 0\<rparr>,
                   v_null = (p ! 1) AND 2 \<noteq> 0, v_bytes = take n (drop 8 p)\<rparr> in
          if \<not> valid_value v then None
          else Some (if v_null v then v\<lparr>v_bytes := []\<rparr> else v, drop (8 + n) p))"

definition decode_values :: "bytes \<Rightarrow> u16 \<Rightarrow> value_error + pvalue list" where
  "decode_values b expected =
     (if length b < 4 \<or> max_envelope - header_size < length b
         \<or> (get_le (take 4 b) :: u32) \<noteq> ucast expected then Inl ErrValue
      else case decode_seq decode_value (unat expected) (drop 4 b) of
        None \<Rightarrow> Inl ErrValue
      | Some (vs, rest) \<Rightarrow> if rest \<noteq> [] then Inl ErrValue else Inr vs)"

lemma value_flags_bits:
  "value_flags v AND NOT 3 = 0" "(value_flags v AND 1 \<noteq> 0) = p_unsigned (v_ptype v)"
  "(value_flags v AND 2 \<noteq> 0) = v_null v" "value_flags v AND - 4 = 0"
  by (simp_all add: value_flags_def)

lemma flag_byte_cases:
  assumes "w AND NOT 3 = (0 :: u8)"
  shows "w = 0 \<or> w = 1 \<or> w = 2 \<or> w = 3"
proof -
  have "(w AND 3) OR (w AND NOT 3) = w AND (3 OR NOT 3)"
    by (simp only: bit.conj_disj_distrib)
  then have "w = w AND mask 2" using assms by (simp add: mask_numeral)
  then have "unat w = unat (take_bit 2 w)" by (metis take_bit_eq_mask)
  also have "\<dots> = take_bit 2 (unat w)" by (rule unsigned_take_bit_eq)
  also have "\<dots> < 2 ^ 2" by (rule take_bit_nat_less_exp)
  finally have "unat w < 4" by simp
  then have "unat w = unat (0::u8) \<or> unat w = unat (1::u8) \<or> unat w = unat (2::u8) \<or> unat w = unat (3::u8)"
    by auto
  then show ?thesis by (metis word_unat_eq_iff)
qed

lemma value_flags_of_bits:
  assumes "w AND NOT 3 = (0 :: u8)"
  shows "(if w AND 1 \<noteq> 0 then 1 else 0) OR (if w AND 2 \<noteq> 0 then 2 else 0) = w"
  using flag_byte_cases [OF assms] by auto

section \<open>Round trips of the internal payload\<close>

lemma decode_value_encode:
  assumes "valid_value v" and "length (v_bytes v) < 4294967296"
  shows "decode_value (encode_value v @ rest) = Some (v, rest)"
proof -
  let ?p = "encode_value v @ rest"
  have f: "?p ! 0 = p_type (v_ptype v)" "?p ! 1 = value_flags v" "?p ! 2 = 0" "?p ! 3 = 0"
    "take 4 (drop 4 ?p) = le32 (word_of_nat (length (v_bytes v)))" "drop 8 ?p = v_bytes v @ rest"
    "length ?p = 8 + length (v_bytes v) + length rest"
    by (simp_all add: encode_value_def numeral_nat)
  have d: "drop (8 + length (v_bytes v)) ?p = rest" by (simp add: encode_value_def numeral_nat)
  have rec: "\<lparr>v_ptype = \<lparr>p_type = p_type (v_ptype v), p_unsigned = p_unsigned (v_ptype v)\<rparr>,
      v_null = v_null v, v_bytes = v_bytes v\<rparr> = v" by simp
  have "decode_value ?p = Some (if v_null v then v\<lparr>v_bytes := []\<rparr> else v, rest)"
    using assms f d by (simp add: decode_value_def Let_def value_flags_bits rec del: One_nat_def)
  moreover have "v\<lparr>v_bytes := []\<rparr> = v" if "v_null v"
    using valid_value_null [OF assms(1) that] by (metis pvalue.surjective pvalue.update_convs(3))
  ultimately show ?thesis by simp
qed

interpretation value_codec:
  prefix_codec encode_value decode_value "\<lambda>v. valid_value v \<and> length (v_bytes v) < 4294967296"
  by unfold_locales (simp add: decode_value_encode)

lemma values_size_Some:
  "values_size n vs = Some m \<Longrightarrow> (\<forall>v\<in>set vs. valid_value v) \<and>
     m = n + length (concat (map encode_value vs)) \<and>
     (n \<le> max_envelope - header_size \<longrightarrow> m \<le> max_envelope - header_size)"
proof (induction vs arbitrary: n)
  case (Cons v vs)
  then have "values_size (n + 8 + length (v_bytes v)) vs = Some m" "valid_value v"
    "n + 8 + length (v_bytes v) \<le> max_envelope - header_size"
    by (auto split: if_splits)
  with Cons.IH [of "n + 8 + length (v_bytes v)"] show ?case by (simp add: encode_value_def)
qed simp

lemma values_size_complete:
  "\<forall>v\<in>set vs. valid_value v \<Longrightarrow> n + length (concat (map encode_value vs)) \<le> max_envelope - header_size
   \<Longrightarrow> values_size n vs = Some (n + length (concat (map encode_value vs)))"
  by (induction vs arbitrary: n) (auto simp: encode_value_def)

lemma encode_values_Inr:
  "encode_values vs = Inr b \<longleftrightarrow>
     length vs \<le> 65535 \<and> (\<forall>v\<in>set vs. valid_value v) \<and> length b \<le> max_envelope - header_size \<and>
     b = le32 (word_of_nat (length vs)) @ concat (map encode_value vs)"
  using values_size_Some [of 4 vs] values_size_complete [of vs 4]
  by (auto simp: encode_values_def header_size_def max_envelope_def split: option.splits)

lemma decode_encode_values:
  assumes "encode_values vs = Inr b"
  shows "decode_values b (word_of_nat (length vs)) = Inr vs"
proof -
  have len: "length vs \<le> 65535" "\<forall>v\<in>set vs. valid_value v" "length b \<le> 33554416"
    and b: "b = le32 (word_of_nat (length vs)) @ concat (map encode_value vs)"
    using assms by (auto simp: encode_values_Inr header_size_def max_envelope_def)
  have count: "(ucast (word_of_nat (length vs) :: u16) :: u32) = word_of_nat (length vs)"
    using len(1) by (intro ucast_of_nat_u16_u32) simp
  have small: "length (v_bytes v) < 4294967296" if "v \<in> set vs" for v
  proof -
    have "length (encode_value v) \<le> length (concat (map encode_value vs))"
      using that by (auto simp: length_concat intro: member_le_sum_list)
    then show ?thesis using len(3) b by (simp add: encode_value_def)
  qed
  have "decode_seq decode_value (length vs) (concat (map encode_value vs) @ []) = Some (vs, [])"
    by (rule value_codec.decode_seq_concat) (use len(2) small in \<open>auto simp: list_all_iff\<close>)
  with len b count show ?thesis
    by (simp add: decode_values_def header_size_def max_envelope_def)
qed

lemma encode_decode_value:
  assumes "decode_value p = Some (v, r)"
  shows "valid_value v \<and> encode_value v @ r = p"
proof -
  let ?n = "get_le (take 4 (drop 4 p)) :: u32"
  let ?v = "\<lparr>v_ptype = \<lparr>p_type = p ! 0, p_unsigned = (p ! 1) AND 1 \<noteq> 0\<rparr>,
                   v_null = (p ! 1) AND 2 \<noteq> 0, v_bytes = take (unat ?n) (drop 8 p)\<rparr>"
  have g: "8 \<le> length p" "(p ! 1) AND NOT 3 = 0" "p ! 2 = 0" "p ! 3 = 0"
    "unat ?n \<le> length p - 8" "valid_value ?v"
    and v: "v = (if v_null ?v then ?v\<lparr>v_bytes := []\<rparr> else ?v)" and r: "r = drop (8 + unat ?n) p"
    using assms by (auto simp: decode_value_def Let_def split: if_splits)
  have "v = ?v" using v valid_value_null [OF g(6)] by (auto split: if_splits)
  moreover have "length (take (unat ?n) (drop 8 p)) = unat ?n" using g(5) by simp
  moreover have "le32 ?n = take 4 (drop 4 p)" using g(1) by (simp add: put_get_le_32)
  moreover have "value_flags ?v = p ! 1"
    using value_flags_of_bits [OF g(2)] by (simp add: value_flags_def)
  moreover have "take 4 p = [p ! 0, p ! 1, p ! 2, p ! 3]"
    using g(1) by (intro take4_eq) simp
  moreover have "p = take 4 p @ take 4 (drop 4 p) @ take (unat ?n) (drop 8 p) @ drop (8 + unat ?n) p"
    using drop_split [of 0 p 4] drop_split [of 4 p 4] drop_split [of 8 p "unat ?n"] by simp
  ultimately show ?thesis
    using g by (simp add: encode_value_def r)
qed

lemma decode_seq_encode:
  "decode_seq decode_value n p = Some (vs, r) \<Longrightarrow>
     length vs = n \<and> (\<forall>v\<in>set vs. valid_value v) \<and> concat (map encode_value vs) @ r = p"
proof (induction n arbitrary: p vs r)
  case 0
  then show ?case by simp
next
  case (Suc n)
  then show ?case by (fastforce split: option.splits dest: encode_decode_value)
qed

lemma encode_decode_values:
  assumes "decode_values b n = Inr vs"
  shows "length vs = unat n \<and> encode_values vs = Inr b"
proof -
  have g: "4 \<le> length b" "length b \<le> max_envelope - header_size" "get_le (take 4 b) = (ucast n :: u32)"
    and d: "decode_seq decode_value (unat n) (drop 4 b) = Some (vs, [])"
    using assms by (auto simp: decode_values_def split: if_splits option.splits)
  note s = decode_seq_encode [OF d]
  have "take 4 b = le32 (ucast n)" using g(1,3) by (metis length_take min.absorb2 put_get_le_32)
  moreover have "(ucast n :: u32) = word_of_nat (length vs)" using s by (simp add: unsigned_ucast_eq)
  ultimately have "b = le32 (word_of_nat (length vs)) @ concat (map encode_value vs)"
    using s by (metis append_Nil2 append_take_drop_id)
  then show ?thesis
    using s g(2) by (simp add: encode_values_Inr)
qed

section \<open>Property\<close>

text \<open>
  C1. The internal EXECUTE payload is canonical: a value list encodes to a body exactly when it has
  at most 65535 values and the body decodes, under that count, to the same list. Types, unsigned
  flags, NULLs and every byte survive, and \<open>DecodeValues\<close> accepts no second encoding of a list.
\<close>

theorem values_bijection:
  "encode_values vs = Inr b \<longleftrightarrow>
     length vs \<le> 65535 \<and> decode_values b (word_of_nat (length vs)) = Inr vs"
  using decode_encode_values encode_decode_values encode_values_Inr by blast

end
