(* ===== verification/PreparedExecute.thy ===== *)
theory PreparedExecute
  imports PreparedValues
begin

text \<open>
  The client-facing half of \<open>internal/preparedproto/values.go\<close>: length-encoded integers, the
  COM_STMT_EXECUTE decoder and the binary row encoder. The spec-level functions \<open>encode_inline\<close>,
  \<open>sent_bytes\<close>, \<open>execute_packet\<close> and \<open>decode_binary_row\<close> say what a client writes and reads; they are
  the other end of the wire and model no code here.
\<close>

section \<open>Length-encoded integers\<close>

definition read_length :: "bytes \<Rightarrow> (u64 \<times> bytes) option" where
  "read_length b =
     (case b of [] \<Rightarrow> None
      | x # r \<Rightarrow>
          if x = 251 \<or> x = 255 then None
          else if x = 252 \<or> x = 253 \<or> x = 254 then
            let n = (if x = 252 then 2 else if x = 253 then 3 else 8) in
            if length b < n + 1 then None else Some (get_le (take n r), drop n r)
          else Some (ucast x, r))"

definition length_prefix_size :: "u64 \<Rightarrow> nat" where
  "length_prefix_size n =
     (if n < 251 then 1 else if n < 65536 then 3 else if n < 16777216 then 4 else 9)"

definition append_length :: "bytes \<Rightarrow> u64 \<Rightarrow> bytes" where
  "append_length b n =
     (if length_prefix_size n = 1 then b @ [ucast n]
      else if length_prefix_size n = 3 then b @ [252] @ le16 (ucast n)
      else if length_prefix_size n = 4 then b @ [253] @ put_le 3 n
      else b @ [254] @ le64 n)"

lemma append_length_prefix: "append_length b n = b @ append_length [] n"
  by (simp add: append_length_def)

lemma length_append_length: "length (append_length [] n) = length_prefix_size n"
  by (simp add: append_length_def length_prefix_size_def)

lemma ucast_u8_small: "(n :: u64) < 251 \<Longrightarrow> ucast (ucast n :: u8) = n \<and> (ucast n :: u8) < 251"
  using take_bit_nat_eq_self [of "unat n" 8]
  by (simp add: word_unat_eq_iff word_less_nat_alt unsigned_ucast_eq unsigned_take_bit_eq)

lemma ucast_u16_get: "(n :: u64) < 65536 \<Longrightarrow> get_le (le16 (ucast n)) = n"
proof -
  assume "n < 65536"
  then have "take_bit 16 n = n"
    by (simp add: word_unat_eq_iff word_less_nat_alt unsigned_take_bit_eq take_bit_nat_eq_self_iff)
  moreover have "le16 (ucast n) = put_le 2 n"
    by (simp add: numeral_2_eq_2) (auto intro!: bit_word_eqI simp: bit_simps)
  ultimately show ?thesis by (simp add: get_put_le)
qed

lemma read_append_length: "read_length (append_length [] n @ r) = Some (n, r)"
proof -
  consider "n < 251" | "251 \<le> n" "n < 65536" | "65536 \<le> n" "n < 16777216" | "16777216 \<le> n"
    by (meson not_le)
  then show ?thesis
  proof cases
    case 1
    have "(ucast n :: u8) \<noteq> w" if "251 \<le> w" for w using ucast_u8_small [OF 1] that by auto
    with ucast_u8_small [OF 1] 1 show ?thesis
      by (simp add: append_length_def length_prefix_size_def read_length_def word_le_nat_alt)
  next
    case 2
    then have "length_prefix_size n = 3" by (simp add: length_prefix_size_def not_less)
    then show ?thesis
      using ucast_u16_get [OF 2(2)] by (simp add: append_length_def read_length_def Let_def)
  next
    case 3
    have "take_bit 24 n = n"
      using 3 by (simp add: word_unat_eq_iff word_less_nat_alt unsigned_take_bit_eq take_bit_nat_eq_self_iff)
    moreover have "length_prefix_size n = 4"
      using 3 by (auto simp: length_prefix_size_def not_less word_le_nat_alt word_less_nat_alt)
    ultimately show ?thesis
      by (simp add: append_length_def read_length_def Let_def get_put_le)
  next
    case 4
    then have "length_prefix_size n = 9"
      by (auto simp: length_prefix_size_def not_less word_le_nat_alt word_less_nat_alt)
    then show ?thesis by (simp add: append_length_def read_length_def Let_def)
  qed
qed

interpretation length_codec: prefix_codec "append_length []" read_length "\<lambda>_. True"
  by unfold_locales (simp add: read_append_length)

lemma read_length_shorter: "read_length b = Some (n, r) \<Longrightarrow> length r < length b"
  by (auto simp: read_length_def Let_def split: list.splits if_splits)

section \<open>Null bitmaps\<close>

definition mask_bit :: "bytes \<Rightarrow> nat \<Rightarrow> bool" where
  "mask_bit nm i \<longleftrightarrow> (nm ! (i div 8)) AND push_bit (i mod 8) 1 \<noteq> 0"

definition set_mask_bit :: "bytes \<Rightarrow> nat \<Rightarrow> bytes" where
  "set_mask_bit m i = m[i div 8 := (m ! (i div 8)) OR push_bit (i mod 8) 1]"

fun set_nulls :: "nat \<Rightarrow> bool list \<Rightarrow> bytes \<Rightarrow> bytes" where
  "set_nulls i [] m = m"
| "set_nulls i (x # xs) m = set_nulls (Suc i) xs (if x then set_mask_bit m i else m)"

lemma mask_bit_iff: "mask_bit nm i \<longleftrightarrow> bit (nm ! (i div 8)) (i mod 8)"
  by (simp add: mask_bit_def bit_iff_and_push_bit_not_eq_0)

lemma length_set_mask_bit [simp]: "length (set_mask_bit m i) = length m"
  by (simp add: set_mask_bit_def)

lemma length_set_nulls [simp]: "length (set_nulls i xs m) = length m"
  by (induction i xs m rule: set_nulls.induct) auto

lemma mask_bit_set:
  assumes "i < 8 * length m" "k < 8 * length m"
  shows "mask_bit (set_mask_bit m i) k \<longleftrightarrow> k = i \<or> mask_bit m k"
proof (cases "k div 8 = i div 8")
  case True
  have "bit (push_bit (i mod 8) 1 :: u8) (k mod 8) \<longleftrightarrow> k mod 8 = i mod 8"
    by (auto simp: bit_simps)
  moreover have "k mod 8 = i mod 8 \<longleftrightarrow> k = i" using True by (metis div_mult_mod_eq)
  moreover have "i div 8 < length m" using assms(1) by linarith
  ultimately show ?thesis
    using True by (auto simp: mask_bit_iff set_mask_bit_def bit_or_iff)
next
  case False
  then show ?thesis by (auto simp: mask_bit_iff set_mask_bit_def)
qed

lemma mask_bit_set_nulls:
  "i + length xs \<le> 8 * length m \<Longrightarrow> k < 8 * length m \<Longrightarrow>
   mask_bit (set_nulls i xs m) k \<longleftrightarrow> mask_bit m k \<or> (i \<le> k \<and> k < i + length xs \<and> xs ! (k - i))"
proof (induction xs arbitrary: i m)
  case Nil
  then show ?case by auto
next
  case (Cons x xs)
  have i: "i < 8 * length m" using Cons.prems by simp
  let ?m = "if x then set_mask_bit m i else m"
  have "mask_bit (set_nulls (Suc i) xs ?m) k \<longleftrightarrow>
      mask_bit ?m k \<or> (Suc i \<le> k \<and> k < Suc i + length xs \<and> xs ! (k - Suc i))"
    using Cons.prems by (intro Cons.IH) auto
  moreover have "mask_bit ?m k \<longleftrightarrow> (x \<and> k = i) \<or> mask_bit m k"
    using i Cons.prems(2) by (simp add: mask_bit_set)
  moreover have "k = i \<or> k < i \<or> (Suc i \<le> k \<and> (x # xs) ! (k - i) = xs ! (k - Suc i))"
    by (auto simp: nth_Cons' Suc_diff_Suc not_less)
  ultimately show ?case by auto
qed

lemma mask_bit_zeros [simp]: "k < 8 * n \<Longrightarrow> \<not> mask_bit (replicate n 0) k"
  by (simp add: mask_bit_iff)

section \<open>COM_STMT_EXECUTE\<close>

text \<open>
  The inline bytes of one non-null value: \<open>read_inline\<close> is the size computation and the slice of
  the decoder's loop body.
\<close>

definition read_inline :: "u8 \<Rightarrow> bytes \<Rightarrow> (bytes \<times> bytes) option" where
  "read_inline t p =
     (let size = value_shape t in
      case (if 0 < size then Some (word_of_int size, p)
            else if size = -2 then (case p of [] \<Rightarrow> None | x # r \<Rightarrow> Some (ucast x, r))
            else read_length p) of
        None \<Rightarrow> None
      | Some (n :: u64, q) \<Rightarrow>
          if length q < unat n then None else Some (take (unat n) q, drop (unat n) q))"

fun exec_values :: "nat \<Rightarrow> ptype list \<Rightarrow> bytes \<Rightarrow> (u16 \<Rightarrow> bool) \<Rightarrow> bytes \<Rightarrow> (pvalue list \<times> bytes) option" where
  "exec_values i [] nm pending p = Some ([], p)"
| "exec_values i (t # ts) nm pending p =
     (if value_shape (p_type t) = -3 then None
      else
        let null = (mask_bit nm i \<or> p_type t = 6) in
        case (if pending (word_of_nat i) then Some (\<lparr>v_ptype = t, v_null = True, v_bytes = []\<rparr>, p)
              else case (if null then Some ([], p) else read_inline (p_type t) p) of
                None \<Rightarrow> None
              | Some (bs, p') \<Rightarrow>
                  let v = \<lparr>v_ptype = t, v_null = null, v_bytes = bs\<rparr> in
                  if valid_value v then Some (v, p') else None) of
          None \<Rightarrow> None
        | Some (v, p') \<Rightarrow>
            (case exec_values (Suc i) ts nm pending p' of
               None \<Rightarrow> None
             | Some (vs, r) \<Rightarrow> Some (v # vs, r)))"

text \<open>The fresh type descriptors: two bytes each, of which only the unsigned bit may be a flag.\<close>

fun read_types :: "nat \<Rightarrow> bytes \<Rightarrow> ptype list option" where
  "read_types 0 p = Some []"
| "read_types (Suc n) (t # f # p) =
     (if f AND NOT 128 \<noteq> 0 \<or> value_shape t = -3 then None
      else map_option (Cons \<lparr>p_type = t, p_unsigned = f AND 128 \<noteq> 0\<rparr>) (read_types n p))"
| "read_types (Suc n) p = None"

definition decode_execute_long_data ::
  "bytes \<Rightarrow> u16 \<Rightarrow> ptype list \<Rightarrow> (u16 \<Rightarrow> bool) \<Rightarrow> exec_error + (pvalue list \<times> ptype list)" where
  "decode_execute_long_data packet count previous pending =
     (if length packet < 9 \<or> max_sql < length packet then Inl ErrExecute
      else if packet ! 4 \<noteq> 0 then Inl ErrCursor
      else if (get_le (take 4 (drop 5 packet)) :: u32) \<noteq> 1 then Inl ErrExecute
      else
        let p = drop 9 packet in
        if count = 0 then
          if 1 < length p \<or> (length p = 1 \<and> 1 < p ! 0) then Inl ErrExecute else Inr ([], [])
        else
          let n = unat count; mask_size = (n + 7) div 8 in
          if length p < mask_size + 1 then Inl ErrExecute
          else if 1 < p ! mask_size then Inl ErrExecute
          else
            let nm = take mask_size p; fresh = (p ! mask_size \<noteq> 0); q = drop (mask_size + 1) p in
            case (if fresh then
                    if length q < 2 * n then None
                    else map_option (\<lambda>ts. (ts, drop (2 * n) q)) (read_types n q)
                  else if length previous \<noteq> n then None else Some (previous, q)) of
              None \<Rightarrow> Inl ErrExecute
            | Some (types, r) \<Rightarrow>
                (case exec_values 0 types nm pending r of
                   None \<Rightarrow> Inl ErrExecute
                 | Some (vs, rest) \<Rightarrow> if rest \<noteq> [] then Inl ErrExecute else Inr (vs, types)))"

definition decode_execute :: "bytes \<Rightarrow> u16 \<Rightarrow> ptype list \<Rightarrow> exec_error + (pvalue list \<times> ptype list)" where
  "decode_execute packet count previous = decode_execute_long_data packet count previous (\<lambda>_. False)"

section \<open>What a client sends\<close>

definition encode_inline :: "pvalue \<Rightarrow> bytes" where
  "encode_inline v =
     (let s = value_shape (p_type (v_ptype v)); n = length (v_bytes v) in
      if v_null v then []
      else if s = -1 then append_length [] (word_of_nat n) @ v_bytes v
      else if s = -2 then word_of_nat n # v_bytes v
      else v_bytes v)"

text \<open>
  The inline bytes of a parameter list where the parameters marked \<open>pending\<close> travel as long data,
  and the values the decoder makes of it: a typed NULL stands for each pending parameter.
\<close>

fun sent_bytes :: "(u16 \<Rightarrow> bool) \<Rightarrow> nat \<Rightarrow> pvalue list \<Rightarrow> bytes" where
  "sent_bytes pending i [] = []"
| "sent_bytes pending i (v # vs) =
     (if pending (word_of_nat i) then [] else encode_inline v) @ sent_bytes pending (Suc i) vs"

fun held_values :: "(u16 \<Rightarrow> bool) \<Rightarrow> nat \<Rightarrow> pvalue list \<Rightarrow> pvalue list" where
  "held_values pending i [] = []"
| "held_values pending i (v # vs) =
     (if pending (word_of_nat i) then \<lparr>v_ptype = v_ptype v, v_null = True, v_bytes = []\<rparr> else v)
     # held_values pending (Suc i) vs"

lemma sent_bytes_none: "sent_bytes (\<lambda>_. False) i vs = concat (map encode_inline vs)"
  by (induction vs arbitrary: i) auto

lemma held_values_none: "held_values (\<lambda>_. False) i vs = vs"
  by (induction vs arbitrary: i) auto

lemma length_held_values [simp]: "length (held_values pending i vs) = length vs"
  by (induction vs arbitrary: i) auto

lemma read_inline_encode:
  assumes v: "valid_value v" "\<not> v_null v" and n: "length (v_bytes v) < 18446744073709551616"
  shows "read_inline (p_type (v_ptype v)) (encode_inline v @ rest) = Some (v_bytes v, rest)"
proof -
  let ?s = "value_shape (p_type (v_ptype v))"
  consider "0 < ?s" | "?s = -2" | "?s = -1"
    using value_shape_cases [of "p_type (v_ptype v)"] valid_value_shape [OF v(1)]
      valid_value_fixed [OF v] by linarith
  then show ?thesis
  proof cases
    case 1
    then have s: "?s = int (length (v_bytes v))" using valid_value_fixed [OF v] by simp
    show ?thesis
      using 1 v(2) n by (simp add: read_inline_def encode_inline_def s Let_def)
  next
    case 2
    have "length (v_bytes v) < 256" using valid_value_temporal [OF v 2] by simp
    with 2 v(2) show ?thesis
      by (simp add: read_inline_def encode_inline_def Let_def)
  next
    case 3
    with v(2) n show ?thesis
      by (simp add: read_inline_def encode_inline_def read_append_length Let_def)
  qed
qed

lemma valid_value_type6: "valid_value v \<Longrightarrow> p_type (v_ptype v) = 6 \<Longrightarrow> v_null v"
  by (auto simp: valid_value_def Let_def split: if_splits)

lemma valid_null_placeholder:
  "value_shape (p_type t) \<noteq> -3 \<Longrightarrow> valid_value \<lparr>v_ptype = t, v_null = True, v_bytes = []\<rparr>"
  by (simp add: valid_value_def Let_def)

lemma exec_values_sent:
  assumes "\<And>v. v \<in> set vs \<Longrightarrow> valid_value v \<and> length (v_bytes v) < 18446744073709551616"
    and "\<And>k. k < length vs \<Longrightarrow> mask_bit nm (i + k) = v_null (vs ! k)"
  shows "exec_values i (map v_ptype vs) nm pending (sent_bytes pending i vs @ rest)
    = Some (held_values pending i vs, rest)"
  using assms
proof (induction vs arbitrary: i)
  case Nil
  then show ?case by simp
next
  case (Cons v vs)
  have v: "valid_value v" "length (v_bytes v) < 18446744073709551616" using Cons.prems(1) by auto
  have bit: "mask_bit nm i = v_null v" using Cons.prems(2) [of 0] by simp
  have "mask_bit nm (Suc i + k) = v_null (vs ! k)" if "k < length vs" for k
    using Cons.prems(2) [of "Suc k"] that by simp
  with Cons.IH [of "Suc i"] Cons.prems(1)
  have IH: "exec_values (Suc i) (map v_ptype vs) nm pending (sent_bytes pending (Suc i) vs @ rest)
    = Some (held_values pending (Suc i) vs, rest)" by simp
  have eq: "\<lparr>v_ptype = v_ptype v, v_null = v_null v, v_bytes = v_bytes v\<rparr> = v" by simp
  have six: "(v_null v \<or> p_type (v_ptype v) = 6) = v_null v" using valid_value_type6 [OF v(1)] by auto
  show ?case
  proof (cases "v_null v")
    case True
    then have "v_bytes v = []" using valid_value_null [OF v(1)] by simp
    then have "\<lparr>v_ptype = v_ptype v, v_null = True, v_bytes = []\<rparr> = v" "encode_inline v = []"
      using True eq by (simp_all add: encode_inline_def)
    with True IH v(1) valid_value_shape [OF v(1)] bit show ?thesis by simp
  next
    case False
    note r = read_inline_encode [OF v(1) False v(2), of "sent_bytes pending (Suc i) vs @ rest"]
    have "p_type (v_ptype v) \<noteq> 6" using six False by auto
    moreover have same: "\<lparr>v_ptype = v_ptype v, v_null = False, v_bytes = v_bytes v\<rparr> = v"
      using False eq by metis
    ultimately show ?thesis
      using False IH valid_value_shape [OF v(1)] bit r v(1) by (simp add: Let_def same)
  qed
qed

text \<open>A whole COM_STMT_EXECUTE body with fresh type descriptors.\<close>

definition type_bytes :: "ptype \<Rightarrow> bytes" where
  "type_bytes t = [p_type t, if p_unsigned t then 128 else 0]"

definition execute_packet :: "u32 \<Rightarrow> (u16 \<Rightarrow> bool) \<Rightarrow> pvalue list \<Rightarrow> bytes" where
  "execute_packet sid pending vs =
     le32 sid @ [0] @ le32 1
     @ set_nulls 0 (map v_null vs) (replicate ((length vs + 7) div 8) 0) @ [1]
     @ concat (map (\<lambda>v. type_bytes (v_ptype v)) vs) @ sent_bytes pending 0 vs"

lemma flag128: "(if u then 128 else 0 :: u8) AND NOT 128 = 0" "((if u then 128 else 0 :: u8) AND 128 \<noteq> 0) = u"
  by (cases u, simp_all)+

lemma read_types_sent:
  "(\<And>t. t \<in> set ts \<Longrightarrow> value_shape (p_type t) \<noteq> -3) \<Longrightarrow>
   read_types (length ts) (concat (map type_bytes ts) @ rest) = Some ts"
  by (induction ts) (auto simp: type_bytes_def)

lemma length_type_bytes: "length (concat (map type_bytes ts)) = 2 * length ts"
  by (induction ts) (auto simp: type_bytes_def)

lemma decode_execute_sent:
  assumes vs: "\<And>v. v \<in> set vs \<Longrightarrow> valid_value v" "vs \<noteq> []" "length vs \<le> 65535"
    and size: "length (execute_packet sid pending vs) \<le> max_sql"
    and small: "\<And>v. v \<in> set vs \<Longrightarrow> length (v_bytes v) < 18446744073709551616"
  shows "decode_execute_long_data (execute_packet sid pending vs) (word_of_nat (length vs)) previous pending
    = Inr (held_values pending 0 vs, map v_ptype vs)"
proof -
  define n where "n = length vs"
  define ms where "ms = (n + 7) div 8"
  define m where "m = set_nulls 0 (map v_null vs) (replicate ms 0)"
  define t where "t = concat (map type_bytes (map v_ptype vs))"
  define d where "d = sent_bytes pending 0 vs"
  have pk: "execute_packet sid pending vs = le32 sid @ [0] @ le32 1 @ m @ [1] @ t @ d"
    by (simp add: execute_packet_def comp_def m_def t_def d_def ms_def n_def)
  have h: "execute_packet sid pending vs ! 4 = 0" "take 4 (drop 5 (execute_packet sid pending vs)) = le32 1"
    "drop 9 (execute_packet sid pending vs) = m @ 1 # t @ d" "\<not> length (execute_packet sid pending vs) < 9"
    unfolding pk by (simp_all add: nth_append)
  have len: "length m = ms" "length t = 2 * n"
    by (simp_all add: m_def t_def n_def length_type_bytes del: map_map)
  have "n \<le> 8 * ms" unfolding ms_def by linarith
  then have bits: "mask_bit m (0 + k) = v_null (vs ! k)" if "k < n" for k
    using that by (simp add: mask_bit_set_nulls m_def n_def)
  have rt: "read_types n (t @ d) = Some (map v_ptype vs)"
    using read_types_sent [of "map v_ptype vs" d] valid_value_shape vs(1)
    by (fastforce simp: n_def t_def)
  have ev: "exec_values 0 (map v_ptype vs) m pending d = Some (held_values pending 0 vs, [])"
    using exec_values_sent [of vs m 0 pending "[]"] vs(1) small bits by (simp add: d_def n_def)
  have cnt: "unat (word_of_nat (length vs) :: u16) = n" "(word_of_nat (length vs) :: u16) \<noteq> 0"
    using vs(2,3) by (simp_all add: word_unat_eq_iff n_def)
  show ?thesis
    using size h len rt ev cnt
    by (simp add: decode_execute_long_data_def Let_def not_less nth_append ms_def [symmetric])
qed

section \<open>What the decoder guarantees\<close>

lemma read_inline_shorter:
  "read_inline t p = Some (bs, r) \<Longrightarrow> length bs + length r \<le> length p"
  using read_length_shorter [of p]
  by (fastforce simp: read_inline_def Let_def split: option.splits if_splits list.splits)

lemma exec_values_Some:
  "exec_values i ts nm pending p = Some (vs, r) \<Longrightarrow>
     map v_ptype vs = ts \<and> (\<forall>v\<in>set vs. valid_value v) \<and>
     sum_list (map (length \<circ> v_bytes) vs) + length r \<le> length p"
proof (induction ts arbitrary: i p vs r)
  case Nil
  then show ?case by simp
next
  case (Cons t ts)
  let ?null = "mask_bit nm i \<or> p_type t = 6"
  obtain v p' ws where first: "(if pending (word_of_nat i) then Some (\<lparr>v_ptype = t, v_null = True, v_bytes = []\<rparr>, p)
      else case (if ?null then Some ([], p) else read_inline (p_type t) p) of
          None \<Rightarrow> None
        | Some (bs, p') \<Rightarrow> let v = \<lparr>v_ptype = t, v_null = ?null, v_bytes = bs\<rparr> in
            if valid_value v then Some (v, p') else None) = Some (v, p')"
    and rest: "exec_values (Suc i) ts nm pending p' = Some (ws, r)" and vs: "vs = v # ws"
    and shape: "value_shape (p_type t) \<noteq> -3"
    using Cons.prems by (auto simp: Let_def split: option.splits if_splits)
  have "v_ptype v = t \<and> valid_value v \<and> length (v_bytes v) + length p' \<le> length p"
    using first valid_null_placeholder [OF shape] read_inline_shorter
    by (fastforce simp: Let_def split: if_splits option.splits prod.splits)
  with Cons.IH [OF rest] show ?case by (auto simp: vs)
qed

lemma read_types_Some:
  "read_types n p = Some ts \<Longrightarrow> length ts = n \<and> (\<forall>t\<in>set ts. value_shape (p_type t) \<noteq> -3)"
  by (induction n p arbitrary: ts rule: read_types.induct) (auto split: if_splits)

lemma decode_execute_Inr:
  assumes "decode_execute_long_data packet count previous pending = Inr (vs, ts)"
  shows "length vs = unat count \<and> map v_ptype vs = ts \<and> (\<forall>v\<in>set vs. valid_value v) \<and>
    sum_list (map (length \<circ> v_bytes) vs) \<le> length packet \<and> length packet \<le> max_sql"
proof (cases "count = 0")
  case True
  with assms show ?thesis
    by (auto simp: decode_execute_long_data_def Let_def split: if_splits)
next
  case False
  define n where "n = unat count"
  from assms False obtain nm q r where
    ev: "exec_values 0 ts nm pending r = Some (vs, [])" and len: "length ts = n"
    and qr: "length r \<le> length packet" and mx: "length packet \<le> max_sql"
    using read_types_Some
    by (auto simp: decode_execute_long_data_def Let_def n_def [symmetric] not_less
        split: if_splits option.splits)
  have "length vs = length ts" using exec_values_Some [OF ev] by (metis length_map)
  with exec_values_Some [OF ev] len qr mx show ?thesis by (simp add: n_def)
qed

text \<open>
  What the decoder accepts can always be handed to the guest: \<open>EncodeValues\<close>, whose error would end
  the session, cannot fail on the values of an accepted packet.
\<close>

lemma concat_encode_length:
  "length (concat (map encode_value vs)) = 8 * length vs + sum_list (map (length \<circ> v_bytes) vs)"
  by (induction vs) (auto simp: encode_value_def)

lemma decoded_values_encode:
  assumes "decode_execute_long_data packet count previous pending = Inr (vs, ts)"
  shows "\<exists>b. encode_values vs = Inr b"
proof -
  note d = decode_execute_Inr [OF assms]
  have n: "length vs \<le> 65535" using d by simp
  have "4 + length (concat (map encode_value vs)) \<le> max_envelope - header_size"
    using conjunct2 [OF conjunct2 [OF conjunct2 [OF d]]] n
    unfolding concat_encode_length max_sql_def max_envelope_def header_size_def by linarith
  with d n show ?thesis by (auto simp: encode_values_Inr)
qed

section \<open>The binary result row\<close>

text \<open>
  \<open>row_size\<close> is the validation and accounting loop of \<open>EncodeBinaryRow\<close>, \<open>row_fill\<close> its writing
  loop; the comparisons with \<open>limit - n\<close> are on signed ints in the code and are written without the
  subtraction. A negative \<open>limit\<close>, which the code rejects like 0, has no counterpart.
\<close>

fun row_size :: "nat \<Rightarrow> nat \<Rightarrow> pvalue list \<Rightarrow> nat option" where
  "row_size limit n [] = Some n"
| "row_size limit n (v # vs) =
     (if \<not> valid_value v then None
      else if v_null v then row_size limit n vs
      else
        let len = length (v_bytes v) in
        if limit < n + len then None
        else
          let len' = (if value_shape (p_type (v_ptype v)) = -1
                        then len + length_prefix_size (word_of_nat len)
                      else if value_shape (p_type (v_ptype v)) = -2 then len + 1
                      else len) in
          if limit < n + len' then None else row_size limit (n + len') vs)"

fun row_fill :: "nat \<Rightarrow> pvalue list \<Rightarrow> bytes \<Rightarrow> bytes" where
  "row_fill i [] b = b"
| "row_fill i (v # vs) b =
     (if v_null v then
        row_fill (Suc i) vs
          (b[1 + (i + 2) div 8 := b ! (1 + (i + 2) div 8) OR push_bit ((i + 2) mod 8) 1])
      else
        row_fill (Suc i) vs
          ((if value_shape (p_type (v_ptype v)) = -1
              then append_length b (word_of_nat (length (v_bytes v)))
            else if value_shape (p_type (v_ptype v)) = -2
              then b @ [word_of_nat (length (v_bytes v))]
            else b) @ v_bytes v))"

definition encode_binary_row :: "pvalue list \<Rightarrow> nat \<Rightarrow> value_error + bytes" where
  "encode_binary_row vs limit =
     (if length vs = 0 \<or> 65535 < length vs \<or> limit < 1 \<or> max_envelope < limit then Inl ErrValue
      else case row_size limit (1 + (length vs + 9) div 8) vs of
        None \<Rightarrow> Inl ErrValue
      | Some n \<Rightarrow>
          if limit < n then Inl ErrValue
          else Inr (row_fill 0 vs (replicate (1 + (length vs + 9) div 8) 0)))"

text \<open>How a client reads a row back, given the column types.\<close>

definition decode_binary_row :: "ptype list \<Rightarrow> bytes \<Rightarrow> pvalue list option" where
  "decode_binary_row ts b =
     (let ms = (length ts + 9) div 8 in
      if length b < 1 + ms \<or> b ! 0 \<noteq> 0 then None
      else case exec_values 2 ts (take ms (drop 1 b)) (\<lambda>_. False) (drop (1 + ms) b) of
        Some (vs, []) \<Rightarrow> Some vs
      | _ \<Rightarrow> None)"

lemma length_encode_inline:
  "length (encode_inline v) =
     (if v_null v then 0
      else if value_shape (p_type (v_ptype v)) = -1
        then length (v_bytes v) + length_prefix_size (word_of_nat (length (v_bytes v)))
      else if value_shape (p_type (v_ptype v)) = -2 then length (v_bytes v) + 1
      else length (v_bytes v))"
  by (simp add: encode_inline_def length_append_length Let_def)

lemma row_size_Some:
  "row_size limit n vs = Some m \<Longrightarrow>
     (\<forall>v\<in>set vs. valid_value v) \<and> m = n + length (concat (map encode_inline vs)) \<and> (n \<le> limit \<longrightarrow> m \<le> limit)"
proof (induction limit n vs rule: row_size.induct)
  case (1 limit n)
  then show ?case by simp
next
  case (2 limit n v vs)
  show ?case
  proof (cases "v_null v")
    case True
    with 2 show ?thesis by (auto simp: length_encode_inline split: if_splits)
  next
    case False
    let ?len = "length (encode_inline v)"
    have "row_size limit (n + ?len) vs = Some m" "valid_value v" "n + ?len \<le> limit"
      using "2.prems" False by (auto simp: Let_def length_encode_inline split: if_splits)
    moreover from this have "(\<forall>v\<in>set vs. valid_value v) \<and>
        m = (n + ?len) + length (concat (map encode_inline vs)) \<and> (n + ?len \<le> limit \<longrightarrow> m \<le> limit)"
      using "2.prems" False "2.IH"(2) [OF _ False refl _ refl]
      by (auto simp: Let_def length_encode_inline split: if_splits)
    ultimately show ?thesis by simp
  qed
qed

lemma row_fill_eq:
  "i + 2 + length vs \<le> 8 * length nm \<Longrightarrow>
   row_fill i vs (h # nm @ body)
   = h # set_nulls (i + 2) (map v_null vs) nm @ body @ concat (map encode_inline vs)"
proof (induction vs arbitrary: i nm body)
  case Nil
  then show ?case by simp
next
  case (Cons v vs)
  show ?case
  proof (cases "v_null v")
    case True
    have k: "(i + 2) div 8 < length nm" using Cons.prems by simp
    have "row_fill i (v # vs) (h # nm @ body) = row_fill (Suc i) vs (h # set_mask_bit nm (i + 2) @ body)"
      using True k by (simp add: set_mask_bit_def list_update_append nth_append)
    also have "\<dots> = h # set_nulls (Suc i + 2) (map v_null vs) (set_mask_bit nm (i + 2)) @ body
        @ concat (map encode_inline vs)"
      using Cons.prems by (intro Cons.IH) simp
    finally show ?thesis using True length_encode_inline [of v] by simp
  next
    case False
    have "row_fill i (v # vs) (h # nm @ body) = row_fill (Suc i) vs (h # nm @ (body @ encode_inline v))"
      using False append_length_prefix [of "h # nm @ body"]
      by (simp add: encode_inline_def Let_def)
    also have "\<dots> = h # set_nulls (Suc i + 2) (map v_null vs) nm @ (body @ encode_inline v)
        @ concat (map encode_inline vs)"
      using Cons.prems by (intro Cons.IH) simp
    finally show ?thesis using False by simp
  qed
qed

lemma encode_binary_row_Inr:
  assumes "encode_binary_row vs limit = Inr b"
  defines "ms \<equiv> (length vs + 9) div 8"
  shows "b = 0 # set_nulls 2 (map v_null vs) (replicate ms 0) @ concat (map encode_inline vs)"
    and "length b \<le> limit" and "limit \<le> max_envelope" and "\<forall>v\<in>set vs. valid_value v"
    and "2 + length vs \<le> 8 * ms" and "vs \<noteq> []"
proof -
  obtain n where n: "row_size limit (1 + ms) vs = Some n" "n \<le> limit" "limit \<le> max_envelope" "vs \<noteq> []"
    and b: "b = row_fill 0 vs (0 # replicate ms 0 @ [])"
    using assms by (auto simp: encode_binary_row_def ms_def not_less split: if_splits option.splits)
  show room: "2 + length vs \<le> 8 * ms" unfolding ms_def by linarith
  then show eq: "b = 0 # set_nulls 2 (map v_null vs) (replicate ms 0) @ concat (map encode_inline vs)"
    unfolding b using row_fill_eq [of 0 vs "replicate ms 0" 0 "[]"] by (simp add: numeral_2_eq_2)
  show "\<forall>v\<in>set vs. valid_value v" using row_size_Some [OF n(1)] by simp
  show "length b \<le> limit" using row_size_Some [OF n(1)] n(2) unfolding eq by simp
  show "limit \<le> max_envelope" "vs \<noteq> []" using n by simp_all
qed

lemma decode_encode_binary_row:
  assumes "encode_binary_row vs limit = Inr b"
  shows "decode_binary_row (map v_ptype vs) b = Some vs"
proof -
  define ms where "ms = (length vs + 9) div 8"
  define m where "m = set_nulls 2 (map v_null vs) (replicate ms 0)"
  define d where "d = concat (map encode_inline vs)"
  note r = encode_binary_row_Inr [OF assms, folded ms_def]
  have b: "b = 0 # m @ d" using r(1) by (simp add: m_def d_def)
  have lm: "length m = ms" by (simp add: m_def)
  have small: "length (v_bytes v) < 18446744073709551616" if "v \<in> set vs" for v
  proof (cases "v_null v")
    case True
    then show ?thesis using r(4) that valid_value_null by fastforce
  next
    case False
    have "length (v_bytes v) \<le> length (encode_inline v)" using False by (simp add: length_encode_inline)
    also have "\<dots> \<le> length d" using that by (auto simp: d_def length_concat intro: member_le_sum_list)
    finally show ?thesis using r(2,3) b by (simp add: max_envelope_def)
  qed
  have "mask_bit m (2 + k) = v_null (vs ! k)" if "k < length vs" for k
    using that r(5) by (simp add: m_def mask_bit_set_nulls)
  then have "exec_values 2 (map v_ptype vs) m (\<lambda>_. False) d = Some (vs, [])"
    using exec_values_sent [of vs m 2 "\<lambda>_. False" "[]"] r(4) small
    by (simp add: sent_bytes_none held_values_none d_def)
  with b lm show ?thesis by (simp add: decode_binary_row_def ms_def Let_def)
qed

lemma row_size_complete:
  "\<forall>v\<in>set vs. valid_value v \<Longrightarrow> n + length (concat (map encode_inline vs)) \<le> limit \<Longrightarrow>
   row_size limit n vs = Some (n + length (concat (map encode_inline vs)))"
proof (induction vs arbitrary: n)
  case Nil
  then show ?case by simp
next
  case (Cons v vs)
  have IH: "row_size limit (n + length (encode_inline v)) vs
      = Some (n + length (encode_inline v) + length (concat (map encode_inline vs)))"
    using Cons.prems by (intro Cons.IH) auto
  have "valid_value v" "n + length (encode_inline v) \<le> limit" using Cons.prems by auto
  with IH show ?case by (auto simp: Let_def length_encode_inline split: if_splits)
qed

section \<open>Properties\<close>

text \<open>
  C2. A COM_STMT_EXECUTE body that carries fresh type descriptors decodes to exactly the values and
  types the client sent, whatever the cached types were. A parameter that travels as long data has
  no inline bytes and comes back as a typed NULL placeholder.
\<close>

theorem execute_decodes_what_was_sent:
  assumes "\<forall>v\<in>set vs. valid_value v" and "vs \<noteq> []" and "length vs \<le> 65535"
    and "length (execute_packet sid pending vs) \<le> max_sql"
    and "\<forall>v\<in>set vs. length (v_bytes v) < 2 ^ 64"
  shows "decode_execute_long_data (execute_packet sid pending vs) (word_of_nat (length vs)) previous pending
    = Inr (held_values pending 0 vs, map v_ptype vs)"
  using assms by (intro decode_execute_sent) auto

theorem execute_decodes_what_was_sent_witness:
  "decode_execute_long_data
     (execute_packet 7 (\<lambda>i. i = 1)
        [\<lparr>v_ptype = \<lparr>p_type = 3, p_unsigned = True\<rparr>, v_null = False, v_bytes = [1, 2, 3, 4]\<rparr>,
         \<lparr>v_ptype = \<lparr>p_type = 252, p_unsigned = False\<rparr>, v_null = False, v_bytes = [9]\<rparr>])
     2 [] (\<lambda>i. i = 1)
   = Inr ([\<lparr>v_ptype = \<lparr>p_type = 3, p_unsigned = True\<rparr>, v_null = False, v_bytes = [1, 2, 3, 4]\<rparr>,
           \<lparr>v_ptype = \<lparr>p_type = 252, p_unsigned = False\<rparr>, v_null = True, v_bytes = []\<rparr>],
          [\<lparr>p_type = 3, p_unsigned = True\<rparr>, \<lparr>p_type = 252, p_unsigned = False\<rparr>])"
  using execute_decodes_what_was_sent [of
      "[\<lparr>v_ptype = \<lparr>p_type = 3, p_unsigned = True\<rparr>, v_null = False, v_bytes = [1, 2, 3, 4]\<rparr>,
        \<lparr>v_ptype = \<lparr>p_type = 252, p_unsigned = False\<rparr>, v_null = False, v_bytes = [9]\<rparr>]"
      7 "\<lambda>i. i = 1" "[]"]
  by (simp add: valid_value_def value_shape_def execute_packet_def type_bytes_def encode_inline_def
      max_sql_def Let_def)

text \<open>
  Whatever bytes a client sends, if \<open>DecodeExecuteLongData\<close> accepts them it returns exactly as
  many values as the statement has parameters, each valid for its type, with the returned type
  cache being their types; and \<open>EncodeValues\<close>, whose failure would end the session, succeeds on them.
\<close>

lemma accepted_execute_is_well_formed:
  assumes "decode_execute_long_data packet count previous pending = Inr (vs, ts)"
  shows "length vs = unat count \<and> map v_ptype vs = ts \<and> (\<forall>v\<in>set vs. valid_value v) \<and>
    (\<exists>b. encode_values vs = Inr b)"
  using decode_execute_Inr [OF assms] decoded_values_encode [OF assms] by blast

lemma accepted_execute_is_well_formed_example:
  "\<exists>b. encode_values [\<lparr>v_ptype = \<lparr>p_type = 1, p_unsigned = False\<rparr>, v_null = False, v_bytes = [5]\<rparr>] = Inr b"
proof -
  have "decode_execute_long_data [1, 0, 0, 0, 0, 1, 0, 0, 0, 0, 1, 1, 0, 5] 1 [] (\<lambda>_. False)
    = Inr ([\<lparr>v_ptype = \<lparr>p_type = 1, p_unsigned = False\<rparr>, v_null = False, v_bytes = [5]\<rparr>],
           [\<lparr>p_type = 1, p_unsigned = False\<rparr>])"
    by (simp add: decode_execute_long_data_def max_sql_def Let_def value_shape_def mask_bit_def
        read_inline_def valid_value_def)
  from accepted_execute_is_well_formed [OF this] show ?thesis by simp
qed

text \<open>
  C3. The binary row encoder succeeds exactly on the rows it should (between 1 and 65535 valid
  values whose encoding fits a limit within the envelope), never writes more than the limit, and
  a client that knows the column types reads the same cells back, NULLs included.
\<close>

theorem binary_row_correct:
  "((\<exists>b. encode_binary_row vs limit = Inr b) \<longleftrightarrow>
      vs \<noteq> [] \<and> length vs \<le> 65535 \<and> 1 \<le> limit \<and> limit \<le> max_envelope \<and> list_all valid_value vs \<and>
      1 + (length vs + 9) div 8 + length (concat (map encode_inline vs)) \<le> limit) \<and>
   (\<forall>b. encode_binary_row vs limit = Inr b \<longrightarrow>
      length b \<le> limit \<and> decode_binary_row (map v_ptype vs) b = Some vs)"
proof -
  let ?n = "1 + (length vs + 9) div 8"
  have size: "row_size limit ?n vs = Some m \<longleftrightarrow> list_all valid_value vs \<and>
      m = ?n + length (concat (map encode_inline vs))" if "m \<le> limit" for m
    using row_size_Some [of limit ?n vs m] row_size_complete [of vs ?n limit] that
    by (auto simp: list_all_iff)
  have "(\<exists>b. encode_binary_row vs limit = Inr b) \<longleftrightarrow>
      vs \<noteq> [] \<and> length vs \<le> 65535 \<and> 1 \<le> limit \<and> limit \<le> max_envelope \<and>
      (\<exists>m\<le>limit. row_size limit ?n vs = Some m)"
    by (auto simp: encode_binary_row_def not_less not_le split: option.splits)
  then show ?thesis
    using size encode_binary_row_Inr(2) decode_encode_binary_row by auto
qed

theorem binary_row_correct_witness:
  "decode_binary_row [\<lparr>p_type = 1, p_unsigned = False\<rparr>] [0, 0, 5]
    = Some [\<lparr>v_ptype = \<lparr>p_type = 1, p_unsigned = False\<rparr>, v_null = False, v_bytes = [5]\<rparr>]"
proof -
  have "encode_binary_row
      [\<lparr>v_ptype = \<lparr>p_type = 1, p_unsigned = False\<rparr>, v_null = False, v_bytes = [5]\<rparr>] 100 = Inr [0, 0, 5]"
    by (simp add: encode_binary_row_def valid_value_def value_shape_def max_envelope_def Let_def)
  from conjunct2 [OF binary_row_correct, rule_format, OF this] show ?thesis by simp
qed

end
