(* ===== verification/WirePackets.thy ===== *)
theory WirePackets
  imports GuestResult PreparedExecute
begin

text \<open>
  The packet builders of \<open>internal/mysqlwire/wire.go\<close>: length-encoded integers and strings, ERR, OK
  and EOF packets, the text-protocol result serializer \<open>packets\<close>, and the reader of a guest's
  connection identity.
\<close>

definition max_packet :: nat where "max_packet = 16777214"
definition max_command_payload :: nat where "max_command_payload = 1048577"
definition capabilities :: u32 where
  "capabilities = 1 OR 4 OR 8 OR 512 OR 8192 OR 32768 OR 65536 OR 131072 OR 524288"
definition client_found_rows :: u32 where "client_found_rows = 2"
definition client_ps_multi_results :: u32 where "client_ps_multi_results = 262144"

definition leint :: "u64 \<Rightarrow> bytes" where
  "leint n =
     (if n < 251 then [ucast n]
      else if n \<le> 65535 then 252 # le16 (ucast n)
      else if n \<le> 16777215 then 253 # put_le 3 n
      else 254 # le64 n)"

definition lestr :: "bytes \<Rightarrow> bytes" where
  "lestr b = leint (word_of_nat (length b)) @ b"

definition error_packet :: "u16 \<Rightarrow> string \<Rightarrow> string \<Rightarrow> bytes" where
  "error_packet code state message =
     [255] @ le16 code
     @ str_bytes (''#'' @ (if length state \<noteq> 5 then ''HY000'' else state) @ message)"

definition ok_packet :: "u16 \<Rightarrow> u64 \<Rightarrow> u64 \<Rightarrow> u16 \<Rightarrow> bytes" where
  "ok_packet st aff ident warn = [0] @ leint aff @ leint ident @ le16 st @ le16 warn"

definition eof_packet :: "u16 \<Rightarrow> u16 \<Rightarrow> bytes" where
  "eof_packet st warn = [254] @ le16 warn @ le16 st"

definition fatal_packet :: "goerr \<Rightarrow> bytes" where
  "fatal_packet e =
     (if err_is e err_deadline then
        error_packet 2013 ''HY000'' ''mariamem query timed out; database instance terminated''
      else error_packet 2013 ''HY000'' (''mariamem database instance terminated: '' @ err_text e))"

definition set_option_error :: "bytes \<Rightarrow> bytes option" where
  "set_option_error p =
     (if length p \<noteq> 2 then Some (error_packet 1235 ''HY000'' ''invalid set-option packet'')
      else if 1 < (get_le p :: u16) then Some (error_packet 1047 ''08S01'' ''Unknown command'')
      else None)"

section \<open>The text protocol\<close>

definition column_names :: "column \<Rightarrow> string list" where
  "column_names c = [c_catalog c, c_db c, c_table c, c_org_table c, c_name c, c_org_name c]"

definition text_column :: "column \<Rightarrow> bytes" where
  "text_column c =
     concat (map (\<lambda>s. lestr (str_bytes s)) (column_names c))
     @ [12] @ le16 (c_charset c) @ le32 (c_length c) @ [c_type c] @ le16 (c_flags c)
     @ [c_decimals c, 0, 0]"

fun text_row :: "cell list \<Rightarrow> bytes option" where
  "text_row [] = Some []"
| "text_row (None # cs) = map_option (Cons 251) (text_row cs)"
| "text_row (Some h # cs) =
     (case hex_decode h of
        None \<Rightarrow> None
      | Some v \<Rightarrow> map_option ((@) (lestr v)) (text_row cs))"

fun text_rows :: "nat \<Rightarrow> cell list list \<Rightarrow> goerr + bytes list" where
  "text_rows w [] = Inr []"
| "text_rows w (row # rs) =
     (if length row \<noteq> w then Inl (Sentinel ''guest row width mismatch'')
      else case text_row row of
        None \<Rightarrow> Inl (Sentinel ''encoding/hex'')
      | Some b \<Rightarrow> (case text_rows w rs of Inl e \<Rightarrow> Inl e | Inr bs \<Rightarrow> Inr (b # bs)))"

text \<open>\<open>packets\<close> on a result without \<open>Results\<close>.\<close>

definition packets_single :: "result_fields \<Rightarrow> goerr + bytes list" where
  "packets_single r =
     (if \<not> ok r then Inr [error_packet (errno r) (sqlstate r) (err_message r)]
      else case columns r of
        None \<Rightarrow>
          (case parse_uint 64 (affected r) of
             None \<Rightarrow> Inl (Sentinel ''strconv'')
           | Some a \<Rightarrow> (case parse_uint 64 (insert_id r) of
               None \<Rightarrow> Inl (Sentinel ''strconv'')
             | Some i \<Rightarrow> Inr [ok_packet (status r) (word_of_nat a) (word_of_nat i) (warnings r)]))
      | Some cs \<Rightarrow>
          (case text_rows (length cs) (list_of (rows r)) of
             Inl e \<Rightarrow> Inl e
           | Inr rs \<Rightarrow>
               let out = [leint (word_of_nat (length cs))] @ map text_column cs
                 @ [eof_packet (status r) 0] @ rs @ [eof_packet (status r) (warnings r)] in
               if \<exists>b\<in>set out. max_packet < length b
               then Inr [error_packet 1153 ''08S01'' ''result exceeds packet limit'']
               else Inr out))"

text \<open>
  The multi-result loop. An element with \<open>Results\<close> is refused before the code would recurse on it,
  so the recursive call is always the single-result case.
\<close>

definition with_more :: "bool \<Rightarrow> result_fields \<Rightarrow> result_fields" where
  "with_more mr r = r\<lparr>status := (status r AND NOT 8) OR (if mr then 8 else 0)\<rparr>"

fun multi_packets :: "result list \<Rightarrow> goerr + bytes list" where
  "multi_packets [] = Inr []"
| "multi_packets (p # ps) =
     (if api_version (body p) \<noteq> 2 \<or> results p \<noteq> None \<or> (\<not> ok (body p) \<and> ps \<noteq> [])
      then Inl (Sentinel ''invalid multi-result element'')
      else case packets_single (with_more (ps \<noteq> []) (body p)) of
        Inl e \<Rightarrow> Inl e
      | Inr nx \<Rightarrow> (case multi_packets ps of Inl e \<Rightarrow> Inl e | Inr mr \<Rightarrow> Inr (nx @ mr)))"

definition packets :: "result \<Rightarrow> goerr + bytes list" where
  "packets r =
     (case results r of
        Some parts \<Rightarrow>
          if \<not> ok (body r) \<or> parts = [] then Inl (Sentinel ''invalid multi-result envelope'')
          else multi_packets parts
      | None \<Rightarrow> packets_single (body r))"

section \<open>Handshake fields\<close>

definition take_string :: "bytes \<Rightarrow> goerr + (bytes \<times> bytes)" where
  "take_string b =
     (case index_byte b 0 of
        None \<Rightarrow> Inl (Sentinel ''unterminated auth field'')
      | Some i \<Rightarrow> Inr (take i b, drop (i + 1) b))"

definition connection_identity :: "result_fields \<Rightarrow> goerr + (u32 \<times> bytes)" where
  "connection_identity r =
     (case (ok r, list_of (rows r)) of
        (True, [[Some h0, Some h1]]) \<Rightarrow>
          (case hex_decode h0 of
             None \<Rightarrow> Inl (Sentinel ''encoding/hex'')
           | Some idb \<Rightarrow> (case parse_uint 32 (bytes_str idb) of
               None \<Rightarrow> Inl (Sentinel ''strconv'')
             | Some i \<Rightarrow> (case hex_decode h1 of
                 None \<Rightarrow> Inl (Sentinel ''encoding/hex'')
               | Some v \<Rightarrow>
                   if v = [] \<or> index_byte v 0 \<noteq> None
                   then Inl (Sentinel ''invalid server version response'')
                   else Inr (word_of_nat i, v))))
      | _ \<Rightarrow> Inl (Sentinel ''invalid connection identity response''))"

section \<open>Reading packets back\<close>

lemma leint_append_length: "leint n = append_length [] n"
  by (auto simp: leint_def append_length_def length_prefix_size_def word_le_nat_alt word_less_nat_alt)

lemma read_leint: "read_length (leint n @ r) = Some (n, r)"
  by (simp add: leint_append_length read_append_length)

lemma hd_leint: "hd (leint n) \<noteq> 251 \<and> leint n \<noteq> []"
  using ucast_u8_small [of n] by (auto simp: leint_def)

text \<open>How a client reads one text cell and one text row.\<close>

definition read_cell :: "bytes \<Rightarrow> (bytes option \<times> bytes) option" where
  "read_cell b =
     (case b of
        [] \<Rightarrow> None
      | x # r \<Rightarrow>
          if x = 251 then Some (None, r)
          else case read_length b of
            None \<Rightarrow> None
          | Some (n, q) \<Rightarrow>
              if length q < unat n then None else Some (Some (take (unat n) q), drop (unat n) q))"

definition write_cell :: "bytes option \<Rightarrow> bytes" where
  "write_cell c = (case c of None \<Rightarrow> [251] | Some v \<Rightarrow> lestr v)"

lemma write_cell_simps [simp]: "write_cell None = [251]" "write_cell (Some v) = lestr v"
  by (simp_all add: write_cell_def)

interpretation cell_codec: prefix_codec write_cell read_cell
  "\<lambda>c. case c of None \<Rightarrow> True | Some v \<Rightarrow> length v < 18446744073709551616"
proof
  fix c :: "bytes option" and rest
  assume ok: "case c of None \<Rightarrow> True | Some v \<Rightarrow> length v < 18446744073709551616"
  show "read_cell (write_cell c @ rest) = Some (c, rest)"
  proof (cases c)
    case None
    then show ?thesis by (simp add: read_cell_def)
  next
    case (Some v)
    let ?n = "word_of_nat (length v) :: u64"
    obtain x xs where x: "leint ?n = x # xs" "x \<noteq> 251" using hd_leint [of ?n] by (cases "leint ?n") auto
    have "read_length (x # xs @ v @ rest) = Some (?n, v @ rest)"
      using read_leint [of ?n "v @ rest"] x(1) by simp
    with ok Some x show ?thesis by (simp add: read_cell_def lestr_def)
  qed
qed

text \<open>The bytes a guest's row of hex cells stands for; \<open>None\<close> where a cell is not hex.\<close>

fun cell_bytes :: "cell list \<Rightarrow> bytes option list option" where
  "cell_bytes [] = Some []"
| "cell_bytes (None # cs) = map_option (Cons None) (cell_bytes cs)"
| "cell_bytes (Some h # cs) =
     (case hex_decode h of None \<Rightarrow> None | Some v \<Rightarrow> map_option (Cons (Some v)) (cell_bytes cs))"

lemma text_row_cells: "text_row cs = map_option (\<lambda>vs. concat (map write_cell vs)) (cell_bytes cs)"
  by (induction cs rule: text_row.induct) (auto simp: option.map_comp comp_def split: option.split)

lemma length_cell_bytes: "cell_bytes cs = Some vs \<Longrightarrow> length vs = length cs"
  by (induction cs arbitrary: vs rule: cell_bytes.induct) (auto split: option.splits)

lemma text_row_readable:
  assumes "text_row cs = Some b" and "length b \<le> max_packet"
  shows "\<exists>vs. cell_bytes cs = Some vs \<and> decode_seq read_cell (length cs) b = Some (vs, [])"
proof -
  obtain vs where vs: "cell_bytes cs = Some vs" "b = concat (map write_cell vs)"
    using assms(1) by (auto simp: text_row_cells)
  have "length v < 18446744073709551616" if "Some v \<in> set vs" for v
  proof -
    have "length v \<le> length (write_cell (Some v))" by (simp add: lestr_def)
    also have "\<dots> \<le> length b"
      using that unfolding vs(2) length_concat by (intro member_le_sum_list) (auto intro: rev_image_eqI)
    finally show ?thesis using assms(2) by (simp add: max_packet_def)
  qed
  then have "list_all (\<lambda>c. case c of None \<Rightarrow> True | Some v \<Rightarrow> length v < 18446744073709551616) vs"
    by (auto simp: list_all_iff split: option.split)
  from cell_codec.decode_seq_concat [OF this, of "[]"] show ?thesis
    using vs length_cell_bytes [OF vs(1)] by simp
qed

lemma text_rows_Inr:
  "text_rows w rs = Inr bs \<Longrightarrow>
     length bs = length rs \<and> (\<forall>i<length rs. length (rs ! i) = w \<and> text_row (rs ! i) = Some (bs ! i))"
proof (induction w rs arbitrary: bs rule: text_rows.induct)
  case (1 w)
  then show ?case by simp
next
  case (2 w row rs)
  then obtain b bs' where "length row = w" "text_row row = Some b" "text_rows w rs = Inr bs'" "bs = b # bs'"
    by (auto split: if_splits option.splits sum.splits)
  with "2.IH" show ?case by (auto simp: nth_Cons')
qed

lemma with_more_bit: "(status (with_more mr r) AND 8 \<noteq> 0) = mr"
proof -
  have "((s AND NOT m) OR m) AND m = m" "((s AND NOT m) OR 0) AND m = 0" for s m :: u16
    by (intro bit_word_eqI; auto simp: bit_simps)+
  from this [of "status r" 8] show ?thesis
    unfolding with_more_def by (cases mr) simp_all
qed

lemma multi_packets_Inr:
  "multi_packets ps = Inr out \<Longrightarrow>
     \<exists>outs. out = concat outs \<and> length outs = length ps \<and>
       (\<forall>i<length ps. packets_single (with_more (Suc i < length ps) (body (ps ! i))) = Inr (outs ! i) \<and>
          (Suc i < length ps \<longrightarrow> ok (body (ps ! i))))"
proof (induction ps arbitrary: out rule: multi_packets.induct)
  case 1
  then show ?case by simp
next
  case (2 p ps)
  obtain nx mr where g: "\<not> (api_version (body p) \<noteq> 2 \<or> results p \<noteq> None \<or> (\<not> ok (body p) \<and> ps \<noteq> []))"
    and nx: "packets_single (with_more (ps \<noteq> []) (body p)) = Inr nx"
    and mr: "multi_packets ps = Inr mr" and out: "out = nx @ mr"
    using "2.prems" by (auto split: if_splits sum.splits)
  from "2.IH" [OF g nx mr] obtain outs where outs: "mr = concat outs" "length outs = length ps"
    "\<forall>i<length ps. packets_single (with_more (Suc i < length ps) (body (ps ! i))) = Inr (outs ! i) \<and>
       (Suc i < length ps \<longrightarrow> ok (body (ps ! i)))" by blast
  have "packets_single (with_more (Suc i < length (p # ps)) (body ((p # ps) ! i))) = Inr ((nx # outs) ! i) \<and>
      (Suc i < length (p # ps) \<longrightarrow> ok (body ((p # ps) ! i)))" if "i < length (p # ps)" for i
    using that g nx outs(3) by (cases i) auto
  with outs(1,2) out show ?case by (intro exI [of _ "nx # outs"]) auto
qed

section \<open>Properties\<close>

text \<open>
  A text result set is readable: unless the code replaced it by the packet-limit error, the
  packets are the column count, one definition per column, an EOF, the rows and an EOF, all within
  the packet limit, and every row read cell by cell gives back the bytes the guest sent, with NULL
  never confused with a value.
\<close>

lemma text_result_set_readable:
  assumes out: "packets (Result r None) = Inr out" and r: "ok r" "columns r = Some cs"
  shows "out = [error_packet 1153 ''08S01'' ''result exceeds packet limit''] \<or>
    (\<exists>rps. out = [leint (word_of_nat (length cs))] @ map text_column cs @ [eof_packet (status r) 0]
        @ rps @ [eof_packet (status r) (warnings r)] \<and>
      length rps = length (list_of (rows r)) \<and> (\<forall>b\<in>set out. length b \<le> max_packet) \<and>
      (\<forall>i<length rps. \<exists>vs. cell_bytes (list_of (rows r) ! i) = Some vs \<and>
         decode_seq read_cell (length cs) (rps ! i) = Some (vs, [])))"
proof -
  obtain rps where rps: "text_rows (length cs) (list_of (rows r)) = Inr rps"
    using out r by (auto simp: packets_def packets_single_def split: sum.splits)
  let ?out = "[leint (word_of_nat (length cs))] @ map text_column cs @ [eof_packet (status r) 0]
      @ rps @ [eof_packet (status r) (warnings r)]"
  note rows = text_rows_Inr [OF rps]
  show ?thesis
  proof (cases "\<exists>b\<in>set ?out. max_packet < length b")
    case True
    with out r rps show ?thesis by (simp add: packets_def packets_single_def Let_def)
  next
    case False
    then have "out = ?out" using out r rps by (auto simp: packets_def packets_single_def Let_def)
    moreover have small: "\<forall>b\<in>set ?out. length b \<le> max_packet" using False by (auto simp: not_less)
    moreover have "\<exists>vs. cell_bytes (list_of (rows r) ! i) = Some vs \<and>
        decode_seq read_cell (length cs) (rps ! i) = Some (vs, [])" if i: "i < length rps" for i
    proof -
      have "length (rps ! i) \<le> max_packet" using small i by simp
      with rows i text_row_readable [of "list_of (rows r) ! i" "rps ! i"] show ?thesis by auto
    qed
    ultimately show ?thesis using rows by blast
  qed
qed

lemma text_result_set_readable_example:
  "\<exists>rps. length rps = 1 \<and> decode_seq read_cell 2 (rps ! 0) = Some ([None, Some [65]], [])"
proof -
  define c :: column where "c = \<lparr>c_name = ''a'', c_org_name = [], c_table = [], c_org_table = [],
    c_db = [], c_catalog = ''def'', c_type = 253, c_charset = 45, c_flags = 0, c_length = 4, c_decimals = 0\<rparr>"
  define r where "r = zero_fields\<lparr>ok := True, columns := Some [c, c], rows := Some [[None, Some ''41'']]\<rparr>"
  define out where "out = [leint 2, text_column c, text_column c, eof_packet 0 0, [251, 1, 65], eof_packet 0 0]"
  have tc: "length (text_column c) \<le> 100"
    by (simp add: text_column_def column_names_def lestr_def leint_def c_def)
  have hex: "hex_decode ''41'' = Some [65]" by (simp add: hex_val_def)
  have "packets (Result r None) = Inr out"
    using tc hex by (auto simp: packets_def packets_single_def r_def zero_fields_def out_def lestr_def
        leint_def max_packet_def eof_packet_def)
  from text_result_set_readable [OF this, of "[c, c]"] obtain rps
    where *: "length rps = length (list_of (rows r))"
      "\<forall>i<length rps. \<exists>vs. cell_bytes (list_of (rows r) ! i) = Some vs \<and>
         decode_seq read_cell (length [c, c]) (rps ! i) = Some (vs, [])"
    unfolding out_def by (fastforce simp: r_def zero_fields_def simp del: decode_seq.simps cell_bytes.simps hex_decode.simps)
  have rows: "list_of (rows r) = [[None, Some ''41'']]" by (simp add: r_def zero_fields_def)
  have "cell_bytes [None, Some ''41''] = Some [None, Some [65]]" using hex by (simp del: hex_decode.simps)
  with * show ?thesis unfolding rows by (intro exI [of _ rps]) (simp add: numeral_2_eq_2 del: decode_seq.simps)
qed

text \<open>
  In a multi-result reply the MORE_RESULTS bit (8) of the status is set on exactly the results
  that are followed by another one, every result is serialized with its other status bits
  unchanged, and only the last may be an error.
\<close>

lemma multi_result_chain:
  assumes "packets (Result r (Some ps)) = Inr out"
  shows "\<exists>outs. out = concat outs \<and> length outs = length ps \<and> ps \<noteq> [] \<and>
    (\<forall>i<length ps. \<exists>f. packets_single f = Inr (outs ! i) \<and>
       f = (body (ps ! i))\<lparr>status := status f\<rparr> \<and> status f AND NOT 8 = status (body (ps ! i)) AND NOT 8 \<and>
       (status f AND 8 \<noteq> 0) = (Suc i < length ps) \<and> (Suc i < length ps \<longrightarrow> ok (body (ps ! i))))"
proof -
  have m: "multi_packets ps = Inr out" and ne: "ps \<noteq> []"
    using assms by (auto simp: packets_def split: if_splits)
  have w: "with_more mr f = f\<lparr>status := status (with_more mr f)\<rparr>"
    "status (with_more mr f) AND NOT 8 = status f AND NOT 8" for mr f
    by (simp_all add: with_more_def bit.conj_disj_distrib2 and.assoc)
  from multi_packets_Inr [OF m] ne show ?thesis
    using with_more_bit w by blast
qed

lemma multi_result_chain_example:
  "\<exists>outs. length outs = 2 \<and> concat outs = [ok_packet 8 1 0 0, ok_packet 0 0 0 0]"
proof -
  define f where "f = zero_fields\<lparr>ok := True, api_version := 2, affected := ''0'', insert_id := ''0''\<rparr>"
  have p: "packets_single (with_more b f) = Inr [ok_packet (if b then 8 else 0) 0 0 0]" for b
    by (simp add: packets_single_def with_more_def f_def zero_fields_def parse_uint_def digit_val_def)
  have p1: "packets_single (with_more b (f\<lparr>affected := ''1''\<rparr>)) = Inr [ok_packet (if b then 8 else 0) 1 0 0]" for b
    by (simp add: packets_single_def with_more_def f_def zero_fields_def parse_uint_def digit_val_def)
  have "packets (Result f (Some [Result (f\<lparr>affected := ''1''\<rparr>) None, Result f None]))
    = Inr [ok_packet 8 1 0 0, ok_packet 0 0 0 0]"
    using p [of False] p1 [of True]
    by (simp add: packets_def) (simp add: f_def zero_fields_def)
  from multi_result_chain [OF this] obtain outs
    where "[ok_packet 8 1 0 0, ok_packet 0 0 0 0] = concat outs" "length outs = 2"
    by (auto simp del: concat.simps)
  then show ?thesis by (intro exI [of _ outs]) (simp only: conj_absorb)
qed

end
