(* ===== verification/WireFrame.thy ===== *)
theory WireFrame
  imports WirePackets
begin

text \<open>
  The framed connection of \<open>internal/mysqlwire/wire.go\<close>: \<open>read\<close>, \<open>send\<close>, \<open>readFull\<close>, the bounded
  read-ahead \<open>receiveAhead\<close> that watches for a disconnect while the guest works, and
  \<open>monitoredCall\<close>. The TCP connection is the peer's remaining input, the error a read gives once
  that is used up, the bytes written so far and a script of partial writes: how many bytes each
  \<open>Write\<close> takes, \<open>None\<close> for one that fails; an exhausted script takes everything. Deadlines are the
  errors the scripts deliver.
\<close>

definition max_read_ahead :: nat where "max_read_ahead = max_command_payload + 4"

definition err_read_ahead :: goerr where
  "err_read_ahead = Sentinel ''pipelined input exceeds bounded receive buffer''"

definition err_no_progress :: goerr where
  "err_no_progress = Sentinel ''multiple Read calls return no data or error''"

definition err_unexpected_eof :: goerr where "err_unexpected_eof = Sentinel ''unexpected EOF''"
definition err_eof :: goerr where "err_eof = Sentinel ''EOF''"
definition err_short_write :: goerr where "err_short_write = Sentinel ''short write''"
definition err_timeout :: goerr where "err_timeout = Sentinel ''i/o timeout''"
definition err_frame :: goerr where "err_frame = Sentinel ''invalid MySQL frame''"
definition err_stopping :: goerr where "err_stopping = Sentinel ''database is stopping''"
definition err_too_large :: goerr where "err_too_large = Sentinel ''MySQL response packet too large''"

record wire =
  w_in :: bytes
  w_end :: goerr
  w_out :: bytes
  w_accept :: "nat option list"
  sequence :: u8
  read_ahead :: bytes

text \<open>\<open>io.ReadFull\<close>: EOF only where no byte was read; a failed read has used up the input.\<close>

definition conn_read_full :: "nat \<Rightarrow> wire \<Rightarrow> (goerr + bytes) \<times> wire" where
  "conn_read_full n w =
     (if n \<le> length (w_in w) then (Inr (take n (w_in w)), w\<lparr>w_in := drop n (w_in w)\<rparr>)
      else (Inl (if w_end w = err_eof \<and> w_in w \<noteq> [] then err_unexpected_eof else w_end w), w\<lparr>w_in := []\<rparr>))"

definition read_full :: "nat \<Rightarrow> wire \<Rightarrow> (goerr + bytes) \<times> wire" where
  "read_full n w =
     (let k = min n (length (read_ahead w)); b = take k (read_ahead w);
          w' = w\<lparr>read_ahead := drop k (read_ahead w)\<rparr> in
      if k = n then (Inr b, w')
      else (case conn_read_full (n - k) w' of
          (Inl e, w'') \<Rightarrow> (Inl e, w'')
        | (Inr c, w'') \<Rightarrow> (Inr (b @ c), w'')))"

text \<open>
  \<open>read\<close>. \<open>begin\<close> is asked once, after the first header byte of an idle read; \<open>None\<close> is a wire
  without the hook.
\<close>

definition wire_read :: "bool \<Rightarrow> bool option \<Rightarrow> wire \<Rightarrow> (goerr + bytes) \<times> wire" where
  "wire_read idle admit w =
     (case read_full 1 w of
        (Inl e, w1) \<Rightarrow> (Inl e, w1)
      | (Inr h0, w1) \<Rightarrow>
          if idle \<and> admit = Some False then (Inl err_stopping, w1)
          else (case read_full 3 w1 of
              (Inl e, w2) \<Rightarrow> (Inl e, w2)
            | (Inr h1, w2) \<Rightarrow>
                let n = unat (h0 ! 0) + unat (h1 ! 0) * 256 + unat (h1 ! 1) * 65536 in
                if h1 ! 2 \<noteq> sequence w2 \<or> n = 0 \<or> max_command_payload < n
                then (Inl err_frame, w2)
                else read_full n (w2\<lparr>sequence := sequence w2 + 1\<rparr>)))"

definition frame_bytes :: "u8 \<Rightarrow> bytes \<Rightarrow> bytes" where
  "frame_bytes sq b = put_le 3 (word_of_nat (length b) :: u32) @ [sq] @ b"

text \<open>The write loop: a partial write is continued, a write of no byte is an error.\<close>

function send_loop :: "bytes \<Rightarrow> wire \<Rightarrow> goerr option \<times> wire" where
  "send_loop frame w =
     (if frame = [] then (None, w)
      else case w_accept w of
        [] \<Rightarrow> (None, w\<lparr>w_out := w_out w @ frame\<rparr>)
      | a # as \<Rightarrow>
          (case a of
             None \<Rightarrow> (Some err_unexpected_eof, w\<lparr>w_accept := as\<rparr>)
           | Some k \<Rightarrow>
               if k = 0 then (Some err_short_write, w\<lparr>w_accept := as\<rparr>)
               else send_loop (drop k frame) (w\<lparr>w_accept := as, w_out := w_out w @ take k frame\<rparr>)))"
  by pat_completeness auto
termination by (relation "measure (\<lambda>(f, w). length f)") auto

declare send_loop.simps [simp del]

definition wire_send :: "bytes \<Rightarrow> wire \<Rightarrow> goerr option \<times> wire" where
  "wire_send b w =
     (if max_packet < length b then (Some err_too_large, w)
      else send_loop (frame_bytes (sequence w) b) (w\<lparr>sequence := sequence w + 1\<rparr>))"

fun send_all :: "bytes list \<Rightarrow> wire \<Rightarrow> goerr option \<times> wire" where
  "send_all [] w = (None, w)"
| "send_all (b # bs) w =
     (case wire_send b w of (Some e, w') \<Rightarrow> (Some e, w') | (None, w') \<Rightarrow> send_all bs w')"

definition command_failure :: "u8 \<Rightarrow> goerr \<Rightarrow> wire \<Rightarrow> goerr \<times> wire" where
  "command_failure x e w =
     (if x \<noteq> 24 \<and> x \<noteq> 25 then (e, snd (wire_send (fatal_packet e) w)) else (e, w))"

definition reject_capacity :: "wire \<Rightarrow> wire" where
  "reject_capacity w = snd (wire_send (error_packet 1040 ''08004'' ''mariamem session capacity exhausted'')
     (w\<lparr>sequence := 0, read_ahead := []\<rparr>))"

definition reject_unavailable :: "wire \<Rightarrow> wire" where
  "reject_unavailable w = snd (wire_send (error_packet 2013 ''HY000'' ''mariamem database instance terminated'')
     (w\<lparr>sequence := 0, read_ahead := []\<rparr>))"

section \<open>Read-ahead\<close>

text \<open>
  \<open>receiveAhead\<close> over a script of how many bytes each \<open>Read\<close> finds (0 is a read of nothing) and the
  error that ends it; a read on an exhausted input waits for that error.
\<close>

definition receive_chunk :: "nat \<Rightarrow> wire \<Rightarrow> goerr option \<times> wire" where
  "receive_chunk k w =
     (let remaining = max_read_ahead - length (read_ahead w); size = min 4096 (remaining + 1);
          n = min k (min size (length (w_in w))) in
      if remaining < n then (Some err_read_ahead, w\<lparr>w_in := drop n (w_in w)\<rparr>)
      else if n = 0 then (Some err_no_progress, w)
      else (None, w\<lparr>read_ahead := read_ahead w @ take n (w_in w), w_in := drop n (w_in w)\<rparr>))"

fun receive_ahead :: "nat list \<Rightarrow> goerr \<Rightarrow> wire \<Rightarrow> goerr \<times> wire" where
  "receive_ahead ks final w =
     (if max_read_ahead < length (read_ahead w) then (err_read_ahead, w)
      else if w_in w = [] then (final, w)
      else case ks of
        [] \<Rightarrow> (final, w)
      | k # ks' \<Rightarrow>
          (case receive_chunk k w of
             (Some e, w') \<Rightarrow> (e, w')
           | (None, w') \<Rightarrow> receive_ahead ks' final w'))"

declare receive_ahead.simps [simp del]

text \<open>
  \<open>monitoredCall\<close>. \<open>reader_first\<close> says which channel the select takes; when the call is first, the
  reader is stopped by a deadline, and any other end is a disconnect. The result is the guest's
  unless the client is gone, in which case the cause is returned and aborts the guest.
\<close>

definition disconnect_cause :: "goerr \<Rightarrow> goerr" where
  "disconnect_cause e =
     (if err_is e err_read_ahead then e
      else Wrapped ''SQL client disconnected during query: '' e [])"

record monitor =
  m_chunks :: "nat list"
  m_end :: goerr
  reader_first :: bool

definition monitored_call ::
  "monitor \<Rightarrow> ('w \<Rightarrow> (goerr + result) \<times> 'w) \<Rightarrow> (goerr \<Rightarrow> 'w \<Rightarrow> 'w) \<Rightarrow> wire \<Rightarrow> 'w
    \<Rightarrow> (goerr + result) \<times> wire \<times> 'w" where
  "monitored_call m call abort w g =
     (let (e, w') = receive_ahead (m_chunks m) (m_end m) w; (r, g') = call g in
      if reader_first m then (Inl (disconnect_cause e), w', abort (disconnect_cause e) g')
      else if e \<noteq> err_timeout then (Inl (disconnect_cause e), w', abort (disconnect_cause e) g')
      else (r, w', g'))"

section \<open>The input is one stream\<close>

definition stream :: "wire \<Rightarrow> bytes" where "stream w = read_ahead w @ w_in w"

text \<open>Apart from where its bytes are buffered, two wires are the same.\<close>

definition flat :: "wire \<Rightarrow> wire" where "flat w = w\<lparr>read_ahead := [], w_in := stream w\<rparr>"

lemma read_full_stream:
  "n \<le> length (stream w) \<Longrightarrow>
     \<exists>w'. read_full n w = (Inr (take n (stream w)), w') \<and> flat w' = (flat w)\<lparr>w_in := drop n (stream w)\<rparr>"
  by (auto simp: read_full_def conn_read_full_def stream_def flat_def Let_def min_def not_le
      take_append drop_append split: if_splits)

lemma read_full_short:
  "length (stream w) < n \<Longrightarrow> \<exists>e w'. read_full n w = (Inl e, w') \<and> stream w' = [] \<and> sequence w' = sequence w"
  by (auto simp: read_full_def conn_read_full_def stream_def Let_def min_def)

lemma flat_frame [simp]:
  "sequence (flat w) = sequence w" "w_out (flat w) = w_out w" "w_accept (flat w) = w_accept w"
  "w_in (flat w) = stream w" "read_ahead (flat w) = []" "stream (flat w) = stream w"
  "stream (w\<lparr>sequence := sq\<rparr>) = stream w" "flat (w\<lparr>sequence := sq\<rparr>) = (flat w)\<lparr>sequence := sq\<rparr>"
  by (simp_all add: flat_def stream_def)

lemma flat_updD:
  assumes "flat w' = (flat w)\<lparr>w_in := x\<rparr>"
  shows "stream w' = x \<and> sequence w' = sequence w \<and> w_out w' = w_out w"
  using arg_cong [OF assms, of w_in] arg_cong [OF assms, of sequence] arg_cong [OF assms, of w_out] by simp

lemma send_loop_out:
  "send_loop f w = (None, w') \<Longrightarrow> w_out w' = w_out w @ f \<and> sequence w' = sequence w \<and> stream w' = stream w"
proof (induction f w rule: send_loop.induct)
  case (1 f w)
  show ?case
    using "1.prems" "1.IH" unfolding send_loop.simps [of f w]
    by (auto simp: stream_def split: if_splits list.splits option.splits)
qed

lemma wire_send_None:
  "wire_send b w = (None, w') \<Longrightarrow> length b \<le> max_packet \<and> w_out w' = w_out w @ frame_bytes (sequence w) b \<and>
     sequence w' = sequence w + 1 \<and> stream w' = stream w"
  by (auto simp: wire_send_def split: if_splits dest: send_loop_out)

text \<open>What the operations leave alone, whatever their outcome.\<close>

lemma send_loop_stream: "send_loop f w = (r, w') \<Longrightarrow> stream w' = stream w \<and> sequence w' = sequence w"
proof (induction f w rule: send_loop.induct)
  case (1 f w)
  show ?case
    using "1.prems" "1.IH" unfolding send_loop.simps [of f w]
    by (auto simp: stream_def split: if_splits list.splits option.splits)
qed

lemma wire_send_stream: "wire_send b w = (r, w') \<Longrightarrow> stream w' = stream w"
  by (auto simp: wire_send_def stream_def split: if_splits dest!: send_loop_stream)

lemma send_all_stream: "send_all bs w = (r, w') \<Longrightarrow> stream w' = stream w"
  by (induction bs w rule: send_all.induct) (auto split: prod.splits option.splits dest!: wire_send_stream)

lemma receive_chunk_frame:
  "receive_chunk k w = (r, w') \<Longrightarrow>
     w_out w' = w_out w \<and> sequence w' = sequence w \<and> length (stream w') \<le> length (stream w)"
  unfolding receive_chunk_def Let_def by (auto simp: stream_def split: if_splits)

lemma receive_ahead_frame:
  "receive_ahead ks final w = (e, w') \<Longrightarrow>
     w_out w' = w_out w \<and> sequence w' = sequence w \<and> length (stream w') \<le> length (stream w)"
proof (induction ks arbitrary: w)
  case Nil
  then show ?case unfolding receive_ahead.simps [of "[]" final w] by (auto split: if_splits)
next
  case (Cons k ks)
  obtain r w1 where c: "receive_chunk k w = (r, w1)" by fastforce
  have "w' = w \<or> w' = w1 \<or> receive_ahead ks final w1 = (e, w')"
    using Cons.prems unfolding receive_ahead.simps [of "k # ks" final w] list.case c
    by (auto split: if_splits option.splits)
  with Cons.IH [of w1] receive_chunk_frame [OF c] show ?case by auto
qed

lemma monitored_call_frame:
  "monitored_call m call abort w g = (r, w', g') \<Longrightarrow>
     w_out w' = w_out w \<and> sequence w' = sequence w \<and> length (stream w') \<le> length (stream w)"
  by (auto simp: monitored_call_def split: prod.splits if_splits dest!: receive_ahead_frame)

section \<open>Frames\<close>

text \<open>
  What the other end reads: frames whose sequence numbers count up from the one expected.
  \<open>frames\<close> writes a list of packets, \<open>parse_frames\<close> reads a number of them.
\<close>

fun frames :: "u8 \<Rightarrow> bytes list \<Rightarrow> bytes" where
  "frames sq [] = []"
| "frames sq (b # bs) = frame_bytes sq b @ frames (sq + 1) bs"

fun parse_frames :: "nat \<Rightarrow> u8 \<Rightarrow> bytes \<Rightarrow> (bytes list \<times> bytes) option" where
  "parse_frames 0 sq p = Some ([], p)"
| "parse_frames (Suc k) sq p =
     (let n = unat (get_le (take 3 p) :: u32) in
      if length p < 4 \<or> p ! 3 \<noteq> sq \<or> length p < 4 + n then None
      else case parse_frames k (sq + 1) (drop (4 + n) p) of
        None \<Rightarrow> None
      | Some (bs, r) \<Rightarrow> Some (take n (drop 4 p) # bs, r))"

lemma get_put_le3: "n < 16777216 \<Longrightarrow> unat (get_le (put_le 3 (word_of_nat n :: u32)) :: u32) = n"
proof -
  assume n: "n < 16777216"
  have "take_bit 24 n = n" using n by (simp add: take_bit_nat_eq_self)
  then show ?thesis
    using n by (simp add: get_put_le unsigned_take_bit_eq take_bit_of_nat del: take_bit_of_nat)
qed

lemma unat_le3: "unat (get_le [b0, b1, b2] :: u32) = unat b0 + unat b1 * 256 + unat b2 * 65536"
  by (simp add: unat_get_le_Cons del: get_le.simps(2))

lemma parse_frame_bytes:
  assumes "length b \<le> max_packet"
  shows "parse_frames (Suc k) sq (frame_bytes sq b @ r) =
    map_option (\<lambda>(bs, r'). (b # bs, r')) (parse_frames k (sq + 1) r)"
proof -
  let ?h = "put_le 3 (word_of_nat (length b) :: u32)"
  have f: "frame_bytes sq b @ r = ?h @ sq # b @ r" by (simp add: frame_bytes_def)
  have n: "unat (get_le (take 3 (frame_bytes sq b @ r)) :: u32) = length b"
    using assms unfolding f by (simp add: get_put_le3 max_packet_def)
  have l: "length (frame_bytes sq b @ r) = 4 + length b + length r" by (simp add: frame_bytes_def)
  have d: "(frame_bytes sq b @ r) ! 3 = sq" "drop 4 (frame_bytes sq b @ r) = b @ r"
    "drop (4 + length b) (frame_bytes sq b @ r) = r"
    unfolding f by (simp_all add: nth_append)
  show ?thesis
    unfolding parse_frames.simps Let_def n l d
    by (simp split: option.split)
qed

lemma parse_frames_frames:
  "\<forall>b\<in>set bs. length b \<le> max_packet \<Longrightarrow> parse_frames (length bs) sq (frames sq bs @ r) = Some (bs, r)"
  by (induction bs arbitrary: sq) (simp_all add: parse_frame_bytes del: parse_frames.simps(2))

lemma send_all_None:
  "send_all bs w = (None, w') \<Longrightarrow>
     (\<forall>b\<in>set bs. length b \<le> max_packet) \<and> w_out w' = w_out w @ frames (sequence w) bs \<and> stream w' = stream w"
  by (induction bs w rule: send_all.induct) (auto split: prod.splits option.splits dest!: wire_send_None)

lemma read_full_Inr:
  "read_full n w = (Inr b, w') \<Longrightarrow> b = take n (stream w) \<and> n \<le> length (stream w) \<and>
     stream w' = drop n (stream w) \<and> sequence w' = sequence w"
  using read_full_stream [of n w] read_full_short [of w n]
  by (cases "n \<le> length (stream w)") (auto dest!: flat_updD)

lemma read_full_prefix:
  assumes "stream w = b @ r"
  shows "\<exists>w'. read_full (length b) w = (Inr b, w') \<and> stream w' = r \<and> sequence w' = sequence w"
  using read_full_stream [of "length b" w] read_full_Inr [of "length b" w] assms by auto

lemma frame_stream:
  assumes p: "0 < length p" "length p \<le> max_command_payload" and w: "stream w = frame_bytes (sequence w) p @ rest"
    and adm: "idle \<longrightarrow> admit \<noteq> Some False"
  shows "\<exists>w'. wire_read idle admit w = (Inr p, w') \<and> stream w' = rest \<and> sequence w' = sequence w + 1"
proof -
  let ?n = "word_of_nat (length p) :: u32"
  have n: "unat (get_le (put_le 3 ?n) :: u32) = length p"
    using p(2) by (simp only: get_put_le3 max_command_payload_def)
  obtain b0 b1 b2 where h: "put_le 3 ?n = [b0, b1, b2]" by (simp add: numeral_3_eq_3)
  have sum: "unat b0 + unat b1 * 256 + unat b2 * 65536 = length p"
    using n unfolding h unat_le3 .
  have s0: "stream w = [b0] @ [b1, b2, sequence w] @ p @ rest"
    unfolding w frame_bytes_def h by simp
  obtain w1 where r1: "read_full (length [b0]) w = (Inr [b0], w1)" "stream w1 = [b1, b2, sequence w] @ p @ rest"
    "sequence w1 = sequence w"
    using read_full_prefix [OF s0] by blast
  obtain w2 where r2: "read_full (length [b1, b2, sequence w]) w1 = (Inr [b1, b2, sequence w], w2)"
    "stream w2 = p @ rest" "sequence w2 = sequence w1"
    using read_full_prefix [OF r1(2)] by blast
  have "stream (w2\<lparr>sequence := sequence w2 + 1\<rparr>) = p @ rest" using r2(2) by simp
  from read_full_prefix [OF this] obtain w4 where
    r3: "read_full (length p) (w2\<lparr>sequence := sequence w2 + 1\<rparr>) = (Inr p, w4)" "stream w4 = rest"
      "sequence w4 = sequence w + 1"
    using r2(3) r1(3) by auto
  have one: "read_full 1 w = (Inr [b0], w1)" "read_full 3 w1 = (Inr [b1, b2, sequence w], w2)"
    using r1(1) r2(1) by (simp_all add: numeral_3_eq_3)
  have "\<not> (sequence w \<noteq> sequence w2 \<or> length p = 0 \<or> max_command_payload < length p)"
    using p r1(3) r2(3) by auto
  then have "wire_read idle admit w = (Inr p, w4)"
    using adm r3(1) by (simp add: wire_read_def one Let_def sum del: One_nat_def)
  with r3 show ?thesis by blast
qed

lemma receive_chunk_None:
  assumes "receive_chunk k w = (None, w')" and "length (read_ahead w) \<le> max_read_ahead"
  shows "length (read_ahead w') \<le> max_read_ahead \<and> stream w' = stream w \<and> sequence w' = sequence w"
proof -
  define n where "n = min k (min (min 4096 (max_read_ahead - length (read_ahead w) + 1)) (length (w_in w)))"
  have w': "\<not> max_read_ahead - length (read_ahead w) < n"
    "w' = w\<lparr>read_ahead := read_ahead w @ take n (w_in w), w_in := drop n (w_in w)\<rparr>"
    using assms(1) unfolding receive_chunk_def Let_def n_def [symmetric] by (auto split: if_splits)
  then show ?thesis using assms(2) by (auto simp: stream_def min_def)
qed

lemma receive_chunk_Some:
  assumes "receive_chunk k w = (Some e, w')" and "length (read_ahead w) \<le> max_read_ahead"
  shows "read_ahead w' = read_ahead w \<and> sequence w' = sequence w \<and>
    (e = err_no_progress \<and> w' = w \<or>
     e = err_read_ahead \<and> (\<exists>lost. w_in w = lost @ w_in w' \<and> length (read_ahead w) + length lost = max_read_ahead + 1))"
proof -
  define n where "n = min k (min (min 4096 (max_read_ahead - length (read_ahead w) + 1)) (length (w_in w)))"
  have n: "n \<le> max_read_ahead - length (read_ahead w) + 1" "n \<le> length (w_in w)" by (simp_all add: n_def)
  have "w_in w = take n (w_in w) @ drop n (w_in w)" by simp
  then show ?thesis
    using assms n unfolding receive_chunk_def Let_def n_def [symmetric]
    by (auto split: if_splits intro!: exI [of _ "take n (w_in w)"])
qed

lemma receive_ahead_outcome:
  assumes "receive_ahead ks final w = (e, w')" and "length (read_ahead w) \<le> max_read_ahead"
  shows "length (read_ahead w') \<le> max_read_ahead \<and> sequence w' = sequence w \<and>
    (stream w' = stream w \<and> (e = final \<or> e = err_no_progress) \<or>
     e = err_read_ahead \<and> (\<exists>lost. stream w = read_ahead w' @ lost @ w_in w' \<and>
        length (read_ahead w') + length lost = max_read_ahead + 1))"
  using assms
proof (induction ks final w rule: receive_ahead.induct)
  case (1 ks final w)
  show ?case
  proof (cases "w_in w = [] \<or> ks = []")
    case True
    with "1.prems" show ?thesis
      unfolding receive_ahead.simps [of ks final w] by (auto split: if_splits)
  next
    case False
    then obtain k ks' where ks: "ks = k # ks'" by (cases ks) auto
    obtain r w1 where c: "receive_chunk k w = (r, w1)" by fastforce
    have run: "(case (r, w1) of (Some e, w') \<Rightarrow> (e, w') | (None, w') \<Rightarrow> receive_ahead ks' final w') = (e, w')"
      using "1.prems" False unfolding ks receive_ahead.simps [of "k # ks'" final w] by (simp add: c)
    show ?thesis
    proof (cases r)
      case None
      note n = receive_chunk_None [OF c [unfolded None] "1.prems"(2)]
      have "receive_ahead ks' final w1 = (e, w')" using run None by simp
      with n "1.IH" [OF _ _ ks c [symmetric] None] "1.prems"(2) False show ?thesis by simp
    next
      case (Some e')
      then have "e' = e" "w1 = w'" using run by simp_all
      with receive_chunk_Some [OF c [unfolded Some] "1.prems"(2)] "1.prems"(2) show ?thesis
        by (auto simp: stream_def)
    qed
  qed
qed

section \<open>Properties\<close>

text \<open>
  Reading a frame is independent of buffering: if the bytes pending on the connection, in the
  read-ahead buffer or still on the socket in any split, start with a frame of the expected sequence
  number and a legal payload, \<open>read\<close> returns that payload, consumes exactly the frame, and expects
  the next number, which wraps at 256.
\<close>

lemma frame_read_exactly:
  assumes "0 < length p" and "length p \<le> max_command_payload"
    and "read_ahead w @ w_in w = frame_bytes (sequence w) p @ rest" and "idle \<longrightarrow> admit \<noteq> Some False"
  shows "\<exists>w'. wire_read idle admit w = (Inr p, w') \<and> read_ahead w' @ w_in w' = rest \<and>
    sequence w' = sequence w + 1"
  using frame_stream [OF assms(1,2) _ assms(4)] assms(3) by (auto simp: stream_def)

lemma frame_read_exactly_example:
  "\<exists>w'. wire_read True None \<lparr>w_in = [255, 14, 9], w_end = err_eof, w_out = [], w_accept = [],
      sequence = 255, read_ahead = [1, 0, 0]\<rparr> = (Inr [14], w') \<and> read_ahead w' @ w_in w' = [9] \<and> sequence w' = 0"
proof -
  let ?w = "\<lparr>w_in = [255, 14, 9], w_end = err_eof, w_out = [], w_accept = [],
      sequence = 255, read_ahead = [1, 0, 0]\<rparr>"
  have "read_ahead ?w @ w_in ?w = frame_bytes (sequence ?w) [14] @ [9]"
    by (simp add: frame_bytes_def put_le_3)
  from frame_read_exactly [OF _ _ this, of True None] obtain w' where
    "wire_read True None ?w = (Inr [14], w')" "read_ahead w' @ w_in w' = [9]" "sequence w' = sequence ?w + 1"
    by (auto simp: max_command_payload_def)
  moreover have "sequence ?w + 1 = 0" by simp
  ultimately show ?thesis by metis
qed

text \<open>
  The packets of a reply reach the client as they were built: if every write succeeds, in
  whatever pieces, the bytes added to the connection are one frame per packet, each within the
  packet limit, and a reader that expects the wire's sequence number gets the packets back.
\<close>

lemma replies_framed_in_order:
  assumes "send_all bs w = (None, w')"
  shows "\<exists>sent. w_out w' = w_out w @ sent \<and> (\<forall>b\<in>set bs. length b \<le> max_packet) \<and>
    (\<forall>rest. parse_frames (length bs) (sequence w) (sent @ rest) = Some (bs, rest))"
  using send_all_None [OF assms] parse_frames_frames by auto

lemma replies_framed_in_order_example:
  "\<exists>sent w'. send_all [[1, 2, 3], [4]] \<lparr>w_in = [], w_end = err_eof, w_out = [], w_accept = [Some 2, Some 1, Some 9],
      sequence = 1, read_ahead = []\<rparr> = (None, w') \<and> w_out w' = sent \<and>
    parse_frames 2 1 sent = Some ([[1, 2, 3], [4]], [])"
proof -
  let ?w = "\<lparr>w_in = [], w_end = err_eof, w_out = [], w_accept = [Some 2, Some 1, Some 9],
      sequence = 1, read_ahead = []\<rparr>"
  have f: "frame_bytes 1 [1, 2, 3] = [3, 0, 0, 1, 1, 2, 3]" "frame_bytes 2 [4] = [1, 0, 0, 2, 4]"
    by (simp_all add: frame_bytes_def put_le_3)
  have "\<exists>w'. send_all [[1, 2, 3], [4]] ?w = (None, w')"
    by (simp add: wire_send_def max_packet_def f send_loop.simps)
  then obtain w' where run: "send_all [[1, 2, 3], [4]] ?w = (None, w')" ..
  from replies_framed_in_order [OF run] obtain sent where s: "w_out w' = w_out ?w @ sent"
    "\<forall>rest. parse_frames (length [[1, 2, 3], [4 :: u8]]) (sequence ?w) (sent @ rest) = Some ([[1, 2, 3], [4]], rest)"
    by blast
  have "w_out w' = sent" using s(1) by simp
  moreover have "parse_frames 2 1 sent = Some ([[1, 2, 3], [4]], [])"
    using s(2) [rule_format, of "[]"] by (simp add: numeral_2_eq_2 del: parse_frames.simps)
  ultimately show ?thesis using run by blast
qed

text \<open>
  C9. The disconnect monitor keeps future input and bounds it: a monitored call that returns the
  guest's answer has lost no byte the client sent meanwhile, and the buffer never exceeds one
  maximum command frame; otherwise the guest was aborted with the cause that is returned, which is
  the read-ahead limit exactly when the client sent more than the buffer holds.
\<close>

theorem monitored_call_bounded:
  assumes "monitored_call m call abort w g = (r, w', g')" and "length (read_ahead w) \<le> max_read_ahead"
    and "m_end m \<noteq> err_read_ahead" and "reader_first m \<longrightarrow> m_end m \<noteq> err_timeout"
  shows "length (read_ahead w') \<le> max_read_ahead \<and> sequence w' = sequence w \<and>
    (call g = (r, g') \<and> m_end m = err_timeout \<and> read_ahead w' @ w_in w' = read_ahead w @ w_in w \<or>
     (\<exists>cause. r = Inl cause \<and> g' = abort cause (snd (call g)) \<and>
        (cause = err_read_ahead \<longleftrightarrow> \<not> (read_ahead w' @ w_in w' = read_ahead w @ w_in w))))"
proof -
  obtain e w1 r1 g1 where ra: "receive_ahead (m_chunks m) (m_end m) w = (e, w1)" and c: "call g = (r1, g1)"
    by (metis surj_pair)
  note o = receive_ahead_outcome [OF ra assms(2)]
  have w1: "w' = w1" and split: "\<not> reader_first m \<and> e = err_timeout \<and> r = r1 \<and> g' = g1 \<or>
      r = Inl (disconnect_cause e) \<and> g' = abort (disconnect_cause e) g1"
    using assms(1) by (auto simp: monitored_call_def ra c split: if_splits)
  have neq: "err_read_ahead \<noteq> err_timeout" "err_no_progress \<noteq> err_timeout" "err_no_progress \<noteq> err_read_ahead"
    by (simp_all add: err_read_ahead_def err_timeout_def err_no_progress_def)
  have cause: "disconnect_cause e = err_read_ahead \<longleftrightarrow> e = err_read_ahead"
    by (auto simp: disconnect_cause_def err_read_ahead_def)
  have lost: "stream w \<noteq> stream w1" if "stream w = read_ahead w1 @ lost @ w_in w1"
    "length (read_ahead w1) + length lost = max_read_ahead + 1" "length (read_ahead w1) \<le> max_read_ahead" for lost
    using that by (auto simp: stream_def)
  show ?thesis
    using o split lost cause neq assms(3) c unfolding w1 stream_def by auto
qed

theorem monitored_call_bounded_witness:
  "\<exists>w'. monitored_call \<lparr>m_chunks = [2, 5], m_end = err_timeout, reader_first = False\<rparr>
      (\<lambda>n. (Inr (Result zero_fields None), Suc n)) (\<lambda>_ n. n)
      \<lparr>w_in = [1, 2, 3], w_end = err_eof, w_out = [], w_accept = [], sequence = 1, read_ahead = [9]\<rparr> (0 :: nat)
    = (Inr (Result zero_fields None), w', 1) \<and> read_ahead w' @ w_in w' = [9, 1, 2, 3]"
proof -
  let ?w = "\<lparr>w_in = [1, 2, 3], w_end = err_eof, w_out = [], w_accept = [], sequence = 1, read_ahead = [9 :: u8]\<rparr>"
  let ?m = "\<lparr>m_chunks = [2, 5], m_end = err_timeout, reader_first = False\<rparr>"
  have "\<exists>w'. monitored_call ?m (\<lambda>n. (Inr (Result zero_fields None), Suc n)) (\<lambda>_ n. n) ?w (0 :: nat)
      = (Inr (Result zero_fields None), w', 1)"
    by (simp add: monitored_call_def receive_ahead.simps receive_chunk_def max_read_ahead_def max_command_payload_def)
  then obtain w' where run: "monitored_call ?m (\<lambda>n. (Inr (Result zero_fields None), Suc n)) (\<lambda>_ n. n) ?w (0 :: nat)
      = (Inr (Result zero_fields None), w', 1)" by blast
  from monitored_call_bounded [OF run] have "read_ahead w' @ w_in w' = read_ahead ?w @ w_in ?w"
    by (simp add: max_read_ahead_def err_timeout_def err_read_ahead_def)
  with run show ?thesis by auto
qed

end
