(* ===== verification/PreparedPackets.thy ===== *)
theory PreparedPackets
  imports WirePackets
begin

text \<open>
  The binary-protocol serializers of \<open>internal/mysqlwire\<close>: column definitions and the PREPARE reply
  (\<open>prepared.go\<close>, \<open>prepared_flags.go\<close>), and the EXECUTE reply with its result chain and the hiding of
  OUT parameters from clients that did not negotiate them (\<open>prepared_execute.go\<close>). Every serializer
  validates the whole guest result before it returns a packet.
\<close>

definition prepared_wire_flags :: "u8 \<Rightarrow> u16 \<Rightarrow> u16" where
  "prepared_wire_flags t flags =
     (if (t \<le> 9 \<and> t \<noteq> 7) \<or> t = 13 \<or> t = 246 then flags AND NOT 0x8000 else flags)"

definition err_column_limit :: goerr where
  "err_column_limit = Sentinel ''prepared column metadata exceeds packet limit''"

fun prepared_names :: "bytes \<Rightarrow> string list \<Rightarrow> goerr + bytes" where
  "prepared_names b [] = Inr b"
| "prepared_names b (s # ss) =
     (if max_packet < length s + length b + 16 then Inl err_column_limit
      else prepared_names (b @ lestr (str_bytes s)) ss)"

definition prepared_column :: "column \<Rightarrow> goerr + bytes" where
  "prepared_column c =
     (case prepared_names [] (column_names c) of
        Inl e \<Rightarrow> Inl e
      | Inr b0 \<Rightarrow>
          let b = b0 @ [12] @ le16 (c_charset c) @ le32 (c_length c) @ [c_type c]
                @ le16 (prepared_wire_flags (c_type c) (c_flags c)) @ [c_decimals c, 0, 0] in
          if max_packet < length b then Inl err_column_limit else Inr b)"

fun map_res :: "('a \<Rightarrow> 'e + 'b) \<Rightarrow> 'a list \<Rightarrow> 'e + 'b list" where
  "map_res f [] = Inr []"
| "map_res f (x # xs) =
     (case f x of Inl e \<Rightarrow> Inl e
      | Inr y \<Rightarrow> (case map_res f xs of Inl e \<Rightarrow> Inl e | Inr ys \<Rightarrow> Inr (y # ys)))"

definition validate_prepared :: "result \<Rightarrow> u32 \<Rightarrow> goerr option" where
  "validate_prepared r g =
     (if api_version (body r) \<noteq> 2 \<or> prepared_version (body r) \<noteq> int (unat pp_version) \<or> g = 0
         \<or> session_generation (body r) \<noteq> g
      then Some (Sentinel ''prepared API/session identity mismatch'')
      else if results r \<noteq> None
         \<or> (\<not> ok (body r) \<and> (errno (body r) = 0 \<or> length (sqlstate (body r)) \<noteq> 5))
      then Some (Sentinel ''invalid prepared result envelope'')
      else None)"

definition prepare_header :: "result_fields \<Rightarrow> u32 \<Rightarrow> bytes" where
  "prepare_header r wid =
     [0] @ le32 wid @ le16 (word_of_nat (length (list_of (columns r)))) @ le16 (ucast (param_count r))
     @ [0] @ le16 (warnings r)"

definition prepare_packets :: "result \<Rightarrow> u32 \<Rightarrow> u32 \<Rightarrow> goerr + bytes list" where
  "prepare_packets r g wid =
     (case validate_prepared r g of
        Some e \<Rightarrow> Inl e
      | None \<Rightarrow>
          let f = body r; ps = list_of (parameters f); cs = list_of (columns f) in
          if \<not> ok f then packets r
          else if binary_rows f \<or> rows f \<noteq> None \<or> wid = 0 \<or> statement_id f = 0
              \<or> 65535 < param_count f \<or> (word_of_nat (length ps) :: u32) \<noteq> param_count f
              \<or> 65535 < length cs
          then Inl (Sentinel ''invalid prepared metadata'')
          else
            case (if param_count f \<noteq> 0
                  then (case map_res prepared_column ps of
                          Inl e \<Rightarrow> Inl e | Inr qs \<Rightarrow> Inr (qs @ [eof_packet (status f) 0]))
                  else Inr []) of
              Inl e \<Rightarrow> Inl e
            | Inr params \<Rightarrow>
                (case map_res prepared_column cs of
                   Inl e \<Rightarrow> Inl e
                 | Inr qs \<Rightarrow>
                     Inr ([prepare_header f wid] @ params @ qs
                          @ (if cs \<noteq> [] then [eof_packet (status f) 0] else []))))"

section \<open>Results of EXECUTE\<close>

definition cell_type :: "column \<Rightarrow> ptype" where
  "cell_type c = \<lparr>p_type = c_type c, p_unsigned = c_flags c AND 32 \<noteq> 0\<rparr>"

definition cell_value :: "column \<times> cell \<Rightarrow> goerr + pvalue" where
  "cell_value cc =
     (case snd cc of
        None \<Rightarrow> Inr \<lparr>v_ptype = cell_type (fst cc), v_null = True, v_bytes = []\<rparr>
      | Some h \<Rightarrow>
          if 2 * max_packet < length h then Inl (Sentinel ''prepared cell exceeds packet limit'')
          else case hex_decode h of
            None \<Rightarrow> Inl (Sentinel ''encoding/hex'')
          | Some v \<Rightarrow> Inr \<lparr>v_ptype = cell_type (fst cc), v_null = False, v_bytes = v\<rparr>)"

definition prepared_row :: "column list \<Rightarrow> cell list \<Rightarrow> goerr + bytes" where
  "prepared_row cs row =
     (if length row \<noteq> length cs then Inl (Sentinel ''prepared result row width mismatch'')
      else case map_res cell_value (zip cs row) of
        Inl e \<Rightarrow> Inl e
      | Inr vs \<Rightarrow>
          (case encode_binary_row vs max_packet of
             Inl _ \<Rightarrow> Inl (Sentinel ''invalid prepared typed value'')
           | Inr b \<Rightarrow> Inr b))"

definition prepared_single :: "result \<Rightarrow> bool \<Rightarrow> goerr + bytes list" where
  "prepared_single r allow_more =
     (let f = body r in
      if \<not> ok f \<or> \<not> binary_rows f \<or> results r \<noteq> None \<or> (\<not> allow_more \<and> status f AND 8 \<noteq> 0)
      then Inl (Sentinel ''invalid prepared binary result envelope'')
      else case columns f of
        None \<Rightarrow>
          if rows f \<noteq> None then Inl (Sentinel ''prepared DML unexpectedly contains rows'')
          else packets r
      | Some cs \<Rightarrow>
          if length cs = 0 \<or> 65535 < length cs
          then Inl (Sentinel ''invalid prepared result metadata count'')
          else case map_res prepared_column cs of
            Inl e \<Rightarrow> Inl e
          | Inr cps \<Rightarrow>
              (case map_res (prepared_row cs) (list_of (rows f)) of
                 Inl e \<Rightarrow> Inl e
               | Inr rps \<Rightarrow>
                   Inr ([leint (word_of_nat (length cs))] @ cps @ [eof_packet (status f) 0] @ rps
                        @ [eof_packet (status f) (warnings f)])))"

definition chain_part :: "u32 \<Rightarrow> result \<Rightarrow> goerr + bytes list" where
  "chain_part sid p =
     (if \<not> ok (body p) then
        if errno (body p) = 0 \<or> length (sqlstate (body p)) \<noteq> 5 \<or> columns (body p) \<noteq> None
           \<or> rows (body p) \<noteq> None
        then Inl (Sentinel ''invalid prepared terminal error'')
        else packets p
      else if statement_id (body p) \<noteq> sid
        then Inl (Sentinel ''prepared result chain handle mismatch'')
      else prepared_single p True)"

fun chain_packets :: "u32 \<Rightarrow> result list \<Rightarrow> goerr + bytes list" where
  "chain_packets sid [] = Inr []"
| "chain_packets sid (p # ps) =
     (let mr = (ps \<noteq> []) in
      if api_version (body p) \<noteq> 2 \<or> results p \<noteq> None \<or> (status (body p) AND 8 \<noteq> 0) \<noteq> mr
         \<or> (\<not> ok (body p) \<and> mr)
      then Inl (Sentinel ''invalid prepared result chain element'')
      else case chain_part sid p of
        Inl e \<Rightarrow> Inl e
      | Inr nx \<Rightarrow> (case chain_packets sid ps of Inl e \<Rightarrow> Inl e | Inr rest \<Rightarrow> Inr (nx @ rest)))"

definition prepared_result_packets :: "result \<Rightarrow> goerr + bytes list" where
  "prepared_result_packets r =
     (case results r of
        Some ps \<Rightarrow>
          if \<not> ok (body r) \<or> \<not> binary_rows (body r) \<or> ps = [] \<or> status (body r) AND 8 \<noteq> 0
             \<or> columns (body r) \<noteq> None \<or> rows (body r) \<noteq> None
          then Inl (Sentinel ''invalid prepared result chain'')
          else chain_packets (statement_id (body r)) ps
      | None \<Rightarrow> prepared_single r False)"

text \<open>The status bit 4096 (SERVER_PS_OUT_PARAMS) marks the result that carries OUT parameters.\<close>

definition is_out :: "result \<Rightarrow> bool" where
  "is_out p \<longleftrightarrow> status (body p) AND 4096 \<noteq> 0"

fun without_out :: "result list \<Rightarrow> goerr + result list" where
  "without_out [] = Inr []"
| "without_out (p # ps) =
     (if is_out p then
        if \<not> ok (body p) \<or> length (list_of (columns (body p))) = 0 \<or> ps = []
        then Inl (Sentinel ''invalid prepared OUT chain position'')
        else without_out ps
      else (case without_out ps of Inl e \<Rightarrow> Inl e | Inr qs \<Rightarrow> Inr (p # qs)))"

definition prepared_client_packets :: "result \<Rightarrow> bool \<Rightarrow> goerr + bytes list" where
  "prepared_client_packets r ps_multi =
     (case prepared_result_packets r of
        Inl e \<Rightarrow> Inl e
      | Inr validated \<Rightarrow>
          if ps_multi then Inr validated
          else case results r of
            None \<Rightarrow>
              if is_out r then Inl (Sentinel ''standalone prepared OUT result'') else Inr validated
          | Some ps \<Rightarrow>
              (case without_out ps of
                 Inl e \<Rightarrow> Inl e
               | Inr remaining \<Rightarrow>
                   if length remaining = length ps then Inr validated
                   else prepared_result_packets (Result (body r) (Some remaining))))"

section \<open>Bounds and shapes\<close>

lemma map_res_Inr: "map_res f xs = Inr ys \<longleftrightarrow> length ys = length xs \<and> (\<forall>i<length xs. f (xs ! i) = Inr (ys ! i))"
proof (induction xs arbitrary: ys)
  case Nil
  then show ?case by auto
next
  case (Cons x xs)
  show ?case
  proof (cases ys)
    case Nil
    then show ?thesis by (simp split: sum.split)
  next
    case (Cons y zs)
    have "map_res f (x # xs) = Inr (y # zs) \<longleftrightarrow> f x = Inr y \<and> map_res f xs = Inr zs"
      by (auto split: sum.splits)
    then show ?thesis
      unfolding Cons Cons.IH by (auto simp: less_Suc_eq_0_disj)
  qed
qed

lemma length_leint: "length (leint n) \<le> 9"
  by (simp add: leint_def)

lemma length_eof [simp]: "length (eof_packet s w) = 5"
  by (simp add: eof_packet_def)

lemma length_prepare_header: "length (prepare_header r w) = 12"
  by (simp add: prepare_header_def)

lemma prepared_column_bound: "prepared_column c = Inr b \<Longrightarrow> length b \<le> max_packet"
  by (auto simp: prepared_column_def Let_def split: sum.splits if_splits)

lemma prepared_columns_bound: "map_res prepared_column cs = Inr bs \<Longrightarrow> b \<in> set bs \<Longrightarrow> length b \<le> max_packet"
  by (auto simp: map_res_Inr in_set_conv_nth prepared_column_bound)

lemma prepared_names_eq:
  "prepared_names b ss = Inr b' \<Longrightarrow> b' = b @ concat (map (\<lambda>s. lestr (str_bytes s)) ss)"
  by (induction b ss rule: prepared_names.induct) (auto split: if_splits)

text \<open>Apart from the limit, a prepared column is the text column with the numeric flag taken back.\<close>

lemma prepared_column_text:
  "prepared_column c = Inr b \<Longrightarrow> b = text_column (c\<lparr>c_flags := prepared_wire_flags (c_type c) (c_flags c)\<rparr>)"
  by (auto simp: prepared_column_def text_column_def column_names_def Let_def
      dest: prepared_names_eq split: sum.splits if_splits)

lemma cell_value_type: "cell_value (c, x) = Inr v \<Longrightarrow> v_ptype v = cell_type c"
  by (auto simp: cell_value_def split: option.splits if_splits)

lemma prepared_row_Inr:
  assumes "prepared_row cs row = Inr b"
  shows "\<exists>vs. map_res cell_value (zip cs row) = Inr vs \<and> length row = length cs \<and> length b \<le> max_packet \<and>
    decode_binary_row (map cell_type cs) b = Some vs"
proof -
  obtain vs where vs: "map_res cell_value (zip cs row) = Inr vs" "length row = length cs"
    "encode_binary_row vs max_packet = Inr b"
    using assms by (auto simp: prepared_row_def split: if_splits sum.splits)
  have "map v_ptype vs = map cell_type cs"
    using vs(1,2) by (intro nth_equalityI) (auto simp: map_res_Inr cell_value_type)
  with decode_encode_binary_row [OF vs(3)] encode_binary_row_Inr(2) [OF vs(3)] vs(1,2)
  show ?thesis by auto
qed

text \<open>The chain's elements: each but the last is a success and carries MORE_RESULTS (8).\<close>

fun chain_ok :: "result list \<Rightarrow> bool" where
  "chain_ok [] \<longleftrightarrow> True"
| "chain_ok (p # ps) \<longleftrightarrow> api_version (body p) = 2 \<and> results p = None \<and>
     (status (body p) AND 8 \<noteq> 0) = (ps \<noteq> []) \<and> (ps \<noteq> [] \<longrightarrow> ok (body p)) \<and> chain_ok ps"

lemma chain_ok_nth:
  "chain_ok ps \<longleftrightarrow> (\<forall>i<length ps. api_version (body (ps ! i)) = 2 \<and> results (ps ! i) = None \<and>
     (status (body (ps ! i)) AND 8 \<noteq> 0) = (Suc i < length ps) \<and> (Suc i < length ps \<longrightarrow> ok (body (ps ! i))))"
proof (induction ps)
  case Nil
  then show ?case by simp
next
  case (Cons p ps)
  show ?case unfolding chain_ok.simps Cons by (simp add: All_less_Suc2)
qed

lemma chain_packets_Inr:
  "chain_packets sid ps = Inr out \<longleftrightarrow>
     chain_ok ps \<and> (\<exists>outs. out = concat outs \<and> list_all2 (\<lambda>p x. chain_part sid p = Inr x) ps outs)"
proof (induction ps arbitrary: out)
  case Nil
  then show ?case by auto
next
  case (Cons p ps)
  have "chain_packets sid (p # ps) = Inr out \<longleftrightarrow>
      (api_version (body p) = 2 \<and> results p = None \<and> (status (body p) AND 8 \<noteq> 0) = (ps \<noteq> []) \<and>
        (ps \<noteq> [] \<longrightarrow> ok (body p))) \<and>
      (\<exists>x rest. chain_part sid p = Inr x \<and> chain_packets sid ps = Inr rest \<and> out = x @ rest)"
    by (auto simp: Let_def split: if_splits sum.splits)
  also have "\<dots> \<longleftrightarrow> chain_ok (p # ps) \<and>
      (\<exists>x outs. chain_part sid p = Inr x \<and> list_all2 (\<lambda>p x. chain_part sid p = Inr x) ps outs
        \<and> out = x @ concat outs)"
    unfolding Cons.IH by auto
  also have "\<dots> \<longleftrightarrow> chain_ok (p # ps) \<and>
      (\<exists>outs. out = concat outs \<and> list_all2 (\<lambda>p x. chain_part sid p = Inr x) (p # ps) outs)"
    by (auto simp: list_all2_Cons1 simp del: chain_ok.simps) (metis concat.simps(2))
  finally show ?case .
qed

lemma without_out_Inr:
  "without_out ps = Inr qs \<Longrightarrow> qs = filter (\<lambda>p. \<not> is_out p) ps \<and>
     (ps \<noteq> [] \<longrightarrow> \<not> is_out (last ps) \<and> qs \<noteq> [] \<and> last qs = last ps) \<and> (\<forall>p\<in>set ps. is_out p \<longrightarrow> ok (body p))"
  by (induction ps arbitrary: qs) (auto split: if_splits sum.splits)

text \<open>Hiding the OUT results leaves a chain: its last element is the one there was.\<close>

lemma chain_ok_filter:
  "chain_ok ps \<Longrightarrow> ps \<noteq> [] \<longrightarrow> \<not> is_out (last ps) \<Longrightarrow> chain_ok (filter (\<lambda>p. \<not> is_out p) ps)"
proof (induction ps)
  case Nil
  then show ?case by simp
next
  case (Cons p ps)
  have "filter (\<lambda>p. \<not> is_out p) ps \<noteq> []" if "ps \<noteq> []"
    using Cons.prems(2) that by (metis filter_empty_conv last.simps last_in_set list.distinct(1))
  moreover have "chain_ok (filter (\<lambda>p. \<not> is_out p) ps)"
    using Cons by (cases ps) auto
  ultimately show ?case using Cons.prems(1) by auto
qed

lemma list_all2_filter_fst:
  "list_all2 P xs ys \<Longrightarrow> list_all2 P (filter Q xs) (map snd (filter (\<lambda>(x, y). Q x) (zip xs ys)))"
  by (induction xs ys rule: list_all2_induct) auto

section \<open>Properties\<close>

text \<open>
  OUT parameters of a result chain: every element is validated and serialized, also the ones
  the client will not see; the reply is the concatenation of the elements' packets, without those
  of the OUT results when the client did not negotiate CLIENT_PS_MULTI_RESULTS; and what the client
  gets is a chain, with MORE_RESULTS on exactly the elements that are followed by another visible one.
\<close>

lemma out_parameters_hidden:
  assumes "prepared_client_packets (Result r (Some ps)) ps_multi = Inr out"
  shows "\<exists>outs seen. list_all2 (\<lambda>p x. chain_part (statement_id r) p = Inr x) ps outs \<and>
    seen = filter (\<lambda>(p, x). ps_multi \<or> \<not> is_out p) (zip ps outs) \<and> seen \<noteq> [] \<and>
    out = concat (map snd seen) \<and>
    (\<forall>i<length seen. (status (body (fst (seen ! i))) AND 8 \<noteq> 0) = (Suc i < length seen) \<and>
       (Suc i < length seen \<longrightarrow> ok (body (fst (seen ! i)))))"
proof -
  obtain v where v: "prepared_result_packets (Result r (Some ps)) = Inr v"
    using assms by (auto simp: prepared_client_packets_def split: sum.splits)
  then have head: "ps \<noteq> []" "chain_packets (statement_id r) ps = Inr v"
    by (auto simp: prepared_result_packets_def split: if_splits)
  then obtain outs where chain: "chain_ok ps" "v = concat outs"
    and outs: "list_all2 (\<lambda>p x. chain_part (statement_id r) p = Inr x) ps outs"
    by (auto simp: chain_packets_Inr)
  define seen where "seen = filter (\<lambda>(p, x). ps_multi \<or> \<not> is_out p) (zip ps outs)"
  have len: "length outs = length ps" using outs by (simp add: list_all2_lengthD)
  have fst_seen: "map fst seen = filter (\<lambda>p. ps_multi \<or> \<not> is_out p) ps"
    unfolding seen_def using len by (induction ps outs rule: list_induct2') auto
  have "out = concat (map snd seen) \<and> chain_ok (map fst seen) \<and> map fst seen \<noteq> []"
  proof (cases ps_multi)
    case True
    then have "seen = zip ps outs" by (simp add: seen_def case_prod_unfold)
    with True assms v chain len head(1) show ?thesis by (simp add: prepared_client_packets_def)
  next
    case False
    then obtain qs where qs: "without_out ps = Inr qs"
      using assms v by (auto simp: prepared_client_packets_def split: sum.splits)
    note w = without_out_Inr [OF qs]
    have q: "map fst seen = qs" using False w fst_seen by simp
    have ok: "chain_ok qs" using chain_ok_filter [OF chain(1)] w by simp
    show ?thesis
    proof (cases "length qs = length ps")
      case True
      then have "qs = ps" using w by (metis filter_id_conv length_filter_less nat_neq_iff)
      then have "seen = zip ps outs"
        using w False by (auto simp: seen_def filter_id_conv case_prod_unfold dest: set_zip_leftD)
      with True assms v chain len head(1) qs False show ?thesis
        by (simp add: prepared_client_packets_def)
    next
      case neq: False
      have "prepared_result_packets (Result r (Some qs)) = Inr out"
        using assms v qs neq False by (simp add: prepared_client_packets_def)
      then have "chain_packets (statement_id r) qs = Inr out"
        by (auto simp: prepared_result_packets_def split: if_splits)
      then obtain os where os: "out = concat os" "list_all2 (\<lambda>p x. chain_part (statement_id r) p = Inr x) qs os"
        by (auto simp: chain_packets_Inr)
      have "list_all2 (\<lambda>p x. chain_part (statement_id r) p = Inr x) qs (map snd seen)"
        using list_all2_filter_fst [OF outs, of "\<lambda>p. \<not> is_out p"] w False by (simp add: seen_def)
      then have "os = map snd seen"
        using os(2) by (auto simp: list_all2_conv_all_nth intro!: nth_equalityI)
      moreover have "qs \<noteq> []" using w head(1) by blast
      ultimately show ?thesis using os(1) q ok by simp
    qed
  qed
  with outs show ?thesis
    by (intro exI [of _ outs] exI [of _ seen]) (auto simp: chain_ok_nth seen_def [symmetric])
qed

lemma out_parameters_hidden_example:
  "\<exists>r ps out. length ps = 3 \<and> prepared_client_packets (Result r (Some ps)) False = Inr out \<and>
     (\<exists>seen :: (result \<times> bytes list) list. length seen = 2 \<and> out = concat (map snd seen))"
proof -
  define f where "f = zero_fields\<lparr>ok := True, api_version := 2, binary_rows := True, statement_id := 5,
    affected := ''1'', insert_id := ''0''\<rparr>"
  define c :: column where "c = \<lparr>c_name = ''a'', c_org_name = [], c_table = [], c_org_table = [],
    c_db = [], c_catalog = ''def'', c_type = 3, c_charset = 63, c_flags = 0, c_length = 11, c_decimals = 0\<rparr>"
  define p0 where "p0 = Result (f\<lparr>status := 8\<rparr>) None"
  define p1 where "p1 = Result (f\<lparr>status := 4104, columns := Some [c], rows := Some [[Some ''01000000'']]\<rparr>) None"
  define p2 where "p2 = Result f None"
  define ps where "ps = [p0, p1, p2]"
  have dml: "packets (Result (f\<lparr>status := s\<rparr>) None) = Inr [ok_packet s 1 0 0]" for s
    by (simp add: packets_def packets_single_def f_def zero_fields_def parse_uint_def digit_val_def)
  have o0: "chain_part 5 p0 = Inr [ok_packet 8 1 0 0]"
    using dml [of 8] by (simp add: chain_part_def prepared_single_def p0_def) (simp add: f_def zero_fields_def)
  have o2: "chain_part 5 p2 = Inr [ok_packet 0 1 0 0]"
    using dml [of 0] by (simp add: chain_part_def prepared_single_def p2_def) (simp add: f_def zero_fields_def)
  obtain b where b: "prepared_column c = Inr b"
    by (simp add: prepared_column_def column_names_def c_def lestr_def leint_def max_packet_def Let_def)
  have hex: "hex_decode ''01000000'' = Some [1, 0, 0, 0]" by (simp add: hex_val_def)
  obtain row where row: "prepared_row [c] [Some ''01000000''] = Inr row"
    using hex by (simp add: prepared_row_def cell_value_def cell_type_def c_def max_packet_def
        encode_binary_row_def max_envelope_def valid_value_def value_shape_def del: hex_decode.simps)
  obtain o1 where o1: "chain_part 5 p1 = Inr o1"
    using b row by (simp add: chain_part_def prepared_single_def p1_def f_def zero_fields_def Let_def)
  have sel: "status (body p0) = 8" "status (body p1) = 4104" "status (body p2) = 0"
    "ok (body p0)" "ok (body p1)" "ok (body p2)" "list_of (columns (body p1)) = [c]"
    "api_version (body p0) = 2" "api_version (body p1) = 2" "api_version (body p2) = 2"
    "results p0 = None" "results p1 = None" "results p2 = None"
    by (simp_all add: p0_def p1_def p2_def f_def zero_fields_def)
  have all: "prepared_result_packets (Result f (Some ps)) = Inr ([ok_packet 8 1 0 0] @ o1 @ [ok_packet 0 1 0 0])"
    using o0 o1 o2 sel by (simp add: prepared_result_packets_def ps_def f_def zero_fields_def Let_def)
  have "without_out ps = Inr [p0, p2]"
    using sel by (simp add: ps_def is_out_def)
  moreover have "prepared_result_packets (Result f (Some [p0, p2])) = Inr [ok_packet 8 1 0 0, ok_packet 0 1 0 0]"
    using o0 o2 sel by (simp add: prepared_result_packets_def f_def zero_fields_def Let_def)
  ultimately have out: "prepared_client_packets (Result f (Some ps)) False = Inr [ok_packet 8 1 0 0, ok_packet 0 1 0 0]"
    using all by (simp add: prepared_client_packets_def) (simp add: ps_def)
  from out_parameters_hidden [OF this] obtain outs where
    outs: "list_all2 (\<lambda>p x. chain_part (statement_id f) p = Inr x) ps outs"
    and eq: "[ok_packet 8 1 0 0, ok_packet 0 1 0 0]
      = concat (map snd (filter (\<lambda>(p, x). \<not> is_out p) (zip ps outs)))"
    by auto
  have "length (filter (\<lambda>(p, x). \<not> is_out p) (zip ps outs)) = 2"
    using outs sel by (auto simp: ps_def list_all2_Cons1 is_out_def)
  with eq have "\<exists>seen :: (result \<times> bytes list) list. length seen = 2 \<and> [ok_packet 8 1 0 0, ok_packet 0 1 0 0] = concat (map snd seen)"
    by blast
  moreover have "length ps = 3" by (simp add: ps_def)
  ultimately show ?thesis using out by blast
qed

section \<open>A client of the binary protocol\<close>

text \<open>What a client reads in a column definition: six strings, then the fixed part of 12 bytes.\<close>

record client_column =
  k_names :: "bytes option list"
  k_charset :: u16
  k_length :: u32
  k_type :: u8
  k_flags :: u16
  k_decimals :: u8

definition read_column :: "bytes \<Rightarrow> client_column option" where
  "read_column b =
     (case decode_seq read_cell 6 b of
        None \<Rightarrow> None
      | Some (ns, r) \<Rightarrow>
          if length r = 13 \<and> r ! 0 = 12
          then Some \<lparr>k_names = ns, k_charset = get_le (take 2 (drop 1 r)), k_length = get_le (take 4 (drop 3 r)),
                      k_type = r ! 7, k_flags = get_le (take 2 (drop 8 r)), k_decimals = r ! 10\<rparr>
          else None)"

text \<open>
  The definition of a column as the guest gave it, but for the numeric flag (\<open>0x8000\<close>) where the type of the
  column has none on this protocol.
\<close>

definition reads_as :: "bytes \<Rightarrow> column \<Rightarrow> bool" where
  "reads_as b c \<longleftrightarrow> length b \<le> max_packet \<and> read_column b = Some
     \<lparr>k_names = map (\<lambda>s. Some (str_bytes s)) [c_catalog c, c_db c, c_table c, c_org_table c, c_name c, c_org_name c],
      k_charset = c_charset c, k_length = c_length c, k_type = c_type c,
      k_flags = (if c_type c \<in> {0, 1, 2, 3, 4, 5, 6, 8, 9, 13, 246} then c_flags c AND NOT 0x8000 else c_flags c),
      k_decimals = c_decimals c\<rparr>"

text \<open>The type by which the client then decodes the cells of that column; 32 is the unsigned flag.\<close>

definition client_type :: "bytes \<Rightarrow> ptype" where
  "client_type b = \<lparr>p_type = k_type (the (read_column b)), p_unsigned = k_flags (the (read_column b)) AND 32 \<noteq> 0\<rparr>"

lemma read_prepared_column:
  assumes "prepared_column c = Inr b"
  shows "read_column b = Some \<lparr>k_names = map (\<lambda>s. Some (str_bytes s)) (column_names c), k_charset = c_charset c,
    k_length = c_length c, k_type = c_type c, k_flags = prepared_wire_flags (c_type c) (c_flags c), k_decimals = c_decimals c\<rparr>"
proof -
  define vs where "vs = map (\<lambda>s. Some (str_bytes s)) (column_names c)"
  define r where "r = [12] @ le16 (c_charset c) @ le32 (c_length c) @ [c_type c]
    @ le16 (prepared_wire_flags (c_type c) (c_flags c)) @ [c_decimals c, 0, 0]"
  have b: "b = concat (map write_cell vs) @ r"
    using prepared_column_text [OF assms] by (simp add: text_column_def column_names_def vs_def r_def)
  have "length v < 18446744073709551616" if "Some v \<in> set vs" for v
  proof -
    have "length v \<le> length (write_cell (Some v))" by (simp add: lestr_def)
    also have "\<dots> \<le> length (concat (map write_cell vs))"
      using that unfolding length_concat by (intro member_le_sum_list) (auto intro: rev_image_eqI)
    finally show ?thesis using prepared_column_bound [OF assms] b by (simp add: max_packet_def)
  qed
  then have "list_all (\<lambda>c. case c of None \<Rightarrow> True | Some v \<Rightarrow> length v < 18446744073709551616) vs"
    by (auto simp: list_all_iff split: option.split)
  moreover have "length vs = 6" by (simp add: vs_def column_names_def)
  ultimately have "decode_seq read_cell 6 b = Some (vs, r)" using cell_codec.decode_seq_concat [of vs r] b by simp
  moreover have "length r = 13" "r ! 0 = 12" "take 2 (drop 1 r) = le16 (c_charset c)" "take 4 (drop 3 r) = le32 (c_length c)"
    "r ! 7 = c_type c" "take 2 (drop 8 r) = le16 (prepared_wire_flags (c_type c) (c_flags c))" "r ! 10 = c_decimals c"
    by (simp_all add: r_def nth_append)
  ultimately show ?thesis by (simp add: read_column_def vs_def)
qed

lemma wire_flags: "prepared_wire_flags ty fl =
    (if ty \<in> {0, 1, 2, 3, 4, 5, 6, 8, 9, 13, 246} then fl AND NOT 0x8000 else fl)"
proof -
  have "ty \<le> 9 \<longleftrightarrow> ty \<in> {0, 1, 2, 3, 4, 5, 6, 7, 8, 9}"
  proof -
    have "ty \<le> 9 \<longleftrightarrow> unat ty \<in> {0, 1, 2, 3, 4, 5, 6, 7, 8, 9}" by (auto simp: word_le_nat_alt)
    then show ?thesis by (auto simp: word_unat_eq_iff)
  qed
  then show ?thesis by (auto simp: prepared_wire_flags_def)
qed

lemma prepared_column_reads: "prepared_column c = Inr b \<Longrightarrow> reads_as b c"
  using read_prepared_column [of c b] prepared_column_bound [of c b] by (simp add: reads_as_def column_names_def wire_flags)

lemma prepared_columns_read: "map_res prepared_column cs = Inr bs \<Longrightarrow> list_all2 reads_as bs cs"
  by (auto simp: map_res_Inr list_all2_conv_all_nth prepared_column_reads)

lemma wire_unsigned: "prepared_wire_flags t fl AND 32 = fl AND 32"
proof -
  have "NOT (0x8000 :: u16) AND 32 = 32" by code_simp
  then show ?thesis by (simp add: prepared_wire_flags_def and.assoc)
qed

lemma cell_read: "cell_value (c, x) = Inr v \<Longrightarrow>
    (case x of None \<Rightarrow> v_null v | Some h \<Rightarrow> \<not> v_null v \<and> hex_decode h = Some (v_bytes v))"
  by (auto simp: cell_value_def split: option.splits if_splits)

lemma client_type_column: "prepared_column c = Inr b \<Longrightarrow> client_type b = cell_type c"
  by (simp add: client_type_def read_prepared_column wire_unsigned cell_type_def)

text \<open>
  C4. A binary result set is the column count, the column definitions, an EOF, the rows and an EOF, every
  packet within the packet limit. A client reads back each column definition as the guest gave it (\<open>reads_as\<close>); decoding each row by the types and unsigned flags it
  read there, it gets a NULL for a cell that the guest left out and the bytes of the cell's hex text otherwise.
\<close>

theorem binary_result_readable:
  assumes "prepared_single (Result f None) allow_more = Inr out" and "columns f = Some cs"
  shows "\<exists>cps rps. out = [leint (word_of_nat (length cs))] @ cps @ [eof_packet (status f) 0] @ rps
        @ [eof_packet (status f) (warnings f)] \<and>
      length rps = length (list_of (rows f)) \<and> (\<forall>b\<in>set out. length b \<le> max_packet) \<and>
      list_all2 reads_as cps cs \<and>
      (\<forall>i<length rps. length (list_of (rows f) ! i) = length cs \<and>
         (\<exists>vs. decode_binary_row (map client_type cps) (rps ! i) = Some vs \<and> length vs = length cs \<and>
           (\<forall>j<length cs. case list_of (rows f) ! i ! j of
              None \<Rightarrow> v_null (vs ! j)
            | Some h \<Rightarrow> \<not> v_null (vs ! j) \<and> hex_decode h = Some (v_bytes (vs ! j)))))"
proof -
  obtain cps rps where c: "map_res prepared_column cs = Inr cps"
    and r: "map_res (prepared_row cs) (list_of (rows f)) = Inr rps"
    and out: "out = [leint (word_of_nat (length cs))] @ cps @ [eof_packet (status f) 0] @ rps
        @ [eof_packet (status f) (warnings f)]"
    using assms by (auto simp: prepared_single_def Let_def split: if_splits sum.splits)
  have row: "prepared_row cs (list_of (rows f) ! i) = Inr (rps ! i)" if "i < length rps" for i
    using r that by (simp add: map_res_Inr)
  have len: "length cps = length cs" "length rps = length (list_of (rows f))" using c r by (auto simp: map_res_Inr)
  have col: "prepared_column (cs ! j) = Inr (cps ! j)" if "j < length cs" for j
    using c that by (simp add: map_res_Inr)
  have "length b \<le> max_packet" if "b \<in> set rps" for b
    using that row prepared_row_Inr by (metis in_set_conv_nth)
  moreover have "length b \<le> max_packet" if "b \<in> set cps" for b
    using prepared_columns_bound [OF c that] .
  moreover have "length (leint n) \<le> max_packet" for n
    using length_leint [of n] by (simp add: max_packet_def)
  ultimately have lim: "\<forall>b\<in>set out. length b \<le> max_packet"
    by (auto simp: out max_packet_def)
  have types: "map client_type cps = map cell_type cs"
    using len(1) col by (intro nth_equalityI) (auto simp: client_type_column)
  have rows: "length (list_of (rows f) ! i) = length cs \<and>
         (\<exists>vs. decode_binary_row (map client_type cps) (rps ! i) = Some vs \<and> length vs = length cs \<and>
           (\<forall>j<length cs. case list_of (rows f) ! i ! j of
              None \<Rightarrow> v_null (vs ! j)
            | Some h \<Rightarrow> \<not> v_null (vs ! j) \<and> hex_decode h = Some (v_bytes (vs ! j))))"
    if i: "i < length rps" for i
  proof -
    obtain vs where vs: "map_res cell_value (zip cs (list_of (rows f) ! i)) = Inr vs"
      "length (list_of (rows f) ! i) = length cs" "decode_binary_row (map cell_type cs) (rps ! i) = Some vs"
      using prepared_row_Inr [OF row [OF i]] by blast
    have "length vs = length cs" using vs(1,2) by (auto simp: map_res_Inr)
    moreover have "cell_value (cs ! j, list_of (rows f) ! i ! j) = Inr (vs ! j)" if "j < length cs" for j
      using vs(1,2) that by (auto simp: map_res_Inr)
    ultimately show ?thesis using vs(2,3) types cell_read by fastforce
  qed
  show ?thesis
    using prepared_columns_read [OF c] out len lim rows by (intro exI [of _ cps] exI [of _ rps] conjI) simp_all
qed

theorem binary_result_readable_witness:
  "\<exists>def col b. read_column def = Some col \<and> k_type col = 3 \<and> k_flags col = 32 \<and> k_names col ! 4 = Some [97] \<and>
     (\<exists>vs. decode_binary_row [\<lparr>p_type = 3, p_unsigned = True\<rparr>] b = Some vs \<and> v_bytes (vs ! 0) = [1, 0, 0, 0])"
proof -
  define c :: column where "c = \<lparr>c_name = ''a'', c_org_name = [], c_table = [], c_org_table = [],
    c_db = [], c_catalog = ''def'', c_type = 3, c_charset = 63, c_flags = 32, c_length = 11, c_decimals = 0\<rparr>"
  define f where "f = zero_fields\<lparr>ok := True, api_version := 2, binary_rows := True, statement_id := 5,
    columns := Some [c], rows := Some [[Some ''01000000'']]\<rparr>"
  obtain b where b: "prepared_column c = Inr b"
    by (simp add: prepared_column_def column_names_def c_def lestr_def leint_def max_packet_def Let_def)
  have hex: "hex_decode ''01000000'' = Some [1, 0, 0, 0]" by (simp add: hex_val_def)
  have val: "cell_value (c, Some ''01000000'') =
      Inr \<lparr>v_ptype = \<lparr>p_type = 3, p_unsigned = True\<rparr>, v_null = False, v_bytes = [1, 0, 0, 0]\<rparr>"
    using hex by (simp add: cell_value_def cell_type_def c_def max_packet_def del: hex_decode.simps)
  have row: "\<exists>row. prepared_row [c] [Some ''01000000''] = Inr row"
    using val by (simp add: prepared_row_def encode_binary_row_def max_envelope_def max_packet_def
        valid_value_def value_shape_def)
  have sel: "columns f = Some [c]" "list_of (rows f) = [[Some ''01000000'']]" "ok f" "binary_rows f" "status f = 0"
    by (simp_all add: f_def zero_fields_def)
  have "\<exists>out. prepared_single (Result f None) False = Inr out"
    using b row sel by (auto simp: prepared_single_def Let_def)
  then obtain out where "prepared_single (Result f None) False = Inr out" ..
  from binary_result_readable [OF this sel(1)] obtain cps rps where
    reads: "list_all2 reads_as cps [c]" "length rps = 1" and
    row: "\<exists>vs. decode_binary_row (map client_type cps) (rps ! 0) = Some vs \<and> hex_decode ''01000000'' = Some (v_bytes (vs ! 0))"
    unfolding sel by (auto simp del: hex_decode.simps)
  then have 1: "length cps = 1" "reads_as (cps ! 0) c" by (auto simp: list_all2_Cons2)
  then obtain k where k: "read_column (cps ! 0) = Some k" "k_names k ! 4 = Some [97]" "k_type k = 3" "k_flags k = 32"
    by (auto simp: str_bytes_def reads_as_def c_def)
  have "map client_type cps = [client_type (cps ! 0)]" using 1 by (cases cps) auto
  then have "map client_type cps = [\<lparr>p_type = 3, p_unsigned = True\<rparr>]" using k by (simp add: client_type_def)
  then have "\<exists>vs. decode_binary_row [\<lparr>p_type = 3, p_unsigned = True\<rparr>] (rps ! 0) = Some vs \<and> v_bytes (vs ! 0) = [1, 0, 0, 0]"
    using row hex by (auto simp del: hex_decode.simps)
  then show ?thesis using k by blast
qed

end
