(* ===== verification/PreparedRegistry.thy ===== *)
theory PreparedRegistry
  imports GoStd
begin

text \<open>
  The statement registry of \<open>internal/preparedproto/registry.go\<close>: one per client session. It
  hands out wire statement ids, never twice, and keeps the two maps between wire ids and native
  guest handles inverse to each other.
\<close>

definition last_statement_id :: u32 where "last_statement_id = NOT 0"

lemma last_statement_id_val: "last_statement_id = 4294967295"
  by (simp add: last_statement_id_def)

datatype registry_error = ErrStatement

record entry =
  e_handle :: u32
  e_parameters :: u16

record registry =
  r_generation :: u32
  next_id :: u32
  entries :: "u32 \<rightharpoonup> entry"
  handles :: "u32 \<rightharpoonup> u32"

definition new_registry :: "u32 \<Rightarrow> registry_error + registry" where
  "new_registry g =
     (if g = 0 then Inl ErrStatement
      else Inr \<lparr>r_generation = g, next_id = 0, entries = Map.empty, handles = Map.empty\<rparr>)"

definition registry_add :: "registry \<Rightarrow> u32 \<Rightarrow> u32 \<Rightarrow> u32 \<Rightarrow> registry_error + (u32 \<times> registry)" where
  "registry_add r g h params =
     (if g \<noteq> r_generation r \<or> h = 0 \<or> 65535 < params \<or> last_statement_id - 1 \<le> next_id r
      then Inl ErrStatement
      else if handles r h \<noteq> None then Inl ErrStatement
      else
        let wid = next_id r + 1 in
        Inr (wid, r\<lparr>next_id := wid,
                   entries := (entries r)(wid \<mapsto> \<lparr>e_handle = h, e_parameters = ucast params\<rparr>),
                   handles := (handles r)(h \<mapsto> wid)\<rparr>))"

definition registry_lookup :: "registry \<Rightarrow> u32 \<Rightarrow> entry option" where
  "registry_lookup r wid = entries r wid"

definition registry_remove :: "registry \<Rightarrow> u32 \<Rightarrow> registry" where
  "registry_remove r wid =
     (case entries r wid of
        Some e \<Rightarrow> r\<lparr>handles := (handles r)(e_handle e := None), entries := (entries r)(wid := None)\<rparr>
      | None \<Rightarrow> r)"

definition registry_clear :: "registry \<Rightarrow> registry" where
  "registry_clear r = r\<lparr>entries := Map.empty, handles := Map.empty\<rparr>"

section \<open>The invariant\<close>

text \<open>
  The two maps are inverse to each other, every id is one that has been handed out, neither 0 nor
  the alias \<open>LastStatementID\<close>, and no registered handle is 0.
\<close>

definition registry_inv :: "registry \<Rightarrow> bool" where
  "registry_inv r \<longleftrightarrow>
     r_generation r \<noteq> 0 \<and> next_id r \<le> last_statement_id - 1 \<and>
     (\<forall>h wid. handles r h = Some wid \<longleftrightarrow> (\<exists>e. entries r wid = Some e \<and> e_handle e = h)) \<and>
     (\<forall>wid e. entries r wid = Some e \<longrightarrow> 0 < wid \<and> wid \<le> next_id r \<and> e_handle e \<noteq> 0)"

lemma registry_inv_entry:
  "registry_inv r \<Longrightarrow> entries r wid = Some e \<Longrightarrow>
     handles r (e_handle e) = Some wid \<and> 0 < wid \<and> wid \<le> next_id r \<and> e_handle e \<noteq> 0"
  by (auto simp: registry_inv_def)

lemma new_registry_inv [inv_intros]: "new_registry g = Inr r \<Longrightarrow> registry_inv r"
  by (auto simp: new_registry_def registry_inv_def last_statement_id_val split: if_splits)

lemma word_inc_less: "(n :: u32) < last_statement_id - 1 \<Longrightarrow> n < n + 1 \<and> n + 1 \<le> last_statement_id - 1"
  by (simp add: last_statement_id_val word_le_nat_alt word_less_nat_alt unat_word_ariths)

lemma registry_add_Inr:
  assumes "registry_add r g h p = Inr (wid, r')"
  shows "g = r_generation r" "h \<noteq> 0" "p \<le> 65535" "next_id r < last_statement_id - 1"
    "handles r h = None" "wid = next_id r + 1"
    "r' = r\<lparr>next_id := wid, entries := (entries r)(wid \<mapsto> \<lparr>e_handle = h, e_parameters = ucast p\<rparr>),
            handles := (handles r)(h \<mapsto> wid)\<rparr>"
  using assms by (auto simp: registry_add_def Let_def not_le split: if_splits)

lemma registry_inv_fresh: "registry_inv r \<Longrightarrow> next_id r < wid \<Longrightarrow> entries r wid = None"
  by (metis leD not_None_eq registry_inv_entry)

lemma registry_add_inv [inv_intros]:
  assumes inv: "registry_inv r" and add: "registry_add r g h p = Inr (wid, r')"
  shows "registry_inv r'"
proof -
  note a = registry_add_Inr [OF add]
  have up: "next_id r < wid" "wid \<le> last_statement_id - 1"
    using word_inc_less [OF a(4)] a(6) by auto
  have fresh: "entries r wid = None" using registry_inv_fresh [OF inv] up(1) by blast
  have pos: "0 < wid" by (rule order_le_less_trans [OF word_zero_le up(1)])
  have old: "\<And>i e. entries r i = Some e \<Longrightarrow> e_handle e \<noteq> h \<and> i \<le> wid \<and> 0 < i \<and> e_handle e \<noteq> 0"
    using registry_inv_entry [OF inv] a(5) up(1) by fastforce
  have hs: "\<And>h' i. handles r h' = Some i \<longleftrightarrow> (\<exists>e. entries r i = Some e \<and> e_handle e = h')"
    using inv by (simp add: registry_inv_def)
  show ?thesis
    unfolding registry_inv_def a(7)
    using inv up pos fresh a(2) by (auto simp: registry_inv_def hs dest: old)
qed

lemma registry_remove_inv [inv_intros]:
  assumes inv: "registry_inv r"
  shows "registry_inv (registry_remove r wid)"
proof (cases "entries r wid")
  case None
  with inv show ?thesis by (simp add: registry_remove_def)
next
  case (Some e)
  have hs: "handles r h = Some i \<longleftrightarrow> (\<exists>e. entries r i = Some e \<and> e_handle e = h)" for h i
    using inv by (simp add: registry_inv_def)
  have he: "handles r (e_handle e) = Some wid" using Some by (auto simp: hs)
  have pair: "((handles r)(e_handle e := None)) h = Some i \<longleftrightarrow>
      (\<exists>e'. ((entries r)(wid := None)) i = Some e' \<and> e_handle e' = h)" for h i
  proof (cases "i = wid")
    case True
    then show ?thesis using Some by (simp add: hs)
  next
    case False
    then show ?thesis using he by (auto simp: hs [symmetric])
  qed
  have rng: "0 < i \<and> i \<le> next_id r \<and> e_handle e' \<noteq> 0"
    if "((entries r)(wid := None)) i = Some e'" for i e'
    using that inv by (auto simp: registry_inv_def split: if_splits)
  have eq: "registry_remove r wid =
      r\<lparr>handles := (handles r)(e_handle e := None), entries := (entries r)(wid := None)\<rparr>"
    by (simp add: registry_remove_def Some)
  have base: "r_generation r \<noteq> 0" "next_id r \<le> last_statement_id - 1"
    using inv by (simp_all add: registry_inv_def)
  have all: "\<forall>h i. ((handles r)(e_handle e := None)) h = Some i \<longleftrightarrow>
      (\<exists>e'. ((entries r)(wid := None)) i = Some e' \<and> e_handle e' = h)"
    "\<forall>i e'. ((entries r)(wid := None)) i = Some e' \<longrightarrow> 0 < i \<and> i \<le> next_id r \<and> e_handle e' \<noteq> 0"
    using pair rng by simp_all
  show ?thesis
    unfolding registry_inv_def eq using base all by (simp del: fun_upd_apply)
qed

lemma registry_clear_inv [inv_intros]: "registry_inv r \<Longrightarrow> registry_inv (registry_clear r)"
  by (auto simp: registry_clear_def registry_inv_def)

section \<open>Runs of operations\<close>

datatype registry_op = RAdd u32 u32 u32 | RRemove u32 | RClear

fun registry_step :: "registry \<Rightarrow> registry_op \<Rightarrow> registry" where
  "registry_step r (RAdd g h p) = (case registry_add r g h p of Inl _ \<Rightarrow> r | Inr (_, r') \<Rightarrow> r')"
| "registry_step r (RRemove wid) = registry_remove r wid"
| "registry_step r RClear = registry_clear r"

interpretation registry_machine: inv_machine registry_step registry_inv
proof
  fix s :: registry and x
  assume "registry_inv s"
  then show "registry_inv (registry_step s x)"
    by (cases x) (auto split: sum.splits intro: inv_intros)
qed

interpretation registry_ids: mono_machine registry_step "\<lambda>r. unat (next_id r)"
proof
  fix s :: registry and x
  show "unat (next_id s) \<le> unat (next_id (registry_step s x))"
  proof (cases x)
    case (RAdd g h p)
    then show ?thesis
      using word_inc_less registry_add_Inr [of s g h p]
      by (auto split: sum.splits simp: word_le_nat_alt [symmetric]) (metis order_less_imp_le)
  next
    case (RRemove wid)
    then show ?thesis by (simp add: registry_remove_def split: option.splits)
  next
    case RClear
    then show ?thesis by (simp add: registry_clear_def)
  qed
qed

text \<open>
  Statement ids are unique for a session's lifetime: after any run of operations from a
  registry that satisfies the invariant, an id that a further \<open>Add\<close> hands out is larger than every
  id handed out before, and is not the reserved alias.
\<close>

lemma registry_ids_never_reused:
  assumes inv: "registry_inv r" and first: "registry_add r g h p = Inr (id1, r1)"
    and later: "registry_add (foldl registry_step r1 ops) g' h' p' = Inr (id2, r2)"
  shows "id1 < id2 \<and> id2 \<noteq> last_statement_id \<and> id1 \<noteq> 0"
proof -
  let ?s = "foldl registry_step r1 ops"
  have n1: "next_id r1 = id1" using registry_add_Inr(7) [OF first] by simp
  have "next_id r1 \<le> next_id ?s"
    using registry_ids.run_mono [of r1 ops] by (simp add: word_le_nat_alt)
  moreover have "next_id ?s < id2" "id2 \<le> last_statement_id - 1"
    using word_inc_less registry_add_Inr(4,6) [OF later] by auto
  moreover have "id1 \<noteq> 0"
    using word_inc_less registry_add_Inr(4,6) [OF first] by fastforce
  ultimately show ?thesis
    using n1 by (auto simp: last_statement_id_val)
qed

lemma registry_ids_never_reused_example:
  "\<exists>r r1 r2. registry_add r 7 41 2 = Inr (1, r1) \<and>
     registry_add (foldl registry_step r1 [RRemove 1]) 7 41 0 = Inr (2, r2) \<and> (1 :: u32) < 2"
proof -
  define r :: registry
    where "r = \<lparr>r_generation = 7, next_id = 0, entries = Map.empty, handles = Map.empty\<rparr>"
  define r1 where "r1 = snd (projr (registry_add r 7 41 2))"
  define r2 where "r2 = snd (projr (registry_add (foldl registry_step r1 [RRemove 1]) 7 41 0))"
  have inv: "registry_inv r" by (simp add: registry_inv_def r_def last_statement_id_val)
  have a1: "registry_add r 7 41 2 = Inr (1, r1)"
    by (simp add: r1_def r_def registry_add_def last_statement_id_val Let_def
        word_le_nat_alt)
  have a2: "registry_add (foldl registry_step r1 [RRemove 1]) 7 41 0 = Inr (2, r2)"
    by (simp add: r2_def r1_def r_def registry_add_def registry_remove_def last_statement_id_val
        Let_def word_le_nat_alt)
  show ?thesis using a1 a2 registry_ids_never_reused [OF inv a1 a2] by blast
qed

text \<open>
  A successful \<open>Add\<close> is found by \<open>Lookup\<close> under the id it returned, changes no other id, and
  keeps the two maps inverse; a following \<open>Remove\<close> restores exactly the mappings there were.
\<close>

lemma registry_add_lookup_remove:
  assumes inv: "registry_inv r" and add: "registry_add r g h p = Inr (wid, r')"
  shows "registry_lookup r' wid = Some \<lparr>e_handle = h, e_parameters = ucast p\<rparr> \<and>
    (\<forall>other. other \<noteq> wid \<longrightarrow> registry_lookup r' other = registry_lookup r other) \<and>
    registry_inv r' \<and>
    entries (registry_remove r' wid) = entries r \<and> handles (registry_remove r' wid) = handles r"
proof -
  note a = registry_add_Inr [OF add]
  have "entries r wid = None"
    by (rule registry_inv_fresh [OF inv]) (use word_inc_less [OF a(4)] a(6) in simp)
  then have e: "(entries r)(wid := None) = entries r" by (rule fun_upd_idem)
  have hd: "(handles r)(h := None) = handles r" using a(5) by (rule fun_upd_idem)
  have "registry_inv r'" using inv add by (rule registry_add_inv)
  moreover have "registry_lookup r' wid = Some \<lparr>e_handle = h, e_parameters = ucast p\<rparr>"
    and "\<forall>other. other \<noteq> wid \<longrightarrow> registry_lookup r' other = registry_lookup r other"
    by (simp_all add: registry_lookup_def a(7))
  moreover have "entries (registry_remove r' wid) = entries r"
    and "handles (registry_remove r' wid) = handles r"
    by (simp_all add: registry_remove_def a(7) e hd)
  ultimately show ?thesis by blast
qed

lemma registry_add_lookup_remove_example:
  "\<exists>r'. registry_add (projr (new_registry 9)) 9 5 3 = Inr (1, r') \<and>
     registry_lookup r' 1 = Some \<lparr>e_handle = 5, e_parameters = 3\<rparr>"
proof -
  define r' where "r' = snd (projr (registry_add (projr (new_registry 9)) 9 5 3))"
  have i: "registry_inv (projr (new_registry 9))"
    by (rule new_registry_inv [of 9]) (simp add: new_registry_def)
  have a: "registry_add (projr (new_registry 9)) 9 5 3 = Inr (1, r')"
    by (simp add: r'_def new_registry_def registry_add_def last_statement_id_val Let_def word_le_nat_alt)
  show ?thesis using a registry_add_lookup_remove [OF i a] by auto
qed

end
