(* ===== verification/PreparedSession.thy ===== *)
theory PreparedSession
  imports PreparedPackets PreparedRegistry
begin

text \<open>
  The prepared-statement session of one client (\<open>prepared_session.go\<close>, \<open>prepared_execute.go\<close>,
  \<open>prepared_long_data.go\<close>): it turns PREPARE, EXECUTE, SEND_LONG_DATA, CLOSE and RESET into requests
  to the guest, keeps the mapping from wire ids to native handles, the cached parameter types and
  the parameters held as long data. The guest is a parameter: a function that consumes the request
  and the monitor flag and may change its own state. Every operation returns the new session also
  when it fails, because the code updates the session in place.
\<close>

type_synonym 'g guest = "bytes \<Rightarrow> bool \<Rightarrow> 'g \<Rightarrow> (goerr + result) \<times> 'g"

record prepared_session =
  ps_registry :: registry
  ps_status :: u16
  ps_execute :: bool
  ps_long_data :: bool
  ps_long :: "u32 \<rightharpoonup> (u16 \<Rightarrow> bool)"
  ps_long_errors :: "u32 \<rightharpoonup> result"
  ps_multi :: bool
  ps_types :: "u32 \<rightharpoonup> ptype list"
  ps_last :: u32

fun advertised_ops :: "u8 list \<Rightarrow> u8 list \<Rightarrow> bool" where
  "advertised_ops seen [] = True"
| "advertised_ops seen (x # xs) =
     (if x < op_prepare \<or> op_reset < x \<or> x \<in> set seen then False else advertised_ops (x # seen) xs)"

definition new_prepared_session :: "result \<Rightarrow> int \<Rightarrow> u8 list \<Rightarrow> goerr + prepared_session option" where
  "new_prepared_session r ready_version ready_ops =
     (let f = body r; ops = prepared_operations f in
      if prepared_version f \<noteq> ready_version \<or> ops \<noteq> ready_ops
      then Inl (Sentinel ''prepared Ready/open advertisement mismatch'')
      else if prepared_version f = 0 \<and> session_generation f = 0 \<and> length ops = 0 then Inr None
      else if \<not> ok f \<or> api_version f \<noteq> 2 \<or> prepared_version f \<noteq> int (unat pp_version)
      then Inl (Sentinel ''prepared open schema mismatch'')
      else if \<not> advertised_ops [] ops
      then Inl (Sentinel ''invalid prepared operation advertisement'')
      else if \<not> {op_prepare, op_close, op_reset} \<subseteq> set ops
      then Inl (Sentinel ''missing prepared lifecycle operation'')
      else case new_registry (session_generation f) of
        Inl _ \<Rightarrow> Inl (Sentinel ''invalid prepared statement ownership or metadata'')
      | Inr g \<Rightarrow> Inr (Some \<lparr>ps_registry = g, ps_status = status f,
                   ps_execute = (op_execute \<in> set ops), ps_long_data = (op_long_data \<in> set ops),
                   ps_long = Map.empty, ps_long_errors = Map.empty, ps_multi = False,
                   ps_types = Map.empty, ps_last = 0\<rparr>))"

definition session_call ::
  "u8 \<Rightarrow> u32 \<Rightarrow> bytes \<Rightarrow> bool \<Rightarrow> 'g guest \<Rightarrow> prepared_session \<Rightarrow> 'g
    \<Rightarrow> (goerr + result) \<times> prepared_session \<times> 'g" where
  "session_call x h p monitor call s g =
     (let gen = r_generation (ps_registry s) in
      case encode_request \<lparr>operation = x, generation = gen, handle = h, payload = p\<rparr> of
        Inl _ \<Rightarrow> (Inl (Sentinel ''invalid prepared request envelope''), s, g)
      | Inr b \<Rightarrow>
          (case call b monitor g of
             (Inl e, g') \<Rightarrow> (Inl e, s, g')
           | (Inr r, g') \<Rightarrow>
               (case validate_prepared (if x = op_execute then Result (body r) None else r) gen of
                  Some e \<Rightarrow> (Inl e, s, g')
                | None \<Rightarrow> (Inr r, s\<lparr>ps_status := status (body r) AND NOT 8\<rparr>, g'))))"

definition resolve_statement_id :: "prepared_session \<Rightarrow> u32 \<Rightarrow> u32" where
  "resolve_statement_id s i = (if i = last_statement_id then ps_last s else i)"

definition unknown_handler :: "u32 \<Rightarrow> string \<Rightarrow> bytes" where
  "unknown_handler wid command =
     error_packet 1243 ''HY000'' (''Unknown prepared statement handler ('' @ itoa (unat wid)
       @ '') given to '' @ command)"

definition malformed_packet :: bytes where
  "malformed_packet = error_packet 1835 ''HY000'' ''Malformed communication packet''"

definition pending_params :: "prepared_session \<Rightarrow> u32 \<Rightarrow> u16 \<Rightarrow> bool" where
  "pending_params s i = (case ps_long s i of None \<Rightarrow> (\<lambda>_. False) | Some f \<Rightarrow> f)"

definition execute_statement ::
  "bytes \<Rightarrow> 'g guest \<Rightarrow> prepared_session \<Rightarrow> 'g \<Rightarrow> (goerr + bytes list) \<times> prepared_session \<times> 'g" where
  "execute_statement p call s g =
     (if \<not> ps_execute s
      then (Inr [error_packet 1235 ''42000'' ''prepared execution is not implemented''], s, g)
      else if length p < 4 then (Inr [malformed_packet], s, g)
      else
        let wid = get_le (take 4 p); i = resolve_statement_id s wid in
        case registry_lookup (ps_registry s) i of
          None \<Rightarrow> (Inr [unknown_handler wid ''mysqld_stmt_execute''], s, g)
        | Some e \<Rightarrow>
            if ps_long_errors s i \<noteq> None \<and> 9 \<le> length p
            then (packets (the (ps_long_errors s i)), s, g)
            else
              let previous = (if wid = last_statement_id then [] else list_of (ps_types s i)) in
              case decode_execute_long_data p (e_parameters e) previous (pending_params s i) of
                Inl ErrCursor \<Rightarrow>
                  (Inr [error_packet 1235 ''42000'' ''prepared server-side cursors are not supported''], s, g)
              | Inl ErrExecute \<Rightarrow> (Inr [malformed_packet], s, g)
              | Inr (vs, ts) \<Rightarrow>
                  (case encode_values vs of
                     Inl _ \<Rightarrow> (Inl (Sentinel ''invalid prepared typed value''), s, g)
                   | Inr b \<Rightarrow>
                       (case session_call op_execute (e_handle e) b True call s g of
                          (Inl er, s', g') \<Rightarrow> (Inl er, s', g')
                        | (Inr r, s', g') \<Rightarrow>
                            let s'' = s'\<lparr>ps_long := (ps_long s')(i := None),
                                        ps_types := (ps_types s')(i \<mapsto> ts)\<rparr> in
                            if \<not> ok (body r) then (packets r, s'', g')
                            else if statement_id (body r) \<noteq> e_handle e
                            then (Inl (Sentinel ''prepared execute handle mismatch''), s'', g')
                            else (prepared_client_packets r (ps_multi s''), s'', g'))))"

definition send_long_data ::
  "bytes \<Rightarrow> 'g guest \<Rightarrow> prepared_session \<Rightarrow> 'g \<Rightarrow> (goerr + bytes list) \<times> prepared_session \<times> 'g" where
  "send_long_data p call s g =
     (if length p < 6 then (Inr [], s, g)
      else
        let i = resolve_statement_id s (get_le (take 4 p)) in
        case registry_lookup (ps_registry s) i of
          None \<Rightarrow> (Inr [], s, g)
        | Some e \<Rightarrow>
            if \<not> ps_long_data s
            then (Inl (Sentinel ''prepared guest does not implement LONG_DATA''), s, g)
            else
              (case session_call op_long_data (e_handle e) (drop 4 p) False call s g of
                 (Inl er, s', g') \<Rightarrow> (Inl er, s', g')
               | (Inr r, s', g') \<Rightarrow>
                   let f = body r; ix = get_le (take 2 (drop 4 p)) in
                   if binary_rows f \<or> parameters f \<noteq> None \<or> columns f \<noteq> None \<or> rows f \<noteq> None
                      \<or> statement_id f \<noteq> 0 \<or> param_count f \<noteq> 0
                   then (Inl (Sentinel ''invalid prepared LONG_DATA acknowledgement''), s', g')
                   else if \<not> ok f then
                     if errno f \<noteq> 1210 \<or> sqlstate f \<noteq> ''HY000''
                        \<or> (ix < e_parameters e \<and> ps_long_errors s' i = None)
                     then (Inl (Sentinel ''unexpected prepared LONG_DATA failure''), s', g')
                     else (Inr [], s'\<lparr>ps_long_errors := (ps_long_errors s')(i \<mapsto> r)\<rparr>, g')
                   else if e_parameters e \<le> ix
                   then (Inl (Sentinel ''LONG_DATA accepted an invalid parameter''), s', g')
                   else (Inr [], s'\<lparr>ps_long := (ps_long s')(i \<mapsto> (pending_params s' i)(ix := True))\<rparr>, g')))"

definition prepare_statement ::
  "bytes \<Rightarrow> 'g guest \<Rightarrow> prepared_session \<Rightarrow> 'g \<Rightarrow> (goerr + bytes list) \<times> prepared_session \<times> 'g" where
  "prepare_statement p call s0 g =
     (let s = s0\<lparr>ps_last := 0\<rparr> in
      if length p = 0 \<or> max_sql < length p
      then (Inr [error_packet 1153 ''08S01'' ''prepared SQL length must be 1..1048576 bytes''], s, g)
      else case session_call op_prepare 0 p True call s g of
        (Inl er, s', g') \<Rightarrow> (Inl er, s', g')
      | (Inr r, s', g') \<Rightarrow>
          let f = body r; reg = ps_registry s' in
          if \<not> ok f then (packets r, s', g')
          else
            case (case prepare_packets r (r_generation reg) 1 of
                    Inl er \<Rightarrow> Inl er
                  | Inr replies \<Rightarrow>
                      (case registry_add reg (session_generation f) (statement_id f) (param_count f) of
                         Inl _ \<Rightarrow> Inl (Sentinel ''invalid prepared statement ownership or metadata'')
                       | Inr (i, reg') \<Rightarrow> Inr (replies, i, reg'))) of
              Inr (replies, i, reg') \<Rightarrow>
                (Inr (replies[0 := take 1 (replies ! 0) @ le32 i @ drop 5 (replies ! 0)]),
                 s'\<lparr>ps_registry := reg', ps_last := i\<rparr>, g')
            | Inl er \<Rightarrow>
                if statement_id f \<noteq> 0 then
                  (case session_call op_close (statement_id f) [] False call s' g' of
                     (Inl ce, s'', g'') \<Rightarrow> (Inl (Joined [er, ce]), s'', g'')
                   | (Inr c, s'', g'') \<Rightarrow>
                       if \<not> ok (body c)
                       then (Inl (Joined [er,
                               Sentinel ''prepared metadata unwind did not close native handle'']), s'', g'')
                       else (Inl er, s'', g''))
                else (Inl er, s', g'))"

text \<open>CLOSE and RESET read the first four bytes, zero-extended when the body is shorter.\<close>

definition short_header :: "bytes \<Rightarrow> u32" where
  "short_header p = get_le (take 4 (take 4 p @ [0, 0, 0, 0]))"

definition close_or_reset ::
  "u8 \<Rightarrow> bytes \<Rightarrow> 'g guest \<Rightarrow> prepared_session \<Rightarrow> 'g \<Rightarrow> (goerr + bytes list) \<times> prepared_session \<times> 'g" where
  "close_or_reset x p call s g =
     (let wid = short_header p; i = resolve_statement_id s wid in
      case registry_lookup (ps_registry s) i of
        None \<Rightarrow>
          if x = op_close then (Inr [], s, g)
          else (Inr [unknown_handler wid ''mysqld_stmt_reset''], s, g)
      | Some e \<Rightarrow>
          (case session_call x (e_handle e) [] (x \<noteq> op_close) call s g of
             (Inl er, s', g') \<Rightarrow> (Inl er, s', g')
           | (Inr r, s', g') \<Rightarrow>
               if x = op_close then
                 if \<not> ok (body r) then (Inl (Sentinel ''native prepared close failed''), s', g')
                 else (Inr [], s'\<lparr>ps_registry := registry_remove (ps_registry s') i,
                          ps_last := (if ps_last s' = i then 0 else ps_last s'),
                          ps_types := (ps_types s')(i := None), ps_long := (ps_long s')(i := None),
                          ps_long_errors := (ps_long_errors s')(i := None)\<rparr>, g')
               else if \<not> ok (body r) then (packets r, s', g')
               else (Inr [ok_packet (status (body r)) 0 0 (warnings (body r))],
                     s'\<lparr>ps_long := (ps_long s')(i := None),
                        ps_long_errors := (ps_long_errors s')(i := None)\<rparr>, g')))"

definition session_handle ::
  "u8 \<Rightarrow> bytes \<Rightarrow> 'g guest \<Rightarrow> prepared_session \<Rightarrow> 'g \<Rightarrow> (goerr + bytes list) \<times> prepared_session \<times> 'g" where
  "session_handle x p call s g =
     (if x = op_long_data then send_long_data p call s g
      else if x = op_execute then execute_statement p call s g
      else if x = op_prepare then prepare_statement p call s g
      else if x \<noteq> op_close \<and> x \<noteq> op_reset
      then (Inr [error_packet 1235 ''42000'' ''prepared execution is not implemented''], s, g)
      else close_or_reset x p call s g)"

text \<open>The dispatcher's view: a nil session answers without a call.\<close>

definition handle_prepared ::
  "u8 \<Rightarrow> bytes \<Rightarrow> 'g guest \<Rightarrow> prepared_session option \<Rightarrow> 'g
    \<Rightarrow> (goerr + bytes list) \<times> prepared_session option \<times> 'g" where
  "handle_prepared x p call so g =
     (case so of
        Some s \<Rightarrow> (case session_handle x p call s g of (r, s', g') \<Rightarrow> (r, Some s', g'))
      | None \<Rightarrow>
          if x = op_long_data then (Inr [], None, g)
          else (Inr [error_packet 1235 ''42000'' ''command is not supported''], None, g))"

section \<open>The session invariant\<close>

text \<open>
  The registry is well formed; the alias names a live statement or none; every cache entry belongs
  to a live statement, cached types are as many as its parameters, and only its parameters are
  held as long data.
\<close>

definition session_inv :: "prepared_session \<Rightarrow> bool" where
  "session_inv s \<longleftrightarrow>
     registry_inv (ps_registry s) \<and>
     (ps_last s = 0 \<or> entries (ps_registry s) (ps_last s) \<noteq> None) \<and>
     (\<forall>i. ps_types s i \<noteq> None \<or> ps_long s i \<noteq> None \<or> ps_long_errors s i \<noteq> None \<longrightarrow>
        entries (ps_registry s) i \<noteq> None) \<and>
     (\<forall>i e ts. entries (ps_registry s) i = Some e \<longrightarrow> ps_types s i = Some ts \<longrightarrow>
        length ts = unat (e_parameters e)) \<and>
     (\<forall>i e k. entries (ps_registry s) i = Some e \<longrightarrow> pending_params s i k \<longrightarrow> k < e_parameters e)"

lemma session_inv_frame [simp]:
  "session_inv (s\<lparr>ps_status := st\<rparr>) = session_inv s"
  "session_inv s \<Longrightarrow> session_inv (s\<lparr>ps_last := 0\<rparr>)"
  by (auto simp: session_inv_def pending_params_def)

lemma session_call_frame:
  "session_call x h p m call s g = (r, s', g') \<Longrightarrow> \<exists>st. s' = s\<lparr>ps_status := st\<rparr>"
  by (auto simp: session_call_def Let_def split: sum.splits option.splits prod.splits intro: exI [of _ "ps_status s"])

lemma session_call_keeps [inv_intros]:
  "session_call x h p m call s g = (r, s', g') \<Longrightarrow> session_inv s \<Longrightarrow> session_inv s'"
  by (auto dest: session_call_frame)

lemma session_call_Inr:
  "session_call x h p m call s g = (Inr r, s', g') \<Longrightarrow>
     s' = s\<lparr>ps_status := status (body r) AND NOT 8\<rparr> \<and> api_version (body r) = 2 \<and>
     session_generation (body r) = r_generation (ps_registry s)"
  by (auto simp: session_call_def validate_prepared_def Let_def
      split: sum.splits option.splits prod.splits if_splits)

lemma session_inv_types:
  assumes "session_inv s" and "entries (ps_registry s) i = Some e" and "length ts = unat (e_parameters e)"
  shows "session_inv (s\<lparr>ps_long := (ps_long s)(i := None), ps_types := (ps_types s)(i \<mapsto> ts)\<rparr>)"
  using assms by (auto simp: session_inv_def pending_params_def)

lemma session_inv_long:
  assumes "session_inv s" and "entries (ps_registry s) i = Some e" and "ix < e_parameters e"
  shows "session_inv (s\<lparr>ps_long := (ps_long s)(i \<mapsto> (pending_params s i)(ix := True))\<rparr>)"
  using assms by (auto simp: session_inv_def pending_params_def split: if_splits option.splits)

lemma session_inv_deferred:
  assumes "session_inv s" and "entries (ps_registry s) i = Some e"
  shows "session_inv (s\<lparr>ps_long_errors := (ps_long_errors s)(i \<mapsto> r)\<rparr>)"
  using assms by (auto simp: session_inv_def pending_params_def)

lemma session_inv_reset:
  "session_inv s \<Longrightarrow> session_inv (s\<lparr>ps_long := (ps_long s)(i := None),
     ps_long_errors := (ps_long_errors s)(i := None)\<rparr>)"
  by (auto simp: session_inv_def pending_params_def)

lemma registry_remove_entries:
  "entries (registry_remove r i) = (entries r)(i := None)"
  by (auto simp: registry_remove_def split: option.splits)

lemma session_inv_close:
  assumes "session_inv s"
  shows "session_inv (s\<lparr>ps_registry := registry_remove (ps_registry s) i,
     ps_last := (if ps_last s = i then 0 else ps_last s), ps_types := (ps_types s)(i := None),
     ps_long := (ps_long s)(i := None), ps_long_errors := (ps_long_errors s)(i := None)\<rparr>)"
proof -
  have "registry_inv (registry_remove (ps_registry s) i)"
    using assms by (simp add: session_inv_def registry_remove_inv)
  with assms show ?thesis
    by (auto simp: session_inv_def pending_params_def registry_remove_entries)
qed

lemma session_inv_add:
  assumes inv: "session_inv s" and add: "registry_add (ps_registry s) g h n = Inr (i, r')"
  shows "session_inv (s\<lparr>ps_registry := r', ps_last := i\<rparr>)"
proof -
  have ri: "registry_inv (ps_registry s)" using inv by (simp add: session_inv_def)
  note a = registry_add_Inr [OF add]
  have new: "entries (ps_registry s) i = None"
    using registry_inv_fresh [OF ri] word_inc_less [OF a(4)] a(6) by auto
  then have clean: "ps_types s i = None" "ps_long s i = None" "ps_long_errors s i = None"
    using inv by (auto simp: session_inv_def)
  have e: "entries r' = (entries (ps_registry s))(i \<mapsto> \<lparr>e_handle = h, e_parameters = ucast n\<rparr>)"
    using a(7) by simp
  have rest: "\<forall>j. ps_types s j \<noteq> None \<or> ps_long s j \<noteq> None \<or> ps_long_errors s j \<noteq> None \<longrightarrow>
      entries (ps_registry s) j \<noteq> None"
    "\<forall>j e ts. entries (ps_registry s) j = Some e \<longrightarrow> ps_types s j = Some ts \<longrightarrow> length ts = unat (e_parameters e)"
    "\<forall>j e k. entries (ps_registry s) j = Some e \<longrightarrow> pending_params s j k \<longrightarrow> k < e_parameters e"
    using inv unfolding session_inv_def by blast+
  have p: "\<not> pending_params s i k" for k by (simp add: pending_params_def clean)
  show ?thesis
    unfolding session_inv_def
  proof (intro conjI)
    show "registry_inv (ps_registry (s\<lparr>ps_registry := r', ps_last := i\<rparr>))"
      using registry_add_inv [OF ri add] by simp
    show "\<forall>j e k. entries (ps_registry (s\<lparr>ps_registry := r', ps_last := i\<rparr>)) j = Some e \<longrightarrow>
        pending_params (s\<lparr>ps_registry := r', ps_last := i\<rparr>) j k \<longrightarrow> k < e_parameters e"
      using rest(3) p by (auto simp: e) (simp add: pending_params_def)+
  qed (use rest clean in \<open>auto simp: e\<close>)
qed

lemma execute_statement_inv:
  assumes "execute_statement p call s g = (r, s', g')" and "session_inv s"
  shows "session_inv s'"
  using assms
  by (auto simp: execute_statement_def registry_lookup_def Let_def split: if_splits option.splits sum.splits
      prod.splits exec_error.splits dest!: session_call_Inr intro: session_call_keeps
      intro!: session_inv_types dest: decode_execute_Inr)

lemma send_long_data_inv:
  assumes "send_long_data p call s g = (r, s', g')" and "session_inv s"
  shows "session_inv s'"
  using assms
  by (auto simp: send_long_data_def registry_lookup_def Let_def not_le split: if_splits option.splits
      sum.splits prod.splits dest!: session_call_frame intro!: session_inv_deferred session_inv_long)

lemma prepare_statement_inv:
  assumes "prepare_statement p call s g = (r, s', g')" and "session_inv s"
  shows "session_inv s'"
  using assms session_inv_add
  by (auto simp: prepare_statement_def Let_def split: if_splits option.splits sum.splits
      prod.splits dest!: session_call_frame; fastforce)

lemma close_or_reset_inv:
  assumes run: "close_or_reset x p call s g = (r, s', g')" and inv: "session_inv s"
  shows "session_inv s'"
proof -
  define i where "i = resolve_statement_id s (short_header p)"
  show ?thesis
  proof (cases "entries (ps_registry s) i")
    case None
    with run inv show ?thesis
      by (auto simp: close_or_reset_def Let_def registry_lookup_def i_def [symmetric] split: if_splits)
  next
    case (Some e)
    obtain r1 s1 g1 where c: "session_call x (e_handle e) [] (x \<noteq> op_close) call s g = (r1, s1, g1)"
      by (cases "session_call x (e_handle e) [] (x \<noteq> op_close) call s g") auto
    have inv1: "session_inv s1" using session_call_keeps [OF c inv] .
    have "s' = s1 \<or> s' = s1\<lparr>ps_registry := registry_remove (ps_registry s1) i,
                          ps_last := (if ps_last s1 = i then 0 else ps_last s1),
                          ps_types := (ps_types s1)(i := None), ps_long := (ps_long s1)(i := None),
                          ps_long_errors := (ps_long_errors s1)(i := None)\<rparr>
        \<or> s' = s1\<lparr>ps_long := (ps_long s1)(i := None), ps_long_errors := (ps_long_errors s1)(i := None)\<rparr>"
      using run unfolding close_or_reset_def Let_def registry_lookup_def i_def [symmetric] Some option.case c prod.case
      by (simp split: sum.splits if_splits)
    with inv1 session_inv_close [OF inv1] session_inv_reset [OF inv1] show ?thesis by metis
  qed
qed

lemma session_handle_inv [inv_intros]:
  "session_handle x p call s g = (r, s', g') \<Longrightarrow> session_inv s \<Longrightarrow> session_inv s'"
  by (auto simp: session_handle_def split: if_splits
      intro: execute_statement_inv send_long_data_inv prepare_statement_inv close_or_reset_inv)

lemma new_prepared_session_inv:
  "new_prepared_session r v ops = Inr (Some s) \<Longrightarrow> session_inv s"
  by (auto simp: new_prepared_session_def Let_def session_inv_def pending_params_def
      split: if_splits sum.splits dest: new_registry_inv)

section \<open>What a session does to the guest's state\<close>

text \<open>Whatever every call keeps, every command keeps: the session touches the guest only by calls.\<close>

lemma session_call_guest:
  assumes "\<forall>b m g. P g \<longrightarrow> P (snd (call b m g))" and "P g" and "session_call x h p m call s g = (r, s', g')"
  shows "P g'"
proof -
  have "g' = g \<or> (\<exists>b. g' = snd (call b m g))"
    using assms(3) by (auto simp: session_call_def Let_def split: sum.splits option.splits prod.splits)
       (metis snd_conv)+
  then show ?thesis using assms(1,2) by blast
qed

lemma session_handle_guest:
  assumes call: "\<forall>b m g. P g \<longrightarrow> P (snd (call b m g))" and "P g"
    and "session_handle x p call s g = (r, s', g')"
  shows "P g'"
proof -
  note sc = session_call_guest [of P, OF call]
  have ex: "execute_statement p call s g = (r, s', g') \<Longrightarrow> P g'"
    using assms(2) by (auto simp: execute_statement_def Let_def split: if_splits option.splits sum.splits
        prod.splits exec_error.splits dest: sc [OF assms(2)])
  have ld: "send_long_data p call s g = (r, s', g') \<Longrightarrow> P g'"
    using assms(2) by (auto simp: send_long_data_def Let_def split: if_splits option.splits sum.splits
        prod.splits dest: sc [OF assms(2)])
  have cr: "close_or_reset x p call s g = (r, s', g') \<Longrightarrow> P g'"
    using assms(2) by (auto simp: close_or_reset_def Let_def split: if_splits option.splits sum.splits
        prod.splits dest: sc [OF assms(2)])
  have pr: "P g'" if run: "prepare_statement p call s g = (r, s', g')"
  proof (cases "length p = 0 \<or> max_sql < length p")
    case True
    with run assms(2) show ?thesis by (auto simp: prepare_statement_def Let_def)
  next
    case False
    obtain r1 s1 g1 where c: "session_call op_prepare 0 p True call (s\<lparr>ps_last := 0\<rparr>) g = (r1, s1, g1)"
      by (metis prod_cases3)
    have g1: "P g1" using sc [OF assms(2) c] by blast
    have "g' = g1 \<or> (\<exists>h r2 s2. session_call op_close h [] False call s1 g1 = (r2, s2, g'))"
      using run False unfolding prepare_statement_def Let_def c
      by (auto split: if_splits sum.splits prod.splits)
    then show ?thesis using sc [OF g1] g1 by blast
  qed
  show ?thesis
    using assms(3) ex ld cr pr assms(2) by (auto simp: session_handle_def split: if_splits)
qed

lemma handle_prepared_guest:
  assumes "\<forall>b m g. P g \<longrightarrow> P (snd (call b m g))" and "P g"
    and "handle_prepared x p call so g = (r, so', g')"
  shows "P g'"
proof (cases so)
  case None
  with assms(2,3) show ?thesis by (auto simp: handle_prepared_def split: if_splits)
next
  case (Some s)
  with assms(3) obtain s' where "session_handle x p call s g = (r, s', g')"
    by (auto simp: handle_prepared_def split: prod.splits)
  from session_handle_guest [of P, OF assms(1,2) this] show ?thesis .
qed

section \<open>The requests a session sends\<close>

text \<open>A guest that also records every request it is given, with the monitor flag.\<close>

definition recording :: "'g guest \<Rightarrow> ('g \<times> (bytes \<times> bool) list) guest" where
  "recording call b m st =
     (case st of (g, log) \<Rightarrow> (case call b m g of (r, g') \<Rightarrow> (r, (g', log @ [(b, m)]))))"

lemma session_call_recording:
  "session_call x h p m (recording call) s (g, log) = (r, s', (g', log')) \<Longrightarrow>
     (log' = log \<and> \<not> isl r \<longrightarrow> False) \<and>
     (log' = log \<or> (\<exists>b. log' = log @ [(b, m)] \<and>
        decode_request b = Inr \<lparr>operation = x, generation = r_generation (ps_registry s), handle = h, payload = p\<rparr>))
     \<and> r_generation (ps_registry s') = r_generation (ps_registry s)"
  by (auto simp: session_call_def recording_def Let_def split: sum.splits option.splits prod.splits
      dest: decode_encode_request)

text \<open>What one recorded request is: its operation, its handle, its payload and its monitor flag.\<close>

definition sent_as :: "prepared_session \<Rightarrow> u8 \<Rightarrow> u32 \<Rightarrow> bytes \<Rightarrow> bytes \<times> bool \<Rightarrow> bool" where
  "sent_as s x h p bm \<longleftrightarrow>
     decode_request (fst bm) =
       Inr \<lparr>operation = x, generation = r_generation (ps_registry s), handle = h, payload = p\<rparr> \<and>
     snd bm = (x \<noteq> op_long_data \<and> x \<noteq> op_close)"

lemma session_call_sent:
  "session_call x h p (x \<noteq> op_long_data \<and> x \<noteq> op_close) (recording call) s (g, log) = (r, s', (g', log')) \<Longrightarrow>
     log' = log \<and> isl r \<or> (\<exists>bm. log' = log @ [bm] \<and> sent_as s x h p bm)"
  using session_call_recording [of x h p "x \<noteq> op_long_data \<and> x \<noteq> op_close" call s g log r s' g' log']
  by (auto simp: sent_as_def isl_def)

lemma sent_as_status [simp]: "sent_as (s\<lparr>ps_status := st\<rparr>) = sent_as s" "sent_as (s\<lparr>ps_last := l\<rparr>) = sent_as s"
  by (simp_all add: sent_as_def fun_eq_iff)

lemma execute_statement_sent:
  assumes run: "execute_statement p (recording call) s (g, []) = (r, s', (g', log))"
  shows "log = [] \<or> (\<exists>bm e vs ts body. log = [bm] \<and> sent_as s op_execute (e_handle e) body bm \<and>
    entries (ps_registry s) (resolve_statement_id s (get_le (take 4 p))) = Some e \<and>
    decode_execute_long_data p (e_parameters e)
      (if get_le (take 4 p) = last_statement_id then []
       else list_of (ps_types s (resolve_statement_id s (get_le (take 4 p)))))
      (pending_params s (resolve_statement_id s (get_le (take 4 p)))) = Inr (vs, ts) \<and>
    encode_values vs = Inr body)"
proof -
  define i where "i = resolve_statement_id s (get_le (take 4 p))"
  define previous where "previous = (if get_le (take 4 p) = last_statement_id then [] else list_of (ps_types s i))"
  show ?thesis
  proof (cases "log = []")
    case False
    then obtain e vs ts body where e: "entries (ps_registry s) i = Some e"
      and d: "decode_execute_long_data p (e_parameters e) previous (pending_params s i) = Inr (vs, ts)"
      and b: "encode_values vs = Inr body"
      using run unfolding execute_statement_def Let_def registry_lookup_def
        i_def [symmetric] previous_def [symmetric]
      by (auto split: if_splits option.splits sum.splits exec_error.splits)
    obtain r1 s1 g1 l1 where c: "session_call op_execute (e_handle e) body True (recording call) s (g, []) = (r1, s1, (g1, l1))"
      by (metis prod_cases3 surj_pair)
    have "log = l1"
      using run False unfolding execute_statement_def Let_def registry_lookup_def
        i_def [symmetric] previous_def [symmetric] e option.case d sum.case prod.case b c
      by (auto split: if_splits sum.splits)
    then have "\<exists>bm. log = [bm] \<and> sent_as s op_execute (e_handle e) body bm"
      using session_call_sent [of op_execute "e_handle e" body call s g "[]"] c False
      by (auto simp: pp_ops)
    with e d b show ?thesis unfolding i_def previous_def by blast
  qed simp
qed

lemma send_long_data_sent:
  assumes run: "send_long_data p (recording call) s (g, []) = (r, s', (g', log))"
  shows "log = [] \<or> (\<exists>bm e. log = [bm] \<and> sent_as s op_long_data (e_handle e) (drop 4 p) bm \<and>
    entries (ps_registry s) (resolve_statement_id s (get_le (take 4 p))) = Some e)"
proof (cases "log = []")
  case False
  define i where "i = resolve_statement_id s (get_le (take 4 p))"
  obtain e where e: "entries (ps_registry s) i = Some e"
    using run False unfolding send_long_data_def Let_def registry_lookup_def i_def [symmetric]
    by (auto split: if_splits option.splits)
  obtain r1 s1 g1 l1 where c: "session_call op_long_data (e_handle e) (drop 4 p) False (recording call) s (g, []) = (r1, s1, (g1, l1))"
    by (metis prod_cases3 surj_pair)
  have "log = l1"
    using run False unfolding send_long_data_def Let_def registry_lookup_def i_def [symmetric] e option.case c prod.case
    by (auto split: if_splits sum.splits)
  with session_call_sent [of op_long_data "e_handle e" "drop 4 p" call s g "[]"] c False e
  show ?thesis by (auto simp: i_def)
qed simp

lemma close_or_reset_sent:
  assumes run: "close_or_reset x p (recording call) s (g, []) = (r, s', (g', log))" and x: "x \<noteq> op_long_data"
  shows "log = [] \<or> (\<exists>bm e. log = [bm] \<and> sent_as s x (e_handle e) [] bm \<and>
    entries (ps_registry s) (resolve_statement_id s (short_header p)) = Some e)"
proof (cases "log = []")
  case False
  define i where "i = resolve_statement_id s (short_header p)"
  obtain e where e: "entries (ps_registry s) i = Some e"
    using run False unfolding close_or_reset_def Let_def registry_lookup_def i_def [symmetric]
    by (auto split: if_splits option.splits)
  obtain r1 s1 g1 l1 where c: "session_call x (e_handle e) [] (x \<noteq> op_close) (recording call) s (g, []) = (r1, s1, (g1, l1))"
    by (metis prod_cases3 surj_pair)
  have "log = l1"
    using run False unfolding close_or_reset_def Let_def registry_lookup_def i_def [symmetric] e option.case c prod.case
    by (auto split: if_splits sum.splits)
  with session_call_sent [of x "e_handle e" "[]" call s g "[]"] c False e x
  show ?thesis by (auto simp: i_def)
qed simp

lemma session_call_answered:
  "session_call x h p m (recording call) s (g, log) = (Inr r, s', (g', log')) \<Longrightarrow>
     \<exists>b. log' = log @ [(b, m)] \<and> call b m g = (Inr r, g')"
  by (auto simp: session_call_def recording_def Let_def split: sum.splits option.splits prod.splits)

lemma prepare_statement_sent:
  assumes run: "prepare_statement p (recording call) s (g, []) = (r, s', (g', log))"
  shows "log = [] \<or> (\<exists>bm. sent_as s op_prepare 0 p bm \<and>
    (log = [bm] \<or> (\<exists>bm' f g2. log = [bm, bm'] \<and> call (fst bm) True g = (Inr f, g2) \<and>
       sent_as s op_close (statement_id (body f)) [] bm' \<and> isl r)))"
proof (cases "log = []")
  case False
  let ?s = "s\<lparr>ps_last := 0\<rparr>"
  obtain r1 s1 g1 l1 where c: "session_call op_prepare 0 p True (recording call) ?s (g, []) = (r1, s1, (g1, l1))"
    by (metis prod_cases3 surj_pair)
  have size: "\<not> (length p = 0 \<or> max_sql < length p)"
    using run False by (auto simp: prepare_statement_def Let_def split: if_splits)
  have first: "l1 = [] \<and> isl r1 \<or> (\<exists>bm. l1 = [bm] \<and> sent_as s op_prepare 0 p bm)"
    using session_call_sent [of op_prepare 0 p call ?s g "[]"] c by (auto simp: pp_ops)
  obtain st where s1: "s1 = ?s\<lparr>ps_status := st\<rparr>" using session_call_frame [OF c] by blast
  have second: "log = l1 \<and> (isl r1 \<longrightarrow> isl r) \<or>
      (\<exists>f r2 s2 g2. r1 = Inr f \<and> isl r \<and>
        session_call op_close (statement_id (body f)) [] False (recording call) s1 (g1, l1) = (r2, s2, (g2, log)))"
    using run size unfolding prepare_statement_def Let_def c
    by (auto split: if_splits sum.splits prod.splits; (blast | metis sum.disc(1)))
  show ?thesis
  proof (cases "log = l1")
    case True
    with first False show ?thesis by auto
  next
    case neq: False
    then obtain f r2 s2 g2 where h: "r1 = Inr f" "isl r"
      "session_call op_close (statement_id (body f)) [] False (recording call) s1 (g1, l1) = (r2, s2, (g2, log))"
      using second by blast
    obtain b where b: "l1 = [(b, True)]" "call b True g = (Inr f, g1)"
      using session_call_answered [OF c [unfolded h(1)]] by auto
    have "\<exists>bm. log = l1 @ [bm] \<and> sent_as s op_close (statement_id (body f)) [] bm"
      using session_call_sent [of op_close "statement_id (body f)" "[]" call s1 g1 l1] neq h(3) by (auto simp: pp_ops s1)
    with first h b show ?thesis by fastforce
  qed
qed simp

section \<open>PREPARE\<close>

lemma prepare_packets_Inr:
  assumes "prepare_packets r g w = Inr out" and "ok (body r)"
  shows "\<exists>rest. out = prepare_header (body r) w # rest \<and> statement_id (body r) \<noteq> 0 \<and>
    (word_of_nat (length (list_of (parameters (body r)))) :: u32) = param_count (body r) \<and>
    length rest = (if param_count (body r) = 0 then 0 else length (list_of (parameters (body r))) + 1)
      + (if list_of (columns (body r)) = [] then 0 else length (list_of (columns (body r))) + 1) \<and>
    (\<forall>b\<in>set out. length b \<le> max_packet)"
proof -
  let ?f = "body r"
  let ?ps = "list_of (parameters ?f)" and ?cs = "list_of (columns ?f)"
  obtain params qs where g: "statement_id ?f \<noteq> 0" "(word_of_nat (length ?ps) :: u32) = param_count ?f"
    and p: "(if param_count ?f \<noteq> 0
        then (case map_res prepared_column ?ps of
                Inl e \<Rightarrow> Inl e | Inr qs \<Rightarrow> Inr (qs @ [eof_packet (status ?f) 0]))
        else Inr []) = Inr params"
    and q: "map_res prepared_column ?cs = Inr qs"
    and out: "out = [prepare_header ?f w] @ params @ qs @ (if ?cs \<noteq> [] then [eof_packet (status ?f) 0] else [])"
    using assms by (auto simp: prepare_packets_def Let_def split: if_splits option.splits sum.splits)
  have lq: "length qs = length ?cs" using q by (simp add: map_res_Inr)
  have bq: "length b \<le> max_packet" if "b \<in> set qs" for b using prepared_columns_bound [OF q that] .
  have five: "5 \<le> max_packet" "12 \<le> max_packet" by (simp_all add: max_packet_def)
  have "length params = (if param_count ?f = 0 then 0 else length ?ps + 1) \<and> (\<forall>b\<in>set params. length b \<le> max_packet)"
    using p five by (auto simp: map_res_Inr dest: prepared_columns_bound split: if_splits sum.splits)
       (metis in_set_conv_nth prepared_column_bound)+
  then have "length params = (if param_count ?f = 0 then 0 else length ?ps + 1)"
    "\<forall>b\<in>set params. length b \<le> max_packet" by auto
  moreover have "\<forall>b\<in>set out. length b \<le> max_packet"
    using calculation(2) bq five by (auto simp: out length_prepare_header)
  ultimately show ?thesis
    using g lq by (auto simp: out)
qed

text \<open>The packets of some column definitions: none for no column, else one for each and an EOF.\<close>

definition column_block :: "u16 \<Rightarrow> column list \<Rightarrow> bytes list \<Rightarrow> bool" where
  "column_block st cs bs \<longleftrightarrow> (if cs = [] then bs = [] else \<exists>qs. bs = qs @ [eof_packet st 0] \<and> list_all2 reads_as qs cs)"

lemma prepare_packets_reads:
  assumes "prepare_packets r g w = Inr out" and "ok (body r)"
  shows "\<exists>ps cs. out = prepare_header (body r) w # ps @ cs \<and>
    column_block (status (body r)) (if param_count (body r) = 0 then [] else list_of (parameters (body r))) ps \<and>
    column_block (status (body r)) (list_of (columns (body r))) cs"
proof -
  let ?f = "body r"
  let ?ps = "list_of (parameters ?f)" and ?cs = "list_of (columns ?f)"
  obtain params qs where g: "(word_of_nat (length ?ps) :: u32) = param_count ?f"
    and p: "(if param_count ?f \<noteq> 0
        then (case map_res prepared_column ?ps of
                Inl e \<Rightarrow> Inl e | Inr qs \<Rightarrow> Inr (qs @ [eof_packet (status ?f) 0]))
        else Inr []) = Inr params"
    and q: "map_res prepared_column ?cs = Inr qs"
    and out: "out = [prepare_header ?f w] @ params @ qs @ (if ?cs \<noteq> [] then [eof_packet (status ?f) 0] else [])"
    using assms by (auto simp: prepare_packets_def Let_def split: if_splits option.splits sum.splits)
  have "column_block (status ?f) (if param_count ?f = 0 then [] else ?ps) params"
  proof (cases "param_count ?f = 0")
    case True
    then show ?thesis using p by (simp add: column_block_def)
  next
    case False
    then obtain xs where xs: "map_res prepared_column ?ps = Inr xs" "params = xs @ [eof_packet (status ?f) 0]"
      using p by (auto split: sum.splits)
    have "?ps \<noteq> []" using g False by auto
    then show ?thesis using prepared_columns_read [OF xs(1)] xs(2) False by (simp add: column_block_def)
  qed
  moreover have "column_block (status ?f) ?cs (qs @ (if ?cs \<noteq> [] then [eof_packet (status ?f) 0] else []))"
    using prepared_columns_read [OF q] by (auto simp: column_block_def)
  ultimately show ?thesis using out by (intro exI conjI) simp_all
qed

lemma packets_error: "packets r = Inr reply \<Longrightarrow> \<not> ok (body r) \<Longrightarrow>
    reply = [error_packet (errno (body r)) (sqlstate (body r)) (err_message (body r))]"
  by (auto simp: packets_def packets_single_def split: option.splits)

lemma prepared_reply_id:
  "take 1 (prepare_header f w) @ le32 i @ drop 5 (prepare_header f w) = prepare_header f i"
  by (simp add: prepare_header_def)

lemma prepare_packets_id:
  "prepare_packets r g 1 = Inr (prepare_header (body r) 1 # rest) \<Longrightarrow> ok (body r) \<Longrightarrow> w \<noteq> 0 \<Longrightarrow>
     prepare_packets r g w = Inr (prepare_header (body r) w # rest)"
  by (auto simp: prepare_packets_def Let_def split: if_splits option.splits sum.splits)

lemma prepare_statement_outcome:
  assumes inv: "session_inv s" and run: "prepare_statement p call s g = (Inr reply, s', g')"
  shows "if p = [] \<or> max_sql < length p
    then (\<exists>e. reply = [e]) \<and> g' = g \<and> ps_registry s' = ps_registry s \<and> ps_last s' = 0
    else \<exists>b r. encode_request \<lparr>operation = op_prepare, generation = r_generation (ps_registry s),
          handle = 0, payload = p\<rparr> = Inr b \<and> call b True g = (Inr r, g') \<and>
      (\<not> ok (body r) \<and> packets r = Inr reply \<and> ps_registry s' = ps_registry s \<and> ps_last s' = 0 \<or>
        ok (body r) \<and> prepare_packets r (r_generation (ps_registry s)) 1 = Inr (prepare_header (body r) 1 # tl reply) \<and>
        reply = prepare_header (body r) (ps_last s') # tl reply \<and>
        registry_add (ps_registry s) (session_generation (body r)) (statement_id (body r)) (param_count (body r))
          = Inr (ps_last s', ps_registry s') \<and>
        ps_types s' = ps_types s \<and> ps_long s' = ps_long s \<and> ps_long_errors s' = ps_long_errors s)"
proof -
  let ?s = "s\<lparr>ps_last := 0\<rparr>"
  show ?thesis
  proof (cases "p = [] \<or> max_sql < length p")
    case True
    with run show ?thesis by (auto simp: prepare_statement_def Let_def)
  next
    case False
    then have size: "\<not> (length p = 0 \<or> max_sql < length p)" by simp
    obtain r1 s1 g1 where c: "session_call op_prepare 0 p True call ?s g = (r1, s1, g1)"
      by (metis prod_cases3)
    obtain r where r: "r1 = Inr r"
      using run size by (cases r1) (auto simp: prepare_statement_def Let_def c)
    have s1: "s1 = ?s\<lparr>ps_status := status (body r) AND NOT 8\<rparr>"
      using session_call_Inr [of op_prepare 0 p True call ?s g r s1 g1] c r by simp
    obtain b where b: "encode_request \<lparr>operation = op_prepare, generation = r_generation (ps_registry s),
          handle = 0, payload = p\<rparr> = Inr b" "call b True g = (Inr r, g1)"
      using c r by (auto simp: session_call_def Let_def split: sum.splits option.splits prod.splits)
    show ?thesis
    proof (cases "ok (body r)")
      case bad: False
      have "packets r = Inr reply \<and> s' = s1 \<and> g' = g1"
        using run size bad by (simp add: prepare_statement_def Let_def c r)
      then show ?thesis using False b bad s1 by auto
    next
      case ok: True
      have "\<exists>out wid reg'. prepare_packets r (r_generation (ps_registry s)) 1 = Inr out \<and>
          registry_add (ps_registry s) (session_generation (body r)) (statement_id (body r)) (param_count (body r))
            = Inr (wid, reg') \<and>
          reply = out[0 := take 1 (out ! 0) @ le32 wid @ drop 5 (out ! 0)] \<and>
          s' = s1\<lparr>ps_registry := reg', ps_last := wid\<rparr> \<and> g' = g1"
        using run size ok by (auto simp: prepare_statement_def Let_def c r s1 split: sum.splits if_splits prod.splits)
      then obtain out wid reg' where o: "prepare_packets r (r_generation (ps_registry s)) 1 = Inr out"
        "registry_add (ps_registry s) (session_generation (body r)) (statement_id (body r)) (param_count (body r))
            = Inr (wid, reg')"
        "reply = out[0 := take 1 (out ! 0) @ le32 wid @ drop 5 (out ! 0)]"
        "s' = s1\<lparr>ps_registry := reg', ps_last := wid\<rparr>" "g' = g1" by blast
      obtain rest where out: "out = prepare_header (body r) 1 # rest"
        using prepare_packets_Inr [OF o(1) ok] by blast
      have "reply = prepare_header (body r) wid # rest"
        using o(3) out prepared_reply_id by (simp del: One_nat_def)
      then show ?thesis using False b ok o out s1 by auto
    qed
  qed
qed

section \<open>Properties\<close>

definition session_step ::
  "'g guest \<Rightarrow> prepared_session \<times> 'g \<Rightarrow> u8 \<times> bytes \<Rightarrow> prepared_session \<times> 'g" where
  "session_step call sg c = snd (session_handle (fst c) (snd c) call (fst sg) (snd sg))"

interpretation session_machine: inv_machine "session_step call" "\<lambda>sg. session_inv (fst sg)"
  for call :: "'g guest"
proof
  fix sg :: "prepared_session \<times> 'g" and c
  assume "session_inv (fst sg)"
  then show "session_inv (fst (session_step call sg c))"
    by (cases "session_handle (fst c) (snd c) call (fst sg) (snd sg)")
       (auto simp: session_step_def intro: session_handle_inv)
qed

text \<open>
  C5. Whatever commands a client sends and however the guest answers, the session keeps its
  invariant from the moment it is opened: ids and handles stay inverse, the alias names a live
  statement, the caches never outlive their statement, the cached types are as many as the
  statement's parameters, and only existing parameters are held as long data.
\<close>

theorem session_invariant:
  assumes "new_prepared_session r v ops = Inr (Some s)"
  shows "session_inv (fst (foldl (session_step call) (s\<lparr>ps_multi := m\<rparr>, g) cmds))"
proof -
  have "session_inv (s\<lparr>ps_multi := m\<rparr>)"
    using new_prepared_session_inv [OF assms] by (simp add: session_inv_def pending_params_def)
  then show ?thesis using session_machine.run_inv [of "(s\<lparr>ps_multi := m\<rparr>, g)" call cmds] by simp
qed

text \<open>
  C6. A client cannot reach a statement it does not own: one command sends the guest at most two
  requests, all with the session's own generation. The first carries the command's operation and,
  unless it is PREPARE, the native handle registered under the id the client gave; the second can
  only be the CLOSE, without a payload, of the handle the guest has just reported for a PREPARE whose
  reply is then an error. PREPARE carries the text and SEND_LONG_DATA the data as they came, CLOSE and
  RESET nothing. The disconnect monitor is off exactly for the operations without a reply.
\<close>

theorem session_requests_confined:
  assumes "session_handle x p (recording call) s (g, []) = (r, s', (g', log))"
  shows "length log \<le> 2 \<and> (\<forall>i<length log. \<exists>q. decode_request (fst (log ! i)) = Inr q \<and>
    generation q = r_generation (ps_registry s) \<and>
    snd (log ! i) = (operation q \<noteq> op_long_data \<and> operation q \<noteq> op_close) \<and>
    (if i = 0 then operation q = x \<and>
       (if x = op_prepare then handle q = 0 \<and> payload q = p
        else \<exists>e. entries (ps_registry s) (resolve_statement_id s
               (if x = op_close \<or> x = op_reset then short_header p else get_le (take 4 p))) = Some e \<and>
             handle q = e_handle e \<and> (x = op_long_data \<longrightarrow> payload q = drop 4 p) \<and>
             (x = op_close \<or> x = op_reset \<longrightarrow> payload q = []))
     else x = op_prepare \<and> operation q = op_close \<and> payload q = [] \<and> isl r \<and>
       (\<exists>f g1. call (fst (log ! 0)) True g = (Inr f, g1) \<and> handle q = statement_id (body f))))"
proof -
  consider "x = op_long_data" | "x = op_execute" | "x = op_prepare" | "x = op_close \<or> x = op_reset"
    | "log = []" "x \<notin> {op_long_data, op_execute, op_prepare, op_close, op_reset}"
    using assms by (auto simp: session_handle_def split: if_splits)
  then show ?thesis
  proof cases
    case 1
    with assms have "send_long_data p (recording call) s (g, []) = (r, s', (g', log))"
      by (simp add: session_handle_def)
    from send_long_data_sent [OF this] 1 show ?thesis by (auto simp: sent_as_def pp_ops)
  next
    case 2
    with assms have "execute_statement p (recording call) s (g, []) = (r, s', (g', log))"
      by (simp add: session_handle_def pp_ops)
    from execute_statement_sent [OF this] 2 show ?thesis by (auto simp: sent_as_def pp_ops)
  next
    case 3
    with assms have "prepare_statement p (recording call) s (g, []) = (r, s', (g', log))"
      by (simp add: session_handle_def pp_ops)
    from prepare_statement_sent [OF this] 3 show ?thesis
      by (auto simp: sent_as_def pp_ops less_Suc_eq)
  next
    case 4
    with assms have "close_or_reset x p (recording call) s (g, []) = (r, s', (g', log))"
      by (auto simp: session_handle_def pp_ops)
    from close_or_reset_sent [OF this] 4 show ?thesis by (auto simp: sent_as_def pp_ops)
  next
    case 5
    then show ?thesis by simp
  qed
qed

text \<open>A session with one statement, and a guest, for the instances of the properties below.\<close>

definition sample_session :: prepared_session where
  "sample_session = \<lparr>ps_registry = \<lparr>r_generation = 7, next_id = 1,
       entries = [1 \<mapsto> \<lparr>e_handle = 9, e_parameters = 2\<rparr>], handles = [9 \<mapsto> 1]\<rparr>,
     ps_status = 2, ps_execute = True, ps_long_data = True, ps_long = [1 \<mapsto> (\<lambda>k. k = 1)],
     ps_long_errors = Map.empty, ps_multi = False, ps_types = Map.empty, ps_last = 1\<rparr>"

definition sample_column :: column where
  "sample_column = \<lparr>c_name = ''a'', c_org_name = [], c_table = [], c_org_table = [],
     c_db = [], c_catalog = ''def'', c_type = 3, c_charset = 63, c_flags = 0, c_length = 11, c_decimals = 0\<rparr>"

definition sample_reply :: "u32 \<Rightarrow> column list \<Rightarrow> result" where
  "sample_reply h ps = Result (zero_fields\<lparr>ok := True, api_version := 2, prepared_version := 1,
     session_generation := 7, statement_id := h, param_count := word_of_nat (length ps),
     parameters := (if ps = [] then None else Some ps), affected := ''0'', insert_id := ''0''\<rparr>) None"

lemma sample_session_inv: "session_inv sample_session"
  by (auto simp: session_inv_def registry_inv_def sample_session_def last_statement_id_val pending_params_def
      split: if_splits)

theorem session_invariant_witness:
  "\<exists>r s. new_prepared_session r 1 [22, 25, 26] = Inr (Some s) \<and>
     session_inv (fst (foldl (session_step (\<lambda>b m n. (Inr (sample_reply 9 []), Suc n)))
       (s\<lparr>ps_multi := True\<rparr>, 0) [(22, [65]), (25, [1])]))"
proof -
  define r where "r = Result (zero_fields\<lparr>ok := True, api_version := 2, prepared_version := 1,
    session_generation := 7, prepared_operations := [22, 25, 26]\<rparr>) None"
  obtain s where s: "new_prepared_session r 1 [22, 25, 26] = Inr (Some s)"
    by (simp add: new_prepared_session_def r_def zero_fields_def pp_version_def pp_ops new_registry_def Let_def
        word_less_nat_alt)
  show ?thesis by (intro exI conjI, rule s, rule session_invariant [OF s])
qed

theorem session_requests_confined_witness:
  "\<exists>r s' n b. session_handle op_close [1] (recording (\<lambda>b m n. (Inr (sample_reply 0 []), Suc n)))
       sample_session (0, []) = (r, s', (n, [(b, False)])) \<and>
     (\<exists>q. decode_request b = Inr q \<and> operation q = op_close \<and> handle q = 9)"
proof -
  have "\<exists>r s' n b. session_handle op_close [1] (recording (\<lambda>b m n. (Inr (sample_reply 0 []), Suc n)))
       sample_session (0, []) = (r, s', (n, [(b, False)]))"
    by (simp add: session_handle_def close_or_reset_def short_header_def resolve_statement_id_def
        registry_lookup_def sample_session_def session_call_def encode_request_def valid_request_def
        recording_def sample_reply_def validate_prepared_def zero_fields_def pp_consts last_statement_id_def Let_def)
  then obtain r s' n b where run: "session_handle op_close [1]
      (recording (\<lambda>b m n. (Inr (sample_reply 0 []), Suc n))) sample_session (0, []) = (r, s', (n, [(b, False)]))"
    by blast
  note c = session_requests_confined [OF run]
  have "short_header [1] = 1" by (simp add: short_header_def)
  then have "\<exists>q. decode_request b = Inr q \<and> operation q = op_close \<and> handle q = 9"
    using c by (auto simp: pp_ops resolve_statement_id_def sample_session_def last_statement_id_def)
  with run show ?thesis by blast
qed

text \<open>
  The operations without a reply never produce one: SEND_LONG_DATA in any state, and CLOSE in a
  session that supports prepared statements, yield no packet unless the session fails.
\<close>

lemma no_reply_packets:
  assumes "handle_prepared x p call so g = (Inr reply, so', g')"
    and "x = op_long_data \<or> (x = op_close \<and> so \<noteq> None)"
  shows "reply = []"
  using assms
  by (auto simp: handle_prepared_def session_handle_def send_long_data_def close_or_reset_def Let_def pp_ops
      split: option.splits sum.splits prod.splits if_splits)

text \<open>
  C7. PREPARE installs what the guest prepared. A text of a wrong length is answered without a request.
  Otherwise one request carries the text. A failure of the guest is its error packet, and the
  registry stays as it was and the alias is cleared. A success is answered with the packets of the guest's metadata
  under a fresh id (the definitions of its parameters and columns as a client reads them), which the header names, the alias points to and the registry maps to the handle and
  the parameter count the guest reported; no other statement changes and nothing is cached for it.
\<close>

theorem prepare_installs_statement:
  assumes inv: "session_inv s" and run: "session_handle op_prepare p call s g = (Inr reply, s', g')"
  shows "if p = [] \<or> max_sql < length p
    then (\<exists>e. reply = [e]) \<and> g' = g \<and> ps_registry s' = ps_registry s \<and> ps_last s' = 0
    else \<exists>b r. decode_request b = Inr \<lparr>operation = op_prepare, generation = r_generation (ps_registry s),
          handle = 0, payload = p\<rparr> \<and> call b True g = (Inr r, g') \<and>
       (if \<not> ok (body r) then reply = [error_packet (errno (body r)) (sqlstate (body r)) (err_message (body r))] \<and>
          ps_registry s' = ps_registry s \<and> ps_last s' = 0
        else (\<exists>ps cs. reply = ([0] @ le32 (ps_last s') @ le16 (word_of_nat (length (list_of (columns (body r)))))
             @ le16 (ucast (param_count (body r))) @ [0] @ le16 (warnings (body r))) # ps @ cs \<and>
            column_block (status (body r)) (if param_count (body r) = 0 then [] else list_of (parameters (body r))) ps \<and>
            column_block (status (body r)) (list_of (columns (body r))) cs) \<and>
          ps_last s' \<noteq> 0 \<and> ps_last s' \<noteq> last_statement_id \<and> entries (ps_registry s) (ps_last s') = None \<and>
          entries (ps_registry s') = (entries (ps_registry s))(ps_last s' \<mapsto>
             \<lparr>e_handle = statement_id (body r), e_parameters = ucast (param_count (body r))\<rparr>) \<and>
          ps_types s' = ps_types s \<and> ps_long s' = ps_long s \<and> ps_long_errors s' = ps_long_errors s \<and>
          ps_types s (ps_last s') = None \<and> ps_long s (ps_last s') = None \<and> ps_long_errors s (ps_last s') = None)"
proof -
  have "prepare_statement p call s g = (Inr reply, s', g')"
    using run by (simp add: session_handle_def pp_ops)
  note out = prepare_statement_outcome [OF inv this]
  show ?thesis
  proof (cases "p = [] \<or> max_sql < length p")
    case False
    with out obtain b r where b: "encode_request \<lparr>operation = op_prepare, generation = r_generation (ps_registry s),
          handle = 0, payload = p\<rparr> = Inr b" "call b True g = (Inr r, g')"
      and cases: "\<not> ok (body r) \<and> packets r = Inr reply \<and> ps_registry s' = ps_registry s \<and> ps_last s' = 0 \<or>
        ok (body r) \<and> prepare_packets r (r_generation (ps_registry s)) 1 = Inr (prepare_header (body r) 1 # tl reply) \<and>
        reply = prepare_header (body r) (ps_last s') # tl reply \<and>
        registry_add (ps_registry s) (session_generation (body r)) (statement_id (body r)) (param_count (body r))
          = Inr (ps_last s', ps_registry s') \<and>
        ps_types s' = ps_types s \<and> ps_long s' = ps_long s \<and> ps_long_errors s' = ps_long_errors s" by auto
    have "ok (body r) \<longrightarrow> prepare_packets r (r_generation (ps_registry s)) (ps_last s') = Inr reply \<and> ps_last s' \<noteq> 0 \<and>
        ps_last s' \<noteq> last_statement_id \<and> entries (ps_registry s) (ps_last s') = None \<and>
        entries (ps_registry s') = (entries (ps_registry s))(ps_last s' \<mapsto>
             \<lparr>e_handle = statement_id (body r), e_parameters = ucast (param_count (body r))\<rparr>) \<and>
        ps_types s (ps_last s') = None \<and> ps_long s (ps_last s') = None \<and> ps_long_errors s (ps_last s') = None"
    proof
      assume "ok (body r)"
      with cases have c: "prepare_packets r (r_generation (ps_registry s)) 1 = Inr (prepare_header (body r) 1 # tl reply)"
        "reply = prepare_header (body r) (ps_last s') # tl reply"
        "registry_add (ps_registry s) (session_generation (body r)) (statement_id (body r)) (param_count (body r))
          = Inr (ps_last s', ps_registry s')" by blast+
      have ri: "registry_inv (ps_registry s)" using inv by (simp add: session_inv_def)
      note a = registry_add_Inr [OF c(3)]
      note w = word_inc_less [OF a(4), folded a(6)]
      have new: "entries (ps_registry s) (ps_last s') = None" using registry_inv_fresh [OF ri] w by blast
      then have clean: "ps_types s (ps_last s') = None" "ps_long s (ps_last s') = None" "ps_long_errors s (ps_last s') = None"
        using inv by (auto simp: session_inv_def)
      have ids: "ps_last s' \<noteq> last_statement_id" "ps_last s' \<noteq> 0" using w by (auto simp: last_statement_id_val)
      show "prepare_packets r (r_generation (ps_registry s)) (ps_last s') = Inr reply \<and> ps_last s' \<noteq> 0 \<and>
        ps_last s' \<noteq> last_statement_id \<and> entries (ps_registry s) (ps_last s') = None \<and>
        entries (ps_registry s') = (entries (ps_registry s))(ps_last s' \<mapsto>
             \<lparr>e_handle = statement_id (body r), e_parameters = ucast (param_count (body r))\<rparr>) \<and>
        ps_types s (ps_last s') = None \<and> ps_long s (ps_last s') = None \<and> ps_long_errors s (ps_last s') = None"
        using prepare_packets_id [OF c(1) \<open>ok (body r)\<close> ids(2)] c(2) ids new clean a(7) by simp
    qed
    note full = this
    have "\<exists>ps cs. reply = ([0] @ le32 (ps_last s') @ le16 (word_of_nat (length (list_of (columns (body r)))))
             @ le16 (ucast (param_count (body r))) @ [0] @ le16 (warnings (body r))) # ps @ cs \<and>
            column_block (status (body r)) (if param_count (body r) = 0 then [] else list_of (parameters (body r))) ps \<and>
            column_block (status (body r)) (list_of (columns (body r))) cs" if "ok (body r)"
      using prepare_packets_reads [of r "r_generation (ps_registry s)" "ps_last s'" reply] full that
      unfolding prepare_header_def by blast
    note reads = this
    show ?thesis
    proof (cases "ok (body r)")
      case True
      then show ?thesis unfolding if_not_P [OF False]
        using b decode_encode_request [OF b(1)] cases reads [OF True] full by (intro exI [of _ b] exI [of _ r]) simp
    next
      case err: False
      then show ?thesis unfolding if_not_P [OF False]
        using b decode_encode_request [OF b(1)] cases packets_error [of r reply] by (intro exI [of _ b] exI [of _ r]) simp
    qed
  qed (use out in auto)
qed

lemma sample_prepare:
  "\<exists>rest s'. session_handle op_prepare [83] (\<lambda>b m n. (Inr (sample_reply 11 [sample_column]), Suc n))
     sample_session 0 = (Inr rest, s', 1) \<and> ps_last s' = 2"
proof -
  obtain c where c: "prepared_column sample_column = Inr c"
    by (simp add: prepared_column_def column_names_def sample_column_def lestr_def leint_def max_packet_def Let_def)
  have pk: "prepare_packets (sample_reply 11 [sample_column]) 7 1 =
      Inr [prepare_header (body (sample_reply 11 [sample_column])) 1, c, eof_packet 0 0]"
    using c by (simp add: prepare_packets_def validate_prepared_def sample_reply_def zero_fields_def Let_def
        pp_version_def word_less_nat_alt)
  have sel: "ok (body (sample_reply 11 [sample_column]))" "statement_id (body (sample_reply 11 [sample_column])) = 11"
    "session_generation (body (sample_reply 11 [sample_column])) = 7"
    "param_count (body (sample_reply 11 [sample_column])) = 1"
    "validate_prepared (sample_reply 11 [sample_column]) 7 = None"
    by (simp_all add: sample_reply_def zero_fields_def validate_prepared_def pp_version_def)
  have add: "\<exists>reg. registry_add (ps_registry sample_session) 7 11 1 = Inr (2, reg)"
    by (simp add: registry_add_def sample_session_def last_statement_id_val Let_def word_le_nat_alt)
  then obtain reg where add: "registry_add (ps_registry sample_session) 7 11 1 = Inr (2, reg)" ..
  have sz: "\<not> (length [83 :: u8] = 0 \<or> max_sql < length [83 :: u8])" by (simp add: max_sql_def)
  have gen: "r_generation (ps_registry sample_session) = 7" by (simp add: sample_session_def)
  obtain b where enc: "encode_request \<lparr>operation = op_prepare, generation = 7, handle = 0, payload = [83]\<rparr> = Inr b"
    by (simp add: encode_request_def valid_request_def pp_consts)
  have call: "session_call op_prepare 0 [83] True (\<lambda>b m n. (Inr (sample_reply 11 [sample_column]), Suc n))
      (sample_session\<lparr>ps_last := 0\<rparr>) 0 = (Inr (sample_reply 11 [sample_column]),
        sample_session\<lparr>ps_last := 0, ps_status := status (body (sample_reply 11 [sample_column])) AND NOT 8\<rparr>, 1)"
    using enc sel by (simp add: session_call_def gen Let_def pp_ops)
  have "session_handle op_prepare [83] (\<lambda>b m n. (Inr (sample_reply 11 [sample_column]), Suc n)) sample_session 0
    = prepare_statement [83] (\<lambda>b m n. (Inr (sample_reply 11 [sample_column]), Suc n)) sample_session 0"
    by (simp add: session_handle_def pp_ops)
  also have "\<exists>rest s'. \<dots> = (Inr rest, s', 1) \<and> ps_last s' = 2"
    unfolding prepare_statement_def Let_def call prod.case sum.case if_not_P [OF sz]
    using pk add sel by (simp add: gen)
  finally show ?thesis .
qed

theorem prepare_installs_statement_witness:
  "\<exists>rest s'. session_handle op_prepare [83] (\<lambda>b m n. (Inr (sample_reply 11 [sample_column]), Suc n))
     sample_session 0 = (Inr (prepare_header (body (sample_reply 11 [sample_column])) 2 # rest), s', 1)"
proof -
  obtain reply s' where run: "session_handle op_prepare [83]
      (\<lambda>b m n. (Inr (sample_reply 11 [sample_column]), Suc n)) sample_session 0 = (Inr reply, s', 1)"
    and l: "ps_last s' = 2"
    using sample_prepare by blast
  have okr: "ok (body (sample_reply 11 [sample_column]))" by (simp add: sample_reply_def zero_fields_def)
  from prepare_installs_statement [OF sample_session_inv run] l okr
  obtain rest where "reply = prepare_header (body (sample_reply 11 [sample_column])) 2 # rest"
    by (auto simp: max_sql_def prepare_header_def)
  with run show ?thesis by blast
qed

text \<open>
  C8. EXECUTE delivers exactly what the client bound: for a statement the session owns, a packet
  with fresh descriptors reaches the guest as one monitored request for the statement's native
  handle, whose payload decodes to the client's values, with a typed NULL for every parameter held
  as long data; and if the guest answers, the long data are consumed and the types cached.
\<close>

theorem execute_reaches_guest:
  assumes inv: "session_inv s" and ex: "ps_execute s"
    and i: "resolve_statement_id s wid = i" and e: "entries (ps_registry s) i = Some e"
    and clean: "ps_long_errors s i = None"
    and vs: "\<forall>v\<in>set vs. valid_value v" "vs \<noteq> []" "length vs = unat (e_parameters e)"
      "\<forall>v\<in>set vs. length (v_bytes v) < 2 ^ 64"
    and size: "length (execute_packet wid (pending_params s i) vs) \<le> max_sql"
    and run: "session_handle op_execute (execute_packet wid (pending_params s i) vs) (recording call) s (g, [])
      = (r, s', (g', log))"
  shows "\<exists>b payload. log = [(b, True)] \<and>
    decode_request b = Inr \<lparr>operation = op_execute, generation = r_generation (ps_registry s),
      handle = e_handle e, payload = payload\<rparr> \<and>
    decode_values payload (e_parameters e) = Inr (held_values (pending_params s i) 0 vs) \<and>
    (\<not> isl r \<longrightarrow> ps_long s' i = None \<and> ps_types s' i = Some (map v_ptype vs))"
proof -
  let ?p = "execute_packet wid (pending_params s i) vs"
  let ?hv = "held_values (pending_params s i) 0 vs"
  have n: "length vs \<le> 65535" using vs(3) by simp
  have params: "(word_of_nat (length vs) :: u16) = e_parameters e" using vs(3) by (simp add: word_unat_eq_iff)
  have dec: "decode_execute_long_data ?p (e_parameters e) previous (pending_params s i) = Inr (?hv, map v_ptype vs)" for previous
    using decode_execute_sent [of vs wid "pending_params s i" previous] vs n size by (simp add: params)
  obtain pl where pl: "encode_values ?hv = Inr pl" using decoded_values_encode [OF dec] by blast
  have bk: "decode_values pl (e_parameters e) = Inr ?hv"
    using decode_encode_values [OF pl] params by simp
  have w: "get_le (take 4 ?p) = wid" by (simp add: execute_packet_def)
  have len: "\<not> length ?p < 4" by (simp add: execute_packet_def)
  have ri: "registry_inv (ps_registry s)" using inv by (simp add: session_inv_def)
  have h: "e_handle e \<noteq> 0" "r_generation (ps_registry s) \<noteq> 0"
    using registry_inv_entry [OF ri e] ri unfolding registry_inv_def by blast+
  have plen: "length pl \<le> max_envelope - header_size"
    using pl unfolding encode_values_Inr by blast
  have "valid_request \<lparr>operation = op_execute, generation = r_generation (ps_registry s),
      handle = e_handle e, payload = pl\<rparr>"
    using h plen by (simp add: valid_request_def pp_ops)
  then obtain b where b: "encode_request \<lparr>operation = op_execute, generation = r_generation (ps_registry s),
      handle = e_handle e, payload = pl\<rparr> = Inr b"
    by (simp add: encode_request_def)
  obtain r1 s1 gl where c: "session_call op_execute (e_handle e) pl True (recording call) s (g, []) = (r1, s1, gl)"
    by (metis prod_cases3)
  have log: "snd gl = [(b, True)]"
    using c b by (auto simp: session_call_def recording_def Let_def split: sum.splits option.splits prod.splits)
  have "execute_statement ?p (recording call) s (g, []) = (r, s', (g', log))"
    using run by (simp add: session_handle_def pp_ops)
  then have out: "(case (r1, s1, gl) of
       (Inl er, s', g') \<Rightarrow> (Inl er, s', g')
     | (Inr r, s', g') \<Rightarrow>
         let s'' = s'\<lparr>ps_long := (ps_long s')(i := None), ps_types := (ps_types s')(i \<mapsto> map v_ptype vs)\<rparr> in
         if \<not> ok (body r) then (packets r, s'', g')
         else if statement_id (body r) \<noteq> e_handle e
         then (Inl (Sentinel ''prepared execute handle mismatch''), s'', g')
         else (prepared_client_packets r (ps_multi s''), s'', g')) = (r, s', (g', log))"
    using ex len clean unfolding execute_statement_def w i registry_lookup_def
    by (simp only: Let_def e dec pl c i simp_thms if_True if_False option.case sum.case prod.case)
  then have "gl = (g', log)" "\<not> isl r \<longrightarrow> ps_long s' i = None \<and> ps_types s' i = Some (map v_ptype vs)"
    by (auto simp: Let_def split: sum.splits if_splits)
  then show ?thesis
    using log bk decode_encode_request [OF b] by auto
qed

theorem execute_reaches_guest_witness:
  "\<exists>b r s' g' payload. session_handle op_execute (execute_packet last_statement_id (\<lambda>k. k = 1)
        [\<lparr>v_ptype = \<lparr>p_type = 3, p_unsigned = True\<rparr>, v_null = False, v_bytes = [1, 2, 3, 4]\<rparr>,
         \<lparr>v_ptype = \<lparr>p_type = 252, p_unsigned = False\<rparr>, v_null = False, v_bytes = [9]\<rparr>])
      (recording (\<lambda>b m n. (Inr (sample_reply 9 []), Suc n))) sample_session (0, []) = (r, s', (g', [(b, True)])) \<and>
    decode_values payload 2 = Inr
        [\<lparr>v_ptype = \<lparr>p_type = 3, p_unsigned = True\<rparr>, v_null = False, v_bytes = [1, 2, 3, 4]\<rparr>,
         \<lparr>v_ptype = \<lparr>p_type = 252, p_unsigned = False\<rparr>, v_null = True, v_bytes = []\<rparr>]"
proof -
  define vs where "vs = [\<lparr>v_ptype = \<lparr>p_type = 3, p_unsigned = True\<rparr>, v_null = False, v_bytes = [1, 2, 3, 4]\<rparr>,
         \<lparr>v_ptype = \<lparr>p_type = 252, p_unsigned = False\<rparr>, v_null = False, v_bytes = [9]\<rparr>]"
  have pend: "pending_params sample_session 1 = (\<lambda>k. k = 1)"
    by (simp add: pending_params_def sample_session_def)
  obtain r s' gl where run: "session_handle op_execute (execute_packet last_statement_id (\<lambda>k. k = 1) vs)
      (recording (\<lambda>b m n. (Inr (sample_reply 9 []), Suc n))) sample_session (0, []) = (r, s', gl)"
    by (metis prod_cases3)
  have "\<exists>b payload. snd gl = [(b, True)] \<and>
    decode_request b = Inr \<lparr>operation = op_execute, generation = r_generation (ps_registry sample_session),
      handle = 9, payload = payload\<rparr> \<and>
    decode_values payload 2 = Inr (held_values (pending_params sample_session 1) 0 vs) \<and>
    (\<not> isl r \<longrightarrow> ps_long s' 1 = None \<and> ps_types s' 1 = Some (map v_ptype vs))"
    using execute_reaches_guest [of sample_session last_statement_id 1 "\<lparr>e_handle = 9, e_parameters = 2\<rparr>" vs
        "\<lambda>b m n. (Inr (sample_reply 9 []), Suc n)" 0 r s' "fst gl" "snd gl"] run
    by (simp add: sample_session_inv pend)
       (simp add: sample_session_def resolve_statement_id_def vs_def valid_value_def value_shape_def
          execute_packet_def max_sql_def type_bytes_def encode_inline_def)
  then obtain b payload where "snd gl = [(b, True)]"
    "decode_values payload 2 = Inr (held_values (pending_params sample_session 1) 0 vs)" by blast
  with run pend show ?thesis
    by (cases gl) (auto simp: vs_def)
qed

end
