(* ===== verification/WireServe.thy ===== *)
theory WireServe
  imports WireFrame PreparedSession
begin

text \<open>
  \<open>Serve\<close> of \<open>internal/mysqlwire/wire.go\<close>: the life of one client connection. It opens a guest
  session, greets the client, checks the handshake, reopens the session when the client asks for
  FOUND_ROWS, then answers one command after the other until the client leaves or the endpoint
  closes, and finally closes the guest session.

  The guest process, the endpoint's callbacks and the monitor scripts are the environment: a record
  of functions over a world of their own. A \<open>server\<close> is the local state of \<open>Serve\<close>; a step either
  continues or returns from \<open>Serve\<close> with an error or nil.
\<close>

record 'w serve_env =
  g_call :: "u8 \<Rightarrow> bytes \<Rightarrow> 'w \<Rightarrow> (goerr + result) \<times> 'w"
  g_abort :: "goerr \<Rightarrow> 'w \<Rightarrow> 'w"
  g_err :: "'w \<Rightarrow> goerr option"
  g_monitor :: "'w \<Rightarrow> monitor"
  a_begin :: "'w \<Rightarrow> bool \<times> 'w"
  a_idle :: "u16 \<Rightarrow> 'w \<Rightarrow> 'w"
  a_cleanup :: "'w \<Rightarrow> 'w"
  s_closing :: "'w \<Rightarrow> bool \<times> 'w"
  ready_version :: int
  ready_ops :: "u8 list"
  rand_read :: "goerr + bytes"

record 'w server =
  sv_wire :: wire
  sv_world :: 'w
  sv_opened :: bool
  sv_status :: u16
  sv_statements :: "prepared_session option"

datatype outcome = Continue | Return "goerr option"

type_synonym 'w reply = "(goerr + result) \<times> wire \<times> 'w"

definition prepared_capabilities :: "prepared_session option \<Rightarrow> u32" where
  "prepared_capabilities so =
     (case so of
        Some s \<Rightarrow> if ps_execute s then capabilities OR client_ps_multi_results else capabilities
      | None \<Rightarrow> capabilities)"

definition call_guest :: "'w serve_env \<Rightarrow> u8 \<Rightarrow> bytes \<Rightarrow> wire \<Rightarrow> 'w \<Rightarrow> 'w reply" where
  "call_guest env x sql w g = monitored_call (g_monitor env g) (g_call env x sql) (g_abort env) w g"

definition plain_call :: "'w serve_env \<Rightarrow> u8 \<Rightarrow> bytes \<Rightarrow> wire \<Rightarrow> 'w \<Rightarrow> 'w reply" where
  "plain_call env x sql w g = (case g_call env x sql g of (r, g') \<Rightarrow> (r, w, g'))"

text \<open>The closures \<open>query\<close> and \<open>use\<close> of \<open>Serve\<close>.\<close>

definition serve_query :: "'w serve_env \<Rightarrow> bytes \<Rightarrow> bool \<Rightarrow> wire \<Rightarrow> 'w \<Rightarrow> 'w reply" where
  "serve_query env sql monitor w g =
     (if length sql = 0 \<or> 1048576 < length sql
      then (Inr (Result (zero_fields\<lparr>errno := 1153, sqlstate := ''08S01'',
              err_message := ''SQL length must be 1..1048576 bytes''\<rparr>) None), w, g)
      else case (if monitor then call_guest env 2 sql w g else plain_call env 2 sql w g) of
        (Inl e, w', g') \<Rightarrow> (Inl e, w', g')
      | (Inr r, w', g') \<Rightarrow>
          if api_version (body r) \<noteq> 2
          then (Inl (Sentinel ''unexpected guest query version''), w', g') else (Inr r, w', g'))"

definition use_sql :: "bytes \<Rightarrow> bytes" where
  "use_sql name = str_bytes ''USE `'' @ concat (map (\<lambda>c. if c = 96 then [96, 96] else [c]) name) @ [96]"

definition serve_use :: "'w serve_env \<Rightarrow> bytes \<Rightarrow> bool \<Rightarrow> wire \<Rightarrow> 'w \<Rightarrow> 'w reply" where
  "serve_use env name monitor w g = serve_query env (use_sql name) monitor w g"

section \<open>The handshake\<close>

definition printable_salt :: "bytes \<Rightarrow> bytes" where "printable_salt s = map (\<lambda>c. 33 + c mod 90) s"

definition greeting :: "u32 \<Rightarrow> u32 \<Rightarrow> bytes \<Rightarrow> bytes \<Rightarrow> u16 \<Rightarrow> bytes" where
  "greeting caps cid version salt st =
     [10] @ version @ [0] @ le32 cid @ take 8 salt @ [0] @ le16 (ucast (caps AND 0xffff)) @ [45]
     @ le16 st @ le16 (ucast (drop_bit 16 caps)) @ [21] @ replicate 10 0 @ drop 8 salt @ [0]
     @ str_bytes ''mysql_native_password'' @ [0]"

datatype auth = Auth_Drop | Auth_Reject bytes | Auth_Ok u32 bytes

definition parse_auth :: "bytes \<Rightarrow> auth" where
  "parse_auth a =
     (if length a < 34 then Auth_Reject (error_packet 1045 ''28000'' ''invalid handshake'')
      else
        let flags = get_le (take 4 a) in
        if flags AND 512 = 0 \<or> flags AND 2048 \<noteq> 0
        then Auth_Reject (error_packet 1235 ''42000'' ''unsupported connection capabilities'')
        else case take_string (drop 32 a) of
          Inl _ \<Rightarrow> Auth_Drop
        | Inr (_, rest) \<Rightarrow>
            if flags AND 32768 \<noteq> 0 then
              if length rest < 1 \<or> length rest - 1 < unat (rest ! 0) then Auth_Drop
              else Auth_Ok flags (drop (1 + unat (rest ! 0)) rest)
            else (case take_string rest of Inl _ \<Rightarrow> Auth_Drop | Inr (_, rest') \<Rightarrow> Auth_Ok flags rest'))"

definition reply_and_return :: "bytes \<Rightarrow> goerr option \<Rightarrow> 'w server \<Rightarrow> outcome \<times> 'w server" where
  "reply_and_return b r sv = (Return r, sv\<lparr>sv_wire := snd (wire_send b (sv_wire sv))\<rparr>)"

definition refuse_result :: "result \<Rightarrow> 'w server \<Rightarrow> outcome \<times> 'w server" where
  "refuse_result r sv =
     reply_and_return (error_packet (errno (body r)) (sqlstate (body r)) (err_message (body r))) None sv"

text \<open>The reopening of a session whose client wants FOUND_ROWS.\<close>

definition reopen_found_rows :: "'w serve_env \<Rightarrow> u32 \<Rightarrow> 'w server \<Rightarrow> outcome \<times> 'w server" where
  "reopen_found_rows env flags sv =
     (if flags AND client_found_rows = 0 then (Continue, sv)
      else case g_call env 3 [] (sv_world sv) of
        (Inl e, g1) \<Rightarrow> reply_and_return (fatal_packet e) (Some e) (sv\<lparr>sv_world := g1\<rparr>)
      | (Inr c, g1) \<Rightarrow>
          if \<not> closed (body c) then
            let e = Sentinel ''guest session did not close before FOUND_ROWS reopen'' in
            reply_and_return (fatal_packet e) (Some e) (sv\<lparr>sv_world := g1\<rparr>)
          else (case g_call env 1 [1] g1 of
              (Inl e, g2) \<Rightarrow>
                reply_and_return (fatal_packet e) (Some e) (sv\<lparr>sv_world := g2, sv_opened := False\<rparr>)
            | (Inr r, g2) \<Rightarrow>
                if \<not> ok (body r) then refuse_result r (sv\<lparr>sv_world := g2, sv_opened := False\<rparr>)
                else
                  let sv' = sv\<lparr>sv_world := g2, sv_opened := True, sv_status := status (body r)\<rparr> in
                  (case new_prepared_session r (ready_version env) (ready_ops env) of
                     Inl e \<Rightarrow> (Return (Some e), sv')
                   | Inr so \<Rightarrow> (Continue, sv'\<lparr>sv_statements := so\<rparr>))))"

definition enable_multi_statements :: "'w serve_env \<Rightarrow> u32 \<Rightarrow> 'w server \<Rightarrow> outcome \<times> 'w server" where
  "enable_multi_statements env flags sv =
     (if flags AND 65536 = 0 then (Continue, sv)
      else case g_call env 4 [0, 0] (sv_world sv) of
        (Inl e, g1) \<Rightarrow> (Return (Some e), sv\<lparr>sv_world := g1\<rparr>)
      | (Inr r, g1) \<Rightarrow>
          let sv' = sv\<lparr>sv_world := g1\<rparr> in
          if api_version (body r) \<noteq> 2
          then (Return (Some (Sentinel ''set-option bridge version mismatch'')), sv')
          else if \<not> ok (body r) then
            if errno (body r) = 0
            then (Return (Some (Sentinel ''embedded option API failed without error details'')), sv')
            else refuse_result r sv'
          else (Continue, sv'\<lparr>sv_status := status (body r)\<rparr>))"

definition use_initial_database :: "'w serve_env \<Rightarrow> u32 \<Rightarrow> bytes \<Rightarrow> 'w server \<Rightarrow> outcome \<times> 'w server" where
  "use_initial_database env flags rest sv =
     (if flags AND 8 = 0 then (Continue, sv)
      else case take_string rest of
        Inl _ \<Rightarrow> (Return None, sv)
      | Inr (name, _) \<Rightarrow>
          (case serve_use env name False (sv_wire sv) (sv_world sv) of
             (Inl e, w', g') \<Rightarrow> (Return (Some e), sv\<lparr>sv_wire := w', sv_world := g'\<rparr>)
           | (Inr r, w', g') \<Rightarrow>
               let sv' = sv\<lparr>sv_wire := w', sv_world := g', sv_status := status (body r)\<rparr> in
               if \<not> ok (body r) then refuse_result r sv' else (Continue, sv')))"

definition then_step :: "outcome \<times> 'w server \<Rightarrow> ('w server \<Rightarrow> outcome \<times> 'w server) \<Rightarrow> outcome \<times> 'w server" where
  "then_step r f = (case r of (Return e, sv) \<Rightarrow> (Return e, sv) | (Continue, sv) \<Rightarrow> f sv)"

definition negotiate :: "u32 \<Rightarrow> 'w server \<Rightarrow> 'w server" where
  "negotiate flags sv =
     sv\<lparr>sv_statements := map_option (\<lambda>s. s\<lparr>ps_multi := (flags AND client_ps_multi_results \<noteq> 0)\<rparr>) (sv_statements sv)\<rparr>"

definition accept_client :: "'w serve_env \<Rightarrow> 'w server \<Rightarrow> outcome \<times> 'w server" where
  "accept_client env sv =
     (case wire_send (ok_packet (sv_status sv) 0 0 0) (sv_wire sv) of
        (Some _, w') \<Rightarrow> (Return None, sv\<lparr>sv_wire := w'\<rparr>)
      | (None, w') \<Rightarrow>
          (Continue, sv\<lparr>sv_wire := w', sv_world := a_idle env (sv_status sv) (sv_world sv)\<rparr>))"

text \<open>What follows a valid handshake response, up to the OK packet that admits the client.\<close>

definition negotiated :: "'w serve_env \<Rightarrow> u32 \<Rightarrow> bytes \<Rightarrow> 'w server \<Rightarrow> outcome \<times> 'w server" where
  "negotiated env flags rest s =
     then_step (then_step (then_step (reopen_found_rows env flags s)
       (enable_multi_statements env flags \<circ> negotiate flags)) (use_initial_database env flags rest)) (accept_client env)"

definition handshake :: "'w serve_env \<Rightarrow> 'w server \<Rightarrow> outcome \<times> 'w server" where
  "handshake env sv =
     (case serve_query env (str_bytes ''SELECT CONNECTION_ID(), VERSION()'') False (sv_wire sv) (sv_world sv) of
        (Inl e, w1, g1) \<Rightarrow> (Return (Some e), sv\<lparr>sv_wire := w1, sv_world := g1\<rparr>)
      | (Inr r, w1, g1) \<Rightarrow>
          let sv1 = sv\<lparr>sv_wire := w1, sv_world := g1\<rparr> in
          (case connection_identity (body r) of
             Inl e \<Rightarrow> (Return (Some e), sv1)
           | Inr (cid, version) \<Rightarrow>
               (case rand_read env of
                  Inl e \<Rightarrow> (Return (Some e), sv1)
                | Inr raw \<Rightarrow>
                    (case wire_send (greeting (prepared_capabilities (sv_statements sv)) cid version
                            (printable_salt raw) (status (body r))) w1 of
                       (Some _, w2) \<Rightarrow> (Return None, sv1\<lparr>sv_wire := w2\<rparr>)
                     | (None, w2) \<Rightarrow>
                         (case wire_read False None w2 of
                            (Inl _, w3) \<Rightarrow> (Return None, sv1\<lparr>sv_wire := w3\<rparr>)
                          | (Inr a, w3) \<Rightarrow>
                              let sv3 = sv1\<lparr>sv_wire := w3, sv_status := status (body r)\<rparr> in
                              (case parse_auth a of
                                 Auth_Drop \<Rightarrow> (Return None, sv3)
                               | Auth_Reject b \<Rightarrow> reply_and_return b None sv3
                               | Auth_Ok flags rest \<Rightarrow>
                                   negotiated env flags rest sv3))))))"

section \<open>Commands\<close>

text \<open>
  The switch over the command byte. It yields the session's error, the replies, or the result that
  is still to be serialized (\<open>replies == nil\<close>), and whether the client quits.
\<close>

datatype dispatched = Quit | Failed goerr | Replies "bytes list" | Answer result

definition prepared_guest :: "'w serve_env \<Rightarrow> (wire \<times> 'w) guest" where
  "prepared_guest env b monitor st =
     (case st of (w, g) \<Rightarrow>
        (case (if monitor then call_guest env 5 b w g else plain_call env 5 b w g) of
           (r, w', g') \<Rightarrow> (r, (w', g'))))"

definition dispatch_prepared :: "'w serve_env \<Rightarrow> u8 \<Rightarrow> bytes \<Rightarrow> 'w server \<Rightarrow> dispatched \<times> 'w server" where
  "dispatch_prepared env x p sv =
     (let so = map_option (\<lambda>s. s\<lparr>ps_status := sv_status sv\<rparr>) (sv_statements sv) in
      case handle_prepared x p (prepared_guest env) so (sv_wire sv, sv_world sv) of
        (r, so', (w', g')) \<Rightarrow>
          ((case r of Inl e \<Rightarrow> Failed e | Inr bs \<Rightarrow> Replies bs),
           sv\<lparr>sv_wire := w', sv_world := g', sv_statements := so',
              sv_status := (case so' of None \<Rightarrow> sv_status sv | Some s \<Rightarrow> ps_status s)\<rparr>))"

definition dispatch_option :: "'w serve_env \<Rightarrow> bytes \<Rightarrow> 'w server \<Rightarrow> dispatched \<times> 'w server" where
  "dispatch_option env p sv =
     (case set_option_error p of
        Some bad \<Rightarrow> (Replies [bad], sv)
      | None \<Rightarrow>
          (case call_guest env 4 p (sv_wire sv) (sv_world sv) of
             (Inl e, w', g') \<Rightarrow> (Failed e, sv\<lparr>sv_wire := w', sv_world := g'\<rparr>)
           | (Inr r, w', g') \<Rightarrow>
               let sv' = sv\<lparr>sv_wire := w', sv_world := g'\<rparr> in
               if api_version (body r) \<noteq> 2
               then (Failed (Sentinel ''text option bridge version mismatch''), sv')
               else if \<not> ok (body r) \<and> errno (body r) = 0
               then (Failed (Sentinel ''embedded option API failed without error details''), sv')
               else if ok (body r) then
                 let st = status (body r) AND NOT 8 in
                 (Replies [eof_packet st (warnings (body r))], sv'\<lparr>sv_status := st\<rparr>)
               else (Answer r, sv')))"

definition dispatch :: "'w serve_env \<Rightarrow> u8 \<Rightarrow> bytes \<Rightarrow> 'w server \<Rightarrow> dispatched \<times> 'w server" where
  "dispatch env x p sv =
     (if x \<in> {22, 23, 24, 25, 26} then dispatch_prepared env x p sv
      else if x = 1 then (Quit, sv)
      else if x = 3 \<or> x = 2 then
        (case (if x = 3 then serve_query env p True (sv_wire sv) (sv_world sv)
               else serve_use env p True (sv_wire sv) (sv_world sv)) of
           (Inl e, w', g') \<Rightarrow> (Failed e, sv\<lparr>sv_wire := w', sv_world := g'\<rparr>)
         | (Inr r, w', g') \<Rightarrow> (Answer r, sv\<lparr>sv_wire := w', sv_world := g'\<rparr>))
      else if x = 27 then dispatch_option env p sv
      else if x = 14 then (Replies [ok_packet (sv_status sv) 0 0 0], sv)
      else (Replies [error_packet 1235 ''42000'' ''command is not supported''], sv))"

definition send_replies :: "'w serve_env \<Rightarrow> bytes list \<Rightarrow> 'w server \<Rightarrow> outcome \<times> 'w server" where
  "send_replies env bs sv =
     (case send_all bs (sv_wire sv) of
        (Some _, w') \<Rightarrow> (Return None, sv\<lparr>sv_wire := w'\<rparr>)
      | (None, w') \<Rightarrow> (Continue, sv\<lparr>sv_wire := w', sv_world := a_idle env (sv_status sv) (sv_world sv)\<rparr>))"

definition fail_command :: "u8 \<Rightarrow> goerr \<Rightarrow> 'w server \<Rightarrow> outcome \<times> 'w server" where
  "fail_command x e sv =
     (case command_failure x e (sv_wire sv) of (e', w') \<Rightarrow> (Return (Some e'), sv\<lparr>sv_wire := w'\<rparr>))"

text \<open>One command, from the liveness check of the guest to the idle report.\<close>

definition serve_command :: "'w serve_env \<Rightarrow> bytes \<Rightarrow> 'w server \<Rightarrow> outcome \<times> 'w server" where
  "serve_command env request sv =
     (case g_err env (sv_world sv) of
        Some e \<Rightarrow> fail_command (request ! 0) e sv
      | None \<Rightarrow>
          (case dispatch env (request ! 0) (drop 1 request) sv of
             (Quit, sv') \<Rightarrow> (Return None, sv')
           | (Failed e, sv') \<Rightarrow> fail_command (request ! 0) e sv'
           | (Replies bs, sv') \<Rightarrow> send_replies env bs sv'
           | (Answer r, sv') \<Rightarrow>
               let sv'' = (if api_version (body r) = 2
                           then sv'\<lparr>sv_status := status (body r) AND NOT 8\<rparr> else sv') in
               (case packets r of
                  Inl e \<Rightarrow> (Return (Some e), sv'')
                | Inr bs \<Rightarrow> send_replies env bs sv'')))"

text \<open>
  One round of the loop: the two closing tests, the read with its \<open>Begin\<close> hook, the command. The
  hook is asked only after a byte has arrived.
\<close>

definition serve_round :: "'w serve_env \<Rightarrow> 'w server \<Rightarrow> outcome \<times> 'w server" where
  "serve_round env sv =
     (case s_closing env (sv_world sv) of
        (True, g1) \<Rightarrow> (Return None, sv\<lparr>sv_world := g1\<rparr>)
      | (False, g1) \<Rightarrow>
          let w0 = (sv_wire sv)\<lparr>sequence := 0\<rparr>;
              (admit, g2) = (if stream w0 = [] then (True, g1) else a_begin env g1) in
          (case wire_read True (Some admit) w0 of
             (Inl _, w1) \<Rightarrow> (Return None, sv\<lparr>sv_wire := w1, sv_world := g2\<rparr>)
           | (Inr request, w1) \<Rightarrow>
               (case s_closing env g2 of
                  (True, g3) \<Rightarrow> (Return None, sv\<lparr>sv_wire := w1, sv_world := g3\<rparr>)
                | (False, g3) \<Rightarrow> serve_command env request (sv\<lparr>sv_wire := w1, sv_world := g3\<rparr>))))"

fun serve_loop :: "nat \<Rightarrow> 'w serve_env \<Rightarrow> 'w server \<Rightarrow> (goerr option \<times> 'w server) option" where
  "serve_loop 0 env sv = None"
| "serve_loop (Suc n) env sv =
     (case serve_round env sv of
        (Return r, sv') \<Rightarrow> Some (r, sv')
      | (Continue, sv') \<Rightarrow> serve_loop n env sv')"

section \<open>The connection's life\<close>

text \<open>The deferred functions: the registry is cleared, then an open session is closed.\<close>

definition close_session :: "'w serve_env \<Rightarrow> goerr option \<Rightarrow> 'w server \<Rightarrow> goerr option \<times> 'w server" where
  "close_session env r sv0 =
     (let sv = sv0\<lparr>sv_statements := map_option (\<lambda>s. s\<lparr>ps_registry := registry_clear (ps_registry s)\<rparr>)
                     (sv_statements sv0)\<rparr> in
      if \<not> sv_opened sv then (r, sv)
      else case g_call env 3 [] (a_cleanup env (sv_world sv)) of
        (Inl e, g') \<Rightarrow> (err_join [r, Some e], sv\<lparr>sv_world := g'\<rparr>)
      | (Inr c, g') \<Rightarrow>
          if \<not> closed (body c)
          then (err_join [r, Some (Sentinel ''session did not close'')], sv\<lparr>sv_world := g'\<rparr>)
          else (r, sv\<lparr>sv_world := g'\<rparr>))"

definition serve :: "nat \<Rightarrow> 'w serve_env \<Rightarrow> wire \<Rightarrow> 'w \<Rightarrow> (goerr option \<times> 'w server) option" where
  "serve fuel env w g =
     (let sv = \<lparr>sv_wire = w, sv_world = g, sv_opened = False, sv_status = 0, sv_statements = None\<rparr> in
      case g_call env 1 [] g of
        (Inl e, g1) \<Rightarrow>
          Some (Some e, sv\<lparr>sv_world := g1, sv_wire := snd (wire_send (fatal_packet e) w)\<rparr>)
      | (Inr r, g1) \<Rightarrow>
          if \<not> ok (body r)
          then Some (Some (Wrapped ''open session: '' (Sentinel (err_message (body r))) []), sv\<lparr>sv_world := g1\<rparr>)
          else
            let sv1 = sv\<lparr>sv_world := g1, sv_opened := True\<rparr> in
            (case new_prepared_session r (ready_version env) (ready_ops env) of
               Inl e \<Rightarrow> Some (close_session env (Some e) sv1)
             | Inr so \<Rightarrow>
                 (case handshake env (sv1\<lparr>sv_statements := so\<rparr>) of
                    (Return e, sv2) \<Rightarrow> Some (close_session env e sv2)
                  | (Continue, sv2) \<Rightarrow>
                      map_option (\<lambda>(e, sv3). close_session env e sv3) (serve_loop fuel env sv2))))"

section \<open>What serving a command keeps of the wire\<close>

text \<open>
  Guest calls neither write to the client nor touch the sequence number, and never put input back.
\<close>

definition wire_at :: "wire \<Rightarrow> wire \<times> 'w \<Rightarrow> bool" where
  "wire_at w st \<longleftrightarrow> w_out (fst st) = w_out w \<and> sequence (fst st) = sequence w \<and>
     length (stream (fst st)) \<le> length (stream w)"

lemma wire_at_refl [simp]: "wire_at w (w, g)"
  by (simp add: wire_at_def)

lemma call_guest_wire [frame_simps]: "call_guest env x b w g = (r, w', g') \<Longrightarrow> wire_at w (w', g')"
  by (auto simp: call_guest_def wire_at_def dest: monitored_call_frame)

lemma plain_call_wire [frame_simps]: "plain_call env x b w g = (r, w', g') \<Longrightarrow> wire_at w (w', g')"
  by (auto simp: plain_call_def wire_at_def split: prod.splits)

lemma serve_query_wire [frame_simps]: "serve_query env sql m w g = (r, w', g') \<Longrightarrow> wire_at w (w', g')"
  unfolding serve_query_def
  by (auto split: if_splits sum.splits prod.splits dest: call_guest_wire plain_call_wire)

lemma wire_at_trans: "wire_at w (w1, g1) \<Longrightarrow> wire_at w1 (w2, g2) \<Longrightarrow> wire_at w (w2, g2)"
  by (auto simp: wire_at_def)

lemma prepared_guest_wire: "\<forall>b m st. wire_at w st \<longrightarrow> wire_at w (snd (prepared_guest env b m st))"
proof (intro allI impI)
  fix b m and st :: "wire \<times> 'a"
  assume at: "wire_at w st"
  obtain w1 g1 where st: "st = (w1, g1)" by fastforce
  obtain r w2 g2 where c: "(if m then call_guest env 5 b w1 g1 else plain_call env 5 b w1 g1) = (r, w2, g2)"
    by (metis prod_cases3)
  then have "wire_at w1 (w2, g2)" by (auto split: if_splits dest: call_guest_wire plain_call_wire)
  with at c show "wire_at w (snd (prepared_guest env b m st))"
    by (auto simp: prepared_guest_def st intro: wire_at_trans)
qed

lemma dispatch_wire:
  assumes "dispatch env x p sv = (d, sv')"
  shows "wire_at (sv_wire sv) (sv_wire sv', sv_world sv')"
proof -
  have p: "wire_at (sv_wire sv) (w', g')"
    if "handle_prepared x p (prepared_guest env) so (sv_wire sv, sv_world sv) = (r, so', (w', g'))" for r so so' w' g'
    using handle_prepared_guest [OF prepared_guest_wire _ that, of "sv_wire sv"] by simp
  have "wire_at (sv_wire sv) (sv_wire sv', g)" if "wire_at (sv_wire sv) (sv_wire sv', g')" for g g'
    using that by (simp add: wire_at_def)
  with assms p show ?thesis
    unfolding dispatch_def dispatch_prepared_def dispatch_option_def serve_use_def Let_def
    by (auto split: if_splits prod.splits sum.splits option.splits dest!: serve_query_wire call_guest_wire)
qed

lemma read_full_frame: "read_full n w = (r, w') \<Longrightarrow> w_out w' = w_out w"
  by (auto simp: read_full_def conn_read_full_def Let_def split: if_splits prod.splits sum.splits)

lemma wire_read_frame: "wire_read idle admit w = (r, w') \<Longrightarrow> w_out w' = w_out w"
  by (auto simp: wire_read_def Let_def split: if_splits prod.splits sum.splits dest!: read_full_frame)

lemma wire_read_Inr:
  assumes "wire_read idle admit w = (Inr b, w')"
  shows "length (stream w') + 5 \<le> length (stream w) \<and> sequence w' = sequence w + 1 \<and> b \<noteq> []"
  using assms
  by (auto simp: wire_read_def Let_def split: if_splits prod.splits sum.splits dest!: read_full_Inr)

lemma send_replies_Continue:
  "send_replies env bs sv = (Continue, sv') \<Longrightarrow> \<exists>w'. send_all bs (sv_wire sv) = (None, w') \<and> sv_wire sv' = w'"
  by (auto simp: send_replies_def split: prod.splits option.splits)

text \<open>A command that is answered: its replies are framed from the current sequence number.\<close>

lemma serve_command_Continue:
  assumes "serve_command env request sv = (Continue, sv')"
  shows "\<exists>bs w1. sequence w1 = sequence (sv_wire sv) \<and> w_out w1 = w_out (sv_wire sv) \<and>
    length (stream w1) \<le> length (stream (sv_wire sv)) \<and> send_all bs w1 = (None, sv_wire sv')"
proof -
  obtain d sv1 where d: "dispatch env (request ! 0) (drop 1 request) sv = (d, sv1)" by fastforce
  have at: "wire_at (sv_wire sv) (sv_wire sv1, sv_world sv1)" using dispatch_wire [OF d] .
  have "\<exists>bs. send_all bs (sv_wire sv1) = (None, sv_wire sv')"
    using assms unfolding serve_command_def d
    by (auto simp: fail_command_def command_failure_def Let_def
        split: option.splits dispatched.splits sum.splits if_splits dest!: send_replies_Continue)
  then show ?thesis using at by (auto simp: wire_at_def)
qed

lemma serve_round_shrinks:
  assumes "serve_round env sv = (Continue, sv')"
  shows "length (stream (sv_wire sv')) + 5 \<le> length (stream (sv_wire sv))"
proof -
  obtain sv1 request where c: "serve_command env request sv1 = (Continue, sv')"
    and r: "length (stream (sv_wire sv1)) + 5 \<le> length (stream (sv_wire sv))"
    using assms unfolding serve_round_def Let_def
    by (auto split: prod.splits bool.splits sum.splits dest!: wire_read_Inr)
  from serve_command_Continue [OF c] r show ?thesis
    by (auto dest!: send_all_stream)
qed

lemma serve_loop_returns:
  "length (stream (sv_wire sv)) < 5 * n \<Longrightarrow> \<exists>r. serve_loop n env sv = Some r"
proof (induction n arbitrary: sv)
  case 0
  then show ?case by simp
next
  case (Suc n)
  show ?case
  proof (cases "serve_round env sv")
    case (Pair oc sv')
    show ?thesis
    proof (cases oc)
      case Continue
      then have "length (stream (sv_wire sv')) + 5 \<le> length (stream (sv_wire sv))"
        using serve_round_shrinks Pair by blast
      with Suc.prems have "length (stream (sv_wire sv')) < 5 * n" by simp
      from Suc.IH [OF this] show ?thesis using Pair Continue by simp
    qed (use Pair in simp)
  qed
qed

lemma serve_loop_mono: "serve_loop n env sv = Some r \<Longrightarrow> serve_loop (n + k) env sv = Some r"
  by (induction n arbitrary: sv) (auto split: prod.splits outcome.splits)

text \<open>The handshake leaves no more input than there was.\<close>

definition shrinks :: "'w server \<Rightarrow> outcome \<times> 'w server \<Rightarrow> bool" where
  "shrinks sv r \<longleftrightarrow> length (stream (sv_wire (snd r))) \<le> length (stream (sv_wire sv))"

lemma reply_and_return_shrinks: "shrinks sv (reply_and_return b r sv)"
  by (cases "wire_send b (sv_wire sv)") (auto simp: reply_and_return_def shrinks_def dest: wire_send_stream)

lemma shrinks_world [simp]:
  "shrinks (sv\<lparr>sv_world := g\<rparr>) = shrinks sv" "shrinks (sv\<lparr>sv_opened := b\<rparr>) = shrinks sv"
  "shrinks (sv\<lparr>sv_status := st\<rparr>) = shrinks sv" "shrinks (sv\<lparr>sv_statements := so\<rparr>) = shrinks sv"
  by (simp_all add: shrinks_def fun_eq_iff)

lemma shrinks_Pair: "shrinks sv (oc, sv') \<longleftrightarrow> length (stream (sv_wire sv')) \<le> length (stream (sv_wire sv))"
  by (simp add: shrinks_def)

lemma reopen_shrinks: "shrinks sv (reopen_found_rows env flags sv)"
  using reply_and_return_shrinks [of "sv\<lparr>sv_world := g, sv_opened := b\<rparr>" for g b]
    reply_and_return_shrinks [of "sv\<lparr>sv_world := g\<rparr>" for g]
  by (auto simp: reopen_found_rows_def refuse_result_def shrinks_Pair Let_def
      split: sum.splits prod.splits if_splits)

lemma query_shrinks:
  "serve_query env sql m w g = (r, w', g') \<Longrightarrow> length (stream w') \<le> length (stream w)"
  by (auto dest!: serve_query_wire simp: wire_at_def)

lemma enable_shrinks: "shrinks sv (enable_multi_statements env flags sv)"
  using reply_and_return_shrinks [of "sv\<lparr>sv_world := g\<rparr>" for g]
  by (auto simp: enable_multi_statements_def refuse_result_def shrinks_Pair Let_def
      split: sum.splits prod.splits if_splits)

lemma refuse_shrinks: "length (stream (sv_wire sv)) \<le> n \<Longrightarrow>
    length (stream (sv_wire (snd (refuse_result r sv)))) \<le> n"
  using reply_and_return_shrinks [of sv] by (auto simp: refuse_result_def shrinks_def intro: order_trans)

lemma use_shrinks: "shrinks sv (use_initial_database env flags rest sv)"
  by (auto simp: use_initial_database_def serve_use_def shrinks_def Let_def intro!: refuse_shrinks
      split: sum.splits prod.splits if_splits dest!: query_shrinks)

lemma accept_shrinks: "shrinks sv (accept_client env sv)"
  by (auto simp: accept_client_def shrinks_def split: prod.splits option.splits dest: wire_send_stream)

lemma then_step_shrinks:
  "shrinks sv r \<Longrightarrow> (\<And>s. shrinks s (f s)) \<Longrightarrow> shrinks sv (then_step r f)"
  by (auto simp: then_step_def shrinks_def split: prod.splits outcome.splits) (metis order_trans snd_conv)

lemma negotiate_wire [simp]: "sv_wire (negotiate flags sv) = sv_wire sv" "sv_world (negotiate flags sv) = sv_world sv"
  "sv_opened (negotiate flags sv) = sv_opened sv"
  by (simp_all add: negotiate_def)

lemma enable_negotiate_shrinks: "shrinks sv ((enable_multi_statements env flags \<circ> negotiate flags) sv)"
  using enable_shrinks [of "negotiate flags sv" env flags] by (simp add: shrinks_def)

lemma shrinks_from: "length (stream (sv_wire s)) \<le> length (stream (sv_wire sv)) \<Longrightarrow> shrinks s r \<Longrightarrow> shrinks sv r"
  by (simp add: shrinks_def)

lemma read_full_shrinks: "read_full n w = (r, w') \<Longrightarrow> length (stream w') \<le> length (stream w)"
  by (auto simp: read_full_def conn_read_full_def stream_def Let_def min_def split: if_splits prod.splits sum.splits)

lemma wire_read_shrinks: "wire_read i a w = (r, w') \<Longrightarrow> length (stream w') \<le> length (stream w)"
  by (auto simp: wire_read_def Let_def split: if_splits prod.splits sum.splits dest!: read_full_shrinks)

lemma negotiated_shrinks: "shrinks s (negotiated env flags rest s)"
  unfolding negotiated_def
  by (intro then_step_shrinks reopen_shrinks enable_negotiate_shrinks use_shrinks accept_shrinks)

lemma handshake_shrinks: "shrinks sv (handshake env sv)"
  unfolding handshake_def Let_def
  by (auto simp: shrinks_Pair split: sum.split prod.split option.split auth.split
      intro: shrinks_from [OF _ negotiated_shrinks] shrinks_from [OF _ reply_and_return_shrinks]
      dest!: query_shrinks wire_send_stream wire_read_shrinks)

lemma serve_fuel:
  assumes "length (stream w) < 5 * fuel"
  shows "\<exists>r. serve fuel env w g = Some r \<and> (\<forall>k. serve (fuel + k) env w g = Some r)"
proof -
  obtain r g1 where o: "g_call env 1 [] g = (r, g1)" by fastforce
  define sv1 where "sv1 = \<lparr>sv_wire = w, sv_world = g1, sv_opened = True, sv_status = 0, sv_statements = None\<rparr>"
  show ?thesis
  proof (cases "\<exists>rr so sv2. r = Inr rr \<and> ok (body rr) \<and>
      new_prepared_session rr (ready_version env) (ready_ops env) = Inr so \<and>
      handshake env (sv1\<lparr>sv_statements := so\<rparr>) = (Continue, sv2)")
    case True
    then obtain rr so sv2 where *: "r = Inr rr" "ok (body rr)"
      "new_prepared_session rr (ready_version env) (ready_ops env) = Inr so"
      "handshake env (sv1\<lparr>sv_statements := so\<rparr>) = (Continue, sv2)" by blast
    have "length (stream (sv_wire sv2)) < 5 * fuel"
      using handshake_shrinks [of "sv1\<lparr>sv_statements := so\<rparr>" env] * assms by (simp add: shrinks_Pair sv1_def)
    then obtain q where q: "serve_loop fuel env sv2 = Some q" using serve_loop_returns by blast
    have "serve (fuel + k) env w g = Some (case q of (e, sv3) \<Rightarrow> close_session env e sv3)" for k
      using * serve_loop_mono [OF q, of k] by (simp add: serve_def o Let_def sv1_def)
    from this [of 0] this show ?thesis by simp
  next
    case False
    have "serve n env w g = serve 0 env w g \<and> serve n env w g \<noteq> None" for n
      using False unfolding serve_def o Let_def sv1_def
      by (cases r) (auto split: sum.splits prod.splits outcome.splits)
    then show ?thesis by (metis not_None_eq)
  qed
qed

section \<open>Guest calls that keep the session\<close>


section \<open>The discipline of guest sessions\<close>

text \<open>
  An environment that records every guest call with its answer, and the reading of such a log: no
  open while a session is open, no query outside one; the result says whether one is open.
\<close>

type_synonym call_log = "(u8 \<times> (goerr + result)) list"

definition logging :: "'w serve_env \<Rightarrow> ('w \<times> call_log) serve_env" where
  "logging env =
     \<lparr>g_call = (\<lambda>x b st. case st of (g, log) \<Rightarrow>
         (case g_call env x b g of (r, g') \<Rightarrow> (r, (g', log @ [(x, r)])))),
      g_abort = (\<lambda>e st. (g_abort env e (fst st), snd st)),
      g_err = (\<lambda>st. g_err env (fst st)),
      g_monitor = (\<lambda>st. g_monitor env (fst st)),
      a_begin = (\<lambda>st. (fst (a_begin env (fst st)), (snd (a_begin env (fst st)), snd st))),
      a_idle = (\<lambda>s st. (a_idle env s (fst st), snd st)),
      a_cleanup = (\<lambda>st. (a_cleanup env (fst st), snd st)),
      s_closing = (\<lambda>st. (fst (s_closing env (fst st)), (snd (s_closing env (fst st)), snd st))),
      ready_version = ready_version env, ready_ops = ready_ops env, rand_read = rand_read env\<rparr>"

definition accepted :: "goerr + result \<Rightarrow> bool" where
  "accepted r = (case r of Inl _ \<Rightarrow> False | Inr q \<Rightarrow> ok (body q))"

fun session_trace :: "bool \<Rightarrow> call_log \<Rightarrow> bool option" where
  "session_trace opn [] = Some opn"
| "session_trace opn ((x, r) # l) =
     (if x = 1 then (if opn then None else session_trace (accepted r) l)
      else if x = 3 then session_trace False l
      else if opn then session_trace True l else None)"


lemma logging_sel [simp]:
  "g_call (logging env) x b st = (fst (g_call env x b (fst st)), snd (g_call env x b (fst st)),
     snd st @ [(x, fst (g_call env x b (fst st)))])"
  "snd (a_cleanup (logging env) st) = snd st"
  by (simp_all add: logging_def split: prod.split)


text \<open>What the negotiation leaves behind: an open session to serve, or a return whose session
  flag is set whenever a session is still open.\<close>

definition disciplined :: "outcome \<times> ('w \<times> call_log) server \<Rightarrow> bool" where
  "disciplined r \<longleftrightarrow>
     (fst r = Continue \<longrightarrow> session_trace False (snd (sv_world (snd r))) = Some True \<and> sv_opened (snd r)) \<and>
     (session_trace False (snd (sv_world (snd r))) = Some True \<and> sv_opened (snd r) \<or>
      session_trace False (snd (sv_world (snd r))) = Some False)"


lemma disciplined_closed:
  "session_trace False (snd (sv_world sv)) = Some False \<Longrightarrow> disciplined (Return r, sv)"
  by (simp add: disciplined_def)






section \<open>Properties\<close>


text \<open>A guest that accepts everything, for the instances below: its world counts the calls.\<close>

definition sample_env :: "nat serve_env" where
  "sample_env = \<lparr>g_call = (\<lambda>x b n. (Inr (Result (zero_fields\<lparr>ok := True, api_version := 2, closed := (x = 3),
        status := 2, affected := ''0'', insert_id := ''0'',
        rows := Some [[Some ''37'', Some ''3131'']]\<rparr>) None), Suc n)),
     g_abort = (\<lambda>_ n. n), g_err = (\<lambda>_. None),
     g_monitor = (\<lambda>_. \<lparr>m_chunks = [], m_end = err_timeout, reader_first = False\<rparr>),
     a_begin = (\<lambda>n. (True, n)), a_idle = (\<lambda>_ n. n), a_cleanup = (\<lambda>n. n), s_closing = (\<lambda>n. (False, n)),
     ready_version = 0, ready_ops = [], rand_read = Inr (replicate 20 0)\<rparr>"


text \<open>
  C11. Serving a connection ends: a client can only ask for so much. Every round of the command loop
  uses at least five bytes of the client's input, so five times the fuel above what the client sends
  is enough, and then more fuel changes nothing.
\<close>

theorem serve_terminates:
  assumes "length (read_ahead w @ w_in w) < 5 * fuel"
  shows "\<exists>r. serve fuel env w g = Some r \<and> (\<forall>k. serve (fuel + k) env w g = Some r)"
  using serve_fuel [of w fuel env g] assms by (simp add: stream_def)

theorem serve_terminates_witness:
  "\<exists>r. \<forall>k. serve (1 + k) sample_env \<lparr>w_in = [1, 2, 3], w_end = err_eof, w_out = [], w_accept = [],
      sequence = 0, read_ahead = [4]\<rparr> 0 = Some r"
  using serve_terminates [of "\<lparr>w_in = [1, 2, 3], w_end = err_eof, w_out = [], w_accept = [],
      sequence = 0, read_ahead = [4]\<rparr>" 1 sample_env 0] by auto

text \<open>
  No invented packets: SEND_LONG_DATA, and CLOSE where prepared statements are supported, write
  nothing to the client, not even when the guest or the session fails, so the next command's reply
  cannot be mistaken for theirs.
\<close>

lemma no_reply_on_wire:
  assumes "serve_command env request sv = (oc, sv')"
    and "request ! 0 = 24 \<or> (request ! 0 = 25 \<and> sv_statements sv \<noteq> None)"
  shows "w_out (sv_wire sv') = w_out (sv_wire sv)"
proof -
  obtain d sv1 where d: "dispatch env (request ! 0) (drop 1 request) sv = (d, sv1)" by fastforce
  have out: "w_out (sv_wire sv1) = w_out (sv_wire sv)"
    using dispatch_wire [OF d] by (simp add: wire_at_def)
  let ?so = "map_option (\<lambda>s. s\<lparr>ps_status := sv_status sv\<rparr>) (sv_statements sv)"
  obtain r so' w' g' where h: "handle_prepared (request ! 0) (drop 1 request) (prepared_guest env) ?so
      (sv_wire sv, sv_world sv) = (r, so', (w', g'))" by (metis surj_pair)
  have "d = (case r of Inl e \<Rightarrow> Failed e | Inr bs \<Rightarrow> Replies bs)"
    using d assms(2) h by (auto simp: dispatch_def dispatch_prepared_def Let_def)
  moreover have "bs = []" if "r = Inr bs" for bs
    using no_reply_packets [OF h [unfolded that]] assms(2) by (auto simp: pp_ops)
  ultimately have "(\<exists>e. d = Failed e) \<or> d = Replies []" by (cases r) auto
  with assms d out show ?thesis
    by (auto simp: serve_command_def fail_command_def command_failure_def send_replies_def split: option.splits)
qed

lemma no_reply_on_wire_example:
  "\<exists>oc sv'. serve_command sample_env [25, 1]
      \<lparr>sv_wire = \<lparr>w_in = [], w_end = err_eof, w_out = [7], w_accept = [], sequence = 1, read_ahead = []\<rparr>,
       sv_world = 0, sv_opened = True, sv_status = 2, sv_statements = Some sample_session\<rparr> = (oc, sv') \<and>
    w_out (sv_wire sv') = [7]"
proof -
  let ?sv = "\<lparr>sv_wire = \<lparr>w_in = [], w_end = err_eof, w_out = [7], w_accept = [], sequence = 1, read_ahead = []\<rparr>,
       sv_world = 0, sv_opened = True, sv_status = 2, sv_statements = Some sample_session\<rparr>"
  obtain oc sv' where run: "serve_command sample_env [25, 1] ?sv = (oc, sv')" by fastforce
  from no_reply_on_wire [OF run] have "w_out (sv_wire sv') = [7]" by simp
  with run show ?thesis by blast
qed

text \<open>
  Commands and replies stay in step: when a round of the loop goes on to the next command, what
  it wrote is exactly one sequence of packets numbered from 1, which the client can parse, and it
  consumed the command it answered.
\<close>

lemma round_replies_in_step:
  assumes "serve_round env sv = (Continue, sv')"
  shows "\<exists>bs sent. w_out (sv_wire sv') = w_out (sv_wire sv) @ sent \<and>
    (\<forall>rest. parse_frames (length bs) 1 (sent @ rest) = Some (bs, rest)) \<and>
    length (read_ahead (sv_wire sv') @ w_in (sv_wire sv')) + 5
      \<le> length (read_ahead (sv_wire sv) @ w_in (sv_wire sv))"
proof -
  let ?w = "(sv_wire sv)\<lparr>sequence := 0\<rparr>"
  obtain sv1 request ad where c: "serve_command env request sv1 = (Continue, sv')"
    and r: "wire_read True (Some ad) ?w = (Inr request, sv_wire sv1)"
    using assms unfolding serve_round_def Let_def
    by (fastforce split: prod.splits bool.splits sum.splits)
  have s1: "sequence (sv_wire sv1) = 1" "w_out (sv_wire sv1) = w_out (sv_wire sv)"
    using wire_read_Inr [OF r] wire_read_frame [OF r] by simp_all
  obtain bs w1 where w1: "sequence w1 = 1" "w_out w1 = w_out (sv_wire sv)" "send_all bs w1 = (None, sv_wire sv')"
    using serve_command_Continue [OF c] s1 by auto
  note sent = send_all_None [OF w1(3)]
  have "w_out (sv_wire sv') = w_out (sv_wire sv) @ frames 1 bs" using sent w1 by simp
  moreover have "\<forall>rest. parse_frames (length bs) 1 (frames 1 bs @ rest) = Some (bs, rest)"
    using sent parse_frames_frames by blast
  ultimately show ?thesis
    using serve_round_shrinks [OF assms] unfolding stream_def by blast
qed

lemma round_replies_in_step_example:
  "\<exists>sv'. serve_round sample_env
      \<lparr>sv_wire = \<lparr>w_in = [1, 0, 0, 0, 14], w_end = err_eof, w_out = [7], w_accept = [], sequence = 9, read_ahead = []\<rparr>,
       sv_world = 0, sv_opened = True, sv_status = 2, sv_statements = None\<rparr> = (Continue, sv') \<and>
    (\<exists>bs. w_out (sv_wire sv') = [7] @ [7, 0, 0, 1, 0, 0, 0, 2, 0, 0, 0] \<and>
       parse_frames (length bs) 1 [7, 0, 0, 1, 0, 0, 0, 2, 0, 0, 0] = Some (bs, []))"
proof -
  let ?sv = "\<lparr>sv_wire = \<lparr>w_in = [1, 0, 0, 0, 14], w_end = err_eof, w_out = [7], w_accept = [], sequence = 9, read_ahead = []\<rparr>,
       sv_world = 0, sv_opened = True, sv_status = 2, sv_statements = None\<rparr>"
  let ?w0 = "\<lparr>w_in = [1, 0, 0, 0, 14], w_end = err_eof, w_out = [7], w_accept = [], sequence = 0, read_ahead = []\<rparr>"
  let ?w1 = "\<lparr>w_in = [], w_end = err_eof, w_out = [7], w_accept = [], sequence = 1, read_ahead = []\<rparr>"
  have env: "g_err sample_env n = None" "a_idle sample_env st n = n" "s_closing sample_env n = (False, n)"
    "a_begin sample_env n = (True, n)" for n st
    by (simp_all add: sample_env_def)
  have rd: "wire_read True (Some True) ?w0 = (Inr [14], ?w1)"
    by (simp add: wire_read_def read_full_def conn_read_full_def max_command_payload_def Let_def)
  have pk: "ok_packet 2 0 0 0 = [0, 0, 0, 2, 0, 0, 0]"
    by (simp add: ok_packet_def leint_def put_le_2)
  have snd: "wire_send [0, 0, 0, 2, 0, 0, 0] ?w1 = (None, ?w1\<lparr>w_out := [7] @ [7, 0, 0, 1, 0, 0, 0, 2, 0, 0, 0], sequence := 2\<rparr>)"
    by (simp add: wire_send_def max_packet_def frame_bytes_def put_le_3 send_loop.simps [of _ "\<lparr>w_in = x, w_end = y, w_out = z, w_accept = [], sequence = n, read_ahead = r\<rparr>" for x y z n r])
  have cmd: "serve_command sample_env [14] (?sv\<lparr>sv_wire := ?w1\<rparr>) = (Continue,
      ?sv\<lparr>sv_wire := ?w1\<lparr>w_out := [7] @ [7, 0, 0, 1, 0, 0, 0, 2, 0, 0, 0], sequence := 2\<rparr>\<rparr>)"
    using snd by (simp add: serve_command_def dispatch_def send_replies_def pk env)
  have "\<exists>sv'. serve_round sample_env ?sv = (Continue, sv') \<and> w_out (sv_wire sv') = [7] @ [7, 0, 0, 1, 0, 0, 0, 2, 0, 0, 0]"
    using rd cmd by (simp add: serve_round_def stream_def Let_def env)
  then obtain sv' where run: "serve_round sample_env ?sv = (Continue, sv')"
    and out: "w_out (sv_wire sv') = [7] @ [7, 0, 0, 1, 0, 0, 0, 2, 0, 0, 0]" by blast
  from round_replies_in_step [OF run] obtain bs sent where
    "w_out (sv_wire sv') = [7] @ sent" "parse_frames (length bs) 1 (sent @ []) = Some (bs, [])"
    by (metis append_Nil2 server.select_convs(1) wire.select_convs(3))
  then have "parse_frames (length bs) 1 [7, 0, 0, 1, 0, 0, 0, 2, 0, 0, 0] = Some (bs, [])"
    using out by simp
  with run out show ?thesis by blast
qed

end
