(* ===== verification/Disposal.thy ===== *)
theory Disposal
  imports GoError
begin

text \<open>
  \<open>internal/disposal\<close>: ownership of unfinished cleanup, carried next to an operation's error. An
  owner runs its cleanup under a gate, one attempt at a time, so an attempt is atomic here; the
  store lists the owners in the order they were created, and an owner is its position. The cleanup
  of an owner made by \<open>after\<close> first retries the owners its cause retains and then runs a callback;
  the callbacks are a parameter \<open>run\<close>, which is told whether the context is canceled.
\<close>

definition err_pending :: goerr where "err_pending = Sentinel ''disposal is not yet complete''"

record owner =
  o_done :: bool
  o_dep :: "goerr option"
  o_run :: nat
  o_continue :: bool

type_synonym 'w cleanup = "bool \<Rightarrow> nat \<Rightarrow> 'w \<Rightarrow> goerr option \<times> 'w"
type_synonym 'w owners = "owner list \<times> 'w"

section \<open>Owners of an error\<close>

text \<open>
  \<open>Owners\<close>: the owners of the \<open>pending\<close> errors reached through wrappers and joins, each once, in
  order of first visit. A \<open>pending\<close> error is not descended into.
\<close>

fun visit :: "goerr \<Rightarrow> nat list \<Rightarrow> nat list" and visit_list :: "goerr list \<Rightarrow> nat list \<Rightarrow> nat list" where
  "visit (Sentinel _) acc = acc"
| "visit (Wrapped _ e _) acc = visit e acc"
| "visit (Joined es) acc = visit_list es acc"
| "visit (Pending _ _ n) acc = (if n \<in> set acc then acc else acc @ [n])"
| "visit (Diag _ _ e) acc = visit e acc"
| "visit_list [] acc = acc"
| "visit_list (e # es) acc = visit_list es (visit e acc)"

definition owners_of :: "goerr option \<Rightarrow> nat list" where
  "owners_of e = (case e of None \<Rightarrow> [] | Some x \<Rightarrow> visit x [])"

text \<open>What the traversal means: the set of retained owners.\<close>

fun retained :: "goerr \<Rightarrow> nat set" where
  "retained (Sentinel _) = {}"
| "retained (Wrapped _ e _) = retained e"
| "retained (Joined es) = (\<Union>e\<in>set es. retained e)"
| "retained (Pending _ _ n) = {n}"
| "retained (Diag _ _ e) = retained e"

lemma set_visit:
  "set (visit e acc) = set acc \<union> retained e"
  "set (visit_list es acc) = set acc \<union> (\<Union>e\<in>set es. retained e)"
  by (induction e acc and es acc rule: visit_visit_list.induct) auto

lemma distinct_visit:
  "distinct acc \<Longrightarrow> distinct (visit e acc)"
  "distinct acc \<Longrightarrow> distinct (visit_list es acc)"
  by (induction e acc and es acc rule: visit_visit_list.induct) auto

lemma set_owners_of: "set (owners_of e) = (case e of None \<Rightarrow> {} | Some x \<Rightarrow> retained x)"
  by (simp add: owners_of_def set_visit split: option.split)

lemma owners_of_None [simp]: "owners_of None = []"
  by (simp add: owners_of_def)

section \<open>Retrying\<close>

text \<open>
  \<open>Owner.Retry\<close> and the package's \<open>Retry\<close>. The recursion follows retained owners, which are always
  older than the owner that retains them; the fuel is the owner's own position plus one, and
  \<open>retry_owner_fuel\<close> shows that it never runs out.
\<close>

fun retry_owner :: "nat \<Rightarrow> 'w cleanup \<Rightarrow> bool \<Rightarrow> nat \<Rightarrow> 'w owners \<Rightarrow> goerr option \<times> 'w owners" where
  "retry_owner 0 run canceled i s = (Some err_pending, s)"
| "retry_owner (Suc f) run canceled i s =
     (if o_done (fst s ! i) then (None, s)
      else
        case foldl (\<lambda>(acc, s1) j. case retry_owner f run canceled j s1 of (r, s2) \<Rightarrow> (err_join [acc, r], s2))
               (None, s) (owners_of (o_dep (fst s ! i))) of
          (Some e, s1) \<Rightarrow> (Some e, s1)
        | (None, (os, w)) \<Rightarrow>
            (case run canceled (o_run (os ! i)) w of
               (Some e, w') \<Rightarrow> (Some e, (os, w'))
             | (None, w') \<Rightarrow> (None, (os[i := (os ! i)\<lparr>o_done := True\<rparr>], w'))))"

definition retry_at :: "'w cleanup \<Rightarrow> bool \<Rightarrow> nat \<Rightarrow> 'w owners \<Rightarrow> goerr option \<times> 'w owners" where
  "retry_at run canceled i s = retry_owner (Suc i) run canceled i s"

fun retry_list :: "'w cleanup \<Rightarrow> bool \<Rightarrow> goerr option \<Rightarrow> nat list \<Rightarrow> 'w owners \<Rightarrow> goerr option \<times> 'w owners" where
  "retry_list run canceled acc [] s = (acc, s)"
| "retry_list run canceled acc (j # js) s =
     (case retry_at run canceled j s of (r, s') \<Rightarrow> retry_list run canceled (err_join [acc, r]) js s')"

definition retry :: "'w cleanup \<Rightarrow> bool \<Rightarrow> goerr option \<Rightarrow> 'w owners \<Rightarrow> goerr option \<times> 'w owners" where
  "retry run canceled e s = retry_list run canceled None (owners_of e) s"

definition probe :: "'w cleanup \<Rightarrow> nat \<Rightarrow> 'w owners \<Rightarrow> goerr option \<times> 'w owners" where
  "probe run i s =
     (case retry_at run True i s of
        (Some e, s') \<Rightarrow> (Some (if err_is e err_canceled then err_pending else e), s')
      | (None, s') \<Rightarrow> (None, s'))"

definition retain :: "goerr option \<Rightarrow> goerr \<Rightarrow> nat \<Rightarrow> owner list \<Rightarrow> goerr \<times> owner list" where
  "retain cause e i os = (Pending cause e i, os[i := (os ! i)\<lparr>o_continue := True\<rparr>])"

text \<open>
  The continuation \<open>Continue\<close> starts: one attempt with a live context, at some later moment.
\<close>

definition continue_owner :: "'w cleanup \<Rightarrow> nat \<Rightarrow> 'w owners \<Rightarrow> 'w owners" where
  "continue_owner run i s =
     (if o_continue (fst s ! i)
      then snd (retry_at run False i (fst s, snd s))
      else s)"

definition after :: "'w cleanup \<Rightarrow> goerr option \<Rightarrow> nat \<Rightarrow> bool \<Rightarrow> 'w owners \<Rightarrow> goerr option \<times> 'w owners" where
  "after run cause k keep_cause s =
     (let i = length (fst s);
          s1 = (fst s @ [\<lparr>o_done = False, o_dep = cause, o_run = k, o_continue = False\<rparr>], snd s);
          reported = (if keep_cause then cause else None) in
      case probe run i s1 of
        (Some e, (os, w)) \<Rightarrow> (case retain reported e i os of (e', os') \<Rightarrow> (Some e', (os', w)))
      | (None, s2) \<Rightarrow> (reported, s2))"

definition after_cause :: "'w cleanup \<Rightarrow> goerr option \<Rightarrow> nat \<Rightarrow> 'w owners \<Rightarrow> goerr option \<times> 'w owners" where
  "after_cause run cause k s = after run cause k True s"

definition cleanup_after :: "'w cleanup \<Rightarrow> goerr option \<Rightarrow> nat \<Rightarrow> 'w owners \<Rightarrow> goerr option \<times> 'w owners" where
  "cleanup_after run dep k s = after run dep k False s"

text \<open>\<open>Wait\<close>: completion is preferred to the context's error; \<open>None\<close> stands for still waiting.\<close>

definition wait_joined :: "bool \<Rightarrow> goerr option \<Rightarrow> goerr option option" where
  "wait_joined joined ctx_err = (if joined then Some None else map_option Some ctx_err)"

section \<open>The store invariant\<close>

text \<open>
  An owner retains only older owners, and a finished owner's retained owners are finished: cleanup
  happened in dependency order.
\<close>

definition deps :: "owner list \<Rightarrow> nat \<Rightarrow> nat list" where
  "deps os i = owners_of (o_dep (os ! i))"

definition store_inv :: "owner list \<Rightarrow> bool" where
  "store_inv os \<longleftrightarrow> (\<forall>i<length os. \<forall>j\<in>set (deps os i). j < i \<and> (o_done (os ! i) \<longrightarrow> o_done (os ! j)))"

text \<open>What an attempt may do to the store: finish owners, and nothing else.\<close>

definition advances :: "owner list \<Rightarrow> owner list \<Rightarrow> bool" where
  "advances os os' \<longleftrightarrow> length os' = length os \<and> (\<forall>i<length os. (os' ! i)\<lparr>o_done := False\<rparr> = (os ! i)\<lparr>o_done := False\<rparr> \<and>
     (o_done (os ! i) \<longrightarrow> o_done (os' ! i)))"

lemma advances_refl [simp]: "advances os os"
  by (simp add: advances_def)

lemma advances_trans: "advances a b \<Longrightarrow> advances b c \<Longrightarrow> advances a c"
  by (simp add: advances_def)

lemma advances_length: "advances os os' \<Longrightarrow> length os' = length os"
  by (simp add: advances_def)

lemma advances_finish: "i < length os \<Longrightarrow> advances os (os[i := (os ! i)\<lparr>o_done := True\<rparr>])"
  by (auto simp: advances_def nth_list_update)

lemma advances_deps: "advances os os' \<Longrightarrow> i < length os \<Longrightarrow> deps os' i = deps os i \<and> o_run (os' ! i) = o_run (os ! i)"
proof -
  assume a: "advances os os'" "i < length os"
  then have "(os' ! i)\<lparr>o_done := False\<rparr> = (os ! i)\<lparr>o_done := False\<rparr>" by (simp add: advances_def)
  from arg_cong [OF this, of o_dep] arg_cong [OF this, of o_run] show ?thesis by (simp add: deps_def)
qed

text \<open>The contract of one attempt, by induction on the fuel.\<close>

definition attempt_ok :: "nat \<Rightarrow> 'w owners \<Rightarrow> goerr option \<times> 'w owners \<Rightarrow> bool" where
  "attempt_ok i s res \<longleftrightarrow> store_inv (fst (snd res)) \<and> advances (fst s) (fst (snd res)) \<and>
     (fst res = None \<longleftrightarrow> o_done (fst (snd res) ! i)) \<and>
     (\<forall>k<length (fst s). i < k \<longrightarrow> fst (snd res) ! k = fst s ! k)"

lemma fold_attempts:
  assumes step: "\<And>j s. j \<in> set js \<Longrightarrow> store_inv (fst s) \<Longrightarrow> length (fst s) = n \<Longrightarrow> attempt_ok j s (f j s)"
    and js: "\<And>j. j \<in> set js \<Longrightarrow> j < i" and i: "i < n"
    and s: "store_inv (fst s)" "length (fst s) = n"
    and run: "foldl (\<lambda>(acc, s1) j. case f j s1 of (r, s2) \<Rightarrow> (err_join [acc, r], s2)) (acc, s) js = (r', s')"
  shows "store_inv (fst s') \<and> advances (fst s) (fst s') \<and>
    (r' = None \<longrightarrow> acc = None \<and> (\<forall>j\<in>set js. o_done (fst s' ! j))) \<and>
    (acc \<noteq> None \<longrightarrow> r' \<noteq> None) \<and> (\<forall>k<n. i \<le> k \<longrightarrow> fst s' ! k = fst s ! k)"
  using assms
proof (induction js arbitrary: acc s)
  case Nil
  then show ?case by simp
next
  case (Cons j js)
  obtain r1 s1 where f: "f j s = (r1, s1)" by (cases "f j s")
  have ok: "attempt_ok j s (r1, s1)" using Cons.prems(1) [of j s] Cons.prems(4,5) f by simp
  then have s1: "store_inv (fst s1)" "advances (fst s) (fst s1)" "length (fst s1) = n"
    "r1 = None \<longleftrightarrow> o_done (fst s1 ! j)" "\<forall>k<n. j < k \<longrightarrow> fst s1 ! k = fst s ! k"
    using Cons.prems(5) by (auto simp: attempt_ok_def advances_def)
  have ji: "j < i" "j < n" using Cons.prems(2) [of j] Cons.prems(3) by auto
  have "foldl (\<lambda>(acc, s1) j. case f j s1 of (r, s2) \<Rightarrow> (err_join [acc, r], s2)) (err_join [acc, r1], s1) js = (r', s')"
    using Cons.prems(6) f by simp
  from Cons.IH [OF _ _ Cons.prems(3) s1(1,3) this]
  have ih: "store_inv (fst s') \<and> advances (fst s1) (fst s') \<and>
    (r' = None \<longrightarrow> err_join [acc, r1] = None \<and> (\<forall>j\<in>set js. o_done (fst s' ! j))) \<and>
    (err_join [acc, r1] \<noteq> None \<longrightarrow> r' \<noteq> None) \<and> (\<forall>k<n. i \<le> k \<longrightarrow> fst s' ! k = fst s1 ! k)"
    using Cons.prems(1,2) by auto
  have mono: "o_done (fst s1 ! j) \<longrightarrow> o_done (fst s' ! j)"
    using ih ji s1(3) by (auto simp: advances_def)
  have adv: "advances (fst s) (fst s')" using ih s1(2) advances_trans by blast
  show ?case
    using ih mono adv s1(4,5) ji by auto
qed

lemma store_inv_finish:
  assumes "store_inv os" and "i < length os" and "\<forall>j\<in>set (deps os i). o_done (os ! j)"
  shows "store_inv (os[i := (os ! i)\<lparr>o_done := True\<rparr>])"
  using assms by (auto simp: store_inv_def deps_def nth_list_update)

lemma retry_owner_ok:
  "i < f \<Longrightarrow> i < length (fst s) \<Longrightarrow> store_inv (fst s) \<Longrightarrow> attempt_ok i s (retry_owner f run c i s)"
proof (induction f arbitrary: i s)
  case 0
  then show ?case by simp
next
  case (Suc f)
  let ?n = "length (fst s)"
  show ?case
  proof (cases "o_done (fst s ! i)")
    case True
    with Suc.prems show ?thesis by (simp add: attempt_ok_def)
  next
    case False
    obtain r os w where fold: "foldl (\<lambda>(acc, s1) j. case retry_owner f run c j s1 of (r, s2) \<Rightarrow> (err_join [acc, r], s2))
        (None, s) (owners_of (o_dep (fst s ! i))) = (r, (os, w))"
      by (metis surj_pair)
    have dj: "j < i" if "j \<in> set (owners_of (o_dep (fst s ! i)))" for j
      using Suc.prems(2,3) that by (auto simp: store_inv_def deps_def)
    have st: "attempt_ok j s1 (retry_owner f run c j s1)"
      if "j \<in> set (owners_of (o_dep (fst s ! i)))" "store_inv (fst s1)" "length (fst s1) = ?n" for j s1
      using Suc.IH [of j s1] dj [OF that(1)] that Suc.prems(1,2) by simp
    have o: "store_inv os \<and> advances (fst s) os \<and>
        (r = None \<longrightarrow> (\<forall>j\<in>set (owners_of (o_dep (fst s ! i))). o_done (os ! j))) \<and>
        (\<forall>k<?n. i \<le> k \<longrightarrow> os ! k = fst s ! k)"
      using fold_attempts [of "owners_of (o_dep (fst s ! i))" ?n "\<lambda>j s1. retry_owner f run c j s1" i s None r "(os, w)",
          OF st dj Suc.prems(2,3) refl fold]
      unfolding fst_conv by blast
    have os1: "store_inv os" "advances (fst s) os" and same: "\<forall>k<?n. i \<le> k \<longrightarrow> os ! k = fst s ! k"
      using o by blast+
    have os2: "length os = ?n" by (rule advances_length [OF os1(2)])
    have os3: "os ! i = fst s ! i" using same Suc.prems(2) by blast
    have os4: "\<forall>k<?n. i < k \<longrightarrow> os ! k = fst s ! k" using same by (meson less_imp_le)
    note os = os1 os2 os3 os4
    show ?thesis
    proof (cases r)
      case (Some e)
      then show ?thesis using False os by (simp add: fold attempt_ok_def)
    next
      case None
      then have d: "\<forall>j\<in>set (deps os i). o_done (os ! j)" using o os(4) by (simp add: deps_def)
      obtain r2 w2 where run: "run c (o_run (os ! i)) w = (r2, w2)" by fastforce
      have fin: "store_inv (os[i := (os ! i)\<lparr>o_done := True\<rparr>])"
        "advances (fst s) (os[i := (os ! i)\<lparr>o_done := True\<rparr>])"
        using store_inv_finish [OF os(1) _ d] advances_trans [OF os(2) advances_finish] Suc.prems(2) os(3) by auto
      show ?thesis
      proof (cases r2)
        case (Some e)
        then show ?thesis using False os None run by (simp add: fold attempt_ok_def)
      next
        case None2: None
        then show ?thesis using False os None run fin Suc.prems(2) by (simp add: fold attempt_ok_def)
      qed
    qed
  qed
qed

lemma retry_owner_two_fuels:
  "i < f \<Longrightarrow> i < g \<Longrightarrow> i < length (fst s) \<Longrightarrow> store_inv (fst s) \<Longrightarrow>
     retry_owner f run c i s = retry_owner g run c i s"
proof (induction f arbitrary: g i s)
  case 0
  then show ?case by simp
next
  case (Suc f)
  obtain h where g: "g = Suc h" using Suc.prems(2) by (cases g) auto
  let ?js = "owners_of (o_dep (fst s ! i))" and ?n = "length (fst s)"
  have dj: "j < i" if "j \<in> set ?js" for j
    using Suc.prems(3,4) that by (auto simp: store_inv_def deps_def)
  have loop: "foldl (\<lambda>(acc, s1) j. case retry_owner f run c j s1 of (r, s2) \<Rightarrow> (err_join [acc, r], s2)) (a, s1) js
      = foldl (\<lambda>(acc, s1) j. case retry_owner h run c j s1 of (r, s2) \<Rightarrow> (err_join [acc, r], s2)) (a, s1) js"
    if "set js \<subseteq> set ?js" "store_inv (fst s1)" "length (fst s1) = ?n" for js a s1
    using that
  proof (induction js arbitrary: a s1)
    case Nil
    then show ?case by simp
  next
    case (Cons j js)
    have j: "j < f" "j < h" "j < length (fst s1)"
      using dj [of j] Cons.prems Suc.prems(1-3) by (auto simp: g)
    have eq: "retry_owner f run c j s1 = retry_owner h run c j s1"
      using Suc.IH [OF j Cons.prems(2)] .
    obtain r2 s2 where r: "retry_owner h run c j s1 = (r2, s2)" by (cases "retry_owner h run c j s1")
    have "attempt_ok j s1 (r2, s2)"
      using retry_owner_ok [OF j(2,3) Cons.prems(2), of run c] by (simp add: r)
    then have "store_inv (fst s2)" "length (fst s2) = ?n"
      using Cons.prems(3) by (auto simp: attempt_ok_def advances_def)
    with Cons.IH [of s2] Cons.prems(1) eq r show ?case by simp
  qed
  show ?case
    using loop [of ?js s None] Suc.prems(4) by (simp add: g)
qed

lemma retry_owner_fuel:
  "i < f \<Longrightarrow> i < length (fst s) \<Longrightarrow> store_inv (fst s) \<Longrightarrow> retry_owner f run c i s = retry_at run c i s"
  unfolding retry_at_def by (rule retry_owner_two_fuels) simp_all

lemma retry_at_ok: "i < length (fst s) \<Longrightarrow> store_inv (fst s) \<Longrightarrow> attempt_ok i s (retry_at run c i s)"
  unfolding retry_at_def by (rule retry_owner_ok) simp_all

lemma retry_at_done: "o_done (fst s ! i) \<Longrightarrow> retry_at run c i s = (None, s)"
  by (simp add: retry_at_def)

lemma retry_list_ok:
  assumes "store_inv (fst s)" and "\<forall>j\<in>set js. j < length (fst s)" and "retry_list run c acc js s = (r, s')"
  shows "store_inv (fst s') \<and> advances (fst s) (fst s') \<and>
    (r = None \<longrightarrow> acc = None \<and> (\<forall>j\<in>set js. o_done (fst s' ! j)))"
  using assms
proof (induction js arbitrary: acc s)
  case Nil
  then show ?case by simp
next
  case (Cons j js)
  obtain r1 s1 where f: "retry_at run c j s = (r1, s1)" by (cases "retry_at run c j s")
  have ok: "attempt_ok j s (r1, s1)" using retry_at_ok [of j s run c] Cons.prems(1,2) f by simp
  then have s1: "store_inv (fst s1)" "advances (fst s) (fst s1)" "r1 = None \<longleftrightarrow> o_done (fst s1 ! j)"
    by (auto simp: attempt_ok_def)
  have len: "length (fst s1) = length (fst s)" by (rule advances_length [OF s1(2)])
  have "retry_list run c (err_join [acc, r1]) js s1 = (r, s')" using Cons.prems(3) f by simp
  from Cons.IH [OF s1(1) _ this] Cons.prems(2) len
  have ih: "store_inv (fst s')" "advances (fst s1) (fst s')"
    "r = None \<longrightarrow> err_join [acc, r1] = None \<and> (\<forall>j\<in>set js. o_done (fst s' ! j))" by auto
  have "o_done (fst s1 ! j) \<longrightarrow> o_done (fst s' ! j)"
    using ih(2) Cons.prems(2) len by (auto simp: advances_def)
  then show ?case
    using ih s1 advances_trans [OF s1(2) ih(2)] by auto
qed

lemma store_inv_append:
  assumes "store_inv os" and "\<forall>j\<in>set (owners_of cause). j < length os"
  shows "store_inv (os @ [\<lparr>o_done = False, o_dep = cause, o_run = k, o_continue = b\<rparr>])"
  using assms by (fastforce simp: store_inv_def deps_def nth_append less_Suc_eq)

lemma store_inv_continue:
  assumes "store_inv os"
  shows "store_inv (os[i := (os ! i)\<lparr>o_continue := True\<rparr>])"
proof (cases "i < length os")
  case True
  with assms show ?thesis by (auto simp: store_inv_def deps_def nth_list_update)
next
  case False
  with assms show ?thesis by (simp add: list_update_beyond)
qed

section \<open>Properties\<close>

lemma retry_once:
  assumes "store_inv os" and "i < length os" and "retry_at run c i (os, w) = (r, (os', w'))"
  shows "store_inv os' \<and> length os' = length os \<and> (\<forall>j<length os. o_done (os ! j) \<longrightarrow> o_done (os' ! j)) \<and>
    (r = None \<longleftrightarrow> o_done (os' ! i)) \<and> (o_done (os ! i) \<longrightarrow> os' = os \<and> w' = w)"
proof -
  have ok: "attempt_ok i (os, w) (r, (os', w'))"
    using retry_at_ok [of i "(os, w)" run c] assms by simp
  moreover have "o_done (os ! i) \<longrightarrow> os' = os \<and> w' = w" using assms(3) retry_at_done [of "(os, w)" i run c] by auto
  ultimately show ?thesis by (auto simp: attempt_ok_def advances_def)
qed

subsection \<open>The record of a store\<close>

text \<open>
  Callbacks that note in the world that they ran, and whether they succeeded. A run of a store makes
  owners, for causes that retain only owners that exist, retries them with a live or a cancelled
  context, and lets their continuations run. The callback of an owner is named by the owner's place.
\<close>

definition noting :: "'w cleanup \<Rightarrow> ('w \<times> (nat \<times> bool) list) cleanup" where
  "noting run c k x = (case run c k (fst x) of (e, w) \<Rightarrow> (e, (w, snd x @ [(k, e = None)])))"

datatype disposal_op = MakeOwner "goerr option" bool | Attempt bool nat | Continuation nat

definition disposal_step ::
  "'w cleanup \<Rightarrow> ('w \<times> (nat \<times> bool) list) owners \<Rightarrow> disposal_op \<Rightarrow> ('w \<times> (nat \<times> bool) list) owners" where
  "disposal_step run s op =
     (case op of
        MakeOwner cause keep \<Rightarrow>
          if list_all (\<lambda>j. j < length (fst s)) (owners_of cause) then snd (after (noting run) cause (length (fst s)) keep s) else s
      | Attempt c i \<Rightarrow> if i < length (fst s) then snd (retry_at (noting run) c i s) else s
      | Continuation i \<Rightarrow> if i < length (fst s) then continue_owner (noting run) i s else s)"

definition notes_ok :: "owner list \<Rightarrow> (nat \<times> bool) list \<Rightarrow> bool" where
  "notes_ok os journal \<longleftrightarrow> (\<forall>i<length os. o_run (os ! i) = i \<and> (o_done (os ! i) \<longleftrightarrow> (i, True) \<in> set journal)) \<and>
     (\<forall>n<length journal. fst (journal ! n) < length os \<and> (fst (journal ! n), True) \<notin> set (take n journal) \<and>
        (\<forall>j\<in>set (deps os (fst (journal ! n))). (j, True) \<in> set (take n journal)))"

definition store_ok :: "('w \<times> (nat \<times> bool) list) owners \<Rightarrow> bool" where
  "store_ok s \<longleftrightarrow> store_inv (fst s) \<and> notes_ok (fst s) (snd (snd s))"

lemma notes_ok_append:
  assumes n: "notes_ok os journal" and i: "i < length os" "\<not> o_done (os ! i)" and d: "\<forall>j\<in>set (deps os i). j < length os \<and> o_done (os ! j)"
  shows "notes_ok (if e then os[i := (os ! i)\<lparr>o_done := True\<rparr>] else os) (journal @ [(i, e)])"
proof -
  let ?os = "if e then os[i := (os ! i)\<lparr>o_done := True\<rparr>] else os"
  have dep: "deps ?os k = deps os k" if "k < length os" for k
    using that by (cases "k = i") (auto simp: deps_def)
  have "o_run (?os ! k) = k \<and> (o_done (?os ! k) \<longleftrightarrow> (k, True) \<in> set (journal @ [(i, e)]))" if "k < length ?os" for k
    using that n i by (cases e; cases "k = i") (auto simp: notes_ok_def)
  moreover have "fst ((journal @ [(i, e)]) ! m) < length ?os \<and> (fst ((journal @ [(i, e)]) ! m), True) \<notin> set (take m (journal @ [(i, e)])) \<and>
      (\<forall>j\<in>set (deps ?os (fst ((journal @ [(i, e)]) ! m))). (j, True) \<in> set (take m (journal @ [(i, e)])))"
    if "m < length (journal @ [(i, e)])" for m
  proof (cases "m = length journal")
    case True
    then show ?thesis using n i d dep [OF i(1)] by (auto simp: notes_ok_def)
  next
    case False
    then have m: "m < length journal" using that by simp
    then have o: "fst (journal ! m) < length os \<and> (fst (journal ! m), True) \<notin> set (take m journal) \<and>
        (\<forall>j\<in>set (deps os (fst (journal ! m))). (j, True) \<in> set (take m journal))" using n by (simp add: notes_ok_def)
    then show ?thesis using m dep [of "fst (journal ! m)"] by (simp add: nth_append)
  qed
  ultimately show ?thesis unfolding notes_ok_def by blast
qed

lemma retry_owner_notes:
  "i < f \<Longrightarrow> i < length (fst s) \<Longrightarrow> store_ok s \<Longrightarrow> store_ok (snd (retry_owner f (noting run) c i s))"
proof (induction f arbitrary: i s)
  case 0
  then show ?case by simp
next
  case (Suc f)
  let ?n = "length (fst s)" and ?js = "owners_of (o_dep (fst s ! i))"
  let ?step = "\<lambda>(acc, s1) j. case retry_owner f (noting run) c j s1 of (r, s2) \<Rightarrow> (err_join [acc, r], s2)"
  show ?case
  proof (cases "o_done (fst s ! i)")
    case True
    with Suc.prems show ?thesis by simp
  next
    case False
    have inv: "store_inv (fst s)" using Suc.prems(3) by (simp add: store_ok_def)
    have dj: "j < i" if "j \<in> set ?js" for j
      using Suc.prems(2) inv that by (auto simp: store_inv_def deps_def)
    have loop: "store_ok (snd (foldl ?step (a, s1) js)) \<and> length (fst (snd (foldl ?step (a, s1) js))) = ?n"
      if "set js \<subseteq> set ?js" "store_ok s1" "length (fst s1) = ?n" for js a s1
      using that
    proof (induction js arbitrary: a s1)
      case Nil
      then show ?case by simp
    next
      case (Cons j js)
      have j: "j < f" "j < length (fst s1)" using dj [of j] Cons.prems Suc.prems(1,2) by auto
      obtain r2 s2 where r: "retry_owner f (noting run) c j s1 = (r2, s2)" by (cases "retry_owner f (noting run) c j s1")
      have "attempt_ok j s1 (r2, s2)"
        using retry_owner_ok [OF j, of "noting run" c] Cons.prems(2) by (simp add: store_ok_def r)
      then have "length (fst s2) = ?n" using Cons.prems(3) by (auto simp: attempt_ok_def advances_def)
      moreover have "store_ok s2" using Suc.IH [OF j Cons.prems(2)] by (simp add: r)
      ultimately show ?case using Cons.IH [of s2] Cons.prems(1) by (simp add: r)
    qed
    obtain r os w journal where fold: "foldl ?step (None, s) ?js = (r, (os, (w, journal)))" by (metis surj_pair)
    have o: "store_ok (os, (w, journal))" "length os = ?n" using loop [of ?js s None] Suc.prems(3) fold by simp_all
    have st: "attempt_ok j s1 (retry_owner f (noting run) c j s1)"
      if "j \<in> set ?js" "store_inv (fst s1)" "length (fst s1) = ?n" for j s1
      using retry_owner_ok [of j f s1 "noting run" c] dj [OF that(1)] that Suc.prems(1,2) by simp
    have fa: "(r = None \<longrightarrow> (\<forall>j\<in>set ?js. o_done (os ! j))) \<and> (\<forall>k<?n. i \<le> k \<longrightarrow> os ! k = fst s ! k)"
      using fold_attempts [of ?js ?n "\<lambda>j s1. retry_owner f (noting run) c j s1" i s None r "(os, (w, journal))",
          OF st dj Suc.prems(2) inv refl fold] unfolding fst_conv by blast
    then have same: "os ! i = fst s ! i" using Suc.prems(2) by blast
    show ?thesis
    proof (cases r)
      case (Some e)
      then show ?thesis using False o by (simp add: fold)
    next
      case None
      then have d: "\<forall>j\<in>set (deps os i). j < length os \<and> o_done (os ! j)"
        using fa dj same o(2) Suc.prems(2) by (fastforce simp: deps_def)
      have run_i: "o_run (os ! i) = i" using o Suc.prems(2) by (simp add: store_ok_def notes_ok_def)
      obtain e w' where e: "run c i w = (e, w')" by fastforce
      have n: "noting run c i (w, journal) = (e, (w', journal @ [(i, e = None)]))" by (simp add: noting_def e)
      have ok: "notes_ok (if e = None then os[i := (os ! i)\<lparr>o_done := True\<rparr>] else os) (journal @ [(i, e = None)])"
        using notes_ok_append [of os journal i "e = None"] o d False same Suc.prems(2) by (simp add: store_ok_def)
      have inv': "store_inv os" "store_inv (os[i := (os ! i)\<lparr>o_done := True\<rparr>])"
        using o d Suc.prems(2) store_inv_finish [of os i] by (auto simp: store_ok_def)
      have "snd (retry_owner (Suc f) (noting run) c i s) =
          (if e = None then os[i := (os ! i)\<lparr>o_done := True\<rparr>] else os, (w', journal @ [(i, e = None)]))"
        using False None by (cases e) (simp_all add: fold run_i n)
      then show ?thesis using ok inv' by (cases e) (simp_all add: store_ok_def)
    qed
  qed
qed

lemma retry_at_notes: "i < length (fst s) \<Longrightarrow> store_ok s \<Longrightarrow> store_ok (snd (retry_at (noting run) c i s))"
  unfolding retry_at_def by (rule retry_owner_notes) simp_all

lemma notes_continue: "notes_ok os journal \<Longrightarrow> i < length os \<Longrightarrow> notes_ok (os[i := (os ! i)\<lparr>o_continue := True\<rparr>]) journal"
proof -
  assume n: "notes_ok os journal" and i: "i < length os"
  have "deps (os[i := (os ! i)\<lparr>o_continue := True\<rparr>]) k = deps os k" if "k < length os" for k
    using that by (cases "k = i") (auto simp: deps_def)
  then show ?thesis using n i by (auto simp: notes_ok_def nth_list_update)
qed

lemma disposal_step_ok: "store_ok s \<Longrightarrow> store_ok (disposal_step run s op)"
proof (cases op)
  case (MakeOwner cause keep)
  assume s: "store_ok s"
  show ?thesis
  proof (cases "list_all (\<lambda>j. j < length (fst s)) (owners_of cause)")
    case True
    let ?i = "length (fst s)"
    let ?o = "\<lparr>o_done = False, o_dep = cause, o_run = ?i, o_continue = False\<rparr>"
    let ?s = "(fst s @ [?o], snd s)"
    have dep: "deps (fst s @ [?o]) k = deps (fst s) k" if "k < ?i" for k using that by (simp add: deps_def nth_append)
    have no: "(?i, True) \<notin> set (snd (snd s))" using s by (auto simp: store_ok_def notes_ok_def in_set_conv_nth)
    have "notes_ok (fst s @ [?o]) (snd (snd s))"
      using s no dep by (auto simp: store_ok_def notes_ok_def nth_append less_Suc_eq)
    then have "store_ok ?s" using s True store_inv_append [of "fst s" cause ?i False] by (simp add: store_ok_def list_all_iff)
    then have p: "store_ok (snd (retry_at (noting run) True ?i ?s))" by (rule retry_at_notes [rotated]) simp
    have len: "length (fst (snd (retry_at (noting run) True ?i ?s))) = Suc ?i"
      using retry_at_ok [of ?i ?s "noting run" True] \<open>store_ok ?s\<close> by (auto simp: attempt_ok_def advances_def store_ok_def)
    obtain r os w journal where q: "retry_at (noting run) True ?i ?s = (r, (os, (w, journal)))" by (metis surj_pair)
    have "snd (after (noting run) cause ?i keep s) = (if r = None then os else os[?i := (os ! ?i)\<lparr>o_continue := True\<rparr>], (w, journal))"
      by (cases r) (simp_all add: after_def probe_def q retain_def Let_def)
    then show ?thesis using p len q True
      by (auto simp: disposal_step_def MakeOwner store_ok_def intro: notes_continue store_inv_continue)
  qed (use s in \<open>simp add: disposal_step_def MakeOwner\<close>)
qed (auto simp: disposal_step_def continue_owner_def intro: retry_at_notes)

interpretation disposal_machine: inv_machine "disposal_step run" store_ok for run :: "'w cleanup"
  by unfold_locales (rule disposal_step_ok)

text \<open>
  C12. Disposal happens once and in dependency order. Over any run of a store, a cleanup runs only when
  every cleanup it depends on has run with success before, and never after it has itself run with success;
  an owner is finished exactly when its cleanup has; an attempt reports success exactly when its owner is then
  finished, and an attempt at a finished owner does nothing.
\<close>

theorem disposal_in_order:
  assumes "foldl (disposal_step run) ([], (w0, [])) ops = (os, (w, journal))"
  shows "(\<forall>n<length journal. (\<forall>j\<in>set (owners_of (o_dep (os ! fst (journal ! n)))). (j, True) \<in> set (take n journal)) \<and>
      (fst (journal ! n), True) \<notin> set (take n journal)) \<and>
    (\<forall>i<length os. (o_done (os ! i) \<longleftrightarrow> (i, True) \<in> set journal) \<and>
      (\<forall>c. case retry_at (noting run) c i (os, (w, journal)) of (r, (os', x)) \<Rightarrow>
        (r = None \<longleftrightarrow> o_done (os' ! i)) \<and> (o_done (os ! i) \<longrightarrow> os' = os \<and> x = (w, journal))))"
proof -
  have "store_ok ([], (w0, []))" by (simp add: store_ok_def store_inv_def notes_ok_def)
  then have ok: "store_ok (os, (w, journal))" using disposal_machine.run_inv [of "([], (w0, []))" run ops] assms by simp
  then have "(r = None \<longleftrightarrow> o_done (os' ! i)) \<and> (o_done (os ! i) \<longrightarrow> os' = os \<and> x = (w, journal))"
    if "i < length os" "retry_at (noting run) c i (os, (w, journal)) = (r, (os', x))" for i c r os' x
    using retry_once [OF _ that] by (simp add: store_ok_def)
  then show ?thesis using ok by (fastforce simp: store_ok_def notes_ok_def deps_def split: prod.split)
qed

theorem disposal_in_order_witness:
  "\<exists>os w. foldl (disposal_step (\<lambda>c k w. (if k = 0 \<and> c then Some err_canceled else None, w))) ([], ((), []))
       [MakeOwner None True, MakeOwner (Some (Pending None err_pending 0)) True, Attempt False 1] =
         (os, (w, [(0, False), (0, False), (0, True), (1, True)])) \<and>
     (0, True) \<in> set (take 3 [(0 :: nat, False), (0, False), (0, True), (1, True)])"
proof -
  let ?run = "\<lambda>c k w. (if k = 0 \<and> c then Some err_canceled else None, w :: unit)"
  let ?ops = "[MakeOwner None True, MakeOwner (Some (Pending None err_pending 0)) True, Attempt False 1]"
  obtain os w journal where run: "foldl (disposal_step ?run) ([], ((), [])) ?ops = (os, (w, journal))" by (metis surj_pair)
  have val: "snd (snd (foldl (disposal_step ?run) ([], ((), [])) ?ops)) = [(0, False), (0, False), (0, True), (1, True)] \<and>
      o_dep (fst (foldl (disposal_step ?run) ([], ((), [])) ?ops) ! 1) = Some (Pending None err_pending 0)"
    by code_simp
  then have n: "journal = [(0, False), (0, False), (0, True), (1, True)]" "o_dep (os ! 1) = Some (Pending None err_pending 0)"
    using val unfolding run by simp_all
  have "(0, True) \<in> set (take 3 journal)"
    using disposal_in_order [OF run] n by (auto simp: owners_of_def dest!: spec [of _ 3])
  then show ?thesis using run n by auto
qed

text \<open>
  C13. \<open>After\<close> neither loses an error nor an owner: if the cleanup finished, the result is the cause
  itself; otherwise it is an error through which \<open>errors.Is\<close> still finds everything it finds in the
  cause, and whose only retained owner is the new one, which will go on and still depends on the
  cause's owners.
\<close>

theorem after_keeps_cause_and_owner:
  assumes inv: "store_inv os" and dep: "\<forall>j\<in>set (owners_of cause). j < length os"
    and run: "after_cause run cause k (os, w) = (r, (os', w'))"
  shows "store_inv os' \<and> length os' = Suc (length os) \<and> deps os' (length os) = owners_of cause \<and>
    (\<forall>c t. cause = Some c \<longrightarrow> err_is c t \<longrightarrow> (\<exists>e. r = Some e \<and> err_is e t)) \<and>
    (o_done (os' ! length os) \<and> r = cause \<or>
     \<not> o_done (os' ! length os) \<and> owners_of r = [length os] \<and> o_continue (os' ! length os))"
proof -
  let ?i = "length os"
  let ?os1 = "os @ [\<lparr>o_done = False, o_dep = cause, o_run = k, o_continue = False\<rparr>]"
  have i1: "store_inv ?os1" using store_inv_append [OF inv dep] .
  obtain r1 os2 w2 where a: "retry_at run True ?i (?os1, w) = (r1, (os2, w2))" by (metis surj_pair)
  have ok: "attempt_ok ?i (?os1, w) (r1, (os2, w2))" using retry_at_ok [of ?i "(?os1, w)" run True] i1 a by simp
  then have o: "store_inv os2" "advances ?os1 os2" "r1 = None \<longleftrightarrow> o_done (os2 ! ?i)" by (auto simp: attempt_ok_def)
  have len: "length os2 = Suc ?i" using advances_length [OF o(2)] by simp
  have d2: "deps os2 ?i = owners_of cause" using advances_deps [OF o(2), of ?i] by (simp add: deps_def)
  show ?thesis
  proof (cases r1)
    case None
    then have "r = cause" "os' = os2" using run a by (auto simp: after_cause_def after_def probe_def Let_def)
    with None o len d2 show ?thesis by auto
  next
    case (Some e)
    let ?e = "if err_is e err_canceled then err_pending else e"
    have r: "r = Some (Pending cause ?e ?i)" "os' = os2[?i := (os2 ! ?i)\<lparr>o_continue := True\<rparr>]"
      using run a Some by (auto simp: after_cause_def after_def probe_def retain_def Let_def)
    have "\<not> o_done (os' ! ?i)" "o_continue (os' ! ?i)" "deps os' ?i = owners_of cause"
      using o(3) Some len d2 by (simp_all add: r deps_def)
    with store_inv_continue [OF o(1)] len show ?thesis
      by (auto simp: r owners_of_def)
  qed
qed

theorem after_keeps_cause_and_owner_witness:
  "\<exists>os' w'. after_cause (\<lambda>c k n. (if c then Some err_canceled else None, Suc n)) (Some err_deadline) 5 ([], 0 :: nat)
      = (Some (Pending (Some err_deadline) err_pending 0), (os', w')) \<and> \<not> o_done (os' ! 0) \<and> o_continue (os' ! 0)"
proof -
  let ?run = "\<lambda>c k n. (if c then Some err_canceled else None, Suc n)"
  have "\<exists>os' w'. after_cause ?run (Some err_deadline) 5 ([], 0 :: nat) = (Some (Pending (Some err_deadline) err_pending 0), (os', w'))"
    by (simp add: after_cause_def after_def probe_def retry_at_def retain_def owners_of_def err_deadline_def Let_def)
  then obtain os' w' where run: "after_cause ?run (Some err_deadline) 5 ([], 0 :: nat)
      = (Some (Pending (Some err_deadline) err_pending 0), (os', w'))" by blast
  have "store_inv []" by (simp add: store_inv_def)
  from after_keeps_cause_and_owner [OF this _ run] have "\<not> o_done (os' ! 0) \<and> o_continue (os' ! 0)"
    by (simp add: owners_of_def err_deadline_def)
  with run show ?thesis by blast
qed

end
