(* ===== verification/ForkPool.thy ===== *)
theory ForkPool
  imports Prelude Disposal
begin

text \<open>
  The admission pool of \<open>internal/forklimit/pool.go\<close>. Every method runs under the pool's mutex, so a
  method is one step. A lease is its creation number; the fields of a \<open>Lease\<close> are read only while it
  is in the pool and live there. \<open>version\<close> counts the replacements of the \<open>changed\<close> channel: a waiter
  that saw version \<open>v\<close> wakes when the version is no longer \<open>v\<close>. The goroutines of \<open>TrackCleanup\<close> are
  the list \<open>watching\<close> of a lease with the owners it waits for. The order in which Go iterates over
  the lease map, which is unspecified, is the order of creation.
\<close>

definition err_closed :: goerr where "err_closed = Sentinel ''snapshot is closed''"
definition err_full :: goerr where "err_full = Sentinel ''snapshot Fork capacity is full''"
definition err_cleanup :: goerr where
  "err_cleanup = Sentinel ''snapshot admission stopped after uncertain cleanup''"
definition err_lease :: goerr where "err_lease = Sentinel ''Fork reservation is no longer available''"

lemmas pool_errors = err_closed_def err_full_def err_cleanup_def err_lease_def

record lease =
  l_active :: bool
  l_debt :: "goerr option"
  l_tracking :: bool

record pool =
  limit :: nat
  p_closed :: bool
  blocked :: bool
  p_cause :: "goerr option"
  version :: nat
  leases :: "(nat \<times> lease) list"
  fresh :: nat
  watching :: "(nat \<times> nat list) list"

definition max_forks :: nat where "max_forks = 2147483647"

definition new_pool :: "int \<Rightarrow> goerr + pool" where
  "new_pool n =
     (if n < 1 \<or> int max_forks < n then Inl (Sentinel ''max_forks must be between 1 and 2147483647'')
      else Inr \<lparr>limit = nat n, p_closed = False, blocked = False, p_cause = None, version = 0,
                leases = [], fresh = 0, watching = []\<rparr>)"

definition usage :: "pool \<Rightarrow> nat \<times> nat" where "usage p = (limit p, length (leases p))"

definition describe :: "pool \<Rightarrow> goerr option \<Rightarrow> goerr option" where
  "describe p e =
     (case e of
        None \<Rightarrow> None
      | Some x \<Rightarrow>
          let action = (if \<not> err_is x err_cleanup \<and>
                (err_is x err_full \<or> err_is x err_canceled \<or> err_is x err_deadline)
              then ''; close owned children or increase max_forks'' else []) in
          Some (Wrapped [] x ('' (max_forks='' @ itoa (fst (usage p)) @ '', occupied_slots=''
            @ itoa (snd (usage p)) @ action @ '')'')))"

definition signal :: "pool \<Rightarrow> pool" where "signal p = p\<lparr>version := Suc (version p)\<rparr>"

definition find_lease :: "pool \<Rightarrow> nat \<Rightarrow> lease option" where "find_lease p l = map_of (leases p) l"

definition drop_lease :: "nat \<Rightarrow> pool \<Rightarrow> pool" where
  "drop_lease l p = p\<lparr>leases := filter (\<lambda>(k, _). k \<noteq> l) (leases p)\<rparr>"

definition change_lease :: "nat \<Rightarrow> (lease \<Rightarrow> lease) \<Rightarrow> pool \<Rightarrow> pool" where
  "change_lease l f p = p\<lparr>leases := map (\<lambda>(k, x). (k, if k = l then f x else x)) (leases p)\<rparr>"

definition pool_debt :: "pool \<Rightarrow> goerr option" where
  "pool_debt p = foldl (\<lambda>d (_, x). err_join [d, l_debt x]) None (leases p)"

definition acquire_locked :: "bool \<Rightarrow> pool \<Rightarrow> (goerr + nat) \<times> pool" where
  "acquire_locked recover p =
     (if p_closed p then (Inl err_closed, p)
      else if blocked p \<and> (\<not> recover \<or> pool_debt p \<noteq> None)
      then (Inl (the (err_join [Some err_cleanup, p_cause p, pool_debt p])), p)
      else if limit p \<le> length (leases p) then (Inl err_full, p)
      else (Inr (fresh p),
            p\<lparr>blocked := False, p_cause := None, fresh := Suc (fresh p),
              leases := leases p @ [(fresh p, \<lparr>l_active = False, l_debt = None, l_tracking = False\<rparr>)]\<rparr>))"

definition settle :: "nat \<Rightarrow> goerr option \<Rightarrow> pool \<Rightarrow> pool" where
  "settle l cleanup p =
     (if find_lease p l = None then p
      else case cleanup of
        None \<Rightarrow> signal (drop_lease l p)
      | Some e \<Rightarrow>
          signal ((change_lease l (\<lambda>x. x\<lparr>l_active := True, l_debt := (if l_debt x = None then Some e else l_debt x)\<rparr>) p)
            \<lparr>p_cause := (if blocked p then p_cause p else Some e), blocked := True\<rparr>))"

definition try_acquire :: "bool \<Rightarrow> pool \<Rightarrow> (goerr + nat) \<times> pool" where
  "try_acquire recover p = acquire_locked recover p"

text \<open>
  One round of \<open>Acquire\<close>'s loop, given the context's error before and after the attempt. \<open>Waiting\<close>
  carries the version whose channel the round then waits on.
\<close>

datatype acquired = Got nat | Refused goerr | Waiting nat

definition acquire_once :: "goerr option \<Rightarrow> goerr option \<Rightarrow> pool \<Rightarrow> acquired \<times> pool" where
  "acquire_once before now p =
     (case before of
        Some e \<Rightarrow> (Refused e, p)
      | None \<Rightarrow>
          (case acquire_locked False p of
             (Inr l, p') \<Rightarrow>
               (case now of Some e \<Rightarrow> (Refused e, settle l None p') | None \<Rightarrow> (Got l, p'))
           | (Inl e, p') \<Rightarrow> if e \<noteq> err_full then (Refused e, p') else (Waiting (version p), p')))"

definition close_pool :: "pool \<Rightarrow> pool" where
  "close_pool p =
     (if p_closed p then p
      else signal (p\<lparr>p_closed := True, leases := filter (\<lambda>(_, x). l_active x) (leases p)\<rparr>))"

definition activate :: "nat \<Rightarrow> pool \<Rightarrow> goerr option \<times> pool" where
  "activate l p =
     (if p_closed p then (Some err_closed, p)
      else case find_lease p l of
        None \<Rightarrow> (Some err_lease, p)
      | Some x \<Rightarrow>
          if l_active x then (Some err_lease, p)
          else if blocked p then (err_join [Some err_cleanup, p_cause p], p)
          else (None, change_lease l (\<lambda>x. x\<lparr>l_active := True\<rparr>) p))"

definition cancel :: "nat \<Rightarrow> pool \<Rightarrow> pool" where
  "cancel l p =
     (case find_lease p l of
        Some x \<Rightarrow> if \<not> l_active x then signal (drop_lease l p) else p
      | None \<Rightarrow> p)"

definition track_cleanup :: "nat \<Rightarrow> goerr option \<Rightarrow> pool \<Rightarrow> pool" where
  "track_cleanup l cause p =
     (case cause of
        None \<Rightarrow> settle l None p
      | Some e \<Rightarrow>
          (case find_lease p l of
             None \<Rightarrow> p
           | Some x \<Rightarrow>
               if l_tracking x then p
               else
                 let p' = signal ((change_lease l (\<lambda>x. x\<lparr>l_tracking := True, l_active := True,
                         l_debt := (if l_debt x = None then Some e else l_debt x)\<rparr>) p)
                       \<lparr>p_cause := (if blocked p then p_cause p else Some e), blocked := True\<rparr>);
                     os = owners_of cause in
                 if os = [] then p' else p'\<lparr>watching := watching p' @ [(l, os)]\<rparr>))"

text \<open>The watcher goroutine of a lease, once every owner it waits for is done.\<close>

definition watcher_done :: "nat \<Rightarrow> nat list \<Rightarrow> nat set \<Rightarrow> pool \<Rightarrow> pool" where
  "watcher_done l os finished p =
     (if (l, os) \<in> set (watching p) \<and> set os \<subseteq> finished
      then settle l None (p\<lparr>watching := remove1 (l, os) (watching p)\<rparr>) else p)"

section \<open>Runs\<close>

datatype pool_op =
    Try bool
  | Acquire "goerr option" "goerr option"
  | Close
  | Activate nat
  | Cancel nat
  | Settle nat "goerr option"
  | Track nat "goerr option"
  | Watched nat "nat list" "nat set"

fun pool_step :: "pool \<Rightarrow> pool_op \<Rightarrow> pool" where
  "pool_step p (Try recover) = snd (try_acquire recover p)"
| "pool_step p (Acquire before now) = snd (acquire_once before now p)"
| "pool_step p Close = close_pool p"
| "pool_step p (Activate l) = snd (activate l p)"
| "pool_step p (Cancel l) = cancel l p"
| "pool_step p (Settle l e) = settle l e p"
| "pool_step p (Track l e) = track_cleanup l e p"
| "pool_step p (Watched l os finished) = watcher_done l os finished p"

section \<open>The invariant\<close>

text \<open>
  Leases are distinct and were handed out; the limit holds; a closed pool has active leases only; an
  unresolved debt blocks admission; and a blocked pool knows why.
\<close>

definition pool_inv :: "pool \<Rightarrow> bool" where
  "pool_inv p \<longleftrightarrow> 1 \<le> limit p \<and> distinct (map fst (leases p)) \<and> (\<forall>(l, x)\<in>set (leases p). l < fresh p) \<and>
     length (leases p) \<le> limit p \<and> (p_closed p \<longrightarrow> (\<forall>(l, x)\<in>set (leases p). l_active x)) \<and>
     (\<forall>(l, x)\<in>set (leases p). l_debt x \<noteq> None \<longrightarrow> blocked p \<and> l_active x) \<and>
     (blocked p \<longrightarrow> p_cause p \<noteq> None)"

lemma new_pool_inv: "new_pool n = Inr p \<Longrightarrow> pool_inv p"
  by (auto simp: new_pool_def pool_inv_def split: if_splits)

lemma pool_inv_signal [simp]: "pool_inv (signal p) = pool_inv p"
  by (simp add: pool_inv_def signal_def)

lemma pool_inv_watching [simp]: "pool_inv (p\<lparr>watching := w\<rparr>) = pool_inv p"
  by (simp add: pool_inv_def)

lemma fst_change [simp]: "map fst (leases (change_lease l f p)) = map fst (leases p)"
  by (auto simp: change_lease_def)

lemma pool_inv_drop: "pool_inv p \<Longrightarrow> pool_inv (drop_lease l p)"
  by (auto simp: pool_inv_def drop_lease_def distinct_map_filter intro: order_trans [OF length_filter_le])

lemma debt_fold: "foldl (\<lambda>d (_, x). err_join [d, l_debt x]) d ls = None \<longleftrightarrow>
    d = None \<and> (\<forall>(l, x)\<in>set ls. l_debt x = None)"
  by (induction ls arbitrary: d) auto

lemma pool_debt_None: "pool_debt p = None \<longleftrightarrow> (\<forall>(l, x)\<in>set (leases p). l_debt x = None)"
  by (simp add: pool_debt_def debt_fold)

lemma acquire_locked_inv: "pool_inv p \<Longrightarrow> acquire_locked recover p = (r, p') \<Longrightarrow> pool_inv p'"
  by (fastforce simp: acquire_locked_def pool_inv_def pool_debt_None split: if_splits)

lemma settle_inv: "pool_inv p \<Longrightarrow> pool_inv (settle l e p)"
  by (auto simp: settle_def pool_inv_drop split: option.split)
     (auto simp: pool_inv_def change_lease_def comp_def case_prod_unfold)

lemma acquire_once_inv: "pool_inv p \<Longrightarrow> acquire_once b n p = (r, p') \<Longrightarrow> pool_inv p'"
  by (auto simp: acquire_once_def settle_inv split: option.splits sum.splits prod.splits if_splits
      dest: acquire_locked_inv)

lemma close_inv: "pool_inv p \<Longrightarrow> pool_inv (close_pool p)"
  unfolding close_pool_def
  by (simp, auto simp: pool_inv_def distinct_map_filter intro: order_trans [OF length_filter_le])

lemma activate_inv: "pool_inv p \<Longrightarrow> activate l p = (r, p') \<Longrightarrow> pool_inv p'"
  by (auto simp: activate_def pool_inv_def change_lease_def comp_def case_prod_unfold
      split: if_splits option.splits) fastforce+

lemma cancel_inv: "pool_inv p \<Longrightarrow> pool_inv (cancel l p)"
  by (auto simp: cancel_def pool_inv_drop split: option.split)

lemma track_inv: "pool_inv p \<Longrightarrow> pool_inv (track_cleanup l e p)"
  by (auto simp: track_cleanup_def settle_inv Let_def split: option.split)
     (auto simp: pool_inv_def change_lease_def comp_def case_prod_unfold)

lemma pool_step_inv: "pool_inv p \<Longrightarrow> pool_inv (pool_step p x)"
  by (cases x) (auto simp: try_acquire_def watcher_done_def settle_inv cancel_inv track_inv close_inv
      intro: acquire_locked_inv acquire_once_inv activate_inv prod.collapse [symmetric])

interpretation pool_machine: inv_machine pool_step pool_inv
  by unfold_locales (rule pool_step_inv)

lemma version_simps [frame_simps]:
  "version (drop_lease l p) = version p" "version (change_lease l f p) = version p"
  "version (signal p) = Suc (version p)"
  by (simp_all add: drop_lease_def change_lease_def signal_def)

lemma acquire_locked_version: "acquire_locked r p = (x, p') \<Longrightarrow> version p' = version p"
  by (auto simp: acquire_locked_def split: if_splits)

lemma settle_version: "version (settle l e p) = (if find_lease p l = None then version p else Suc (version p))"
  by (auto simp: settle_def frame_simps split: option.split)

interpretation pool_versions: mono_machine pool_step version
proof
  fix p x
  show "version p \<le> version (pool_step p x)"
  proof (cases x)
    case (Try r)
    then show ?thesis using acquire_locked_version [of r p] by (cases "acquire_locked r p") (simp add: try_acquire_def)
  next
    case (Acquire b n)
    then show ?thesis
      by (auto simp: acquire_once_def settle_version split: option.split sum.split prod.split dest: acquire_locked_version)
  next
    case Close
    then show ?thesis by (simp add: close_pool_def signal_def)
  next
    case (Activate l)
    then show ?thesis by (simp add: activate_def frame_simps split: option.split)
  next
    case (Cancel l)
    then show ?thesis by (simp add: cancel_def frame_simps split: option.split)
  next
    case (Settle l e)
    then show ?thesis by (simp add: settle_version)
  next
    case (Track l e)
    then show ?thesis
      by (simp add: track_cleanup_def settle_version Let_def split: option.split) (simp add: signal_def change_lease_def)
  next
    case (Watched l os f)
    then show ?thesis by (simp add: watcher_done_def settle_version)
  qed
qed

section \<open>Leases over a step\<close>

lemma find_signal [simp]: "find_lease (signal p) = find_lease p"
  by (simp add: find_lease_def signal_def fun_eq_iff)

lemma find_frame [simp]:
  "find_lease (p\<lparr>watching := w\<rparr>) = find_lease p" "find_lease (p\<lparr>p_cause := c\<rparr>) = find_lease p"
  "find_lease (p\<lparr>blocked := b\<rparr>) = find_lease p" "find_lease (p\<lparr>p_cause := c, blocked := b\<rparr>) = find_lease p"
  by (simp_all add: find_lease_def fun_eq_iff)

lemma find_drop: "find_lease (drop_lease k p) l = (if l = k then None else find_lease p l)"
proof -
  have "map_of (filter (\<lambda>(k', _). k' \<noteq> k) ls) l = (if l = k then None else map_of ls l)" for ls :: "(nat \<times> lease) list"
    by (induction ls) auto
  then show ?thesis by (simp add: find_lease_def drop_lease_def)
qed

lemma find_change: "find_lease (change_lease k f p) l =
    (if l = k then map_option f (find_lease p l) else find_lease p l)"
proof -
  have "map_of (map (\<lambda>(k', x). (k', if k' = k then f x else x)) ls) l =
      (if l = k then map_option f (map_of ls l) else map_of ls l)" for ls
    by (induction ls) auto
  then show ?thesis by (simp add: find_lease_def change_lease_def)
qed

lemma find_settle: "find_lease (settle k e p) l =
    (if l \<noteq> k then find_lease p l
     else case e of None \<Rightarrow> None
     | Some d \<Rightarrow> map_option (\<lambda>x. x\<lparr>l_active := True, l_debt := (if l_debt x = None then Some d else l_debt x)\<rparr>)
         (find_lease p l))"
  by (auto simp: settle_def find_drop find_change split: option.split)

lemma find_acquire: "find_lease p l = Some x \<Longrightarrow> acquire_locked r p = (y, p') \<Longrightarrow> find_lease p' l = Some x"
  by (auto simp: acquire_locked_def find_lease_def split: if_splits)

lemma find_fresh: "pool_inv p \<Longrightarrow> find_lease p l = Some x \<Longrightarrow> l < fresh p"
  by (auto simp: pool_inv_def find_lease_def dest: map_of_SomeD)

lemma find_close:
  assumes "pool_inv p" and "find_lease p l = Some x" and "l_active x"
  shows "find_lease (close_pool p) l = Some x"
proof -
  have d: "distinct (map fst (leases p))" using assms(1) by (simp add: pool_inv_def)
  have "(l, x) \<in> set (filter (\<lambda>(_, x). l_active x) (leases p))"
    using assms(2,3) by (auto simp: find_lease_def dest: map_of_SomeD)
  then have "map_of (filter (\<lambda>(_, x). l_active x) (leases p)) l = Some x"
    using d by (simp add: distinct_map_filter)
  then show ?thesis using assms(2) by (simp add: close_pool_def) (simp add: find_lease_def)
qed

text \<open>
  The operations that stand for confirmed disposal of a lease: it is settled without an error, or a
  watch of it ends with all its owners finished.
\<close>

fun confirms :: "pool \<Rightarrow> nat \<Rightarrow> pool_op \<Rightarrow> bool" where
  "confirms p l (Settle k None) \<longleftrightarrow> k = l"
| "confirms p l (Track k None) \<longleftrightarrow> k = l"
| "confirms p l (Watched k os finished) \<longleftrightarrow> k = l \<and> (l, os) \<in> set (watching p) \<and> set os \<subseteq> finished"
| "confirms p l _ \<longleftrightarrow> False"

definition keeps_lease :: "lease \<Rightarrow> lease \<Rightarrow> bool" where
  "keeps_lease x x' \<longleftrightarrow> l_active x' \<and> (l_debt x \<noteq> None \<longrightarrow> l_debt x' = l_debt x)"

lemma step_keeps_active:
  assumes inv: "pool_inv p" and l: "find_lease p l = Some x" "l_active x" and c: "\<not> confirms p l op"
  shows "\<exists>x'. find_lease (pool_step p op) l = Some x' \<and> keeps_lease x x'"
proof (cases op)
  case (Try r)
  obtain y p' where a: "acquire_locked r p = (y, p')" by fastforce
  show ?thesis using find_acquire [OF l(1) a] l(2) by (simp add: Try try_acquire_def a keeps_lease_def)
next
  case (Acquire b n)
  obtain y p' where a: "acquire_locked False p = (y, p')" by fastforce
  have y: "y = Inr k \<Longrightarrow> k \<noteq> l" for k
    using a find_fresh [OF inv l(1)] by (auto simp: acquire_locked_def split: if_splits)
  show ?thesis
    using find_acquire [OF l(1) a] l y
    by (auto simp: Acquire acquire_once_def a find_settle keeps_lease_def split: option.split sum.split)
next
  case Close
  then show ?thesis using find_close [OF inv l] l(2) by (simp add: keeps_lease_def)
next
  case (Activate k)
  then show ?thesis
    using l by (auto simp: activate_def find_change keeps_lease_def split: option.split)
next
  case (Cancel k)
  then show ?thesis using l by (auto simp: cancel_def find_drop keeps_lease_def split: option.split)
next
  case (Settle k e)
  show ?thesis
  proof (cases e)
    case None
    then show ?thesis using l c Settle by (auto simp: find_settle keeps_lease_def)
  next
    case (Some d)
    then show ?thesis using l Settle by (cases "k = l") (auto simp: find_settle keeps_lease_def)
  qed
next
  case (Track k e)
  show ?thesis
  proof (cases e)
    case None
    then show ?thesis using l c Track by (auto simp: track_cleanup_def find_settle keeps_lease_def)
  next
    case (Some d)
    then show ?thesis using l Track
      by (auto simp: track_cleanup_def find_change keeps_lease_def Let_def split: option.split)
  qed
next
  case (Watched k os f)
  then show ?thesis using l c by (auto simp: watcher_done_def find_settle keeps_lease_def)
qed

section \<open>Properties\<close>

text \<open>
  C14. Admission is sound: over any sequence of operations on a new pool the invariant holds; in
  particular no more than \<open>max_forks\<close> leases are ever out at once, reserved, active and uncertain
  ones together.
\<close>

theorem pool_never_over_limit:
  assumes "new_pool n = Inr p"
  shows "pool_inv (foldl pool_step p ops) \<and> snd (usage (foldl pool_step p ops)) \<le> nat n"
proof -
  have lim: "limit (pool_step q x) = limit q" for q x
    by (cases x) (auto simp: try_acquire_def acquire_once_def acquire_locked_def close_pool_def activate_def cancel_def
        settle_def track_cleanup_def watcher_done_def signal_def drop_lease_def change_lease_def Let_def
        split: option.split sum.split prod.split if_split)
  have "limit (foldl pool_step q xs) = limit q" for q xs
    by (induction xs arbitrary: q) (simp_all add: lim)
  moreover have "limit p = nat n" using assms by (auto simp: new_pool_def split: if_splits)
  moreover have "pool_inv (foldl pool_step p ops)"
    using pool_machine.run_inv [OF new_pool_inv [OF assms]] .
  ultimately show ?thesis by (auto simp: usage_def pool_inv_def)
qed

theorem pool_never_over_limit_witness:
  "\<exists>p. new_pool 1 = Inr p \<and> usage (foldl pool_step p [Try False, Activate 0, Try False]) = (1, 1) \<and>
     snd (usage (foldl pool_step p [Try False, Activate 0, Try False])) \<le> nat 1"
proof -
  define p where "p = \<lparr>limit = 1, p_closed = False, blocked = False, p_cause = None, version = 0,
                leases = [], fresh = 0, watching = []\<rparr>"
  have p: "new_pool 1 = Inr p" by (simp add: new_pool_def max_forks_def p_def)
  have "usage (foldl pool_step p [Try False, Activate 0, Try False]) = (1, 1)"
    by (simp add: p_def try_acquire_def acquire_locked_def activate_def find_lease_def change_lease_def usage_def)
  then show ?thesis using p pool_never_over_limit [OF p] by blast
qed

lemma active_until_confirmed:
  assumes "pool_inv p" and "find_lease p l = Some x" and "l_active x"
    and "\<forall>n<length ops. \<not> confirms (foldl pool_step p (take n ops)) l (ops ! n)"
  shows "\<exists>x'. find_lease (foldl pool_step p ops) l = Some x' \<and> keeps_lease x x'"
  using assms
proof (induction ops rule: rev_induct)
  case Nil
  then show ?case by (simp add: keeps_lease_def)
next
  case (snoc op ops)
  let ?q = "foldl pool_step p ops"
  have "\<forall>n<length ops. \<not> confirms (foldl pool_step p (take n ops)) l (ops ! n)"
  proof (intro allI impI)
    fix n assume "n < length ops"
    then show "\<not> confirms (foldl pool_step p (take n ops)) l (ops ! n)"
      using spec [OF snoc.prems(4), of n] by (simp add: nth_append)
  qed
  from snoc.IH [OF snoc.prems(1-3) this] obtain x1 where x1: "find_lease ?q l = Some x1" "keeps_lease x x1" by blast
  have "\<not> confirms ?q l op" using snoc.prems(4) by (auto dest: spec [of _ "length ops"])
  moreover have "l_active x1" using x1(2) by (simp add: keeps_lease_def)
  ultimately obtain x2 where "find_lease (pool_step ?q op) l = Some x2" "keeps_lease x1 x2"
    using step_keeps_active [OF pool_machine.run_inv [OF snoc.prems(1)] x1(1)] by blast
  then show ?case using x1(2) by (auto simp: keeps_lease_def)
qed

text \<open>A watch is of the owners of a tracked error.\<close>

lemma watches_step: "(l, os) \<in> set (watching (pool_step p op)) \<Longrightarrow>
    (l, os) \<in> set (watching p) \<or> (\<exists>e. op = Track l e \<and> os = owners_of e)"
proof (cases op)
  case (Watched k os' f)
  assume "(l, os) \<in> set (watching (pool_step p op))"
  then show ?thesis using Watched
    by (auto simp: watcher_done_def settle_def signal_def drop_lease_def change_lease_def split: if_splits option.splits dest: notin_set_remove1)
      (metis notin_set_remove1)+
qed (auto simp: try_acquire_def acquire_once_def acquire_locked_def close_pool_def activate_def cancel_def settle_def
    track_cleanup_def signal_def drop_lease_def change_lease_def Let_def split: option.splits sum.splits prod.splits if_splits)

lemma watches_run: "(l, os) \<in> set (watching (foldl pool_step p ops)) \<Longrightarrow>
    (l, os) \<in> set (watching p) \<or> (\<exists>m<length ops. \<exists>e. ops ! m = Track l e \<and> os = owners_of e)"
proof (induction ops rule: rev_induct)
  case Nil
  then show ?case by simp
next
  case (snoc op ops)
  then show ?case using watches_step [of l os "foldl pool_step p ops" op]
    by (auto simp: nth_append less_Suc_eq)
qed

text \<open>
  C15. Only confirmed disposal frees an activated child: whatever else happens to the pool, closing
  included, an active lease stays in it, stays active and keeps its first debt, until it is settled
  or tracked without an error, or a watch of it ends when all its owners have finished; and those are the
  owners that the error retains with which the lease was tracked.
\<close>

theorem only_confirmed_disposal_frees:
  assumes "pool_inv p" and "find_lease p l = Some x" and "l_active x"
    and "\<not> (\<exists>x'. find_lease (foldl pool_step p ops) l = Some x' \<and> l_active x' \<and> (l_debt x \<noteq> None \<longrightarrow> l_debt x' = l_debt x))"
  shows "\<exists>n<length ops. ops ! n = Settle l None \<or> ops ! n = Track l None \<or>
    (\<exists>os finished. ops ! n = Watched l os finished \<and> set os \<subseteq> finished \<and>
       ((l, os) \<in> set (watching p) \<or> (\<exists>m<n. \<exists>e. ops ! m = Track l e \<and> os = owners_of e)))"
proof -
  obtain n where n: "n < length ops" "confirms (foldl pool_step p (take n ops)) l (ops ! n)"
    using active_until_confirmed [OF assms(1-3), of ops] assms(4) by (auto simp: keeps_lease_def)
  have "(l, os) \<in> set (watching p) \<or> (\<exists>m<n. \<exists>e. ops ! m = Track l e \<and> os = owners_of e)"
    if "(l, os) \<in> set (watching (foldl pool_step p (take n ops)))" for os
    using watches_run [OF that] n(1) by auto
  then show ?thesis using n by (intro exI [of _ n]) (auto elim!: confirms.elims)
qed

text \<open>A pool with one active lease.\<close>

definition sample_pool :: pool where
  "sample_pool = \<lparr>limit = 1, p_closed = False, blocked = True, p_cause = Some err_deadline, version = 3,
     leases = [(0, \<lparr>l_active = True, l_debt = Some err_deadline, l_tracking = True\<rparr>)], fresh = 1,
     watching = [(0, [4])]\<rparr>"

lemma sample_pool_inv: "pool_inv sample_pool"
  by (simp add: pool_inv_def sample_pool_def)

theorem only_confirmed_disposal_frees_witness:
  "find_lease (foldl pool_step sample_pool [Cancel 0, Watched 0 [4] {3}, Watched 0 [4] {4}]) 0 = None \<and>
   (\<exists>n<3. \<exists>os finished. [Cancel 0, Watched 0 [4] {3}, Watched 0 [4] {4}] ! n = Watched 0 os finished \<and> set os \<subseteq> finished)"
proof -
  have f: "find_lease sample_pool 0 = Some \<lparr>l_active = True, l_debt = Some err_deadline, l_tracking = True\<rparr>"
    by (simp add: find_lease_def sample_pool_def)
  let ?ops = "[Cancel 0, Watched 0 [4] {3}, Watched 0 [4] {4}]"
  have g: "find_lease (foldl pool_step sample_pool ?ops) 0 = None" by code_simp
  obtain n where n: "n < length ?ops" "?ops ! n = Settle 0 None \<or> ?ops ! n = Track 0 None \<or>
      (\<exists>os finished. ?ops ! n = Watched 0 os finished \<and> set os \<subseteq> finished)"
    using only_confirmed_disposal_frees [OF sample_pool_inv f, of ?ops] g by auto
  then show ?thesis using g by (intro conjI exI [of _ n]) (auto simp: nth_Cons' split: if_splits)
qed

lemma debt_join_is:
  fixes ls :: "(nat \<times> lease) list"
  assumes "(l, x) \<in> set ls" and "l_debt x = Some d" and "err_is d t" and "\<nexists>xs. t = Joined xs"
  shows "\<exists>e. foldl (\<lambda>d (_, x). err_join [d, l_debt x]) d0 ls = Some e \<and> err_is e t"
proof -
  have keep: "\<exists>e. foldl (\<lambda>d (_, x). err_join [d, l_debt x]) (Some e0) ys = Some e \<and> err_is e t"
    if "err_is e0 t" for e0 and ys :: "(nat \<times> lease) list"
    using that
  proof (induction ys arbitrary: e0)
    case Nil
    then show ?case by simp
  next
    case (Cons y ys)
    obtain e1 where e1: "err_join [Some e0, l_debt (snd y)] = Some e1"
      by (cases "err_join [Some e0, l_debt (snd y)]") auto
    have "err_is e1 t" using err_join_is [OF e1] assms(4) Cons.prems by auto
    with Cons.IH [of e1] e1 show ?case by (cases y) auto
  qed
  obtain as bs where ls: "ls = as @ (l, x) # bs" using assms(1) by (auto dest: split_list)
  define d1 where "d1 = foldl (\<lambda>d (_, x). err_join [d, l_debt x]) d0 as"
  obtain e1 where e1: "err_join [d1, Some d] = Some e1" by (cases "err_join [d1, Some d]") auto
  have "err_is e1 t" using err_join_is [OF e1] assms(3,4) by auto
  from keep [OF this, of bs] show ?thesis by (simp add: ls d1_def [symmetric] assms(2) e1)
qed

lemma debt_refuses:
  assumes "pool_inv p" and "find_lease p l = Some x" and "l_debt x = Some d"
  shows "\<exists>e. acquire_locked recover p = (Inl e, p) \<and> fst (activate k p) \<noteq> None \<and> snd (activate k p) = p \<and>
    (\<not> p_closed p \<longrightarrow> (\<forall>t. (\<nexists>xs. t = Joined xs) \<longrightarrow> t = err_cleanup \<or> err_is d t \<longrightarrow> err_is e t))"
proof -
  have m: "(l, x) \<in> set (leases p)" using assms(2) by (auto simp: find_lease_def dest: map_of_SomeD)
  have all: "\<forall>(l, x)\<in>set (leases p). l_debt x \<noteq> None \<longrightarrow> blocked p \<and> l_active x"
    using assms(1) by (simp add: pool_inv_def)
  have b: "blocked p" using bspec [OF all m] assms(3) by simp
  have d: "pool_debt p \<noteq> None"
    unfolding pool_debt_None using m assms(3) by (intro notI) (drule bspec [OF _ m], simp)
  have act: "fst (activate k p) \<noteq> None \<and> snd (activate k p) = p"
    using b by (cases "find_lease p k") (simp_all add: activate_def del: not_None_eq)
  show ?thesis
  proof (cases "p_closed p")
    case True
    then show ?thesis using act by (simp add: acquire_locked_def)
  next
    case False
    obtain e where e: "err_join [Some err_cleanup, p_cause p, pool_debt p] = Some e"
      by (cases "err_join [Some err_cleanup, p_cause p, pool_debt p]") auto
    have acq: "acquire_locked recover p = (Inl e, p)" using False b d e by (simp add: acquire_locked_def)
    have "err_is e t" if t: "\<nexists>xs. t = Joined xs" "t = err_cleanup \<or> err_is d t" for t
    proof -
      have "err_is d t \<Longrightarrow> \<exists>e'. pool_debt p = Some e' \<and> err_is e' t"
        using debt_join_is [OF m assms(3) _ t(1), of None] by (simp add: pool_debt_def)
      then obtain x where "Some x \<in> set [Some err_cleanup, p_cause p, pool_debt p]" "err_is x t"
        using t(2) err_is_refl [of err_cleanup] by (metis list.set_intros(1,2))
      then show ?thesis using err_join_is [OF e t(1)] by blast
    qed
    with acq act show ?thesis by blast
  qed
qed

lemma blocked_frame [simp]:
  "blocked (signal p) = blocked p" "blocked (drop_lease l p) = blocked p" "blocked (change_lease l f p) = blocked p"
  by (simp_all add: signal_def drop_lease_def change_lease_def)

lemma blocked_settle: "blocked p \<Longrightarrow> blocked (settle l e p)"
  by (cases e) (simp_all add: settle_def)

lemma blocked_acquire: "blocked p \<Longrightarrow> \<exists>e. acquire_locked False p = (Inl e, p)"
  by (simp add: acquire_locked_def)

lemma blocked_track: "blocked p \<Longrightarrow> blocked (track_cleanup l e p)"
  by (cases e; cases "find_lease p l") (simp_all add: track_cleanup_def blocked_settle Let_def)

lemma blocked_activate: "blocked p \<Longrightarrow> snd (activate l p) = p"
  by (cases "find_lease p l") (simp_all add: activate_def)

lemma blocked_once: "blocked p \<Longrightarrow> snd (acquire_once b n p) = p"
  using blocked_acquire [of p] by (cases b) (auto simp: acquire_once_def)

lemma blocked_cancel: "blocked p \<Longrightarrow> blocked (cancel l p)"
  by (cases "find_lease p l") (simp_all add: cancel_def)

lemma blocked_step: "blocked p \<Longrightarrow> op \<noteq> Try True \<Longrightarrow> blocked (pool_step p op)"
proof (cases op)
  case (Try r)
  assume "blocked p" "op \<noteq> Try True"
  then show ?thesis using Try blocked_acquire [of p] by (auto simp: try_acquire_def)
qed (simp_all add: close_pool_def watcher_done_def blocked_settle blocked_track blocked_activate blocked_once blocked_cancel)

lemma blocked_run: "blocked p \<Longrightarrow> Try True \<notin> set ops \<Longrightarrow> blocked (foldl pool_step p ops)"
proof (induction ops rule: rev_induct)
  case Nil
  then show ?case by (simp only: foldl.simps)
next
  case (snoc op ops)
  have "blocked (foldl pool_step p ops)" and "op \<noteq> Try True" using snoc by auto
  from blocked_step [OF this] show ?case by (simp only: foldl_append foldl.simps)
qed

lemma blocked_refuses:
  assumes "blocked p"
  shows "\<exists>e. acquire_locked False p = (Inl e, p) \<and> (\<not> p_closed p \<longrightarrow> err_is e err_cleanup) \<and>
    fst (activate k p) \<noteq> None \<and> snd (activate k p) = p"
proof -
  obtain e where e: "err_join [Some err_cleanup, p_cause p, pool_debt p] = Some e"
    by (cases "err_join [Some err_cleanup, p_cause p, pool_debt p]") auto
  have "err_is e err_cleanup" using err_join_is [OF e, of err_cleanup] err_is_refl [of err_cleanup] by (auto simp: err_cleanup_def)
  moreover have "fst (activate k p) \<noteq> None" "snd (activate k p) = p"
    using assms by (cases "find_lease p k"; simp add: activate_def del: not_None_eq)+
  ultimately show ?thesis using assms e by (simp add: acquire_locked_def)
qed

text \<open>
  C16. Uncertain cleanup stops admission: once some lease has a debt, and whatever happens then but an
  explicit recovery, no acquisition and no activation succeeds, even when the debts are gone. A recovery is refused
  as long as one lease has a debt, with an error that names the stopped admission and every debt unless
  the pool is closed; without a debt it reopens an open pool and is admitted unless the pool is full.
\<close>
theorem debt_stops_admission:
  assumes "pool_inv p" and "find_lease p l = Some x" and "l_debt x \<noteq> None" and "Try True \<notin> set ops" and "foldl pool_step p ops = q"
  shows "(\<exists>e. acquire_locked False q = (Inl e, q) \<and> (\<not> p_closed q \<longrightarrow> err_is e err_cleanup)) \<and>
    fst (activate k q) \<noteq> None \<and> snd (activate k q) = q \<and>
    (if \<exists>m y. find_lease q m = Some y \<and> l_debt y \<noteq> None
     then \<exists>e. acquire_locked True q = (Inl e, q) \<and>
       (\<not> p_closed q \<longrightarrow> err_is e err_cleanup \<and>
         (\<forall>m y d t. find_lease q m = Some y \<longrightarrow> l_debt y = Some d \<longrightarrow> (\<nexists>xs. t = Joined xs) \<longrightarrow> err_is d t \<longrightarrow> err_is e t))
     else if p_closed q \<or> limit q \<le> length (leases q) then \<exists>e. acquire_locked True q = (Inl e, q)
     else \<exists>i q'. acquire_locked True q = (Inr i, q') \<and> \<not> blocked q' \<and> find_lease q' i \<noteq> None)"
proof -
  have qi: "pool_inv q" using pool_machine.run_inv [OF assms(1), of ops] assms(5) by simp
  have m: "(l, x) \<in> set (leases p)" using assms(2) by (auto simp: find_lease_def dest: map_of_SomeD)
  have all: "\<forall>(l, x)\<in>set (leases p). l_debt x \<noteq> None \<longrightarrow> blocked p \<and> l_active x" using assms(1) by (simp add: pool_inv_def)
  have "blocked p" using bspec [OF all m] assms(3) by simp
  then have b: "blocked q" using blocked_run [of p ops] assms(4,5) by simp
  note first = blocked_refuses [OF b, of k]
  show ?thesis
  proof (cases "\<exists>m y. find_lease q m = Some y \<and> l_debt y \<noteq> None")
    case True
    then obtain m y d where y: "find_lease q m = Some y" "l_debt y = Some d" by auto
    obtain e where e: "acquire_locked True q = (Inl e, q)"
      "\<not> p_closed q \<longrightarrow> (\<forall>t. (\<nexists>xs. t = Joined xs) \<longrightarrow> t = err_cleanup \<or> err_is d t \<longrightarrow> err_is e t)"
      using debt_refuses [OF qi y, of True k] by blast
    have "err_is e t" if "\<not> p_closed q" "find_lease q m' = Some y'" "l_debt y' = Some d'" "\<nexists>xs. t = Joined xs" "err_is d' t" for m' y' d' t
      using debt_refuses [OF qi that(2,3), of True k] e(1) that(1,4,5) by auto
    moreover have "\<not> p_closed q \<longrightarrow> err_is e err_cleanup" using e(2) by (auto simp: err_cleanup_def)
    ultimately show ?thesis using True first e(1) by auto
  next
    case False
    have "l_debt y = None" if "(m, y) \<in> set (leases q)" for m y
    proof -
      have "distinct (map fst (leases q))" using qi by (simp add: pool_inv_def)
      then have "find_lease q m = Some y" using that by (simp add: find_lease_def)
      then show ?thesis using False by auto
    qed
    then have "pool_debt q = None" unfolding pool_debt_None by blast
    then have none: "acquire_locked True q = (if p_closed q then (Inl err_closed, q)
        else if limit q \<le> length (leases q) then (Inl err_full, q) else acquire_locked True q)"
      by (simp add: acquire_locked_def)
    have "\<exists>i q'. acquire_locked True q = (Inr i, q') \<and> \<not> blocked q' \<and> find_lease q' i \<noteq> None"
      if "\<not> (p_closed q \<or> limit q \<le> length (leases q))"
    proof -
      have "(fresh q, v) \<in> set (leases q @ [(fresh q, v)])" for v by simp
      then have "map_of (leases q @ [(fresh q, v)]) (fresh q) \<noteq> None" for v by (metis map_of_eq_None_iff fst_conv image_eqI)
      then show ?thesis using that \<open>pool_debt q = None\<close>
        by (simp add: acquire_locked_def find_lease_def del: not_None_eq map_of_append)
    qed
    then show ?thesis using False first none by (simp only: if_False simp_thms split: if_split) metis
  qed
qed

theorem debt_stops_admission_witness:
  "(\<exists>e. acquire_locked True sample_pool = (Inl e, sample_pool) \<and> err_is e err_cleanup \<and> err_is e err_deadline) \<and>
   (\<exists>e. acquire_locked False (pool_step sample_pool (Settle 0 None)) = (Inl e, pool_step sample_pool (Settle 0 None))) \<and>
   (\<exists>i q. acquire_locked True (pool_step sample_pool (Settle 0 None)) = (Inr i, q) \<and> \<not> blocked q)"
proof -
  have f: "find_lease sample_pool 0 = Some \<lparr>l_active = True, l_debt = Some err_deadline, l_tracking = True\<rparr>"
    by (simp add: find_lease_def sample_pool_def)
  note use = debt_stops_admission [OF sample_pool_inv f]
  have d: "\<exists>m y. find_lease sample_pool m = Some y \<and> l_debt y \<noteq> None" using f by fastforce
  have c: "\<not> p_closed sample_pool" by (simp add: sample_pool_def)
  have n: "\<nexists>xs. err_deadline = Joined xs" by (simp add: err_deadline_def)
  have "\<exists>e. acquire_locked True sample_pool = (Inl e, sample_pool) \<and> err_is e err_cleanup \<and>
      (\<forall>m y d t. find_lease sample_pool m = Some y \<longrightarrow> l_debt y = Some d \<longrightarrow> (\<nexists>xs. t = Joined xs) \<longrightarrow> err_is d t \<longrightarrow> err_is e t)"
    using use [of "[]" sample_pool 0] d c by (simp only: if_True simp_thms) simp
  then obtain e where e: "acquire_locked True sample_pool = (Inl e, sample_pool)" "err_is e err_cleanup" "err_is e err_deadline"
    using f n by (metis err_is_refl lease.select_convs(2))
  define q where "q = pool_step sample_pool (Settle 0 None)"
  have q: "leases q = []" "\<not> p_closed q" "limit q = 1" unfolding q_def by code_simp+
  then have nd: "\<not> (\<exists>m y. find_lease q m = Some y \<and> l_debt y \<noteq> None)" by (simp add: find_lease_def)
  have "foldl pool_step sample_pool [Settle 0 None] = q" by (simp only: foldl.simps q_def)
  note settled = use [OF _ _ this, of 0]
  have "(\<exists>e. acquire_locked False q = (Inl e, q)) \<and> (\<exists>i q'. acquire_locked True q = (Inr i, q') \<and> \<not> blocked q')"
    using settled nd q by (simp only: if_False) auto
  then show ?thesis unfolding q_def [symmetric] using e by blast
qed

lemma waits_step:
  assumes "acquire_locked False p = (Inl err_full, q)" and "version (pool_step p op) = version p"
  shows "\<exists>q'. acquire_locked False (pool_step p op) = (Inl err_full, q')"
proof -
  have w: "\<not> p_closed p" "\<not> blocked p" "limit p \<le> length (leases p)"
    using assms(1) by (auto simp: acquire_locked_def pool_errors err_join.simps split: if_splits)
  have same: "pool_step p op = p \<or> (\<exists>k f. pool_step p op = change_lease k f p) \<or> (\<exists>v. pool_step p op = p\<lparr>watching := v\<rparr>)"
  proof (cases op)
    case (Watched k os f)
    then show ?thesis using assms(2) by (auto simp: watcher_done_def settle_def frame_simps split: if_splits option.splits)
  qed (use w assms(2) in \<open>auto simp: try_acquire_def acquire_once_def acquire_locked_def close_pool_def activate_def
      cancel_def settle_def track_cleanup_def frame_simps signal_def Let_def split: option.splits if_splits\<close>)
  have "length (leases (change_lease k f p)) = length (leases p)" for k f by (simp add: change_lease_def)
  with same w show ?thesis
    by (auto simp: acquire_locked_def) (simp_all add: change_lease_def)
qed

text \<open>
  C17. No wakeup is lost: an acquisition that found the pool full waits on a version; as long as that
  version has not been replaced, whatever happened meanwhile, another attempt would find the pool
  full again, so nobody sleeps while a slot, a closed pool or a cleanup failure is waiting.
\<close>
theorem no_lost_wakeup:
  assumes "acquire_once None now p = (Waiting v, q)" and "version (foldl pool_step q ops) = v"
  shows "\<exists>q'. acquire_once None now (foldl pool_step q ops) = (Waiting v, q')"
proof -
  have full: "\<exists>q1. acquire_locked False (foldl pool_step r xs) = (Inl err_full, q1)"
    if "acquire_locked False r = (Inl err_full, r')" "version (foldl pool_step r xs) = version r" for r r' xs
    using that
  proof (induction xs arbitrary: r r')
    case Nil
    then show ?case by auto
  next
    case (Cons x xs)
    have "version r \<le> version (pool_step r x)" "version (pool_step r x) \<le> version (foldl pool_step (pool_step r x) xs)"
      by (rule pool_versions.step_mono, rule pool_versions.run_mono)
    then have v: "version (pool_step r x) = version r" using Cons.prems(2) by simp
    obtain q' where "acquire_locked False (pool_step r x) = (Inl err_full, q')"
      using waits_step [OF Cons.prems(1) v] by blast
    from Cons.IH [OF this] v Cons.prems(2) show ?case by simp
  qed
  have a: "acquire_locked False p = (Inl err_full, q)" "v = version p" "q = p"
    using assms(1) by (auto simp: acquire_once_def acquire_locked_def split: option.splits if_splits sum.splits)
  obtain q1 where "acquire_locked False (foldl pool_step q ops) = (Inl err_full, q1)"
    using full [of q q ops] a assms(2) by auto
  then show ?thesis using assms(2) by (simp add: acquire_once_def)
qed

theorem no_lost_wakeup_witness:
  "\<exists>p. acquire_once None None p = (Waiting 0, p) \<and>
     (\<exists>q'. acquire_once None None (foldl pool_step p [Activate 0, Cancel 0, Try True]) = (Waiting 0, q'))"
proof -
  define p where "p = \<lparr>limit = 1, p_closed = False, blocked = False, p_cause = None, version = 0,
     leases = [(0, \<lparr>l_active = False, l_debt = None, l_tracking = False\<rparr>)], fresh = 1, watching = []\<rparr>"
  have w: "acquire_once None None p = (Waiting 0, p)"
    by (simp add: acquire_once_def acquire_locked_def p_def)
  have "version (foldl pool_step p [Activate 0, Cancel 0, Try True]) = 0"
    by (simp add: p_def activate_def find_lease_def change_lease_def cancel_def try_acquire_def acquire_locked_def)
  from no_lost_wakeup [OF w this] w show ?thesis by blast
qed

end
