(* ===== verification/GoPath.thy ===== *)
theory GoPath
  imports GoStd
begin

text \<open>
  Slash-separated paths: the text functions of Go's \<open>strings\<close> and the \<open>path\<close> package that the modelled
  packages use, and the correspondence of clean paths with lists of components.
\<close>

section \<open>Splitting text\<close>

fun split_on :: "char \<Rightarrow> string \<Rightarrow> string list" where
  "split_on c [] = [[]]"
| "split_on c (x # xs) =
     (if x = c then [] # split_on c xs
      else case split_on c xs of [] \<Rightarrow> [[x]] | y # ys \<Rightarrow> (x # y) # ys)"

definition has_prefix :: "string \<Rightarrow> string \<Rightarrow> bool" where
  "has_prefix s p \<longleftrightarrow> take (length p) s = p"

definition trim_prefix :: "string \<Rightarrow> string \<Rightarrow> string" where
  "trim_prefix s p = (if has_prefix s p then drop (length p) s else s)"

section \<open>Paths\<close>

text \<open>
  \<open>path.Clean\<close> by components: empty and \<open>.\<close> components vanish, \<open>..\<close> removes the component before it,
  and is dropped at the root.
\<close>

definition clean_step :: "bool \<Rightarrow> string list \<Rightarrow> string \<Rightarrow> string list" where
  "clean_step rooted st c =
     (if c = [] \<or> c = ''.'' then st
      else if c = ''..'' then
        (case st of
           [] \<Rightarrow> if rooted then [] else [c]
         | t # r \<Rightarrow> if t = ''..'' then c # st else r)
      else c # st)"

definition clean_components :: "bool \<Rightarrow> string list \<Rightarrow> string list" where
  "clean_components rooted cs = rev (foldl (clean_step rooted) [] cs)"

fun join_path :: "string list \<Rightarrow> string" where
  "join_path [] = []"
| "join_path [c] = c"
| "join_path (c # cs) = c @ CHR ''/'' # join_path cs"

definition path_clean :: "string \<Rightarrow> string" where
  "path_clean p =
     (let rooted = has_prefix p ''/''; cs = clean_components rooted (split_on CHR ''/'' p) in
      if rooted then CHR ''/'' # join_path cs else if cs = [] then ''.'' else join_path cs)"

definition path_join :: "string \<Rightarrow> string \<Rightarrow> string" where
  "path_join a b =
     (if a = [] \<and> b = [] then [] else if a = [] then path_clean b else if b = [] then path_clean a
      else path_clean (a @ CHR ''/'' # b))"

definition path_dir :: "string \<Rightarrow> string" where
  "path_dir p = path_clean (rev (dropWhile (\<lambda>c. c \<noteq> CHR ''/'') (rev p)))"

section \<open>Absolute paths\<close>

text \<open>A proper component, and the absolute path of a list of components.\<close>

definition proper :: "string \<Rightarrow> bool" where
  "proper c \<longleftrightarrow> c \<noteq> [] \<and> c \<noteq> ''.'' \<and> c \<noteq> ''..'' \<and> CHR ''/'' \<notin> set c"

definition abs_path :: "string list \<Rightarrow> string" where
  "abs_path cs = CHR ''/'' # join_path cs"

lemma split_on_none: "c \<notin> set s \<Longrightarrow> split_on c s = [s]"
  by (induction s) auto

lemma split_on_append: "c \<notin> set a \<Longrightarrow> split_on c (a @ c # b) = a # split_on c b"
  by (induction a) (auto split: list.split)

lemma split_on_nonempty: "split_on c s \<noteq> []"
  by (induction s) (auto split: list.split)

lemma split_on_avoid: "w \<in> set (split_on c s) \<Longrightarrow> c \<notin> set w"
proof (induction s arbitrary: w)
  case Nil
  then show ?case by simp
next
  case (Cons x xs)
  then show ?case by (cases "split_on c xs") (auto split: if_splits)
qed

lemma split_join: "\<forall>c\<in>set cs. CHR ''/'' \<notin> set c \<Longrightarrow> split_on CHR ''/'' (join_path cs) = (if cs = [] then [[]] else cs)"
  by (induction cs rule: join_path.induct) (auto simp: split_on_none split_on_append)

lemma split_abs: "\<forall>c\<in>set cs. proper c \<Longrightarrow>
    split_on CHR ''/'' (abs_path cs) = [] # (if cs = [] then [[]] else cs)"
  using split_join [of cs] by (auto simp: abs_path_def proper_def)

lemma foldl_clean_proper: "\<forall>c\<in>set cs. proper c \<Longrightarrow> foldl (clean_step b) st cs = rev cs @ st"
  by (induction cs arbitrary: st) (auto simp: clean_step_def proper_def)

lemma clean_abs: "\<forall>c\<in>set cs. proper c \<Longrightarrow> path_clean (abs_path cs) = abs_path cs"
proof -
  assume p: "\<forall>c\<in>set cs. proper c"
  have "clean_components True (split_on CHR ''/'' (abs_path cs)) = cs"
    unfolding split_abs [OF p] clean_components_def
    using foldl_clean_proper [OF p, of True "[]"] by (auto simp: clean_step_def)
  moreover have "has_prefix (abs_path cs) ''/''" by (simp add: has_prefix_def abs_path_def)
  ultimately show ?thesis by (simp add: path_clean_def abs_path_def)
qed

text \<open>Whatever is cleaned at the root is an absolute path of proper components.\<close>

lemma clean_step_proper:
  "CHR ''/'' \<notin> set c \<Longrightarrow> \<forall>x\<in>set st. proper x \<Longrightarrow> \<forall>x\<in>set (clean_step True st c). proper x"
proof (cases st)
  case Nil
  assume "CHR ''/'' \<notin> set c"
  then show ?thesis using Nil by (simp add: clean_step_def proper_def)
next
  case (Cons t r)
  assume "CHR ''/'' \<notin> set c" and "\<forall>x\<in>set st. proper x"
  then show ?thesis using Cons by (simp add: clean_step_def proper_def)
qed

lemma foldl_clean_rooted:
  "\<forall>c\<in>set cs. CHR ''/'' \<notin> set c \<Longrightarrow> \<forall>x\<in>set st. proper x \<Longrightarrow>
     \<forall>x\<in>set (foldl (clean_step True) st cs). proper x"
proof (induction cs arbitrary: st)
  case Nil
  then show ?case by simp
next
  case (Cons c cs)
  have "CHR ''/'' \<notin> set c" using Cons.prems(1) by simp
  then have "\<forall>x\<in>set (clean_step True st c). proper x" by (rule clean_step_proper [OF _ Cons.prems(2)])
  moreover have "\<forall>c\<in>set cs. CHR ''/'' \<notin> set c" using Cons.prems(1) by simp
  ultimately have "\<forall>x\<in>set (foldl (clean_step True) (clean_step True st c) cs). proper x" by (intro Cons.IH)
  then show ?case by simp
qed

lemma path_clean_rooted:
  assumes "has_prefix p ''/''"
  shows "\<exists>cs. path_clean p = abs_path cs \<and> (\<forall>c\<in>set cs. proper c)"
proof (intro exI conjI)
  show "path_clean p = abs_path (clean_components True (split_on CHR ''/'' p))"
    using assms by (simp add: path_clean_def abs_path_def)
  show "\<forall>c\<in>set (clean_components True (split_on CHR ''/'' p)). proper c"
    using foldl_clean_rooted [of "split_on CHR ''/'' p" "[]"] split_on_avoid
    by (auto simp: clean_components_def)
qed

lemma join_path_append: "as \<noteq> [] \<Longrightarrow> bs \<noteq> [] \<Longrightarrow> join_path (as @ bs) = join_path as @ CHR ''/'' # join_path bs"
  by (induction as rule: join_path.induct) (auto simp: neq_Nil_conv)

lemma abs_path_snoc: "abs_path (cs @ [c]) = (if cs = [] then ''/'' else abs_path cs @ ''/'') @ c"
  by (simp add: abs_path_def join_path_append)

lemma split_abs_slash:
  assumes "\<forall>c\<in>set cs. proper c"
  shows "path_clean (if cs = [] then ''/'' else abs_path cs @ ''/'') = abs_path cs"
proof (cases "cs = []")
  case True
  then show ?thesis by (simp add: path_clean_def has_prefix_def clean_components_def clean_step_def abs_path_def)
next
  case False
  have d: "split_on CHR ''/'' (s @ ''/'') = split_on CHR ''/'' s @ [[]]" for s
  proof (induction s)
    case Nil
    then show ?case by simp
  next
    case (Cons a s)
    obtain y ys where "split_on CHR ''/'' s = y # ys" using split_on_nonempty by (cases "split_on CHR ''/'' s") auto
    then show ?case using Cons by simp
  qed
  have "clean_components True (split_on CHR ''/'' (abs_path cs @ ''/'')) = cs"
    unfolding d split_abs [OF assms] clean_components_def
    using foldl_clean_proper [OF assms, of True "[]"] False by (simp add: clean_step_def)
  moreover have "has_prefix (abs_path cs @ ''/'') ''/''" by (simp add: has_prefix_def abs_path_def)
  ultimately show ?thesis using False by (simp add: path_clean_def abs_path_def)
qed

lemma path_dir_abs:
  assumes "\<forall>x\<in>set (cs @ [c]). proper x"
  shows "path_dir (abs_path (cs @ [c])) = abs_path cs"
proof -
  have c: "CHR ''/'' \<notin> set c" using assms by (simp add: proper_def)
  have "rev (dropWhile (\<lambda>x. x \<noteq> CHR ''/'') (rev (a @ ''/'' @ c))) = a @ ''/''" for a
  proof -
    have "dropWhile (\<lambda>x. x \<noteq> CHR ''/'') (rev c @ CHR ''/'' # rev a) = CHR ''/'' # rev a"
      using c by (subst dropWhile_append2) auto
    then show ?thesis by simp
  qed
  from this [of "if cs = [] then [] else abs_path cs"] show ?thesis
    using split_abs_slash [of cs] assms by (simp add: path_dir_def abs_path_snoc split: if_splits)
qed

lemma path_dir_root: "path_dir ''/'' = ''/''"
  by (simp add: path_dir_def path_clean_def has_prefix_def clean_components_def clean_step_def)


lemma split_on_app: "split_on c (a @ c # b) = split_on c a @ split_on c b"
proof (induction a)
  case Nil
  then show ?case by simp
next
  case (Cons x a)
  obtain y ys where "split_on c a = y # ys" using split_on_nonempty by (cases "split_on c a") auto
  then show ?case using Cons by simp
qed

lemma proper_not_Nil: "\<forall>c\<in>set cs. proper c \<Longrightarrow> cs \<noteq> [[]]"
proof
  assume "\<forall>c\<in>set cs. proper c" "cs = [[]]"
  then have "proper []" by simp
  then show False by (simp add: proper_def)
qed

lemma abs_path_inject:
  assumes "\<forall>c\<in>set as. proper c" "\<forall>c\<in>set bs. proper c"
  shows "abs_path as = abs_path bs \<longleftrightarrow> as = bs"
proof
  assume "abs_path as = abs_path bs"
  then have "split_on CHR ''/'' (abs_path as) = split_on CHR ''/'' (abs_path bs)" by (simp only:)
  then have e: "(if as = [] then [[]] else as) = (if bs = [] then [[]] else bs)"
    unfolding split_abs [OF assms(1)] split_abs [OF assms(2)] by simp
  have "as \<noteq> [[]]" "bs \<noteq> [[]]" using assms by (auto dest: proper_not_Nil)
  then show "as = bs" using e by (cases "as = []"; cases "bs = []") simp_all
qed simp

lemma foldl_clean_empty: "foldl (clean_step b) st ([] # cs) = foldl (clean_step b) st cs"
  by (simp add: clean_step_def)

text \<open>Joining a relative or rooted rest below an absolute path appends its components.\<close>

lemma clean_below:
  assumes m: "\<forall>c\<in>set ms. proper c" and d: "\<forall>c\<in>set ds. proper c"
    and x: "split_on CHR ''/'' x = ds \<or> split_on CHR ''/'' x = [] # ds"
  shows "path_clean (abs_path ms @ CHR ''/'' # x) = abs_path (ms @ ds)"
proof -
  let ?f = "foldl (clean_step True)"
  have "?f [] (if ms = [] then [[]] else ms) = rev ms"
    using foldl_clean_proper [OF m, of True "[]"] by (simp add: clean_step_def)
  moreover have "?f (rev ms) (split_on CHR ''/'' x) = rev ds @ rev ms"
    using x
  proof
    assume "split_on CHR ''/'' x = ds"
    then show ?thesis by (simp only: foldl_clean_proper [OF d])
  next
    assume "split_on CHR ''/'' x = [] # ds"
    then show ?thesis by (simp only: foldl_clean_empty foldl_clean_proper [OF d])
  qed
  ultimately have "?f [] (split_on CHR ''/'' (abs_path ms @ CHR ''/'' # x)) = rev ds @ rev ms"
    by (simp only: split_on_app split_abs [OF m] foldl_append append_Cons foldl_clean_empty)
  then have "clean_components True (split_on CHR ''/'' (abs_path ms @ CHR ''/'' # x)) = ms @ ds"
    by (simp add: clean_components_def)
  moreover have "has_prefix (abs_path ms @ CHR ''/'' # x) ''/''" by (simp add: has_prefix_def abs_path_def)
  ultimately show ?thesis by (simp add: path_clean_def abs_path_def)
qed

lemma has_prefix_iff: "has_prefix s p \<longleftrightarrow> (\<exists>r. s = p @ r)"
  by (metis append_eq_conv_conj append_take_drop_id has_prefix_def)


section \<open>Relative paths\<close>

text \<open>The clean relative path of a list of components; the empty list is the current directory.\<close>

definition rel_path :: "string list \<Rightarrow> string" where
  "rel_path cs = (if cs = [] then ''.'' else join_path cs)"

lemma split_rel: "\<forall>c\<in>set cs. proper c \<Longrightarrow> cs \<noteq> [] \<Longrightarrow> split_on CHR ''/'' (join_path cs) = cs"
  using split_join [of cs] by (auto simp: proper_def)

lemma join_path_not_rooted:
  assumes "\<forall>c\<in>set cs. proper c" "cs \<noteq> []"
  shows "join_path cs \<noteq> []" "\<not> has_prefix (join_path cs) ''/''"
proof -
  have p: "proper (hd cs)" using assms by simp
  then have "hd cs \<noteq> []" "CHR ''/'' \<notin> set (hd cs)" by (simp_all add: proper_def)
  then have h: "hd (hd cs) \<noteq> CHR ''/''" by (metis list.set_sel(1))
  obtain r where r: "join_path cs = hd cs @ r" using assms(2) by (cases cs rule: join_path.cases) auto
  show "join_path cs \<noteq> []" using r \<open>hd cs \<noteq> []\<close> by simp
  have "hd (join_path cs) = hd (hd cs)" using r \<open>hd cs \<noteq> []\<close> by simp
  then show "\<not> has_prefix (join_path cs) ''/''" using h \<open>join_path cs \<noteq> []\<close>
    by (cases "join_path cs") (auto simp: has_prefix_def)
qed

lemma rel_path_inject:
  assumes "\<forall>c\<in>set as. proper c" "\<forall>c\<in>set bs. proper c"
  shows "rel_path as = rel_path bs \<longleftrightarrow> as = bs"
proof
  have dot: "join_path cs \<noteq> ''.''" if "\<forall>c\<in>set cs. proper c" "cs \<noteq> []" for cs
  proof
    assume "join_path cs = ''.''"
    then have "cs = split_on CHR ''/'' ''.''" using split_rel [OF that] by (simp only:)
    then show False using that(1) by (simp add: proper_def)
  qed
  assume e: "rel_path as = rel_path bs"
  show "as = bs"
  proof (cases "as = [] \<or> bs = []")
    case True
    then show ?thesis using e dot [OF assms(1)] dot [OF assms(2)] by (auto simp: rel_path_def split: if_splits)
  next
    case False
    then have "join_path as = join_path bs" using e by (simp add: rel_path_def)
    then have "split_on CHR ''/'' (join_path as) = split_on CHR ''/'' (join_path bs)" by (simp only:)
    then show ?thesis using split_rel assms False by simp
  qed
qed simp

lemma clean_rel: "\<forall>c\<in>set cs. proper c \<Longrightarrow> path_clean (rel_path cs) = rel_path cs"
proof (cases "cs = []")
  case True
  then show ?thesis by (simp add: rel_path_def path_clean_def has_prefix_def clean_components_def clean_step_def)
next
  case False
  assume p: "\<forall>c\<in>set cs. proper c"
  have "clean_components False (split_on CHR ''/'' (join_path cs)) = cs"
    unfolding split_rel [OF p False] clean_components_def using foldl_clean_proper [OF p, of False "[]"] by simp
  then show ?thesis using join_path_not_rooted [OF p False] False by (simp add: rel_path_def path_clean_def)
qed

text \<open>Cleaning a relative path leaves proper components behind leading parent references.\<close>

definition climbs :: "string list \<Rightarrow> bool" where
  "climbs st \<longleftrightarrow> (\<exists>ps k. st = ps @ replicate k ''..'' \<and> (\<forall>p\<in>set ps. proper p))"

lemma climbs_step:
  assumes "CHR ''/'' \<notin> set c" "climbs st"
  shows "climbs (clean_step False st c)"
proof -
  obtain ps k where st: "st = ps @ replicate k ''..''" and ps: "\<forall>p\<in>set ps. proper p"
    using assms(2) unfolding climbs_def by blast
  consider "c = [] \<or> c = ''.''" | "c = ''..''" | "proper c" using assms(1) by (auto simp: proper_def)
  then show ?thesis
  proof cases
    case 1
    then show ?thesis using assms(2) by (auto simp: clean_step_def)
  next
    case 2
    show ?thesis
    proof (cases ps)
      case Nil
      then have "clean_step False st c = replicate (Suc k) ''..''" using 2 st by (cases k) (simp_all add: clean_step_def)
      then show ?thesis unfolding climbs_def by (metis append_Nil empty_iff list.set(1))
    next
      case (Cons p qs)
      then have "p \<noteq> ''..''" using ps by (simp add: proper_def)
      then have "clean_step False st c = qs @ replicate k ''..''" using 2 st Cons by (simp add: clean_step_def)
      then show ?thesis using ps Cons unfolding climbs_def by auto
    qed
  next
    case 3
    then have "clean_step False st c = (c # ps) @ replicate k ''..''" using st by (simp add: clean_step_def proper_def)
    then show ?thesis using ps 3 unfolding climbs_def by (metis set_ConsD)
  qed
qed

lemma climbs_foldl: "\<forall>c\<in>set cs. CHR ''/'' \<notin> set c \<Longrightarrow> climbs st \<Longrightarrow> climbs (foldl (clean_step False) st cs)"
  by (induction cs arbitrary: st) (simp_all add: climbs_step)

lemma path_clean_relative:
  assumes "\<not> has_prefix p ''/''"
  shows "\<exists>k cs. path_clean p = rel_path (replicate k ''..'' @ cs) \<and> (\<forall>c\<in>set cs. proper c)"
proof -
  have "climbs (foldl (clean_step False) [] (split_on CHR ''/'' p))"
    by (rule climbs_foldl) (auto dest: split_on_avoid simp: climbs_def)
  then obtain ps k where "foldl (clean_step False) [] (split_on CHR ''/'' p) = ps @ replicate k ''..''" "\<forall>p\<in>set ps. proper p"
    unfolding climbs_def by blast
  then have "clean_components False (split_on CHR ''/'' p) = replicate k ''..'' @ rev ps" by (simp add: clean_components_def)
  then have "path_clean p = rel_path (replicate k ''..'' @ rev ps)" using assms by (simp add: path_clean_def rel_path_def)
  moreover have "\<forall>c\<in>set (rev ps). proper c" using \<open>\<forall>p\<in>set ps. proper p\<close> by simp
  ultimately show ?thesis by blast
qed

lemma path_dir_rel:
  assumes "\<forall>x\<in>set (cs @ [c]). proper x"
  shows "path_dir (rel_path (cs @ [c])) = rel_path cs"
proof -
  have c: "CHR ''/'' \<notin> set c" using assms by (simp add: proper_def)
  show ?thesis
  proof (cases "cs = []")
    case True
    have d: "dropWhile (\<lambda>x. x \<noteq> CHR ''/'') (rev c) = []" using c by (simp add: dropWhile_eq_Nil_conv) blast
    show ?thesis
      by (simp add: True d path_dir_def rel_path_def path_clean_def has_prefix_def clean_components_def clean_step_def)
  next
    case False
    have p: "\<forall>x\<in>set cs. proper x" using assms by simp
    have "dropWhile (\<lambda>x. x \<noteq> CHR ''/'') (rev c @ CHR ''/'' # rev (join_path cs)) = CHR ''/'' # rev (join_path cs)"
      using c by (subst dropWhile_append2) auto
    then have d: "path_dir (rel_path (cs @ [c])) = path_clean (join_path cs @ CHR ''/'' # [])"
      using False by (simp add: path_dir_def rel_path_def join_path_append)
    have "split_on CHR ''/'' (join_path cs @ CHR ''/'' # []) = cs @ [[]]"
      unfolding split_on_app using split_rel [OF p False] by simp
    then have "clean_components False (split_on CHR ''/'' (join_path cs @ CHR ''/'' # [])) = cs"
      using foldl_clean_proper [OF p, of False "[]"] by (simp add: clean_components_def clean_step_def)
    moreover have "\<not> has_prefix (join_path cs @ CHR ''/'' # []) ''/''"
      using join_path_not_rooted [OF p False] by (cases "join_path cs") (auto simp: has_prefix_def)
    ultimately show ?thesis using False d by (simp add: path_clean_def rel_path_def)
  qed
qed

lemma path_dir_dot: "path_dir ''.'' = ''.''"
  by (simp add: path_dir_def path_clean_def has_prefix_def clean_components_def clean_step_def)

end
