(* ===== verification/ForkCapacity.thy ===== *)
theory ForkCapacity
  imports GoPath
begin

text \<open>
  The automatic capacity of \<open>internal/forklimit\<close>: decoding the explicit value (\<open>options.go\<close>), choosing
  the tightest memory observation (\<open>options.go\<close>, \<open>memory_sources.go\<close>), and reading the cgroup limits
  that apply to the process (\<open>cgroup.go\<close>). Files and the system call are parameters. Text is ASCII:
  white space is the six ASCII characters Go's \<open>unicode.IsSpace\<close> accepts below 128.
\<close>

definition child_budget :: nat where "child_budget = 268435456"
definition capacity_max :: nat where "capacity_max = 2147483647"
definition max_int64 :: nat where "max_int64 = 9223372036854775807"

section \<open>Text\<close>

definition is_space :: "char \<Rightarrow> bool" where
  "is_space c \<longleftrightarrow> (of_char c :: nat) \<in> {9, 10, 11, 12, 13, 32}"

definition trim_space :: "string \<Rightarrow> string" where
  "trim_space s = rev (dropWhile is_space (rev (dropWhile is_space s)))"

definition fields :: "string \<Rightarrow> string list" where
  "fields s = filter (\<lambda>w. w \<noteq> []) (split_on CHR '' '' (map (\<lambda>c. if is_space c then CHR '' '' else c) s))"

text \<open>The text before and after the first occurrence of a separator.\<close>

fun cut :: "string \<Rightarrow> string \<Rightarrow> (string \<times> string) option" where
  "cut sep [] = (if sep = [] then Some ([], []) else None)"
| "cut sep (x # xs) =
     (if has_prefix (x # xs) sep then Some ([], drop (length sep) (x # xs))
      else map_option (\<lambda>(a, b). (x # a, b)) (cut sep xs))"

fun split_n :: "nat \<Rightarrow> string \<Rightarrow> string \<Rightarrow> string list" where
  "split_n 0 sep s = []"
| "split_n (Suc 0) sep s = [s]"
| "split_n (Suc n) sep s = (case cut sep s of None \<Rightarrow> [s] | Some (a, b) \<Rightarrow> a # split_n n sep b)"

definition newline :: char where "newline = CHR 0x0A"

section \<open>The explicit capacity\<close>

text \<open>The number literals of JSON.\<close>

definition is_digit :: "char \<Rightarrow> bool" where "is_digit c \<longleftrightarrow> digit_val c \<noteq> None"

definition json_exponent :: "string \<Rightarrow> bool" where
  "json_exponent s =
     (case s of [] \<Rightarrow> True
      | c # r \<Rightarrow> c \<in> {CHR ''e'', CHR ''E''} \<and>
          (let ds = (case r of d # r' \<Rightarrow> if d \<in> {CHR ''+'', CHR ''-''} then r' else r | [] \<Rightarrow> []) in
           ds \<noteq> [] \<and> list_all is_digit ds))"

definition json_fraction :: "string \<Rightarrow> bool" where
  "json_fraction s =
     (case s of
        c # r \<Rightarrow> if c = CHR ''.'' then takeWhile is_digit r \<noteq> [] \<and> json_exponent (dropWhile is_digit r)
                 else json_exponent s
      | [] \<Rightarrow> True)"

definition json_number :: "string \<Rightarrow> bool" where
  "json_number s =
     (let t = (case s of c # r \<Rightarrow> if c = CHR ''-'' then r else s | [] \<Rightarrow> []); ds = takeWhile is_digit t in
      ds \<noteq> [] \<and> (hd ds = CHR ''0'' \<longrightarrow> length ds = 1) \<and> json_fraction (dropWhile is_digit t))"

definition decode_capacity :: "string \<Rightarrow> nat option" where
  "decode_capacity raw =
     (if raw = [] then Some 0
      else
        let t = trim_space raw in
        if t = [] \<or> hd t = CHR 0x22 \<or> hd t = CHR ''-'' \<or> \<not> json_number t then None
        else case parse_uint 63 t of
          None \<Rightarrow> None
        | Some v \<Rightarrow> if capacity_max < v then None else Some v)"

section \<open>The automatic capacity\<close>

fun select_limit :: "nat \<Rightarrow> nat list \<Rightarrow> nat" where
  "select_limit sel [] = sel"
| "select_limit sel (n # ns) =
     select_limit (if 0 < n \<and> n < max_int64 \<and> (sel = 0 \<or> n < sel) then n else sel) ns"

definition resolve_limits :: "nat list \<Rightarrow> int \<Rightarrow> nat" where
  "resolve_limits limits cpus =
     (let sel = select_limit 0 limits in
      if sel = 0 then min (nat (max 1 cpus)) capacity_max
      else min (max 1 (sel div 4 div child_budget)) capacity_max)"

text \<open>\<open>Resolve\<close>: the memory limits, Go's own limit and the number of processors are the environment.\<close>

definition resolve :: "int \<Rightarrow> nat list \<Rightarrow> int \<Rightarrow> int \<Rightarrow> nat option" where
  "resolve explicit memory_limits go_limit cpus =
     (if explicit < 0 \<or> int capacity_max < explicit then None
      else if 0 < explicit then Some (nat explicit)
      else
        let limits = memory_limits
              @ (if 0 < go_limit \<and> go_limit < int max_int64 then [nat go_limit] else []) in
        Some (resolve_limits limits cpus))"

section \<open>Memory observations\<close>

definition memory_bytes :: "nat \<Rightarrow> nat \<Rightarrow> nat" where
  "memory_bytes amount unit =
     (if amount = 0 \<or> unit = 0 \<or> (max_int64 - 1) div unit < amount then 0 else amount * unit)"

text \<open>The loop of \<open>memTotalBytes\<close>: \<open>None\<close> is the early return of 0.\<close>

fun mem_total_lines :: "nat option \<Rightarrow> string list \<Rightarrow> nat option option" where
  "mem_total_lines found [] = Some found"
| "mem_total_lines found (l # ls) =
     (case fields l of
        [] \<Rightarrow> mem_total_lines found ls
      | w # ws \<Rightarrow>
          if w \<noteq> ''MemTotal:'' then mem_total_lines found ls
          else if found \<noteq> None \<or> length ws \<noteq> 2 \<or> ws ! 1 \<noteq> ''kB'' then None
          else case parse_uint 64 (ws ! 0) of
            None \<Rightarrow> None
          | Some n \<Rightarrow> mem_total_lines (Some (memory_bytes n 1024)) ls)"

definition mem_total_bytes :: "string \<Rightarrow> nat" where
  "mem_total_bytes raw =
     (case mem_total_lines None (split_on newline raw) of Some (Some n) \<Rightarrow> n | _ \<Rightarrow> 0)"

section \<open>Cgroup limits\<close>

type_synonym read_file = "string \<Rightarrow> string option"

definition has_word :: "string \<Rightarrow> string \<Rightarrow> bool" where
  "has_word l w \<longleftrightarrow> w \<in> set (split_on CHR '','' l)"

fun unescape_mount :: "string \<Rightarrow> string" where
  "unescape_mount [] = []"
| "unescape_mount (c # s) =
     (if has_prefix (c # s) (CHR 0x5C # ''040'') then CHR '' '' # unescape_mount (drop 3 s)
      else if has_prefix (c # s) (CHR 0x5C # ''011'') then CHR 0x09 # unescape_mount (drop 3 s)
      else if has_prefix (c # s) (CHR 0x5C # ''012'') then CHR 0x0A # unescape_mount (drop 3 s)
      else if has_prefix (c # s) (CHR 0x5C # ''134'') then CHR 0x5C # unescape_mount (drop 3 s)
      else c # unescape_mount s)"

text \<open>The memory groups of a membership file: the group's path and whether it is version 2.\<close>

definition membership_group :: "string \<Rightarrow> (string \<times> bool) option" where
  "membership_group line =
     (case split_n 3 '':'' line of
        [a, b, c] \<Rightarrow>
          if \<not> has_prefix c ''/'' then None
          else if a = ''0'' \<and> b = [] then Some (c, True)
          else if has_word b ''memory'' then Some (c, False) else None
      | _ \<Rightarrow> None)"

definition membership_groups :: "string \<Rightarrow> (string \<times> bool) list" where
  "membership_groups s = List.map_filter membership_group (split_on newline s)"

text \<open>The root, the mount point and the version of a line that mounts a memory hierarchy.\<close>

definition mount_entry :: "string \<Rightarrow> (string \<times> string \<times> bool) option" where
  "mount_entry line =
     (case split_n 2 '' - '' line of
        [l, r] \<Rightarrow>
          let left = fields l; right = fields r in
          if length left < 6 \<or> length right < 3 then None
          else
            let v2 = (right ! 0 = ''cgroup2'');
                root = unescape_mount (left ! 3); mount = unescape_mount (left ! 4) in
            if \<not> v2 \<and> (right ! 0 \<noteq> ''cgroup'' \<or> \<not> has_word (right ! 2) ''memory'') then None
            else if \<not> has_prefix root ''/'' \<or> \<not> has_prefix mount ''/'' then None
            else Some (path_clean root, path_clean mount, v2)
      | _ \<Rightarrow> None)"

definition limit_file :: "bool \<Rightarrow> string" where
  "limit_file v2 = (if v2 then ''memory.max'' else ''memory.limit_in_bytes'')"

definition read_limit :: "read_file \<Rightarrow> bool \<Rightarrow> string \<Rightarrow> nat list" where
  "read_limit rd v2 current =
     (case rd (path_join current (limit_file v2)) of
        None \<Rightarrow> []
      | Some raw \<Rightarrow>
          (case parse_uint 64 (trim_space raw) of
             None \<Rightarrow> []
           | Some n \<Rightarrow> if 0 < n \<and> (v2 \<or> n < 2 ^ 63 - 4096) then [n] else []))"

text \<open>The walk from a group's directory up to the mount point; the fuel bounds its length.\<close>

fun walk_limits :: "nat \<Rightarrow> read_file \<Rightarrow> bool \<Rightarrow> string \<Rightarrow> string \<Rightarrow> nat list option" where
  "walk_limits 0 rd v2 mount current = None"
| "walk_limits (Suc n) rd v2 mount current =
     (let here = read_limit rd v2 current in
      if current = mount then Some here
      else
        let nx = path_dir current in
        if nx = current then Some here
        else map_option (\<lambda>rest. here @ rest) (walk_limits n rd v2 mount nx))"

text \<open>Where a group is visible below a mount: its path must be at or below the mount's root.\<close>

definition group_directory :: "string \<Rightarrow> string \<Rightarrow> string \<Rightarrow> string option" where
  "group_directory root mount g =
     (let w = path_clean g in
      if w \<noteq> root \<and> root \<noteq> ''/'' \<and> \<not> has_prefix w (root @ ''/'') then None
      else Some (path_join mount (trim_prefix w root)))"

definition group_limits :: "read_file \<Rightarrow> string \<times> string \<times> bool \<Rightarrow> string \<times> bool \<Rightarrow> nat list" where
  "group_limits rd m g =
     (case m of (root, mount, v2) \<Rightarrow>
        if snd g \<noteq> v2 then []
        else case group_directory root mount (fst g) of
          None \<Rightarrow> []
        | Some current \<Rightarrow> (case walk_limits (length current + 1) rd v2 mount current of None \<Rightarrow> [] | Some ls \<Rightarrow> ls))"

definition cgroup_limits :: "string \<Rightarrow> string \<Rightarrow> read_file \<Rightarrow> nat list" where
  "cgroup_limits memberships mounts rd =
     concat (map (\<lambda>m. concat (map (group_limits rd m) (membership_groups memberships)))
       (List.map_filter mount_entry (split_on newline mounts)))"

definition linux_memory_limits :: "(nat \<times> nat) option \<Rightarrow> read_file \<Rightarrow> nat list" where
  "linux_memory_limits sysinfo rd =
     (case sysinfo of
        Some (amount, unit) \<Rightarrow> let n = memory_bytes amount unit in if 0 < n then [n] else []
      | None \<Rightarrow> [])
     @ (case rd ''/proc/meminfo'' of
          Some raw \<Rightarrow> let n = mem_total_bytes raw in if 0 < n then [n] else []
        | None \<Rightarrow> [])
     @ (case (rd ''/proc/self/cgroup'', rd ''/proc/self/mountinfo'') of
          (Some c, Some m) \<Rightarrow> cgroup_limits c m rd
        | _ \<Rightarrow> [])"

lemma below_prefix:
  assumes r: "\<forall>c\<in>set rs. proper c" and g: "\<forall>c\<in>set gs. proper c" and ne: "rs \<noteq> []"
  shows "has_prefix (abs_path gs) (abs_path rs @ ''/'') \<longleftrightarrow> (\<exists>ds. ds \<noteq> [] \<and> gs = rs @ ds)"
proof
  assume "has_prefix (abs_path gs) (abs_path rs @ ''/'')"
  then obtain x where x: "abs_path gs = abs_path rs @ CHR ''/'' # x" by (auto simp: has_prefix_iff)
  then have "split_on CHR ''/'' (abs_path gs) = split_on CHR ''/'' (abs_path rs) @ split_on CHR ''/'' x"
    by (simp only: split_on_app)
  then have e: "(if gs = [] then [[]] else gs) = rs @ split_on CHR ''/'' x"
    unfolding split_abs [OF g] split_abs [OF r] using ne by simp
  have "hd rs \<noteq> []" using ne r by (simp add: proper_def)
  moreover have "hd (rs @ split_on CHR ''/'' x) = hd rs" using ne by simp
  ultimately have "gs \<noteq> []" using e by (metis list.sel(1))
  then have "gs = rs @ split_on CHR ''/'' x" using e by simp
  then show "\<exists>ds. ds \<noteq> [] \<and> gs = rs @ ds" using split_on_nonempty by blast
next
  assume "\<exists>ds. ds \<noteq> [] \<and> gs = rs @ ds"
  then show "has_prefix (abs_path gs) (abs_path rs @ ''/'')"
    using ne by (auto simp: has_prefix_iff abs_path_def join_path_append)
qed

lemma group_directory_abs:
  assumes r: "\<forall>c\<in>set rs. proper c" and m: "\<forall>c\<in>set ms. proper c" and g: "\<forall>c\<in>set gs. proper c"
    and w: "path_clean p = abs_path gs"
  shows "group_directory (abs_path rs) (abs_path ms) p =
     (if take (length rs) gs = rs then Some (abs_path (ms @ drop (length rs) gs)) else None)"
proof (cases "take (length rs) gs = rs")
  case True
  define ds where "ds = drop (length rs) gs"
  have gs: "gs = rs @ ds" using True by (metis append_take_drop_id ds_def)
  have d: "\<forall>c\<in>set ds. proper c" using g gs by simp
  have ok: "abs_path gs = abs_path rs \<or> abs_path rs = ''/'' \<or> has_prefix (abs_path gs) (abs_path rs @ ''/'')"
  proof (cases "rs = [] \<or> ds = []")
    case True
    then show ?thesis using gs by (auto simp: abs_path_def)
  next
    case False
    then show ?thesis using below_prefix [OF r g] gs by blast
  qed
  have join: "path_join (abs_path ms) (trim_prefix (abs_path gs) (abs_path rs)) = abs_path (ms @ ds)"
  proof (cases "ds = []")
    case True
    then have "trim_prefix (abs_path gs) (abs_path rs) = []" using gs by (simp add: trim_prefix_def has_prefix_def)
    then show ?thesis using True clean_abs [OF m] by (simp add: path_join_def abs_path_def)
  next
    case False
    let ?x = "trim_prefix (abs_path gs) (abs_path rs)"
    have sj: "split_on CHR ''/'' (join_path ds) = ds" using split_join [of ds] d False by (auto simp: proper_def)
    have x: "?x = (if rs = [] then join_path ds else CHR ''/'' # join_path ds)"
      using gs False by (simp add: trim_prefix_def has_prefix_def abs_path_def join_path_append)
    have "ds \<noteq> [[]]" using d by (rule proper_not_Nil)
    then have "join_path ds \<noteq> []" using sj by fastforce
    then have ne: "?x \<noteq> []" "abs_path ms \<noteq> []" unfolding x by (simp_all add: abs_path_def)
    have "split_on CHR ''/'' ?x = ds \<or> split_on CHR ''/'' ?x = [] # ds"
      unfolding x by (cases "rs = []") (simp_all add: sj)
    from clean_below [OF m d this] ne show ?thesis by (simp only: path_join_def if_False simp_thms)
  qed
  show ?thesis using True ok join w by (simp add: group_directory_def ds_def Let_def)
next
  case False
  then have "rs \<noteq> []" "gs \<noteq> rs" "\<not> (\<exists>ds. ds \<noteq> [] \<and> gs = rs @ ds)" by auto
  moreover have "abs_path rs \<noteq> ''/''" using abs_path_inject [of rs "[]"] r \<open>rs \<noteq> []\<close> by (auto simp: abs_path_def)
  ultimately show ?thesis
    using False w below_prefix [OF r g] abs_path_inject [OF g r] by (simp add: group_directory_def)
qed

lemma length_abs_path: "\<forall>c\<in>set cs. proper c \<Longrightarrow> length cs \<le> length (abs_path cs)"
proof -
  assume "\<forall>c\<in>set cs. proper c"
  then have "length cs \<le> length (join_path cs)"
    by (induction cs rule: join_path.induct) (auto simp: proper_def Suc_le_eq)
  then show ?thesis by (simp add: abs_path_def)
qed

lemma walk_limits_abs:
  assumes "\<forall>c\<in>set ms. proper c" "\<forall>c\<in>set ds. proper c" "length ds < n"
  shows "walk_limits n rd v2 (abs_path ms) (abs_path (ms @ ds)) =
     Some (concat (map (\<lambda>k. read_limit rd v2 (abs_path (ms @ take k ds))) (rev [0..<Suc (length ds)])))"
  using assms
proof (induction ds arbitrary: n rule: rev_induct)
  case Nil
  then show ?case by (cases n) simp_all
next
  case (snoc d ds)
  obtain k where n: "n = Suc k" using snoc.prems(3) by (cases n) auto
  have p: "\<forall>c\<in>set ((ms @ ds) @ [d]). proper c" using snoc.prems by auto
  have q: "\<forall>c\<in>set (ms @ ds @ [d]). proper c" "\<forall>c\<in>set (ms @ ds). proper c" using snoc.prems by auto
  have dir: "path_dir (abs_path (ms @ ds @ [d])) = abs_path (ms @ ds)" using path_dir_abs [OF p] by simp
  have ne: "abs_path (ms @ ds @ [d]) \<noteq> abs_path ms" "abs_path (ms @ ds) \<noteq> abs_path (ms @ ds @ [d])"
    using abs_path_inject [OF q(1) snoc.prems(1)] abs_path_inject [OF q(2) q(1)] by simp_all
  have IH: "walk_limits k rd v2 (abs_path ms) (abs_path (ms @ ds)) =
     Some (concat (map (\<lambda>k. read_limit rd v2 (abs_path (ms @ take k ds))) (rev [0..<Suc (length ds)])))"
    by (rule snoc.IH) (use snoc.prems n in auto)
  have "map (\<lambda>k. read_limit rd v2 (abs_path (ms @ take k (ds @ [d])))) (rev [0..<Suc (length ds)])
      = map (\<lambda>k. read_limit rd v2 (abs_path (ms @ take k ds))) (rev [0..<Suc (length ds)])"
    by (intro map_cong) auto
  from arg_cong [OF this, of concat] have "concat (map (\<lambda>k. read_limit rd v2 (abs_path (ms @ take k (ds @ [d])))) (rev [0..<Suc (length ds)]))
      = concat (map (\<lambda>k. read_limit rd v2 (abs_path (ms @ take k ds))) (rev [0..<Suc (length ds)]))" .
  moreover have "rev [0..<Suc (length (ds @ [d]))] = Suc (length ds) # rev [0..<Suc (length ds)]" by simp
  ultimately show ?case using n dir ne IH by (simp add: Let_def del: upt_Suc take_append map_eq_conv)
qed


section \<open>The chosen capacity\<close>

text \<open>A memory observation counts when it is positive and not Go's "no limit".\<close>

definition usable :: "nat \<Rightarrow> bool" where
  "usable n \<longleftrightarrow> 0 < n \<and> n < max_int64"

lemma select_limit_pos:
  "0 < sel \<Longrightarrow> select_limit sel ns \<in> insert sel (set (filter usable ns)) \<and>
     (\<forall>n\<in>insert sel (set (filter usable ns)). select_limit sel ns \<le> n)"
proof (induction ns arbitrary: sel)
  case Nil
  then show ?case by simp
next
  case (Cons n ns)
  let ?c = "0 < n \<and> n < max_int64 \<and> (sel = 0 \<or> n < sel)"
  have e: "select_limit sel (n # ns) = select_limit (if ?c then n else sel) ns" by simp
  have "0 < (if ?c then n else sel)" using Cons.prems by simp
  from Cons.IH [OF this] show ?case
    unfolding e using Cons.prems by (cases ?c) (auto simp: usable_def simp del: select_limit.simps)
qed

lemma select_limit_zero:
  "(filter usable ns = [] \<longrightarrow> select_limit 0 ns = 0) \<and>
   (filter usable ns \<noteq> [] \<longrightarrow> select_limit 0 ns \<in> set (filter usable ns) \<and>
      (\<forall>n\<in>set (filter usable ns). select_limit 0 ns \<le> n))"
proof (induction ns)
  case Nil
  then show ?case by simp
next
  case (Cons n ns)
  show ?case
  proof (cases "usable n")
    case True
    then show ?thesis using select_limit_pos [of n ns] by (auto simp: usable_def)
  next
    case False
    then have "select_limit 0 (n # ns) = select_limit 0 ns" by (auto simp: usable_def)
    then show ?thesis using Cons False by simp
  qed
qed

lemma budget_div: "n div 4 div child_budget = n div (4 * child_budget)"
  by (simp add: div_mult2_eq)

lemma resolve_limits_none: "filter usable ns = [] \<Longrightarrow> resolve_limits ns cpus = min (nat (max 1 cpus)) capacity_max"
  using select_limit_zero [of ns] by (simp add: resolve_limits_def)

lemma resolve_limits_some:
  assumes "filter usable ns \<noteq> []"
  shows "\<exists>n\<in>set (filter usable ns). (\<forall>k\<in>set (filter usable ns). n \<le> k) \<and>
     resolve_limits ns cpus = min (max 1 (n div (4 * child_budget))) capacity_max"
proof (intro bexI conjI)
  have a: "select_limit 0 ns \<in> set (filter usable ns)" "\<forall>k\<in>set (filter usable ns). select_limit 0 ns \<le> k"
    using select_limit_zero [of ns] assms by simp_all
  then show "select_limit 0 ns \<in> set (filter usable ns)" "\<forall>k\<in>set (filter usable ns). select_limit 0 ns \<le> k"
    by simp_all
  have "select_limit 0 ns \<noteq> 0" using a(1) by (auto simp: usable_def)
  then show "resolve_limits ns cpus = min (max 1 (select_limit 0 ns div (4 * child_budget))) capacity_max"
    by (simp add: resolve_limits_def Let_def budget_div)
qed

text \<open>The finite memory observations of a host whose Go limit is \<open>go\<close>.\<close>

definition finite_limits :: "nat list \<Rightarrow> int \<Rightarrow> nat list" where
  "finite_limits ms go = filter usable ms @ (if 0 < go \<and> go < int max_int64 then [nat go] else [])"

text \<open>
  C18. The resolved fork capacity. An explicit capacity is taken as it is when it is between 1 and
  \<open>MaxForks\<close> and refused outside 0 to \<open>MaxForks\<close>. An automatic capacity lies between 1 and
  \<open>MaxForks\<close>; unless it is the minimum 1, that many children fit four times over in every finite
  memory observation; and it is the largest such number: one more child would exceed a quarter of
  some observation. With no finite observation it is the number of processors, at least 1.
\<close>
theorem resolved_capacity:
  "(resolve x ms go cpus = None \<longleftrightarrow> x < 0 \<or> int capacity_max < x) \<and>
    (0 < x \<and> x \<le> int capacity_max \<longrightarrow> resolve x ms go cpus = Some (nat x)) \<and>
    (\<forall>r. x = 0 \<and> resolve x ms go cpus = Some r \<longrightarrow>
       1 \<le> r \<and> r \<le> capacity_max \<and>
       (finite_limits ms go = [] \<longrightarrow> r = min (nat (max 1 cpus)) capacity_max) \<and>
       (\<forall>n\<in>set (finite_limits ms go). r = 1 \<or> r * (4 * child_budget) \<le> n) \<and>
       (finite_limits ms go \<noteq> [] \<and> r < capacity_max \<longrightarrow> (\<exists>n\<in>set (finite_limits ms go). n < (r + 1) * (4 * child_budget))))"
proof (intro conjI allI impI ballI)
  show "resolve x ms go cpus = None \<longleftrightarrow> x < 0 \<or> int capacity_max < x" by (simp add: resolve_def Let_def)
  show "resolve x ms go cpus = Some (nat x)" if "0 < x \<and> x \<le> int capacity_max"
    using that by (simp add: resolve_def)
next
  fix r
  assume r: "x = 0 \<and> resolve x ms go cpus = Some r"
  define ns where "ns = ms @ (if 0 < go \<and> go < int max_int64 then [nat go] else [])"
  have ns: "filter usable ns = finite_limits ms go" by (auto simp: ns_def finite_limits_def usable_def)
  have e: "r = resolve_limits ns cpus"
  proof -
    have "resolve 0 ms go cpus = Some (resolve_limits ns cpus)" by (simp add: resolve_def ns_def Let_def)
    then show ?thesis using r by (metis option.inject)
  qed
  have b: "0 < 4 * child_budget" "1 \<le> capacity_max" by (simp_all add: child_budget_def capacity_max_def)
  show "1 \<le> r" "r \<le> capacity_max"
    using e b(2) resolve_limits_none [of ns cpus] resolve_limits_some [of ns cpus] by (cases "filter usable ns = []"; force)+
  show "r = min (nat (max 1 cpus)) capacity_max" if "finite_limits ms go = []"
    using that e ns resolve_limits_none by simp
  show "r = 1 \<or> r * (4 * child_budget) \<le> k" if k: "k \<in> set (finite_limits ms go)" for k
  proof (cases "r = 1")
    case False
    obtain n where n: "n \<le> k" "r = min (max 1 (n div (4 * child_budget))) capacity_max"
      using resolve_limits_some [of ns cpus] k e ns by (metis empty_iff list.set(1))
    then have "r \<le> n div (4 * child_budget)" using False by auto
    then have "r * (4 * child_budget) \<le> n" using b by (metis less_eq_div_iff_mult_less_eq)
    then show ?thesis using n by simp
  qed simp
  show "\<exists>n\<in>set (finite_limits ms go). n < (r + 1) * (4 * child_budget)" if l: "finite_limits ms go \<noteq> [] \<and> r < capacity_max"
  proof -
    obtain n where n: "n \<in> set (finite_limits ms go)" "r = min (max 1 (n div (4 * child_budget))) capacity_max"
      using resolve_limits_some [of ns cpus] l e ns by metis
    then have "n div (4 * child_budget) < r + 1" using l by linarith
    then have "n < (r + 1) * (4 * child_budget)" using b(1) by (simp add: div_less_iff_less_mult)
    then show ?thesis using n(1) by blast
  qed
qed

theorem resolved_capacity_witness:
  "resolve 0 [9223372036854775807, 34359738368, 8589934592] 0 16 = Some 8 \<and>
   (8::nat) * (4 * child_budget) \<le> 8589934592 \<and> resolve (- 1) [] 0 16 = None"
  using resolved_capacity [of 0 "[9223372036854775807, 34359738368, 8589934592]" 0 16]
    resolved_capacity [of "- 1" "[]" 0 16]
  by (simp add: resolve_def resolve_limits_def child_budget_def capacity_max_def max_int64_def usable_def)


section \<open>Explicit capacities in text\<close>

lemma digit_char_0: "digit_char 0 = CHR ''0''"
  by code_simp

lemma digit_val_Some: "digit_val c = Some d \<Longrightarrow> d < 10 \<and> c = digit_char d"
proof -
  assume "digit_val c = Some d"
  then have k: "48 \<le> (of_char c :: nat)" "(of_char c :: nat) \<le> 57" "d = of_char c - 48"
    by (auto simp: digit_val_def Let_def split: if_splits)
  then have "48 + d = of_char c" by linarith
  then show ?thesis using k by (simp add: digit_char_def)
qed

text \<open>A digit string without a leading zero is the canonical text of its value.\<close>

lemma parse_digits_canonical:
  "parse_digits mx 0 s = Some v \<Longrightarrow> s \<noteq> [] \<Longrightarrow> (hd s = CHR ''0'' \<longrightarrow> length s = 1) \<Longrightarrow> s = itoa v"
proof (induction s arbitrary: v rule: rev_induct)
  case Nil
  then show ?case by simp
next
  case (snoc c t)
  obtain a where a: "parse_digits mx 0 t = Some a" and c: "parse_digits mx a [c] = Some v"
    using snoc.prems(1) by (auto simp: parse_digits_append split: option.splits)
  obtain d where d: "digit_val c = Some d" "v = a * 10 + d" using c by (auto split: option.splits if_splits)
  note dc = digit_val_Some [OF d(1)]
  show ?case
  proof (cases "t = []")
    case True
    then show ?thesis using a d dc by (subst itoa.simps) simp
  next
    case False
    then have h: "hd t \<noteq> CHR ''0''" using snoc.prems(3) by auto
    have t: "t = itoa a" using snoc.IH [OF a False] h by simp
    have "0 < a"
    proof (rule ccontr)
      assume "\<not> 0 < a"
      then have "t = [digit_char 0]" using t by (subst (asm) itoa.simps) simp
      then show False using h by (simp add: digit_char_0)
    qed
    then have "itoa v = itoa a @ [digit_char d]" using d dc by (subst itoa.simps) simp
    then show ?thesis using t dc by simp
  qed
qed

lemma parse_digits_all: "parse_digits mx a s = Some v \<Longrightarrow> list_all is_digit s"
  by (induction s arbitrary: a) (auto simp: is_digit_def split: option.splits if_splits)

lemma takeWhile_list_all: "list_all p s \<Longrightarrow> takeWhile p s = s \<and> dropWhile p s = []"
  by (induction s) auto

lemma itoa_leading: "hd (itoa n) = CHR ''0'' \<longleftrightarrow> n = 0"
proof (induction n rule: itoa.induct)
  case (1 n)
  show ?case
  proof (cases "n < 10")
    case True
    have "digit_char n = CHR ''0'' \<longleftrightarrow> n = 0"
    proof
      assume "digit_char n = CHR ''0''"
      then have "digit_val (digit_char n) = Some 0" by (simp add: digit_val_def)
      then show "n = 0" using True by simp
    qed (simp add: digit_char_0)
    then show ?thesis using True by (subst itoa.simps) simp
  next
    case False
    then show ?thesis using 1 by (subst itoa.simps) (simp add: div_greater_zero_iff)
  qed
qed

lemma digits_not_special: "is_digit c \<Longrightarrow> c \<noteq> CHR 0x22 \<and> c \<noteq> CHR ''-''"
  by (auto simp: is_digit_def digit_val_def)

text \<open>
  The explicit capacity of a request. Whatever JSON text is sent, it is accepted exactly when it
  is, between white space, the canonical decimal text of a number up to \<open>MaxForks\<close>, and then that
  number is the capacity: signs, leading zeros, fractions, exponents, strings and \<open>null\<close> are refused,
  and so is every number that would overflow. A missing field is the automatic capacity 0.
\<close>
lemma capacity_decoded_exactly:
  "decode_capacity [] = Some 0 \<and>
   (raw \<noteq> [] \<longrightarrow> (decode_capacity raw = Some v \<longleftrightarrow> trim_space raw = itoa v \<and> v \<le> capacity_max))"
proof (intro conjI impI iffI)
  show "decode_capacity [] = Some 0" by (simp add: decode_capacity_def)
next
  assume "raw \<noteq> []" and r: "decode_capacity raw = Some v"
  then have t: "json_number (trim_space raw)" "parse_uint 63 (trim_space raw) = Some v" "\<not> capacity_max < v"
    by (auto simp: decode_capacity_def Let_def split: if_splits option.splits)
  show "v \<le> capacity_max" using t(3) by simp
  let ?t = "trim_space raw"
  have p: "parse_digits (2 ^ 63 - 1) 0 ?t = Some v" "?t \<noteq> []" using t(2) by (auto simp: parse_uint_def split: if_splits)
  note a = parse_digits_all [OF p(1)]
  have "is_digit (hd ?t)" using a p(2) by (cases ?t) auto
  then have "hd ?t \<noteq> CHR ''-''" using digits_not_special by blast
  then have "(case ?t of c # r \<Rightarrow> if c = CHR ''-'' then r else ?t | [] \<Rightarrow> []) = ?t" by (cases ?t) auto
  then have "hd ?t = CHR ''0'' \<longrightarrow> length ?t = 1"
    using t(1) takeWhile_list_all [OF a] by (simp add: json_number_def Let_def)
  then show "?t = itoa v" using parse_digits_canonical [OF p] by blast
next
  assume ne: "raw \<noteq> []" and "trim_space raw = itoa v \<and> v \<le> capacity_max"
  then have t: "trim_space raw = itoa v" and v: "v \<le> capacity_max" by simp_all
  have "v \<le> 2 ^ 63 - 1" using v by (simp add: capacity_max_def)
  note p = parse_digits_itoa [OF this]
  note a = parse_digits_all [OF p]
  have "is_digit (hd (itoa v))" using a by (cases "itoa v") auto
  then have h: "hd (itoa v) \<noteq> CHR 0x22" "hd (itoa v) \<noteq> CHR ''-''" using digits_not_special by blast+
  then have "(case itoa v of c # r \<Rightarrow> if c = CHR ''-'' then r else itoa v | [] \<Rightarrow> []) = itoa v"
    by (cases "itoa v") auto
  moreover have "hd (itoa v) = CHR ''0'' \<longrightarrow> length (itoa v) = 1"
    using itoa_leading by (auto simp: itoa.simps)
  ultimately have "json_number (itoa v)"
    by (simp add: json_number_def json_fraction_def Let_def conjunct1 [OF takeWhile_list_all [OF a]]
        conjunct2 [OF takeWhile_list_all [OF a]])
  moreover have "parse_uint 63 (itoa v) = Some v" using p by (simp add: parse_uint_def)
  ultimately show "decode_capacity raw = Some v" using ne t h v by (simp add: decode_capacity_def Let_def)
qed

lemma capacity_decoded_exactly_example:
  "decode_capacity '' 250 '' = Some 250 \<and> decode_capacity ''007'' \<noteq> Some 7 \<and> decode_capacity ''2147483648'' = None"
proof -
  have "trim_space '' 250 '' = itoa 250" by code_simp
  moreover have "(250::nat) \<le> capacity_max" by (simp add: capacity_max_def)
  moreover have "trim_space ''007'' = ''007''" "itoa 7 = ''7''" by code_simp+
  moreover have "decode_capacity ''2147483648'' = None"
    by (simp add: decode_capacity_def trim_space_def is_space_def json_number_def is_digit_def digit_val_def
        json_fraction_def parse_uint_def capacity_max_def Let_def)
  ultimately show ?thesis
    using capacity_decoded_exactly [of "'' 250 ''" 250] capacity_decoded_exactly [of "''007''" 7] by simp
qed

section \<open>The visible ancestors of a group\<close>

text \<open>
  The cgroup walk. For a mount of the tree below \<open>rs\<close> at \<open>ms\<close> and a group at \<open>gs\<close> (both of the
  same version, all paths absolute and clean), a group outside the mounted tree contributes nothing;
  for a group inside it, the limits read are those of the group's own directory below the mount and of
  every directory above it up to the mount point, in that order, each exactly once. The walk always
  ends: the fuel the model gives it is enough.
\<close>
lemma cgroup_walk_visits_ancestors:
  assumes "\<forall>c\<in>set rs. proper c" "\<forall>c\<in>set ms. proper c" "\<forall>c\<in>set gs. proper c" "path_clean p = abs_path gs"
  shows "group_limits rd (abs_path rs, abs_path ms, v2) (p, v2) =
    (if take (length rs) gs = rs
     then concat (map (\<lambda>k. read_limit rd v2 (abs_path (ms @ take k (drop (length rs) gs))))
            (rev [0..<Suc (length gs - length rs)]))
     else [])"
proof -
  let ?ds = "drop (length rs) gs"
  have d: "\<forall>c\<in>set ?ds. proper c" using assms(3) by (auto dest: in_set_dropD)
  have "\<forall>c\<in>set (ms @ ?ds). proper c" using d assms(2) by auto
  from length_abs_path [OF this] have "length ?ds < length (abs_path (ms @ ?ds)) + 1" by simp
  from walk_limits_abs [OF assms(2) d this] show ?thesis
    by (simp add: group_limits_def group_directory_abs [OF assms] del: upt_Suc walk_limits.simps)
qed

lemma cgroup_walk_visits_ancestors_example:
  "group_limits (\<lambda>f. if f = ''/sys/fs/cgroup/a/b/memory.max'' then Some ''1024'' else
       if f = ''/sys/fs/cgroup/memory.max'' then Some ''4096'' else None)
     (''/'', ''/sys/fs/cgroup'', True) (''/a/b'', True) = [1024, 4096]"
proof -
  have s: "''/'' = abs_path []" "''/sys/fs/cgroup'' = abs_path [''sys'', ''fs'', ''cgroup'']"
    by (simp_all add: abs_path_def)
  have p: "\<forall>c\<in>set []. proper c" "\<forall>c\<in>set [''sys'', ''fs'', ''cgroup'']. proper c" "\<forall>c\<in>set [''a'', ''b'']. proper c"
    by (simp_all add: proper_def)
  have w: "path_clean ''/a/b'' = abs_path [''a'', ''b'']" by code_simp
  have j: "path_join (abs_path ([''sys'', ''fs'', ''cgroup''] @ [])) (limit_file True) = ''/sys/fs/cgroup/memory.max''"
    "path_join (abs_path ([''sys'', ''fs'', ''cgroup''] @ take 1 [''a'', ''b''])) (limit_file True) = ''/sys/fs/cgroup/a/memory.max''"
    "path_join (abs_path ([''sys'', ''fs'', ''cgroup''] @ take 2 [''a'', ''b''])) (limit_file True) = ''/sys/fs/cgroup/a/b/memory.max''"
    by code_simp+
  have r: "rev [0..<Suc (length [''a'', ''b''] - length [])] = [2, 1, 0]" by (simp add: upt_rec)
  have c: "concat (map f [2, 1, 0]) = f 2 @ f 1 @ f 0" for f :: "nat \<Rightarrow> nat list" by simp
  show ?thesis
    unfolding s cgroup_walk_visits_ancestors [OF p w] r
    by (simp only: c list.size drop_0 take_0 simp_thms if_True read_limit_def j)
      (simp add: parse_uint_def trim_space_def is_space_def digit_val_def)
qed

end
