(* ===== verification/PreparedFile.thy ===== *)
theory PreparedFile
  imports GoError "HOL-Library.AList"
begin

text \<open>
  The copy-on-write files of \<open>internal/prepared\<close> (\<open>heap.go\<close>, \<open>root.go\<close>): blocks, \<open>FileStore\<close> and
  \<open>FrozenFile\<close>. Block storage is an explicit memory: a \<open>[]byte\<close> of a block is an address, so that
  descriptors copied by \<open>Fork\<close> and \<open>LegacyFile\<close> really share bytes and a write in place is a change of
  the memory. A descriptor map is an association list from block numbers. The mapping a store may
  borrow is read-only and kept by value. The counters of \<open>RootMeter\<close> are not modelled: they never
  influence a result.
\<close>

definition block_size :: nat where "block_size = 16384"
definition max_int :: int where "max_int = 9223372036854775807"

definition err_eof :: goerr where "err_eof = Sentinel ''EOF''"
definition err_einval :: goerr where "err_einval = Sentinel ''invalid argument''"
definition err_efbig :: goerr where "err_efbig = Sentinel ''file too large''"
definition err_sealed :: goerr where "err_sealed = Sentinel ''snapshot storage is sealed''"

section \<open>Memory and blocks\<close>

record memory =
  cells :: "nat \<Rightarrow> bytes"
  next_cell :: nat

record block =
  b_data :: "nat option"
  b_valid :: nat

definition no_block :: block where "no_block = \<lparr>b_data = None, b_valid = 0\<rparr>"

definition take_block :: "memory \<Rightarrow> nat \<Rightarrow> int \<Rightarrow> goerr + block" where
  "take_block m a valid =
     (if length (cells m a) \<noteq> block_size \<or> valid < 0 \<or> int block_size < valid
      then Inl (Sentinel ''invalid snapshot block'')
      else Inr \<lparr>b_data = Some a, b_valid = nat valid\<rparr>)"

definition block_limit :: "block \<Rightarrow> int \<Rightarrow> block" where
  "block_limit b n = (if n < int (b_valid b) then b\<lparr>b_valid := nat (max 0 n)\<rparr> else b)"

definition data_of :: "memory \<Rightarrow> block \<Rightarrow> bytes" where
  "data_of m b = (case b_data b of None \<Rightarrow> [] | Some a \<Rightarrow> cells m a)"

text \<open>A buffer of \<open>n\<close> zeros into which \<open>xs\<close> has been copied.\<close>

definition pad :: "nat \<Rightarrow> bytes \<Rightarrow> bytes" where
  "pad n xs = take n xs @ replicate (n - length xs) 0"

definition block_read :: "memory \<Rightarrow> block \<Rightarrow> nat \<Rightarrow> nat \<Rightarrow> bytes" where
  "block_read m b n off =
     pad n (if off < b_valid b then take (min (b_valid b) (off + n) - off) (drop off (data_of m b)) else [])"

section \<open>Reading\<close>

record root_block =
  blk :: block
  route :: string

record root_file =
  f_size :: nat
  f_blocks :: "(nat \<times> root_block) list"
  f_mapping :: "bytes option"
  f_limit :: nat
  f_sealed :: bool

definition empty_file :: root_file where
  "empty_file = \<lparr>f_size = 0, f_blocks = [], f_mapping = None, f_limit = 0, f_sealed = False\<rparr>"

text \<open>The part of a read that lies in one block.\<close>

definition root_chunk :: "memory \<Rightarrow> root_file \<Rightarrow> nat \<Rightarrow> nat \<Rightarrow> bytes" where
  "root_chunk m d at n =
     (case map_of (f_blocks d) (at div block_size) of
        Some e \<Rightarrow> block_read m (blk e) n (at mod block_size)
      | None \<Rightarrow>
          (case f_mapping d of
             Some mp \<Rightarrow> pad n (take (min n (f_limit d - at)) (drop at mp))
           | None \<Rightarrow> pad n []))"

function root_chunks :: "memory \<Rightarrow> root_file \<Rightarrow> nat \<Rightarrow> nat \<Rightarrow> bytes" where
  "root_chunks m d at left =
     (if left = 0 then []
      else
        let n = min left (block_size - at mod block_size) in
        root_chunk m d at n @ root_chunks m d (at + n) (left - n))"
  by auto
termination
proof (relation "measure (\<lambda>(m, d, at, left). left)")
  fix d :: root_file and at left x :: nat
  assume "left \<noteq> 0" and "x = min left (block_size - at mod block_size)"
  moreover have "at mod block_size < block_size" by (simp add: block_size_def)
  ultimately show "((m, d, at + x, left - x), (m, d, at, left)) \<in> measure (\<lambda>(m, d, at, left). left)" for m :: memory
    by auto
qed simp

declare root_chunks.simps [simp del]

text \<open>\<open>rootRead\<close> into a buffer of length \<open>n\<close>: the bytes read and the error, as Go returns them.\<close>

definition root_read :: "memory \<Rightarrow> root_file \<Rightarrow> nat \<Rightarrow> int \<Rightarrow> bytes \<times> goerr option" where
  "root_read m d n off =
     (if off < 0 then ([], Some err_einval)
      else if n = 0 then ([], None)
      else if int (f_size d) \<le> off then ([], Some err_eof)
      else
        let count = min n (f_size d - nat off) in
        (root_chunks m d (nat off) count, if count < n then Some err_eof else None))"

section \<open>Stores\<close>

record store =
  s_source :: nat
  s_data :: root_file
  s_private :: "nat set"

record frozen =
  z_source :: nat
  z_data :: root_file

definition new_file_store :: "nat \<Rightarrow> store" where
  "new_file_store src = \<lparr>s_source = src, s_data = empty_file, s_private = {}\<rparr>"

definition borrow_mapping :: "bytes \<Rightarrow> store \<Rightarrow> goerr option \<times> store" where
  "borrow_mapping p s =
     (let d = s_data s in
      if f_sealed d \<or> f_blocks d \<noteq> [] \<or> f_size d \<noteq> 0 then (Some (Sentinel ''nonempty mapped store''), s)
      else (None, s\<lparr>s_data := d\<lparr>f_mapping := Some p, f_size := length p, f_limit := length p\<rparr>\<rparr>))"

text \<open>Overwriting a slice of a byte array.\<close>

definition splice :: "nat \<Rightarrow> bytes \<Rightarrow> bytes \<Rightarrow> bytes" where
  "splice off p xs = take off xs @ take (length xs - off) p @ drop (off + length p) xs"

definition set_cell :: "nat option \<Rightarrow> (bytes \<Rightarrow> bytes) \<Rightarrow> memory \<Rightarrow> memory" where
  "set_cell a f m = (case a of None \<Rightarrow> m | Some x \<Rightarrow> m\<lparr>cells := (cells m)(x := f (cells m x))\<rparr>)"

text \<open>The descriptor a write uses: the private one, or a fresh copy of what is readable now.\<close>

definition own_block :: "memory \<Rightarrow> store \<Rightarrow> nat \<Rightarrow> memory \<times> store \<times> root_block" where
  "own_block m s i =
     (let d = s_data s in
      if i \<in> s_private s
      then (m, s, case map_of (f_blocks d) i of Some e \<Rightarrow> e | None \<Rightarrow> \<lparr>blk = no_block, route = []\<rparr>)
      else
        let b = pad block_size (fst (root_read m d block_size (int (i * block_size))));
            a = next_cell m;
            valid = min block_size (f_size d - i * block_size) in
        (m\<lparr>cells := (cells m)(a := b), next_cell := Suc a\<rparr>,
         s\<lparr>s_private := insert i (s_private s)\<rparr>,
         \<lparr>blk = \<lparr>b_data = Some a, b_valid = valid\<rparr>, route = ''dirty''\<rparr>))"

definition write_chunk :: "memory \<Rightarrow> store \<Rightarrow> nat \<Rightarrow> bytes \<Rightarrow> memory \<times> store" where
  "write_chunk m s at p =
     (let i = at div block_size; off = at mod block_size in
      case own_block m s i of (m1, s1, e) \<Rightarrow>
        let b = blk e;
            m2 = (if b_valid b < off
                  then set_cell (b_data b) (splice (b_valid b) (replicate (off - b_valid b) 0)) m1 else m1);
            m3 = set_cell (b_data b) (splice off p) m2;
            e' = \<lparr>blk = b\<lparr>b_valid := max (b_valid b) (off + length p)\<rparr>, route = ''dirty''\<rparr>;
            d = s_data s1 in
        (m3, s1\<lparr>s_data := d\<lparr>f_blocks := AList.update i e' (f_blocks d)\<rparr>\<rparr>))"

function write_chunks :: "memory \<Rightarrow> store \<Rightarrow> nat \<Rightarrow> bytes \<Rightarrow> memory \<times> store" where
  "write_chunks m s at p =
     (if p = [] then (m, s)
      else
        let n = min (length p) (block_size - at mod block_size) in
        case write_chunk m s at (take n p) of (m', s') \<Rightarrow> write_chunks m' s' (at + n) (drop n p))"
  by auto
termination
proof (relation "measure (\<lambda>(m, s, at, p). length p)")
  fix p :: bytes and at x :: nat
  assume "p \<noteq> []" and "x = min (length p) (block_size - at mod block_size)"
  moreover have "at mod block_size < block_size" by (simp add: block_size_def)
  ultimately show "((m', s', at + x, drop x p), (m, s, at, p)) \<in> measure (\<lambda>(m, s, at, p). length p)"
    for m m' :: memory and s s' :: store
    by auto
qed simp

declare write_chunks.simps [simp del]

text \<open>\<open>FileStore.WriteAt\<close>: the number of bytes written and the error.\<close>

definition store_write :: "memory \<Rightarrow> store \<Rightarrow> bytes \<Rightarrow> int \<Rightarrow> (nat \<times> goerr option) \<times> memory \<times> store" where
  "store_write m s p off =
     (if f_sealed (s_data s) then ((0, Some err_sealed), m, s)
      else if off < 0 \<or> max_int - int (length p) < off then ((0, Some err_efbig), m, s)
      else if p = [] then ((0, None), m, s)
      else
        case write_chunks m s (nat off) p of (m', s') \<Rightarrow>
          let d = s_data s' in
          ((length p, None), m', s'\<lparr>s_data := d\<lparr>f_size := max (f_size d) (nat off + length p)\<rparr>\<rparr>))"

definition store_read :: "memory \<Rightarrow> store \<Rightarrow> nat \<Rightarrow> int \<Rightarrow> bytes \<times> goerr option" where
  "store_read m s n off = root_read m (s_data s) n off"

text \<open>Truncation to \<open>n\<close> bytes: the block numbers it drops, and the descriptors that survive.\<close>

definition dropped :: "nat \<Rightarrow> nat \<Rightarrow> bool" where
  "dropped n i \<longleftrightarrow> n div block_size \<le> i \<and> (n div block_size < i \<or> n mod block_size = 0)"

definition truncate_blocks :: "nat \<Rightarrow> (nat \<times> root_block) list \<Rightarrow> (nat \<times> root_block) list" where
  "truncate_blocks n bs =
     map (\<lambda>(i, e). (i, if i = n div block_size then e\<lparr>blk := block_limit (blk e) (int (n mod block_size))\<rparr> else e))
       (filter (\<lambda>(i, e). \<not> dropped n i) bs)"

definition store_resize :: "store \<Rightarrow> int \<Rightarrow> goerr option \<times> store" where
  "store_resize s n =
     (let d = s_data s in
      if f_sealed d then (Some err_sealed, s)
      else if n < 0 \<or> max_int < n then (Some err_einval, s)
      else
        let k = nat n;
            s' = (if k < f_size d
                  then s\<lparr>s_private := {i \<in> s_private s. \<not> (dropped k i \<and> i \<in> fst ` set (f_blocks d))},
                         s_data := d\<lparr>f_blocks := truncate_blocks k (f_blocks d), f_limit := min (f_limit d) k\<rparr>\<rparr>
                  else s) in
        (None, s'\<lparr>s_data := (s_data s')\<lparr>f_size := k\<rparr>\<rparr>))"

section \<open>Digests, sealing and forking\<close>

definition block_count :: "nat \<Rightarrow> nat" where
  "block_count n = n div block_size + min (n mod block_size) 1"

text \<open>A sequence of reads up to the first error.\<close>

fun gather :: "(bytes \<times> goerr option) list \<Rightarrow> goerr + bytes" where
  "gather [] = Inr []"
| "gather ((b, Some e) # rs) = Inl e"
| "gather ((b, None) # rs) = (case gather rs of Inl e \<Rightarrow> Inl e | Inr c \<Rightarrow> Inr (b @ c))"

text \<open>\<open>fileDigest\<close>: the blocks are hashed in order; \<open>sha\<close> is SHA-256 in hexadecimal.\<close>

definition file_digest :: "(bytes \<Rightarrow> string) \<Rightarrow> memory \<Rightarrow> root_file \<Rightarrow> goerr + string" where
  "file_digest sha m d =
     (case gather (map (\<lambda>i. root_read m d (min block_size (f_size d - i * block_size)) (int (i * block_size)))
          [0..<block_count (f_size d)]) of
        Inl e \<Rightarrow> Inl e
      | Inr c \<Rightarrow> Inr (sha c))"

text \<open>\<open>Seal\<close> copies the blocks a mapping still provides.\<close>

definition copy_mapped :: "memory \<times> root_file \<Rightarrow> nat \<Rightarrow> memory \<times> root_file" where
  "copy_mapped md i =
     (case md of (m, d) \<Rightarrow>
        if map_of (f_blocks d) i \<noteq> None then (m, d)
        else
          let n = min block_size (f_size d - i * block_size);
              b = pad block_size (fst (root_read m d n (int (i * block_size))));
              a = next_cell m in
          (m\<lparr>cells := (cells m)(a := b), next_cell := Suc a\<rparr>,
           d\<lparr>f_blocks := AList.update i \<lparr>blk = \<lparr>b_data = Some a, b_valid = n\<rparr>, route = ''mapped''\<rparr> (f_blocks d)\<rparr>))"

definition seal_mapped :: "(bytes \<Rightarrow> string) \<Rightarrow> memory \<Rightarrow> root_file \<Rightarrow> goerr option \<times> memory \<times> root_file" where
  "seal_mapped sha m d =
     (case f_mapping d of
        None \<Rightarrow> (None, m, d)
      | Some mp \<Rightarrow>
          (case file_digest sha m d of
             Inl e \<Rightarrow> (Some e, m, d)
           | Inr before \<Rightarrow>
               (case foldl copy_mapped (m, d) [0..<block_count (min (f_limit d) (f_size d))] of
                  (m1, d1) \<Rightarrow>
                    let d2 = d1\<lparr>f_mapping := None, f_limit := 0\<rparr> in
                    (case file_digest sha m1 d2 of
                       Inl e \<Rightarrow> (Some e, m1, d2)
                     | Inr aft \<Rightarrow>
                         (if before \<noteq> aft then Some (Sentinel ''mapped target mismatch'') else None, m1, d2)))))"

definition store_seal :: "(bytes \<Rightarrow> string) \<Rightarrow> memory \<Rightarrow> store \<Rightarrow> (goerr + frozen) \<times> memory \<times> store" where
  "store_seal sha m s =
     (if f_sealed (s_data s) then (Inl (Sentinel ''already sealed''), m, s)
      else
        case seal_mapped sha m (s_data s) of
          (Some e, m', d) \<Rightarrow> (Inl e, m', s\<lparr>s_data := d\<rparr>)
        | (None, m', d) \<Rightarrow>
            let d' = d\<lparr>f_sealed := True\<rparr> in
            (Inr \<lparr>z_source = s_source s, z_data = d'\<rparr>, m', s\<lparr>s_data := d', s_private := {}\<rparr>))"

definition frozen_read :: "memory \<Rightarrow> frozen \<Rightarrow> nat \<Rightarrow> int \<Rightarrow> bytes \<times> goerr option" where
  "frozen_read m z n off = root_read m (z_data z) n off"

definition frozen_fork :: "nat \<Rightarrow> frozen \<Rightarrow> store" where
  "frozen_fork src z =
     (let s = new_file_store src in
      s\<lparr>s_data := (s_data s)\<lparr>f_size := f_size (z_data z),
            f_blocks := map (\<lambda>(i, e). (i, e\<lparr>route := ''inherited''\<rparr>)) (f_blocks (z_data z))\<rparr>\<rparr>)"

section \<open>Contents\<close>

text \<open>The byte a file shows at a position, whatever its size, and the file's contents.\<close>

definition byte_at :: "memory \<Rightarrow> root_file \<Rightarrow> nat \<Rightarrow> u8" where
  "byte_at m d k =
     (case map_of (f_blocks d) (k div block_size) of
        Some e \<Rightarrow> if k mod block_size < b_valid (blk e) then data_of m (blk e) ! (k mod block_size) else 0
      | None \<Rightarrow>
          (case f_mapping d of Some mp \<Rightarrow> if k < f_limit d then mp ! k else 0 | None \<Rightarrow> 0))"

definition contents :: "memory \<Rightarrow> root_file \<Rightarrow> bytes" where
  "contents m d = map (byte_at m d) [0..<f_size d]"

definition block_ok :: "memory \<Rightarrow> block \<Rightarrow> bool" where
  "block_ok m b \<longleftrightarrow> b_valid b \<le> block_size \<and>
     (\<exists>a. b_data b = Some a \<and> a < next_cell m \<and> length (cells m a) = block_size)"

definition file_ok :: "memory \<Rightarrow> root_file \<Rightarrow> bool" where
  "file_ok m d \<longleftrightarrow> (\<forall>i e. map_of (f_blocks d) i = Some e \<longrightarrow> block_ok m (blk e)) \<and>
     f_limit d \<le> f_size d \<and> (\<forall>mp. f_mapping d = Some mp \<longrightarrow> f_limit d \<le> length mp)"

lemma block_size_pos [simp]: "0 < block_size" by (simp add: block_size_def)

lemma length_pad [simp]: "length (pad n xs) = n"
  by (simp add: pad_def)

lemma nth_pad: "k < n \<Longrightarrow> pad n xs ! k = (if k < length xs then xs ! k else 0)"
  by (simp add: pad_def nth_append)

lemma in_block: "at mod block_size + k < block_size \<Longrightarrow>
    (at + k) div block_size = at div block_size \<and> (at + k) mod block_size = at mod block_size + k"
  by (metis div_eq_0_iff div_mult_mod_eq div_mult_self3 group_cancel.add1 mod_less mod_mult_self3
      add.right_neutral gr_implies_not0)

lemma root_chunk_bytes:
  assumes "file_ok m d" "at mod block_size + n \<le> block_size"
  shows "root_chunk m d at n = map (byte_at m d) [at..<at + n]"
proof (rule nth_equalityI)
  show l: "length (root_chunk m d at n) = length (map (byte_at m d) [at..<at + n])"
    by (simp add: root_chunk_def block_read_def split: option.split)
  fix k
  assume "k < length (root_chunk m d at n)"
  then have k: "k < n" using l by simp
  note q = in_block [of at k]
  have i: "(at + k) div block_size = at div block_size" "(at + k) mod block_size = at mod block_size + k"
    using q k assms(2) by simp_all
  show "root_chunk m d at n ! k = map (byte_at m d) [at..<at + n] ! k"
  proof (cases "map_of (f_blocks d) (at div block_size)")
    case None
    then show ?thesis using k i assms(1)
      by (auto simp: root_chunk_def byte_at_def nth_pad file_ok_def split: option.split)
  next
    case (Some e)
    then have "block_ok m (blk e)" using assms(1) by (simp add: file_ok_def)
    then obtain a where a: "b_data (blk e) = Some a" "length (cells m a) = block_size" "b_valid (blk e) \<le> block_size"
      by (auto simp: block_ok_def)
    then show ?thesis using Some k i assms(2)
      by (auto simp: root_chunk_def byte_at_def block_read_def data_of_def nth_pad)
  qed
qed

lemma root_chunks_bytes: "file_ok m d \<Longrightarrow> root_chunks m d at left = map (byte_at m d) [at..<at + left]"
proof (induction m d at left rule: root_chunks.induct)
  case (1 m d at left)
  show ?case
  proof (cases "left = 0")
    case True
    then show ?thesis by (simp add: root_chunks.simps)
  next
    case False
    define n where "n = min left (block_size - at mod block_size)"
    have "at mod block_size + n \<le> block_size" unfolding n_def
      by (metis add_diff_cancel_left' block_size_pos le_add_diff_inverse mod_le_divisor nat_add_left_cancel_le min.cobounded2)
    from root_chunk_bytes [OF "1.prems" this]
    have c: "root_chunk m d at n = map (byte_at m d) [at..<at + n]" .
    have "root_chunks m d (at + n) (left - n) = map (byte_at m d) [at + n..<at + n + (left - n)]"
      using "1.IH" [OF False n_def "1.prems"] .
    moreover have "n \<le> left" by (simp add: n_def)
    ultimately show ?thesis
      using False c upt_add_eq_append [of at "at + n" "left - n"]
      by (subst root_chunks.simps) (simp add: Let_def n_def [symmetric] flip: map_append)
  qed
qed

text \<open>Reading is taking a slice of the contents.\<close>

lemma root_read_contents:
  assumes "file_ok m d"
  shows "root_read m d n off =
     (if off < 0 then ([], Some err_einval)
      else (take n (drop (nat off) (contents m d)),
            if n \<noteq> 0 \<and> f_size d < nat off + n then Some err_eof else None))"
  by (auto simp: root_read_def contents_def root_chunks_bytes [OF assms] Let_def drop_map take_map min_def
      intro!: map_cong)

end
