(* ===== verification/PreparedStore.thy ===== *)
theory PreparedStore
  imports PreparedFile
begin

text \<open>
  What the copy-on-write stores promise: a store behaves like a flat byte array (reading, writing and
  resizing refine slicing, splicing and padding), and no operation on one store changes what any other
  store or any sealed file shows, although they share blocks.
\<close>

section \<open>Ownership of blocks\<close>

definition cell_at :: "root_file \<Rightarrow> nat \<Rightarrow> nat option" where
  "cell_at d i = (case map_of (f_blocks d) i of None \<Rightarrow> None | Some e \<Rightarrow> b_data (blk e))"

definition file_cells :: "root_file \<Rightarrow> nat set" where
  "file_cells d = {a. \<exists>i. cell_at d i = Some a}"

text \<open>The cells a store may write in place.\<close>

definition own_cells :: "store \<Rightarrow> nat set" where
  "own_cells s = {a. \<exists>i\<in>s_private s. cell_at (s_data s) i = Some a}"

text \<open>
  The invariant of a store while a write is in progress: only private blocks may show bytes beyond the
  size, up to \<open>bound\<close>, and a private block shares its cell with no other block of the file.
\<close>

definition write_inv :: "nat \<Rightarrow> memory \<Rightarrow> store \<Rightarrow> bool" where
  "write_inv bound m s \<longleftrightarrow> file_ok m (s_data s) \<and>
     (\<forall>i e. map_of (f_blocks (s_data s)) i = Some e \<longrightarrow>
        i * block_size + max 1 (b_valid (blk e)) \<le> (if i \<in> s_private s then bound else f_size (s_data s))) \<and>
     (\<forall>i\<in>s_private s. map_of (f_blocks (s_data s)) i \<noteq> None) \<and>
     (\<forall>i\<in>s_private s. \<forall>j a. j \<noteq> i \<longrightarrow> cell_at (s_data s) i = Some a \<longrightarrow> cell_at (s_data s) j \<noteq> Some a)"

definition store_inv :: "memory \<Rightarrow> store \<Rightarrow> bool" where
  "store_inv m s \<longleftrightarrow> write_inv (f_size (s_data s)) m s"

lemma file_ok_block: "file_ok m d \<Longrightarrow> map_of (f_blocks d) i = Some e \<Longrightarrow> block_ok m (blk e)"
  by (simp add: file_ok_def)

lemma write_inv_ok: "write_inv bound m s \<Longrightarrow> file_ok m (s_data s)"
  by (simp add: write_inv_def)

lemma write_inv_reach:
  assumes "write_inv bound m s" "map_of (f_blocks (s_data s)) i = Some e"
  shows "i * block_size + max 1 (b_valid (blk e)) \<le> (if i \<in> s_private s then bound else f_size (s_data s))"
  using assms unfolding write_inv_def by blast

lemma write_inv_bound:
  assumes "write_inv bound m s" "map_of (f_blocks (s_data s)) i = Some e"
  shows "i * block_size + b_valid (blk e) \<le> (if i \<in> s_private s then bound else f_size (s_data s))"
  using write_inv_reach [OF assms] by (simp split: if_splits)

lemma write_inv_private: "write_inv bound m s \<Longrightarrow> i \<in> s_private s \<Longrightarrow> \<exists>e. map_of (f_blocks (s_data s)) i = Some e"
  unfolding write_inv_def by blast

lemma write_inv_distinct:
  assumes "write_inv bound m s" "i \<in> s_private s" "cell_at (s_data s) i = Some a" "j \<noteq> i"
  shows "cell_at (s_data s) j \<noteq> Some a"
  using assms unfolding write_inv_def by blast

text \<open>What a step may do to the memory: fill fresh cells and the cells the store owns.\<close>

definition writes_within :: "nat set \<Rightarrow> memory \<Rightarrow> memory \<Rightarrow> bool" where
  "writes_within own m m' \<longleftrightarrow> next_cell m \<le> next_cell m' \<and>
     (\<forall>a. a < next_cell m \<and> a \<notin> own \<longrightarrow> cells m' a = cells m a) \<and>
     (\<forall>a. a < next_cell m \<longrightarrow> length (cells m' a) = length (cells m a))"

lemma writes_within_refl [simp]: "writes_within own m m"
  by (simp add: writes_within_def)

lemma writes_within_trans:
  assumes "writes_within own m m1" "writes_within own1 m1 m2" "own1 \<subseteq> own \<union> {next_cell m..}"
  shows "writes_within own m m2"
  unfolding writes_within_def
proof (intro conjI allI impI)
  show "next_cell m \<le> next_cell m2" using assms by (simp add: writes_within_def)
next
  fix a assume a: "a < next_cell m \<and> a \<notin> own"
  then have "a \<notin> own1" "a < next_cell m1" using assms by (auto simp: writes_within_def)
  then have "cells m2 a = cells m1 a" using assms(2) by (simp add: writes_within_def)
  also have "\<dots> = cells m a" using a assms(1) by (simp add: writes_within_def)
  finally show "cells m2 a = cells m a" .
next
  fix a assume "a < next_cell m"
  then show "length (cells m2 a) = length (cells m a)" using assms by (simp add: writes_within_def)
qed

text \<open>A file none of whose cells are written shows what it showed.\<close>

lemma block_ok_mono: "block_ok m b \<Longrightarrow> writes_within own m m' \<Longrightarrow> block_ok m' b"
  by (auto simp: block_ok_def writes_within_def)

lemma file_ok_mono: "file_ok m d \<Longrightarrow> writes_within own m m' \<Longrightarrow> file_ok m' d"
  unfolding file_ok_def using block_ok_mono by blast

lemma byte_at_mono:
  assumes "file_ok m d" "writes_within own m m'" "own \<inter> file_cells d = {}"
  shows "byte_at m' d k = byte_at m d k"
proof (cases "map_of (f_blocks d) (k div block_size)")
  case None
  then show ?thesis by (simp add: byte_at_def)
next
  case (Some e)
  then have "block_ok m (blk e)" using assms(1) by (simp add: file_ok_def)
  then obtain a where a: "b_data (blk e) = Some a" "a < next_cell m" by (auto simp: block_ok_def)
  then have "a \<in> file_cells d" using Some by (auto simp: file_cells_def cell_at_def intro!: exI [of _ "k div block_size"])
  then have "a \<notin> own" using assms(3) by blast
  then have "cells m' a = cells m a" using assms(2) a by (simp add: writes_within_def)
  then show ?thesis using Some a by (simp add: byte_at_def data_of_def)
qed

lemma contents_mono:
  "file_ok m d \<Longrightarrow> writes_within own m m' \<Longrightarrow> own \<inter> file_cells d = {} \<Longrightarrow> contents m' d = contents m d"
  unfolding contents_def using byte_at_mono by (intro map_cong refl) blast

lemma file_cells_old:
  assumes "file_ok m d" "a \<in> file_cells d"
  shows "a < next_cell m"
proof -
  obtain i e where e: "map_of (f_blocks d) i = Some e" "b_data (blk e) = Some a"
    using assms(2) by (auto simp: file_cells_def cell_at_def split: option.splits)
  show ?thesis using file_ok_block [OF assms(1) e(1)] e(2) by (auto simp: block_ok_def)
qed

lemma own_cells_file: "own_cells s \<subseteq> file_cells (s_data s)"
  by (auto simp: own_cells_def file_cells_def)

lemma byte_at_block:
  assumes "r < block_size"
  shows "byte_at m d (i * block_size + r) =
     (case map_of (f_blocks d) i of
        Some e \<Rightarrow> if r < b_valid (blk e) then data_of m (blk e) ! r else 0
      | None \<Rightarrow> (case f_mapping d of Some mp \<Rightarrow> if i * block_size + r < f_limit d then mp ! (i * block_size + r) else 0
           | None \<Rightarrow> 0))"
proof -
  have q: "(i * block_size + r) div block_size = i" "(i * block_size + r) mod block_size = r" using assms by simp_all
  show ?thesis unfolding byte_at_def q by (rule refl)
qed

text \<open>Nothing is shown beyond the size by a block that is not private.\<close>

lemma byte_beyond:
  assumes "write_inv bound m s" "k div block_size \<notin> s_private s" "f_size (s_data s) \<le> k"
  shows "byte_at m (s_data s) k = 0"
proof (cases "map_of (f_blocks (s_data s)) (k div block_size)")
  case None
  then show ?thesis using assms by (auto simp: byte_at_def write_inv_def file_ok_def split: option.split)
next
  case (Some e)
  then have "k div block_size * block_size + b_valid (blk e) \<le> f_size (s_data s)"
    using write_inv_bound [OF assms(1) Some] assms(2) by simp
  moreover have "k = k div block_size * block_size + k mod block_size" by simp
  ultimately have "\<not> k mod block_size < b_valid (blk e)" using assms(3) by linarith
  then show ?thesis using Some by (simp add: byte_at_def)
qed

section \<open>Writing\<close>

lemma own_block_spec:
  assumes inv: "write_inv bound m s" and r: "own_block m s i = (m1, s1, e)"
  shows "\<exists>a. b_data (blk e) = Some a \<and> a < next_cell m1 \<and> length (cells m1 a) = block_size \<and>
     b_valid (blk e) \<le> block_size \<and> s1 = s\<lparr>s_private := insert i (s_private s)\<rparr> \<and>
     (\<forall>k<block_size. (if k < b_valid (blk e) then cells m1 a ! k else 0) = byte_at m (s_data s) (i * block_size + k)) \<and>
     writes_within {} m m1 \<and> (a \<in> own_cells s \<or> next_cell m \<le> a) \<and>
     (\<forall>j. j \<noteq> i \<longrightarrow> cell_at (s_data s) j \<noteq> Some a) \<and>
     i * block_size + b_valid (blk e) \<le> max (i * block_size) (max bound (f_size (s_data s)))"
proof (cases "i \<in> s_private s")
  case True
  then obtain e0 where e0: "map_of (f_blocks (s_data s)) i = Some e0" using inv by (auto simp: write_inv_def)
  then have e: "m1 = m" "s1 = s" "e = e0" using r True by (simp_all add: own_block_def Let_def)
  have "block_ok m (blk e0)" using inv e0 by (simp add: write_inv_def file_ok_def)
  then obtain a where a: "b_data (blk e0) = Some a" "a < next_cell m" "length (cells m a) = block_size"
    "b_valid (blk e0) \<le> block_size" by (auto simp: block_ok_def)
  have c: "cell_at (s_data s) i = Some a" using a e0 by (simp add: cell_at_def)
  have "a \<in> own_cells s" using c True by (auto simp: own_cells_def)
  moreover have "\<forall>j. j \<noteq> i \<longrightarrow> cell_at (s_data s) j \<noteq> Some a" using inv True c by (simp add: write_inv_def)
  moreover have "i * block_size + b_valid (blk e0) \<le> bound" using write_inv_bound [OF inv e0] True by simp
  moreover have "s = s\<lparr>s_private := insert i (s_private s)\<rparr>" using True by (simp add: insert_absorb)
  ultimately show ?thesis using a e0 e by (intro exI [of _ a]) (auto simp: byte_at_block data_of_def)
next
  case False
  let ?d = "s_data s" and ?a = "next_cell m"
  define b where "b = pad block_size (fst (root_read m ?d block_size (int (i * block_size))))"
  have ok: "file_ok m ?d" using inv by (simp add: write_inv_def)
  have e: "m1 = m\<lparr>cells := (cells m)(?a := b), next_cell := Suc ?a\<rparr>" "s1 = s\<lparr>s_private := insert i (s_private s)\<rparr>"
    "e = \<lparr>blk = \<lparr>b_data = Some ?a, b_valid = min block_size (f_size ?d - i * block_size)\<rparr>, route = ''dirty''\<rparr>"
    using r False by (simp_all add: own_block_def Let_def b_def)
  have bytes: "(if k < min block_size (f_size ?d - i * block_size) then b ! k else 0) = byte_at m ?d (i * block_size + k)"
    if k: "k < block_size" for k
  proof (cases "i * block_size + k < f_size ?d")
    case True
    have "fst (root_read m ?d block_size (int (i * block_size))) = take block_size (drop (i * block_size) (contents m ?d))"
      by (simp add: root_read_contents [OF ok] del: of_nat_mult)
    then show ?thesis using k True by (simp add: b_def nth_pad contents_def) (simp add: less_diff_conv add.commute)
  next
    case False
    have "(i * block_size + k) div block_size \<notin> s_private s" using \<open>i \<notin> s_private s\<close> k by simp
    from byte_beyond [OF inv this] False show ?thesis by (simp add: less_diff_conv add.commute)
  qed
  have "cell_at ?d j \<noteq> Some ?a" for j
    using file_cells_old [OF ok, of ?a] by (auto simp: file_cells_def)
  moreover have "writes_within {} m m1" by (simp add: e writes_within_def)
  moreover have "length b = block_size" by (simp add: b_def)
  moreover have "(if k < b_valid (blk e) then cells m1 ?a ! k else 0) = byte_at m ?d (i * block_size + k)" if "k < block_size" for k
    using bytes [OF that] that by (cases "k < f_size ?d - i * block_size") (simp_all add: e)
  ultimately show ?thesis using e(1,2) by (intro exI [of _ ?a] conjI allI impI) (simp_all add: e(3))
qed


lemma length_splice [simp]: "length (splice off p xs) = length xs"
  by (simp add: splice_def)

lemma nth_splice: "k < length xs \<Longrightarrow> splice off p xs ! k = (if off \<le> k \<and> k < off + length p then p ! (k - off) else xs ! k)"
  by (auto simp: splice_def nth_append min_def)

lemma in_block_split: "k div block_size = i \<Longrightarrow> k = i * block_size + k mod block_size"
  by (metis div_mult_mod_eq)

text \<open>What is installed for the written block: its valid part and its bytes.\<close>

lemma write_chunk_spec:
  assumes inv: "write_inv bound m s" and fits: "at mod block_size + length p \<le> block_size" and p: "p \<noteq> []"
    and w: "write_chunk m s at p = (m', s')"
  shows "write_inv (max (max bound (f_size (s_data s))) (at + length p)) m' s' \<and> writes_within (own_cells s) m m' \<and>
    own_cells s' \<subseteq> own_cells s \<union> {next_cell m..} \<and>
    file_cells (s_data s') \<subseteq> file_cells (s_data s) \<union> {next_cell m..} \<and>
    (\<exists>bs pr. s' = s\<lparr>s_data := (s_data s)\<lparr>f_blocks := bs\<rparr>, s_private := pr\<rparr>) \<and>
    (\<forall>k. byte_at m' (s_data s') k = (if at \<le> k \<and> k < at + length p then p ! (k - at) else byte_at m (s_data s) k))"
proof -
  let ?d = "s_data s" and ?i = "at div block_size" and ?o = "at mod block_size"
  have at: "at = ?i * block_size + ?o" by simp
  obtain m1 s1 e where o: "own_block m s ?i = (m1, s1, e)" by (cases "own_block m s ?i") auto
  obtain a where a: "b_data (blk e) = Some a" "a < next_cell m1" "length (cells m1 a) = block_size"
      "b_valid (blk e) \<le> block_size" "s1 = s\<lparr>s_private := insert ?i (s_private s)\<rparr>"
    and bytes: "\<forall>k<block_size. (if k < b_valid (blk e) then cells m1 a ! k else 0) = byte_at m ?d (?i * block_size + k)"
    and ww: "writes_within {} m m1" and own: "a \<in> own_cells s \<or> next_cell m \<le> a"
    and other: "\<forall>j. j \<noteq> ?i \<longrightarrow> cell_at ?d j \<noteq> Some a"
    and vb: "?i * block_size + b_valid (blk e) \<le> max (?i * block_size) (max bound (f_size ?d))"
    using own_block_spec [OF inv o] by blast
  define v where "v = b_valid (blk e)"
  define c where "c = splice ?o p (if v < ?o then splice v (replicate (?o - v) 0) (cells m1 a) else cells m1 a)"
  define e' where "e' = \<lparr>blk = (blk e)\<lparr>b_valid := max v (?o + length p)\<rparr>, route = ''dirty''\<rparr>"
  have m': "m' = m1\<lparr>cells := (cells m1)(a := c)\<rparr>"
    using w o a by (auto simp: write_chunk_def set_cell_def Let_def c_def v_def)
  have s': "s' = s\<lparr>s_data := ?d\<lparr>f_blocks := AList.update ?i e' (f_blocks ?d)\<rparr>, s_private := insert ?i (s_private s)\<rparr>"
    using w o a by (auto simp: write_chunk_def Let_def e'_def v_def)
  have map: "map_of (f_blocks (s_data s')) j = (if j = ?i then Some e' else map_of (f_blocks ?d) j)" for j
    by (simp add: s' update_conv')
  have same: "f_mapping (s_data s') = f_mapping ?d" "f_limit (s_data s') = f_limit ?d" by (simp_all add: s')
  have lc: "length c = block_size" using a by (simp add: c_def)
  have cb: "c ! k = (if ?o \<le> k \<and> k < ?o + length p then p ! (k - ?o) else if v \<le> k \<and> k < ?o then 0 else cells m1 a ! k)"
    if "k < block_size" for k
    using that a(3) by (auto simp: c_def nth_splice)
  have ww': "writes_within (own_cells s) m m'"
    using ww own lc a(3) by (auto simp: writes_within_def m')
  have bytes': "byte_at m' (s_data s') k = (if at \<le> k \<and> k < at + length p then p ! (k - at) else byte_at m ?d k)" for k
  proof (cases "k div block_size = ?i")
    case True
    define r where "r = k mod block_size"
    have k: "k = ?i * block_size + r" "r < block_size" using in_block_split [OF True] by (simp_all add: r_def)
    have "byte_at m' (s_data s') k = (if r < max v (?o + length p) then c ! r else 0)"
      using True a by (simp add: byte_at_def map r_def e'_def data_of_def m')
    also have "\<dots> = (if ?o \<le> r \<and> r < ?o + length p then p ! (r - ?o) else if r < v then cells m1 a ! r else 0)"
      using cb [OF k(2)] by auto
    also have "(if r < v then cells m1 a ! r else 0) = byte_at m ?d k"
      using bytes k by (simp add: v_def)
    also have "(?o \<le> r \<and> r < ?o + length p) = (at \<le> k \<and> k < at + length p)" using at k(1) by linarith
    also have "r - ?o = k - at" using at k(1) by linarith
    finally show ?thesis .
  next
    case False
    have out: "\<not> (at \<le> k \<and> k < at + length p)"
    proof
      assume "at \<le> k \<and> k < at + length p"
      then have "k = at + (k - at)" "?o + (k - at) < block_size" using fits by linarith+
      then show False using False in_block [of at "k - at"] by metis
    qed
    have "data_of m' (blk e1) = data_of m (blk e1)" if t: "map_of (f_blocks ?d) (k div block_size) = Some e1" for e1
    proof -
      obtain b where b: "b_data (blk e1) = Some b" "b < next_cell m"
        using file_ok_block [OF write_inv_ok [OF inv] t] by (auto simp: block_ok_def)
      have "cell_at ?d (k div block_size) = Some b" using t b by (simp add: cell_at_def)
      then have "b \<noteq> a" using other False by blast
      moreover have "cells m1 b = cells m b" using ww b by (simp add: writes_within_def)
      ultimately show ?thesis using b by (simp add: data_of_def m')
    qed
    then have "byte_at m' (s_data s') k = byte_at m ?d k"
      using False unfolding byte_at_def map same by (cases "map_of (f_blocks ?d) (k div block_size)") simp_all
    then show ?thesis by (simp only: out if_False)
  qed
  have ownc: "own_cells s' \<subseteq> own_cells s \<union> {next_cell m..}"
  proof
    fix x assume "x \<in> own_cells s'"
    then obtain i where i: "i \<in> s_private s'" "cell_at (s_data s') i = Some x" by (auto simp: own_cells_def)
    show "x \<in> own_cells s \<union> {next_cell m..}"
    proof (cases "i = ?i")
      case True
      then have "x = a" using i(2) a(1) by (simp add: cell_at_def map e'_def)
      then show ?thesis using own by auto
    next
      case False
      then have "i \<in> s_private s" "cell_at ?d i = Some x" using i by (simp_all add: s' cell_at_def update_conv')
      then show ?thesis by (auto simp: own_cells_def)
    qed
  qed
  have inv': "write_inv (max (max bound (f_size ?d)) (at + length p)) m' s'"
    unfolding write_inv_def
  proof (intro conjI allI impI ballI)
    have "block_ok m' (blk e')" using a lc fits by (auto simp: block_ok_def e'_def m' v_def)
    moreover have "block_ok m' (blk e1)" if "map_of (f_blocks ?d) j = Some e1" for j e1
      using file_ok_block [OF write_inv_ok [OF inv] that] ww' by (rule block_ok_mono)
    ultimately show "file_ok m' (s_data s')"
      using write_inv_ok [OF inv] unfolding file_ok_def map same by (simp add: s')
  next
    fix j e1 assume j: "map_of (f_blocks (s_data s')) j = Some e1"
    let ?B = "max (max bound (f_size ?d)) (at + length p)"
    have "v \<le> block_size" "?i * block_size + v \<le> max (?i * block_size) (max bound (f_size ?d))"
      using a vb by (simp_all add: v_def)
    then have "?i * block_size + max v (?o + length p) \<le> ?B" using at by (simp add: max_def split: if_splits)
    moreover have "j = ?i \<Longrightarrow> b_valid (blk e1) = max v (?o + length p)" using j by (auto simp: map e'_def)
    moreover have "max 1 (max v (?o + length p)) = max v (?o + length p)" using p by (cases p) (simp_all add: max_def)
    ultimately have "j = ?i \<Longrightarrow> j * block_size + max 1 (b_valid (blk e1)) \<le> ?B" by simp
    moreover have "j \<noteq> ?i \<Longrightarrow> j * block_size + max 1 (b_valid (blk e1)) \<le> (if j \<in> s_private s then bound else f_size ?d)"
      using write_inv_reach [OF inv] j by (simp add: map)
    ultimately show "j * block_size + max 1 (b_valid (blk e1)) \<le> (if j \<in> s_private s' then ?B else f_size (s_data s'))"
      by (cases "j = ?i") (auto simp: s' split: if_splits)
  next
    fix j assume "j \<in> s_private s'"
    then have "j = ?i \<or> j \<in> s_private s" by (simp add: s')
    then show "map_of (f_blocks (s_data s')) j \<noteq> None" using write_inv_private [OF inv] unfolding map by auto
  next
    fix i j b assume i: "i \<in> s_private s'" and j: "j \<noteq> i" and ci: "cell_at (s_data s') i = Some b"
    have cell: "cell_at (s_data s') x = (if x = ?i then Some a else cell_at ?d x)" for x
      using a by (simp add: cell_at_def map e'_def)
    show "cell_at (s_data s') j \<noteq> Some b"
    proof (cases "i = ?i")
      case True
      then show ?thesis using ci j other by (simp add: cell)
    next
      case False
      have c: "i \<in> s_private s" "cell_at ?d i = Some b" using i ci False by (simp add: s', simp only: cell if_False)
      show ?thesis
      proof (cases "j = ?i")
        case True
        then show ?thesis using other c False by (auto simp: cell)
      next
        case jn: False
        then show ?thesis using write_inv_distinct [OF inv c j] by (simp add: cell)
      qed
    qed
  qed
  have "a \<in> file_cells ?d \<union> {next_cell m..}" using own own_cells_file [of s] by auto
  moreover have "cell_at (s_data s') x = (if x = ?i then Some a else cell_at ?d x)" for x
    using a by (simp add: cell_at_def map e'_def)
  ultimately have "file_cells (s_data s') \<subseteq> file_cells ?d \<union> {next_cell m..}" by (auto simp: file_cells_def)
  then show ?thesis using inv' ww' ownc bytes' s' by blast
qed


lemma own_cells_size [simp]: "own_cells (s\<lparr>s_data := (s_data s)\<lparr>f_size := n\<rparr>\<rparr>) = own_cells s"
  by (simp add: own_cells_def cell_at_def)

lemma write_chunks_spec:
  assumes "write_inv bound m s" "write_chunks m s at p = (m', s')" "f_size (s_data s) \<le> bound"
  shows "write_inv (if p = [] then bound else max bound (at + length p)) m' s' \<and> writes_within (own_cells s) m m' \<and>
    own_cells s' \<subseteq> own_cells s \<union> {next_cell m..} \<and>
    file_cells (s_data s') \<subseteq> file_cells (s_data s) \<union> {next_cell m..} \<and>
    (\<exists>bs pr. s' = s\<lparr>s_data := (s_data s)\<lparr>f_blocks := bs\<rparr>, s_private := pr\<rparr>) \<and>
    (\<forall>k. byte_at m' (s_data s') k = (if at \<le> k \<and> k < at + length p then p ! (k - at) else byte_at m (s_data s) k))"
  using assms
proof (induction m s at p arbitrary: bound m' s' rule: write_chunks.induct)
  case (1 m s at p)
  show ?case
  proof (cases "p = []")
    case True
    then have "m' = m" "s' = s" using "1.prems"(2) by (simp_all add: write_chunks.simps)
    moreover have "\<exists>bs pr. s = s\<lparr>s_data := (s_data s)\<lparr>f_blocks := bs\<rparr>, s_private := pr\<rparr>"
      by (intro exI [of _ "f_blocks (s_data s)"] exI [of _ "s_private s"]) simp
    ultimately show ?thesis using "1.prems"(1) True by auto
  next
    case False
    define n where "n = min (length p) (block_size - at mod block_size)"
    obtain m1 s1 where c: "write_chunk m s at (take n p) = (m1, s1)" by (cases "write_chunk m s at (take n p)") auto
    have rest: "write_chunks m1 s1 (at + n) (drop n p) = (m', s')"
      using "1.prems"(2) False c by (subst (asm) write_chunks.simps) (simp add: Let_def n_def [symmetric])
    have lt: "at mod block_size < block_size" using block_size_pos by (rule mod_less_divisor)
    have "n \<le> block_size - at mod block_size" by (simp add: n_def)
    then have n: "at mod block_size + n \<le> block_size" using lt by linarith
    have "0 < n" "n \<le> length p" using False lt by (simp_all add: n_def)
    note n = this n
    then have l: "length (take n p) = n" "take n p \<noteq> []" using False by auto
    let ?B = "max bound (at + n)"
    have one: "write_inv ?B m1 s1" "writes_within (own_cells s) m m1" "own_cells s1 \<subseteq> own_cells s \<union> {next_cell m..}"
      "file_cells (s_data s1) \<subseteq> file_cells (s_data s) \<union> {next_cell m..}"
      "\<exists>bs pr. s1 = s\<lparr>s_data := (s_data s)\<lparr>f_blocks := bs\<rparr>, s_private := pr\<rparr>"
      "\<forall>k. byte_at m1 (s_data s1) k = (if at \<le> k \<and> k < at + n then take n p ! (k - at) else byte_at m (s_data s) k)"
      using write_chunk_spec [OF "1.prems"(1) _ l(2) c] n(3) l(1) "1.prems"(3) by (simp_all add: max_absorb1)
    then have sz: "f_size (s_data s1) \<le> ?B" using "1.prems"(3) by auto
    have IH: "write_inv (if drop n p = [] then ?B else max ?B (at + n + length (drop n p))) m' s' \<and>
      writes_within (own_cells s1) m1 m' \<and> own_cells s' \<subseteq> own_cells s1 \<union> {next_cell m1..} \<and>
      file_cells (s_data s') \<subseteq> file_cells (s_data s1) \<union> {next_cell m1..} \<and>
      (\<exists>bs pr. s' = s1\<lparr>s_data := (s_data s1)\<lparr>f_blocks := bs\<rparr>, s_private := pr\<rparr>) \<and>
      (\<forall>k. byte_at m' (s_data s') k = (if at + n \<le> k \<and> k < at + n + length (drop n p) then drop n p ! (k - (at + n))
           else byte_at m1 (s_data s1) k))"
      by (rule "1.IH" [OF False n_def c [symmetric] one(1) rest sz])
    have "(if drop n p = [] then ?B else max ?B (at + n + length (drop n p))) = max bound (at + length p)"
      using n(2) by auto
    then have "write_inv (if p = [] then bound else max bound (at + length p)) m' s'" using IH False by simp
    moreover have "writes_within (own_cells s) m m'" using writes_within_trans [OF one(2) _ one(3)] IH by blast
    moreover have "own_cells s' \<subseteq> own_cells s \<union> {next_cell m..}"
      using IH one(2,3) by (fastforce simp: writes_within_def)
    moreover have "file_cells (s_data s') \<subseteq> file_cells (s_data s) \<union> {next_cell m..}"
      using IH one(2,4) by (fastforce simp: writes_within_def)
    moreover have "\<exists>bs pr. s' = s\<lparr>s_data := (s_data s)\<lparr>f_blocks := bs\<rparr>, s_private := pr\<rparr>"
    proof -
      obtain b1 p1 where e1: "s1 = s\<lparr>s_data := (s_data s)\<lparr>f_blocks := b1\<rparr>, s_private := p1\<rparr>" using one(5) by blast
      obtain b2 p2 where "s' = s1\<lparr>s_data := (s_data s1)\<lparr>f_blocks := b2\<rparr>, s_private := p2\<rparr>" using IH by blast
      then have "s' = s\<lparr>s_data := (s_data s)\<lparr>f_blocks := b2\<rparr>, s_private := p2\<rparr>" by (simp add: e1)
      then show ?thesis by blast
    qed
    moreover have "byte_at m' (s_data s') k = (if at \<le> k \<and> k < at + length p then p ! (k - at) else byte_at m (s_data s) k)" for k
      using IH one(6) n(2) by (auto simp: min_def)
    ultimately show ?thesis by blast
  qed
qed


section \<open>The flat file\<close>

text \<open>A flat file is a byte list: writing past its end fills the gap with zeros.\<close>

definition flat_write :: "bytes \<Rightarrow> nat \<Rightarrow> bytes \<Rightarrow> bytes" where
  "flat_write f off p = take off f @ replicate (off - length f) 0 @ p @ drop (off + length p) f"

definition flat_resize :: "bytes \<Rightarrow> nat \<Rightarrow> bytes" where
  "flat_resize f n = take n f @ replicate (n - length f) 0"

lemma length_contents [simp]: "length (contents m d) = f_size d"
  by (simp add: contents_def)

lemma nth_contents: "k < f_size d \<Longrightarrow> contents m d ! k = byte_at m d k"
  by (simp add: contents_def)

lemma length_flat_write: "p \<noteq> [] \<Longrightarrow> length (flat_write f off p) = max (length f) (off + length p)"
  by (auto simp: flat_write_def)

lemma nth_flat_write: "k < length (flat_write f off p) \<Longrightarrow> flat_write f off p ! k =
    (if off \<le> k \<and> k < off + length p then p ! (k - off) else if k < length f then f ! k else 0)"
  by (auto simp: flat_write_def nth_append min_def)

lemma store_byte_beyond:
  assumes "store_inv m s" "f_size (s_data s) \<le> k"
  shows "byte_at m (s_data s) k = 0"
proof (cases "map_of (f_blocks (s_data s)) (k div block_size)")
  case None
  then show ?thesis using assms by (auto simp: byte_at_def store_inv_def write_inv_def file_ok_def split: option.split)
next
  case (Some e)
  then have "k div block_size * block_size + b_valid (blk e) \<le> f_size (s_data s)"
    using write_inv_bound [OF assms(1) [unfolded store_inv_def]] by (metis (full_types))
  moreover have "k = k div block_size * block_size + k mod block_size" by simp
  ultimately have "\<not> k mod block_size < b_valid (blk e)" using assms(2) by linarith
  then show ?thesis using Some by (simp add: byte_at_def)
qed

lemma byte_at_size [simp]: "byte_at m (d\<lparr>f_size := n\<rparr>) k = byte_at m d k"
  by (simp add: byte_at_def split: option.split)

lemma contentsI: "f_size d = length f \<Longrightarrow> (\<And>k. k < length f \<Longrightarrow> byte_at m d k = f ! k) \<Longrightarrow> contents m d = f"
  by (rule nth_equalityI) (simp_all add: nth_contents)

lemma store_write_spec:
  assumes inv: "store_inv m s" and w: "store_write m s p off = ((n, None), m', s')"
  shows "store_inv m' s' \<and> writes_within (own_cells s) m m' \<and> own_cells s' \<subseteq> own_cells s \<union> {next_cell m..} \<and>
    file_cells (s_data s') \<subseteq> file_cells (s_data s) \<union> {next_cell m..} \<and>
    f_mapping (s_data s') = f_mapping (s_data s) \<and> f_limit (s_data s') = f_limit (s_data s) \<and>
    n = length p \<and> 0 \<le> off \<and> s_source s' = s_source s \<and> \<not> f_sealed (s_data s') \<and>
    contents m' (s_data s') = (if p = [] then contents m (s_data s) else flat_write (contents m (s_data s)) (nat off) p)"
proof -
  let ?d = "s_data s" and ?o = "nat off"
  have g: "\<not> f_sealed ?d" "0 \<le> off" using w by (auto simp: store_write_def split: if_splits)
  show ?thesis
  proof (cases "p = []")
    case True
    then show ?thesis using w inv g by (auto simp: store_write_def split: if_splits)
  next
    case False
    obtain m1 s1 where c: "write_chunks m s ?o p = (m1, s1)" by (cases "write_chunks m s ?o p") auto
    have r: "n = length p" "m' = m1" "s' = s1\<lparr>s_data := (s_data s1)\<lparr>f_size := max (f_size (s_data s1)) (?o + length p)\<rparr>\<rparr>"
      using w g False c by (auto simp: store_write_def Let_def split: if_splits)
    have one: "write_inv (max (f_size ?d) (?o + length p)) m1 s1" "writes_within (own_cells s) m m1"
      "own_cells s1 \<subseteq> own_cells s \<union> {next_cell m..}"
      "file_cells (s_data s1) \<subseteq> file_cells (s_data s) \<union> {next_cell m..}"
      "\<exists>bs pr. s1 = s\<lparr>s_data := ?d\<lparr>f_blocks := bs\<rparr>, s_private := pr\<rparr>"
      "\<forall>k. byte_at m1 (s_data s1) k = (if ?o \<le> k \<and> k < ?o + length p then p ! (k - ?o) else byte_at m ?d k)"
      using write_chunks_spec [OF inv [unfolded store_inv_def] c order_refl] False by (simp_all only: if_False simp_thms)
    have sz: "f_size (s_data s1) = f_size ?d" "s_source s1 = s_source s" "f_sealed (s_data s1) = f_sealed ?d"
      "f_mapping (s_data s1) = f_mapping ?d" "f_limit (s_data s1) = f_limit ?d"
      using one(5) by auto
    have cell: "cell_at ((s_data s1)\<lparr>f_size := x\<rparr>) i = cell_at (s_data s1) i" for x i by (simp add: cell_at_def)
    have "i * block_size + max 1 (b_valid (blk e)) \<le> max (f_size ?d) (?o + length p)"
      if "map_of (f_blocks (s_data s1)) i = Some e" for i e
      using write_inv_reach [OF one(1) that] sz(1) by (simp split: if_splits)
    then have "store_inv m' s'"
      using one(1) by (simp add: store_inv_def write_inv_def r sz cell file_ok_def max.coboundedI1)
    moreover have "contents m1 (s_data s') = flat_write (contents m ?d) ?o p"
    proof (rule contentsI)
      show "f_size (s_data s') = length (flat_write (contents m ?d) ?o p)"
        by (simp add: length_flat_write [OF False] r sz)
    next
      fix k assume "k < length (flat_write (contents m ?d) ?o p)"
      from nth_flat_write [OF this] show "byte_at m1 (s_data s') k = flat_write (contents m ?d) ?o p ! k"
        using one(6) store_byte_beyond [OF inv, of k] by (auto simp: r nth_contents)
    qed
    ultimately show ?thesis using one(2,3,4) r g sz False by (simp add: file_cells_def cell)
  qed
qed

lemma store_write_error: "store_write m s p off = ((n, Some e), m', s') \<Longrightarrow> n = 0 \<and> m' = m \<and> s' = s"
  by (auto simp: store_write_def Let_def split: if_splits prod.splits)


section \<open>Resizing\<close>

lemma map_of_truncate:
  "map_of (truncate_blocks n bs) i =
     (if dropped n i then None
      else map_option (\<lambda>e. if i = n div block_size then e\<lparr>blk := block_limit (blk e) (int (n mod block_size))\<rparr> else e)
             (map_of bs i))"
  by (induction bs) (auto simp: truncate_blocks_def)

lemma block_limit_valid: "b_valid (block_limit b (int n)) = min (b_valid b) n"
  by (simp add: block_limit_def)

lemma block_limit_data [simp]: "b_data (block_limit b n) = b_data b"
  by (simp add: block_limit_def)

lemma block_limit_ok: "block_ok m b \<Longrightarrow> block_ok m (block_limit b n)"
  by (auto simp: block_ok_def block_limit_def)

lemma below_not_dropped: "k < n \<Longrightarrow> \<not> dropped n (k div block_size)"
proof
  assume "k < n" "dropped n (k div block_size)"
  moreover have "k div block_size \<le> n div block_size" using \<open>k < n\<close> by (simp add: div_le_mono)
  ultimately have "n div block_size = k div block_size" "n mod block_size = 0" by (auto simp: dropped_def)
  then have "n = k div block_size * block_size" by (metis add.right_neutral div_mult_mod_eq)
  then show False using \<open>k < n\<close> by (metis div_times_less_eq_dividend not_le)
qed

lemma kept_bound:
  assumes "\<not> dropped n i"
  shows "i * block_size + (if i = n div block_size then min v (n mod block_size) else min v block_size) \<le> n"
proof (cases "i = n div block_size")
  case True
  have "n div block_size * block_size + n mod block_size = n" by simp
  moreover have "min v (n mod block_size) \<le> n mod block_size" by simp
  ultimately have "n div block_size * block_size + min v (n mod block_size) \<le> n" by linarith
  then show ?thesis using True by simp
next
  case False
  then have "i < n div block_size" using assms by (auto simp: dropped_def)
  then have "Suc i * block_size \<le> n div block_size * block_size" by (intro mult_le_mono) simp_all
  also have "\<dots> \<le> n" by simp
  finally have "i * block_size + block_size \<le> n" by simp
  then show ?thesis using False by (simp add: min_def)
qed

lemma store_resize_spec:
  assumes inv: "store_inv m s" and r: "store_resize s n = (None, s')"
  shows "store_inv m s' \<and> own_cells s' \<subseteq> own_cells s \<and> file_cells (s_data s') \<subseteq> file_cells (s_data s) \<and>
    0 \<le> n \<and> s_source s' = s_source s \<and> \<not> f_sealed (s_data s') \<and>
    contents m (s_data s') = flat_resize (contents m (s_data s)) (nat n)"
proof -
  let ?d = "s_data s" and ?k = "nat n"
  have g: "\<not> f_sealed ?d" "0 \<le> n" using r by (auto simp: store_resize_def Let_def split: if_splits)
  note w = inv [unfolded store_inv_def]
  show ?thesis
  proof (cases "?k < f_size ?d")
    case False
    then have s': "s' = s\<lparr>s_data := ?d\<lparr>f_size := ?k\<rparr>\<rparr>" using r g by (auto simp: store_resize_def Let_def split: if_splits)
    have cell: "cell_at (?d\<lparr>f_size := x\<rparr>) = cell_at ?d" for x by (simp add: cell_at_def fun_eq_iff)
    have "i * block_size + max 1 (b_valid (blk e)) \<le> f_size ?d" if "map_of (f_blocks ?d) i = Some e" for i e
      using write_inv_reach [OF w that] by (simp split: if_splits)
    then have "store_inv m s'" using w False
      by (simp add: s' store_inv_def write_inv_def cell file_ok_def) (meson le_trans not_le less_imp_le)
    moreover have "contents m (s_data s') = flat_resize (contents m ?d) ?k"
      using False store_byte_beyond [OF inv] by (intro contentsI) (auto simp: s' flat_resize_def nth_append nth_contents)
    ultimately show ?thesis using g by (simp add: s' own_cells_def file_cells_def cell)
  next
    case True
    have s': "s' = s\<lparr>s_private := {i \<in> s_private s. \<not> (dropped ?k i \<and> i \<in> fst ` set (f_blocks ?d))},
        s_data := ?d\<lparr>f_blocks := truncate_blocks ?k (f_blocks ?d), f_limit := min (f_limit ?d) ?k, f_size := ?k\<rparr>\<rparr>"
      using r g True by (auto simp: store_resize_def Let_def split: if_splits)
    have map: "map_of (f_blocks (s_data s')) i =
        (if dropped ?k i then None
         else map_option (\<lambda>e. if i = ?k div block_size then e\<lparr>blk := block_limit (blk e) (int (?k mod block_size))\<rparr> else e)
                (map_of (f_blocks ?d) i))" for i
      by (simp add: s' map_of_truncate)
    have cell: "cell_at (s_data s') i = (if dropped ?k i then None else cell_at ?d i)" for i
      by (simp add: cell_at_def map split: option.split)
    have priv: "i \<in> s_private s \<and> \<not> dropped ?k i" if "i \<in> s_private s'" for i
    proof -
      have i: "i \<in> s_private s" "\<not> (dropped ?k i \<and> i \<in> fst ` set (f_blocks ?d))" using that by (simp_all add: s')
      then obtain e where "map_of (f_blocks ?d) i = Some e" using write_inv_private [OF w] by blast
      then have "i \<in> fst ` set (f_blocks ?d)" by (metis domI dom_map_of_conv_image_fst)
      then show ?thesis using i by simp
    qed
    have inv': "store_inv m s'"
      unfolding store_inv_def write_inv_def
    proof (intro conjI allI impI ballI)
      have "block_ok m (blk e)" if "map_of (f_blocks (s_data s')) i = Some e" for i e
        using that file_ok_block [OF write_inv_ok [OF w]] block_limit_ok by (auto simp: map split: if_splits)
      then show "file_ok m (s_data s')" using write_inv_ok [OF w] by (auto simp: file_ok_def s')
    next
      fix i e assume e: "map_of (f_blocks (s_data s')) i = Some e"
      obtain e0 where e0: "map_of (f_blocks ?d) i = Some e0" "\<not> dropped ?k i"
        "b_valid (blk e) = (if i = ?k div block_size then min (b_valid (blk e0)) (?k mod block_size) else b_valid (blk e0))"
        using e by (cases "map_of (f_blocks ?d) i") (auto simp: map block_limit_valid split: if_splits)
      have "b_valid (blk e0) \<le> block_size" using file_ok_block [OF write_inv_ok [OF w] e0(1)] by (simp add: block_ok_def)
      moreover have "i * block_size < ?k"
        using kept_bound [OF e0(2), of 1] e0(2) block_size_pos by (auto simp: dropped_def min_def Suc_le_eq split: if_splits)
      ultimately have "i * block_size + max 1 (b_valid (blk e)) \<le> ?k"
        using kept_bound [OF e0(2), of "b_valid (blk e0)"] e0(3) by (simp add: min_absorb1 max_def split: if_splits)
      then show "i * block_size + max 1 (b_valid (blk e)) \<le> (if i \<in> s_private s' then f_size (s_data s') else f_size (s_data s'))"
        by (simp add: s')
    next
      fix i assume "i \<in> s_private s'"
      from priv [OF this] show "map_of (f_blocks (s_data s')) i \<noteq> None"
        using write_inv_private [OF w] by (auto simp: map)
    next
      fix i j a assume "i \<in> s_private s'" "j \<noteq> i" "cell_at (s_data s') i = Some a"
      with priv write_inv_distinct [OF w] show "cell_at (s_data s') j \<noteq> Some a" by (auto simp: cell split: if_splits)
    qed
    have bytes: "byte_at m (s_data s') k = byte_at m ?d k" if k: "k < ?k" for k
    proof (cases "map_of (f_blocks ?d) (k div block_size)")
      case None
      moreover have "f_mapping (s_data s') = f_mapping ?d" "f_limit (s_data s') = min (f_limit ?d) ?k" by (simp_all add: s')
      ultimately show ?thesis using k unfolding byte_at_def map by (auto split: option.split)
    next
      case (Some e)
      have "k mod block_size < ?k mod block_size" if "k div block_size = ?k div block_size"
        using that k by (metis div_mult_mod_eq nat_add_left_cancel_less)
      then show ?thesis using Some below_not_dropped [OF k]
        by (auto simp: byte_at_def map block_limit_valid data_of_def)
    qed
    have "contents m (s_data s') = flat_resize (contents m ?d) ?k"
      using True bytes by (intro contentsI) (auto simp: s' flat_resize_def nth_append nth_contents)
    moreover have "own_cells s' \<subseteq> own_cells s" using priv by (auto simp: own_cells_def cell split: if_splits)
    moreover have "file_cells (s_data s') \<subseteq> file_cells ?d" by (auto simp: file_cells_def cell split: if_splits)
    ultimately show ?thesis using inv' g by (simp add: s')
  qed
qed


section \<open>Digests\<close>

lemma upto_split: "a \<le> b \<Longrightarrow> map f [0..<a] @ map f [a..<b] = map f [0..<b]"
  by (metis le_add_diff_inverse map_append upt_add_eq_append zero_le)

lemma block_count_bounds: "i < block_count n \<longleftrightarrow> i * block_size < n"
proof -
  have n: "n = n div block_size * block_size + n mod block_size" by simp
  have m: "n mod block_size < block_size" by simp
  show ?thesis
  proof (cases "i < n div block_size")
    case True
    then have "Suc i * block_size \<le> n div block_size * block_size" by (intro mult_le_mono) simp_all
    also have "\<dots> \<le> n" by simp
    finally have "block_size + i * block_size \<le> n" by simp
    then have "i * block_size < n" using block_size_pos by linarith
    then show ?thesis using True by (simp add: block_count_def)
  next
    case False
    show ?thesis
    proof (cases "i = n div block_size")
      case True
      have "i * block_size < n \<longleftrightarrow> 0 < n mod block_size" using n unfolding True by linarith
      moreover have "i < block_count n \<longleftrightarrow> 0 < n mod block_size" unfolding True block_count_def by linarith
      ultimately show ?thesis by (simp only:)
    next
      case neq: False
      then have "Suc (n div block_size) * block_size \<le> i * block_size" using False by (intro mult_le_mono) simp_all
      then have "block_size + n div block_size * block_size \<le> i * block_size" by simp
      then have "n \<le> i * block_size" using n m by linarith
      then show ?thesis using False neq by (simp add: block_count_def min_def)
    qed
  qed
qed

lemma gather_ok: "\<forall>r\<in>set rs. snd r = None \<Longrightarrow> gather rs = Inr (concat (map fst rs))"
  by (induction rs rule: gather.induct) auto

lemma blocks_concat:
  "concat (map (\<lambda>i. map f [i * block_size..<i * block_size + min block_size (n - i * block_size)]) [0..<j])
     = map f [0..<min n (j * block_size)]"
proof (induction j)
  case 0
  then show ?case by simp
next
  case (Suc j)
  show ?case
  proof (cases "j * block_size \<le> n")
    case True
    have e: "j * block_size + min block_size (n - j * block_size) = min n (Suc j * block_size)" using True by auto
    have "min n (j * block_size) = j * block_size" using True by simp
    then show ?thesis using Suc e upto_split [of "j * block_size" "min n (Suc j * block_size)" f] True by simp
  next
    case False
    then have "min block_size (n - j * block_size) = 0" "min n (j * block_size) = n" "min n (Suc j * block_size) = n" by simp_all
    then show ?thesis using Suc by simp
  qed
qed

text \<open>The digest of a file is the hash of its contents.\<close>

lemma file_digest_contents:
  assumes "file_ok m d"
  shows "file_digest sha m d = Inr (sha (contents m d))"
proof -
  let ?r = "\<lambda>i. root_read m d (min block_size (f_size d - i * block_size)) (int (i * block_size))"
  have r: "?r i = (map (byte_at m d) [i * block_size..<i * block_size + min block_size (f_size d - i * block_size)], None)"
    if "i < block_count (f_size d)" for i
  proof -
    have "i * block_size < f_size d" using that block_count_bounds by blast
    then have "\<not> f_size d < i * block_size + min block_size (f_size d - i * block_size)" by simp
    moreover have "take (min block_size (f_size d - i * block_size)) (drop (i * block_size) (contents m d))
        = map (byte_at m d) [i * block_size..<i * block_size + min block_size (f_size d - i * block_size)]"
      by (intro nth_equalityI) (auto simp: contents_def)
    ultimately show ?thesis by (simp add: root_read_contents [OF assms] del: of_nat_mult)
  qed
  let ?rs = "map ?r [0..<block_count (f_size d)]"
  have "\<forall>x\<in>set ?rs. snd x = None" using r by auto
  note g = gather_ok [OF this]
  have "map fst ?rs = map (\<lambda>i. map (byte_at m d) [i * block_size..<i * block_size + min block_size (f_size d - i * block_size)])
      [0..<block_count (f_size d)]"
    using r by simp
  moreover have "min (f_size d) (block_count (f_size d) * block_size) = f_size d"
    using block_count_bounds [of "block_count (f_size d)" "f_size d"] by simp
  ultimately have "concat (map fst ?rs) = contents m d" by (simp only: blocks_concat contents_def)
  then show ?thesis using g by (simp add: file_digest_def)
qed

section \<open>Sealing and forking\<close>

text \<open>A frozen file: sealed, without a mapping, showing nothing beyond its size.\<close>

definition frozen_inv :: "memory \<Rightarrow> frozen \<Rightarrow> bool" where
  "frozen_inv m z \<longleftrightarrow> store_inv m \<lparr>s_source = z_source z, s_data = z_data z, s_private = {}\<rparr> \<and>
     f_sealed (z_data z) \<and> f_mapping (z_data z) = None \<and> f_limit (z_data z) = 0"

lemma copy_mapped_spec:
  assumes inv: "store_inv m s" and c: "copy_mapped (m, s_data s) i = (m', d')" and i: "i * block_size < f_size (s_data s)"
  shows "store_inv m' (s\<lparr>s_data := d'\<rparr>) \<and> writes_within {} m m' \<and> (\<forall>k. byte_at m' d' k = byte_at m (s_data s) k) \<and>
    own_cells (s\<lparr>s_data := d'\<rparr>) = own_cells s \<and> (\<exists>bs. d' = (s_data s)\<lparr>f_blocks := bs\<rparr>) \<and>
    file_cells d' \<subseteq> file_cells (s_data s) \<union> {next_cell m..} \<and>
    (\<forall>j. map_of (f_blocks d') j \<noteq> None \<longleftrightarrow> j = i \<or> map_of (f_blocks (s_data s)) j \<noteq> None)"
proof (cases "map_of (f_blocks (s_data s)) i")
  case (Some e)
  then have "m' = m" "d' = s_data s" using c by (simp_all add: copy_mapped_def)
  moreover have "\<exists>bs. s_data s = (s_data s)\<lparr>f_blocks := bs\<rparr>" by (rule exI [of _ "f_blocks (s_data s)"]) simp
  ultimately show ?thesis using inv Some by auto
next
  case None
  let ?d = "s_data s" and ?a = "next_cell m"
  note w = inv [unfolded store_inv_def]
  have ok: "file_ok m ?d" using write_inv_ok [OF w] .
  define n where "n = min block_size (f_size ?d - i * block_size)"
  define b where "b = pad block_size (fst (root_read m ?d n (int (i * block_size))))"
  define e where "e = \<lparr>blk = \<lparr>b_data = Some ?a, b_valid = n\<rparr>, route = ''mapped''\<rparr>"
  have m': "m' = m\<lparr>cells := (cells m)(?a := b), next_cell := Suc ?a\<rparr>"
    and d': "d' = ?d\<lparr>f_blocks := AList.update i e (f_blocks ?d)\<rparr>"
    using c None by (simp_all add: copy_mapped_def Let_def n_def b_def e_def)
  have map: "map_of (f_blocks d') j = (if j = i then Some e else map_of (f_blocks ?d) j)" for j
    by (simp add: d' update_conv')
  have same: "f_mapping d' = f_mapping ?d" "f_limit d' = f_limit ?d" "f_size d' = f_size ?d" by (simp_all add: d')
  have ww: "writes_within {} m m'" by (simp add: m' writes_within_def)
  have cell: "cell_at d' j = (if j = i then Some ?a else cell_at ?d j)" for j by (simp add: cell_at_def map e_def)
  have np: "i \<notin> s_private s" using write_inv_private [OF w, of i] None by auto
  have lb: "length b = block_size" by (simp add: b_def)
  have bytes: "byte_at m' d' k = byte_at m ?d k" for k
  proof (cases "k div block_size = i")
    case False
    have "byte_at m' d' k = byte_at m' ?d k" using False unfolding byte_at_def map same by simp
    then show ?thesis using byte_at_mono [OF ok ww] by simp
  next
    case True
    define r where "r = k mod block_size"
    have k: "k = i * block_size + r" "r < block_size" using in_block_split [OF True] by (simp_all add: r_def)
    have l: "byte_at m' d' k = (if r < n then b ! r else 0)"
      using True by (simp add: byte_at_def map e_def data_of_def m' r_def)
    show ?thesis
    proof (cases "r < n")
      case True
      then have q: "r < f_size ?d - i * block_size" by (simp add: n_def)
      have "fst (root_read m ?d n (int (i * block_size))) = take n (drop (i * block_size) (contents m ?d))"
        by (simp add: root_read_contents [OF ok] del: of_nat_mult)
      then have "b ! r = byte_at m ?d k" using True k q by (simp add: b_def nth_pad contents_def add.commute)
      then show ?thesis using l True by simp
    next
      case False
      then have "f_size ?d \<le> k" using k by (auto simp: n_def)
      then show ?thesis using store_byte_beyond [OF inv] l False by simp
    qed
  qed
  have oc: "own_cells (s\<lparr>s_data := d'\<rparr>) = own_cells s" using np by (auto simp: own_cells_def cell)
  have "store_inv m' (s\<lparr>s_data := d'\<rparr>)"
    unfolding store_inv_def write_inv_def
  proof (intro conjI allI impI ballI)
    have "block_ok m' (blk e)" using lb by (simp add: block_ok_def e_def m' n_def)
    moreover have "block_ok m' (blk e1)" if "map_of (f_blocks ?d) j = Some e1" for j e1
      using file_ok_block [OF ok that] ww by (rule block_ok_mono)
    ultimately show "file_ok m' (s_data (s\<lparr>s_data := d'\<rparr>))"
      using ok unfolding file_ok_def by (auto simp: map same)
  next
    fix j e1 assume j: "map_of (f_blocks (s_data (s\<lparr>s_data := d'\<rparr>))) j = Some e1"
    have "j * block_size + max 1 (b_valid (blk e1)) \<le> f_size ?d" if "j \<noteq> i"
      using write_inv_reach [OF w] j that by (simp add: map split: if_splits)
    moreover have "j * block_size + max 1 (b_valid (blk e1)) \<le> f_size ?d" if "j = i"
      using j that i by (auto simp: map e_def n_def)
    ultimately show "j * block_size + max 1 (b_valid (blk e1))
        \<le> (if j \<in> s_private (s\<lparr>s_data := d'\<rparr>) then f_size (s_data (s\<lparr>s_data := d'\<rparr>)) else f_size (s_data (s\<lparr>s_data := d'\<rparr>)))"
      by (auto simp: same)
  next
    fix j assume "j \<in> s_private (s\<lparr>s_data := d'\<rparr>)"
    then show "map_of (f_blocks (s_data (s\<lparr>s_data := d'\<rparr>))) j \<noteq> None" using write_inv_private [OF w] by (auto simp: map)
  next
    fix j l a assume j: "j \<in> s_private (s\<lparr>s_data := d'\<rparr>)" "l \<noteq> j" "cell_at (s_data (s\<lparr>s_data := d'\<rparr>)) j = Some a"
    then have "j \<noteq> i" "cell_at ?d j = Some a" using np by (auto simp: cell split: if_splits)
    moreover have "a < ?a" using file_cells_old [OF ok] \<open>cell_at ?d j = Some a\<close> by (auto simp: file_cells_def)
    ultimately show "cell_at (s_data (s\<lparr>s_data := d'\<rparr>)) l \<noteq> Some a"
      using write_inv_distinct [OF w] j by (auto simp: cell)
  qed
  moreover have "file_cells d' \<subseteq> file_cells ?d \<union> {?a..}" by (auto simp: file_cells_def cell)
  moreover have "\<forall>j. map_of (f_blocks d') j \<noteq> None \<longleftrightarrow> j = i \<or> map_of (f_blocks ?d) j \<noteq> None" by (simp add: map)
  moreover have "\<exists>bs. d' = ?d\<lparr>f_blocks := bs\<rparr>" using d' by blast
  ultimately show ?thesis using ww bytes oc by blast
qed


lemma copy_all_spec:
  assumes "store_inv m s" "foldl copy_mapped (m, s_data s) is = (m', d')" "\<forall>i\<in>set is. i * block_size < f_size (s_data s)"
  shows "store_inv m' (s\<lparr>s_data := d'\<rparr>) \<and> writes_within {} m m' \<and> (\<forall>k. byte_at m' d' k = byte_at m (s_data s) k) \<and>
    own_cells (s\<lparr>s_data := d'\<rparr>) = own_cells s \<and> (\<exists>bs. d' = (s_data s)\<lparr>f_blocks := bs\<rparr>) \<and>
    file_cells d' \<subseteq> file_cells (s_data s) \<union> {next_cell m..} \<and>
    (\<forall>i\<in>set is. map_of (f_blocks d') i \<noteq> None)"
proof -
  have "store_inv m' (s\<lparr>s_data := d'\<rparr>) \<and> writes_within {} m m' \<and> (\<forall>k. byte_at m' d' k = byte_at m (s_data s) k) \<and>
    own_cells (s\<lparr>s_data := d'\<rparr>) = own_cells s \<and> (\<exists>bs. d' = (s_data s)\<lparr>f_blocks := bs\<rparr>) \<and>
    file_cells d' \<subseteq> file_cells (s_data s) \<union> {next_cell m..} \<and>
    (\<forall>i. i \<in> set is \<or> map_of (f_blocks (s_data s)) i \<noteq> None \<longrightarrow> map_of (f_blocks d') i \<noteq> None)"
    using assms
  proof (induction "is" arbitrary: m s)
    case Nil
    moreover have "\<exists>bs. s_data s = (s_data s)\<lparr>f_blocks := bs\<rparr>" by (rule exI [of _ "f_blocks (s_data s)"]) simp
    ultimately show ?case by auto
  next
    case (Cons i "is")
    obtain m1 d1 where c: "copy_mapped (m, s_data s) i = (m1, d1)" by (cases "copy_mapped (m, s_data s) i") auto
    let ?s1 = "s\<lparr>s_data := d1\<rparr>"
    have one: "store_inv m1 ?s1" "writes_within {} m m1" "\<forall>k. byte_at m1 d1 k = byte_at m (s_data s) k"
      "own_cells ?s1 = own_cells s" "\<exists>bs. d1 = (s_data s)\<lparr>f_blocks := bs\<rparr>"
      "file_cells d1 \<subseteq> file_cells (s_data s) \<union> {next_cell m..}"
      "\<forall>j. map_of (f_blocks d1) j \<noteq> None \<longleftrightarrow> j = i \<or> map_of (f_blocks (s_data s)) j \<noteq> None"
      using copy_mapped_spec [OF Cons.prems(1) c] Cons.prems(3) by (simp_all del: not_None_eq)
    have f: "foldl copy_mapped (m1, s_data ?s1) is = (m', d')" using Cons.prems(2) c by simp
    have b: "\<forall>i\<in>set is. i * block_size < f_size (s_data ?s1)" using Cons.prems(3) one(5) by auto
    note IH = Cons.IH [OF one(1) f b]
    have "\<exists>bs. d' = (s_data s)\<lparr>f_blocks := bs\<rparr>"
    proof -
      obtain b1 where "d1 = (s_data s)\<lparr>f_blocks := b1\<rparr>" using one(5) by blast
      moreover obtain b2 where "d' = d1\<lparr>f_blocks := b2\<rparr>" using IH by auto
      ultimately have "d' = (s_data s)\<lparr>f_blocks := b2\<rparr>" by simp
      then show ?thesis by blast
    qed
    moreover have "writes_within {} m m'" using writes_within_trans [OF one(2)] IH by blast
    moreover have "file_cells d' \<subseteq> file_cells (s_data s) \<union> {next_cell m..}"
      using IH one(2,6) by (fastforce simp: writes_within_def)
    ultimately show ?case using IH one(3,4,7) by (simp del: not_None_eq)
  qed
  then show ?thesis by blast
qed

text \<open>Dropping a mapping all of whose blocks have been copied changes nothing.\<close>

lemma seal_mapped_spec:
  assumes inv: "store_inv m s" and ns: "\<not> f_sealed (s_data s)" and lim: "f_mapping (s_data s) = None \<longrightarrow> f_limit (s_data s) = 0"
  shows "\<exists>m' d'. seal_mapped sha m (s_data s) = (None, m', d') \<and> store_inv m' (s\<lparr>s_data := d'\<rparr>) \<and>
    writes_within {} m m' \<and> contents m' d' = contents m (s_data s) \<and> own_cells (s\<lparr>s_data := d'\<rparr>) = own_cells s \<and>
    f_mapping d' = None \<and> f_limit d' = 0 \<and> f_size d' = f_size (s_data s) \<and> f_sealed d' = f_sealed (s_data s) \<and>
    file_cells d' \<subseteq> file_cells (s_data s) \<union> {next_cell m..}"
proof (cases "f_mapping (s_data s)")
  case None
  then show ?thesis using inv lim by (simp add: seal_mapped_def)
next
  case (Some mp)
  let ?d = "s_data s"
  let ?is = "[0..<block_count (min (f_limit ?d) (f_size ?d))]"
  note w = inv [unfolded store_inv_def]
  obtain m1 d1 where c: "foldl copy_mapped (m, ?d) ?is = (m1, d1)" by (cases "foldl copy_mapped (m, ?d) ?is") auto
  have b: "\<forall>i\<in>set ?is. i * block_size < f_size ?d" by (auto simp: block_count_bounds)
  have one: "store_inv m1 (s\<lparr>s_data := d1\<rparr>)" "writes_within {} m m1" "\<forall>k. byte_at m1 d1 k = byte_at m ?d k"
    "own_cells (s\<lparr>s_data := d1\<rparr>) = own_cells s" "\<exists>bs. d1 = ?d\<lparr>f_blocks := bs\<rparr>"
    "file_cells d1 \<subseteq> file_cells ?d \<union> {next_cell m..}" "\<forall>i\<in>set ?is. map_of (f_blocks d1) i \<noteq> None"
    using copy_all_spec [OF inv c b] by (simp_all del: not_None_eq)
  have same: "f_size d1 = f_size ?d" "f_sealed d1 = f_sealed ?d" "f_limit d1 = f_limit ?d" "f_mapping d1 = f_mapping ?d"
    using one(5) by auto
  have le: "f_limit ?d \<le> f_size ?d" using write_inv_ok [OF w] by (simp add: file_ok_def)
  let ?d2 = "d1\<lparr>f_mapping := None, f_limit := 0\<rparr>"
  have cell: "cell_at ?d2 = cell_at d1" by (simp add: cell_at_def fun_eq_iff)
  have inv2: "store_inv m1 (s\<lparr>s_data := ?d2\<rparr>)"
    using one(1) unfolding store_inv_def write_inv_def by (simp add: file_ok_def cell cong: if_cong)
  have bytes: "byte_at m1 ?d2 k = byte_at m1 d1 k" for k
  proof (cases "map_of (f_blocks d1) (k div block_size)")
    case None
    then have "\<not> k div block_size < block_count (min (f_limit ?d) (f_size ?d))" using one(7) by fastforce
    then have "f_limit ?d \<le> k div block_size * block_size" using le by (simp add: block_count_bounds min_absorb1)
    also have "\<dots> \<le> k" by simp
    finally show ?thesis using None by (simp add: byte_at_def same split: option.split)
  next
    case (Some e)
    then show ?thesis by (simp add: byte_at_def)
  qed
  have cont: "contents m1 ?d2 = contents m ?d" using bytes one(3) by (simp add: contents_def same)
  have ok2: "file_ok m1 ?d2" using inv2 by (simp add: store_inv_def write_inv_def)
  have "seal_mapped sha m ?d = (None, m1, ?d2)"
    using Some c by (simp add: seal_mapped_def file_digest_contents [OF write_inv_ok [OF w]] file_digest_contents [OF ok2] cont)
  moreover have "own_cells (s\<lparr>s_data := ?d2\<rparr>) = own_cells s"
    using one(4) by (simp add: own_cells_def cell)
  moreover have "file_cells ?d2 \<subseteq> file_cells ?d \<union> {next_cell m..}" using one(6) by (simp add: file_cells_def cell)
  ultimately show ?thesis using inv2 one(2) cont same by simp
qed

text \<open>The mapping's limit is zero without a mapping: it is only set with one.\<close>

definition limit_ok :: "store \<Rightarrow> bool" where
  "limit_ok s \<longleftrightarrow> (f_mapping (s_data s) = None \<longrightarrow> f_limit (s_data s) = 0)"

lemma store_seal_spec:
  assumes inv: "store_inv m s" and ns: "\<not> f_sealed (s_data s)" and lim: "limit_ok s"
  shows "\<exists>z m' s'. store_seal sha m s = (Inr z, m', s') \<and> store_inv m' s' \<and> frozen_inv m' z \<and> writes_within {} m m' \<and>
    contents m' (z_data z) = contents m (s_data s) \<and> s_data s' = z_data z \<and> own_cells s' = {} \<and> s_private s' = {} \<and>
    z_source z = s_source s \<and> limit_ok s' \<and>
    file_cells (z_data z) \<subseteq> file_cells (s_data s) \<union> {next_cell m..}"
proof -
  obtain m' d where r: "seal_mapped sha m (s_data s) = (None, m', d)" "store_inv m' (s\<lparr>s_data := d\<rparr>)"
    "writes_within {} m m'" "contents m' d = contents m (s_data s)" "f_mapping d = None" "f_limit d = 0"
    "f_size d = f_size (s_data s)" and cells: "file_cells d \<subseteq> file_cells (s_data s) \<union> {next_cell m..}"
    using seal_mapped_spec [OF inv ns, of sha] lim by (auto simp: limit_ok_def)
  let ?d = "d\<lparr>f_sealed := True\<rparr>"
  have b: "map_of (f_blocks d) i = Some e \<Longrightarrow> i * block_size + max 1 (b_valid (blk e)) \<le> f_size d" for i e
    using write_inv_reach [OF r(2) [unfolded store_inv_def], of i e] by (simp split: if_splits)
  have ok: "file_ok m' d" using r(2) by (simp add: store_inv_def write_inv_def)
  have i: "store_inv m' t" if "s_data t = ?d" "s_private t = {}" for t
    using ok b by (simp add: that store_inv_def write_inv_def file_ok_def)
  have ct: "contents m' ?d = contents m' d" by (simp add: contents_def byte_at_def split: option.split)
  show ?thesis
    using ns r i cells ct
    by (auto simp: store_seal_def frozen_inv_def own_cells_def limit_ok_def file_cells_def cell_at_def Let_def)
qed

end
