(* ===== verification/StoreWorld.thy ===== *)
theory StoreWorld
  imports PreparedStore
begin

text \<open>
  All stores and sealed files of a process over one memory, and the runs of their operations: the
  refinement of the whole world to flat files, and the isolation of files from one another.
\<close>

record world =
  w_mem :: memory
  w_stores :: "store list"
  w_frozen :: "frozen list"

definition empty_world :: world where
  "empty_world = \<lparr>w_mem = \<lparr>cells = (\<lambda>_. []), next_cell = 0\<rparr>, w_stores = [], w_frozen = []\<rparr>"

datatype store_op =
    NewStore nat
  | Borrow nat bytes
  | WriteAt nat bytes int
  | ResizeTo nat int
  | SealIt nat
  | ForkOf nat nat

text \<open>One call; a call on a store or file that does not exist does nothing.\<close>

fun world_step :: "(bytes \<Rightarrow> string) \<Rightarrow> world \<Rightarrow> store_op \<Rightarrow> world" where
  "world_step sha w (NewStore src) = w\<lparr>w_stores := w_stores w @ [new_file_store src]\<rparr>"
| "world_step sha w (Borrow i p) =
     (if i < length (w_stores w) then w\<lparr>w_stores := (w_stores w)[i := snd (borrow_mapping p (w_stores w ! i))]\<rparr> else w)"
| "world_step sha w (WriteAt i p off) =
     (if i < length (w_stores w)
      then case store_write (w_mem w) (w_stores w ! i) p off of
        (r, m', s') \<Rightarrow> w\<lparr>w_mem := m', w_stores := (w_stores w)[i := s']\<rparr>
      else w)"
| "world_step sha w (ResizeTo i n) =
     (if i < length (w_stores w) then w\<lparr>w_stores := (w_stores w)[i := snd (store_resize (w_stores w ! i) n)]\<rparr> else w)"
| "world_step sha w (SealIt i) =
     (if i < length (w_stores w)
      then case store_seal sha (w_mem w) (w_stores w ! i) of
        (r, m', s') \<Rightarrow> w\<lparr>w_mem := m', w_stores := (w_stores w)[i := s'],
                        w_frozen := w_frozen w @ (case r of Inr z \<Rightarrow> [z] | Inl _ \<Rightarrow> [])\<rparr>
      else w)"
| "world_step sha w (ForkOf j src) =
     (if j < length (w_frozen w) then w\<lparr>w_stores := w_stores w @ [frozen_fork src (w_frozen w ! j)]\<rparr> else w)"

section \<open>The flat specification\<close>

text \<open>What a store and a sealed file are to their users: a byte list, and whether it is still open.\<close>

record flat_world =
  fl_stores :: "(bytes \<times> bool) list"
  fl_frozen :: "bytes list"

fun flat_step :: "flat_world \<Rightarrow> store_op \<Rightarrow> flat_world" where
  "flat_step w (NewStore src) = w\<lparr>fl_stores := fl_stores w @ [([], True)]\<rparr>"
| "flat_step w (Borrow i p) =
     (if i < length (fl_stores w) \<and> fl_stores w ! i = ([], True)
      then w\<lparr>fl_stores := (fl_stores w)[i := (p, True)]\<rparr> else w)"
| "flat_step w (WriteAt i p off) =
     (if i < length (fl_stores w) \<and> snd (fl_stores w ! i) \<and> 0 \<le> off \<and> off + int (length p) \<le> max_int \<and> p \<noteq> []
      then w\<lparr>fl_stores := (fl_stores w)[i := (flat_write (fst (fl_stores w ! i)) (nat off) p, True)]\<rparr> else w)"
| "flat_step w (ResizeTo i n) =
     (if i < length (fl_stores w) \<and> snd (fl_stores w ! i) \<and> 0 \<le> n \<and> n \<le> max_int
      then w\<lparr>fl_stores := (fl_stores w)[i := (flat_resize (fst (fl_stores w ! i)) (nat n), True)]\<rparr> else w)"
| "flat_step w (SealIt i) =
     (if i < length (fl_stores w) \<and> snd (fl_stores w ! i)
      then w\<lparr>fl_stores := (fl_stores w)[i := (fst (fl_stores w ! i), False)],
             fl_frozen := fl_frozen w @ [fst (fl_stores w ! i)]\<rparr> else w)"
| "flat_step w (ForkOf j src) =
     (if j < length (fl_frozen w) then w\<lparr>fl_stores := fl_stores w @ [(fl_frozen w ! j, True)]\<rparr> else w)"

definition flat_of :: "world \<Rightarrow> flat_world" where
  "flat_of w = \<lparr>fl_stores = map (\<lambda>s. (contents (w_mem w) (s_data s), \<not> f_sealed (s_data s))) (w_stores w),
     fl_frozen = map (\<lambda>z. contents (w_mem w) (z_data z)) (w_frozen w)\<rparr>"

section \<open>The invariant\<close>

definition world_inv :: "world \<Rightarrow> bool" where
  "world_inv w \<longleftrightarrow>
     (\<forall>i<length (w_stores w). store_inv (w_mem w) (w_stores w ! i) \<and> limit_ok (w_stores w ! i)) \<and>
     (\<forall>z\<in>set (w_frozen w). frozen_inv (w_mem w) z) \<and>
     (\<forall>i<length (w_stores w). \<forall>j<length (w_stores w). i \<noteq> j \<longrightarrow>
        own_cells (w_stores w ! i) \<inter> file_cells (s_data (w_stores w ! j)) = {}) \<and>
     (\<forall>i<length (w_stores w). \<forall>z\<in>set (w_frozen w). own_cells (w_stores w ! i) \<inter> file_cells (z_data z) = {})"

lemma empty_world_inv: "world_inv empty_world"
  by (simp add: world_inv_def empty_world_def)

lemma store_inv_ok: "store_inv m s \<Longrightarrow> file_ok m (s_data s)"
  by (simp add: store_inv_def write_inv_ok)

lemma frozen_inv_ok: "frozen_inv m z \<Longrightarrow> file_ok m (z_data z)"
  using store_inv_ok by (fastforce simp: frozen_inv_def)

lemma store_inv_mono: "store_inv m s \<Longrightarrow> writes_within own m m' \<Longrightarrow> store_inv m' s"
  unfolding store_inv_def write_inv_def using file_ok_mono by blast

lemma frozen_inv_mono: "frozen_inv m z \<Longrightarrow> writes_within own m m' \<Longrightarrow> frozen_inv m' z"
  unfolding frozen_inv_def using store_inv_mono by blast

text \<open>An operation on store \<open>i\<close> that stays within its own cells leaves the rest of the world alone.\<close>

definition replaces :: "nat \<Rightarrow> world \<Rightarrow> world \<Rightarrow> bool" where
  "replaces i w w' \<longleftrightarrow> i < length (w_stores w) \<and> (\<exists>s' zs.
     w_stores w' = (w_stores w)[i := s'] \<and> w_frozen w' = w_frozen w @ zs \<and>
     store_inv (w_mem w') s' \<and> limit_ok s' \<and> writes_within (own_cells (w_stores w ! i)) (w_mem w) (w_mem w') \<and>
     own_cells s' \<subseteq> own_cells (w_stores w ! i) \<union> {next_cell (w_mem w)..} \<and>
     file_cells (s_data s') \<subseteq> file_cells (s_data (w_stores w ! i)) \<union> {next_cell (w_mem w)..} \<and>
     (\<forall>z\<in>set zs. frozen_inv (w_mem w') z \<and> own_cells s' = {} \<and> file_cells (z_data z) \<subseteq> file_cells (s_data s')))"

lemma replaces_inv:
  assumes inv: "world_inv w" and r: "replaces i w w'"
  shows "world_inv w'"
proof -
  let ?m = "w_mem w" and ?m' = "w_mem w'" and ?s = "w_stores w ! i"
  obtain s' zs where i: "i < length (w_stores w)" and st: "w_stores w' = (w_stores w)[i := s']"
    and fz: "w_frozen w' = w_frozen w @ zs" and si: "store_inv ?m' s'" "limit_ok s'"
    and ww: "writes_within (own_cells ?s) ?m ?m'"
    and oc: "own_cells s' \<subseteq> own_cells ?s \<union> {next_cell ?m..}"
    and fc: "file_cells (s_data s') \<subseteq> file_cells (s_data ?s) \<union> {next_cell ?m..}"
    and zi: "\<forall>z\<in>set zs. frozen_inv ?m' z \<and> own_cells s' = {} \<and> file_cells (z_data z) \<subseteq> file_cells (s_data s')"
    using r unfolding replaces_def by blast
  have si0: "store_inv ?m (w_stores w ! j) \<and> limit_ok (w_stores w ! j)" if "j < length (w_stores w)" for j
    using inv that by (simp add: world_inv_def)
  have fi0: "frozen_inv ?m z" if "z \<in> set (w_frozen w)" for z using inv that by (simp add: world_inv_def)
  have sep: "own_cells (w_stores w ! j) \<inter> file_cells (s_data (w_stores w ! k)) = {}"
    if "j < length (w_stores w)" "k < length (w_stores w)" "j \<noteq> k" for j k
    using inv that by (simp add: world_inv_def)
  have sepz: "own_cells (w_stores w ! j) \<inter> file_cells (z_data z) = {}"
    if "j < length (w_stores w)" "z \<in> set (w_frozen w)" for j z
    using inv that by (simp add: world_inv_def)
  have old: "file_cells (s_data (w_stores w ! j)) \<inter> {next_cell ?m..} = {}" if "j < length (w_stores w)" for j
    using file_cells_old [OF store_inv_ok] si0 [OF that] by fastforce
  have oldo: "own_cells (w_stores w ! j) \<inter> {next_cell ?m..} = {}" if "j < length (w_stores w)" for j
    using old [OF that] own_cells_file by blast
  have oldz: "file_cells (z_data z) \<inter> {next_cell ?m..} = {}" if "z \<in> set (w_frozen w)" for z
    using file_cells_old [OF frozen_inv_ok [OF fi0 [OF that]]] by fastforce
  have get: "w_stores w' ! j = (if j = i then s' else w_stores w ! j)" if "j < length (w_stores w')" for j
    using that i by (simp add: st nth_list_update)
  have len: "length (w_stores w') = length (w_stores w)" by (simp add: st)
  show ?thesis
    unfolding world_inv_def
  proof (intro conjI allI impI ballI)
    fix j assume j: "j < length (w_stores w')"
    show "store_inv ?m' (w_stores w' ! j)" "limit_ok (w_stores w' ! j)"
      using get [OF j] si si0 [of j] store_inv_mono [OF _ ww] j len by auto
  next
    fix z assume "z \<in> set (w_frozen w')"
    then show "frozen_inv ?m' z" using zi fi0 frozen_inv_mono [OF _ ww] by (auto simp: fz)
  next
    fix j k assume j: "j < length (w_stores w')" and k: "k < length (w_stores w')" and jk: "j \<noteq> k"
    have jk': "j < length (w_stores w)" "k < length (w_stores w)" using j k len by simp_all
    show "own_cells (w_stores w' ! j) \<inter> file_cells (s_data (w_stores w' ! k)) = {}"
      using get [OF j] get [OF k] sep [OF jk' jk] oc fc old [OF jk'(2)] oldo [OF jk'(1)] jk
      by (auto split: if_splits)
  next
    fix j z assume j: "j < length (w_stores w')" and z: "z \<in> set (w_frozen w')"
    have j': "j < length (w_stores w)" using j len by simp
    show "own_cells (w_stores w' ! j) \<inter> file_cells (z_data z) = {}"
    proof (cases "z \<in> set (w_frozen w)")
      case True
      then show ?thesis using get [OF j] sepz [OF j' True] oc oldz [OF True] by (auto split: if_splits)
    next
      case False
      then have zz: "z \<in> set zs" using z by (simp add: fz)
      show ?thesis
      proof (cases "j = i")
        case True
        then show ?thesis using get [OF j] zi zz by simp
      next
        case jn: False
        have "own_cells (w_stores w ! j) \<inter> file_cells (s_data s') = {}"
          using sep [OF j' i jn] fc oldo [OF j'] by blast
        then show ?thesis using get [OF j] jn zi zz by auto
      qed
    qed
  qed
qed


definition store_view :: "memory \<Rightarrow> store \<Rightarrow> bytes \<times> bool" where
  "store_view m s = (contents m (s_data s), \<not> f_sealed (s_data s))"

lemma flat_of_view: "flat_of w = \<lparr>fl_stores = map (store_view (w_mem w)) (w_stores w),
     fl_frozen = map (\<lambda>z. contents (w_mem w) (z_data z)) (w_frozen w)\<rparr>"
  by (simp add: flat_of_def store_view_def)

lemma replaces_flat:
  assumes inv: "world_inv w" and r: "replaces i w w'"
  shows "flat_of w' = \<lparr>fl_stores = (fl_stores (flat_of w))[i := store_view (w_mem w') (w_stores w' ! i)],
    fl_frozen = fl_frozen (flat_of w)
      @ map (\<lambda>z. contents (w_mem w') (z_data z)) (drop (length (w_frozen w)) (w_frozen w'))\<rparr>"
proof -
  let ?m = "w_mem w" and ?m' = "w_mem w'" and ?s = "w_stores w ! i"
  obtain s' zs where i: "i < length (w_stores w)" and st: "w_stores w' = (w_stores w)[i := s']"
    and fz: "w_frozen w' = w_frozen w @ zs" and ww: "writes_within (own_cells ?s) ?m ?m'"
    using r unfolding replaces_def by blast
  have "contents ?m' (s_data (w_stores w ! j)) = contents ?m (s_data (w_stores w ! j))"
    if "j < length (w_stores w)" "j \<noteq> i" for j
  proof (rule contents_mono [OF _ ww])
    show "file_ok ?m (s_data (w_stores w ! j))" using inv that by (intro store_inv_ok) (simp add: world_inv_def)
    show "own_cells ?s \<inter> file_cells (s_data (w_stores w ! j)) = {}" using inv that i by (simp add: world_inv_def)
  qed
  then have "map (store_view ?m') (w_stores w') = (map (store_view ?m) (w_stores w))[i := store_view ?m' s']"
    using i by (intro nth_equalityI) (auto simp: st store_view_def nth_list_update)
  moreover have "contents ?m' (z_data z) = contents ?m (z_data z)" if "z \<in> set (w_frozen w)" for z
  proof (rule contents_mono [OF _ ww])
    show "file_ok ?m (z_data z)" using inv that by (intro frozen_inv_ok) (simp add: world_inv_def)
    show "own_cells ?s \<inter> file_cells (z_data z) = {}" using inv that i by (simp add: world_inv_def)
  qed
  then have "map (\<lambda>z. contents ?m' (z_data z)) (w_frozen w') =
      map (\<lambda>z. contents ?m (z_data z)) (w_frozen w) @ map (\<lambda>z. contents ?m' (z_data z)) zs"
    by (simp add: fz)
  ultimately show ?thesis using i by (simp add: flat_of_view st fz)
qed

lemma append_store_inv:
  assumes inv: "world_inv w" and s: "store_inv (w_mem w) s" "limit_ok s" "own_cells s = {}"
    and c: "file_cells (s_data s) = {} \<or> (\<exists>z\<in>set (w_frozen w). file_cells (s_data s) \<subseteq> file_cells (z_data z))"
  shows "world_inv (w\<lparr>w_stores := w_stores w @ [s]\<rparr>)"
proof -
  have "own_cells (w_stores w ! i) \<inter> file_cells (s_data s) = {}" if "i < length (w_stores w)" for i
    using c
  proof
    assume "\<exists>z\<in>set (w_frozen w). file_cells (s_data s) \<subseteq> file_cells (z_data z)"
    then obtain z where z: "z \<in> set (w_frozen w)" "file_cells (s_data s) \<subseteq> file_cells (z_data z)" by blast
    have "own_cells (w_stores w ! i) \<inter> file_cells (z_data z) = {}" using inv that z(1) by (simp add: world_inv_def)
    then show ?thesis using z(2) by blast
  qed simp
  then show ?thesis using inv s by (auto simp: world_inv_def nth_append less_Suc_eq)
qed

lemma new_store_inv: "store_inv m (new_file_store src)"
  by (simp add: store_inv_def write_inv_def new_file_store_def empty_file_def file_ok_def)

lemma fork_spec:
  assumes "frozen_inv m z"
  shows "store_inv m (frozen_fork src z) \<and> limit_ok (frozen_fork src z) \<and> own_cells (frozen_fork src z) = {} \<and>
    file_cells (s_data (frozen_fork src z)) = file_cells (z_data z) \<and>
    contents m (s_data (frozen_fork src z)) = contents m (z_data z) \<and> \<not> f_sealed (s_data (frozen_fork src z)) \<and>
    s_source (frozen_fork src z) = src"
proof -
  let ?s = "frozen_fork src z" and ?d = "z_data z"
  have map: "map_of (f_blocks (s_data ?s)) i = map_option (\<lambda>e. e\<lparr>route := ''inherited''\<rparr>) (map_of (f_blocks ?d) i)" for i
    by (simp add: frozen_fork_def new_file_store_def map_of_map Let_def)
  have rest: "f_size (s_data ?s) = f_size ?d" "f_mapping (s_data ?s) = None" "f_limit (s_data ?s) = 0"
    "\<not> f_sealed (s_data ?s)" "s_private ?s = {}" "s_source ?s = src"
    by (simp_all add: frozen_fork_def new_file_store_def empty_file_def Let_def)
  have z: "f_mapping ?d = None" "f_limit ?d = 0" using assms by (simp_all add: frozen_inv_def)
  have cell: "cell_at (s_data ?s) i = cell_at ?d i" for i by (simp add: cell_at_def map split: option.split)
  have "byte_at m (s_data ?s) k = byte_at m ?d k" for k
    by (simp add: byte_at_def map rest z split: option.split)
  then have "contents m (s_data ?s) = contents m ?d" by (simp add: contents_def rest)
  moreover have "store_inv m ?s"
    using assms by (auto simp: frozen_inv_def store_inv_def write_inv_def file_ok_def map rest)
  ultimately show ?thesis by (simp add: rest limit_ok_def own_cells_def file_cells_def cell)
qed

lemma borrow_spec:
  assumes inv: "store_inv m s" and lim: "limit_ok s" and g: "\<not> f_sealed (s_data s)" "f_size (s_data s) = 0"
  shows "\<exists>s'. borrow_mapping p s = (None, s') \<and> store_inv m s' \<and> limit_ok s' \<and> own_cells s' = {} \<and>
    file_cells (s_data s') = {} \<and> store_view m s' = (p, True)"
proof -
  let ?d = "s_data s"
  have "map_of (f_blocks ?d) i = None" for i
  proof (cases "map_of (f_blocks ?d) i")
    case (Some e)
    from write_inv_reach [OF inv [unfolded store_inv_def] this] g show ?thesis by simp
  qed
  then have b: "f_blocks ?d = []" by (metis list.exhaust map_of_Cons_code(2) option.distinct(1) prod.exhaust)
  have "s_private s = {}" using write_inv_private [OF inv [unfolded store_inv_def]] b by fastforce
  moreover have "contents m (?d\<lparr>f_mapping := Some p, f_size := length p, f_limit := length p\<rparr>) = p"
    by (rule contentsI) (simp_all add: byte_at_def b)
  ultimately show ?thesis
    using g b by (simp add: borrow_mapping_def store_inv_def write_inv_def file_ok_def limit_ok_def own_cells_def
        file_cells_def cell_at_def store_view_def)
qed

section \<open>The simulation\<close>

text \<open>Every call either leaves the world as it is, or replaces a store, or opens one.\<close>

lemma world_step_inv:
  assumes inv: "world_inv w"
  shows "world_inv (world_step sha w x) \<and> flat_of (world_step sha w x) = flat_step (flat_of w) x"
proof -
  let ?m = "w_mem w"
  have si: "store_inv ?m (w_stores w ! i)" "limit_ok (w_stores w ! i)" if "i < length (w_stores w)" for i
    using inv that by (simp_all add: world_inv_def)
  have fs: "fl_stores (flat_of w) = map (store_view ?m) (w_stores w)"
    "fl_frozen (flat_of w) = map (\<lambda>z. contents ?m (z_data z)) (w_frozen w)" by (simp_all add: flat_of_view)
  have done_by: "?thesis" if "replaces i w (world_step sha w x)" "w_stores (world_step sha w x) ! i = t"
    "drop (length (w_frozen w)) (w_frozen (world_step sha w x)) = zs"
    "flat_step (flat_of w) x = \<lparr>fl_stores = (fl_stores (flat_of w))[i := store_view (w_mem (world_step sha w x)) t],
       fl_frozen = fl_frozen (flat_of w) @ map (\<lambda>z. contents (w_mem (world_step sha w x)) (z_data z)) zs\<rparr>" for i t zs
    using replaces_inv [OF inv that(1)] replaces_flat [OF inv that(1)] that(2-) by simp
  show ?thesis
  proof (cases x)
    case (NewStore src)
    have "own_cells (new_file_store src) = {}" "file_cells (s_data (new_file_store src)) = {}" "limit_ok (new_file_store src)"
      by (simp_all add: own_cells_def file_cells_def new_file_store_def cell_at_def empty_file_def limit_ok_def)
    then show ?thesis using append_store_inv [OF inv new_store_inv] NewStore
      by (simp add: flat_of_view store_view_def new_file_store_def empty_file_def contents_def)
  next
    case (ForkOf j src)
    show ?thesis
    proof (cases "j < length (w_frozen w)")
      case True
      let ?z = "w_frozen w ! j"
      have "frozen_inv ?m ?z" using inv True by (simp add: world_inv_def)
      note f = fork_spec [OF this, of src]
      have "world_inv (w\<lparr>w_stores := w_stores w @ [frozen_fork src ?z]\<rparr>)"
        using f True by (intro append_store_inv [OF inv]) auto
      then show ?thesis using f True ForkOf by (simp add: flat_of_view store_view_def)
    next
      case False
      then show ?thesis using inv ForkOf by (simp add: flat_of_view)
    qed
  next
    case (Borrow i p)
    show ?thesis
    proof (cases "i < length (w_stores w) \<and> store_view ?m (w_stores w ! i) = ([], True)")
      case True
      let ?s = "w_stores w ! i"
      have i: "i < length (w_stores w)" and g: "\<not> f_sealed (s_data ?s)" "f_size (s_data ?s) = 0"
        using True length_contents [of ?m "s_data ?s"] by (auto simp: store_view_def simp del: length_contents)
      obtain s' where b: "borrow_mapping p ?s = (None, s')" "store_inv ?m s'" "limit_ok s'" "own_cells s' = {}"
        "file_cells (s_data s') = {}" "store_view ?m s' = (p, True)"
        using borrow_spec [OF si [OF i] g] by blast
      have w: "world_step sha w x = w\<lparr>w_stores := (w_stores w)[i := s']\<rparr>" using b(1) i Borrow by simp
      have "replaces i w (world_step sha w x)" unfolding w replaces_def using b i by (auto intro!: exI [of _ s'] exI [of _ "[]"])
      then show ?thesis
        by (rule done_by [where t = s' and zs = "[]"]) (use i b True Borrow w in \<open>simp_all add: flat_of_view\<close>)
    next
      case False
      have "world_step sha w x = w"
      proof (cases "i < length (w_stores w)")
        case True
        then have "f_sealed (s_data (w_stores w ! i)) \<or> f_size (s_data (w_stores w ! i)) \<noteq> 0"
          using False by (auto simp: store_view_def contents_def)
        then show ?thesis using Borrow True by (auto simp: borrow_mapping_def Let_def)
      qed (simp add: Borrow)
      then show ?thesis using inv False Borrow by (auto simp: flat_of_view)
    qed
  next
    case (WriteAt i p off)
    show ?thesis
    proof (cases "i < length (w_stores w)")
      case True
      let ?s = "w_stores w ! i"
      obtain n e m' s' where r: "store_write ?m ?s p off = ((n, e), m', s')" by (metis surj_pair)
      have w: "world_step sha w x = w\<lparr>w_mem := m', w_stores := (w_stores w)[i := s']\<rparr>" using r True WriteAt by simp
      show ?thesis
      proof (cases "e = None \<and> p \<noteq> []")
        case ok: True
        then have r': "store_write ?m ?s p off = ((n, None), m', s')" using r by simp
        note sp = store_write_spec [OF si(1) [OF True] r']
        have "replaces i w (world_step sha w x)" unfolding w replaces_def
          using sp True si(2) [OF True] by (auto simp: limit_ok_def intro!: exI [of _ s'] exI [of _ "[]"])
        moreover have "off + int (length p) \<le> max_int" "\<not> f_sealed (s_data ?s)"
          using r' by (auto simp: store_write_def split: if_splits)
        moreover have "store_view m' s' = (flat_write (fst (store_view ?m ?s)) (nat off) p, True)" "0 \<le> off"
          using sp ok by (simp_all add: store_view_def)
        moreover have "snd (store_view ?m ?s)" using calculation by (simp add: store_view_def)
        ultimately show ?thesis
          by (intro done_by [where t = s' and zs = "[]"]) (use True ok WriteAt w in \<open>simp_all add: flat_of_view\<close>)
      next
        case bad: False
        have same: "m' = ?m" "s' = ?s"
        proof -
          have "p = [] \<Longrightarrow> m' = ?m \<and> s' = ?s" using r by (auto simp: store_write_def split: if_splits)
          moreover have "e \<noteq> None \<Longrightarrow> m' = ?m \<and> s' = ?s" using store_write_error r by (metis option.exhaust)
          ultimately have "m' = ?m \<and> s' = ?s" using bad by metis
          then show "m' = ?m" "s' = ?s" by simp_all
        qed
        have "p = [] \<or> f_sealed (s_data ?s) \<or> off < 0 \<or> max_int - int (length p) < off"
        proof (rule ccontr)
          assume neg: "\<not> ?thesis"
          then have "e = None" using r by (auto simp: store_write_def Let_def split: prod.splits)
          then show False using bad neg by simp
        qed
        then show ?thesis using inv True WriteAt w same by (auto simp: flat_of_view store_view_def)
      qed
    next
      case False
      then show ?thesis using inv WriteAt by (simp add: flat_of_view)
    qed
  next
    case (ResizeTo i n)
    show ?thesis
    proof (cases "i < length (w_stores w) \<and> fst (store_resize (w_stores w ! i) n) = None")
      case True
      let ?s = "w_stores w ! i"
      obtain s' where r: "store_resize ?s n = (None, s')" using True by (metis prod.collapse)
      have i: "i < length (w_stores w)" using True by simp
      note sp = store_resize_spec [OF si(1) [OF i] r]
      have w: "world_step sha w x = w\<lparr>w_stores := (w_stores w)[i := s']\<rparr>" using r i ResizeTo by simp
      have "limit_ok s'" using r si(2) [OF i] by (auto simp: store_resize_def limit_ok_def Let_def split: if_splits)
      then have "replaces i w (world_step sha w x)" unfolding w replaces_def
        using sp i by (auto intro!: exI [of _ s'] exI [of _ "[]"])
      moreover have "n \<le> max_int" "\<not> f_sealed (s_data ?s)" using r by (auto simp: store_resize_def Let_def split: if_splits)
      ultimately show ?thesis
        by (intro done_by [where t = s' and zs = "[]"]) (use i sp ResizeTo w in \<open>simp_all add: flat_of_view store_view_def\<close>)
    next
      case False
      have "world_step sha w x = w"
      proof (cases "i < length (w_stores w)")
        case True
        then have "fst (store_resize (w_stores w ! i) n) \<noteq> None" using False by simp
        then have "snd (store_resize (w_stores w ! i) n) = w_stores w ! i"
          by (auto simp: store_resize_def Let_def split: if_splits)
        then show ?thesis using True ResizeTo by simp
      qed (simp add: ResizeTo)
      moreover have "\<not> (i < length (w_stores w) \<and> \<not> f_sealed (s_data (w_stores w ! i)) \<and> 0 \<le> n \<and> n \<le> max_int)"
        using False by (auto simp: store_resize_def Let_def split: if_splits)
      ultimately show ?thesis using inv ResizeTo by (auto simp: flat_of_view store_view_def)
    qed
  next
    case (SealIt i)
    show ?thesis
    proof (cases "i < length (w_stores w) \<and> \<not> f_sealed (s_data (w_stores w ! i))")
      case True
      let ?s = "w_stores w ! i"
      have i: "i < length (w_stores w)" and g: "\<not> f_sealed (s_data ?s)" using True by simp_all
      obtain z m' s' where r: "store_seal sha ?m ?s = (Inr z, m', s')" "store_inv m' s'" "frozen_inv m' z"
        "writes_within {} ?m m'" "contents m' (z_data z) = contents ?m (s_data ?s)" "s_data s' = z_data z"
        "own_cells s' = {}" "limit_ok s'" "file_cells (z_data z) \<subseteq> file_cells (s_data ?s) \<union> {next_cell ?m..}"
        using store_seal_spec [OF si(1) [OF i] g si(2) [OF i], of sha] by blast
      have w: "world_step sha w x = w\<lparr>w_mem := m', w_stores := (w_stores w)[i := s'], w_frozen := w_frozen w @ [z]\<rparr>"
        using r(1) i SealIt by simp
      have "writes_within (own_cells ?s) ?m m'" using r(4) by (simp add: writes_within_def)
      then have "replaces i w (world_step sha w x)" unfolding w replaces_def
        using r i by (auto intro!: exI [of _ s'] exI [of _ "[z]"])
      moreover have "f_sealed (z_data z)" using r(3) by (simp add: frozen_inv_def)
      ultimately show ?thesis
        by (intro done_by [where t = s' and zs = "[z]"]) (use i g r SealIt w in \<open>simp_all add: flat_of_view store_view_def\<close>)
    next
      case False
      have "world_step sha w x = w" using False SealIt by (auto simp: store_seal_def)
      then show ?thesis using inv False SealIt by (auto simp: flat_of_view store_view_def)
    qed
  qed
qed


interpretation store_machine: inv_machine "world_step sha" world_inv for sha
  by unfold_locales (use world_step_inv in blast)

lemma world_run_flat: "world_inv w \<Longrightarrow> flat_of (foldl (world_step sha) w xs) = foldl flat_step (flat_of w) xs"
  by (induction xs arbitrary: w) (simp_all add: world_step_inv)

section \<open>The properties\<close>

text \<open>
  C19. The stores refine flat files. Whatever sequence of creations, mappings, writes, resizes, seals
  and forks a process performs from a consistent world, what its stores and sealed files show is what
  the same sequence does to plain byte arrays: a write past the end fills the gap with zeros, a
  truncation followed by a growth reads zeros, a sealed file keeps its bytes and a fork starts as a
  copy. In particular sealing always succeeds on an open store (the comparison of digests around the
  copy of a mapping never fails), and the bookkeeping of owned and shared blocks stays consistent.
\<close>
theorem stores_refine_flat_files:
  assumes "world_inv w"
  shows "flat_of (foldl (world_step sha) w xs) = foldl flat_step (flat_of w) xs \<and>
    world_inv (foldl (world_step sha) w xs)"
  using assms world_run_flat store_machine.run_inv by blast

theorem stores_refine_flat_files_witness:
  "flat_of (foldl (world_step (\<lambda>_. [])) empty_world [NewStore 7, WriteAt 0 [1, 2, 3] 1, ResizeTo 0 2, ResizeTo 0 4, SealIt 0, ForkOf 0 7, WriteAt 1 [9] 0])
     = \<lparr>fl_stores = [([0, 1, 0, 0], False), ([9, 1, 0, 0], True)], fl_frozen = [[0, 1, 0, 0]]\<rparr>"
  using stores_refine_flat_files [OF empty_world_inv, of "\<lambda>_. []"
      "[NewStore 7, WriteAt 0 [1, 2, 3] 1, ResizeTo 0 2, ResizeTo 0 4, SealIt 0, ForkOf 0 7, WriteAt 1 [9] 0]"]
  by (simp add: flat_of_def empty_world_def flat_write_def flat_resize_def max_int_def numeral_eq_Suc)

text \<open>Which store a call is about.\<close>

fun targets :: "store_op \<Rightarrow> nat option" where
  "targets (NewStore _) = None"
| "targets (Borrow i _) = Some i"
| "targets (WriteAt i _ _) = Some i"
| "targets (ResizeTo i _) = Some i"
| "targets (SealIt i) = Some i"
| "targets (ForkOf _ _) = None"

lemma flat_step_isolated:
  "\<exists>zs. fl_frozen (flat_step f x) = fl_frozen f @ zs"
  "i < length (fl_stores f) \<Longrightarrow> i < length (fl_stores (flat_step f x)) \<and>
     (targets x \<noteq> Some i \<longrightarrow> fl_stores (flat_step f x) ! i = fl_stores f ! i)"
  by (cases x; simp add: nth_append nth_list_update)+

lemma flat_run_isolated:
  "(\<exists>zs. fl_frozen (foldl flat_step f xs) = fl_frozen f @ zs) \<and>
   (i < length (fl_stores f) \<and> (\<forall>x\<in>set xs. targets x \<noteq> Some i) \<longrightarrow>
      i < length (fl_stores (foldl flat_step f xs)) \<and> fl_stores (foldl flat_step f xs) ! i = fl_stores f ! i)"
proof (induction xs arbitrary: f)
  case Nil
  then show ?case by simp
next
  case (Cons x xs)
  obtain zs where z: "fl_frozen (flat_step f x) = fl_frozen f @ zs" using flat_step_isolated(1) by blast
  obtain zs' where "fl_frozen (foldl flat_step (flat_step f x) xs) = fl_frozen (flat_step f x) @ zs'"
    using Cons.IH by blast
  then have "fl_frozen (foldl flat_step f (x # xs)) = fl_frozen f @ (zs @ zs')" using z by simp
  moreover have "i < length (fl_stores f) \<and> (\<forall>y\<in>set (x # xs). targets y \<noteq> Some i) \<longrightarrow>
      i < length (fl_stores (foldl flat_step f (x # xs))) \<and> fl_stores (foldl flat_step f (x # xs)) ! i = fl_stores f ! i"
    using Cons.IH [of "flat_step f x"] flat_step_isolated(2) [of i f x] by simp
  ultimately show ?case by blast
qed

text \<open>
  C20. Isolation of forks. A sealed file shows the same bytes for ever, whatever is written to the store
  it came from, to its forks or to any other store; and a store changes only by calls on that store:
  siblings and parents that share its blocks never write into it.
\<close>
theorem forks_are_isolated:
  assumes "world_inv w"
  shows "(\<forall>k. k < length (w_frozen w) \<longrightarrow>
      contents (w_mem (foldl (world_step sha) w xs)) (z_data (w_frozen (foldl (world_step sha) w xs) ! k))
        = contents (w_mem w) (z_data (w_frozen w ! k))) \<and>
    (\<forall>i. i < length (w_stores w) \<and> (\<forall>x\<in>set xs. targets x \<noteq> Some i) \<longrightarrow>
      contents (w_mem (foldl (world_step sha) w xs)) (s_data (w_stores (foldl (world_step sha) w xs) ! i))
        = contents (w_mem w) (s_data (w_stores w ! i)))"
proof (intro conjI allI impI)
  let ?w = "foldl (world_step sha) w xs"
  note r = world_run_flat [OF assms, of sha xs]
  fix k assume k: "k < length (w_frozen w)"
  obtain zs where "fl_frozen (flat_of ?w) = fl_frozen (flat_of w) @ zs" using flat_run_isolated r by metis
  then have e: "map (\<lambda>z. contents (w_mem ?w) (z_data z)) (w_frozen ?w) = map (\<lambda>z. contents (w_mem w) (z_data z)) (w_frozen w) @ zs"
    by (simp add: flat_of_view)
  then have "k < length (w_frozen ?w)" using k by (metis length_append length_map trans_less_add1)
  then have "contents (w_mem ?w) (z_data (w_frozen ?w ! k)) = map (\<lambda>z. contents (w_mem ?w) (z_data z)) (w_frozen ?w) ! k" by simp
  also have "\<dots> = contents (w_mem w) (z_data (w_frozen w ! k))" using k by (simp add: e nth_append)
  finally show "contents (w_mem ?w) (z_data (w_frozen ?w ! k)) = contents (w_mem w) (z_data (w_frozen w ! k))" .
next
  let ?w = "foldl (world_step sha) w xs"
  note r = world_run_flat [OF assms, of sha xs]
  fix i assume i: "i < length (w_stores w) \<and> (\<forall>x\<in>set xs. targets x \<noteq> Some i)"
  then have "i < length (fl_stores (flat_of ?w)) \<and> fl_stores (flat_of ?w) ! i = fl_stores (flat_of w) ! i"
    unfolding r using flat_run_isolated [of "flat_of w" xs i] by (simp add: flat_of_view)
  then have "i < length (w_stores ?w)" "store_view (w_mem ?w) (w_stores ?w ! i) = store_view (w_mem w) (w_stores w ! i)"
    using i by (auto simp: flat_of_view)
  then show "contents (w_mem ?w) (s_data (w_stores ?w ! i)) = contents (w_mem w) (s_data (w_stores w ! i))"
    by (simp add: store_view_def)
qed

theorem forks_are_isolated_witness:
  "let w = foldl (world_step (\<lambda>_. [])) empty_world [NewStore 7, WriteAt 0 [1, 2, 3] 0, SealIt 0, ForkOf 0 7];
       w' = world_step (\<lambda>_. []) w (WriteAt 1 [9] 0)
   in contents (w_mem w') (z_data (w_frozen w' ! 0)) = [1, 2, 3]"
proof -
  define w where "w = foldl (world_step (\<lambda>_. [])) empty_world [NewStore 7, WriteAt 0 [1, 2, 3] 0, SealIt 0, ForkOf 0 7]"
  have i: "world_inv w" unfolding w_def by (rule store_machine.run_inv [OF empty_world_inv])
  have "flat_of w = \<lparr>fl_stores = [([1, 2, 3], False), ([1, 2, 3], True)], fl_frozen = [[1, 2, 3]]\<rparr>"
    unfolding w_def world_run_flat [OF empty_world_inv]
    by (simp add: flat_of_def empty_world_def flat_write_def max_int_def)
  then have f: "map (\<lambda>z. contents (w_mem w) (z_data z)) (w_frozen w) = [[1, 2, 3]]" by (simp add: flat_of_view)
  then have l: "0 < length (w_frozen w)" by auto
  then have "contents (w_mem w) (z_data (w_frozen w ! 0)) = map (\<lambda>z. contents (w_mem w) (z_data z)) (w_frozen w) ! 0" by simp
  then have "contents (w_mem w) (z_data (w_frozen w ! 0)) = [1, 2, 3]" by (simp add: f)
  moreover have "contents (w_mem (foldl (world_step (\<lambda>_. [])) w [WriteAt 1 [9] 0]))
      (z_data (w_frozen (foldl (world_step (\<lambda>_. [])) w [WriteAt 1 [9] 0]) ! 0)) = contents (w_mem w) (z_data (w_frozen w ! 0))"
    using forks_are_isolated [OF i, of "\<lambda>_. []" "[WriteAt 1 [9] 0]"] l by blast
  ultimately show ?thesis unfolding Let_def w_def [symmetric] by (simp only: foldl_Cons foldl_Nil)
qed

end
