(* ===== verification/PreparedRoot.thy ===== *)
theory PreparedRoot
  imports StoreWorld GoPath "HOL-Library.List_Lexorder" "HOL-Library.Char_ord"
begin

text \<open>
  Snapshots of prepared files in \<open>internal/prepared\<close>: the digest-bearing \<open>Heap\<close> of \<open>heap.go\<close>, the
  conversions between it and stores, the namespace checks (\<open>root_names.go\<close>), the digest-free \<open>Root\<close> and
  the \<open>Capture\<close> that hands it over once. A nil file in a Go map is \<open>None\<close>. A \<open>Root\<close> and its files are
  values here: the pointer comparisons of \<open>Root.Check\<close> compare the values they point to.
\<close>

section \<open>Heap files\<close>

record heap_file =
  h_size :: nat
  h_blocks :: "block list"
  h_digest :: string

definition new_heap_file :: "int \<Rightarrow> block list \<Rightarrow> string \<Rightarrow> goerr + heap_file" where
  "new_heap_file sz blocks digest =
     (if sz < 0 \<or> max_int < sz \<or> length blocks \<noteq> block_count (nat sz)
      then Inl (Sentinel ''invalid snapshot file layout'')
      else case hex_decode digest of
        Some h \<Rightarrow> if length h = 32 then Inr \<lparr>h_size = nat sz, h_blocks = blocks, h_digest = digest\<rparr>
                  else Inl (Sentinel ''invalid snapshot file hash'')
      | None \<Rightarrow> Inl (Sentinel ''invalid snapshot file hash''))"

function heap_chunks :: "memory \<Rightarrow> heap_file \<Rightarrow> nat \<Rightarrow> nat \<Rightarrow> bytes" where
  "heap_chunks m f at left =
     (if left = 0 then []
      else
        let n = min left (block_size - at mod block_size) in
        block_read m (h_blocks f ! (at div block_size)) n (at mod block_size) @ heap_chunks m f (at + n) (left - n))"
  by auto
termination
proof (relation "measure (\<lambda>(m, f, at, left). left)")
  fix f :: heap_file and at left x :: nat
  assume "left \<noteq> 0" and "x = min left (block_size - at mod block_size)"
  moreover have "at mod block_size < block_size" by (rule mod_less_divisor) simp
  ultimately show "((m, f, at + x, left - x), (m, f, at, left)) \<in> measure (\<lambda>(m, f, at, left). left)" for m :: memory
    by auto
qed simp

declare heap_chunks.simps [simp del]

definition heap_read :: "memory \<Rightarrow> heap_file \<Rightarrow> nat \<Rightarrow> int \<Rightarrow> bytes \<times> goerr option" where
  "heap_read m f n off =
     (if off < 0 then ([], Some (Sentinel ''negative snapshot offset''))
      else if n = 0 then ([], None)
      else if int (h_size f) \<le> off then ([], Some err_eof)
      else
        let count = min n (h_size f - nat off) in
        (heap_chunks m f (nat off) count, if count < n then Some err_eof else None))"

text \<open>\<open>LegacyFile\<close>: the digest of the contents and the shared blocks, holes as zero blocks.\<close>

definition legacy_file :: "(bytes \<Rightarrow> string) \<Rightarrow> memory \<Rightarrow> frozen \<Rightarrow> goerr + heap_file" where
  "legacy_file sha m z =
     (case file_digest sha m (z_data z) of
        Inl e \<Rightarrow> Inl e
      | Inr digest \<Rightarrow>
          new_heap_file (int (f_size (z_data z)))
            (map (\<lambda>i. case map_of (f_blocks (z_data z)) i of Some e \<Rightarrow> blk e | None \<Rightarrow> no_block)
               [0..<block_count (f_size (z_data z))])
            digest)"

text \<open>\<open>StoreFromHeap\<close>: every block with data is copied into a private one.\<close>

definition copy_block :: "memory \<times> store \<Rightarrow> nat \<times> block \<Rightarrow> memory \<times> store" where
  "copy_block ms ib =
     (case (ms, ib) of ((m, s), (i, b)) \<Rightarrow>
        if b_data b = None then (m, s)
        else
          let a = next_cell m;
              e = \<lparr>blk = \<lparr>b_data = Some a, b_valid = b_valid b\<rparr>, route = ''inherited''\<rparr> in
          (m\<lparr>cells := (cells m)(a := block_read m b block_size 0), next_cell := Suc a\<rparr>,
           s\<lparr>s_data := (s_data s)\<lparr>f_blocks := AList.update i e (f_blocks (s_data s))\<rparr>,
             s_private := insert i (s_private s)\<rparr>))"

definition store_from_heap :: "(bytes \<Rightarrow> string) \<Rightarrow> memory \<Rightarrow> nat \<Rightarrow> heap_file \<Rightarrow> (goerr + store) \<times> memory" where
  "store_from_heap sha m src f =
     (let s0 = new_file_store src in
      case foldl copy_block (m, s0\<lparr>s_data := (s_data s0)\<lparr>f_size := h_size f\<rparr>\<rparr>)
             (zip [0..<length (h_blocks f)] (h_blocks f)) of
        (m', s) \<Rightarrow>
          (case file_digest sha m' (s_data s) of
             Inl e \<Rightarrow> (Inl e, m')
           | Inr digest \<Rightarrow>
               if digest \<noteq> h_digest f then (Inl (Sentinel ''legacy input content mismatch''), m') else (Inr s, m')))"

section \<open>Names\<close>

definition valid_name :: "string \<Rightarrow> bool" where
  "valid_name n \<longleftrightarrow> n \<noteq> [] \<and> \<not> has_prefix n ''/'' \<and> path_clean n = n \<and> n \<noteq> ''..'' \<and> \<not> has_prefix n ''../''"

text \<open>
  The checks of directories and files; a file is given by its name and whether it is not nil. The
  messages are the caller's: a bad directory, no root, no parent, a bad file.
\<close>

fun check_dirs :: "string \<Rightarrow> string list \<Rightarrow> string list \<Rightarrow> goerr + string list" where
  "check_dirs bad seen [] = Inr seen"
| "check_dirs bad seen (n # ns) =
     (if \<not> valid_name n \<or> n \<in> set seen then Inl (Sentinel bad) else check_dirs bad (n # seen) ns)"

definition check_names :: "string \<times> string \<times> string \<times> string \<Rightarrow> string list \<Rightarrow> (string \<times> bool) list \<Rightarrow> goerr option" where
  "check_names msgs dirs files =
     (case msgs of (bad_dir, no_root, no_parent, bad_file) \<Rightarrow>
        (case check_dirs bad_dir [] dirs of
           Inl e \<Rightarrow> Some e
         | Inr d \<Rightarrow>
             if ''.'' \<notin> set d then Some (Sentinel no_root)
             else if \<exists>n\<in>set dirs. n \<noteq> ''.'' \<and> path_dir n \<notin> set d then Some (Sentinel no_parent)
             else if \<exists>(n, present)\<in>set files. \<not> valid_name n \<or> n \<in> set d \<or> path_dir n \<notin> set d \<or> \<not> present
             then Some (Sentinel bad_file)
             else None))"

definition check_root_names :: "string list \<Rightarrow> (string \<times> 'f option) list \<Rightarrow> goerr option" where
  "check_root_names dirs files =
     check_names (''invalid root directory'', ''missing root directory'', ''missing root directory parent'', ''invalid root file'')
       dirs (map (\<lambda>(n, f). (n, f \<noteq> None)) files)"

section \<open>Heaps\<close>

record heap =
  hp_build :: string
  hp_dirs :: "string list"
  hp_files :: "(string \<times> heap_file option) list"

definition heap_check :: "heap option \<Rightarrow> string \<Rightarrow> goerr option" where
  "heap_check h build =
     (case h of
        None \<Rightarrow> Some (Sentinel ''snapshot guest identity mismatch'')
      | Some x \<Rightarrow>
          if hp_build x \<noteq> build then Some (Sentinel ''snapshot guest identity mismatch'')
          else check_names (''invalid snapshot directory'', ''missing snapshot root'', ''missing snapshot directory parent'', ''invalid snapshot file'')
                 (hp_dirs x) (map (\<lambda>(n, f). (n, f \<noteq> None)) (hp_files x)))"

definition new_heap :: "string \<Rightarrow> string list \<Rightarrow> (string \<times> heap_file option) list \<Rightarrow> goerr + heap" where
  "new_heap build dirs files =
     (let h = \<lparr>hp_build = build, hp_dirs = dirs, hp_files = files\<rparr> in
      case heap_check (Some h) build of Some e \<Rightarrow> Inl e | None \<Rightarrow> Inr h)"

definition sorted_names :: "(string \<times> 'f) list \<Rightarrow> string list" where
  "sorted_names files = sort (map fst files)"

text \<open>The digest \<open>Verify\<close> recomputes from the blocks of one file.\<close>

definition heap_file_digest :: "(bytes \<Rightarrow> string) \<Rightarrow> memory \<Rightarrow> heap_file \<Rightarrow> goerr + string" where
  "heap_file_digest sha m f =
     (case gather (map (\<lambda>i. heap_read m f (min block_size (h_size f - i * block_size)) (int (i * block_size)))
          [0..<block_count (h_size f)]) of
        Inl e \<Rightarrow> Inl e
      | Inr c \<Rightarrow> Inr (sha c))"

fun verify_files :: "(bytes \<Rightarrow> string) \<Rightarrow> memory \<Rightarrow> (string \<times> heap_file option) list \<Rightarrow> string list \<Rightarrow> goerr option" where
  "verify_files sha m files [] = None"
| "verify_files sha m files (n # ns) =
     (case map_of files n of
        Some (Some f) \<Rightarrow>
          (case heap_file_digest sha m f of
             Inl e \<Rightarrow> Some e
           | Inr digest \<Rightarrow>
               if digest \<noteq> h_digest f then Some (Sentinel (''snapshot content mismatch: '' @ n))
               else verify_files sha m files ns)
      | _ \<Rightarrow> verify_files sha m files ns)"

definition heap_verify :: "(bytes \<Rightarrow> string) \<Rightarrow> memory \<Rightarrow> heap option \<Rightarrow> string \<Rightarrow> goerr option" where
  "heap_verify sha m h build =
     (case heap_check h build of
        Some e \<Rightarrow> Some e
      | None \<Rightarrow> (case h of Some x \<Rightarrow> verify_files sha m (hp_files x) (sorted_names (hp_files x)) | None \<Rightarrow> None))"

section \<open>Roots\<close>

record root_stamp =
  st_file :: frozen
  st_size :: nat
  st_blocks :: "(nat \<times> root_block) list"

record root =
  r_source :: nat
  r_build :: string
  r_dirs :: "string list"
  r_files :: "(string \<times> frozen) list"
  r_stamps :: "(string \<times> root_stamp) list"
  r_dir_stamp :: "string list"

text \<open>A block is unchanged when its valid part, its length and its address are.\<close>

definition block_changed :: "memory \<Rightarrow> root_stamp \<Rightarrow> nat \<times> root_block \<Rightarrow> bool" where
  "block_changed m st ie =
     (case ie of (i, e) \<Rightarrow>
        (case map_of (st_blocks st) i of
           None \<Rightarrow> True
         | Some old \<Rightarrow>
             b_valid (blk e) \<noteq> b_valid (blk old) \<or> length (data_of m (blk e)) \<noteq> length (data_of m (blk old)) \<or>
             data_of m (blk e) = [] \<or> b_data (blk e) \<noteq> b_data (blk old)))"

definition file_changed :: "root \<Rightarrow> string \<times> frozen \<Rightarrow> bool" where
  "file_changed r nf =
     (case nf of (n, f) \<Rightarrow>
        (case map_of (r_stamps r) n of
           None \<Rightarrow> True
         | Some st \<Rightarrow> f \<noteq> st_file st \<or> f_size (z_data f) \<noteq> st_size st \<or>
             length (f_blocks (z_data f)) \<noteq> length (st_blocks st)))"

text \<open>The first loop of \<open>Check\<close> over the files: the file itself, then its blocks.\<close>

fun check_stamps :: "memory \<Rightarrow> root \<Rightarrow> (string \<times> frozen) list \<Rightarrow> goerr option" where
  "check_stamps m r [] = None"
| "check_stamps m r ((n, f) # fs) =
     (if file_changed r (n, f) then Some (Sentinel ''root file changed'')
      else if list_ex (block_changed m (the (map_of (r_stamps r) n))) (f_blocks (z_data f))
      then Some (Sentinel ''root block changed'')
      else check_stamps m r fs)"

definition block_out_of_layout :: "memory \<Rightarrow> frozen \<Rightarrow> nat \<times> root_block \<Rightarrow> bool" where
  "block_out_of_layout m f ie =
     (case ie of (i, e) \<Rightarrow> block_count (f_size (z_data f)) \<le> i \<or> block_size < b_valid (blk e) \<or>
        length (data_of m (blk e)) \<noteq> block_size)"

fun check_ownership :: "memory \<Rightarrow> root \<Rightarrow> (string \<times> frozen) list \<Rightarrow> goerr option" where
  "check_ownership m r [] = None"
| "check_ownership m r ((n, f) # fs) =
     (if z_source f \<noteq> r_source r \<or> \<not> f_sealed (z_data f) \<or> f_mapping (z_data f) \<noteq> None
      then Some (Sentinel ''root file ownership mismatch'')
      else if list_ex (block_out_of_layout m f) (f_blocks (z_data f)) then Some (Sentinel ''root block layout mismatch'')
      else check_ownership m r fs)"

definition root_check :: "memory \<Rightarrow> root \<Rightarrow> string \<Rightarrow> goerr option" where
  "root_check m r build =
     (if r_build r \<noteq> build then Some (Sentinel ''root guest identity mismatch'')
      else case check_root_names (r_dirs r) (map (\<lambda>(n, f). (n, Some f)) (r_files r)) of
        Some e \<Rightarrow> Some e
      | None \<Rightarrow>
          if length (r_files r) \<noteq> length (r_stamps r) \<or> length (r_dirs r) \<noteq> length (remdups (r_dir_stamp r))
          then Some (Sentinel ''root inventory changed'')
          else if \<not> set (r_dirs r) \<subseteq> set (r_dir_stamp r) then Some (Sentinel ''root directories changed'')
          else case check_stamps m r (r_files r) of
            Some e \<Rightarrow> Some e
          | None \<Rightarrow> check_ownership m r (r_files r))"

section \<open>Capture\<close>

record capture =
  c_requested :: bool
  c_abandoned :: bool
  c_result :: "heap option"
  c_source :: "nat option"
  c_build :: string
  c_native :: "root option"
  c_expected :: "root option"
  c_taken :: bool

definition new_capture :: capture where
  "new_capture = \<lparr>c_requested = False, c_abandoned = False, c_result = None, c_source = None, c_build = [],
     c_native = None, c_expected = None, c_taken = False\<rparr>"

definition capture_request :: "capture \<Rightarrow> capture" where
  "capture_request c = c\<lparr>c_requested := True\<rparr>"

definition capture_complete :: "heap option \<Rightarrow> capture \<Rightarrow> capture" where
  "capture_complete h c = (if c_abandoned c then c else c\<lparr>c_result := h\<rparr>)"

definition take_result :: "capture \<Rightarrow> heap option \<times> capture" where
  "take_result c = (c_result c, c\<lparr>c_result := None\<rparr>)"

definition capture_discard :: "capture \<Rightarrow> capture" where
  "capture_discard c = c\<lparr>c_abandoned := True, c_result := None, c_native := None, c_expected := None, c_source := None\<rparr>"

definition bind_root_source :: "nat option \<Rightarrow> string \<Rightarrow> capture \<Rightarrow> goerr option \<times> capture" where
  "bind_root_source source build c =
     (if source = None \<or> build = [] \<or> c_source c \<noteq> None \<or> c_abandoned c
      then (Some (Sentinel ''capture source already bound/invalid''), c)
      else (None, c\<lparr>c_source := source, c_build := build\<rparr>))"

definition built_root :: "nat \<Rightarrow> string \<Rightarrow> string list \<Rightarrow> (string \<times> frozen) list \<Rightarrow> root" where
  "built_root source build dirs files =
     \<lparr>r_source = source, r_build = build, r_dirs = dirs, r_files = files,
      r_stamps = map (\<lambda>(n, f). (n, \<lparr>st_file = f, st_size = f_size (z_data f), st_blocks = f_blocks (z_data f)\<rparr>)) files,
      r_dir_stamp = dirs\<rparr>"

definition complete_root ::
  "memory \<Rightarrow> nat option \<Rightarrow> string \<Rightarrow> string list \<Rightarrow> (string \<times> frozen option) list \<Rightarrow> capture \<Rightarrow> goerr option \<times> capture" where
  "complete_root m source build dirs files c =
     (if c_abandoned c \<or> \<not> c_requested c \<or> c_source c \<noteq> source \<or> c_build c \<noteq> build \<or> c_native c \<noteq> None \<or> c_taken c
      then (Some (Sentinel ''capture root/source/state mismatch''), c)
      else if \<exists>(n, f)\<in>set files. f = None then (Some (Sentinel ''nil frozen file''), c)
      else case source of
        None \<Rightarrow> (Some (Sentinel ''root guest identity mismatch''), c)
      | Some src \<Rightarrow>
          let r = built_root src build dirs (map (\<lambda>(n, f). (n, the f)) files) in
          (case root_check m r build of
             Some e \<Rightarrow> (Some e, c)
           | None \<Rightarrow> (None, c\<lparr>c_native := Some r, c_expected := Some r\<rparr>)))"

definition capture_emptied :: "capture \<Rightarrow> capture" where
  "capture_emptied c = c\<lparr>c_native := None, c_expected := None, c_source := None, c_taken := True\<rparr>"

definition take_root :: "memory \<Rightarrow> string \<Rightarrow> capture \<Rightarrow> (goerr + root) \<times> capture" where
  "take_root m build c =
     (case c_native c of
        None \<Rightarrow> (Inl (Sentinel ''missing/substituted capture root''), capture_emptied c)
      | Some r \<Rightarrow>
          if c_abandoned c \<or> c_taken c \<or> c_expected c \<noteq> Some r \<or> c_source c \<noteq> Some (r_source r)
          then (Inl (Sentinel ''missing/substituted capture root''), capture_emptied c)
          else case root_check m r build of
            Some e \<Rightarrow> (Inl e, capture_emptied c)
          | None \<Rightarrow> (Inr r, capture_emptied c))"

end
