(* ===== verification/RootProperties.thy ===== *)
theory RootProperties
  imports PreparedRoot
begin

text \<open>
  What snapshots of prepared files promise: the namespace checks accept exactly directory trees, the
  legacy conversion keeps the contents and passes its own verification, and a capture hands its root
  over at most once, unchanged.
\<close>

section \<open>Names are trees\<close>

definition comps :: "string \<Rightarrow> string list" where
  "comps n = (if n = ''.'' then [] else split_on CHR ''/'' n)"

lemma valid_name_comps:
  assumes "valid_name n"
  shows "rel_path (comps n) = n \<and> (\<forall>c\<in>set (comps n). proper c)"
proof -
  obtain k cs where n: "n = rel_path (replicate k ''..'' @ cs)" and p: "\<forall>c\<in>set cs. proper c"
    using assms path_clean_relative [of n] by (auto simp: valid_name_def)
  have "k = 0"
  proof (rule ccontr)
    assume "k \<noteq> 0"
    then obtain j where k: "k = Suc j" by (cases k) auto
    show False
    proof (cases "replicate j ''..'' @ cs")
      case Nil
      then have "n = ''..''" using n k by (simp add: rel_path_def)
      then show False using assms by (simp add: valid_name_def)
    next
      case (Cons x xs)
      then have "n = ''..'' @ CHR ''/'' # join_path (x # xs)" using n k by (simp add: rel_path_def)
      then have "has_prefix n ''../''" by (auto simp: has_prefix_iff)
      then show False using assms by (simp add: valid_name_def)
    qed
  qed
  then have n: "n = rel_path cs" using n by simp
  show ?thesis
  proof (cases "cs = []")
    case True
    then show ?thesis using n by (simp add: comps_def rel_path_def)
  next
    case False
    have "n \<noteq> ''.''" using n rel_path_inject [of cs "[]"] p False by (auto simp: rel_path_def)
    then have "comps n = cs" using n split_rel [OF p False] False by (simp add: comps_def rel_path_def)
    then show ?thesis using n p by simp
  qed
qed

lemma rel_path_no_parent:
  assumes "\<forall>c\<in>set cs. proper c"
  shows "rel_path cs \<noteq> ''..'' \<and> \<not> has_prefix (rel_path cs) ''../''"
proof (cases "cs = []")
  case True
  then show ?thesis by (simp add: rel_path_def has_prefix_def)
next
  case False
  have s: "split_on CHR ''/'' (join_path cs) = cs" by (rule split_rel [OF assms False])
  have "join_path cs \<noteq> ''..''"
  proof
    assume "join_path cs = ''..''"
    then have "cs = [''..'']" using s by auto
    then show False using assms by (simp add: proper_def)
  qed
  moreover have "\<not> has_prefix (join_path cs) ''../''"
  proof
    assume "has_prefix (join_path cs) ''../''"
    then obtain r where "join_path cs = ''..'' @ CHR ''/'' # r" by (auto simp: has_prefix_iff)
    then have "split_on CHR ''/'' (join_path cs) = split_on CHR ''/'' ''..'' @ split_on CHR ''/'' r"
      by (simp only: split_on_app)
    then have "''..'' \<in> set cs" by (simp add: s)
    then show False using assms by (auto simp: proper_def)
  qed
  ultimately show ?thesis using False by (simp add: rel_path_def)
qed

lemma valid_rel_path: "\<forall>c\<in>set cs. proper c \<Longrightarrow> valid_name (rel_path cs)"
proof -
  assume p: "\<forall>c\<in>set cs. proper c"
  have "rel_path cs \<noteq> [] \<and> \<not> has_prefix (rel_path cs) ''/''"
    using join_path_not_rooted [OF p] by (cases "cs = []") (simp_all add: rel_path_def has_prefix_def)
  then show ?thesis using clean_rel [OF p] rel_path_no_parent [OF p] by (simp add: valid_name_def)
qed

lemma dir_rel_path: "\<forall>c\<in>set cs. proper c \<Longrightarrow> cs \<noteq> [] \<Longrightarrow> path_dir (rel_path cs) = rel_path (butlast cs)"
  using path_dir_rel [of "butlast cs" "last cs"] by simp

lemma check_dirs_result:
  "check_dirs bad seen ns =
     (if (\<forall>n\<in>set ns. valid_name n) \<and> distinct ns \<and> set ns \<inter> set seen = {} then Inr (rev ns @ seen) else Inl (Sentinel bad))"
  by (induction ns arbitrary: seen) auto

lemma tree_names_pass:
  assumes dirs: "dirs = map rel_path D" and fs: "map fst files = map rel_path F"
    and p: "\<forall>p\<in>set D \<union> set F. \<forall>c\<in>set p. proper c" and dist: "distinct D" and root: "[] \<in> set D"
    and up: "\<forall>p\<in>set D. p \<noteq> [] \<longrightarrow> butlast p \<in> set D" and leaf: "\<forall>p\<in>set F. p \<notin> set D \<and> butlast p \<in> set D"
    and pres: "\<forall>(n, present)\<in>set files. present"
  shows "check_names msgs dirs files = None"
proof -
  obtain a b c d where msgs: "msgs = (a, b, c, d)" by (cases msgs) auto
  have inj: "rel_path q \<in> set dirs \<longleftrightarrow> q \<in> set D" if "\<forall>c\<in>set q. proper c" for q
    using rel_path_inject [OF that] p by (auto simp: dirs)
  have but: "\<forall>c\<in>set (butlast q). proper c" if "q \<in> set D \<union> set F" for q using p that by (auto dest: in_set_butlastD)
  have "inj_on rel_path (set D)" using rel_path_inject p by (auto intro!: inj_onI)
  then have d1: "distinct dirs" using dist by (simp add: dirs distinct_map)
  have vr: "valid_name (rel_path q)" if "q \<in> set D \<union> set F" for q
    by (rule valid_rel_path) (rule bspec [OF p that])
  have d2: "\<forall>n\<in>set dirs. valid_name n" using vr by (auto simp: dirs)
  have d3: "''.'' \<in> set dirs" using inj [of "[]"] root by (simp add: rel_path_def)
  have d4: "path_dir (rel_path q) \<in> set dirs" if "q \<in> set D \<union> set F" "q \<noteq> []" for q
    using dir_rel_path [of q] inj [OF but [OF that(1)]] p up leaf that by auto
  have d5: "\<forall>n\<in>set dirs. n \<noteq> ''.'' \<longrightarrow> path_dir n \<in> set dirs"
    using d4 by (auto simp: dirs rel_path_def)
  have inF: "n \<in> rel_path ` set F" if "(n, x) \<in> set files" for n x
    using that fs by (metis fst_conv image_eqI set_map)
  have d6: "valid_name n \<and> n \<notin> set dirs \<and> path_dir n \<in> set dirs \<and> x" if t: "(n, x) \<in> set files" for n x
  proof -
    obtain q where q: "q \<in> set F" "n = rel_path q" using inF [OF t] by auto
    then have "q \<noteq> []" using leaf root by auto
    then show ?thesis using q p leaf vr [of q] inj [of q] d4 [of q] pres t by auto
  qed
  then show ?thesis
    using d1 d2 d3 d5 by (auto simp: msgs check_names_def check_dirs_result)
qed

text \<open>
  C21. The name checks of heaps and roots accept exactly trees. Whatever names the guest reports, they
  pass iff the directories are the clean relative paths of a set of component lists that contains the
  root, each once and each with its parent, and the files are (non-nil) leaves: clean relative paths
  whose parent is one of the directories and that are no directory themselves. So nothing a checked
  snapshot lists can escape the snapshot's root, hide behind a file, or name two things.
\<close>
theorem checked_names_are_trees:
  "check_names msgs dirs files = None \<longleftrightarrow>
    (\<exists>D F. dirs = map rel_path D \<and> map fst files = map rel_path F \<and>
      (\<forall>p\<in>set D \<union> set F. \<forall>c\<in>set p. proper c) \<and> distinct D \<and> [] \<in> set D \<and>
      (\<forall>p\<in>set D. p \<noteq> [] \<longrightarrow> butlast p \<in> set D) \<and>
      (\<forall>p\<in>set F. p \<notin> set D \<and> butlast p \<in> set D) \<and> (\<forall>(n, present)\<in>set files. present))"
proof
  obtain a b c d where msgs: "msgs = (a, b, c, d)" by (cases msgs) auto
  assume ok: "check_names msgs dirs files = None"
  then have v: "\<forall>n\<in>set dirs. valid_name n" and dist: "distinct dirs" and dot: "''.'' \<in> set dirs"
    and par: "\<forall>n\<in>set dirs. n \<noteq> ''.'' \<longrightarrow> path_dir n \<in> set dirs"
    and fil: "\<forall>(n, present)\<in>set files. valid_name n \<and> n \<notin> set dirs \<and> path_dir n \<in> set dirs \<and> present"
    by (auto simp: msgs check_names_def check_dirs_result split: if_splits)
  have vf: "valid_name n \<and> n \<notin> set dirs \<and> path_dir n \<in> set dirs" if "n \<in> set (map fst files)" for n
    using that fil by auto
  have cd: "rel_path (comps n) = n" "\<forall>x\<in>set (comps n). proper x" if "n \<in> set dirs \<union> set (map fst files)" for n
  proof -
    have "valid_name n" using that v vf by blast
    from valid_name_comps [OF this] show "rel_path (comps n) = n" "\<forall>x\<in>set (comps n). proper x" by simp_all
  qed
  have mem: "p \<in> set (map comps dirs)" if "rel_path p \<in> set dirs" "\<forall>x\<in>set p. proper x" for p
  proof -
    have "comps (rel_path p) = p" using rel_path_inject [of "comps (rel_path p)" p] cd [of "rel_path p"] that by simp
    then show ?thesis using that(1) by (metis image_eqI set_map)
  qed
  have up: "butlast (comps n) \<in> set (map comps dirs)"
    if "n \<in> set dirs \<union> set (map fst files)" "path_dir n \<in> set dirs" "comps n \<noteq> []" for n
  proof (rule mem)
    show "rel_path (butlast (comps n)) \<in> set dirs" using dir_rel_path [OF cd(2)] cd(1) that by metis
    show "\<forall>x\<in>set (butlast (comps n)). proper x" using cd(2) [OF that(1)] by (auto dest: in_set_butlastD)
  qed
  show "\<exists>D F. dirs = map rel_path D \<and> map fst files = map rel_path F \<and>
      (\<forall>p\<in>set D \<union> set F. \<forall>c\<in>set p. proper c) \<and> distinct D \<and> [] \<in> set D \<and>
      (\<forall>p\<in>set D. p \<noteq> [] \<longrightarrow> butlast p \<in> set D) \<and>
      (\<forall>p\<in>set F. p \<notin> set D \<and> butlast p \<in> set D) \<and> (\<forall>(n, present)\<in>set files. present)"
  proof (rule exI [of _ "map comps dirs"], rule exI [of _ "map comps (map fst files)"], intro conjI)
    show "dirs = map rel_path (map comps dirs)" using cd(1) by (simp add: map_idI)
    show "map fst files = map rel_path (map comps (map fst files))" using cd(1) by simp
    show "\<forall>p\<in>set (map comps dirs) \<union> set (map comps (map fst files)). \<forall>c\<in>set p. proper c"
      using cd(2) by auto
    have "inj_on comps (set dirs)" using cd(1) by (metis UnCI inj_onI)
    then show "distinct (map comps dirs)" using dist by (simp add: distinct_map)
    show "[] \<in> set (map comps dirs)" using mem [of "[]"] dot by (simp add: rel_path_def)
    show "\<forall>p\<in>set (map comps dirs). p \<noteq> [] \<longrightarrow> butlast p \<in> set (map comps dirs)"
    proof (intro ballI impI)
      fix p assume "p \<in> set (map comps dirs)" "p \<noteq> []"
      then obtain n where n: "n \<in> set dirs" "p = comps n" "n \<noteq> ''.''" by (auto simp: comps_def)
      then show "butlast p \<in> set (map comps dirs)" using up [of n] par \<open>p \<noteq> []\<close> by blast
    qed
    show "\<forall>p\<in>set (map comps (map fst files)). p \<notin> set (map comps dirs) \<and> butlast p \<in> set (map comps dirs)"
    proof (intro ballI)
      fix p assume "p \<in> set (map comps (map fst files))"
      then obtain n where n: "n \<in> set (map fst files)" "p = comps n" by (metis imageE set_map)
      have "p \<notin> set (map comps dirs)" using vf [OF n(1)] cd(1) n by (metis UnCI imageE set_map)
      moreover have "comps n \<noteq> []"
        using calculation n(2) mem [of "[]"] dot by (auto simp: rel_path_def)
      ultimately show "p \<notin> set (map comps dirs) \<and> butlast p \<in> set (map comps dirs)"
        using up [of n] vf [OF n(1)] n by blast
    qed
    show "\<forall>(n, present)\<in>set files. present" using fil by auto
  qed
next
  assume "\<exists>D F. dirs = map rel_path D \<and> map fst files = map rel_path F \<and>
      (\<forall>p\<in>set D \<union> set F. \<forall>c\<in>set p. proper c) \<and> distinct D \<and> [] \<in> set D \<and>
      (\<forall>p\<in>set D. p \<noteq> [] \<longrightarrow> butlast p \<in> set D) \<and>
      (\<forall>p\<in>set F. p \<notin> set D \<and> butlast p \<in> set D) \<and> (\<forall>(n, present)\<in>set files. present)"
  then obtain D F where "dirs = map rel_path D" "map fst files = map rel_path F"
    "\<forall>p\<in>set D \<union> set F. \<forall>c\<in>set p. proper c" "distinct D" "[] \<in> set D"
    "\<forall>p\<in>set D. p \<noteq> [] \<longrightarrow> butlast p \<in> set D" "\<forall>p\<in>set F. p \<notin> set D \<and> butlast p \<in> set D"
    "\<forall>(n, present)\<in>set files. present"
    by (elim exE conjE)
  then show "check_names msgs dirs files = None" by (rule tree_names_pass)
qed

theorem checked_names_are_trees_witness:
  "check_root_names [''.'', ''data'', ''data/mysql''] [(''data/mysql/user.frm'', Some ())] = None"
proof -
  have "check_names (''invalid root directory'', ''missing root directory'', ''missing root directory parent'', ''invalid root file'')
     [''.'', ''data'', ''data/mysql''] [(''data/mysql/user.frm'', True)] = None"
    unfolding checked_names_are_trees
    by (rule exI [of _ "[[], [''data''], [''data'', ''mysql'']]"], rule exI [of _ "[[''data'', ''mysql'', ''user.frm'']]"])
      (simp add: rel_path_def proper_def)
  then show ?thesis by (simp add: check_root_names_def)
qed


section \<open>The legacy boundary\<close>

lemma legacy_chunks:
  assumes "f_mapping d = None"
    and "h_blocks f = map (\<lambda>i. case map_of (f_blocks d) i of Some e \<Rightarrow> blk e | None \<Rightarrow> no_block) [0..<block_count (f_size d)]"
    and "at + left \<le> f_size d"
  shows "heap_chunks m f at left = root_chunks m d at left"
  using assms(2,3)
proof (induction m f at left rule: heap_chunks.induct)
  case (1 m f at left)
  show ?case
  proof (cases "left = 0")
    case True
    then show ?thesis by (simp add: heap_chunks.simps root_chunks.simps)
  next
    case False
    define n where "n = min left (block_size - at mod block_size)"
    have "at div block_size * block_size \<le> at" by simp
    then have "at div block_size < block_count (f_size d)" using "1.prems"(2) False block_count_bounds by (meson le_less_trans less_le_trans less_add_same_cancel1 neq0_conv)
    then have b: "h_blocks f ! (at div block_size) =
        (case map_of (f_blocks d) (at div block_size) of Some e \<Rightarrow> blk e | None \<Rightarrow> no_block)"
      by (simp add: "1.prems"(1))
    have "block_read m (h_blocks f ! (at div block_size)) n (at mod block_size) = root_chunk m d at n"
      unfolding b root_chunk_def by (simp add: assms(1) block_read_def no_block_def split: option.split)
    moreover have "n \<le> left" by (simp add: n_def)
    then have "heap_chunks m f (at + n) (left - n) = root_chunks m d (at + n) (left - n)"
      using "1.IH" [OF False n_def "1.prems"(1)] "1.prems"(2) by simp
    ultimately show ?thesis
      using False by (subst heap_chunks.simps, subst root_chunks.simps) (simp add: Let_def n_def [symmetric])
  qed
qed

lemma legacy_read:
  assumes "f_mapping d = None" "h_size f = f_size d"
    and "h_blocks f = map (\<lambda>i. case map_of (f_blocks d) i of Some e \<Rightarrow> blk e | None \<Rightarrow> no_block) [0..<block_count (f_size d)]"
    and "0 \<le> off"
  shows "heap_read m f n off = root_read m d n off"
  using assms legacy_chunks [OF assms(1,3)] by (auto simp: heap_read_def root_read_def Let_def)

text \<open>Copying the blocks of a heap file, one after the other.\<close>

definition block_shows :: "memory \<Rightarrow> block \<Rightarrow> nat \<Rightarrow> u8" where
  "block_shows m b k = (if k < b_valid b then data_of m b ! k else 0)"

lemma copy_block_spec:
  assumes inv: "store_inv m s" and new: "map_of (f_blocks (s_data s)) i = None" and ok: "b_data b \<noteq> None \<longrightarrow> block_ok m b"
    and fit: "b_data b \<noteq> None \<longrightarrow> i * block_size + max 1 (b_valid b) \<le> f_size (s_data s)"
    and c: "copy_block (m, s) (i, b) = (m', s')" and nm: "f_mapping (s_data s) = None"
  shows "store_inv m' s' \<and> writes_within {} m m' \<and> own_cells s' \<subseteq> own_cells s \<union> {next_cell m..} \<and>
    file_cells (s_data s') \<subseteq> file_cells (s_data s) \<union> {next_cell m..} \<and>
    (\<exists>bs pr. s' = s\<lparr>s_data := (s_data s)\<lparr>f_blocks := bs\<rparr>, s_private := pr\<rparr>) \<and>
    (\<forall>j. j \<noteq> i \<longrightarrow> map_of (f_blocks (s_data s')) j = map_of (f_blocks (s_data s)) j) \<and>
    (\<forall>k. byte_at m' (s_data s') k =
       (if k div block_size = i \<and> b_data b \<noteq> None then block_shows m b (k mod block_size) else byte_at m (s_data s) k))"
proof (cases "b_data b")
  case None
  then have "m' = m" "s' = s" using c by (simp_all add: copy_block_def)
  moreover have "\<exists>bs pr. s = s\<lparr>s_data := (s_data s)\<lparr>f_blocks := bs\<rparr>, s_private := pr\<rparr>"
    by (rule exI [of _ "f_blocks (s_data s)"], rule exI [of _ "s_private s"]) simp
  ultimately show ?thesis using inv None by auto
next
  case (Some x)
  let ?d = "s_data s" and ?a = "next_cell m"
  note w = inv [unfolded store_inv_def]
  have fok: "file_ok m ?d" using write_inv_ok [OF w] .
  have bok: "block_ok m b" and bf: "i * block_size + max 1 (b_valid b) \<le> f_size ?d" using ok fit Some by simp_all
  define e where "e = \<lparr>blk = \<lparr>b_data = Some ?a, b_valid = b_valid b\<rparr>, route = ''inherited''\<rparr>"
  have m': "m' = m\<lparr>cells := (cells m)(?a := block_read m b block_size 0), next_cell := Suc ?a\<rparr>"
    and s': "s' = s\<lparr>s_data := ?d\<lparr>f_blocks := AList.update i e (f_blocks ?d)\<rparr>, s_private := insert i (s_private s)\<rparr>"
    using c Some by (simp_all add: copy_block_def Let_def e_def)
  have map: "map_of (f_blocks (s_data s')) j = (if j = i then Some e else map_of (f_blocks ?d) j)" for j
    by (simp add: s' update_conv')
  have same: "f_mapping (s_data s') = None" "f_limit (s_data s') = f_limit ?d" "f_size (s_data s') = f_size ?d"
    using nm by (simp_all add: s')
  have ps: "s_private s' = insert i (s_private s)" by (simp add: s')
  have ww: "writes_within {} m m'" by (simp add: m' writes_within_def)
  have cell: "cell_at (s_data s') j = (if j = i then Some ?a else cell_at ?d j)" for j by (simp add: cell_at_def map e_def)
  have lr: "length (block_read m b block_size 0) = block_size" by (simp add: block_read_def)
  have nold: "cell_at ?d j \<noteq> Some ?a" for j using file_cells_old [OF fok, of ?a] by (auto simp: file_cells_def)
  have bytes: "byte_at m' (s_data s') k = (if k div block_size = i then block_shows m b (k mod block_size) else byte_at m ?d k)" for k
  proof (cases "k div block_size = i")
    case True
    have "k mod block_size < block_size" by (rule mod_less_divisor) simp
    moreover have "b_valid b \<le> block_size" "length (data_of m b) = block_size" using bok Some by (auto simp: block_ok_def data_of_def)
    moreover have "data_of m' (blk e) = block_read m b block_size 0" by (simp add: data_of_def e_def m')
    ultimately show ?thesis using True
      by (simp add: byte_at_def map block_shows_def) (simp add: e_def block_read_def nth_pad)
  next
    case False
    have "byte_at m' (s_data s') k = byte_at m' ?d k" using False unfolding byte_at_def map same nm by simp
    then show ?thesis using False byte_at_mono [OF fok ww] by simp
  qed
  have "store_inv m' s'"
    unfolding store_inv_def write_inv_def
  proof (intro conjI allI impI ballI)
    have "block_ok m' (blk e)" using lr bok by (simp add: block_ok_def e_def m')
    moreover have "block_ok m' (blk e1)" if "map_of (f_blocks ?d) j = Some e1" for j e1
      using file_ok_block [OF fok that] ww by (rule block_ok_mono)
    ultimately show "file_ok m' (s_data s')" using fok unfolding file_ok_def by (simp add: map same)
  next
    fix j e1 assume j: "map_of (f_blocks (s_data s')) j = Some e1"
    then have "j * block_size + max 1 (b_valid (blk e1)) \<le> f_size ?d"
      using bf write_inv_reach [OF w, of j e1] by (cases "j = i") (auto simp: map e_def split: if_splits)
    then show "j * block_size + max 1 (b_valid (blk e1)) \<le> (if j \<in> s_private s' then f_size (s_data s') else f_size (s_data s'))"
      by (simp add: same)
  next
    fix j assume "j \<in> s_private s'"
    then have "j = i \<or> j \<in> s_private s" by (simp add: s')
    then show "map_of (f_blocks (s_data s')) j \<noteq> None" using write_inv_private [OF w] unfolding map by auto
  next
    fix j l y assume j: "j \<in> s_private s'" "l \<noteq> j" "cell_at (s_data s') j = Some y"
    show "cell_at (s_data s') l \<noteq> Some y"
    proof (cases "j = i")
      case True
      then show ?thesis using j nold by (auto simp: cell)
    next
      case False
      then have "j \<in> s_private s" "cell_at ?d j = Some y" using j by (simp_all add: cell, simp add: s')
      then show ?thesis using write_inv_distinct [OF w _ _ j(2)] nold by (auto simp: cell)
    qed
  qed
  moreover have "own_cells s' \<subseteq> own_cells s \<union> {?a..}"
    unfolding own_cells_def cell ps by (auto split: if_splits)
  moreover have "file_cells (s_data s') \<subseteq> file_cells ?d \<union> {?a..}" by (auto simp: file_cells_def cell split: if_splits)
  moreover have "\<exists>bs pr. s' = s\<lparr>s_data := ?d\<lparr>f_blocks := bs\<rparr>, s_private := pr\<rparr>" using s' by blast
  ultimately show ?thesis using ww bytes Some map by auto
qed


lemma copy_blocks_spec:
  assumes "store_inv m s" "f_mapping (s_data s) = None" "\<forall>j\<ge>i0. map_of (f_blocks (s_data s)) j = None"
    and "\<forall>i b. (i, b) \<in> set (zip [i0..<i0 + length bs] bs) \<longrightarrow> b_data b \<noteq> None \<longrightarrow>
           block_ok m b \<and> i * block_size + max 1 (b_valid b) \<le> f_size (s_data s)"
    and "foldl copy_block (m, s) (zip [i0..<i0 + length bs] bs) = (m', s')"
  shows "store_inv m' s' \<and> writes_within {} m m' \<and> own_cells s' \<subseteq> own_cells s \<union> {next_cell m..} \<and>
    file_cells (s_data s') \<subseteq> file_cells (s_data s) \<union> {next_cell m..} \<and>
    (\<exists>bs pr. s' = s\<lparr>s_data := (s_data s)\<lparr>f_blocks := bs\<rparr>, s_private := pr\<rparr>) \<and>
    (\<forall>k. byte_at m' (s_data s') k =
       (if i0 \<le> k div block_size \<and> k div block_size < i0 + length bs \<and> b_data (bs ! (k div block_size - i0)) \<noteq> None
        then block_shows m (bs ! (k div block_size - i0)) (k mod block_size) else byte_at m (s_data s) k))"
  using assms
proof (induction bs arbitrary: m s i0)
  case Nil
  then have "m' = m" "s' = s" by simp_all
  moreover have "\<exists>bs pr. s = s\<lparr>s_data := (s_data s)\<lparr>f_blocks := bs\<rparr>, s_private := pr\<rparr>"
    by (rule exI [of _ "f_blocks (s_data s)"], rule exI [of _ "s_private s"]) simp
  ultimately show ?case using Nil.prems(1) by auto
next
  case (Cons b bs)
  have z: "zip [i0..<i0 + length (b # bs)] (b # bs) = (i0, b) # zip [Suc i0..<Suc i0 + length bs] bs"
    by (simp add: upt_conv_Cons del: upt_Suc)
  obtain m1 s1 where c: "copy_block (m, s) (i0, b) = (m1, s1)" by (cases "copy_block (m, s) (i0, b)") auto
  have b0: "b_data b \<noteq> None \<longrightarrow> block_ok m b \<and> i0 * block_size + max 1 (b_valid b) \<le> f_size (s_data s)"
    using Cons.prems(4) unfolding z by (metis list.set_intros(1))
  have n0: "map_of (f_blocks (s_data s)) i0 = None" using Cons.prems(3) by simp
  have b1: "b_data b \<noteq> None \<longrightarrow> block_ok m b" "b_data b \<noteq> None \<longrightarrow> i0 * block_size + max 1 (b_valid b) \<le> f_size (s_data s)"
    using b0 by blast+
  note cs = copy_block_spec [OF Cons.prems(1) n0 b1 c Cons.prems(2)]
  have one: "store_inv m1 s1" "writes_within {} m m1" "own_cells s1 \<subseteq> own_cells s \<union> {next_cell m..}"
    "file_cells (s_data s1) \<subseteq> file_cells (s_data s) \<union> {next_cell m..}"
    "\<exists>bs pr. s1 = s\<lparr>s_data := (s_data s)\<lparr>f_blocks := bs\<rparr>, s_private := pr\<rparr>"
    "\<forall>j. j \<noteq> i0 \<longrightarrow> map_of (f_blocks (s_data s1)) j = map_of (f_blocks (s_data s)) j"
    "\<forall>k. byte_at m1 (s_data s1) k =
       (if k div block_size = i0 \<and> b_data b \<noteq> None then block_shows m b (k mod block_size) else byte_at m (s_data s) k)"
    using cs by - (elim conjE, assumption)+
  have p2: "f_mapping (s_data s1) = None" "f_size (s_data s1) = f_size (s_data s)" using one(5) Cons.prems(2) by auto
  have p3: "\<forall>j\<ge>Suc i0. map_of (f_blocks (s_data s1)) j = None" using one(6) Cons.prems(3) by simp
  have p4: "\<forall>i c. (i, c) \<in> set (zip [Suc i0..<Suc i0 + length bs] bs) \<longrightarrow> b_data c \<noteq> None \<longrightarrow>
           block_ok m1 c \<and> i * block_size + max 1 (b_valid c) \<le> f_size (s_data s1)"
    using Cons.prems(4) block_ok_mono [OF _ one(2)] unfolding z p2(2) by (metis list.set_intros(2))
  have f: "foldl copy_block (m1, s1) (zip [Suc i0..<Suc i0 + length bs] bs) = (m', s')"
    using Cons.prems(5) c unfolding z by simp
  note IH = Cons.IH [OF one(1) p2(1) p3 p4 f]
  have shows_same: "block_shows m1 c r = block_shows m c r" if t: "c \<in> set bs" "b_data c \<noteq> None" for c r
  proof -
    have l: "length [Suc i0..<Suc i0 + length bs] = length bs" by (simp del: upt_Suc)
    obtain i where "(i, c) \<in> set (zip [Suc i0..<Suc i0 + length bs] bs)"
      using in_set_impl_in_set_zip2 [OF l t(1)] .
    then have "block_ok m c" using Cons.prems(4) t(2) unfolding z by (metis list.set_intros(2))
    then obtain a where "b_data c = Some a" "a < next_cell m" by (auto simp: block_ok_def)
    then show ?thesis using one(2) by (simp add: block_shows_def data_of_def writes_within_def)
  qed
  have "byte_at m' (s_data s') k =
     (if i0 \<le> k div block_size \<and> k div block_size < i0 + length (b # bs) \<and> b_data ((b # bs) ! (k div block_size - i0)) \<noteq> None
      then block_shows m ((b # bs) ! (k div block_size - i0)) (k mod block_size) else byte_at m (s_data s) k)" for k
  proof -
    let ?q = "k div block_size"
    consider "?q < i0" | "?q = i0" | j where "?q = Suc i0 + j" by (metis less_natE linorder_neqE_nat add_Suc_shift add_Suc_right add_Suc)
    then show ?thesis
    proof cases
      case 1
      then show ?thesis using IH one(7) by simp
    next
      case 2
      then show ?thesis using IH one(7) by simp
    next
      case 3
      then have e: "(b # bs) ! (?q - i0) = bs ! j" "?q - Suc i0 = j" by simp_all
      show ?thesis
      proof (cases "j < length bs \<and> b_data (bs ! j) \<noteq> None")
        case True
        then have "block_shows m1 (bs ! j) (k mod block_size) = block_shows m (bs ! j) (k mod block_size)"
          using shows_same nth_mem by blast
        then show ?thesis using IH 3 e True by simp
      next
        case False
        then show ?thesis using IH one(7) 3 e by auto
      qed
    qed
  qed
  moreover have "writes_within {} m m'" using writes_within_trans [OF one(2)] IH by blast
  moreover have "own_cells s' \<subseteq> own_cells s \<union> {next_cell m..}" "file_cells (s_data s') \<subseteq> file_cells (s_data s) \<union> {next_cell m..}"
    using IH one(2,3,4) by (fastforce simp: writes_within_def)+
  moreover have "\<exists>bs pr. s' = s\<lparr>s_data := (s_data s)\<lparr>f_blocks := bs\<rparr>, s_private := pr\<rparr>"
  proof -
    obtain b1 p1 where e1: "s1 = s\<lparr>s_data := (s_data s)\<lparr>f_blocks := b1\<rparr>, s_private := p1\<rparr>" using one(5) by blast
    obtain b2 p2 where "s' = s1\<lparr>s_data := (s_data s1)\<lparr>f_blocks := b2\<rparr>, s_private := p2\<rparr>" using IH by blast
    then have "s' = s\<lparr>s_data := (s_data s)\<lparr>f_blocks := b2\<rparr>, s_private := p2\<rparr>" by (simp add: e1)
    then show ?thesis by blast
  qed
  ultimately show ?case using IH by blast
qed


lemma frozen_reach:
  assumes "frozen_inv m z" "map_of (f_blocks (z_data z)) i = Some e"
  shows "block_ok m (blk e) \<and> i * block_size + max 1 (b_valid (blk e)) \<le> f_size (z_data z)"
proof -
  let ?s = "\<lparr>s_source = z_source z, s_data = z_data z, s_private = {}\<rparr>"
  have "write_inv (f_size (z_data z)) m ?s" using assms(1) by (simp add: frozen_inv_def store_inv_def)
  from write_inv_reach [OF this] file_ok_block [OF frozen_inv_ok [OF assms(1)]] assms(2) show ?thesis by simp
qed

lemma store_from_legacy:
  assumes z: "frozen_inv m z" and f: "h_size f = f_size (z_data z)" "h_digest f = sha (contents m (z_data z))"
    "h_blocks f = map (\<lambda>i. case map_of (f_blocks (z_data z)) i of Some e \<Rightarrow> blk e | None \<Rightarrow> no_block) [0..<block_count (f_size (z_data z))]"
  shows "\<exists>m' s. store_from_heap sha m src f = (Inr s, m') \<and> contents m' (s_data s) = contents m (z_data z) \<and>
    store_inv m' s \<and> writes_within {} m m' \<and> file_cells (s_data s) \<subseteq> {next_cell m..}"
proof -
  let ?d = "z_data z" and ?n = "block_count (f_size (z_data z))"
  let ?s0 = "(new_file_store src)\<lparr>s_data := (s_data (new_file_store src))\<lparr>f_size := f_size ?d\<rparr>\<rparr>"
  have nm: "f_mapping ?d = None" "f_limit ?d = 0" using z by (simp_all add: frozen_inv_def)
  have i0: "store_inv m ?s0" "f_mapping (s_data ?s0) = None" "\<forall>j\<ge>0. map_of (f_blocks (s_data ?s0)) j = None"
    "file_cells (s_data ?s0) = {}" "byte_at m (s_data ?s0) k = 0" "f_size (s_data ?s0) = f_size ?d" for k
    by (simp_all add: store_inv_def write_inv_def new_file_store_def empty_file_def file_ok_def file_cells_def cell_at_def byte_at_def)
  have l: "length (h_blocks f) = ?n" by (simp add: f)
  have nth: "h_blocks f ! i = (case map_of (f_blocks ?d) i of Some e \<Rightarrow> blk e | None \<Rightarrow> no_block)" if "i < ?n" for i
    using that by (simp add: f)
  obtain m' s where c: "foldl copy_block (m, ?s0) (zip [0..<0 + length (h_blocks f)] (h_blocks f)) = (m', s)"
    by (cases "foldl copy_block (m, ?s0) (zip [0..<0 + length (h_blocks f)] (h_blocks f))") auto
  have p: "\<forall>i b. (i, b) \<in> set (zip [0..<0 + length (h_blocks f)] (h_blocks f)) \<longrightarrow> b_data b \<noteq> None \<longrightarrow>
      block_ok m b \<and> i * block_size + max 1 (b_valid b) \<le> f_size (s_data ?s0)"
  proof (intro allI impI)
    fix i b assume "(i, b) \<in> set (zip [0..<0 + length (h_blocks f)] (h_blocks f))" and d: "b_data b \<noteq> None"
    then have i: "i < ?n" "b = h_blocks f ! i" using l by (auto simp: set_zip)
    then obtain e where "map_of (f_blocks ?d) i = Some e" "b = blk e" using nth d by (auto simp: no_block_def split: option.splits)
    then show "block_ok m b \<and> i * block_size + max 1 (b_valid b) \<le> f_size (s_data ?s0)"
      using frozen_reach [OF z] i0(6) by simp
  qed
  note r = copy_blocks_spec [OF i0(1,2,3) p c]
  have bytes: "byte_at m' (s_data s) k = byte_at m ?d k" if k: "k < f_size ?d" for k
  proof -
    have "k div block_size * block_size \<le> k" by simp
    then have q: "k div block_size < ?n" using k block_count_bounds by (meson le_less_trans)
    have b: "byte_at m' (s_data s) k = (if b_data (h_blocks f ! (k div block_size)) \<noteq> None
        then block_shows m (h_blocks f ! (k div block_size)) (k mod block_size) else 0)"
      using r i0(5) q l by simp
    show ?thesis
    proof (cases "map_of (f_blocks ?d) (k div block_size)")
      case None
      then show ?thesis using b nth [OF q] by (simp add: no_block_def byte_at_def nm)
    next
      case (Some e)
      then have "b_data (blk e) \<noteq> None" using frozen_reach [OF z Some] by (auto simp: block_ok_def)
      then show ?thesis using b nth [OF q] Some by (simp add: byte_at_def block_shows_def)
    qed
  qed
  have sz: "f_size (s_data s) = f_size ?d" using r i0(6) by auto
  have ct: "contents m' (s_data s) = contents m ?d" using bytes by (simp add: contents_def sz)
  have inv: "store_inv m' s" "writes_within {} m m'" "file_cells (s_data s) \<subseteq> {next_cell m..}" using r i0(4) by simp_all
  have "store_from_heap sha m src f = (Inr s, m')"
    using c by (simp add: store_from_heap_def f(1,2) file_digest_contents [OF store_inv_ok [OF inv(1)]] ct Let_def)
  then show ?thesis using ct inv by blast
qed

text \<open>
  The two routes of a snapshot agree. A sealed file converted by \<open>LegacyFile\<close> (for any digest
  function whose results are 32 bytes in hexadecimal) gives a heap file that reads like the sealed file
  at every offset and length, end of file included; its recomputed digest is the stored one, so \<open>Verify\<close>
  accepts it; and \<open>StoreFromHeap\<close> accepts it and yields a store with the same contents that shares no
  block with anything that existed before.
\<close>
lemma legacy_route_keeps_contents:
  assumes "frozen_inv m z" "int (f_size (z_data z)) \<le> max_int"
    and "hex_decode (sha (contents m (z_data z))) = Some h" "length h = 32"
  shows "\<exists>f s m'. legacy_file sha m z = Inr f \<and>
    (\<forall>n off. 0 \<le> off \<longrightarrow> heap_read m f n off = frozen_read m z n off) \<and>
    heap_file_digest sha m f = Inr (h_digest f) \<and>
    store_from_heap sha m src f = (Inr s, m') \<and> contents m' (s_data s) = contents m (z_data z) \<and>
    store_inv m' s \<and> writes_within {} m m' \<and> file_cells (s_data s) \<subseteq> {next_cell m..}"
proof -
  let ?d = "z_data z"
  let ?bs = "map (\<lambda>i. case map_of (f_blocks ?d) i of Some e \<Rightarrow> blk e | None \<Rightarrow> no_block) [0..<block_count (f_size ?d)]"
  let ?f = "\<lparr>h_size = f_size ?d, h_blocks = ?bs, h_digest = sha (contents m ?d)\<rparr>"
  have ok: "file_ok m ?d" by (rule frozen_inv_ok [OF assms(1)])
  have nm: "f_mapping ?d = None" using assms(1) by (simp add: frozen_inv_def)
  have lf: "legacy_file sha m z = Inr ?f"
    using assms by (simp add: legacy_file_def file_digest_contents [OF ok] new_heap_file_def)
  have rd: "heap_read m ?f n off = root_read m ?d n off" if "0 \<le> off" for n off
    by (rule legacy_read [OF nm _ _ that]) simp_all
  have "heap_file_digest sha m ?f = file_digest sha m ?d"
    by (simp add: heap_file_digest_def file_digest_def rd)
  then have "heap_file_digest sha m ?f = Inr (h_digest ?f)" by (simp add: file_digest_contents [OF ok])
  moreover obtain s m' where "store_from_heap sha m src ?f = (Inr s, m')" "contents m' (s_data s) = contents m ?d"
    "store_inv m' s" "writes_within {} m m'" "file_cells (s_data s) \<subseteq> {next_cell m..}"
    using store_from_legacy [OF assms(1), of ?f sha src] by auto
  ultimately show ?thesis using lf rd by (auto simp: frozen_read_def)
qed

lemma legacy_route_keeps_contents_example:
  "\<exists>f. legacy_file (\<lambda>_. replicate 64 CHR ''a'') \<lparr>cells = (\<lambda>_. []), next_cell = 0\<rparr>
      \<lparr>z_source = 0, z_data = empty_file\<lparr>f_size := 3, f_sealed := True\<rparr>\<rparr> = Inr f \<and>
    heap_read \<lparr>cells = (\<lambda>_. []), next_cell = 0\<rparr> f 2 0
      = frozen_read \<lparr>cells = (\<lambda>_. []), next_cell = 0\<rparr> \<lparr>z_source = 0, z_data = empty_file\<lparr>f_size := 3, f_sealed := True\<rparr>\<rparr> 2 0"
proof -
  let ?m = "\<lparr>cells = (\<lambda>_. []), next_cell = 0\<rparr> :: memory"
  let ?z = "\<lparr>z_source = 0, z_data = empty_file\<lparr>f_size := 3, f_sealed := True\<rparr>\<rparr> :: frozen"
  have i: "frozen_inv ?m ?z"
    by (simp add: frozen_inv_def store_inv_def write_inv_def empty_file_def file_ok_def)
  have s: "int (f_size (z_data ?z)) \<le> max_int" by (simp add: max_int_def)
  have h: "hex_decode (replicate 64 CHR ''a'') = Some (replicate 32 170)" by code_simp
  show ?thesis using legacy_route_keeps_contents [OF i s h, of 0] by force
qed

section \<open>Handing over\<close>

text \<open>The calls on a capture; \<open>TakeRootOp\<close> may hand a root over.\<close>

datatype capture_op =
    RequestOp
  | BindOp "nat option" string
  | CompleteOp "heap option"
  | TakeResultOp
  | CompleteRootOp memory "nat option" string "string list" "(string \<times> frozen option) list"
  | TakeRootOp memory string
  | DiscardOp

fun capture_step :: "capture \<times> root list \<Rightarrow> capture_op \<Rightarrow> capture \<times> root list" where
  "capture_step (c, rs) RequestOp = (capture_request c, rs)"
| "capture_step (c, rs) (BindOp source build) = (snd (bind_root_source source build c), rs)"
| "capture_step (c, rs) (CompleteOp h) = (capture_complete h c, rs)"
| "capture_step (c, rs) TakeResultOp = (snd (take_result c), rs)"
| "capture_step (c, rs) (CompleteRootOp m source build dirs files) = (snd (complete_root m source build dirs files c), rs)"
| "capture_step (c, rs) (TakeRootOp m build) =
     (case take_root m build c of (Inr r, c') \<Rightarrow> (c', rs @ [r]) | (Inl _, c') \<Rightarrow> (c', rs))"
| "capture_step (c, rs) DiscardOp = (capture_discard c, rs)"

definition capture_run :: "capture_op list \<Rightarrow> capture \<times> root list" where
  "capture_run ops = foldl capture_step (new_capture, []) ops"

text \<open>The history that justifies a completed root.\<close>

definition completed_in :: "capture_op list \<Rightarrow> root \<Rightarrow> bool" where
  "completed_in ops r \<longleftrightarrow> (\<exists>as bs m src build dirs files.
     ops = as @ CompleteRootOp m (Some src) build dirs files # bs \<and> RequestOp \<in> set as \<and>
     BindOp (Some src) build \<in> set as \<and> DiscardOp \<notin> set (as @ bs) \<and>
     r = built_root src build dirs (map (\<lambda>(n, f). (n, the f)) files) \<and> (\<forall>(n, f)\<in>set files. f \<noteq> None) \<and>
     root_check m r build = None)"

definition handed_in :: "capture_op list \<Rightarrow> root \<Rightarrow> bool" where
  "handed_in ops r \<longleftrightarrow> (\<exists>as bs m build. ops = as @ TakeRootOp m build # bs \<and> completed_in as r \<and> root_check m r build = None)"

definition capture_inv :: "capture_op list \<Rightarrow> capture \<times> root list \<Rightarrow> bool" where
  "capture_inv ops x \<longleftrightarrow> (case x of (c, rs) \<Rightarrow>
     (c_requested c \<longrightarrow> RequestOp \<in> set ops) \<and>
     (\<forall>s. c_source c = Some s \<longrightarrow> BindOp (Some s) (c_build c) \<in> set ops) \<and>
     (\<not> c_abandoned c \<longrightarrow> DiscardOp \<notin> set ops) \<and>
     (\<forall>r. c_native c = Some r \<longrightarrow> completed_in ops r \<and> \<not> c_abandoned c) \<and>
     (rs \<noteq> [] \<longrightarrow> c_taken c) \<and> (c_taken c \<longrightarrow> c_native c = None) \<and> length rs \<le> 1 \<and> (\<forall>r\<in>set rs. handed_in ops r))"

lemma completed_in_snoc: "completed_in ops r \<Longrightarrow> x \<noteq> DiscardOp \<Longrightarrow> completed_in (ops @ [x]) r"
  unfolding completed_in_def
proof (elim exE conjE)
  fix as bs m src build dirs files
  assume h: "x \<noteq> DiscardOp" "ops = as @ CompleteRootOp m (Some src) build dirs files # bs" "RequestOp \<in> set as"
     "BindOp (Some src) build \<in> set as" "DiscardOp \<notin> set (as @ bs)"
     "r = built_root src build dirs (map (\<lambda>(n, f). (n, the f)) files)" "\<forall>(n, f)\<in>set files. f \<noteq> None" "root_check m r build = None"
  show "\<exists>as bs m src build dirs files.
     ops @ [x] = as @ CompleteRootOp m (Some src) build dirs files # bs \<and> RequestOp \<in> set as \<and>
     BindOp (Some src) build \<in> set as \<and> DiscardOp \<notin> set (as @ bs) \<and>
     r = built_root src build dirs (map (\<lambda>(n, f). (n, the f)) files) \<and> (\<forall>(n, f)\<in>set files. f \<noteq> None) \<and>
     root_check m r build = None"
    by (rule exI [of _ as], rule exI [of _ "bs @ [x]"], rule exI [of _ m], rule exI [of _ src], rule exI [of _ build],
        rule exI [of _ dirs], rule exI [of _ files]) (use h in auto)
qed

lemma handed_in_snoc: "handed_in ops r \<Longrightarrow> handed_in (ops @ [x]) r"
  unfolding handed_in_def by (metis append.assoc append_Cons)


lemma complete_root_cases:
  obtains (failed) "snd (complete_root m source build dirs files c) = c"
  | (built) src where "source = Some src" "snd (complete_root m source build dirs files c) =
        c\<lparr>c_native := Some (built_root src build dirs (map (\<lambda>(n, f). (n, the f)) files)),
          c_expected := Some (built_root src build dirs (map (\<lambda>(n, f). (n, the f)) files))\<rparr>"
      "\<not> c_abandoned c" "c_requested c" "c_source c = source" "c_build c = build" "\<not> c_taken c"
      "\<forall>(n, f)\<in>set files. f \<noteq> None"
      "root_check m (built_root src build dirs (map (\<lambda>(n, f). (n, the f)) files)) build = None"
  by (fastforce simp: complete_root_def Let_def split: if_splits option.splits)

lemma take_root_cases:
  obtains (refused) e where "take_root m build c = (Inl e, capture_emptied c)"
  | (handed) r where "take_root m build c = (Inr r, capture_emptied c)" "c_native c = Some r" "root_check m r build = None"
proof (cases "\<exists>e. take_root m build c = (Inl e, capture_emptied c)")
  case True
  then show ?thesis using refused by blast
next
  case False
  then obtain r where r: "c_native c = Some r" by (cases "c_native c") (auto simp: take_root_def)
  have k: "root_check m r build = None"
  proof (rule ccontr)
    assume "root_check m r build \<noteq> None"
    then obtain a where "root_check m r build = Some a" by blast
    then have "\<exists>e. take_root m build c = (Inl e, capture_emptied c)"
      unfolding take_root_def by (simp add: r del: ex_simps)
    then show False using False by blast
  qed
  then have "take_root m build c = (Inr r, capture_emptied c)" using False r by (auto simp: take_root_def split: if_splits)
  then show ?thesis using handed r k by blast
qed

lemma capture_step_inv:
  assumes "capture_inv ops x"
  shows "capture_inv (ops @ [op]) (capture_step x op)"
proof -
  obtain c rs where x: "x = (c, rs)" by (cases x) auto
  have req: "c_requested c \<longrightarrow> RequestOp \<in> set ops"
    and src: "\<And>s. c_source c = Some s \<Longrightarrow> BindOp (Some s) (c_build c) \<in> set ops"
    and dis: "\<not> c_abandoned c \<longrightarrow> DiscardOp \<notin> set ops"
    and nat: "\<And>r. c_native c = Some r \<Longrightarrow> completed_in ops r \<and> \<not> c_abandoned c"
    and rs: "rs \<noteq> [] \<longrightarrow> c_taken c" and tk: "c_taken c \<longrightarrow> c_native c = None" and one: "length rs \<le> 1"
    and han: "\<forall>r\<in>set rs. handed_in ops r"
    using assms by (simp_all add: capture_inv_def x)
  have han': "\<forall>r\<in>set rs. handed_in (ops @ [op]) r" using han handed_in_snoc by blast
  have keep: "\<And>r. c_native c = Some r \<Longrightarrow> op \<noteq> DiscardOp \<Longrightarrow> completed_in (ops @ [op]) r \<and> \<not> c_abandoned c"
    using nat completed_in_snoc by blast
  have src': "\<And>s. c_source c = Some s \<Longrightarrow> BindOp (Some s) (c_build c) \<in> set (ops @ [op])" using src by simp
  show ?thesis
  proof (cases op)
    case RequestOp
    then show ?thesis using src' dis keep rs tk one han' by (simp add: capture_inv_def x capture_request_def)
  next
    case (BindOp s b)
    then show ?thesis using req src' dis keep rs tk one han'
      by (auto simp: capture_inv_def x bind_root_source_def split: if_splits)
  next
    case (CompleteOp h)
    then show ?thesis using req src' dis keep rs tk one han'
      by (auto simp: capture_inv_def x capture_complete_def split: if_splits)
  next
    case TakeResultOp
    then show ?thesis using req src' dis keep rs tk one han' by (simp add: capture_inv_def x take_result_def)
  next
    case DiscardOp
    then show ?thesis using req src' rs one han' by (simp add: capture_inv_def x capture_discard_def)
  next
    case (CompleteRootOp m source build dirs files)
    show ?thesis
    proof (cases rule: complete_root_cases [of m source build dirs files c])
      case failed
      then show ?thesis using CompleteRootOp req src' dis keep rs tk one han' by (simp add: capture_inv_def x)
    next
      case (built s)
      let ?r = "built_root s build dirs (map (\<lambda>(n, f). (n, the f)) files)"
      have "completed_in (ops @ [op]) ?r"
        unfolding completed_in_def
        by (rule exI [of _ ops], rule exI [of _ "[]"], rule exI [of _ m], rule exI [of _ s], rule exI [of _ build],
            rule exI [of _ dirs], rule exI [of _ files])
          (use built req src dis CompleteRootOp in auto)
      then show ?thesis using CompleteRootOp built req src' dis rs tk one han' by (simp add: capture_inv_def x)
    qed
  next
    case (TakeRootOp m build)
    show ?thesis
    proof (cases rule: take_root_cases [of m build c])
      case (refused e)
      then show ?thesis using TakeRootOp req dis one han' by (simp add: capture_inv_def x capture_emptied_def)
    next
      case (handed r)
      have "handed_in (ops @ [op]) r" unfolding handed_in_def
        using nat [OF handed(2)] handed(3) TakeRootOp by blast
      moreover have "rs = []" using rs tk handed(2) by auto
      ultimately show ?thesis using TakeRootOp handed req dis by (simp add: capture_inv_def x capture_emptied_def)
    qed
  qed
qed

lemma capture_run_inv: "capture_inv ops (capture_run ops)"
proof (induction ops rule: rev_induct)
  case Nil
  then show ?case by (simp add: capture_inv_def capture_run_def new_capture_def)
next
  case (snoc op ops)
  then show ?case using capture_step_inv by (simp add: capture_run_def)
qed

text \<open>
  C22. A capture hands over at most one root. In any sequence of calls on a capture, at most one call of
  \<open>TakeRoot\<close> succeeds, and the root it returns is exactly the one that a \<open>CompleteRoot\<close> before it built
  from its arguments, after a request, from the source the capture was bound to under that build, with
  no nil file, with no discard before the handover, and which passed \<open>Check\<close> both when it was completed
  and when it was handed over.
\<close>
theorem capture_hands_over_once:
  "length (snd (capture_run ops)) \<le> 1 \<and> (\<forall>r\<in>set (snd (capture_run ops)). handed_in ops r)"
  using capture_run_inv [of ops] by (auto simp: capture_inv_def split: prod.splits)

theorem capture_hands_over_once_witness:
  "\<exists>m r. snd (capture_run [RequestOp, BindOp (Some 1) ''b'', CompleteRootOp m (Some 1) ''b'' [''.''] [],
     TakeRootOp m ''b'', TakeRootOp m ''b'']) = [r] \<and>
     handed_in [RequestOp, BindOp (Some 1) ''b'', CompleteRootOp m (Some 1) ''b'' [''.''] [],
     TakeRootOp m ''b'', TakeRootOp m ''b''] r"
proof -
  let ?m = "\<lparr>cells = (\<lambda>_. []), next_cell = 0\<rparr> :: memory"
  let ?ops = "[RequestOp, BindOp (Some 1) ''b'', CompleteRootOp ?m (Some 1) ''b'' [''.''] [], TakeRootOp ?m ''b'', TakeRootOp ?m ''b'']"
  have v: "valid_name ''.''" by code_simp
  have "snd (capture_run ?ops) = [built_root 1 ''b'' [''.''] []]"
    by (simp add: capture_run_def new_capture_def capture_request_def bind_root_source_def complete_root_def root_check_def
        built_root_def check_root_names_def check_names_def v take_root_def capture_emptied_def Let_def)
  then show ?thesis using capture_hands_over_once [of ?ops] by auto
qed

end
