(* ===== verification/MemFS.thy ===== *)
theory MemFS
  imports PreparedRoot
begin

text \<open>
  The in-memory file system of the generated runtime (\<open>internal/generatedgo/code/base\<close>: \<open>memfs.go\<close>,
  \<open>memfs_growth.go\<close>, \<open>block_storage.go\<close>). A \<open>*memNode\<close> is a number, the nodes are a store of their
  own, and the block storage of a node is the index of its \<open>FileStore\<close> in the world of stores of the
  process, so that handles, renamed and unlinked nodes share state as the pointers of the code do.
  Go maps of children are association lists. The current time and the spare capacity that Go's
  \<open>append\<close> chooses are arguments. An operation that can panic returns an option, \<open>None\<close> the panic.
\<close>

definition err_not_exist :: goerr where "err_not_exist = Sentinel ''file does not exist''"
definition err_exist :: goerr where "err_exist = Sentinel ''file already exists''"
definition err_invalid :: goerr where "err_invalid = Sentinel ''fs: invalid argument''"
definition err_permission :: goerr where "err_permission = Sentinel ''permission denied''"
definition err_ebadf :: goerr where "err_ebadf = Sentinel ''bad file descriptor''"
definition err_eisdir :: goerr where "err_eisdir = Sentinel ''is a directory''"

text \<open>\<open>fs.PathError\<close>: its text, and the error it unwraps to.\<close>

definition path_error :: "string \<Rightarrow> string \<Rightarrow> goerr \<Rightarrow> goerr" where
  "path_error op path e = Wrapped (op @ '' '' @ path @ '': '') e []"

section \<open>Slices that grow\<close>

text \<open>A \<open>[]byte\<close> with its capacity: the backing array and the length in use.\<close>

record slice =
  arr :: bytes
  used :: nat

definition nil_slice :: slice where "nil_slice = \<lparr>arr = [], used = 0\<rparr>"

definition slice_bytes :: "slice \<Rightarrow> bytes" where
  "slice_bytes s = take (used s) (arr s)"

definition resize_mem_data :: "slice \<Rightarrow> nat \<Rightarrow> slice" where
  "resize_mem_data d n =
     (let old = used d; capacity = length (arr d) in
      if n \<le> capacity
      then \<lparr>arr = (if old < n then take old (arr d) @ replicate (n - old) 0 @ drop n (arr d) else arr d), used = n\<rparr>
      else
        let growth = (if 1048576 \<le> capacity then capacity div 4 else capacity);
            grown = (if max_int - int capacity < int growth then n
                     else if capacity + growth < n then n else capacity + growth) in
        \<lparr>arr = slice_bytes d @ replicate (grown - old) 0, used = n\<rparr>)"

section \<open>Nodes\<close>

record mem_node =
  m_parent :: "nat option"
  m_name :: string
  m_dir :: bool
  m_mode :: "32 word"
  m_time :: int
  m_data :: slice
  m_blocks :: "nat option"
  m_children :: "(string \<times> nat) list"

record mem_fs =
  nodes :: "nat \<Rightarrow> mem_node"
  next_node :: nat
  block_storage :: bool
  root_source :: nat
  disk :: world

definition mode_dir :: "32 word" where "mode_dir = push_bit 31 1"

unbundle bit_operations_syntax

definition perm_bits :: "32 word \<Rightarrow> 32 word" where
  "perm_bits perm = perm AND 511"

definition dir_node :: "nat option \<Rightarrow> string \<Rightarrow> 32 word \<Rightarrow> int \<Rightarrow> mem_node" where
  "dir_node parent name perm now =
     \<lparr>m_parent = parent, m_name = name, m_dir = True, m_mode = mode_dir OR perm_bits perm, m_time = now,
      m_data = nil_slice, m_blocks = None, m_children = []\<rparr>"

definition file_node :: "nat \<Rightarrow> string \<Rightarrow> 32 word \<Rightarrow> int \<Rightarrow> mem_node" where
  "file_node parent name perm now =
     \<lparr>m_parent = Some parent, m_name = name, m_dir = False, m_mode = perm_bits perm, m_time = now,
      m_data = nil_slice, m_blocks = None, m_children = []\<rparr>"

text \<open>\<open>NewMemFS\<close> and \<open>NewBlockMemFS\<close>, in a process whose stores are \<open>w\<close>; 493 is \<open>0o755\<close>.\<close>

definition new_mem_fs :: "world \<Rightarrow> mem_fs" where
  "new_mem_fs w = \<lparr>nodes = (\<lambda>_. dir_node None [] 493 0), next_node = 1, block_storage = False, root_source = 0, disk = w\<rparr>"

definition new_block_mem_fs :: "world \<Rightarrow> nat \<Rightarrow> mem_fs" where
  "new_block_mem_fs w source = (new_mem_fs w)\<lparr>block_storage := True, root_source := source\<rparr>"

definition update_node :: "nat \<Rightarrow> (mem_node \<Rightarrow> mem_node) \<Rightarrow> mem_fs \<Rightarrow> mem_fs" where
  "update_node n f fs = fs\<lparr>nodes := (nodes fs)(n := f (nodes fs n))\<rparr>"

definition alloc_node :: "mem_node \<Rightarrow> mem_fs \<Rightarrow> nat \<times> mem_fs" where
  "alloc_node nd fs = (next_node fs, fs\<lparr>nodes := (nodes fs)(next_node fs := nd), next_node := Suc (next_node fs)\<rparr>)"

definition set_child :: "nat \<Rightarrow> string \<Rightarrow> nat \<Rightarrow> mem_fs \<Rightarrow> mem_fs" where
  "set_child p k c = update_node p (\<lambda>nd. nd\<lparr>m_children := AList.update k c (m_children nd)\<rparr>)"

definition delete_child :: "nat \<Rightarrow> string \<Rightarrow> mem_fs \<Rightarrow> mem_fs" where
  "delete_child p k = update_node p (\<lambda>nd. nd\<lparr>m_children := AList.delete k (m_children nd)\<rparr>)"

definition child :: "mem_fs \<Rightarrow> nat \<Rightarrow> string \<Rightarrow> nat option" where
  "child fs n k = map_of (m_children (nodes fs n)) k"

text \<open>The keys of the map of children, sorted.\<close>

definition child_names :: "mem_node \<Rightarrow> string list" where
  "child_names nd = sort (remdups (map fst (m_children nd)))"

definition touch :: "nat \<Rightarrow> int \<Rightarrow> mem_fs \<Rightarrow> mem_fs" where
  "touch n now = update_node n (\<lambda>nd. nd\<lparr>m_time := now\<rparr>)"

section \<open>Block storage of a node\<close>

definition the_store :: "mem_fs \<Rightarrow> nat \<Rightarrow> store" where
  "the_store fs i = w_stores (disk fs) ! i"

definition set_store :: "nat \<Rightarrow> memory \<Rightarrow> store \<Rightarrow> mem_fs \<Rightarrow> mem_fs" where
  "set_store i m s fs = fs\<lparr>disk := (disk fs)\<lparr>w_mem := m, w_stores := (w_stores (disk fs))[i := s]\<rparr>\<rparr>"

definition storage_size :: "mem_fs \<Rightarrow> nat \<Rightarrow> nat" where
  "storage_size fs n =
     (case m_blocks (nodes fs n) of
        Some i \<Rightarrow> f_size (s_data (the_store fs i))
      | None \<Rightarrow> used (m_data (nodes fs n)))"

definition blocks_read :: "mem_fs \<Rightarrow> nat \<Rightarrow> nat \<Rightarrow> int \<Rightarrow> bytes \<times> goerr option" where
  "blocks_read fs i n off = store_read (w_mem (disk fs)) (the_store fs i) n off"

definition blocks_write :: "nat \<Rightarrow> bytes \<Rightarrow> int \<Rightarrow> mem_fs \<Rightarrow> (nat \<times> goerr option) \<times> mem_fs" where
  "blocks_write i p off fs =
     (case store_write (w_mem (disk fs)) (the_store fs i) p off of (r, m, s) \<Rightarrow> (r, set_store i m s fs))"

definition blocks_resize :: "nat \<Rightarrow> int \<Rightarrow> mem_fs \<Rightarrow> goerr option \<times> mem_fs" where
  "blocks_resize i n fs =
     (case store_resize (the_store fs i) n of (e, s) \<Rightarrow> (e, set_store i (w_mem (disk fs)) s fs))"

definition new_blocks :: "nat \<Rightarrow> mem_fs \<Rightarrow> mem_fs" where
  "new_blocks n fs =
     (update_node n (\<lambda>nd. nd\<lparr>m_blocks := Some (length (w_stores (disk fs)))\<rparr>) fs)
       \<lparr>disk := (disk fs)\<lparr>w_stores := w_stores (disk fs) @ [new_file_store (root_source fs)]\<rparr>\<rparr>"

definition enroll :: "nat \<Rightarrow> mem_fs \<Rightarrow> mem_fs" where
  "enroll n fs = (if block_storage fs \<and> \<not> m_dir (nodes fs n) then new_blocks n fs else fs)"

text \<open>\<open>installMappedStorage\<close>; \<open>None\<close> is its panic when the fresh store refuses the mapping.\<close>

definition install_mapped_storage :: "nat \<Rightarrow> bytes \<Rightarrow> mem_fs \<Rightarrow> mem_fs option" where
  "install_mapped_storage n data fs =
     (if \<not> block_storage fs
      then Some (update_node n (\<lambda>nd. nd\<lparr>m_data := \<lparr>arr = data, used = length data\<rparr>\<rparr>) fs)
      else
        let fs1 = new_blocks n fs; i = length (w_stores (disk fs)) in
        case borrow_mapping data (the_store fs1 i) of
          (Some e, s) \<Rightarrow> None
        | (None, s) \<Rightarrow> Some (update_node n (\<lambda>nd. nd\<lparr>m_data := nil_slice\<rparr>) (set_store i (w_mem (disk fs1)) s fs1)))"

section \<open>Paths\<close>

definition trim_slashes :: "string \<Rightarrow> string" where
  "trim_slashes s = rev (dropWhile (\<lambda>c. c = CHR ''/'') (rev (dropWhile (\<lambda>c. c = CHR ''/'') s)))"

definition split_step :: "string list \<Rightarrow> string \<Rightarrow> string list" where
  "split_step out p = (if p = [] \<or> p = ''.'' then out else if p = ''..'' then butlast out else out @ [p])"

definition mem_split :: "string \<Rightarrow> string list" where
  "mem_split name =
     (let t = trim_slashes name in if t = [] then [] else foldl split_step [] (split_on CHR ''/'' t))"

fun walk :: "mem_fs \<Rightarrow> nat \<Rightarrow> string list \<Rightarrow> goerr + nat" where
  "walk fs n [] = Inr n"
| "walk fs n (p # ps) =
     (if \<not> m_dir (nodes fs n) then Inl err_not_exist
      else case child fs n p of None \<Rightarrow> Inl err_not_exist | Some c \<Rightarrow> walk fs c ps)"

definition lookup :: "mem_fs \<Rightarrow> string \<Rightarrow> goerr + nat" where
  "lookup fs name = walk fs 0 (mem_split name)"

fun walk_dirs :: "mem_fs \<Rightarrow> nat \<Rightarrow> string list \<Rightarrow> goerr + nat" where
  "walk_dirs fs n [] = Inr n"
| "walk_dirs fs n (p # ps) =
     (case child fs n p of
        None \<Rightarrow> Inl err_not_exist
      | Some c \<Rightarrow> if m_dir (nodes fs c) then walk_dirs fs c ps else Inl err_not_exist)"

definition lookup_parent :: "mem_fs \<Rightarrow> string \<Rightarrow> goerr + nat \<times> string" where
  "lookup_parent fs name =
     (let parts = mem_split name in
      if parts = [] then Inl err_invalid
      else case walk_dirs fs 0 (butlast parts) of Inl e \<Rightarrow> Inl e | Inr n \<Rightarrow> Inr (n, last parts))"

section \<open>The operations on names\<close>

record open_flags =
  o_wronly :: bool
  o_rdwr :: bool
  o_create :: bool
  o_excl :: bool
  o_trunc :: bool
  o_append :: bool

record mem_file =
  mf_writable :: bool
  mf_node :: nat
  mf_off :: int
  mf_dir_off :: nat

definition open_handle :: "mem_fs \<Rightarrow> nat \<Rightarrow> open_flags \<Rightarrow> mem_file" where
  "open_handle fs n flag =
     \<lparr>mf_writable = (o_wronly flag \<or> o_rdwr flag), mf_node = n,
      mf_off = (if o_append flag then int (storage_size fs n) else 0), mf_dir_off = 0\<rparr>"

definition truncate_node :: "nat \<Rightarrow> int \<Rightarrow> mem_fs \<Rightarrow> goerr option \<times> mem_fs" where
  "truncate_node n now fs =
     (case m_blocks (nodes fs n) of
        Some i \<Rightarrow>
          (case blocks_resize i 0 fs of
             (Some e, fs') \<Rightarrow> (Some e, fs')
           | (None, fs') \<Rightarrow> (None, touch n now fs'))
      | None \<Rightarrow> (None, touch n now (update_node n (\<lambda>nd. nd\<lparr>m_data := (m_data nd)\<lparr>used := 0\<rparr>\<rparr>) fs)))"

definition open_file :: "string \<Rightarrow> open_flags \<Rightarrow> 32 word \<Rightarrow> int \<Rightarrow> mem_fs \<Rightarrow> (goerr + mem_file) \<times> mem_fs" where
  "open_file name flag perm now fs =
     (case lookup fs name of
        Inl e \<Rightarrow>
          if \<not> o_create flag then (Inl (path_error ''open'' name err_not_exist), fs)
          else
            (case lookup_parent fs name of
               Inl pe \<Rightarrow> (Inl (path_error ''open'' name pe), fs)
             | Inr (parent, base) \<Rightarrow>
                 (case alloc_node (file_node parent base perm now) fs of
                    (n, fs1) \<Rightarrow>
                      let fs2 = enroll n (set_child parent base n fs1) in
                      (Inr (open_handle fs2 n flag), fs2)))
      | Inr n \<Rightarrow>
          if o_excl flag \<and> o_create flag then (Inl (path_error ''open'' name err_exist), fs)
          else
            (case (if o_trunc flag \<and> \<not> m_dir (nodes fs n) then truncate_node n now fs else (None, fs)) of
               (Some e, fs') \<Rightarrow> (Inl e, fs')
             | (None, fs') \<Rightarrow> (Inr (open_handle fs' n flag), fs')))"

definition mkdir :: "string \<Rightarrow> 32 word \<Rightarrow> int \<Rightarrow> mem_fs \<Rightarrow> goerr option \<times> mem_fs" where
  "mkdir name perm now fs =
     (case lookup_parent fs name of
        Inl e \<Rightarrow> (Some (path_error ''mkdir'' name e), fs)
      | Inr (parent, base) \<Rightarrow>
          if child fs parent base \<noteq> None then (Some (path_error ''mkdir'' name err_exist), fs)
          else case alloc_node (dir_node (Some parent) base perm now) fs of
            (n, fs1) \<Rightarrow> (None, set_child parent base n fs1))"

definition remove_name :: "string \<Rightarrow> mem_fs \<Rightarrow> goerr option \<times> mem_fs" where
  "remove_name name fs =
     (case lookup_parent fs name of
        Inl e \<Rightarrow> (Some (path_error ''remove'' name e), fs)
      | Inr (parent, base) \<Rightarrow>
          (case child fs parent base of
             None \<Rightarrow> (Some (path_error ''remove'' name err_not_exist), fs)
           | Some n \<Rightarrow>
               if m_dir (nodes fs n) \<and> m_children (nodes fs n) \<noteq> []
               then (Some (path_error ''remove'' name err_invalid), fs)
               else (None, delete_child parent base fs)))"

text \<open>
  The loop of \<open>Rename\<close> over the parents of a node: whether it meets \<open>node\<close>. A parent cycle would make
  it run for ever, which is the value \<open>None\<close>.
\<close>

partial_function (option) meets :: "mem_fs \<Rightarrow> nat \<Rightarrow> nat option \<Rightarrow> bool option" where
  "meets fs node p =
     (case p of
        None \<Rightarrow> Some False
      | Some n \<Rightarrow> if n = node then Some True else meets fs node (m_parent (nodes fs n)))"

definition rename_name :: "string \<Rightarrow> string \<Rightarrow> mem_fs \<Rightarrow> (goerr option \<times> mem_fs) option" where
  "rename_name old_name new_name fs =
     (case lookup_parent fs old_name of
        Inl e \<Rightarrow> Some (Some (path_error ''rename'' old_name e), fs)
      | Inr (op, ob) \<Rightarrow>
          (case child fs op ob of
             None \<Rightarrow> Some (Some (path_error ''rename'' old_name err_not_exist), fs)
           | Some node \<Rightarrow>
               (case lookup_parent fs new_name of
                  Inl e \<Rightarrow> Some (Some (path_error ''rename'' new_name e), fs)
                | Inr (np, nb) \<Rightarrow>
                    (case meets fs node (Some np) of
                       None \<Rightarrow> None
                     | Some True \<Rightarrow> Some (Some (path_error ''rename'' old_name err_einval), fs)
                     | Some False \<Rightarrow>
                         Some (None,
                           set_child np nb node
                             (update_node node (\<lambda>nd. nd\<lparr>m_parent := Some np, m_name := nb\<rparr>)
                               (delete_child op ob fs)))))))"

record file_info =
  fi_name :: string
  fi_size :: nat
  fi_mode :: "32 word"
  fi_time :: int

definition node_info :: "mem_fs \<Rightarrow> nat \<Rightarrow> file_info" where
  "node_info fs n =
     (let nd = nodes fs n in
      if m_dir nd
      then \<lparr>fi_name = m_name nd, fi_size = 0, fi_mode = mode_dir OR perm_bits (m_mode nd), fi_time = m_time nd\<rparr>
      else \<lparr>fi_name = m_name nd, fi_size = storage_size fs n, fi_mode = perm_bits (m_mode nd), fi_time = m_time nd\<rparr>)"

definition fi_is_dir :: "file_info \<Rightarrow> bool" where
  "fi_is_dir fi \<longleftrightarrow> fi_mode fi AND mode_dir \<noteq> 0"

definition stat_name :: "string \<Rightarrow> mem_fs \<Rightarrow> goerr + file_info" where
  "stat_name name fs =
     (case lookup fs name of Inl e \<Rightarrow> Inl (path_error ''stat'' name e) | Inr n \<Rightarrow> Inr (node_info fs n))"

definition symlink :: "string \<Rightarrow> string \<Rightarrow> mem_fs \<Rightarrow> goerr option" where
  "symlink a b fs = Some err_permission"

definition link :: "string \<Rightarrow> string \<Rightarrow> mem_fs \<Rightarrow> goerr option" where
  "link a b fs = Some err_permission"

definition readlink :: "string \<Rightarrow> mem_fs \<Rightarrow> goerr + string" where
  "readlink name fs = Inl (path_error ''readlink'' name err_invalid)"

definition chtimes :: "string \<Rightarrow> int \<Rightarrow> mem_fs \<Rightarrow> goerr option \<times> mem_fs" where
  "chtimes name mtime fs =
     (case lookup fs name of
        Inl e \<Rightarrow> (Some (path_error ''chtimes'' name e), fs)
      | Inr n \<Rightarrow> (None, touch n mtime fs))"

fun mkdir_parts :: "string \<Rightarrow> 32 word \<Rightarrow> int \<Rightarrow> nat \<Rightarrow> string list \<Rightarrow> mem_fs \<Rightarrow> goerr option \<times> mem_fs" where
  "mkdir_parts name perm now n [] fs = (None, fs)"
| "mkdir_parts name perm now n (part # parts) fs =
     (case child fs n part of
        None \<Rightarrow>
          (case alloc_node (dir_node (Some n) part perm now) fs of
             (c, fs1) \<Rightarrow> mkdir_parts name perm now c parts (set_child n part c fs1))
      | Some c \<Rightarrow>
          if \<not> m_dir (nodes fs c) then (Some (path_error ''mkdir'' name err_exist), fs)
          else mkdir_parts name perm now c parts fs)"

definition mkdir_all :: "string \<Rightarrow> 32 word \<Rightarrow> int \<Rightarrow> mem_fs \<Rightarrow> goerr option \<times> mem_fs" where
  "mkdir_all name perm now fs = mkdir_parts name perm now 0 (mem_split name) fs"

text \<open>\<open>spare\<close> is the capacity \<open>append([]byte(nil), data...)\<close> leaves unused.\<close>

definition write_file :: "nat \<Rightarrow> string \<Rightarrow> bytes \<Rightarrow> 32 word \<Rightarrow> int \<Rightarrow> mem_fs \<Rightarrow> goerr option \<times> mem_fs" where
  "write_file spare name data perm now fs =
     (let parts = mem_split name in
      case (if 1 < length parts then mkdir_all (join_path (butlast parts)) 493 now fs else (None, fs)) of
        (Some e, fs0) \<Rightarrow> (Some e, fs0)
      | (None, fs0) \<Rightarrow>
          (case lookup_parent fs0 name of
             Inl e \<Rightarrow> (Some (path_error ''writefile'' name e), fs0)
           | Inr (parent, base) \<Rightarrow>
               (case alloc_node (file_node parent base perm now) fs0 of
                  (n, fs1) \<Rightarrow>
                    let fs2 = enroll n fs1 in
                    (case m_blocks (nodes fs2 n) of
                       Some i \<Rightarrow>
                         (case blocks_write i data 0 fs2 of
                            ((k, Some e), fs3) \<Rightarrow> (Some e, fs3)
                          | ((k, None), fs3) \<Rightarrow> (None, set_child parent base n fs3))
                     | None \<Rightarrow>
                         (None, set_child parent base n
                           (update_node n (\<lambda>nd. nd\<lparr>m_data := \<lparr>arr = data @ replicate spare 0, used = length data\<rparr>\<rparr>) fs2))))))"

section \<open>The operations on open files\<close>

definition wrap64 :: "int \<Rightarrow> int" where
  "wrap64 x = (x + 9223372036854775808) mod 18446744073709551616 - 9223372036854775808"

definition file_allocate :: "mem_file \<Rightarrow> int \<Rightarrow> int \<Rightarrow> mem_fs \<Rightarrow> goerr option \<times> mem_fs" where
  "file_allocate f fend now fs =
     (let n = mf_node f; nd = nodes fs n in
      if \<not> mf_writable f then (Some err_ebadf, fs)
      else if m_dir nd then (Some err_eisdir, fs)
      else if fend < 0 then (Some err_einval, fs)
      else if int (storage_size fs n) < fend
      then (case m_blocks nd of
              Some i \<Rightarrow>
                (case blocks_resize i fend fs of (Some e, fs') \<Rightarrow> (Some e, fs') | (None, fs') \<Rightarrow> (None, touch n now fs'))
            | None \<Rightarrow> (None, touch n now (update_node n (\<lambda>x. x\<lparr>m_data := resize_mem_data (m_data x) (nat fend)\<rparr>) fs)))
      else (None, fs))"

text \<open>Copying from a byte slice at an offset; a negative offset is out of range and panics.\<close>

definition slice_from :: "slice \<Rightarrow> int \<Rightarrow> nat \<Rightarrow> bytes option" where
  "slice_from d off n = (if off < 0 then None else Some (take n (drop (nat off) (slice_bytes d))))"

definition file_read :: "mem_file \<Rightarrow> nat \<Rightarrow> mem_fs \<Rightarrow> ((bytes \<times> goerr option) \<times> mem_file) option" where
  "file_read f n fs =
     (let nd = nodes fs (mf_node f) in
      if m_dir nd then Some (([], Some (path_error ''read'' (m_name nd) err_invalid)), f)
      else case m_blocks nd of
        Some i \<Rightarrow>
          (case blocks_read fs i n (mf_off f) of
             (b, e) \<Rightarrow> Some ((b, e), f\<lparr>mf_off := mf_off f + int (length b)\<rparr>))
      | None \<Rightarrow>
          if int (storage_size fs (mf_node f)) \<le> mf_off f then Some (([], Some err_eof), f)
          else map_option (\<lambda>b. ((b, None), f\<lparr>mf_off := mf_off f + int (length b)\<rparr>)) (slice_from (m_data nd) (mf_off f) n))"

definition file_read_at :: "mem_file \<Rightarrow> nat \<Rightarrow> int \<Rightarrow> mem_fs \<Rightarrow> (bytes \<times> goerr option) option" where
  "file_read_at f n off fs =
     (let nd = nodes fs (mf_node f) in
      case m_blocks nd of
        Some i \<Rightarrow> Some (blocks_read fs i n off)
      | None \<Rightarrow>
          if int (storage_size fs (mf_node f)) \<le> off then Some ([], Some err_eof)
          else map_option (\<lambda>b. (b, if length b < n then Some err_eof else None)) (slice_from (m_data nd) off n))"

definition slice_write :: "slice \<Rightarrow> bytes \<Rightarrow> nat \<Rightarrow> slice" where
  "slice_write d p off =
     (let d' = (if used d < off + length p then resize_mem_data d (off + length p) else d) in
      d'\<lparr>arr := splice off p (arr d')\<rparr>)"

definition file_write_at :: "mem_file \<Rightarrow> bytes \<Rightarrow> int \<Rightarrow> int \<Rightarrow> mem_fs \<Rightarrow> (nat \<times> goerr option) \<times> mem_fs" where
  "file_write_at f p off now fs =
     (let n = mf_node f; nd = nodes fs n in
      if \<not> mf_writable f then ((0, Some err_ebadf), fs)
      else if m_dir nd then ((0, Some err_eisdir), fs)
      else if off < 0 \<or> max_int - int (length p) < off then ((0, Some err_efbig), fs)
      else if p = [] then ((0, None), fs)
      else case m_blocks nd of
        Some i \<Rightarrow>
          (case blocks_write i p off fs of
             ((k, e), fs') \<Rightarrow> ((k, e), if e = None then touch n now fs' else fs'))
      | None \<Rightarrow>
          ((length p, None),
           touch n now (update_node n (\<lambda>x. x\<lparr>m_data := slice_write (m_data x) p (nat off)\<rparr>) fs)))"

definition file_write :: "mem_file \<Rightarrow> bytes \<Rightarrow> int \<Rightarrow> mem_fs \<Rightarrow> (nat \<times> goerr option) \<times> mem_file \<times> mem_fs" where
  "file_write f p now fs =
     (case file_write_at f p (mf_off f) now fs of
        ((k, e), fs') \<Rightarrow> ((k, e), f\<lparr>mf_off := mf_off f + int k\<rparr>, fs'))"

datatype whence = SeekStart | SeekCurrent | SeekEnd | SeekOther

definition file_seek :: "mem_file \<Rightarrow> int \<Rightarrow> whence \<Rightarrow> mem_fs \<Rightarrow> int \<times> mem_file" where
  "file_seek f offset wh fs =
     (let off = (case wh of
          SeekStart \<Rightarrow> offset
        | SeekCurrent \<Rightarrow> wrap64 (mf_off f + offset)
        | SeekEnd \<Rightarrow> wrap64 (int (storage_size fs (mf_node f)) + offset)
        | SeekOther \<Rightarrow> mf_off f) in
      (off, f\<lparr>mf_off := off\<rparr>))"

definition file_truncate :: "mem_file \<Rightarrow> int \<Rightarrow> int \<Rightarrow> mem_fs \<Rightarrow> goerr option \<times> mem_fs" where
  "file_truncate f sz now fs =
     (let n = mf_node f; nd = nodes fs n in
      if \<not> mf_writable f then (Some err_ebadf, fs)
      else if m_dir nd then (Some err_eisdir, fs)
      else if sz < 0 \<or> max_int < sz then (Some err_einval, fs)
      else case m_blocks nd of
        Some i \<Rightarrow>
          (case blocks_resize i sz fs of (Some e, fs') \<Rightarrow> (Some e, fs') | (None, fs') \<Rightarrow> (None, touch n now fs'))
      | None \<Rightarrow> (None, touch n now (update_node n (\<lambda>x. x\<lparr>m_data := resize_mem_data (m_data x) (nat sz)\<rparr>) fs)))"

definition file_stat :: "mem_file \<Rightarrow> mem_fs \<Rightarrow> file_info" where
  "file_stat f fs = node_info fs (mf_node f)"

text \<open>
  \<open>ReadDir\<close>: the entries are the nodes themselves, read later. The sum of the position and the count
  may wrap, and then the slice of the names panics.
\<close>

definition file_read_dir :: "mem_file \<Rightarrow> int \<Rightarrow> mem_fs \<Rightarrow> ((goerr + nat list) \<times> mem_file) option" where
  "file_read_dir f n fs =
     (let nd = nodes fs (mf_node f) in
      if \<not> m_dir nd then Some (Inl (path_error ''readdir'' (m_name nd) err_invalid), f)
      else
        let names = child_names nd in
        if length names \<le> mf_dir_off f
        then Some (if n \<le> 0 then (Inr [], f) else (Inl err_eof, f))
        else
          let far = wrap64 (int (mf_dir_off f) + n);
              stop = (if 0 < n \<and> far < int (length names) then far else int (length names)) in
          if stop < int (mf_dir_off f) then None
          else Some (Inr (map (\<lambda>k. the (child fs (mf_node f) k))
                  (take (nat stop - mf_dir_off f) (drop (mf_dir_off f) names))),
                f\<lparr>mf_dir_off := nat stop\<rparr>))"

definition entry_name :: "mem_fs \<Rightarrow> nat \<Rightarrow> string" where "entry_name fs n = m_name (nodes fs n)"
definition entry_is_dir :: "mem_fs \<Rightarrow> nat \<Rightarrow> bool" where "entry_is_dir fs n = m_dir (nodes fs n)"
definition entry_type :: "mem_fs \<Rightarrow> nat \<Rightarrow> 32 word" where
  "entry_type fs n = (if m_dir (nodes fs n) then mode_dir else 0)"

end
