(* ===== verification/MemTree.thy ===== *)
theory MemTree
  imports MemFS "HOL-Library.Sublist"
begin

text \<open>
  What a \<open>MemFS\<close> is to its users: a map from clean paths to directories and files. The theory gives
  the invariant of the node heap, the map it stands for, and the effect of every operation on it.
\<close>

section \<open>The invariant\<close>

datatype tree_entry = EDir | EFile bytes

type_synonym tree = "string list \<Rightarrow> tree_entry option"

definition shape_inv :: "mem_fs \<Rightarrow> bool" where
  "shape_inv fs \<longleftrightarrow> 0 < next_node fs \<and> m_dir (nodes fs 0) \<and> m_parent (nodes fs 0) = None \<and>
     (\<forall>n k c. child fs n k = Some c \<longrightarrow> n < next_node fs \<and> c < next_node fs \<and> m_dir (nodes fs n) \<and>
        m_parent (nodes fs c) = Some n \<and> m_name (nodes fs c) = k \<and> proper k)"

definition storage_inv :: "mem_fs \<Rightarrow> bool" where
  "storage_inv fs \<longleftrightarrow> world_inv (disk fs) \<and>
     (\<forall>n<next_node fs. used (m_data (nodes fs n)) \<le> length (arr (m_data (nodes fs n))) \<and>
        (m_blocks (nodes fs n) \<noteq> None \<longleftrightarrow> block_storage fs \<and> \<not> m_dir (nodes fs n)) \<and>
        (\<forall>i. m_blocks (nodes fs n) = Some i \<longrightarrow> i < length (w_stores (disk fs)))) \<and>
     (\<forall>n n' i. n < next_node fs \<and> n' < next_node fs \<and> m_blocks (nodes fs n) = Some i \<and> m_blocks (nodes fs n') = Some i
        \<longrightarrow> n = n')"

definition fs_inv :: "mem_fs \<Rightarrow> bool" where
  "fs_inv fs \<longleftrightarrow> shape_inv fs \<and> storage_inv fs"

section \<open>Paths and nodes\<close>

definition node_at :: "mem_fs \<Rightarrow> string list \<Rightarrow> nat option" where
  "node_at fs p = foldl (\<lambda>r k. Option.bind r (\<lambda>n. child fs n k)) (Some 0) p"

definition node_bytes :: "mem_fs \<Rightarrow> nat \<Rightarrow> bytes" where
  "node_bytes fs n =
     (case m_blocks (nodes fs n) of
        Some i \<Rightarrow> contents (w_mem (disk fs)) (s_data (the_store fs i))
      | None \<Rightarrow> slice_bytes (m_data (nodes fs n)))"

definition entry_of :: "mem_fs \<Rightarrow> nat \<Rightarrow> tree_entry" where
  "entry_of fs n = (if m_dir (nodes fs n) then EDir else EFile (node_bytes fs n))"

definition tree_of :: "mem_fs \<Rightarrow> tree" where
  "tree_of fs p = map_option (entry_of fs) (node_at fs p)"

lemma node_at_Nil [simp]: "node_at fs [] = Some 0"
  by (simp add: node_at_def)

lemma node_at_snoc: "node_at fs (p @ [k]) = Option.bind (node_at fs p) (\<lambda>n. child fs n k)"
  by (simp add: node_at_def)

lemma shape_child:
  assumes "shape_inv fs" "child fs n k = Some c"
  shows "n < next_node fs" "c < next_node fs" "m_dir (nodes fs n)" "m_parent (nodes fs c) = Some n"
    "m_name (nodes fs c) = k" "proper k" "c \<noteq> 0"
proof -
  show "n < next_node fs" "c < next_node fs" "m_dir (nodes fs n)" "m_parent (nodes fs c) = Some n"
    "m_name (nodes fs c) = k" "proper k"
    using assms unfolding shape_inv_def by blast+
  show "c \<noteq> 0"
  proof
    assume "c = 0"
    then show False using \<open>m_parent (nodes fs c) = Some n\<close> assms(1) by (simp add: shape_inv_def)
  qed
qed

lemma node_at_bound: "shape_inv fs \<Longrightarrow> node_at fs p = Some n \<Longrightarrow> n < next_node fs"
proof (induction p arbitrary: n rule: rev_induct)
  case Nil
  then show ?case by (simp add: shape_inv_def)
next
  case (snoc k p)
  then show ?case by (auto simp: node_at_snoc bind_eq_Some_conv dest: shape_child)
qed

text \<open>A node is reached by one path only: its parents and names give the path back.\<close>

lemma node_at_inject: "shape_inv fs \<Longrightarrow> node_at fs p = Some n \<Longrightarrow> node_at fs q = Some n \<Longrightarrow> p = q"
proof (induction p arbitrary: n q rule: rev_induct)
  case Nil
  show ?case
  proof (cases q rule: rev_cases)
    case (snoc q' k)
    then obtain m where "child fs m k = Some n" using Nil.prems(3) by (auto simp: node_at_snoc bind_eq_Some_conv)
    then have "n \<noteq> 0" by (rule shape_child(7) [OF Nil.prems(1)])
    then show ?thesis using Nil.prems(2) by simp
  qed simp
next
  case (snoc k p)
  obtain m where m: "node_at fs p = Some m" "child fs m k = Some n"
    using snoc.prems(2) by (auto simp: node_at_snoc bind_eq_Some_conv)
  note c = shape_child [OF snoc.prems(1) m(2)]
  show ?case
  proof (cases q rule: rev_cases)
    case Nil
    then show ?thesis using snoc.prems(3) c(7) by simp
  next
    case (snoc q' k')
    then obtain m' where m': "node_at fs q' = Some m'" "child fs m' k' = Some n"
      using snoc.prems(3) by (auto simp: node_at_snoc bind_eq_Some_conv)
    note c' = shape_child [OF snoc.prems(1) m'(2)]
    have "m' = m" "k' = k" using c(4,5) c'(4,5) by simp_all
    then show ?thesis using snoc.IH [OF snoc.prems(1) m(1)] m'(1) snoc by simp
  qed
qed

lemma node_at_prefix: "node_at fs (p @ q) = Some n \<Longrightarrow> \<exists>m. node_at fs p = Some m"
proof (induction q arbitrary: n rule: rev_induct)
  case (snoc k q)
  then show ?case by (metis append_assoc bind_eq_Some_conv node_at_snoc)
qed simp

lemma node_at_inner_dir:
  assumes "shape_inv fs" "node_at fs (p @ k # q) = Some n"
  shows "\<exists>m. node_at fs p = Some m \<and> m_dir (nodes fs m)"
proof -
  have "node_at fs ((p @ [k]) @ q) = Some n" using assms(2) by simp
  then obtain c where "node_at fs (p @ [k]) = Some c" using node_at_prefix by blast
  then obtain m where "node_at fs p = Some m" "child fs m k = Some c" by (auto simp: node_at_snoc bind_eq_Some_conv)
  then show ?thesis using shape_child(3) [OF assms(1)] by blast
qed

lemma tree_inner:
  assumes "shape_inv fs" "tree_of fs (p @ [k]) \<noteq> None"
  shows "tree_of fs p = Some EDir \<and> proper k"
proof -
  obtain c where "node_at fs (p @ [k]) = Some c" using assms(2) by (auto simp: tree_of_def)
  then obtain m where m: "node_at fs p = Some m" "child fs m k = Some c" by (auto simp: node_at_snoc bind_eq_Some_conv)
  show ?thesis using m(1) shape_child [OF assms(1) m(2)] by (simp add: tree_of_def entry_of_def)
qed

lemma tree_root: "shape_inv fs \<Longrightarrow> tree_of fs [] = Some EDir"
  by (simp add: tree_of_def entry_of_def shape_inv_def)

lemma tree_dir_iff: "tree_of fs p = Some EDir \<longleftrightarrow> (\<exists>n. node_at fs p = Some n \<and> m_dir (nodes fs n))"
  by (auto simp: tree_of_def entry_of_def)

section \<open>Lookups\<close>

definition below :: "mem_fs \<Rightarrow> nat \<Rightarrow> string list \<Rightarrow> nat option" where
  "below fs n p = foldl (\<lambda>r k. Option.bind r (\<lambda>n. child fs n k)) (Some n) p"

lemma below_None: "foldl (\<lambda>r k. Option.bind r (\<lambda>n. child fs n k)) None p = None"
  by (induction p) simp_all

lemma below_Cons: "below fs n (k # p) = (case child fs n k of None \<Rightarrow> None | Some c \<Rightarrow> below fs c p)"
  by (simp add: below_def below_None split: option.split)

lemma below_root: "below fs 0 p = node_at fs p"
  by (simp add: below_def node_at_def)

lemma walk_below:
  assumes "shape_inv fs"
  shows "walk fs n p = (case below fs n p of None \<Rightarrow> Inl err_not_exist | Some c \<Rightarrow> Inr c)"
proof (induction p arbitrary: n)
  case Nil
  then show ?case by (simp add: below_def)
next
  case (Cons k p)
  show ?case
    using shape_child(3) [OF assms, of n k] Cons.IH by (auto simp: below_Cons split: option.split)
qed

lemma walk_dirs_below:
  assumes "shape_inv fs"
  shows "m_dir (nodes fs n) \<Longrightarrow> walk_dirs fs n p =
    (case below fs n p of Some c \<Rightarrow> if m_dir (nodes fs c) then Inr c else Inl err_not_exist | None \<Rightarrow> Inl err_not_exist)"
proof (induction p arbitrary: n)
  case Nil
  then show ?case by (simp add: below_def)
next
  case (Cons k p)
  show ?case
  proof (cases "child fs n k")
    case None
    then show ?thesis by (simp add: below_Cons)
  next
    case (Some c)
    show ?thesis
    proof (cases "m_dir (nodes fs c)")
      case True
      then show ?thesis using Some Cons.IH by (simp add: below_Cons)
    next
      case False
      have "\<exists>d. below fs c p = Some d \<Longrightarrow> m_dir (nodes fs (the (below fs c p))) \<Longrightarrow> False"
      proof (cases p)
        case Nil
        then show "m_dir (nodes fs (the (below fs c p))) \<Longrightarrow> False" using False by (simp add: below_def)
      next
        case (Cons k' p')
        then have "child fs c k' = None" using shape_child(3) [OF assms, of c k'] False by (cases "child fs c k'") auto
        then show "\<exists>d. below fs c p = Some d \<Longrightarrow> False" using Cons by (simp add: below_Cons)
      qed
      then show ?thesis using Some False by (auto simp: below_Cons split: option.split)
    qed
  qed
qed

lemma lookup_node:
  "shape_inv fs \<Longrightarrow> lookup fs name = (case node_at fs (mem_split name) of None \<Rightarrow> Inl err_not_exist | Some n \<Rightarrow> Inr n)"
  by (simp add: lookup_def walk_below below_root)

lemma lookup_parent_node:
  assumes "shape_inv fs"
  shows "lookup_parent fs name =
    (let parts = mem_split name in
     if parts = [] then Inl err_invalid
     else if tree_of fs (butlast parts) = Some EDir then Inr (the (node_at fs (butlast parts)), last parts)
     else Inl err_not_exist)"
proof -
  have "m_dir (nodes fs 0)" using assms by (simp add: shape_inv_def)
  note w = walk_dirs_below [OF assms this, unfolded below_root]
  show ?thesis
    by (cases "node_at fs (butlast (mem_split name))")
      (simp_all add: lookup_parent_def w tree_of_def entry_of_def Let_def)
qed

lemma split_step_proper: "CHR ''/'' \<notin> set p \<Longrightarrow> \<forall>c\<in>set out. proper c \<Longrightarrow> \<forall>c\<in>set (split_step out p). proper c"
  by (auto simp: split_step_def proper_def dest: in_set_butlastD)

lemma mem_split_proper: "\<forall>c\<in>set (mem_split name). proper c"
proof -
  have fold: "\<forall>c\<in>set (foldl split_step out ps). proper c"
    if "\<forall>c\<in>set out. proper c" "\<forall>p\<in>set ps. CHR ''/'' \<notin> set p" for out ps
    using that
  proof (induction ps arbitrary: out)
    case (Cons a ps)
    then show ?case using split_step_proper [of a out] by simp
  qed simp
  have "\<forall>p\<in>set (split_on CHR ''/'' s). CHR ''/'' \<notin> set p" for s using split_on_avoid by blast
  then show ?thesis using fold [of "[]" "split_on CHR ''/'' (trim_slashes name)"]
    by (simp add: mem_split_def Let_def)
qed

section \<open>Edges that change\<close>

lemma node_at_append: "node_at fs (p @ q) = Option.bind (node_at fs p) (\<lambda>n. below fs n q)"
  by (cases "node_at fs p") (simp_all add: node_at_def below_def below_None)

text \<open>
  Replacing the edge at path \<open>new\<close> and deleting the one at \<open>old\<close>: what the paths then lead to.
\<close>

lemma relink:
  assumes edge: "\<forall>q n k. node_at fs q = Some n \<longrightarrow>
      child fs' n k = (if q @ [k] = new then r else if old = Some (q @ [k]) then None else child fs n k)"
    and new: "new \<noteq> []" "node_at fs (butlast new) = Some np"
    and old: "\<forall>p. old = Some p \<longrightarrow> p \<noteq> [] \<and> \<not> prefix p (butlast new)"
  shows "node_at fs' q =
     (if prefix new q then Option.bind r (\<lambda>c. below fs' c (drop (length new) q))
      else if \<exists>p. old = Some p \<and> prefix p q then None else node_at fs q)"
proof -
  have off: "node_at fs' q = (if \<exists>p. old = Some p \<and> prefix p q then None else node_at fs q)" if "\<not> prefix new q" for q
    using that
  proof (induction q rule: rev_induct)
    case Nil
    then show ?case using old by auto
  next
    case (snoc k q)
    have q: "\<not> prefix new q" "q @ [k] \<noteq> new" using snoc.prems by auto
    show ?case
    proof (cases "node_at fs q")
      case None
      then show ?thesis using snoc.IH [OF q(1)] by (simp add: node_at_snoc)
    next
      case (Some n)
      then show ?thesis using snoc.IH [OF q(1)] edge q(2) by (auto simp: node_at_snoc)
    qed
  qed
  show ?thesis
  proof (cases "prefix new q")
    case True
    have b: "\<not> prefix new (butlast new)"
      using new(1) by (metis append_butlast_last_id not_Cons_self2 prefix_order.antisym prefixI same_append_eq append.right_neutral)
    then have "node_at fs' (butlast new) = Some np" using off [OF b] old new(2) by auto
    then have "node_at fs' new = r"
      using node_at_snoc [of fs' "butlast new" "last new"] edge new by simp
    then show ?thesis using True by (auto simp: prefix_def node_at_append)
  qed (simp add: off)
qed

lemma child_update [simp]:
  "child (update_node n f fs) m k = (if m = n then map_of (m_children (f (nodes fs n))) k else child fs m k)"
  by (simp add: child_def update_node_def)

lemma child_set [simp]: "child (set_child p b c fs) m k = (if m = p \<and> k = b then Some c else child fs m k)"
  unfolding set_child_def child_update by (auto simp: update_conv' child_def)

lemma child_delete [simp]: "child (delete_child p b fs) m k = (if m = p \<and> k = b then None else child fs m k)"
  unfolding delete_child_def child_update by (auto simp: delete_conv' child_def)

lemma nodes_set_child: "nodes (set_child p b c fs) m =
    (if m = p then (nodes fs p)\<lparr>m_children := AList.update b c (m_children (nodes fs p))\<rparr> else nodes fs m)"
  by (simp add: set_child_def update_node_def)

lemma nodes_delete_child: "nodes (delete_child p b fs) m =
    (if m = p then (nodes fs p)\<lparr>m_children := AList.delete b (m_children (nodes fs p))\<rparr> else nodes fs m)"
  by (simp add: delete_child_def update_node_def)

lemma update_node_rest [simp]:
  "next_node (update_node n f fs) = next_node fs" "disk (update_node n f fs) = disk fs"
  "block_storage (update_node n f fs) = block_storage fs" "root_source (update_node n f fs) = root_source fs"
  by (simp_all add: update_node_def)

lemma edit_rest [simp]:
  "next_node (set_child p b c fs) = next_node fs" "disk (set_child p b c fs) = disk fs"
  "block_storage (set_child p b c fs) = block_storage fs" "root_source (set_child p b c fs) = root_source fs"
  "next_node (delete_child p b fs) = next_node fs" "disk (delete_child p b fs) = disk fs"
  "block_storage (delete_child p b fs) = block_storage fs" "root_source (delete_child p b fs) = root_source fs"
  by (simp_all add: set_child_def delete_child_def)

text \<open>The part of a node that the storage invariant and the bytes depend on.\<close>

definition same_storage :: "mem_fs \<Rightarrow> mem_fs \<Rightarrow> bool" where
  "same_storage fs fs' \<longleftrightarrow> next_node fs' = next_node fs \<and> disk fs' = disk fs \<and> block_storage fs' = block_storage fs \<and>
     root_source fs' = root_source fs \<and>
     (\<forall>n. m_dir (nodes fs' n) = m_dir (nodes fs n) \<and> m_data (nodes fs' n) = m_data (nodes fs n) \<and>
        m_blocks (nodes fs' n) = m_blocks (nodes fs n))"

lemma same_storage_trans: "same_storage a b \<Longrightarrow> same_storage b c \<Longrightarrow> same_storage a c"
  unfolding same_storage_def by simp

lemma same_storage_inv: "same_storage fs fs' \<Longrightarrow> storage_inv fs \<Longrightarrow> storage_inv fs'"
  unfolding same_storage_def storage_inv_def by simp

lemma same_storage_entry: "same_storage fs fs' \<Longrightarrow> entry_of fs' n = entry_of fs n"
  unfolding same_storage_def entry_of_def node_bytes_def the_store_def by (simp split: option.split)

lemma same_storage_edits:
  "same_storage fs (set_child p b c fs)" "same_storage fs (delete_child p b fs)" "same_storage fs (touch n now fs)"
  "same_storage fs (update_node n (\<lambda>nd. nd\<lparr>m_parent := x, m_name := y\<rparr>) fs)"
  by (simp_all add: same_storage_def nodes_set_child nodes_delete_child touch_def update_node_def)


lemma shapeI:
  assumes "0 < next_node fs" "m_dir (nodes fs 0)" "m_parent (nodes fs 0) = None"
    and "\<And>n k c. child fs n k = Some c \<Longrightarrow> n < next_node fs \<and> c < next_node fs \<and> m_dir (nodes fs n) \<and>
        m_parent (nodes fs c) = Some n \<and> m_name (nodes fs c) = k \<and> proper k"
  shows "shape_inv fs"
  using assms unfolding shape_inv_def by blast

lemma shape_root: "shape_inv fs \<Longrightarrow> 0 < next_node fs \<and> m_dir (nodes fs 0) \<and> m_parent (nodes fs 0) = None"
  by (simp add: shape_inv_def)

lemma shape_set_child:
  assumes "shape_inv fs" "p < next_node fs" "m_dir (nodes fs p)" "c < next_node fs" "m_parent (nodes fs c) = Some p"
    "m_name (nodes fs c) = b" "proper b"
  shows "shape_inv (set_child p b c fs)"
  by (rule shapeI) (use assms shape_root [OF assms(1)] shape_child [OF assms(1)]
      in \<open>auto simp: nodes_set_child split: if_splits\<close>)

lemma shape_delete_child:
  assumes "shape_inv fs"
  shows "shape_inv (delete_child p b fs)"
  by (rule shapeI) (use shape_root [OF assms] shape_child [OF assms]
      in \<open>auto simp: nodes_delete_child split: if_splits\<close>)

lemma set_child_leaf:
  assumes "shape_inv fs" "node_at fs pp = Some p" "\<forall>k. child fs c k = None" "c \<noteq> p"
  shows "node_at (set_child p b c fs) q =
    (if prefix (pp @ [b]) q then (if q = pp @ [b] then Some c else None) else node_at fs q)"
proof -
  have leaf: "below (set_child p b c fs) c r = (if r = [] then Some c else None)" for r
    using assms(3,4) by (cases r) (simp_all add: below_Cons, simp add: below_def)
  have "node_at (set_child p b c fs) q =
     (if prefix (pp @ [b]) q then Option.bind (Some c) (\<lambda>c'. below (set_child p b c fs) c' (drop (length (pp @ [b])) q))
      else if \<exists>p. None = Some p \<and> prefix p q then None else node_at fs q)"
  proof (rule relink)
    show "\<forall>q n k. node_at fs q = Some n \<longrightarrow>
      child (set_child p b c fs) n k = (if q @ [k] = pp @ [b] then Some c else if None = Some (q @ [k]) then None else child fs n k)"
      using node_at_inject [OF assms(1)] assms(2) by (auto split: if_splits)
  qed (use assms(2) in simp_all)
  then show ?thesis using leaf by (auto simp: prefix_def)
qed

lemma delete_child_node:
  assumes "shape_inv fs" "node_at fs pp = Some p"
  shows "node_at (delete_child p b fs) q = (if prefix (pp @ [b]) q then None else node_at fs q)"
proof -
  have "node_at (delete_child p b fs) q =
     (if prefix (pp @ [b]) q then Option.bind None (\<lambda>c'. below (delete_child p b fs) c' (drop (length (pp @ [b])) q))
      else if \<exists>p. None = Some p \<and> prefix p q then None else node_at fs q)"
  proof (rule relink)
    show "\<forall>q n k. node_at fs q = Some n \<longrightarrow>
      child (delete_child p b fs) n k = (if q @ [k] = pp @ [b] then None else if None = Some (q @ [k]) then None else child fs n k)"
      using node_at_inject [OF assms(1)] assms(2) by (auto split: if_splits)
  qed (use assms(2) in simp_all)
  then show ?thesis by simp
qed

section \<open>New nodes\<close>

lemma shape_cong:
  assumes "shape_inv fs" "next_node fs' \<ge> next_node fs"
    and "\<And>n. n < next_node fs \<Longrightarrow> m_dir (nodes fs' n) = m_dir (nodes fs n) \<and> m_parent (nodes fs' n) = m_parent (nodes fs n) \<and>
        m_name (nodes fs' n) = m_name (nodes fs n)"
    and "\<And>n k. child fs' n k = child fs n k"
  shows "shape_inv fs'"
proof (rule shapeI)
  fix n k c
  assume "child fs' n k = Some c"
  then have "child fs n k = Some c" by (simp add: assms(4))
  note s = shape_child [OF assms(1) this]
  show "n < next_node fs' \<and> c < next_node fs' \<and> m_dir (nodes fs' n) \<and> m_parent (nodes fs' c) = Some n \<and>
      m_name (nodes fs' c) = k \<and> proper k"
    using s assms(2) assms(3) [OF s(1)] assms(3) [OF s(2)] by simp
qed (use assms shape_root [OF assms(1)] in \<open>simp_all\<close>)

lemma node_at_cong: "(\<And>n k. child fs' n k = child fs n k) \<Longrightarrow> node_at fs' q = node_at fs q"
  by (simp add: node_at_def)

lemma children_alloc:
  assumes "shape_inv fs" "m_children nd = []" "alloc_node nd fs = (n, fs1)"
  shows "child fs1 m k = child fs m k"
proof -
  have "child fs (next_node fs) k = None" using shape_child(1) [OF assms(1), of "next_node fs" k] by (cases "child fs (next_node fs) k") auto
  then show ?thesis using assms(2,3) by (auto simp: alloc_node_def child_def)
qed

lemma enroll_nodes: "nodes (enroll n fs) m =
    (if m = n \<and> block_storage fs \<and> \<not> m_dir (nodes fs n) then (nodes fs n)\<lparr>m_blocks := Some (length (w_stores (disk fs)))\<rparr> else nodes fs m)"
  by (auto simp: enroll_def new_blocks_def update_node_def)

lemma enroll_rest [simp]:
  "next_node (enroll n fs) = next_node fs" "block_storage (enroll n fs) = block_storage fs"
  "root_source (enroll n fs) = root_source fs"
  by (simp_all add: enroll_def new_blocks_def)

lemma enroll_disk: "disk (enroll n fs) = (if block_storage fs \<and> \<not> m_dir (nodes fs n)
    then world_step (\<lambda>_. []) (disk fs) (NewStore (root_source fs)) else disk fs)"
  by (simp add: enroll_def new_blocks_def)

lemma child_enroll [simp]: "child (enroll n fs) m k = child fs m k"
  by (simp add: child_def enroll_nodes)

lemma enroll_set_child: "n \<noteq> p \<Longrightarrow> enroll n (set_child p b c fs) = set_child p b c (enroll n fs)"
  by (simp add: enroll_def new_blocks_def set_child_def update_node_def fun_upd_twist)

text \<open>What a fresh node changes: nothing that exists.\<close>

lemma new_node_spec:
  assumes inv: "fs_inv fs" and nd: "m_children nd = []" "m_data nd = nil_slice" "m_blocks nd = None"
    and al: "alloc_node nd fs = (n, fs1)"
  shows "fs_inv (enroll n fs1) \<and> next_node fs = n \<and> next_node (enroll n fs1) = Suc n \<and>
    (\<forall>m k. child (enroll n fs1) m k = child fs m k) \<and> (\<forall>k. child (enroll n fs1) n k = None) \<and>
    (\<forall>m<n. nodes (enroll n fs1) m = nodes fs m \<and> node_bytes (enroll n fs1) m = node_bytes fs m) \<and>
    m_dir (nodes (enroll n fs1) n) = m_dir nd \<and> m_parent (nodes (enroll n fs1) n) = m_parent nd \<and>
    m_name (nodes (enroll n fs1) n) = m_name nd \<and> node_bytes (enroll n fs1) n = [] \<and>
    block_storage (enroll n fs1) = block_storage fs \<and>
    (\<forall>i. m_blocks (nodes (enroll n fs1) n) = Some i \<longrightarrow> \<not> f_sealed (s_data (the_store (enroll n fs1) i))) \<and>
    (\<forall>i < length (w_stores (disk fs)). the_store (enroll n fs1) i = the_store fs i) \<and>
    root_source (enroll n fs1) = root_source fs \<and>
    (\<forall>i. m_blocks (nodes (enroll n fs1) n) = Some i \<longrightarrow> s_source (the_store (enroll n fs1) i) = root_source fs) \<and>
    (disk (enroll n fs1) = disk fs \<or> disk (enroll n fs1) = world_step (\<lambda>_. []) (disk fs) (NewStore (root_source fs)))"
proof -
  let ?fs = "enroll n fs1"
  have sh: "shape_inv fs" and st: "storage_inv fs" using inv by (simp_all add: fs_inv_def)
  have n: "n = next_node fs" and fs1: "fs1 = fs\<lparr>nodes := (nodes fs)(n := nd), next_node := Suc n\<rparr>"
    using al by (auto simp: alloc_node_def)
  have ch: "child ?fs m k = child fs m k" for m k by (simp add: children_alloc [OF sh nd(1) al])
  have fresh: "child fs n k = None" for k
    using shape_child(1) [OF sh, of n k] by (cases "child fs n k") (auto simp: n)
  have old: "nodes ?fs m = nodes fs m" if "m < n" for m using that by (simp add: enroll_nodes fs1)
  have new: "nodes ?fs n = (if block_storage fs \<and> \<not> m_dir nd then nd\<lparr>m_blocks := Some (length (w_stores (disk fs)))\<rparr> else nd)"
    by (simp add: enroll_nodes fs1)
  have dk: "disk ?fs = (if block_storage fs \<and> \<not> m_dir nd
      then world_step (\<lambda>_. []) (disk fs) (NewStore (root_source fs)) else disk fs)"
    by (simp add: enroll_disk fs1)
  have nx: "next_node ?fs = Suc n" and bs: "block_storage ?fs = block_storage fs" by (simp_all add: fs1)
  have wi: "world_inv (disk fs)" using st by (simp add: storage_inv_def)
  have stores: "the_store ?fs i = the_store fs i" if "i < length (w_stores (disk fs))" for i
    using that by (simp add: the_store_def dk nth_append)
  have mem: "w_mem (disk ?fs) = w_mem (disk fs)" by (simp add: dk)
  have bl: "i < length (w_stores (disk fs))" if "m < n" "m_blocks (nodes fs m) = Some i" for m i
    using st that by (simp add: storage_inv_def n)
  have old_st: "used (m_data (nodes fs m)) \<le> length (arr (m_data (nodes fs m))) \<and>
      (m_blocks (nodes fs m) \<noteq> None \<longleftrightarrow> block_storage fs \<and> \<not> m_dir (nodes fs m))" if "m < n" for m
    using st that by (simp add: storage_inv_def n)
  have uniq: "m = m'" if "m < n" "m' < n" "m_blocks (nodes fs m) = Some i" "m_blocks (nodes fs m') = Some i" for m m' i
    using st that by (auto simp: storage_inv_def n)
  have bytes: "node_bytes ?fs m = node_bytes fs m" if "m < n" for m
    using that bl [OF that] by (simp add: node_bytes_def old mem stores split: option.split)
  have "shape_inv ?fs"
    by (rule shape_cong [OF sh]) (use ch n old in \<open>simp_all add: fs1\<close>)
  moreover have "storage_inv ?fs"
    unfolding storage_inv_def
  proof (intro conjI allI impI)
    show "world_inv (disk ?fs)" using wi world_step_inv [OF wi, of "\<lambda>_. []" "NewStore (root_source fs)"]
      unfolding dk by simp
    fix m assume "m < next_node ?fs"
    then have m: "m < n \<or> m = n" using nx by auto
    show "used (m_data (nodes ?fs m)) \<le> length (arr (m_data (nodes ?fs m)))"
      using m old_st [of m] by (auto simp: old new nd nil_slice_def)
    show "(m_blocks (nodes ?fs m) \<noteq> None) = (block_storage ?fs \<and> \<not> m_dir (nodes ?fs m))"
      using m old_st [of m] nd(3) bs by (auto simp: old new split: if_splits)
    fix i assume "m_blocks (nodes ?fs m) = Some i"
    then show "i < length (w_stores (disk ?fs))"
      using m bl [of m i] nd(3) by (auto simp: old new dk split: if_splits)
  next
    fix m m' i
    assume a: "m < next_node ?fs \<and> m' < next_node ?fs \<and> m_blocks (nodes ?fs m) = Some i \<and> m_blocks (nodes ?fs m') = Some i"
    then have "(m < n \<or> m = n) \<and> (m' < n \<or> m' = n)" using nx by auto
    then show "m = m'"
      using a uniq [of m m' i] bl [of m i] bl [of m' i] nd(3) by (auto simp: old new split: if_splits)
  qed
  moreover have "node_bytes ?fs n = []"
    by (simp add: node_bytes_def new nd nil_slice_def slice_bytes_def the_store_def dk nth_append new_file_store_def
        empty_file_def contents_def)
  moreover have "\<not> f_sealed (s_data (the_store ?fs i))" if "m_blocks (nodes ?fs n) = Some i" for i
    using that by (auto simp: new nd the_store_def dk new_file_store_def empty_file_def split: if_splits)
  moreover have "s_source (the_store ?fs i) = root_source fs" if "m_blocks (nodes ?fs n) = Some i" for i
    using that by (auto simp: new nd the_store_def dk new_file_store_def split: if_splits)
  moreover have "root_source ?fs = root_source fs" by (simp add: fs1)
  moreover have "disk ?fs = disk fs \<or> disk ?fs = world_step (\<lambda>_. []) (disk fs) (NewStore (root_source fs))"
    unfolding dk by auto
  ultimately show ?thesis
    using ch fresh old bytes stores new nx bs n by (simp add: fs_inv_def)
qed

end
