(* ===== verification/StoreKeys.thy ===== *)
theory StoreKeys
  imports StoreWorld
begin

text \<open>
  Two facts every run of a world keeps: a descriptor map lists each block once, as a Go map does, and a
  store stays with the source it was opened for.
\<close>

definition keyed :: "root_file \<Rightarrow> bool" where
  "keyed d \<longleftrightarrow> distinct (map fst (f_blocks d))"

definition world_keys :: "world \<Rightarrow> bool" where
  "world_keys w \<longleftrightarrow> (\<forall>s\<in>set (w_stores w). keyed (s_data s)) \<and> (\<forall>z\<in>set (w_frozen w). keyed (z_data z))"

lemma empty_world_keys: "world_keys empty_world"
  by (simp add: world_keys_def empty_world_def)

lemma own_block_data: "own_block m s i = (m1, s1, e) \<Longrightarrow> s_source s1 = s_source s \<and> s_data s1 = s_data s"
  by (auto simp: own_block_def Let_def split: if_splits)

lemma write_chunk_keep:
  assumes "write_chunk m s at p = (m', s')"
  shows "s_source s' = s_source s \<and> (keyed (s_data s) \<longrightarrow> keyed (s_data s'))"
proof -
  obtain m1 s1 e where o: "own_block m s (at div block_size) = (m1, s1, e)" by (metis prod_cases3)
  note d = own_block_data [OF o]
  show ?thesis using assms d by (auto simp: write_chunk_def o Let_def keyed_def distinct_update)
qed

lemma write_chunks_keep:
  "write_chunks m s at p = (m', s') \<Longrightarrow> s_source s' = s_source s \<and> (keyed (s_data s) \<longrightarrow> keyed (s_data s'))"
proof (induction m s at p arbitrary: m' s' rule: write_chunks.induct)
  case (1 m s at p)
  show ?case
  proof (cases "p = []")
    case True
    then show ?thesis using "1.prems" by (simp add: write_chunks.simps)
  next
    case False
    define n where "n = min (length p) (block_size - at mod block_size)"
    obtain m1 s1 where c: "write_chunk m s at (take n p) = (m1, s1)" by (metis surj_pair)
    have w: "write_chunks m1 s1 (at + n) (drop n p) = (m', s')"
      using "1.prems" False c by (subst (asm) write_chunks.simps) (simp add: Let_def n_def)
    have "s_source s' = s_source s1 \<and> (keyed (s_data s1) \<longrightarrow> keyed (s_data s'))"
      by (rule "1.IH" [OF False n_def c [symmetric] w])
    then show ?thesis using write_chunk_keep [OF c] by simp
  qed
qed

lemma store_write_keep:
  assumes "store_write m s p off = (r, m', s')"
  shows "s_source s' = s_source s \<and> (keyed (s_data s) \<longrightarrow> keyed (s_data s'))"
proof -
  obtain m1 s1 where c: "write_chunks m s (nat off) p = (m1, s1)" by (metis surj_pair)
  show ?thesis using assms write_chunks_keep [OF c] by (auto simp: store_write_def c Let_def keyed_def split: if_splits)
qed

lemma truncate_keys: "distinct (map fst bs) \<Longrightarrow> distinct (map fst (truncate_blocks n bs))"
proof -
  assume d: "distinct (map fst bs)"
  have "map fst (truncate_blocks n bs) = map fst (filter (\<lambda>(i, e). \<not> dropped n i) bs)"
    by (simp add: truncate_blocks_def case_prod_beta comp_def)
  then show ?thesis using d by (simp add: distinct_map_filter)
qed

lemma store_resize_keep: "s_source (snd (store_resize s n)) = s_source s \<and>
    (keyed (s_data s) \<longrightarrow> keyed (s_data (snd (store_resize s n))))"
  by (auto simp: store_resize_def Let_def keyed_def truncate_keys)

lemma borrow_keep: "s_source (snd (borrow_mapping p s)) = s_source s \<and>
    (keyed (s_data s) \<longrightarrow> keyed (s_data (snd (borrow_mapping p s))))"
  by (auto simp: borrow_mapping_def Let_def keyed_def)

lemma copy_mapped_keep: "keyed (snd md) \<Longrightarrow> keyed (snd (copy_mapped md i))"
  by (auto simp: copy_mapped_def keyed_def Let_def distinct_update split: prod.split)

lemma copy_all_keep: "keyed (snd md) \<Longrightarrow> keyed (snd (foldl copy_mapped md is))"
  by (induction "is" arbitrary: md) (simp_all add: copy_mapped_keep)

lemma store_seal_keep:
  assumes "store_seal sha m s = (r, m', s')"
  shows "s_source s' = s_source s \<and> (keyed (s_data s) \<longrightarrow> keyed (s_data s') \<and> (\<forall>z. r = Inr z \<longrightarrow> keyed (z_data z)))"
proof -
  obtain e m1 d where q: "seal_mapped sha m (s_data s) = (e, m1, d)" by (metis prod_cases3)
  let ?is = "[0..<block_count (min (f_limit (s_data s)) (f_size (s_data s)))]"
  have "keyed (s_data s) \<longrightarrow> keyed d"
  proof
    assume k: "keyed (s_data s)"
    obtain m2 d2 where c: "foldl copy_mapped (m, s_data s) ?is = (m2, d2)" by (metis surj_pair)
    have "keyed d2" using copy_all_keep [of "(m, s_data s)" ?is] k c by simp
    then show "keyed d" using q k c
      by (auto simp: seal_mapped_def Let_def keyed_def split: option.splits sum.splits if_splits)
  qed
  then show ?thesis using assms q by (auto simp: store_seal_def Let_def keyed_def split: if_splits option.splits)
qed

lemma fork_keep: "keyed (z_data z) \<Longrightarrow> keyed (s_data (frozen_fork src z))"
  by (simp add: keyed_def frozen_fork_def new_file_store_def Let_def case_prod_beta comp_def)

lemma world_keys_step:
  assumes "world_keys w"
  shows "world_keys (world_step sha w x)"
proof -
  have upd: "\<forall>s\<in>set ((w_stores w)[i := s']). keyed (s_data s)" if "keyed (s_data s')" for i s'
    using that assms set_update_subset_insert [of "w_stores w" i s'] by (auto simp: world_keys_def)
  have st: "keyed (s_data (w_stores w ! i))" if "i < length (w_stores w)" for i
    using assms that by (simp add: world_keys_def)
  have fz: "keyed (z_data (w_frozen w ! j))" if "j < length (w_frozen w)" for j
    using assms that by (simp add: world_keys_def)
  have rep: "world_keys (w\<lparr>w_stores := (w_stores w)[i := s']\<rparr>)" if "keyed (s_data s')" for i s'
    using upd [OF that] assms by (simp add: world_keys_def)
  show ?thesis
  proof (cases x)
    case (NewStore src)
    then show ?thesis using assms by (auto simp: world_keys_def keyed_def new_file_store_def empty_file_def)
  next
    case (Borrow i p)
    then show ?thesis using assms rep [of "snd (borrow_mapping p (w_stores w ! i))" i] borrow_keep st [of i] by simp
  next
    case (WriteAt i p off)
    obtain r m' s' where w: "store_write (w_mem w) (w_stores w ! i) p off = (r, m', s')" by (metis prod_cases3)
    show ?thesis
    proof (cases "i < length (w_stores w)")
      case True
      then show ?thesis using rep [of s' i] store_write_keep [OF w] st [OF True] w WriteAt by (simp add: world_keys_def)
    qed (use assms WriteAt in simp)
  next
    case (ResizeTo i n)
    then show ?thesis using assms rep [of "snd (store_resize (w_stores w ! i) n)" i] store_resize_keep st [of i] by simp
  next
    case (SealIt i)
    obtain r m' s' where w: "store_seal sha (w_mem w) (w_stores w ! i) = (r, m', s')" by (metis prod_cases3)
    show ?thesis
    proof (cases "i < length (w_stores w)")
      case True
      note k = store_seal_keep [OF w] st [OF True]
      have "world_keys (w\<lparr>w_stores := (w_stores w)[i := s']\<rparr>)" using rep k by blast
      then show ?thesis using k w SealIt True by (cases r) (simp_all add: world_keys_def)
    qed (use assms SealIt in simp)
  next
    case (ForkOf j src)
    then show ?thesis using assms fork_keep fz by (auto simp: world_keys_def)
  qed
qed

lemma world_step_source:
  assumes "i < length (w_stores w)"
  shows "s_source (w_stores (world_step sha w x) ! i) = s_source (w_stores w ! i)"
proof (cases x)
  case (WriteAt j p off)
  obtain r m' s' where w: "store_write (w_mem w) (w_stores w ! j) p off = (r, m', s')" by (metis prod_cases3)
  then show ?thesis using WriteAt store_write_keep [OF w] assms by (auto simp: nth_list_update)
next
  case (SealIt j)
  obtain r m' s' where w: "store_seal sha (w_mem w) (w_stores w ! j) = (r, m', s')" by (metis prod_cases3)
  then show ?thesis using SealIt store_seal_keep [OF w] assms by (auto simp: nth_list_update)
qed (use assms store_resize_keep borrow_keep in \<open>auto simp: nth_append nth_list_update\<close>)

end
