(* ===== verification/MemRefine.thy ===== *)
theory MemRefine
  imports MemTree StoreKeys
begin

text \<open>
  The operations on names of a \<open>MemFS\<close> as operations on its tree: the abstract specification, and the
  simulation of every call, results and errors included.
\<close>

section \<open>The specification\<close>

definition parent_error :: "tree \<Rightarrow> string \<Rightarrow> goerr option" where
  "parent_error t name =
     (let p = mem_split name in
      if p = [] then Some err_invalid else if t (butlast p) = Some EDir then None else Some err_not_exist)"

text \<open>Putting an entry at a path; what was below it goes.\<close>

definition put_entry :: "string list \<Rightarrow> tree_entry option \<Rightarrow> tree \<Rightarrow> tree" where
  "put_entry p e t = (\<lambda>q. if prefix p q then (if q = p then e else None) else t q)"

definition move_tree :: "string list \<Rightarrow> string list \<Rightarrow> tree \<Rightarrow> tree" where
  "move_tree old new t = (\<lambda>q. if prefix new q then t (old @ drop (length new) q)
     else if prefix old q then None else t q)"

fun spec_mkdirs :: "string \<Rightarrow> string list \<Rightarrow> string list \<Rightarrow> tree \<Rightarrow> goerr option \<times> tree" where
  "spec_mkdirs name p [] t = (None, t)"
| "spec_mkdirs name p (k # ks) t =
     (case t (p @ [k]) of
        None \<Rightarrow> spec_mkdirs name (p @ [k]) ks (put_entry (p @ [k]) (Some EDir) t)
      | Some EDir \<Rightarrow> spec_mkdirs name (p @ [k]) ks t
      | Some (EFile b) \<Rightarrow> (Some (path_error ''mkdir'' name err_exist), t))"

datatype fs_op =
    Mkdir string "32 word"
  | MkdirAll string "32 word"
  | Remove string
  | Rename string string
  | Open string open_flags "32 word"
  | WriteFile nat string bytes "32 word"

fun spec_step :: "fs_op \<Rightarrow> tree \<Rightarrow> goerr option \<times> tree" where
  "spec_step (Mkdir name perm) t =
     (case parent_error t name of
        Some e \<Rightarrow> (Some (path_error ''mkdir'' name e), t)
      | None \<Rightarrow>
          if t (mem_split name) \<noteq> None then (Some (path_error ''mkdir'' name err_exist), t)
          else (None, put_entry (mem_split name) (Some EDir) t))"
| "spec_step (MkdirAll name perm) t = spec_mkdirs name [] (mem_split name) t"
| "spec_step (Remove name) t =
     (case parent_error t name of
        Some e \<Rightarrow> (Some (path_error ''remove'' name e), t)
      | None \<Rightarrow>
          if t (mem_split name) = None then (Some (path_error ''remove'' name err_not_exist), t)
          else if \<exists>k. t (mem_split name @ [k]) \<noteq> None then (Some (path_error ''remove'' name err_invalid), t)
          else (None, put_entry (mem_split name) None t))"
| "spec_step (Rename a b) t =
     (case parent_error t a of
        Some e \<Rightarrow> (Some (path_error ''rename'' a e), t)
      | None \<Rightarrow>
          if t (mem_split a) = None then (Some (path_error ''rename'' a err_not_exist), t)
          else case parent_error t b of
            Some e \<Rightarrow> (Some (path_error ''rename'' b e), t)
          | None \<Rightarrow>
              if strict_prefix (mem_split a) (mem_split b) then (Some (path_error ''rename'' a err_einval), t)
              else (None, move_tree (mem_split a) (mem_split b) t))"
| "spec_step (Open name flag perm) t =
     (case t (mem_split name) of
        None \<Rightarrow>
          if \<not> o_create flag then (Some (path_error ''open'' name err_not_exist), t)
          else (case parent_error t name of
              Some e \<Rightarrow> (Some (path_error ''open'' name e), t)
            | None \<Rightarrow> (None, put_entry (mem_split name) (Some (EFile [])) t))
      | Some x \<Rightarrow>
          if o_excl flag \<and> o_create flag then (Some (path_error ''open'' name err_exist), t)
          else if o_trunc flag \<and> x \<noteq> EDir then (None, put_entry (mem_split name) (Some (EFile [])) t)
          else (None, t))"
| "spec_step (WriteFile spare name data perm) t =
     (let parts = mem_split name in
      case spec_mkdirs (join_path (butlast parts)) [] (butlast parts) t of
        (Some e, t') \<Rightarrow> (Some e, t')
      | (None, t') \<Rightarrow>
          if parts = [] then (Some (path_error ''writefile'' name err_invalid), t')
          else (None, put_entry parts (Some (EFile data)) t'))"

text \<open>The calls themselves; the handle an open returns is dropped here.\<close>

definition no_handle :: "(goerr + mem_file) \<times> mem_fs \<Rightarrow> goerr option \<times> mem_fs" where
  "no_handle r = (case r of (Inl e, fs) \<Rightarrow> (Some e, fs) | (Inr h, fs) \<Rightarrow> (None, fs))"

fun fs_step :: "int \<Rightarrow> fs_op \<Rightarrow> mem_fs \<Rightarrow> (goerr option \<times> mem_fs) option" where
  "fs_step now (Mkdir name perm) fs = Some (mkdir name perm now fs)"
| "fs_step now (MkdirAll name perm) fs = Some (mkdir_all name perm now fs)"
| "fs_step now (Remove name) fs = Some (remove_name name fs)"
| "fs_step now (Rename a b) fs = rename_name a b fs"
| "fs_step now (Open name flag perm) fs = Some (no_handle (open_file name flag perm now fs))"
| "fs_step now (WriteFile spare name data perm) fs = Some (write_file spare name data perm now fs)"

text \<open>Every file store is still open for writing, as it is until the file system is frozen.\<close>

definition unsealed :: "mem_fs \<Rightarrow> bool" where
  "unsealed fs \<longleftrightarrow> (\<forall>n<next_node fs. \<forall>i. m_blocks (nodes fs n) = Some i \<longrightarrow> \<not> f_sealed (s_data (the_store fs i)))"

text \<open>Every store of the file system was opened for its source.\<close>

definition own_sources :: "mem_fs \<Rightarrow> bool" where
  "own_sources fs \<longleftrightarrow> (\<forall>n<next_node fs. \<forall>i. m_blocks (nodes fs n) = Some i \<longrightarrow> s_source (the_store fs i) = root_source fs)"

definition fs_ready :: "mem_fs \<Rightarrow> bool" where
  "fs_ready fs \<longleftrightarrow> fs_inv fs \<and> unsealed fs \<and> own_sources fs \<and> world_keys (disk fs)"

section \<open>Simulation\<close>

lemma parent_found:
  assumes "shape_inv fs"
  shows "parent_error (tree_of fs) name = Some e \<Longrightarrow> lookup_parent fs name = Inl e"
    "parent_error (tree_of fs) name = None \<Longrightarrow> \<exists>p pp b. lookup_parent fs name = Inr (p, b) \<and> node_at fs pp = Some p \<and>
       mem_split name = pp @ [b] \<and> m_dir (nodes fs p) \<and> p < next_node fs \<and> proper b \<and> child fs p b = node_at fs (pp @ [b])"
proof -
  note l = lookup_parent_node [OF assms, of name]
  show "parent_error (tree_of fs) name = Some e \<Longrightarrow> lookup_parent fs name = Inl e"
    by (auto simp: parent_error_def l Let_def split: if_splits)
  assume "parent_error (tree_of fs) name = None"
  then have ne: "mem_split name \<noteq> []" and d: "tree_of fs (butlast (mem_split name)) = Some EDir"
    by (auto simp: parent_error_def Let_def split: if_splits)
  obtain p where p: "node_at fs (butlast (mem_split name)) = Some p" "m_dir (nodes fs p)"
    using d unfolding tree_dir_iff by blast
  have "proper (last (mem_split name))" using mem_split_proper [of name] ne by simp
  moreover have "p < next_node fs" by (rule node_at_bound [OF assms p(1)])
  moreover have "child fs p (last (mem_split name)) = node_at fs (butlast (mem_split name) @ [last (mem_split name)])"
    using p(1) by (simp only: node_at_snoc) simp
  ultimately show "\<exists>p pp b. lookup_parent fs name = Inr (p, b) \<and> node_at fs pp = Some p \<and>
       mem_split name = pp @ [b] \<and> m_dir (nodes fs p) \<and> p < next_node fs \<and> proper b \<and> child fs p b = node_at fs (pp @ [b])"
    using p d ne l
    by (intro exI [of _ p] exI [of _ "butlast (mem_split name)"] exI [of _ "last (mem_split name)"]) simp
qed

text \<open>Linking a fresh leaf.\<close>

lemma link_leaf:
  assumes inv: "fs_ready fs" and p: "node_at fs pp = Some p" "m_dir (nodes fs p)" "proper b"
    and nd: "m_children nd = []" "m_data nd = nil_slice" "m_blocks nd = None" "m_parent nd = Some p" "m_name nd = b"
    and al: "alloc_node nd fs = (n, fs1)"
  shows "fs_ready (set_child p b n (enroll n fs1)) \<and>
    tree_of (set_child p b n (enroll n fs1)) = put_entry (pp @ [b]) (Some (if m_dir nd then EDir else EFile [])) (tree_of fs) \<and>
    node_at (set_child p b n (enroll n fs1)) (pp @ [b]) = Some n"
proof -
  let ?f = "enroll n fs1" and ?fs = "set_child p b n (enroll n fs1)"
  have i: "fs_inv fs" "unsealed fs" "shape_inv fs" "storage_inv fs" using inv by (simp_all add: fs_ready_def fs_inv_def)
  have keep: "own_sources fs" "world_keys (disk fs)" using inv by (simp_all add: fs_ready_def)
  note s = new_node_spec [OF i(1) nd(1-3) al]
  have "fs_inv ?f" using s by (rule conjunct1)
  then have f: "shape_inv ?f" "storage_inv ?f" by (simp_all add: fs_inv_def)
  have pb: "p < n" using node_at_bound [OF i(3) p(1)] s by simp
  have ch: "child ?f m k = child fs m k" for m k using s by blast
  have na: "node_at ?f q = node_at fs q" for q by (rule node_at_cong) (rule ch)
  have nn: "next_node ?f = Suc n" "m_parent (nodes ?f n) = Some p" "m_name (nodes ?f n) = b" "m_dir (nodes ?f p)"
    using s nd(4,5) p(2) pb by simp_all
  have sh: "shape_inv ?fs"
    by (rule shape_set_child [OF f(1)]) (use nn pb p(3) in simp_all)
  have st: "same_storage ?f ?fs" by (rule same_storage_edits)
  have node: "node_at ?fs q = (if prefix (pp @ [b]) q then (if q = pp @ [b] then Some n else None) else node_at fs q)" for q
    by (subst set_child_leaf [OF f(1)]) (use s p(1) pb na in auto)
  have ent: "entry_of ?fs m = entry_of fs m" if "m < n" for m
    using same_storage_entry [OF st, of m] s that by (simp add: entry_of_def)
  have "entry_of ?fs n = (if m_dir nd then EDir else EFile [])"
    using same_storage_entry [OF st, of n] s by (simp add: entry_of_def)
  then have "tree_of ?fs q = put_entry (pp @ [b]) (Some (if m_dir nd then EDir else EFile [])) (tree_of fs) q" for q
    using node_at_bound [OF i(3), of q] s ent
    by (auto simp: tree_of_def node put_entry_def split: if_splits intro!: option.map_cong0)
  moreover have "unsealed ?fs"
    unfolding unsealed_def
  proof (intro allI impI)
    fix m j assume m: "m < next_node ?fs" and j: "m_blocks (nodes ?fs m) = Some j"
    have j': "m_blocks (nodes ?f m) = Some j" and t: "the_store ?fs j = the_store ?f j"
      using j st by (simp_all add: same_storage_def the_store_def)
    show "\<not> f_sealed (s_data (the_store ?fs j))"
    proof (cases "m = n")
      case True
      then show ?thesis using s j' t by simp
    next
      case False
      then have "m < n" using m nn(1) by simp
      then have "m_blocks (nodes fs m) = Some j" "m < next_node fs" using s j' by simp_all
      moreover from this have "j < length (w_stores (disk fs))" using i(4) by (simp add: storage_inv_def)
      ultimately show ?thesis using i(2) s t by (simp add: unsealed_def)
    qed
  qed
  moreover have "own_sources ?fs"
    unfolding own_sources_def
  proof (intro allI impI)
    fix m j assume m: "m < next_node ?fs" and j: "m_blocks (nodes ?fs m) = Some j"
    have j': "m_blocks (nodes ?f m) = Some j" and t: "the_store ?fs j = the_store ?f j" "root_source ?fs = root_source fs"
      using j st s by (simp_all add: same_storage_def the_store_def)
    show "s_source (the_store ?fs j) = root_source ?fs"
    proof (cases "m = n")
      case True
      then show ?thesis using s j' t by simp
    next
      case False
      then have "m < n" using m nn(1) by simp
      then have "m_blocks (nodes fs m) = Some j" "m < next_node fs" using s j' by simp_all
      moreover from this have "j < length (w_stores (disk fs))" using i(4) by (simp add: storage_inv_def)
      ultimately show ?thesis using keep(1) s t by (simp add: own_sources_def)
    qed
  qed
  moreover have "disk ?f = disk fs \<or> disk ?f = world_step (\<lambda>_. []) (disk fs) (NewStore (root_source fs))" using s by blast
  then have "world_keys (disk ?fs)" using keep(2) world_keys_step [OF keep(2), of "\<lambda>_. []" "NewStore (root_source fs)"]
    by (metis edit_rest(2))
  ultimately show ?thesis
    using sh same_storage_inv [OF st f(2)] node [of "pp @ [b]"] by (simp add: fs_ready_def fs_inv_def fun_eq_iff)
qed


text \<open>Outcomes agree: the errors, and the tree of the resulting file system.\<close>

definition sim :: "goerr option \<times> mem_fs \<Rightarrow> goerr option \<times> tree \<Rightarrow> bool" where
  "sim r s \<longleftrightarrow> fst r = fst s \<and> tree_of (snd r) = snd s \<and> fs_ready (snd r)"

lemma sim_same [simp]: "sim (e, fs) (e', tree_of fs) \<longleftrightarrow> e = e' \<and> fs_ready fs"
  by (simp add: sim_def)

lemma ready_shape: "fs_ready fs \<Longrightarrow> shape_inv fs"
  by (simp add: fs_ready_def fs_inv_def)

lemma enroll_dir: "m_dir (nodes fs n) \<Longrightarrow> enroll n fs = fs"
  by (simp add: enroll_def)

lemma dir_node_fields [simp]:
  "m_children (dir_node p k perm now) = []" "m_data (dir_node p k perm now) = nil_slice" "m_blocks (dir_node p k perm now) = None"
  "m_parent (dir_node p k perm now) = p" "m_name (dir_node p k perm now) = k" "m_dir (dir_node p k perm now)"
  by (simp_all add: dir_node_def)

lemma file_node_fields [simp]:
  "m_children (file_node p k perm now) = []" "m_data (file_node p k perm now) = nil_slice" "m_blocks (file_node p k perm now) = None"
  "m_parent (file_node p k perm now) = Some p" "m_name (file_node p k perm now) = k" "\<not> m_dir (file_node p k perm now)"
  by (simp_all add: file_node_def)

lemma link_dir:
  assumes "fs_ready fs" "node_at fs pp = Some p" "m_dir (nodes fs p)" "proper b"
    and al: "alloc_node (dir_node (Some p) b perm now) fs = (n, fs1)"
  shows "fs_ready (set_child p b n fs1) \<and> tree_of (set_child p b n fs1) = put_entry (pp @ [b]) (Some EDir) (tree_of fs) \<and>
    node_at (set_child p b n fs1) (pp @ [b]) = Some n"
proof -
  have "m_dir (nodes fs1 n)" using al by (auto simp: alloc_node_def)
  then show ?thesis using link_leaf [OF assms(1-4) _ _ _ _ _ al] by (simp add: enroll_dir)
qed

lemma mkdir_sim:
  assumes "fs_ready fs"
  shows "sim (mkdir name perm now fs) (spec_step (Mkdir name perm) (tree_of fs))"
proof (cases "parent_error (tree_of fs) name")
  case (Some e)
  then show ?thesis using parent_found(1) [OF ready_shape [OF assms] Some] assms by (simp add: mkdir_def)
next
  case None
  obtain p pp b where l: "lookup_parent fs name = Inr (p, b)" "node_at fs pp = Some p" "mem_split name = pp @ [b]"
    "m_dir (nodes fs p)" "proper b" "child fs p b = node_at fs (pp @ [b])"
    using parent_found(2) [OF ready_shape [OF assms] None] by blast
  obtain n fs1 where al: "alloc_node (dir_node (Some p) b perm now) fs = (n, fs1)" by (metis surj_pair)
  show ?thesis
  proof (cases "node_at fs (pp @ [b])")
    case None
    then show ?thesis
      using l al link_dir [OF assms l(2,4,5) al] \<open>parent_error (tree_of fs) name = None\<close>
      by (simp add: mkdir_def sim_def tree_of_def)
  next
    case (Some c)
    then show ?thesis using l assms None by (simp add: mkdir_def tree_of_def)
  qed
qed

lemma mkdir_parts_sim:
  assumes "fs_ready fs" "node_at fs p = Some n" "m_dir (nodes fs n)" "\<forall>k\<in>set ks. proper k"
  shows "sim (mkdir_parts name perm now n ks fs) (spec_mkdirs name p ks (tree_of fs))"
  using assms
proof (induction ks arbitrary: fs p n)
  case Nil
  then show ?case by simp
next
  case (Cons k ks)
  have ch: "child fs n k = node_at fs (p @ [k])" using Cons.prems(2) by (simp add: node_at_snoc)
  show ?case
  proof (cases "child fs n k")
    case None
    obtain c fs1 where al: "alloc_node (dir_node (Some n) k perm now) fs = (c, fs1)" by (metis surj_pair)
    have k: "proper k" using Cons.prems(4) by simp
    note d = link_dir [OF Cons.prems(1-3) k al]
    have "tree_of (set_child n k c fs1) (p @ [k]) = Some EDir" using d by (simp add: put_entry_def)
    then have "m_dir (nodes (set_child n k c fs1) c)" using d unfolding tree_dir_iff by simp
    then have "sim (mkdir_parts name perm now c ks (set_child n k c fs1))
        (spec_mkdirs name (p @ [k]) ks (tree_of (set_child n k c fs1)))"
      by (intro Cons.IH) (use d Cons.prems(4) in auto)
    then show ?thesis using None ch al d by (simp add: tree_of_def [of fs "p @ [k]"])
  next
    case (Some c)
    then have e: "tree_of fs (p @ [k]) = Some (entry_of fs c)" using ch by (simp add: tree_of_def)
    show ?thesis
    proof (cases "m_dir (nodes fs c)")
      case True
      then have "sim (mkdir_parts name perm now c ks fs) (spec_mkdirs name (p @ [k]) ks (tree_of fs))"
        by (intro Cons.IH) (use Some ch Cons.prems in auto)
      then show ?thesis using Some e True by (simp add: entry_of_def)
    next
      case False
      then show ?thesis using Some e Cons.prems(1) by (simp add: entry_of_def)
    qed
  qed
qed

lemma mkdir_all_sim:
  assumes "fs_ready fs"
  shows "sim (mkdir_all name perm now fs) (spec_mkdirs name [] (mem_split name) (tree_of fs))"
  unfolding mkdir_all_def
  by (rule mkdir_parts_sim [OF assms]) (use shape_root [OF ready_shape [OF assms]] mem_split_proper in auto)

lemma ready_edit:
  assumes "fs_ready fs" "same_storage fs fs'" "shape_inv fs'"
  shows "fs_ready fs'"
  using assms same_storage_inv [OF assms(2)]
  by (auto simp: fs_ready_def fs_inv_def unsealed_def own_sources_def same_storage_def the_store_def)

lemma no_children:
  assumes "shape_inv fs" "node_at fs p = Some n"
  shows "m_dir (nodes fs n) \<and> m_children (nodes fs n) \<noteq> [] \<longleftrightarrow> (\<exists>k. tree_of fs (p @ [k]) \<noteq> None)"
proof -
  have a: "(\<exists>k. tree_of fs (p @ [k]) \<noteq> None) \<longleftrightarrow> (\<exists>k c. child fs n k = Some c)"
    using assms(2) by (auto simp: tree_of_def node_at_snoc)
  have b: "(\<exists>k c. child fs n k = Some c) \<longleftrightarrow> m_children (nodes fs n) \<noteq> []"
    using map_of_eq_empty_iff [of "m_children (nodes fs n)"] by (auto simp: child_def fun_eq_iff simp del: map_of_eq_empty_iff)
  have "(\<exists>k c. child fs n k = Some c) \<longrightarrow> m_dir (nodes fs n)" using shape_child(3) [OF assms(1)] by blast
  then show ?thesis unfolding a b [symmetric] by blast
qed

lemma remove_sim:
  assumes "fs_ready fs"
  shows "sim (remove_name name fs) (spec_step (Remove name) (tree_of fs))"
proof (cases "parent_error (tree_of fs) name")
  case (Some e)
  then show ?thesis using parent_found(1) [OF ready_shape [OF assms] Some] assms by (simp add: remove_name_def)
next
  case None
  note sh = ready_shape [OF assms]
  obtain p pp b where l: "lookup_parent fs name = Inr (p, b)" "node_at fs pp = Some p" "mem_split name = pp @ [b]"
    "m_dir (nodes fs p)" "proper b" "child fs p b = node_at fs (pp @ [b])"
    using parent_found(2) [OF sh None] by blast
  let ?fs = "delete_child p b fs"
  have st: "same_storage fs ?fs" by (rule same_storage_edits)
  have ready: "fs_ready ?fs" by (rule ready_edit [OF assms st shape_delete_child [OF sh]])
  have t: "tree_of ?fs = put_entry (mem_split name) None (tree_of fs)"
    using same_storage_entry [OF st]
    by (auto simp: tree_of_def delete_child_node [OF sh l(2)] put_entry_def l(3) fun_eq_iff intro!: option.map_cong0)
  show ?thesis
  proof (cases "node_at fs (pp @ [b])")
    case n: None
    then show ?thesis using l None assms by (simp add: remove_name_def tree_of_def)
  next
    case (Some n)
    then have "tree_of fs (mem_split name) \<noteq> None" by (simp add: tree_of_def l(3))
    then show ?thesis
      using no_children [OF sh Some] Some l(1,6) None ready t assms
      by (auto simp: remove_name_def sim_def l(3))
  qed
qed


section \<open>Rename\<close>

lemma meets_path:
  assumes "shape_inv fs"
  shows "node_at fs p = Some n \<Longrightarrow> meets fs node (Some n) = Some (\<exists>q. prefix q p \<and> node_at fs q = Some node)"
proof (induction p arbitrary: n rule: rev_induct)
  case Nil
  then have n: "n = 0" by simp
  have "meets fs node None = Some False" by (subst meets.simps) simp
  then show ?case using shape_root [OF assms] n by (subst meets.simps) auto
next
  case (snoc k p)
  obtain m where m: "node_at fs p = Some m" "child fs m k = Some n"
    using snoc.prems by (auto simp: node_at_snoc bind_eq_Some_conv)
  have "m_parent (nodes fs n) = Some m" by (rule shape_child(4) [OF assms m(2)])
  then have "meets fs node (Some n) = Some (n = node \<or> (\<exists>q. prefix q p \<and> node_at fs q = Some node))"
    using snoc.IH [OF m(1)] by (subst meets.simps) simp
  also have "(n = node \<or> (\<exists>q. prefix q p \<and> node_at fs q = Some node)) \<longleftrightarrow>
      (\<exists>q. prefix q (p @ [k]) \<and> node_at fs q = Some node)"
    using snoc.prems by auto
  finally show ?case .
qed

text \<open>The relinked heap of a rename.\<close>

definition renamed :: "nat \<Rightarrow> string \<Rightarrow> nat \<Rightarrow> nat \<Rightarrow> string \<Rightarrow> mem_fs \<Rightarrow> mem_fs" where
  "renamed op ob node np nb fs =
     set_child np nb node (update_node node (\<lambda>nd. nd\<lparr>m_parent := Some np, m_name := nb\<rparr>) (delete_child op ob fs))"

lemma child_renamed: "child (renamed op ob node np nb fs) m k =
    (if m = np \<and> k = nb then Some node else if m = op \<and> k = ob then None else child fs m k)"
proof -
  have "child (update_node node (\<lambda>nd. nd\<lparr>m_parent := Some np, m_name := nb\<rparr>) f) m k = child f m k" for f m k
    by (simp add: child_def update_node_def)
  then show ?thesis by (simp add: renamed_def)
qed

lemma same_storage_renamed: "same_storage fs (renamed op ob node np nb fs)"
  unfolding renamed_def by (blast intro: same_storage_trans same_storage_edits)

lemma nodes_renamed:
  "m_parent (nodes (renamed op ob node np nb fs) m) = (if m = node then Some np else m_parent (nodes fs m))"
  "m_name (nodes (renamed op ob node np nb fs) m) = (if m = node then nb else m_name (nodes fs m))"
  by (simp_all add: renamed_def nodes_set_child nodes_delete_child update_node_def set_child_def delete_child_def)

lemma shape_renamed:
  assumes sh: "shape_inv fs" and node: "child fs op ob = Some node"
    and np: "np < next_node fs" "m_dir (nodes fs np)" "proper nb"
  shows "shape_inv (renamed op ob node np nb fs)"
proof (rule shapeI)
  let ?fs = "renamed op ob node np nb fs"
  note c = shape_child [OF sh node]
  have st: "next_node ?fs = next_node fs" "m_dir (nodes ?fs m) = m_dir (nodes fs m)" for m
    using same_storage_renamed unfolding same_storage_def by simp_all
  show "0 < next_node ?fs" "m_dir (nodes ?fs 0)" "m_parent (nodes ?fs 0) = None"
    using shape_root [OF sh] st c(7) by (simp_all add: nodes_renamed)
  fix m k d
  assume a: "child ?fs m k = Some d"
  show "m < next_node ?fs \<and> d < next_node ?fs \<and> m_dir (nodes ?fs m) \<and> m_parent (nodes ?fs d) = Some m \<and>
      m_name (nodes ?fs d) = k \<and> proper k"
  proof (cases "m = np \<and> k = nb")
    case True
    then show ?thesis using a c np st by (simp add: child_renamed nodes_renamed)
  next
    case False
    then have old: "child fs m k = Some d" "\<not> (m = op \<and> k = ob)"
      using a by (auto simp: child_renamed split: if_splits)
    note d = shape_child [OF sh old(1)]
    have "d \<noteq> node" using old(2) d(4,5) c(4,5) by auto
    then show ?thesis using d st by (simp add: nodes_renamed)
  qed
qed

lemma node_at_renamed:
  assumes sh: "shape_inv fs" and op: "node_at fs opp = Some op" and node: "child fs op ob = Some node"
    and np: "node_at fs npp = Some np" and free: "\<not> prefix (opp @ [ob]) npp"
  shows "node_at (renamed op ob node np nb fs) q =
    (if prefix (npp @ [nb]) q then node_at fs ((opp @ [ob]) @ drop (length (npp @ [nb])) q)
     else if prefix (opp @ [ob]) q then None else node_at fs q)"
proof -
  let ?fs = "renamed op ob node np nb fs"
  have inj: "a = b" if "node_at fs a = Some n" "node_at fs b = Some n" for a b n by (rule node_at_inject [OF sh that])
  have under: "below ?fs node r = node_at fs ((opp @ [ob]) @ r)" for r
  proof (induction r rule: rev_induct)
    case Nil
    then show ?case using op node by (simp add: below_def node_at_snoc)
  next
    case (snoc k r)
    have b: "below ?fs node (r @ [k]) = Option.bind (below ?fs node r) (\<lambda>m. child ?fs m k)" by (simp add: below_def)
    have n: "node_at fs ((opp @ [ob]) @ r @ [k]) = Option.bind (node_at fs ((opp @ [ob]) @ r)) (\<lambda>m. child fs m k)"
      using node_at_snoc [of fs "(opp @ [ob]) @ r" k] by simp
    have "child ?fs m k = child fs m k" if m: "node_at fs ((opp @ [ob]) @ r) = Some m" for m
    proof -
      have "m \<noteq> np" using inj [OF _ np] m free by (metis prefixI)
      moreover have "m \<noteq> op" using inj [OF _ op] m by fastforce
      ultimately show ?thesis by (simp add: child_renamed)
    qed
    then show ?case unfolding b n snoc.IH by (cases "node_at fs ((opp @ [ob]) @ r)") simp_all
  qed
  have "node_at ?fs q =
     (if prefix (npp @ [nb]) q then Option.bind (Some node) (\<lambda>c. below ?fs c (drop (length (npp @ [nb])) q))
      else if \<exists>p. Some (opp @ [ob]) = Some p \<and> prefix p q then None else node_at fs q)"
  proof (rule relink)
    show "\<forall>q n k. node_at fs q = Some n \<longrightarrow>
      child ?fs n k = (if q @ [k] = npp @ [nb] then Some node else if Some (opp @ [ob]) = Some (q @ [k]) then None else child fs n k)"
      using inj op np by (auto simp: child_renamed split: if_splits)
  qed (use np free in simp_all)
  then show ?thesis by (simp add: under)
qed

lemma rename_sim:
  assumes "fs_ready fs"
  shows "\<exists>r. rename_name a b fs = Some r \<and> sim r (spec_step (Rename a b) (tree_of fs))"
proof (cases "parent_error (tree_of fs) a")
  case (Some e)
  then show ?thesis using parent_found(1) [OF ready_shape [OF assms] Some] assms by (simp add: rename_name_def)
next
  case None
  note sh = ready_shape [OF assms]
  obtain op opp ob where l: "lookup_parent fs a = Inr (op, ob)" "node_at fs opp = Some op" "mem_split a = opp @ [ob]"
    "m_dir (nodes fs op)" "proper ob" "child fs op ob = node_at fs (opp @ [ob])"
    using parent_found(2) [OF sh None] by blast
  show ?thesis
  proof (cases "child fs op ob")
    case n: None
    then show ?thesis using l None assms by (simp add: rename_name_def tree_of_def)
  next
    case node: (Some node)
    then have t: "tree_of fs (mem_split a) = Some (entry_of fs node)" using l by (simp add: tree_of_def)
    show ?thesis
    proof (cases "parent_error (tree_of fs) b")
      case (Some e)
      then show ?thesis
        using parent_found(1) [OF sh Some] assms l(1) None node t by (simp add: rename_name_def)
    next
      case pb: None
      obtain np npp nb where r: "lookup_parent fs b = Inr (np, nb)" "node_at fs npp = Some np" "mem_split b = npp @ [nb]"
        "m_dir (nodes fs np)" "np < next_node fs" "proper nb"
        using parent_found(2) [OF sh pb] by blast
      have "(\<exists>q. prefix q npp \<and> node_at fs q = Some node) \<longleftrightarrow> prefix (opp @ [ob]) npp"
        using node_at_inject [OF sh] node l(6) by metis
      then have m: "meets fs node (Some np) = Some (prefix (opp @ [ob]) npp)"
        using meets_path [OF sh r(2)] by simp
      have sp: "strict_prefix (mem_split a) (mem_split b) \<longleftrightarrow> prefix (opp @ [ob]) npp"
        by (auto simp: l(3) r(3) strict_prefix_def)
      show ?thesis
      proof (cases "prefix (opp @ [ob]) npp")
        case True
        then show ?thesis using l(1) node r(1) m sp t None pb assms by (simp add: rename_name_def)
      next
        case False
        let ?fs = "renamed op ob node np nb fs"
        have "fs_ready ?fs"
          by (rule ready_edit [OF assms same_storage_renamed shape_renamed [OF sh node r(5,4,6)]])
        moreover have "tree_of ?fs = move_tree (mem_split a) (mem_split b) (tree_of fs)"
          using same_storage_entry [OF same_storage_renamed]
          by (auto simp: tree_of_def node_at_renamed [OF sh l(2) node r(2) False] move_tree_def l(3) r(3) fun_eq_iff
              intro!: option.map_cong0)
        moreover have "rename_name a b fs = Some (None, ?fs)"
          using l(1) node r(1) m False by (simp add: rename_name_def renamed_def)
        ultimately show ?thesis using sp t None pb False by (simp add: sim_def)
      qed
    qed
  qed
qed


section \<open>Contents that change\<close>

text \<open>A call that changes the bytes of one file only.\<close>

definition content_change :: "mem_fs \<Rightarrow> nat \<Rightarrow> bytes \<Rightarrow> mem_fs \<Rightarrow> bool" where
  "content_change fs n new fs' \<longleftrightarrow> fs_ready fs' \<and> next_node fs' = next_node fs \<and>
     (\<forall>m k. child fs' m k = child fs m k) \<and> (\<forall>m. m_dir (nodes fs' m) = m_dir (nodes fs m)) \<and>
     node_bytes fs' n = new \<and> (\<forall>m<next_node fs. m \<noteq> n \<longrightarrow> node_bytes fs' m = node_bytes fs m)"

lemma content_change_tree:
  assumes "content_change fs n new fs'" "shape_inv fs" "\<not> m_dir (nodes fs n)"
  shows "tree_of fs' q = (if node_at fs q = Some n then Some (EFile new) else tree_of fs q)"
proof -
  have "node_at fs' q = node_at fs q" by (rule node_at_cong) (use assms(1) in \<open>simp add: content_change_def\<close>)
  then show ?thesis
    using assms node_at_bound [OF assms(2), of q]
    by (cases "node_at fs q") (auto simp: tree_of_def entry_of_def content_change_def)
qed

lemma content_change_put:
  assumes "content_change fs n new fs'" "shape_inv fs" "\<not> m_dir (nodes fs n)" "node_at fs p = Some n"
  shows "tree_of fs' = put_entry p (Some (EFile new)) (tree_of fs)"
proof
  fix q
  show "tree_of fs' q = put_entry p (Some (EFile new)) (tree_of fs) q"
  proof (cases "prefix p q \<and> q \<noteq> p")
    case True
    then obtain k r where q: "q = p @ k # r" by (metis append.right_neutral neq_Nil_conv prefix_def)
    have "node_at fs q = None"
      using node_at_inner_dir [OF assms(2), of p k r] assms(3,4) by (cases "node_at fs q") (auto simp: q)
    then show ?thesis using True content_change_tree [OF assms(1-3), of q] by (simp add: put_entry_def tree_of_def)
  next
    case False
    have "node_at fs q = Some n \<longleftrightarrow> q = p" using node_at_inject [OF assms(2) _ assms(4)] assms(4) by blast
    then show ?thesis using False by (auto simp: content_change_tree [OF assms(1-3)] put_entry_def)
  qed
qed

text \<open>A file store of the world, seen flat.\<close>

lemma flat_store:
  "i < length (w_stores w) \<Longrightarrow> fl_stores (flat_of w) ! i = (contents (w_mem w) (s_data (w_stores w ! i)), \<not> f_sealed (s_data (w_stores w ! i)))"
  by (simp add: flat_of_def)

lemma flat_length: "length (fl_stores (flat_of w)) = length (w_stores w)"
  by (simp add: flat_of_def)

text \<open>A call on the store of a file node.\<close>

lemma store_change:
  assumes ready: "fs_ready fs" and n: "n < next_node fs" "m_blocks (nodes fs n) = Some i"
    and x: "targets x = Some i" and keep: "fl_stores (flat_step (flat_of (disk fs)) x) ! i = (new, True)"
  shows "content_change fs n new (fs\<lparr>disk := world_step sha (disk fs) x\<rparr>)"
proof -
  let ?w = "disk fs" and ?fs = "fs\<lparr>disk := world_step sha (disk fs) x\<rparr>"
  have i: "fs_inv fs" "unsealed fs" "shape_inv fs" "storage_inv fs" using ready by (simp_all add: fs_ready_def fs_inv_def)
  have w: "world_inv ?w" using i(4) by (simp add: storage_inv_def)
  note ws = world_step_inv [OF w, of sha x]
  have il: "j < length (w_stores ?w)" if "m < next_node fs" "m_blocks (nodes fs m) = Some j" for m j
    using i(4) that by (simp add: storage_inv_def)
  have len: "j < length (w_stores (world_step sha ?w x))" if "j < length (w_stores ?w)" for j
    using flat_step_isolated(2) [of j "flat_of ?w" x] that ws by (metis flat_length)
  have flat: "fl_stores (flat_of (world_step sha ?w x)) ! j = (if j = i then (new, True) else fl_stores (flat_of ?w) ! j)"
    if "j < length (w_stores ?w)" for j
    using flat_step_isolated(2) [of j "flat_of ?w" x] that ws keep x by (simp add: flat_length)
  have view: "contents (w_mem (world_step sha ?w x)) (s_data (w_stores (world_step sha ?w x) ! j)) =
      (if j = i then new else contents (w_mem ?w) (s_data (w_stores ?w ! j))) \<and>
      f_sealed (s_data (w_stores (world_step sha ?w x) ! j)) = (j \<noteq> i \<and> f_sealed (s_data (w_stores ?w ! j)))"
    if "j < length (w_stores ?w)" for j
    using flat [OF that] flat_store [OF that] flat_store [OF len [OF that]] by (auto split: if_splits)
  have other: "j \<noteq> i" if "m < next_node fs" "m \<noteq> n" "m_blocks (nodes fs m) = Some j" for m j
    using i(4) that n by (auto simp: storage_inv_def)
  have "node_bytes ?fs n = new" using view [OF il [OF n]] n(2) by (simp add: node_bytes_def the_store_def)
  moreover have "node_bytes ?fs m = node_bytes fs m" if "m < next_node fs" "m \<noteq> n" for m
    using view [OF il [OF that(1)]] other [OF that] by (auto simp: node_bytes_def the_store_def split: option.split)
  moreover have "shape_inv ?fs" using i(3) by (rule shape_cong) (simp_all add: child_def)
  moreover have "storage_inv ?fs" using i(4) ws len by (simp add: storage_inv_def)
  moreover have "unsealed ?fs" using i(2) il view by (auto simp: unsealed_def the_store_def)
  moreover have "own_sources ?fs"
    using ready il world_step_source [of _ ?w sha x] by (simp add: fs_ready_def own_sources_def the_store_def)
  moreover have "world_keys (world_step sha ?w x)" using ready by (simp add: fs_ready_def world_keys_step)
  ultimately show ?thesis by (simp add: content_change_def fs_ready_def fs_inv_def child_def)
qed

text \<open>A call on the bytes a node keeps itself.\<close>

lemma slice_change:
  assumes ready: "fs_ready fs" and n: "m_blocks (nodes fs n) = None" and ok: "used d \<le> length (arr d)"
  shows "content_change fs n (slice_bytes d) (update_node n (\<lambda>nd. nd\<lparr>m_data := d\<rparr>) fs)"
proof -
  let ?fs = "update_node n (\<lambda>nd. nd\<lparr>m_data := d\<rparr>) fs"
  have i: "unsealed fs" "shape_inv fs" "storage_inv fs" using ready by (simp_all add: fs_ready_def fs_inv_def)
  have nd: "nodes ?fs m = (if m = n then (nodes fs n)\<lparr>m_data := d\<rparr> else nodes fs m)" for m by (simp add: update_node_def)
  have "shape_inv ?fs" using i(2) by (rule shape_cong) (simp_all add: nd child_def)
  moreover have "storage_inv ?fs" using i(3) ok n by (auto simp: storage_inv_def nd)
  moreover have "unsealed ?fs" using i(1) by (simp add: unsealed_def nd the_store_def)
  moreover have "own_sources ?fs" "world_keys (disk ?fs)"
    using ready by (simp_all add: fs_ready_def own_sources_def nd the_store_def)
  ultimately show ?thesis
    using n by (auto simp: content_change_def fs_ready_def fs_inv_def child_def nd node_bytes_def the_store_def split: option.split)
qed

lemma touch_change: "content_change fs n new fs' \<Longrightarrow> content_change fs n new (touch m now fs')"
proof -
  assume c: "content_change fs n new fs'"
  let ?fs = "touch m now fs'"
  have st: "same_storage fs' ?fs" by (rule same_storage_edits)
  have ch: "child ?fs a k = child fs' a k" for a k by (simp add: touch_def child_def update_node_def)
  have sh: "shape_inv fs'" using c by (simp add: content_change_def ready_shape)
  have same: "m_parent (nodes ?fs a) = m_parent (nodes fs' a)" "m_name (nodes ?fs a) = m_name (nodes fs' a)"
    "m_dir (nodes ?fs a) = m_dir (nodes fs' a)" for a
    by (simp_all add: touch_def update_node_def)
  have "shape_inv ?fs" using sh by (rule shape_cong) (simp_all only: same ch, simp add: touch_def)
  then have "fs_ready ?fs" using c ready_edit [OF _ st] by (simp add: content_change_def)
  moreover have "node_bytes ?fs a = node_bytes fs' a" for a
    using st by (simp add: same_storage_def node_bytes_def the_store_def split: option.split)
  moreover have "next_node ?fs = next_node fs'" by (simp add: touch_def)
  ultimately show ?thesis using c unfolding content_change_def ch same(3) by simp
qed

lemma blocks_write_step:
  "i < length (w_stores (disk fs)) \<Longrightarrow>
     snd (blocks_write i p off fs) = fs\<lparr>disk := world_step (\<lambda>_. []) (disk fs) (WriteAt i p off)\<rparr>"
  by (simp add: blocks_write_def set_store_def the_store_def split: prod.split)

lemma blocks_resize_step:
  "i < length (w_stores (disk fs)) \<Longrightarrow>
     snd (blocks_resize i k fs) = fs\<lparr>disk := world_step (\<lambda>_. []) (disk fs) (ResizeTo i k)\<rparr>"
  by (simp add: blocks_resize_def set_store_def the_store_def split: prod.split)


section \<open>Slices\<close>

lemma length_slice_bytes: "used d \<le> length (arr d) \<Longrightarrow> length (slice_bytes d) = used d"
  by (simp add: slice_bytes_def)

lemma resize_mem_data_bytes:
  assumes "used d \<le> length (arr d)"
  shows "slice_bytes (resize_mem_data d n) = flat_resize (slice_bytes d) n \<and> used (resize_mem_data d n) = n \<and>
    n \<le> length (arr (resize_mem_data d n))"
proof (cases "n \<le> length (arr d)")
  case True
  show ?thesis
  proof (cases "used d < n")
    case b: True
    have "take n (take (used d) (arr d) @ replicate (n - used d) 0 @ drop n (arr d)) = take (used d) (arr d) @ replicate (n - used d) 0"
      using assms b by (simp add: min_def)
    then show ?thesis using True b assms
      by (simp add: resize_mem_data_def Let_def slice_bytes_def flat_resize_def)
  next
    case b: False
    then show ?thesis using True assms
      by (simp add: resize_mem_data_def Let_def slice_bytes_def flat_resize_def min_def)
  qed
next
  case False
  define growth where "growth = (if 1048576 \<le> length (arr d) then length (arr d) div 4 else length (arr d))"
  define grown where "grown = (if max_int - int (length (arr d)) < int growth then n
      else if length (arr d) + growth < n then n else length (arr d) + growth)"
  have r: "resize_mem_data d n = \<lparr>arr = slice_bytes d @ replicate (grown - used d) 0, used = n\<rparr>"
    using False by (simp add: resize_mem_data_def Let_def growth_def grown_def)
  have g: "n \<le> grown" by (simp add: grown_def)
  then show ?thesis
    using False assms unfolding r
    by (simp add: slice_bytes_def flat_resize_def min_def)
qed

lemma slice_write_bytes:
  assumes "used d \<le> length (arr d)" "p \<noteq> []"
  shows "slice_bytes (slice_write d p off) = flat_write (slice_bytes d) off p \<and>
    used (slice_write d p off) \<le> length (arr (slice_write d p off))"
proof -
  define e where "e = (if used d < off + length p then resize_mem_data d (off + length p) else d)"
  note r = resize_mem_data_bytes [OF assms(1), of "off + length p"]
  have w: "slice_write d p off = e\<lparr>arr := splice off p (arr e)\<rparr>" by (simp add: slice_write_def Let_def e_def)
  have e: "used e \<le> length (arr e)" "used e = max (used d) (off + length p)" using r assms by (simp_all add: e_def max_def)
  have eb: "slice_bytes e = flat_resize (slice_bytes d) (used e)"
    using r assms by (auto simp: e_def max_def flat_resize_def length_slice_bytes)
  have "slice_bytes (slice_write d p off) = flat_write (slice_bytes d) off p"
  proof (rule nth_equalityI)
    show l: "length (slice_bytes (slice_write d p off)) = length (flat_write (slice_bytes d) off p)"
      using e assms by (simp add: w slice_bytes_def length_flat_write)
    fix k assume "k < length (slice_bytes (slice_write d p off))"
    then have k: "k < used e" "k < length (flat_write (slice_bytes d) off p)"
      using e l by (simp_all add: w slice_bytes_def)
    have ka: "k < length (arr e)" using k(1) e(1) by simp
    have "arr e ! k = slice_bytes e ! k" using k(1) by (simp add: slice_bytes_def)
    also have "\<dots> = (if k < used d then slice_bytes d ! k else 0)"
      using k(1) assms(1) by (simp add: eb flat_resize_def nth_append length_slice_bytes)
    finally show "slice_bytes (slice_write d p off) ! k = flat_write (slice_bytes d) off p ! k"
      using k ka by (simp add: w slice_bytes_def [of "e\<lparr>arr := _\<rparr>"] nth_splice nth_flat_write length_slice_bytes [OF assms(1)])
  qed
  then show ?thesis using e by (simp add: w)
qed

end
