(* ===== verification/MemFiles.thy ===== *)
theory MemFiles
  imports MemRefine
begin

text \<open>
  Opening, creating and writing files of a \<open>MemFS\<close>: the rest of the simulation of the names, and the
  operations on open files as operations on flat files, in either kind of storage.
\<close>

section \<open>Storage of one node\<close>

lemma ready_storage: "fs_ready fs \<Longrightarrow> storage_inv fs"
  by (simp add: fs_ready_def fs_inv_def)

lemma node_store:
  assumes "fs_ready fs" "n < next_node fs" "m_blocks (nodes fs n) = Some i"
  shows "i < length (w_stores (disk fs))" "\<not> f_sealed (s_data (the_store fs i))"
    "fl_stores (flat_of (disk fs)) ! i = (node_bytes fs n, True)" "i < length (fl_stores (flat_of (disk fs)))"
proof -
  show i: "i < length (w_stores (disk fs))"
    using ready_storage [OF assms(1)] assms(2,3) by (simp add: storage_inv_def)
  show s: "\<not> f_sealed (s_data (the_store fs i))" using assms by (auto simp: fs_ready_def unsealed_def)
  show "i < length (fl_stores (flat_of (disk fs)))" using i by (simp add: flat_length)
  show "fl_stores (flat_of (disk fs)) ! i = (node_bytes fs n, True)"
    using flat_store [OF i] s assms(3) by (simp add: node_bytes_def the_store_def)
qed

lemma node_slice:
  assumes "fs_ready fs" "n < next_node fs"
  shows "used (m_data (nodes fs n)) \<le> length (arr (m_data (nodes fs n)))"
  using ready_storage [OF assms(1)] assms(2) by (simp add: storage_inv_def)

lemma storage_size_bytes:
  assumes "fs_ready fs" "n < next_node fs"
  shows "storage_size fs n = length (node_bytes fs n)"
  using node_slice [OF assms] by (simp add: storage_size_def node_bytes_def length_slice_bytes split: option.split)

text \<open>The three ways the bytes of a node change.\<close>

lemma blocks_write_change:
  assumes "fs_ready fs" "n < next_node fs" "m_blocks (nodes fs n) = Some i"
    and g: "0 \<le> off" "off + int (length p) \<le> max_int" "p \<noteq> []"
  shows "fst (blocks_write i p off fs) = (length p, None) \<and>
    content_change fs n (flat_write (node_bytes fs n) (nat off) p) (snd (blocks_write i p off fs))"
proof
  note s = node_store [OF assms(1-3)]
  show "fst (blocks_write i p off fs) = (length p, None)"
    using s(2) g by (simp add: blocks_write_def store_write_def Let_def split: prod.split)
  have "fl_stores (flat_step (flat_of (disk fs)) (WriteAt i p off)) ! i =
      (flat_write (node_bytes fs n) (nat off) p, True)"
    using s(3,4) g by simp
  then show "content_change fs n (flat_write (node_bytes fs n) (nat off) p) (snd (blocks_write i p off fs))"
    unfolding blocks_write_step [OF s(1)] by (intro store_change [OF assms(1-3)]) simp_all
qed

lemma blocks_resize_change:
  assumes "fs_ready fs" "n < next_node fs" "m_blocks (nodes fs n) = Some i" and g: "0 \<le> k" "k \<le> max_int"
  shows "fst (blocks_resize i k fs) = None \<and>
    content_change fs n (flat_resize (node_bytes fs n) (nat k)) (snd (blocks_resize i k fs))"
proof
  note s = node_store [OF assms(1-3)]
  show "fst (blocks_resize i k fs) = None"
    using s(2) g by (simp add: blocks_resize_def store_resize_def Let_def split: prod.split)
  have "fl_stores (flat_step (flat_of (disk fs)) (ResizeTo i k)) ! i = (flat_resize (node_bytes fs n) (nat k), True)"
    using s(3,4) g by simp
  then show "content_change fs n (flat_resize (node_bytes fs n) (nat k)) (snd (blocks_resize i k fs))"
    unfolding blocks_resize_step [OF s(1)] by (intro store_change [OF assms(1-3)]) simp_all
qed

lemma slice_update_change:
  assumes "fs_ready fs" "m_blocks (nodes fs n) = None" "used (f (m_data (nodes fs n))) \<le> length (arr (f (m_data (nodes fs n))))"
  shows "content_change fs n (slice_bytes (f (m_data (nodes fs n)))) (update_node n (\<lambda>x. x\<lparr>m_data := f (m_data x)\<rparr>) fs)"
proof -
  have "update_node n (\<lambda>x. x\<lparr>m_data := f (m_data x)\<rparr>) fs = update_node n (\<lambda>x. x\<lparr>m_data := f (m_data (nodes fs n))\<rparr>) fs"
    by (simp add: update_node_def)
  then show ?thesis using slice_change [OF assms] by simp
qed

lemma node_bytes_slice: "m_blocks (nodes fs n) = None \<Longrightarrow> node_bytes fs n = slice_bytes (m_data (nodes fs n))"
  by (simp add: node_bytes_def)

section \<open>Opening\<close>

lemma truncate_change:
  assumes "fs_ready fs" "n < next_node fs"
  shows "fst (truncate_node n now fs) = None \<and> content_change fs n [] (snd (truncate_node n now fs))"
proof (cases "m_blocks (nodes fs n)")
  case None
  have "content_change fs n (slice_bytes ((m_data (nodes fs n))\<lparr>used := 0\<rparr>))
      (update_node n (\<lambda>x. x\<lparr>m_data := (m_data x)\<lparr>used := 0\<rparr>\<rparr>) fs)"
    by (rule slice_update_change [OF assms(1) None]) simp
  then show ?thesis using None touch_change by (simp add: truncate_node_def slice_bytes_def)
next
  case (Some i)
  have "fst (blocks_resize i 0 fs) = None \<and> content_change fs n [] (snd (blocks_resize i 0 fs))"
    using blocks_resize_change [OF assms Some, of 0] by (simp add: max_int_def flat_resize_def)
  then show ?thesis using Some touch_change by (auto simp: truncate_node_def split: prod.splits option.splits)
qed

lemma open_sim:
  assumes "fs_ready fs"
  shows "sim (no_handle (open_file name flag perm now fs)) (spec_step (Open name flag perm) (tree_of fs))"
proof (cases "node_at fs (mem_split name)")
  case none: None
  note sh = ready_shape [OF assms]
  have look: "lookup fs name = Inl err_not_exist" "tree_of fs (mem_split name) = None"
    using none by (simp_all add: lookup_node [OF sh] tree_of_def)
  show ?thesis
  proof (cases "parent_error (tree_of fs) name")
    case (Some e)
    then show ?thesis using parent_found(1) [OF sh Some] look assms by (simp add: open_file_def no_handle_def)
  next
    case None
    obtain p pp b where l: "lookup_parent fs name = Inr (p, b)" "node_at fs pp = Some p" "mem_split name = pp @ [b]"
      "m_dir (nodes fs p)" "p < next_node fs" "proper b"
      using parent_found(2) [OF sh None] by blast
    obtain n fs1 where al: "alloc_node (file_node p b perm now) fs = (n, fs1)" by (metis surj_pair)
    have "n \<noteq> p" using al l(5) by (auto simp: alloc_node_def)
    then show ?thesis
      using link_leaf [OF assms l(2,4,6) _ _ _ _ _ al] look l None al assms
      by (simp add: open_file_def no_handle_def enroll_set_child sim_def Let_def)
  qed
next
  case (Some n)
  note sh = ready_shape [OF assms]
  have look: "lookup fs name = Inr n" "tree_of fs (mem_split name) = Some (entry_of fs n)"
    using Some by (simp_all add: lookup_node [OF sh] tree_of_def)
  show ?thesis
  proof (cases "o_trunc flag \<and> \<not> m_dir (nodes fs n)")
    case True
    note t = truncate_change [OF assms node_at_bound [OF sh Some], of now]
    have c: "content_change fs n [] (snd (truncate_node n now fs))" using t by blast
    then have "tree_of (snd (truncate_node n now fs)) = put_entry (mem_split name) (Some (EFile [])) (tree_of fs)"
      "fs_ready (snd (truncate_node n now fs))"
      using content_change_put [OF c sh _ Some] True by (simp_all add: content_change_def)
    then show ?thesis using t look True assms
      by (auto simp: open_file_def no_handle_def sim_def entry_of_def split: prod.splits option.splits)
  next
    case False
    then show ?thesis using look assms by (auto simp: open_file_def no_handle_def entry_of_def)
  qed
qed

section \<open>Writing whole files\<close>

lemma last_join_path: "\<forall>c\<in>set cs. proper c \<Longrightarrow> cs \<noteq> [] \<Longrightarrow> last (join_path cs) \<noteq> CHR ''/'' \<and> join_path cs \<noteq> []"
proof (induction cs rule: join_path.induct)
  case (2 c)
  then have "proper c" by simp
  then show ?case using last_in_set [of c] by (metis join_path.simps(2) proper_def)
qed auto

lemma mem_split_join:
  assumes "\<forall>c\<in>set cs. proper c"
  shows "mem_split (join_path cs) = cs"
proof (cases "cs = []")
  case True
  then show ?thesis by (simp add: mem_split_def trim_slashes_def)
next
  case False
  let ?j = "join_path cs"
  have keep: "dropWhile (\<lambda>c. c = CHR ''/'') s = s" if "s \<noteq> []" "hd s \<noteq> CHR ''/''" for s using that by (cases s) simp_all
  have h: "hd ?j \<noteq> CHR ''/''" "?j \<noteq> []"
    using join_path_not_rooted [OF assms False] by (cases ?j, auto simp: has_prefix_def)
  moreover have "hd (rev ?j) \<noteq> CHR ''/''" using last_join_path [OF assms False] by (simp add: hd_rev)
  ultimately have "trim_slashes ?j = ?j" by (simp add: trim_slashes_def keep)
  moreover have "foldl split_step out ps = out @ ps" if "\<forall>p\<in>set ps. proper p" for out ps
    using that by (induction ps arbitrary: out) (simp_all add: split_step_def proper_def)
  ultimately show ?thesis using h(2) split_rel [OF assms False] assms by (simp add: mem_split_def)
qed

lemma spec_mkdirs_made:
  "spec_mkdirs name p ks t = (None, t') \<Longrightarrow> t p = Some EDir \<Longrightarrow> t' (p @ ks) = Some EDir"
proof (induction ks arbitrary: p t)
  case (Cons k ks)
  show ?case
  proof (cases "t (p @ [k])")
    case None
    then have "spec_mkdirs name (p @ [k]) ks (put_entry (p @ [k]) (Some EDir) t) = (None, t')" using Cons.prems(1) by simp
    from Cons.IH [OF this] show ?thesis by (simp add: put_entry_def)
  next
    case (Some x)
    then have "x = EDir" "spec_mkdirs name (p @ [k]) ks t = (None, t')"
      using Cons.prems(1) by (auto split: tree_entry.splits)
    then show ?thesis using Cons.IH [of "p @ [k]" t] Some by simp
  qed
qed simp

lemma blocks_write_set_child:
  "blocks_write i p off (set_child a b c fs) = (fst (blocks_write i p off fs), set_child a b c (snd (blocks_write i p off fs)))"
  by (simp add: blocks_write_def set_store_def the_store_def set_child_def update_node_def split: prod.split)

lemma put_entry_twice: "put_entry p e (put_entry p e' t) = put_entry p e t"
  by (auto simp: put_entry_def)

text \<open>A file that is created whole: linked empty, then filled, in the order that reads best.\<close>

lemma fill_new_file:
  assumes "fs_ready fs" "node_at fs pp = Some p" "m_dir (nodes fs p)" "p < next_node fs" "proper b" "int (length data) \<le> max_int"
    and al: "alloc_node (file_node p b perm now) fs = (n, fs1)"
  shows "case m_blocks (nodes (enroll n fs1) n) of
      Some i \<Rightarrow> snd (fst (blocks_write i data 0 (enroll n fs1))) = None \<and>
        fs_ready (set_child p b n (snd (blocks_write i data 0 (enroll n fs1)))) \<and>
        tree_of (set_child p b n (snd (blocks_write i data 0 (enroll n fs1)))) = put_entry (pp @ [b]) (Some (EFile data)) (tree_of fs)
    | None \<Rightarrow>
        (let fs3 = set_child p b n (update_node n (\<lambda>nd. nd\<lparr>m_data := \<lparr>arr = data @ replicate spare 0, used = length data\<rparr>\<rparr>) (enroll n fs1))
         in fs_ready fs3 \<and> tree_of fs3 = put_entry (pp @ [b]) (Some (EFile data)) (tree_of fs))"
proof -
  let ?f = "set_child p b n (enroll n fs1)"
  have np: "n \<noteq> p" using al assms(4) by (auto simp: alloc_node_def)
  have link: "fs_ready ?f" "tree_of ?f = put_entry (pp @ [b]) (Some (EFile [])) (tree_of fs)" "node_at ?f (pp @ [b]) = Some n"
    using link_leaf [OF assms(1-3,5) _ _ _ _ _ al] by simp_all
  note sh = ready_shape [OF link(1)]
  have n: "n < next_node ?f" by (rule node_at_bound [OF sh link(3)])
  have ent: "entry_of ?f n = EFile []"
    using fun_cong [OF link(2), of "pp @ [b]"] link(3) by (simp add: tree_of_def put_entry_def)
  then have leaf: "\<not> m_dir (nodes ?f n)" "node_bytes ?f n = []" by (auto simp: entry_of_def split: if_splits)
  have done_by: "fs_ready fs' \<and> tree_of fs' = put_entry (pp @ [b]) (Some (EFile data)) (tree_of fs)"
    if c: "content_change ?f n data fs'" for fs'
    using content_change_put [OF c sh leaf(1) link(3)] c link(2) by (simp add: put_entry_twice content_change_def)
  have same: "nodes ?f n = nodes (enroll n fs1) n" using np by (simp add: nodes_set_child)
  show ?thesis
  proof (cases "m_blocks (nodes (enroll n fs1) n)")
    case None
    have "content_change ?f n data (update_node n (\<lambda>nd. nd\<lparr>m_data := \<lparr>arr = data @ replicate spare 0, used = length data\<rparr>\<rparr>) ?f)"
      using slice_change [OF link(1), of n "\<lparr>arr = data @ replicate spare 0, used = length data\<rparr>"] None same
      by (simp add: slice_bytes_def)
    moreover have "update_node n g ?f = set_child p b n (update_node n g (enroll n fs1))" for g
      using np by (simp add: set_child_def update_node_def fun_upd_twist)
    ultimately show ?thesis using None done_by by simp
  next
    case (Some i)
    then have i: "m_blocks (nodes ?f n) = Some i" using same by simp
    let ?w = "blocks_write i data 0 ?f"
    have "snd (fst ?w) = None \<and> content_change ?f n data (snd ?w)"
    proof (cases "data = []")
      case True
      have "snd (fst ?w) = None" using node_store(2) [OF link(1) n i] True
        by (simp add: blocks_write_def store_write_def max_int_def)
      moreover have "content_change ?f n [] (snd ?w)"
        unfolding blocks_write_step [OF node_store(1) [OF link(1) n i]] using node_store [OF link(1) n i] leaf(2) True
        by (intro store_change [OF link(1) n i]) simp_all
      ultimately show ?thesis using True by simp
    next
      case False
      then show ?thesis
        using blocks_write_change [OF link(1) n i, of 0 data] assms(6) leaf(2) by (simp add: flat_write_def)
    qed
    then show ?thesis using Some done_by by (simp add: blocks_write_set_child)
  qed
qed

lemma write_file_sim:
  assumes ready: "fs_ready fs" and len: "int (length data) \<le> max_int"
  shows "sim (write_file spare name data perm now fs) (spec_step (WriteFile spare name data perm) (tree_of fs))"
proof -
  let ?parts = "mem_split name"
  let ?mk = "if 1 < length ?parts then mkdir_all (join_path (butlast ?parts)) 493 now fs else (None, fs)"
  have pr: "\<forall>c\<in>set (butlast ?parts). proper c" using mem_split_proper in_set_butlastD by fastforce
  have "sim ?mk (spec_mkdirs (join_path (butlast ?parts)) [] (butlast ?parts) (tree_of fs))"
  proof (cases "1 < length ?parts")
    case True
    then show ?thesis
      using mkdir_all_sim [OF ready, of "join_path (butlast ?parts)" 493 now] by (simp add: mem_split_join [OF pr])
  next
    case False
    then have "length (butlast ?parts) = 0" by simp
    then have "butlast ?parts = []" by blast
    then show ?thesis using False ready by simp
  qed
  moreover obtain e fs0 where mk: "?mk = (e, fs0)" by (metis surj_pair)
  ultimately have s: "spec_mkdirs (join_path (butlast ?parts)) [] (butlast ?parts) (tree_of fs) = (e, tree_of fs0)" "fs_ready fs0"
    by (auto simp: sim_def prod_eq_iff)
  show ?thesis
  proof (cases e)
    case (Some x)
    then show ?thesis using s mk by (simp add: write_file_def Let_def)
  next
    case None
    note sh = ready_shape [OF s(2)]
    have dir: "tree_of fs0 (butlast ?parts) = Some EDir"
      using spec_mkdirs_made [OF s(1) [unfolded None]] tree_root [OF ready_shape [OF ready]] by simp
    show ?thesis
    proof (cases "?parts = []")
      case True
      then show ?thesis using s mk None by (simp add: write_file_def lookup_parent_def)
    next
      case False
      then have "parent_error (tree_of fs0) name = None" using dir by (simp add: parent_error_def)
      then obtain p pp b where l: "lookup_parent fs0 name = Inr (p, b)" "node_at fs0 pp = Some p" "?parts = pp @ [b]"
        "m_dir (nodes fs0 p)" "p < next_node fs0" "proper b"
        using parent_found(2) [OF sh] by blast
      obtain n fs1 where al: "alloc_node (file_node p b perm now) fs0 = (n, fs1)" by (metis surj_pair)
      note fill = fill_new_file [OF s(2) l(2,4,5,6) len al, of spare]
      have spec: "spec_step (WriteFile spare name data perm) (tree_of fs) = (None, put_entry (pp @ [b]) (Some (EFile data)) (tree_of fs0))"
        using s(1) None False l(3) by simp
      show ?thesis
        unfolding spec using fill mk None l(1) al
        by (auto simp: write_file_def Let_def sim_def split: option.splits prod.splits)
    qed
  qed
qed

end
