(* ===== verification/MemSnapshot.thy ===== *)
theory MemSnapshot
  imports MemFiles
begin

text \<open>
  Freezing a \<open>MemFS\<close> and restoring it into another (\<open>heap_snapshot.go\<close>, \<open>owned_prepared.go\<close>,
  \<open>prepared_files.go\<close> of the generated runtime's base). The recursive walk of the code is a work list,
  the paths still to visit, in the order of the recursion; a walk that does not end is \<open>None\<close>. The
  mappings and descriptors of the host are arguments: what \<open>Mmap\<close> returns for an entry, and what
  \<open>Munmap\<close> answers.
\<close>

definition err_unsealed_storage :: goerr where
  "err_unsealed_storage = Sentinel ''snapshot requires unsealed block storage''"

definition sorted_children :: "mem_fs \<Rightarrow> nat \<Rightarrow> string \<Rightarrow> (nat \<times> string) list" where
  "sorted_children fs n name =
     map (\<lambda>k. (the (child fs n k), path_join name k)) (child_names (nodes fs n))"

text \<open>Sealing a node's store; the file it yields is registered with the world.\<close>

definition seal_blocks :: "(bytes \<Rightarrow> string) \<Rightarrow> nat \<Rightarrow> mem_fs \<Rightarrow> (goerr + frozen) \<times> mem_fs" where
  "seal_blocks sha i fs =
     (case store_seal sha (w_mem (disk fs)) (the_store fs i) of
        (Inl e, m, s) \<Rightarrow> (Inl e, set_store i m s fs)
      | (Inr z, m, s) \<Rightarrow>
          let fs' = set_store i m s fs in
          (Inr z, fs'\<lparr>disk := (disk fs')\<lparr>w_frozen := w_frozen (disk fs') @ [z]\<rparr>\<rparr>))"

definition source_of :: "mem_fs \<Rightarrow> nat option" where
  "source_of fs = (if block_storage fs then Some (root_source fs) else None)"

section \<open>Freezing\<close>

partial_function (option) freeze_walk ::
  "(bytes \<Rightarrow> string) \<Rightarrow> (nat \<times> string) list \<Rightarrow> string list \<Rightarrow> (string \<times> frozen option) list \<Rightarrow> mem_fs
     \<Rightarrow> ((goerr + string list \<times> (string \<times> frozen option) list) \<times> mem_fs) option" where
  "freeze_walk sha work dirs files fs =
     (case work of
        [] \<Rightarrow> Some (Inr (dirs, files), fs)
      | (n, name) # rest \<Rightarrow>
          if m_dir (nodes fs n) then freeze_walk sha (sorted_children fs n name @ rest) (dirs @ [name]) files fs
          else case m_blocks (nodes fs n) of
            None \<Rightarrow> Some (Inl err_unsealed_storage, fs)
          | Some i \<Rightarrow>
              (case seal_blocks sha i fs of
                 (Inl e, fs') \<Rightarrow> Some (Inl e, fs')
               | (Inr z, fs') \<Rightarrow> freeze_walk sha rest dirs (AList.update name (Some z) files) fs'))"

definition freeze_root :: "(bytes \<Rightarrow> string) \<Rightarrow> string \<Rightarrow> capture \<Rightarrow> mem_fs \<Rightarrow> (goerr option \<times> capture \<times> mem_fs) option" where
  "freeze_root sha build c fs =
     (case lookup fs ''mariadb'' of
        Inl e \<Rightarrow> Some (Some e, c, fs)
      | Inr n \<Rightarrow>
          (case freeze_walk sha [(n, ''.'')] [] [] fs of
             None \<Rightarrow> None
           | Some (Inl e, fs') \<Rightarrow> Some (Some e, c, fs')
           | Some (Inr (dirs, files), fs') \<Rightarrow>
               (case complete_root (w_mem (disk fs')) (source_of fs') build dirs files c of
                  (e, c') \<Rightarrow> Some (e, c', fs'))))"

text \<open>The legacy adapter: sealed storage is refused, and every file is converted at once.\<close>

partial_function (option) freeze_heap_walk ::
  "(bytes \<Rightarrow> string) \<Rightarrow> (nat \<times> string) list \<Rightarrow> string list \<Rightarrow> (string \<times> heap_file option) list \<Rightarrow> mem_fs
     \<Rightarrow> ((goerr + string list \<times> (string \<times> heap_file option) list) \<times> mem_fs) option" where
  "freeze_heap_walk sha work dirs files fs =
     (case work of
        [] \<Rightarrow> Some (Inr (dirs, files), fs)
      | (n, name) # rest \<Rightarrow>
          if m_dir (nodes fs n) then freeze_heap_walk sha (sorted_children fs n name @ rest) (dirs @ [name]) files fs
          else case m_blocks (nodes fs n) of
            None \<Rightarrow> Some (Inl err_unsealed_storage, fs)
          | Some i \<Rightarrow>
              if f_sealed (s_data (the_store fs i)) then Some (Inl err_unsealed_storage, fs)
              else (case seal_blocks sha i fs of
                 (Inl e, fs') \<Rightarrow> Some (Inl e, fs')
               | (Inr z, fs') \<Rightarrow>
                   (case legacy_file sha (w_mem (disk fs')) z of
                      Inl e \<Rightarrow> Some (Inl e, fs')
                    | Inr f \<Rightarrow> freeze_heap_walk sha rest dirs (AList.update name (Some f) files) fs')))"

definition freeze_heap ::
  "(bytes \<Rightarrow> string) \<Rightarrow> string \<Rightarrow> (heap \<Rightarrow> goerr + heap) option \<Rightarrow> mem_fs \<Rightarrow> ((goerr + heap) \<times> mem_fs) option" where
  "freeze_heap sha build before_verify fs =
     (case lookup fs ''mariadb'' of
        Inl e \<Rightarrow> Some (Inl e, fs)
      | Inr n \<Rightarrow>
          (case freeze_heap_walk sha [(n, ''.'')] [] [] fs of
             None \<Rightarrow> None
           | Some (Inl e, fs') \<Rightarrow> Some (Inl e, fs')
           | Some (Inr (dirs, files), fs') \<Rightarrow>
               Some (case new_heap build dirs files of
                   Inl e \<Rightarrow> Inl e
                 | Inr h \<Rightarrow>
                     (case (case before_verify of None \<Rightarrow> Inr h | Some f \<Rightarrow> f h) of
                        Inl e \<Rightarrow> Inl e
                      | Inr h' \<Rightarrow>
                          (case heap_verify sha (w_mem (disk fs')) (Some h') build of
                             Some e \<Rightarrow> Inl e
                           | None \<Rightarrow> Inr h')), fs')))"

section \<open>Restoring\<close>

definition create_flags :: open_flags where
  "create_flags = \<lparr>o_wronly = False, o_rdwr = True, o_create = True, o_excl = True, o_trunc = False, o_append = False\<rparr>"

text \<open>\<open>MkdirAll\<close> of every directory, with mode \<open>0700\<close>, up to the first error.\<close>

fun make_dirs :: "string \<Rightarrow> int \<Rightarrow> string list \<Rightarrow> mem_fs \<Rightarrow> goerr option \<times> mem_fs" where
  "make_dirs pre now [] fs = (None, fs)"
| "make_dirs pre now (d # ds) fs =
     (case mkdir_all (path_join pre d) 448 now fs of
        (Some e, fs') \<Rightarrow> (Some e, fs')
      | (None, fs') \<Rightarrow> make_dirs pre now ds fs')"

text \<open>A fresh file at \<open>dst\<close>: created exclusively with mode \<open>0600\<close>, closed, looked up again.\<close>

definition fresh_file :: "string \<Rightarrow> int \<Rightarrow> mem_fs \<Rightarrow> (goerr + nat) \<times> mem_fs" where
  "fresh_file dst now fs =
     (case open_file dst create_flags 384 now fs of
        (Inl e, fs') \<Rightarrow> (Inl e, fs')
      | (Inr h, fs') \<Rightarrow> (lookup fs' dst, fs'))"

text \<open>Giving a node a store that exists already.\<close>

definition attach_store :: "nat \<Rightarrow> store \<Rightarrow> mem_fs \<Rightarrow> mem_fs" where
  "attach_store n s fs =
     (update_node n (\<lambda>nd. nd\<lparr>m_blocks := Some (length (w_stores (disk fs)))\<rparr>) fs)
       \<lparr>disk := (disk fs)\<lparr>w_stores := w_stores (disk fs) @ [s]\<rparr>\<rparr>"

fun map_root_files :: "root \<Rightarrow> string \<Rightarrow> int \<Rightarrow> string list \<Rightarrow> mem_fs \<Rightarrow> goerr option \<times> mem_fs" where
  "map_root_files r pre now [] fs = (None, fs)"
| "map_root_files r pre now (k # ks) fs =
     (case fresh_file (path_join pre k) now fs of
        (Inl e, fs1) \<Rightarrow> (Some e, fs1)
      | (Inr n, fs1) \<Rightarrow>
          map_root_files r pre now ks
            (attach_store n (frozen_fork (root_source fs1) (the (map_of (r_files r) k))) fs1))"

definition map_root :: "root \<Rightarrow> string \<Rightarrow> int \<Rightarrow> mem_fs \<Rightarrow> goerr option \<times> mem_fs" where
  "map_root r pre now fs =
     (if \<not> block_storage fs then (Some (Sentinel ''root requires block storage''), fs)
      else case root_check (w_mem (disk fs)) r (r_build r) of
        Some e \<Rightarrow> (Some e, fs)
      | None \<Rightarrow>
          (case make_dirs pre now (r_dirs r) fs of
             (Some e, fs') \<Rightarrow> (Some e, fs')
           | (None, fs') \<Rightarrow> map_root_files r pre now (sorted_names (r_files r)) fs'))"

fun map_heap_files :: "(bytes \<Rightarrow> string) \<Rightarrow> heap \<Rightarrow> string \<Rightarrow> int \<Rightarrow> string list \<Rightarrow> mem_fs \<Rightarrow> goerr option \<times> mem_fs" where
  "map_heap_files sha h pre now [] fs = (None, fs)"
| "map_heap_files sha h pre now (k # ks) fs =
     (case fresh_file (path_join pre k) now fs of
        (Inl e, fs1) \<Rightarrow> (Some e, fs1)
      | (Inr n, fs1) \<Rightarrow>
          (case store_from_heap sha (w_mem (disk fs1)) (root_source fs1) (the (the (map_of (hp_files h) k))) of
             (Inl e, m) \<Rightarrow> (Some e, fs1\<lparr>disk := (disk fs1)\<lparr>w_mem := m\<rparr>\<rparr>)
           | (Inr s, m) \<Rightarrow> map_heap_files sha h pre now ks (attach_store n s (fs1\<lparr>disk := (disk fs1)\<lparr>w_mem := m\<rparr>\<rparr>))))"

definition map_heap :: "(bytes \<Rightarrow> string) \<Rightarrow> heap \<Rightarrow> string \<Rightarrow> int \<Rightarrow> mem_fs \<Rightarrow> goerr option \<times> mem_fs" where
  "map_heap sha h pre now fs =
     (if \<not> block_storage fs then (Some (Sentinel ''heap requires block storage''), fs)
      else case heap_check (Some h) (hp_build h) of
        Some e \<Rightarrow> (Some e, fs)
      | None \<Rightarrow>
          (case make_dirs pre now (hp_dirs h) fs of
             (Some e, fs') \<Rightarrow> (Some e, fs')
           | (None, fs') \<Rightarrow> map_heap_files sha h pre now (sorted_names (hp_files h)) fs'))"

section \<open>Mapped files\<close>

text \<open>
  The mappings a restore keeps open, and their release: every \<open>Munmap\<close> runs, its errors are joined
  pairwise, and the list is empty afterwards. \<open>None\<close> is the nil receiver.
\<close>

record prepared_files =
  pf_mappings :: "bytes list"

definition close_prepared :: "(bytes \<Rightarrow> goerr option) \<Rightarrow> prepared_files option \<Rightarrow> goerr option \<times> prepared_files option" where
  "close_prepared munmap p =
     (case p of
        None \<Rightarrow> (None, None)
      | Some q \<Rightarrow> (foldl (\<lambda>r d. err_join [r, munmap d]) None (pf_mappings q), Some (q\<lparr>pf_mappings := []\<rparr>)))"

record prepared_entry =
  e_name :: string
  e_directory :: bool
  e_fd :: int
  e_size :: int
  e_root :: "root option"
  e_heap :: "heap option"

text \<open>
  One entry of \<open>MapPreparedHandles\<close>. \<open>mmap fd size\<close> answers the mapping of the first \<open>size\<close> bytes of a
  descriptor. \<open>filepath.Join\<close> is \<open>path.Join\<close> on the hosts the program supports.
\<close>

definition map_entry ::
  "(int \<Rightarrow> int \<Rightarrow> goerr + bytes) \<Rightarrow> string \<Rightarrow> int \<Rightarrow> prepared_entry \<Rightarrow> prepared_files \<Rightarrow> mem_fs
     \<Rightarrow> goerr option \<times> prepared_files \<times> mem_fs" where
  "map_entry mmap pre now e p fs =
     (let dest = path_join pre (e_name e) in
      if e_directory e then (case mkdir_all dest 448 now fs of (r, fs') \<Rightarrow> (r, p, fs'))
      else if e_fd e < 0 \<or> e_size e < 0 then (Some (Sentinel ''invalid prepared handle''), p, fs)
      else
        case (if 0 < e_size e
              then (case mmap (e_fd e) (e_size e) of
                  Inl x \<Rightarrow> Inl x
                | Inr data \<Rightarrow> Inr (data, p\<lparr>pf_mappings := pf_mappings p @ [data]\<rparr>))
              else Inr ([], p)) of
          Inl x \<Rightarrow> (Some x, p, fs)
        | Inr (data, p') \<Rightarrow>
            (case fresh_file dest now fs of
               (Inl x, fs1) \<Rightarrow> (Some x, p', fs1)
             | (Inr n, fs1) \<Rightarrow>
                 if block_storage fs1
                 then (case borrow_mapping data (new_file_store (root_source fs1)) of (x, s) \<Rightarrow> (x, p', attach_store n s fs1))
                 else (None, p', update_node n (\<lambda>nd. nd\<lparr>m_data := \<lparr>arr = data, used = length data\<rparr>\<rparr>) fs1)))"

fun map_entries ::
  "(int \<Rightarrow> int \<Rightarrow> goerr + bytes) \<Rightarrow> string \<Rightarrow> int \<Rightarrow> prepared_entry list \<Rightarrow> prepared_files \<Rightarrow> mem_fs
     \<Rightarrow> goerr option \<times> prepared_files \<times> mem_fs" where
  "map_entries mmap pre now [] p fs = (None, p, fs)"
| "map_entries mmap pre now (e # es) p fs =
     (case map_entry mmap pre now e p fs of
        (Some x, p', fs') \<Rightarrow> (Some x, p', fs')
      | (None, p', fs') \<Rightarrow> map_entries mmap pre now es p' fs')"

text \<open>
  \<open>MapPreparedHandles\<close>: a root or heap alone, or descriptors; after an error of the latter the mappings
  made so far are released and the errors joined. The mappings it returns are part of the result.
\<close>

definition map_prepared_handles ::
  "(bytes \<Rightarrow> string) \<Rightarrow> (int \<Rightarrow> int \<Rightarrow> goerr + bytes) \<Rightarrow> (bytes \<Rightarrow> goerr option) \<Rightarrow> prepared_entry list \<Rightarrow> string \<Rightarrow> int \<Rightarrow> mem_fs
     \<Rightarrow> (goerr + prepared_files) \<times> mem_fs" where
  "map_prepared_handles sha mmap munmap es pre now fs =
     (let whole = (\<lambda>r. case r of (Some x, fs') \<Rightarrow> (Inl x, fs') | (None, fs') \<Rightarrow> (Inr \<lparr>pf_mappings = []\<rparr>, fs'));
          handles = (case map_entries mmap pre now es \<lparr>pf_mappings = []\<rparr> fs of
              (Some x, p, fs') \<Rightarrow> (Inl (the (err_join [Some x, fst (close_prepared munmap (Some p))])), fs')
            | (None, p, fs') \<Rightarrow> (Inr p, fs')) in
      case es of
        [e] \<Rightarrow>
          (case e_root e of
             Some r \<Rightarrow> whole (map_root r pre now fs)
           | None \<Rightarrow>
               (case e_heap e of
                  Some h \<Rightarrow> whole (map_heap sha h pre now fs)
                | None \<Rightarrow> handles))
      | _ \<Rightarrow> handles)"

text \<open>
  \<open>MapPreparedFiles\<close>: the entries \<open>WalkDir\<close> reports, as values. An entry has its path relative to the
  directory, or the error of reporting it; a regular file has what opening and mapping it gives.
\<close>

datatype walk_entry =
    WalkError goerr
  | WalkDir string
  | WalkOther string
  | WalkOpenError string goerr
  | WalkFile string bool int "goerr + bytes"

definition map_walk_entry :: "string \<Rightarrow> int \<Rightarrow> walk_entry \<Rightarrow> prepared_files \<Rightarrow> mem_fs \<Rightarrow> (goerr option \<times> prepared_files \<times> mem_fs) option" where
  "map_walk_entry pre now e p fs =
     (case e of
        WalkError x \<Rightarrow> Some (Some x, p, fs)
      | WalkDir rel \<Rightarrow> Some (case mkdir_all (path_join pre rel) 448 now fs of (r, fs') \<Rightarrow> (r, p, fs'))
      | WalkOther rel \<Rightarrow> Some (Some (Sentinel (''unsupported prepared entry: '' @ rel)), p, fs)
      | WalkOpenError rel x \<Rightarrow> Some (Some x, p, fs)
      | WalkFile rel regular sz mapped \<Rightarrow>
          if \<not> regular \<or> sz < 0 then Some (Some (Sentinel (''invalid prepared file: '' @ rel)), p, fs)
          else
            (case (if 0 < sz
                  then (case mapped of Inl x \<Rightarrow> Inl x | Inr data \<Rightarrow> Inr (data, p\<lparr>pf_mappings := pf_mappings p @ [data]\<rparr>))
                  else Inr ([], p)) of
               Inl x \<Rightarrow> Some (Some x, p, fs)
             | Inr (data, p') \<Rightarrow>
                 (case fresh_file (path_join pre rel) now fs of
                    (Inl x, fs1) \<Rightarrow> Some (Some x, p', fs1)
                  | (Inr n, fs1) \<Rightarrow> map_option (\<lambda>fs2. (None, p', fs2)) (install_mapped_storage n data fs1))))"

fun map_walk :: "string \<Rightarrow> int \<Rightarrow> walk_entry list \<Rightarrow> prepared_files \<Rightarrow> mem_fs \<Rightarrow> (goerr option \<times> prepared_files \<times> mem_fs) option" where
  "map_walk pre now [] p fs = Some (None, p, fs)"
| "map_walk pre now (e # es) p fs =
     (case map_walk_entry pre now e p fs of
        None \<Rightarrow> None
      | Some (Some x, p', fs') \<Rightarrow> Some (Some x, p', fs')
      | Some (None, p', fs') \<Rightarrow> map_walk pre now es p' fs')"

definition map_prepared_files ::
  "(bytes \<Rightarrow> goerr option) \<Rightarrow> walk_entry list \<Rightarrow> string \<Rightarrow> int \<Rightarrow> mem_fs \<Rightarrow> ((goerr + prepared_files) \<times> mem_fs) option" where
  "map_prepared_files munmap es pre now fs =
     map_option (\<lambda>(e, p, fs').
         (case e of
            Some x \<Rightarrow> Inl (the (err_join [Some x, fst (close_prepared munmap (Some p))]))
          | None \<Rightarrow> Inr p, fs'))
       (map_walk pre now es \<lparr>pf_mappings = []\<rparr> fs)"

end
