(* ===== verification/MemFreeze.thy ===== *)
theory MemFreeze
  imports MemSnapshot
begin

text \<open>
  What freezing a \<open>MemFS\<close> yields: the walk ends, lists every directory and seals every file below the
  data directory, with the contents the tree shows, and changes nothing a reader sees.
\<close>

section \<open>Sealing one file\<close>

text \<open>What a seal leaves as it is.\<close>

definition same_view :: "mem_fs \<Rightarrow> mem_fs \<Rightarrow> bool" where
  "same_view fs fs' \<longleftrightarrow> nodes fs' = nodes fs \<and> next_node fs' = next_node fs \<and> block_storage fs' = block_storage fs \<and>
     root_source fs' = root_source fs \<and> fs_inv fs' \<and> own_sources fs' \<and> world_keys (disk fs') \<and>
     (\<forall>m<next_node fs. node_bytes fs' m = node_bytes fs m) \<and>
     (\<forall>z\<in>set (w_frozen (disk fs)). z \<in> set (w_frozen (disk fs')) \<and>
        contents (w_mem (disk fs')) (z_data z) = contents (w_mem (disk fs)) (z_data z))"

lemma same_view_refl: "fs_inv fs \<Longrightarrow> own_sources fs \<Longrightarrow> world_keys (disk fs) \<Longrightarrow> same_view fs fs"
  by (simp add: same_view_def)

lemma same_view_trans: "same_view a b \<Longrightarrow> same_view b c \<Longrightarrow> same_view a c"
  by (simp add: same_view_def)

lemma same_view_child: "same_view fs fs' \<Longrightarrow> child fs' n k = child fs n k"
  by (simp add: same_view_def child_def)

lemma same_view_node: "same_view fs fs' \<Longrightarrow> node_at fs' p = node_at fs p"
  by (rule node_at_cong) (rule same_view_child)

lemma same_view_tree: "same_view fs fs' \<Longrightarrow> fs_inv fs \<Longrightarrow> tree_of fs' = tree_of fs"
proof
  fix p
  assume v: "same_view fs fs'" and i: "fs_inv fs"
  show "tree_of fs' p = tree_of fs p"
    using same_view_node [OF v, of p] node_at_bound [of fs p] v i
    by (cases "node_at fs p") (simp_all add: tree_of_def entry_of_def same_view_def fs_inv_def)
qed

lemma seal_spec:
  assumes inv: "fs_inv fs" and src: "own_sources fs" and keys: "world_keys (disk fs)" and n: "n < next_node fs" "m_blocks (nodes fs n) = Some i"
    and open_store: "\<not> f_sealed (s_data (the_store fs i))"
  shows "\<exists>z fs'. seal_blocks sha i fs = (Inr z, fs') \<and> same_view fs fs' \<and> z \<in> set (w_frozen (disk fs')) \<and>
    z_source z = root_source fs \<and> contents (w_mem (disk fs')) (z_data z) = node_bytes fs n \<and>
    (\<forall>j. j \<noteq> i \<longrightarrow> the_store fs' j = the_store fs j)"
proof -
  let ?w = "disk fs" and ?s = "the_store fs i"
  have st: "storage_inv fs" and sh: "shape_inv fs" using inv by (simp_all add: fs_inv_def)
  then have w: "world_inv ?w" by (simp add: storage_inv_def)
  have i: "i < length (w_stores ?w)" using st n by (simp add: storage_inv_def)
  have si: "store_inv (w_mem ?w) ?s" "limit_ok ?s" using w i by (simp_all add: world_inv_def the_store_def)
  obtain z m s where r: "store_seal sha (w_mem ?w) ?s = (Inr z, m, s)" "z_source z = s_source ?s" "s_data s = z_data z"
    "contents m (z_data z) = contents (w_mem ?w) (s_data ?s)"
    using store_seal_spec [OF si(1) open_store si(2), of sha] by blast
  have ss: "s_source s = s_source ?s" using r(1) by (auto simp: store_seal_def Let_def split: if_splits prod.splits option.splits)
  let ?w' = "?w\<lparr>w_mem := m, w_stores := (w_stores ?w)[i := s], w_frozen := w_frozen ?w @ [z]\<rparr>"
  let ?fs = "fs\<lparr>disk := ?w'\<rparr>"
  have seal: "seal_blocks sha i fs = (Inr z, ?fs)" using r(1) by (simp add: seal_blocks_def set_store_def Let_def)
  have step: "?w' = world_step sha ?w (SealIt i)" using r(1) i by (simp add: the_store_def)
  note ws = world_step_inv [OF w, of sha "SealIt i", folded step]
  have fl: "flat_of ?w' = flat_step (flat_of ?w) (SealIt i)" using ws by blast
  have view: "contents m (s_data ((w_stores ?w)[i := s] ! j)) = contents (w_mem ?w) (s_data (w_stores ?w ! j))"
    if j: "j < length (w_stores ?w)" for j
  proof -
    have "fst (fl_stores (flat_of ?w') ! j) = fst (fl_stores (flat_of ?w) ! j)"
      unfolding fl using j by (cases "i = j") (simp_all add: flat_length)
    then show ?thesis using flat_store [of j ?w'] flat_store [OF j] j by simp
  qed
  have frozen: "contents m (z_data y) = contents (w_mem ?w) (z_data y)" if y: "y \<in> set (w_frozen ?w)" for y
  proof -
    obtain k where k: "k < length (w_frozen ?w)" "w_frozen ?w ! k = y" using y by (metis in_set_conv_nth)
    obtain zs where "fl_frozen (flat_of ?w') = fl_frozen (flat_of ?w) @ zs" unfolding fl using flat_step_isolated(1) by blast
    then have "fl_frozen (flat_of ?w') ! k = fl_frozen (flat_of ?w) ! k" using k(1) by (simp add: flat_of_def nth_append)
    then show ?thesis using k by (simp add: flat_of_def nth_append)
  qed
  have bound: "j < length (w_stores ?w)" if "a < next_node fs" "m_blocks (nodes fs a) = Some j" for a j
    using st that by (simp add: storage_inv_def)
  have "node_bytes ?fs a = node_bytes fs a" if a: "a < next_node fs" for a
    using view [OF bound [OF a]] by (simp add: node_bytes_def the_store_def split: option.split)
  moreover have "shape_inv ?fs" using sh by (rule shape_cong) (simp_all add: child_def)
  moreover have "storage_inv ?fs" using st ws by (simp add: storage_inv_def)
  moreover have "s_source ((w_stores ?w)[i := s] ! j) = s_source (w_stores ?w ! j)" for j
    using i ss by (cases "j = i") (simp_all add: the_store_def)
  then have "own_sources ?fs" using src by (simp add: own_sources_def the_store_def)
  moreover have "contents m (z_data z) = node_bytes fs n" using r(4) n(2) by (simp add: node_bytes_def)
  moreover have "world_keys ?w'" unfolding step by (rule world_keys_step [OF keys])
  moreover have "z_source z = root_source fs" using src n r(2) by (simp add: own_sources_def)
  ultimately have "same_view fs ?fs \<and> z \<in> set (w_frozen (disk ?fs)) \<and> z_source z = root_source fs \<and>
    contents (w_mem (disk ?fs)) (z_data z) = node_bytes fs n \<and> (\<forall>j. j \<noteq> i \<longrightarrow> the_store ?fs j = the_store fs j)"
    using frozen by (simp add: same_view_def fs_inv_def the_store_def)
  then show ?thesis using seal by blast
qed

section \<open>Names of the walk\<close>

lemma node_at_proper: "shape_inv fs \<Longrightarrow> node_at fs p = Some n \<Longrightarrow> \<forall>c\<in>set p. proper c"
proof (induction p arbitrary: n rule: rev_induct)
  case (snoc k p)
  then obtain m where "node_at fs p = Some m" "child fs m k = Some n" by (auto simp: node_at_snoc bind_eq_Some_conv)
  then show ?case using snoc.IH [OF snoc.prems(1)] shape_child(6) [OF snoc.prems(1)] by auto
qed simp

lemma join_rel_path:
  assumes "\<forall>c\<in>set p. proper c" "proper k"
  shows "path_join (rel_path p) k = rel_path (p @ [k])"
proof -
  have pk: "\<forall>c\<in>set (p @ [k]). proper c" using assms by simp
  have k: "k \<noteq> []" using assms(2) by (simp add: proper_def)
  have r: "rel_path p \<noteq> []" using join_path_not_rooted(1) [OF assms(1)] by (auto simp: rel_path_def)
  show ?thesis
  proof (cases "p = []")
    case True
    have s: "split_on CHR ''/'' (''.'' @ CHR ''/'' # k) = [''.'', k]"
      using split_on_append [of "CHR ''/''" "''.''" k] split_on_none [of "CHR ''/''" k] assms(2) by (simp add: proper_def)
    have "path_clean (''.'' @ CHR ''/'' # k) = k"
      using s assms(2) by (simp add: path_clean_def clean_components_def has_prefix_def clean_step_def proper_def)
    then show ?thesis using True k by (simp add: path_join_def rel_path_def)
  next
    case False
    then have "rel_path p @ CHR ''/'' # k = rel_path (p @ [k])"
      using join_path_append [of p "[k]"] by (simp add: rel_path_def)
    then show ?thesis using clean_rel [OF pk] r k by (simp add: path_join_def)
  qed
qed

lemma child_names_set: "set (child_names (nodes fs n)) = {k. child fs n k \<noteq> None}"
  by (auto simp: child_names_def child_def map_of_eq_None_iff simp del: not_None_eq)

lemma child_names_distinct: "distinct (child_names nd)"
  by (simp add: child_names_def)

text \<open>The work list that stands for a list of paths below the path \<open>base\<close>.\<close>

definition work_at :: "mem_fs \<Rightarrow> string list \<Rightarrow> string list list \<Rightarrow> (nat \<times> string) list" where
  "work_at fs base Q = map (\<lambda>q. (the (node_at fs (base @ q)), rel_path q)) Q"

lemma sorted_children_work:
  assumes sh: "shape_inv fs" and n: "node_at fs (base @ q) = Some n"
  shows "sorted_children fs n (rel_path q) = work_at fs base (map (\<lambda>k. q @ [k]) (child_names (nodes fs n)))"
proof -
  have q: "\<forall>c\<in>set q. proper c" using node_at_proper [OF sh n] by simp
  have "(the (child fs n k), path_join (rel_path q) k) = (the (node_at fs (base @ q @ [k])), rel_path (q @ [k]))"
    if "k \<in> set (child_names (nodes fs n))" for k
  proof -
    obtain c where c: "child fs n k = Some c" using \<open>k \<in> _\<close> by (auto simp: child_names_set)
    have "node_at fs (base @ q @ [k]) = Some c" using node_at_snoc [of fs "base @ q" k] n c by simp
    then show ?thesis using c join_rel_path [OF q shape_child(6) [OF sh c]] by simp
  qed
  then show ?thesis by (simp add: sorted_children_def work_at_def)
qed


section \<open>The walk\<close>

definition sub_tree :: "mem_fs \<Rightarrow> string list \<Rightarrow> tree" where
  "sub_tree fs base = (\<lambda>p. tree_of fs (base @ p))"

definition under :: "tree \<Rightarrow> string list list \<Rightarrow> string list set" where
  "under t Q = {p. (\<exists>q\<in>set Q. prefix q p) \<and> t p \<noteq> None}"

definition apart :: "string list list \<Rightarrow> bool" where
  "apart Q = sorted_wrt (\<lambda>a b. \<not> prefix a b \<and> \<not> prefix b a) Q"

text \<open>The files a walk over the paths \<open>U\<close> adds to \<open>files\<close>.\<close>

definition walked :: "mem_fs \<Rightarrow> tree \<Rightarrow> string list set \<Rightarrow> (string \<times> frozen option) list \<Rightarrow> (string \<times> frozen option) list \<Rightarrow> bool" where
  "walked fs t U files fls \<longleftrightarrow>
     (\<forall>k. k \<notin> rel_path ` {p \<in> U. t p \<noteq> Some EDir} \<longrightarrow> map_of fls k = map_of files k) \<and>
     (\<forall>p\<in>U. \<forall>b. t p = Some (EFile b) \<longrightarrow> (\<exists>z. map_of fls (rel_path p) = Some (Some z) \<and> z \<in> set (w_frozen (disk fs)) \<and>
        contents (w_mem (disk fs)) (z_data z) = b \<and> z_source z = root_source fs)) \<and>
     (distinct (map fst files) \<longrightarrow> distinct (map fst fls))"

lemma sub_tree_child:
  assumes "shape_inv fs" "node_at fs (base @ q) = Some n" "prefix q p" "p \<noteq> q" "sub_tree fs base p \<noteq> None"
  shows "m_dir (nodes fs n) \<and> (\<exists>k. child fs n k \<noteq> None \<and> prefix (q @ [k]) p)"
proof -
  obtain k r where p: "p = q @ k # r" using assms(3,4) by (metis append.right_neutral neq_Nil_conv prefix_def)
  obtain x where x: "node_at fs ((base @ q) @ k # r) = Some x" using assms(5) p by (auto simp: sub_tree_def tree_of_def)
  have "node_at fs (((base @ q) @ [k]) @ r) = Some x" using x by simp
  then obtain c where "node_at fs ((base @ q) @ [k]) = Some c" using node_at_prefix by blast
  then have "child fs n k = Some c" using assms(2) node_at_snoc [of fs "base @ q" k] by simp
  then show ?thesis using node_at_inner_dir [OF assms(1) x] assms(2) p by auto
qed

lemma under_dir:
  assumes sh: "shape_inv fs" and n: "node_at fs (base @ q) = Some n"
    and ap: "apart (q # R)"
  shows "under (sub_tree fs base) (map (\<lambda>k. q @ [k]) (child_names (nodes fs n)) @ R) = under (sub_tree fs base) (q # R) - {q}"
    "apart (map (\<lambda>k. q @ [k]) (child_names (nodes fs n)) @ R)"
    "\<forall>p\<in>set (map (\<lambda>k. q @ [k]) (child_names (nodes fs n))). sub_tree fs base p \<noteq> None"
proof -
  let ?N = "map (\<lambda>k. q @ [k]) (child_names (nodes fs n))"
  have qR: "\<not> prefix q r \<and> \<not> prefix r q" if "r \<in> set R" for r using ap that by (simp add: apart_def)
  have kid: "p \<in> set ?N \<longleftrightarrow> (\<exists>k. p = q @ [k] \<and> child fs n k \<noteq> None)" for p
    using child_names_set [of fs n] by auto
  show "under (sub_tree fs base) (?N @ R) = under (sub_tree fs base) (q # R) - {q}"
  proof (intro equalityI subsetI)
    fix p assume p: "p \<in> under (sub_tree fs base) (?N @ R)"
    then obtain s where s: "s \<in> set (?N @ R)" "prefix s p" "sub_tree fs base p \<noteq> None" by (auto simp: under_def)
    show "p \<in> under (sub_tree fs base) (q # R) - {q}"
    proof (cases "s \<in> set R")
      case True
      then show ?thesis using s qR by (auto simp: under_def)
    next
      case False
      then obtain k where "s = q @ [k]" using s(1) kid by auto
      then have "prefix q p" "p \<noteq> q" using s(2) by (auto simp: prefix_def)
      then show ?thesis using s(3) by (auto simp: under_def)
    qed
  next
    fix p assume p: "p \<in> under (sub_tree fs base) (q # R) - {q}"
    then obtain s where s: "s \<in> set (q # R)" "prefix s p" "sub_tree fs base p \<noteq> None" "p \<noteq> q" by (auto simp: under_def)
    show "p \<in> under (sub_tree fs base) (?N @ R)"
    proof (cases "s = q")
      case True
      then obtain k where "child fs n k \<noteq> None" "prefix (q @ [k]) p" using sub_tree_child [OF sh n _ s(4,3)] s(2) by blast
      then show ?thesis using kid s(3) unfolding under_def by (metis (mono_tags, lifting) Un_iff mem_Collect_eq set_append)
    next
      case False
      then show ?thesis using s by (auto simp: under_def)
    qed
  qed
  have "sorted_wrt (\<lambda>a b. \<not> prefix a b \<and> \<not> prefix b a) ?N"
    using child_names_distinct [of "nodes fs n"] by (auto simp: sorted_wrt_map distinct_conv_nth sorted_wrt_iff_nth_less)
  moreover have "\<not> prefix (q @ [k]) r \<and> \<not> prefix r (q @ [k])" if "r \<in> set R" for k r
    using qR [OF that] by (metis append_prefixD prefix_order.order_refl prefix_snoc)
  ultimately show "apart (?N @ R)" using ap by (auto simp: apart_def sorted_wrt_append)
  show "\<forall>p\<in>set ?N. sub_tree fs base p \<noteq> None"
  proof
    fix p assume "p \<in> set ?N"
    then obtain k where "p = q @ [k]" "child fs n k \<noteq> None" using kid by blast
    then show "sub_tree fs base p \<noteq> None" using node_at_snoc [of fs "base @ q" k] n by (auto simp: sub_tree_def tree_of_def)
  qed
qed

lemma under_leaf:
  assumes sh: "shape_inv fs" and n: "node_at fs (base @ q) = Some n" "\<not> m_dir (nodes fs n)" and ap: "apart (q # R)"
  shows "under (sub_tree fs base) R = under (sub_tree fs base) (q # R) - {q}"
  using sub_tree_child [OF sh n(1)] n(2) ap by (fastforce simp: under_def apart_def)

lemma under_finite:
  assumes "shape_inv fs"
  shows "finite (under (sub_tree fs base) Q)"
proof -
  have "inj_on (\<lambda>p. the (node_at fs (base @ p))) (under (sub_tree fs base) Q)"
  proof (rule inj_onI)
    fix p p' assume a: "p \<in> under (sub_tree fs base) Q" "p' \<in> under (sub_tree fs base) Q"
      "the (node_at fs (base @ p)) = the (node_at fs (base @ p'))"
    then obtain n n' where "node_at fs (base @ p) = Some n" "node_at fs (base @ p') = Some n'"
      by (auto simp: under_def sub_tree_def tree_of_def)
    then show "p = p'" using a(3) node_at_inject [OF assms] by fastforce
  qed
  moreover have "(\<lambda>p. the (node_at fs (base @ p))) ` under (sub_tree fs base) Q \<subseteq> {..<next_node fs}"
    using node_at_bound [OF assms] by (auto simp: under_def sub_tree_def tree_of_def)
  ultimately show ?thesis using finite_subset finite_imageD by blast
qed


text \<open>Stores that a walk over the paths \<open>U\<close> still has to seal.\<close>

definition open_under :: "mem_fs \<Rightarrow> string list \<Rightarrow> string list set \<Rightarrow> bool" where
  "open_under fs base U \<longleftrightarrow> (\<forall>p\<in>U. \<forall>n i. node_at fs (base @ p) = Some n \<longrightarrow> m_blocks (nodes fs n) = Some i \<longrightarrow>
     \<not> f_sealed (s_data (the_store fs i)))"

definition walks_to :: "(bytes \<Rightarrow> string) \<Rightarrow> string list \<Rightarrow> string list list \<Rightarrow> string list \<Rightarrow> (string \<times> frozen option) list \<Rightarrow> mem_fs \<Rightarrow> bool" where
  "walks_to sha base Q dirs files fs \<longleftrightarrow> (\<exists>ds fls fs'.
     freeze_walk sha (work_at fs base Q) dirs files fs = Some (Inr (dirs @ ds, fls), fs') \<and> same_view fs fs' \<and>
     set ds = rel_path ` {p \<in> under (sub_tree fs base) Q. sub_tree fs base p = Some EDir} \<and> distinct ds \<and>
     walked fs' (sub_tree fs base) (under (sub_tree fs base) Q) files fls)"

lemma sub_proper: "shape_inv fs \<Longrightarrow> sub_tree fs base p \<noteq> None \<Longrightarrow> \<forall>c\<in>set p. proper c"
  using node_at_proper [of fs "base @ p"] by (auto simp: sub_tree_def tree_of_def)

lemma sub_inject:
  assumes "shape_inv fs" "sub_tree fs base p \<noteq> None" "sub_tree fs base q \<noteq> None" "rel_path p = rel_path q"
  shows "p = q"
  using rel_path_inject [OF sub_proper [OF assms(1,2)] sub_proper [OF assms(1,3)]] assms(4) by blast

lemma walks_dir:
  assumes sh: "shape_inv fs" and n: "node_at fs (base @ q) = Some n" "m_dir (nodes fs n)" and ap: "apart (q # R)"
    and next_walk: "walks_to sha base (map (\<lambda>k. q @ [k]) (child_names (nodes fs n)) @ R) (dirs @ [rel_path q]) files fs"
  shows "walks_to sha base (q # R) dirs files fs"
proof -
  let ?Q = "map (\<lambda>k. q @ [k]) (child_names (nodes fs n)) @ R" and ?t = "sub_tree fs base"
  note u = under_dir(1) [OF sh n(1) ap]
  have tq: "?t q = Some EDir" using n by (simp add: sub_tree_def tree_of_def entry_of_def)
  then have q: "q \<in> under ?t (q # R)" by (simp add: under_def)
  obtain ds fls fs' where w: "freeze_walk sha (work_at fs base ?Q) (dirs @ [rel_path q]) files fs =
      Some (Inr ((dirs @ [rel_path q]) @ ds, fls), fs')" "same_view fs fs'"
    "set ds = rel_path ` {p \<in> under ?t (q # R) - {q}. ?t p = Some EDir}" "distinct ds"
    "walked fs' ?t (under ?t (q # R) - {q}) files fls"
    using next_walk unfolding walks_to_def u by blast
  have "freeze_walk sha (work_at fs base (q # R)) dirs files fs =
      freeze_walk sha (sorted_children fs n (rel_path q) @ work_at fs base R) (dirs @ [rel_path q]) files fs"
    using n by (subst freeze_walk.simps) (simp add: work_at_def)
  also have "sorted_children fs n (rel_path q) @ work_at fs base R = work_at fs base ?Q"
    using sorted_children_work [OF sh n(1)] by (simp add: work_at_def)
  finally have "freeze_walk sha (work_at fs base (q # R)) dirs files fs = Some (Inr (dirs @ rel_path q # ds, fls), fs')"
    using w(1) by simp
  moreover have "set (rel_path q # ds) = rel_path ` {p \<in> under ?t (q # R). ?t p = Some EDir}"
    using w(3) q tq by auto
  moreover have "rel_path q \<notin> set ds"
    using w(3) sub_inject [OF sh, of base q] tq by (auto simp: under_def)
  then have "distinct (rel_path q # ds)" using w(4) by simp
  moreover have "{p \<in> under ?t (q # R) - {q}. ?t p \<noteq> Some EDir} = {p \<in> under ?t (q # R). ?t p \<noteq> Some EDir}"
    using tq by auto
  then have "walked fs' ?t (under ?t (q # R)) files fls"
    using w(5) tq unfolding walked_def by auto
  ultimately show ?thesis using w(2) unfolding walks_to_def by blast
qed

lemma walks_file:
  assumes sh: "shape_inv fs" and n: "node_at fs (base @ q) = Some n" "\<not> m_dir (nodes fs n)" "m_blocks (nodes fs n) = Some i"
    and ap: "apart (q # R)" and seal: "seal_blocks sha i fs = (Inr z, fs1)" "same_view fs fs1" "z \<in> set (w_frozen (disk fs1))"
    "z_source z = root_source fs" "contents (w_mem (disk fs1)) (z_data z) = node_bytes fs n"
    and inv: "fs_inv fs"
    and next_walk: "walks_to sha base R dirs (AList.update (rel_path q) (Some z) files) fs1"
  shows "walks_to sha base (q # R) dirs files fs"
proof -
  let ?t = "sub_tree fs base" and ?files = "AList.update (rel_path q) (Some z) files"
  have t1: "sub_tree fs1 base = ?t" unfolding sub_tree_def same_view_tree [OF seal(2) inv] ..
  note u = under_leaf [OF sh n(1,2) ap]
  have tq: "?t q = Some (EFile (node_bytes fs n))" using n by (simp add: sub_tree_def tree_of_def entry_of_def)
  then have q: "q \<in> under ?t (q # R)" by (simp add: under_def)
  obtain ds fls fs' where w: "freeze_walk sha (work_at fs1 base R) dirs ?files fs1 = Some (Inr (dirs @ ds, fls), fs')"
    "same_view fs1 fs'" "set ds = rel_path ` {p \<in> under ?t (q # R) - {q}. ?t p = Some EDir}" "distinct ds"
    "walked fs' ?t (under ?t (q # R) - {q}) ?files fls"
    using next_walk unfolding walks_to_def t1 u by blast
  have "work_at fs1 base R = work_at fs base R" by (simp add: work_at_def same_view_node [OF seal(2)])
  then have w1: "freeze_walk sha (work_at fs base R) dirs ?files fs1 = Some (Inr (dirs @ ds, fls), fs')"
    using w(1) by simp
  have "work_at fs base (q # R) = (n, rel_path q) # work_at fs base R" using n by (simp add: work_at_def)
  then have "freeze_walk sha (work_at fs base (q # R)) dirs files fs = Some (Inr (dirs @ ds, fls), fs')"
    using n seal(1) w1 by (subst freeze_walk.simps) simp
  moreover have "{p \<in> under ?t (q # R) - {q}. ?t p = Some EDir} = {p \<in> under ?t (q # R). ?t p = Some EDir}"
    using tq by auto
  then have "set ds = rel_path ` {p \<in> under ?t (q # R). ?t p = Some EDir}" using w(3) by simp
  moreover have "walked fs' ?t (under ?t (q # R)) files fls"
    unfolding walked_def
  proof (intro conjI allI impI ballI)
    fix k assume k: "k \<notin> rel_path ` {p \<in> under ?t (q # R). ?t p \<noteq> Some EDir}"
    then have "k \<noteq> rel_path q" using q tq by auto
    moreover have "map_of fls k = map_of ?files k" using w(5) k unfolding walked_def by auto
    ultimately show "map_of fls k = map_of files k" by (simp add: update_conv')
  next
    fix p b assume p: "p \<in> under ?t (q # R)" "?t p = Some (EFile b)"
    show "\<exists>z. map_of fls (rel_path p) = Some (Some z) \<and> z \<in> set (w_frozen (disk fs')) \<and>
        contents (w_mem (disk fs')) (z_data z) = b \<and> z_source z = root_source fs'"
    proof (cases "p = q")
      case True
      have "rel_path q \<notin> rel_path ` {p \<in> under ?t (q # R) - {q}. ?t p \<noteq> Some EDir}"
        using sub_inject [OF sh, of base q] tq by (auto simp: under_def)
      then have "map_of fls (rel_path q) = Some (Some z)" using w(5) unfolding walked_def by (simp add: update_conv')
      moreover have "z \<in> set (w_frozen (disk fs')) \<and> contents (w_mem (disk fs')) (z_data z) = node_bytes fs n \<and>
          root_source fs' = root_source fs"
        using w(2) seal(2-5) unfolding same_view_def by simp
      ultimately show ?thesis using True p(2) tq seal(4) by simp
    next
      case False
      then show ?thesis using w(5) p unfolding walked_def by blast
    qed
  next
    assume "distinct (map fst files)"
    then have "distinct (map fst ?files)" by (rule distinct_update)
    then show "distinct (map fst fls)" using w(5) unfolding walked_def by simp
  qed
  ultimately show ?thesis
    using w(4) same_view_trans [OF seal(2) w(2)] unfolding walks_to_def
    by - (rule exI [of _ ds], rule exI [of _ fls], rule exI [of _ fs'], intro conjI; assumption)
qed

lemma walk_ends:
  assumes "finite U"
  shows "U = under (sub_tree fs base) Q \<Longrightarrow> fs_inv fs \<Longrightarrow> own_sources fs \<Longrightarrow> world_keys (disk fs) \<Longrightarrow> block_storage fs \<Longrightarrow> apart Q \<Longrightarrow>
    \<forall>q\<in>set Q. sub_tree fs base q \<noteq> None \<Longrightarrow> open_under fs base U \<Longrightarrow> walks_to sha base Q dirs files fs"
  using assms
proof (induction U arbitrary: fs Q dirs files rule: finite_psubset_induct)
  case (psubset U)
  note sh = psubset.prems(2) [unfolded fs_inv_def, THEN conjunct1]
  show ?case
  proof (cases Q)
    case Nil
    have "freeze_walk sha [] dirs files fs = Some (Inr (dirs, files), fs)" by (subst freeze_walk.simps) simp
    then show ?thesis using same_view_refl [OF psubset.prems(2,3,4)] Nil
      by (simp add: walks_to_def work_at_def under_def walked_def)
  next
    case (Cons q R)
    have ap: "apart (q # R)" and R: "apart R" "\<forall>r\<in>set R. sub_tree fs base r \<noteq> None"
      using psubset.prems(6,7) Cons by (simp_all add: apart_def)
    obtain n where n: "node_at fs (base @ q) = Some n" using psubset.prems(7) Cons by (auto simp: sub_tree_def tree_of_def)
    have q: "q \<in> U" using psubset.prems(1,7) Cons by (simp add: under_def)
    show ?thesis
    proof (cases "m_dir (nodes fs n)")
      case True
      note u = under_dir [OF sh n ap]
      have "walks_to sha base (map (\<lambda>k. q @ [k]) (child_names (nodes fs n)) @ R) (dirs @ [rel_path q]) files fs"
      proof (rule psubset.IH [of "U - {q}"])
        show "U - {q} \<subset> U" using q by blast
        show "U - {q} = under (sub_tree fs base) (map (\<lambda>k. q @ [k]) (child_names (nodes fs n)) @ R)"
          using u(1) psubset.prems(1) Cons by simp
        show "\<forall>q\<in>set (map (\<lambda>k. q @ [k]) (child_names (nodes fs n)) @ R). sub_tree fs base q \<noteq> None"
          using u(3) R(2) by auto
        show "open_under fs base (U - {q})" using psubset.prems(8) unfolding open_under_def by blast
      qed (use psubset.prems u in simp_all)
      then show ?thesis unfolding Cons by (rule walks_dir [OF sh n True ap])
    next
      case False
      have nb: "n < next_node fs" by (rule node_at_bound [OF sh n])
      then obtain i where i: "m_blocks (nodes fs n) = Some i"
        using psubset.prems(2,5) False by (auto simp: fs_inv_def storage_inv_def)
      have op: "\<not> f_sealed (s_data (the_store fs i))" using psubset.prems(8) q n i by (simp add: open_under_def)
      obtain z fs1 where s: "seal_blocks sha i fs = (Inr z, fs1)" "same_view fs fs1" "z \<in> set (w_frozen (disk fs1))"
        "z_source z = root_source fs" "contents (w_mem (disk fs1)) (z_data z) = node_bytes fs n"
        "\<forall>j. j \<noteq> i \<longrightarrow> the_store fs1 j = the_store fs j"
        using seal_spec [OF psubset.prems(2,3,4) nb i op, of sha] by blast
      have t1: "sub_tree fs1 base = sub_tree fs base" unfolding sub_tree_def same_view_tree [OF s(2) psubset.prems(2)] ..
      have "walks_to sha base R dirs (AList.update (rel_path q) (Some z) files) fs1"
      proof (rule psubset.IH [of "U - {q}"])
        show "U - {q} \<subset> U" using q by blast
        show "U - {q} = under (sub_tree fs1 base) R" using under_leaf [OF sh n False ap] psubset.prems(1) Cons t1 by simp
        show "fs_inv fs1" "own_sources fs1" "world_keys (disk fs1)" "block_storage fs1" using s(2) psubset.prems(5) by (simp_all add: same_view_def)
        show "\<forall>q\<in>set R. sub_tree fs1 base q \<noteq> None" using R(2) t1 by simp
        show "open_under fs1 base (U - {q})"
          unfolding open_under_def
        proof (intro ballI allI impI)
          fix p m j
          assume p: "p \<in> U - {q}" and m: "node_at fs1 (base @ p) = Some m" "m_blocks (nodes fs1 m) = Some j"
          then have m0: "node_at fs (base @ p) = Some m" "m_blocks (nodes fs m) = Some j"
            using same_view_node [OF s(2)] s(2) by (simp_all add: same_view_def)
          then have "m \<noteq> n" using node_at_inject [OF sh m0(1)] n p by fastforce
          moreover have "m < next_node fs" by (rule node_at_bound [OF sh m0(1)])
          ultimately have "j \<noteq> i" using psubset.prems(2) m0(2) i nb unfolding fs_inv_def storage_inv_def by blast
          moreover have "\<not> f_sealed (s_data (the_store fs j))"
            using psubset.prems(8) p m0 unfolding open_under_def by blast
          ultimately show "\<not> f_sealed (s_data (the_store fs1 j))" using s(6) by simp
        qed
      qed (rule R(1))
      then show ?thesis unfolding Cons by (rule walks_file [OF sh n False i ap s(1-5) psubset.prems(2)])
    qed
  qed
qed

end
