(* ===== verification/MemProperties.thy ===== *)
theory MemProperties
  imports MemFiles
begin

text \<open>
  The properties of \<open>MemFS\<close>: its names refine a tree of paths, and its open files refine flat files in
  both kinds of storage.
\<close>

section \<open>Runs of name operations\<close>

fun fs_run :: "int \<Rightarrow> fs_op list \<Rightarrow> mem_fs \<Rightarrow> (goerr option list \<times> mem_fs) option" where
  "fs_run now [] fs = Some ([], fs)"
| "fs_run now (x # xs) fs =
     (case fs_step now x fs of
        None \<Rightarrow> None
      | Some (e, fs1) \<Rightarrow> map_option (\<lambda>(es, fs2). (e # es, fs2)) (fs_run now xs fs1))"

fun spec_run :: "fs_op list \<Rightarrow> tree \<Rightarrow> goerr option list \<times> tree" where
  "spec_run [] t = ([], t)"
| "spec_run (x # xs) t = (case spec_step x t of (e, t1) \<Rightarrow> case spec_run xs t1 of (es, t2) \<Rightarrow> (e # es, t2))"

text \<open>A Go slice is no longer than an \<open>int\<close> holds.\<close>

fun op_ok :: "fs_op \<Rightarrow> bool" where
  "op_ok (WriteFile spare name data perm) = (int (length data) \<le> max_int)"
| "op_ok _ = True"

lemma step_sim:
  assumes "fs_ready fs" "op_ok x"
  shows "\<exists>r. fs_step now x fs = Some r \<and> sim r (spec_step x (tree_of fs))"
proof (cases x)
  case (Mkdir name perm)
  then show ?thesis using mkdir_sim [OF assms(1)] by simp
next
  case (MkdirAll name perm)
  then show ?thesis using mkdir_all_sim [OF assms(1)] by simp
next
  case (Remove name)
  then show ?thesis using remove_sim [OF assms(1)] by simp
next
  case (Rename a b)
  then show ?thesis using rename_sim [OF assms(1)] by simp
next
  case (Open name flag perm)
  then show ?thesis using open_sim [OF assms(1)] by simp
next
  case (WriteFile spare name data perm)
  then show ?thesis using write_file_sim [OF assms(1)] assms(2) by simp
qed

lemma run_sim:
  "fs_ready fs \<Longrightarrow> \<forall>x\<in>set xs. op_ok x \<Longrightarrow>
     \<exists>rs fs'. fs_run now xs fs = Some (rs, fs') \<and> spec_run xs (tree_of fs) = (rs, tree_of fs') \<and> fs_ready fs'"
proof (induction xs arbitrary: fs)
  case (Cons x xs)
  have x: "op_ok x" "\<forall>y\<in>set xs. op_ok y" using Cons.prems(2) by simp_all
  obtain e fs1 where r: "fs_step now x fs = Some (e, fs1)" "sim (e, fs1) (spec_step x (tree_of fs))"
    using step_sim [OF Cons.prems(1) x(1)] by (metis surj_pair)
  obtain e' t1 where sp: "spec_step x (tree_of fs) = (e', t1)" by (metis surj_pair)
  then have s: "e' = e" "t1 = tree_of fs1" "fs_ready fs1" using r(2) by (auto simp: sim_def)
  obtain rs fs2 where "fs_run now xs fs1 = Some (rs, fs2)" "spec_run xs (tree_of fs1) = (rs, tree_of fs2)" "fs_ready fs2"
    using Cons.IH [OF s(3) x(2)] by blast
  then show ?case using r(1) sp s by simp
qed simp

lemma new_mem_fs_ready: "world_inv w \<Longrightarrow> world_keys w \<Longrightarrow> fs_ready (new_mem_fs w)"
  by (simp add: fs_ready_def own_sources_def fs_inv_def shape_inv_def storage_inv_def unsealed_def new_mem_fs_def dir_node_def
      child_def nil_slice_def)

lemma new_block_mem_fs_ready: "world_inv w \<Longrightarrow> world_keys w \<Longrightarrow> fs_ready (new_block_mem_fs w source)"
  by (simp add: fs_ready_def own_sources_def fs_inv_def shape_inv_def storage_inv_def unsealed_def new_block_mem_fs_def new_mem_fs_def
      dir_node_def child_def nil_slice_def)

lemma new_tree: "tree_of (new_block_mem_fs w source) = (\<lambda>p. if p = [] then Some EDir else None)"
proof
  fix p
  show "tree_of (new_block_mem_fs w source) p = (if p = [] then Some EDir else None)"
    by (cases p rule: rev_cases)
      (auto simp: tree_of_def entry_of_def node_at_snoc new_block_mem_fs_def new_mem_fs_def dir_node_def child_def
        split: option.split bind_splits)
qed

text \<open>
  C23. The names of a \<open>MemFS\<close> refine a tree. Whatever sequence of directory creations, removals,
  renames, opens (creating, exclusive, truncating) and whole-file writes is called on a file system,
  every call returns, with the error the specification gives, and the file system shows the tree the
  same calls make of a plain map from clean paths to directories and file contents: a rename moves the
  whole subtree and replaces what was at the target, it is refused exactly when the target lies inside
  the moved entry, only an empty directory can be removed, and no call disturbs another file. The walk
  over parent pointers in \<open>Rename\<close> always ends.
\<close>
theorem memfs_refines_tree:
  assumes "fs_ready fs" "\<forall>x\<in>set xs. op_ok x"
  shows "\<exists>rs fs'. fs_run now xs fs = Some (rs, fs') \<and> spec_run xs (tree_of fs) = (rs, tree_of fs') \<and> fs_ready fs'"
  using assms by (rule run_sim)

theorem memfs_refines_tree_witness:
  "\<exists>rs fs'. fs_run 0 [WriteFile 0 ''a/b'' [1] 0, Rename ''a'' ''a/c'', Rename ''a'' ''/x/../c'', Remove ''c'']
      (new_block_mem_fs empty_world 7) = Some (rs, fs') \<and>
    rs = [None, Some (path_error ''rename'' ''a'' err_einval), None, Some (path_error ''remove'' ''c'' err_invalid)] \<and>
    tree_of fs' [''c'', ''b''] = Some (EFile [1]) \<and> tree_of fs' [''a''] = None"
proof -
  let ?ops = "[WriteFile 0 ''a/b'' [1] 0, Rename ''a'' ''a/c'', Rename ''a'' ''/x/../c'', Remove ''c'']"
  let ?t = "\<lambda>p. if p = [] then Some EDir else None"
  have split: "mem_split ''a/b'' = [''a'', ''b'']" "mem_split ''a'' = [''a'']" "mem_split ''a/c'' = [''a'', ''c'']"
    "mem_split ''/x/../c'' = [''c'']" "mem_split ''c'' = [''c'']"
    by code_simp+
  have "fst (spec_run ?ops ?t) = [None, Some (path_error ''rename'' ''a'' err_einval), None, Some (path_error ''remove'' ''c'' err_invalid)] \<and>
     snd (spec_run ?ops ?t) [''c'', ''b''] = Some (EFile [1]) \<and> snd (spec_run ?ops ?t) [''a''] = None"
    by (auto simp: split parent_error_def put_entry_def move_tree_def strict_prefix_def Let_def)
  moreover have ok: "\<forall>x\<in>set ?ops. op_ok x" by (simp add: max_int_def)
  moreover obtain rs fs' where "fs_run 0 ?ops (new_block_mem_fs empty_world 7) = Some (rs, fs')"
    "spec_run ?ops (tree_of (new_block_mem_fs empty_world 7)) = (rs, tree_of fs')"
    using memfs_refines_tree [OF new_block_mem_fs_ready [OF empty_world_inv empty_world_keys] ok] by blast
  ultimately show ?thesis by (simp add: new_tree del: spec_run.simps fs_run.simps)
qed

section \<open>Open files\<close>

datatype file_op =
    FWrite bytes int
  | FTruncate int
  | FAllocate int

fun file_step :: "mem_file \<Rightarrow> int \<Rightarrow> file_op \<Rightarrow> mem_fs \<Rightarrow> goerr option \<times> mem_fs" where
  "file_step f now (FWrite p off) fs = (case file_write_at f p off now fs of ((k, e), fs') \<Rightarrow> (e, fs'))"
| "file_step f now (FTruncate n) fs = file_truncate f n now fs"
| "file_step f now (FAllocate n) fs = file_allocate f n now fs"

fun flat_file_step :: "file_op \<Rightarrow> bytes \<Rightarrow> goerr option \<times> bytes" where
  "flat_file_step (FWrite p off) b =
     (if off < 0 \<or> max_int - int (length p) < off then (Some err_efbig, b)
      else (None, if p = [] then b else flat_write b (nat off) p))"
| "flat_file_step (FTruncate n) b =
     (if n < 0 \<or> max_int < n then (Some err_einval, b) else (None, flat_resize b (nat n)))"
| "flat_file_step (FAllocate n) b =
     (if n < 0 then (Some err_einval, b) else (None, if int (length b) < n then flat_resize b (nat n) else b))"

text \<open>The sizes an \<open>int64\<close> argument can name.\<close>

fun file_op_ok :: "file_op \<Rightarrow> bool" where
  "file_op_ok (FWrite p off) = (off \<le> max_int)"
| "file_op_ok (FTruncate n) = (n \<le> max_int)"
| "file_op_ok (FAllocate n) = (n \<le> max_int)"

lemma content_change_refl: "fs_ready fs \<Longrightarrow> content_change fs n (node_bytes fs n) fs"
  by (simp add: content_change_def)

lemma resize_change:
  assumes "fs_ready fs" "n < next_node fs" "0 \<le> k" "k \<le> max_int"
  shows "m_blocks (nodes fs n) = None \<Longrightarrow>
      content_change fs n (flat_resize (node_bytes fs n) (nat k))
        (touch n now (update_node n (\<lambda>x. x\<lparr>m_data := resize_mem_data (m_data x) (nat k)\<rparr>) fs))"
    "\<forall>i. m_blocks (nodes fs n) = Some i \<longrightarrow> fst (blocks_resize i k fs) = None \<and>
      content_change fs n (flat_resize (node_bytes fs n) (nat k)) (touch n now (snd (blocks_resize i k fs)))"
proof -
  note r = resize_mem_data_bytes [OF node_slice [OF assms(1,2)], of "nat k"]
  show "m_blocks (nodes fs n) = None \<Longrightarrow>
      content_change fs n (flat_resize (node_bytes fs n) (nat k))
        (touch n now (update_node n (\<lambda>x. x\<lparr>m_data := resize_mem_data (m_data x) (nat k)\<rparr>) fs))"
    using slice_update_change [OF assms(1), of n "\<lambda>d. resize_mem_data d (nat k)"] r
    by (intro touch_change) (simp add: node_bytes_slice)
  show "\<forall>i. m_blocks (nodes fs n) = Some i \<longrightarrow> fst (blocks_resize i k fs) = None \<and>
      content_change fs n (flat_resize (node_bytes fs n) (nat k)) (touch n now (snd (blocks_resize i k fs)))"
    using blocks_resize_change [OF assms(1,2) _ assms(3,4)] touch_change by blast
qed

lemma file_step_change:
  assumes "fs_ready fs" "mf_node f < next_node fs" "mf_writable f" "\<not> m_dir (nodes fs (mf_node f))" "file_op_ok x"
  shows "fst (file_step f now x fs) = fst (flat_file_step x (node_bytes fs (mf_node f))) \<and>
    content_change fs (mf_node f) (snd (flat_file_step x (node_bytes fs (mf_node f)))) (snd (file_step f now x fs))"
proof (cases x)
  case (FWrite p off)
  let ?n = "mf_node f"
  show ?thesis
  proof (cases "off < 0 \<or> max_int - int (length p) < off \<or> p = []")
    case True
    then show ?thesis using FWrite assms content_change_refl [OF assms(1)] by (auto simp: file_write_at_def Let_def)
  next
    case False
    show ?thesis
    proof (cases "m_blocks (nodes fs ?n)")
      case None
      have "content_change fs ?n (flat_write (node_bytes fs ?n) (nat off) p)
          (update_node ?n (\<lambda>x. x\<lparr>m_data := slice_write (m_data x) p (nat off)\<rparr>) fs)"
        using slice_update_change [OF assms(1) None, of "\<lambda>d. slice_write d p (nat off)"]
          slice_write_bytes [OF node_slice [OF assms(1,2)], of p "nat off"] False None by (simp add: node_bytes_slice)
      then show ?thesis using FWrite False assms(3,4) None touch_change by (simp add: file_write_at_def Let_def)
    next
      case (Some i)
      have "fst (blocks_write i p off fs) = (length p, None) \<and>
        content_change fs ?n (flat_write (node_bytes fs ?n) (nat off) p) (snd (blocks_write i p off fs))"
        by (rule blocks_write_change [OF assms(1,2) Some]) (use False in auto)
      then show ?thesis using FWrite False assms(3,4) Some touch_change
        by (auto simp: file_write_at_def Let_def split: prod.splits)
    qed
  qed
next
  case (FTruncate k)
  show ?thesis
  proof (cases "k < 0")
    case True
    then show ?thesis using FTruncate assms content_change_refl [OF assms(1)] by (simp add: file_truncate_def Let_def)
  next
    case False
    then show ?thesis
      using FTruncate assms(3-5) resize_change [OF assms(1,2), of k]
      by (auto simp: file_truncate_def Let_def split: option.splits prod.splits)
  qed
next
  case (FAllocate k)
  show ?thesis
  proof (cases "0 \<le> k \<and> int (length (node_bytes fs (mf_node f))) < k")
    case True
    then show ?thesis
      using FAllocate assms(3-5) resize_change [OF assms(1,2), of k] storage_size_bytes [OF assms(1,2)]
      by (auto simp: file_allocate_def Let_def split: option.splits prod.splits)
  next
    case False
    then show ?thesis
      using FAllocate assms content_change_refl [OF assms(1)] storage_size_bytes [OF assms(1,2)]
      by (auto simp: file_allocate_def Let_def)
  qed
qed


fun file_run :: "mem_file \<Rightarrow> int \<Rightarrow> file_op list \<Rightarrow> mem_fs \<Rightarrow> goerr option list \<times> mem_fs" where
  "file_run f now [] fs = ([], fs)"
| "file_run f now (x # xs) fs =
     (case file_step f now x fs of (e, fs1) \<Rightarrow> case file_run f now xs fs1 of (es, fs2) \<Rightarrow> (e # es, fs2))"

fun flat_file_run :: "file_op list \<Rightarrow> bytes \<Rightarrow> goerr option list \<times> bytes" where
  "flat_file_run [] b = ([], b)"
| "flat_file_run (x # xs) b =
     (case flat_file_step x b of (e, b1) \<Rightarrow> case flat_file_run xs b1 of (es, b2) \<Rightarrow> (e # es, b2))"

lemma content_change_trans:
  "content_change fs n a fs1 \<Longrightarrow> content_change fs1 n b fs2 \<Longrightarrow> content_change fs n b fs2"
  by (simp add: content_change_def)

lemma file_run_change:
  "fs_ready fs \<Longrightarrow> mf_node f < next_node fs \<Longrightarrow> mf_writable f \<Longrightarrow> \<not> m_dir (nodes fs (mf_node f)) \<Longrightarrow> \<forall>x\<in>set xs. file_op_ok x \<Longrightarrow>
     fst (file_run f now xs fs) = fst (flat_file_run xs (node_bytes fs (mf_node f))) \<and>
     content_change fs (mf_node f) (snd (flat_file_run xs (node_bytes fs (mf_node f)))) (snd (file_run f now xs fs))"
proof (induction xs arbitrary: fs)
  case Nil
  then show ?case by (simp add: content_change_refl)
next
  case (Cons x xs)
  let ?n = "mf_node f"
  obtain e fs1 where r: "file_step f now x fs = (e, fs1)" by (metis surj_pair)
  obtain e' b1 where fl: "flat_file_step x (node_bytes fs ?n) = (e', b1)" by (metis surj_pair)
  have c: "e' = e" "content_change fs ?n b1 fs1"
    using file_step_change [OF Cons.prems(1-4), of x now] Cons.prems(5) r fl by simp_all
  then have fs1: "fs_ready fs1" "?n < next_node fs1" "\<not> m_dir (nodes fs1 ?n)" "node_bytes fs1 ?n = b1"
    using Cons.prems(2,4) by (simp_all add: content_change_def)
  have "fst (file_run f now xs fs1) = fst (flat_file_run xs b1) \<and>
      content_change fs1 ?n (snd (flat_file_run xs b1)) (snd (file_run f now xs fs1))"
    using Cons.IH [OF fs1(1,2) Cons.prems(3) fs1(3)] fs1(4) Cons.prems(5) by simp
  then show ?case using r fl c(1) content_change_trans [OF c(2)] by (auto split: prod.splits)
qed

lemma file_read_at_bytes:
  assumes ready: "fs_ready fs" and n: "mf_node f < next_node fs" and k: "0 < k" "0 \<le> off"
  shows "file_read_at f k off fs = Some (take k (drop (nat off) (node_bytes fs (mf_node f))),
    if length (node_bytes fs (mf_node f)) < nat off + k then Some err_eof else None)"
proof (cases "m_blocks (nodes fs (mf_node f))")
  case None
  have b: "node_bytes fs (mf_node f) = slice_bytes (m_data (nodes fs (mf_node f)))" using None by (rule node_bytes_slice)
  have "storage_size fs (mf_node f) = length (node_bytes fs (mf_node f))" by (rule storage_size_bytes [OF ready n])
  then show ?thesis using None k unfolding b by (auto simp: file_read_at_def slice_from_def Let_def)
next
  case (Some i)
  have "i < length (w_stores (disk fs))" by (rule node_store(1) [OF ready n Some])
  then have "store_inv (w_mem (disk fs)) (the_store fs i)"
    using ready_storage [OF ready] by (simp add: storage_inv_def world_inv_def the_store_def)
  then have ok: "file_ok (w_mem (disk fs)) (s_data (the_store fs i))" by (rule store_inv_ok)
  have b: "node_bytes fs (mf_node f) = contents (w_mem (disk fs)) (s_data (the_store fs i))"
    using Some by (simp add: node_bytes_def)
  show ?thesis
    using Some k unfolding b by (simp add: file_read_at_def blocks_read_def store_read_def root_read_contents [OF ok])
qed

text \<open>
  C24. Open files are flat files, whichever storage holds them. Any sequence of \<open>WriteAt\<close>,
  \<open>Truncate\<close> and \<open>Allocate\<close> calls through a writable handle returns the errors, and leaves the bytes,
  that the same calls make of a plain byte array: gaps, growth after a truncation and allocated space read
  as zeros (stale bytes in the spare capacity of a slice never show again), \<open>Allocate\<close> never shrinks;
  a later \<open>ReadAt\<close> returns exactly the slice of those bytes, with \<open>EOF\<close> when it is short; no path
  other than the file's own changes. So block storage and slice storage cannot be told apart.
\<close>
theorem open_files_are_flat:
  assumes "fs_ready fs" "mf_node f < next_node fs" "mf_writable f" "\<not> m_dir (nodes fs (mf_node f))" "\<forall>x\<in>set xs. file_op_ok x"
    "0 < k" "0 \<le> off"
  shows "fst (file_run f now xs fs) = fst (flat_file_run xs (node_bytes fs (mf_node f))) \<and>
    file_read_at f k off (snd (file_run f now xs fs)) =
      Some (take k (drop (nat off) (snd (flat_file_run xs (node_bytes fs (mf_node f))))),
        if length (snd (flat_file_run xs (node_bytes fs (mf_node f)))) < nat off + k then Some err_eof else None) \<and>
    tree_of (snd (file_run f now xs fs)) = (\<lambda>p. if node_at fs p = Some (mf_node f)
      then Some (EFile (snd (flat_file_run xs (node_bytes fs (mf_node f))))) else tree_of fs p)"
proof -
  note r = file_run_change [OF assms(1-5), of now]
  then have c: "content_change fs (mf_node f) (snd (flat_file_run xs (node_bytes fs (mf_node f)))) (snd (file_run f now xs fs))" by blast
  have "fs_ready (snd (file_run f now xs fs))" "mf_node f < next_node (snd (file_run f now xs fs))"
    "node_bytes (snd (file_run f now xs fs)) (mf_node f) = snd (flat_file_run xs (node_bytes fs (mf_node f)))"
    using c assms(2) by (simp_all add: content_change_def)
  then show ?thesis
    using r file_read_at_bytes [OF _ _ assms(6,7)] content_change_tree [OF c ready_shape [OF assms(1)] assms(4)] by auto
qed

text \<open>The file system with one empty file and a handle on it, for the witness.\<close>

definition sample_fs :: "bool \<Rightarrow> mem_fs" where
  "sample_fs blocks = snd (open_file ''f'' \<lparr>o_wronly = False, o_rdwr = True, o_create = True, o_excl = False, o_trunc = False, o_append = False\<rparr> 438 0
     (if blocks then new_block_mem_fs empty_world 7 else new_mem_fs empty_world))"

definition sample_file :: mem_file where
  "sample_file = \<lparr>mf_writable = True, mf_node = 1, mf_off = 0, mf_dir_off = 0\<rparr>"

lemma sample_ready: "fs_ready (sample_fs blocks)"
proof -
  let ?fs = "if blocks then new_block_mem_fs empty_world 7 else new_mem_fs empty_world"
  let ?flag = "\<lparr>o_wronly = False, o_rdwr = True, o_create = True, o_excl = False, o_trunc = False, o_append = False\<rparr>"
  have "fs_ready ?fs" using new_mem_fs_ready [OF empty_world_inv empty_world_keys] new_block_mem_fs_ready [OF empty_world_inv empty_world_keys] by simp
  from open_sim [OF this, of "''f''" ?flag 438 0] show ?thesis
    by (auto simp: sim_def no_handle_def sample_fs_def split: prod.splits sum.splits)
qed

lemma sample_node: "mf_node sample_file < next_node (sample_fs blocks) \<and> \<not> m_dir (nodes (sample_fs blocks) (mf_node sample_file)) \<and>
    node_bytes (sample_fs blocks) (mf_node sample_file) = []"
proof -
  have s: "mem_split ''f'' = [''f'']" by code_simp
  show ?thesis
    by (cases blocks) (simp_all add: sample_fs_def sample_file_def open_file_def lookup_def lookup_parent_def s new_mem_fs_def
        new_block_mem_fs_def dir_node_def child_def err_not_exist_def alloc_node_def enroll_def set_child_def update_node_def
        file_node_def new_blocks_def node_bytes_def the_store_def empty_world_def new_file_store_def empty_file_def
        contents_def nil_slice_def slice_bytes_def Let_def)
qed

theorem open_files_are_flat_witness:
  "fst (file_run sample_file 5 [FWrite [1, 2, 3] 1, FTruncate 2, FAllocate 4, FTruncate (- 1)] (sample_fs True))
     = [None, None, None, Some err_einval] \<and>
   file_read_at sample_file 9 1 (snd (file_run sample_file 5 [FWrite [1, 2, 3] 1, FTruncate 2, FAllocate 4, FTruncate (- 1)] (sample_fs True)))
     = Some ([1, 0, 0], Some err_eof)"
proof -
  let ?ops = "[FWrite [1, 2, 3] 1, FTruncate 2, FAllocate 4, FTruncate (- 1)]"
  have f: "flat_file_run ?ops [] = ([None, None, None, Some err_einval], [0, 1, 0, 0])"
    by (simp add: flat_write_def flat_resize_def max_int_def numeral_eq_Suc)
  have ok: "\<forall>x\<in>set ?ops. file_op_ok x" by (simp add: max_int_def)
  show ?thesis
    using open_files_are_flat [OF sample_ready [of True] _ _ _ ok, of sample_file 9 1 5] sample_node [of True] f
    by (simp add: sample_file_def del: file_run.simps flat_file_run.simps)
qed

end
