(* ===== verification/MemRestore.thy ===== *)
theory MemRestore
  imports MemFreeze RootProperties MemProperties
begin

text \<open>
  From a frozen \<open>MemFS\<close> to its copies: the root a capture receives from the walk passes its checks, and
  restoring it in a fresh file system shows the same tree.
\<close>

section \<open>The captured root\<close>

lemma check_stamps_built:
  assumes dist: "distinct (map fst files)" and ok: "\<forall>(n, f)\<in>set files. frozen_inv m f \<and> keyed (z_data f)"
  shows "set fs \<subseteq> set files \<Longrightarrow> check_stamps m (built_root src build dirs files) fs = None"
proof (induction fs)
  case (Cons nf fs)
  obtain n f where nf: "nf = (n, f)" by (cases nf)
  let ?r = "built_root src build dirs files"
  let ?st = "\<lambda>f. \<lparr>st_file = f, st_size = f_size (z_data f), st_blocks = f_blocks (z_data f)\<rparr>"
  have mem: "(n, f) \<in> set files" using Cons.prems nf by simp
  then have "map_of files n = Some f" using dist by simp
  then have st: "map_of (r_stamps ?r) n = Some (?st f)" by (simp add: built_root_def map_of_map)
  have z: "frozen_inv m f" "keyed (z_data f)" using ok mem by auto
  have "\<not> block_changed m (?st f) (i, e)" if ie: "(i, e) \<in> set (f_blocks (z_data f))" for i e
  proof -
    have me: "map_of (f_blocks (z_data f)) i = Some e" using z(2) ie by (simp add: keyed_def)
    then have "block_ok m (blk e)" using frozen_reach [OF z(1)] by blast
    then have "length (data_of m (blk e)) = block_size" by (auto simp: block_ok_def data_of_def)
    then have "data_of m (blk e) \<noteq> []" using block_size_pos by (metis less_numeral_extra(3) list.size(3))
    then show ?thesis using me by (simp add: block_changed_def)
  qed
  then have "\<not> list_ex (block_changed m (?st f)) (f_blocks (z_data f))" by (auto simp: list_ex_iff)
  then show ?case using Cons st nf by (simp add: file_changed_def)
qed simp

lemma check_ownership_built:
  assumes ok: "\<forall>(n, f)\<in>set files. frozen_inv m f \<and> keyed (z_data f) \<and> z_source f = r_source r"
  shows "set fs \<subseteq> set files \<Longrightarrow> check_ownership m r fs = None"
proof (induction fs)
  case (Cons nf fs)
  obtain n f where nf: "nf = (n, f)" by (cases nf)
  have z: "frozen_inv m f" "keyed (z_data f)" "z_source f = r_source r" using ok Cons.prems nf by auto
  have "\<not> block_out_of_layout m f (i, e)" if ie: "(i, e) \<in> set (f_blocks (z_data f))" for i e
  proof -
    have me: "map_of (f_blocks (z_data f)) i = Some e" using z(2) ie by (simp add: keyed_def)
    note r = frozen_reach [OF z(1) me]
    then have "i * block_size < f_size (z_data f)" by linarith
    then have "i < block_count (f_size (z_data f))" by (simp add: block_count_bounds)
    then show ?thesis using r by (auto simp: block_out_of_layout_def block_ok_def data_of_def)
  qed
  then have "\<not> list_ex (block_out_of_layout m f) (f_blocks (z_data f))" by (auto simp: list_ex_iff)
  then show ?case using Cons z nf by (simp add: frozen_inv_def)
qed simp

lemma built_root_check:
  assumes "distinct (map fst files)" "distinct dirs"
    and ok: "\<forall>(n, f)\<in>set files. frozen_inv m f \<and> keyed (z_data f) \<and> z_source f = src"
    and names: "check_root_names dirs (map (\<lambda>(n, f). (n, Some f)) files) = None"
  shows "root_check m (built_root src build dirs files) build = None"
proof -
  let ?r = "built_root src build dirs files"
  have "\<forall>(n, f)\<in>set files. frozen_inv m f \<and> keyed (z_data f)" using ok by auto
  then have "check_stamps m ?r files = None" using check_stamps_built [OF assms(1)] by blast
  moreover have "\<forall>(n, f)\<in>set files. frozen_inv m f \<and> keyed (z_data f) \<and> z_source f = r_source ?r"
    using ok by (simp add: built_root_def)
  then have "check_ownership m ?r files = None" by (rule check_ownership_built) simp
  moreover have fields: "r_build ?r = build" "r_dirs ?r = dirs" "r_files ?r = files" "r_dir_stamp ?r = dirs"
    "length (r_stamps ?r) = length files"
    by (simp_all add: built_root_def)
  ultimately show ?thesis
    using names assms(2) by (simp add: root_check_def fields distinct_remdups_id)
qed

text \<open>A root stands for a tree: its directories and files are the paths of the tree, with its contents.\<close>

definition closed_tree :: "tree \<Rightarrow> bool" where
  "closed_tree t \<longleftrightarrow> t [] = Some EDir \<and> (\<forall>p k. t (p @ [k]) \<noteq> None \<longrightarrow> t p = Some EDir \<and> proper k)"

definition root_shows :: "world \<Rightarrow> root \<Rightarrow> tree \<Rightarrow> bool" where
  "root_shows w r t \<longleftrightarrow> closed_tree t \<and> root_check (w_mem w) r (r_build r) = None \<and>
     set (r_dirs r) = rel_path ` {p. t p = Some EDir} \<and> distinct (r_dirs r) \<and>
     distinct (map fst (r_files r)) \<and> fst ` set (r_files r) = rel_path ` {p. t p \<noteq> None \<and> t p \<noteq> Some EDir} \<and>
     (\<forall>p b. t p = Some (EFile b) \<longrightarrow> (\<exists>z. map_of (r_files r) (rel_path p) = Some z \<and> z \<in> set (w_frozen w) \<and>
        contents (w_mem w) (z_data z) = b))"

lemma closed_proper: "closed_tree t \<Longrightarrow> t p \<noteq> None \<Longrightarrow> \<forall>c\<in>set p. proper c"
proof (induction p rule: rev_induct)
  case (snoc k p)
  have "t p = Some EDir \<and> proper k" using snoc.prems unfolding closed_tree_def by blast
  then show ?case using snoc.IH [OF snoc.prems(1)] by simp
qed simp

lemma closed_up: "closed_tree t \<Longrightarrow> t (p @ k # q) \<noteq> None \<Longrightarrow> t p = Some EDir"
proof (induction q arbitrary: k rule: rev_induct)
  case Nil
  then show ?case unfolding closed_tree_def by blast
next
  case (snoc j q)
  have "t ((p @ k # q) @ [j]) \<noteq> None" using snoc.prems(2) by simp
  then have "t (p @ k # q) \<noteq> None" using snoc.prems(1) unfolding closed_tree_def by fastforce
  then show ?case using snoc.IH [OF snoc.prems(1)] by blast
qed

lemma closed_below: "closed_tree t \<Longrightarrow> t p \<noteq> Some EDir \<Longrightarrow> prefix p q \<Longrightarrow> q \<noteq> p \<Longrightarrow> t q = None"
  using closed_up [of t p] by (metis append.right_neutral neq_Nil_conv prefix_def)

lemma tree_closed: "shape_inv fs \<Longrightarrow> closed_tree (tree_of fs)"
  using tree_root tree_inner unfolding closed_tree_def by blast

lemma sub_closed:
  assumes "closed_tree t" "t base = Some EDir"
  shows "closed_tree (\<lambda>p. t (base @ p))"
  using assms unfolding closed_tree_def by (metis append.assoc append.right_neutral)

text \<open>A capture that waits for the root of a source.\<close>

definition awaits :: "capture \<Rightarrow> nat \<Rightarrow> string \<Rightarrow> bool" where
  "awaits c src build \<longleftrightarrow> c_requested c \<and> \<not> c_abandoned c \<and> c_source c = Some src \<and> c_build c = build \<and>
     c_native c = None \<and> \<not> c_taken c"

lemma image_list:
  assumes a: "set xs = f ` A" "inj_on f A" "distinct xs"
  shows "\<exists>ys. xs = map f ys \<and> set ys = A \<and> distinct ys"
proof -
  let ?ys = "map (inv_into A f) xs"
  have "map f ?ys = xs" using a(1) by (simp add: comp_def) (rule map_idI, simp add: f_inv_into_f)
  moreover have "set ?ys = A" using a by (simp add: inv_into_image_cancel)
  moreover have "distinct ?ys" using a by (simp add: distinct_map inj_on_inv_into)
  ultimately show ?thesis by metis
qed

lemma closed_inj: "closed_tree t \<Longrightarrow> inj_on rel_path {p. t p \<noteq> None}"
proof (rule inj_onI)
  fix p q assume t: "closed_tree t" and a: "p \<in> {p. t p \<noteq> None}" "q \<in> {p. t p \<noteq> None}" "rel_path p = rel_path q"
  then have "\<forall>c\<in>set p. proper c" "\<forall>c\<in>set q. proper c" using closed_proper [OF t] by simp_all
  from rel_path_inject [OF this] a(3) show "p = q" by blast
qed

text \<open>Lists of names are the images of lists of paths.\<close>

lemma closed_lists:
  assumes t: "closed_tree t"
  shows "set ds = rel_path ` {p. t p = Some EDir} \<Longrightarrow> distinct ds \<Longrightarrow>
      \<exists>D. ds = map rel_path D \<and> set D = {p. t p = Some EDir} \<and> distinct D"
    "set fs = rel_path ` {p. t p \<noteq> None \<and> t p \<noteq> Some EDir} \<Longrightarrow> distinct fs \<Longrightarrow>
      \<exists>F. fs = map rel_path F \<and> set F = {p. t p \<noteq> None \<and> t p \<noteq> Some EDir} \<and> distinct F"
  by (rule image_list; (rule inj_on_subset [OF closed_inj [OF t]])?; auto)+

lemma closed_names:
  assumes t: "closed_tree t" and dirs: "set dirs = rel_path ` {p. t p = Some EDir}" "distinct dirs"
    and files: "fst ` set files = rel_path ` {p. t p \<noteq> None \<and> t p \<noteq> Some EDir}" "distinct (map fst files)"
  shows "check_root_names dirs (map (\<lambda>(n, f). (n, Some f)) files) = None"
proof -
  obtain D where D: "dirs = map rel_path D" "set D = {p. t p = Some EDir}" "distinct D"
    using closed_lists(1) [OF t dirs] by blast
  have "set (map fst files) = rel_path ` {p. t p \<noteq> None \<and> t p \<noteq> Some EDir}" using files(1) by simp
  from closed_lists(2) [OF t this files(2)]
  obtain F where F: "map fst files = map rel_path F" "set F = {p. t p \<noteq> None \<and> t p \<noteq> Some EDir}" by blast
  have up: "t (butlast p) = Some EDir" if "t p \<noteq> None" "p \<noteq> []" for p
  proof -
    have "t (butlast p @ [last p]) \<noteq> None" using that by simp
    then show ?thesis using t unfolding closed_tree_def by blast
  qed
  have root: "t [] = Some EDir" using t by (simp add: closed_tree_def)
  show ?thesis unfolding check_root_names_def
  proof (rule tree_names_pass)
    show "dirs = map rel_path D" by (rule D(1))
    have "map fst (map (\<lambda>(n, f). (n, f \<noteq> None)) (map (\<lambda>(n, f). (n, Some f)) files)) = map fst files"
      by (simp add: comp_def case_prod_beta)
    then show "map fst (map (\<lambda>(n, f). (n, f \<noteq> None)) (map (\<lambda>(n, f). (n, Some f)) files)) = map rel_path F"
      by (simp only: F(1))
    show "\<forall>p\<in>set D \<union> set F. \<forall>c\<in>set p. proper c" using closed_proper [OF t] D(2) F(2) by auto
    show "\<forall>p\<in>set F. p \<notin> set D \<and> butlast p \<in> set D"
    proof
      fix p assume "p \<in> set F"
      then have "t p \<noteq> None" "t p \<noteq> Some EDir" using F(2) by auto
      then show "p \<notin> set D \<and> butlast p \<in> set D" using up [of p] root D(2) by (cases "p = []") auto
    qed
  qed (use D root up in auto)
qed


section \<open>Freezing\<close>

lemma under_all: "under t [[]] = {p. t p \<noteq> None}"
  by (simp add: under_def)

lemma freeze_walk_all:
  assumes ready: "fs_ready fs" "block_storage fs" and base: "tree_of fs base = Some EDir" and n: "node_at fs base = Some n"
  shows "\<exists>ds fls fs'. freeze_walk sha [(n, ''.'')] [] [] fs = Some (Inr (ds, map (\<lambda>(k, z). (k, Some z)) fls), fs') \<and>
    same_view fs fs' \<and> set ds = rel_path ` {p. sub_tree fs base p = Some EDir} \<and> distinct ds \<and> distinct (map fst fls) \<and>
    fst ` set fls = rel_path ` {p. sub_tree fs base p \<noteq> None \<and> sub_tree fs base p \<noteq> Some EDir} \<and>
    (\<forall>p b. sub_tree fs base p = Some (EFile b) \<longrightarrow> (\<exists>z. map_of fls (rel_path p) = Some z \<and> z \<in> set (w_frozen (disk fs')) \<and>
       contents (w_mem (disk fs')) (z_data z) = b)) \<and>
    (\<forall>(k, z)\<in>set fls. z \<in> set (w_frozen (disk fs')) \<and> z_source z = root_source fs')"
proof -
  let ?t = "sub_tree fs base"
  have inv: "fs_inv fs" "own_sources fs" "world_keys (disk fs)" and sh: "shape_inv fs"
    using ready by (simp_all add: fs_ready_def fs_inv_def)
  have root: "?t [] = Some EDir" using base by (simp add: sub_tree_def)
  have op: "open_under fs base (under ?t [[]])"
    using ready(1) node_at_bound [OF sh] unfolding open_under_def fs_ready_def unsealed_def by blast
  have "walks_to sha base [[]] [] [] fs"
    by (rule walk_ends [OF under_finite [OF sh] refl inv ready(2) _ _ op]) (simp_all add: apart_def root)
  moreover have wa: "work_at fs base [[]] = [(n, ''.'')]" using n by (simp add: work_at_def rel_path_def)
  have D: "{p \<in> {p. ?t p \<noteq> None}. ?t p = Some EDir} = {p. ?t p = Some EDir}" by auto
  ultimately obtain ds fls fs' where w: "freeze_walk sha [(n, ''.'')] [] [] fs = Some (Inr (ds, fls), fs')" "same_view fs fs'"
    "set ds = rel_path ` {p. ?t p = Some EDir}" "distinct ds" and wk: "walked fs' ?t {p. ?t p \<noteq> None} [] fls"
    unfolding walks_to_def under_all D wa append_Nil by blast
  let ?F = "{p. ?t p \<noteq> None \<and> ?t p \<noteq> Some EDir}"
  have F: "p \<in> ?F \<longleftrightarrow> (\<exists>b. ?t p = Some (EFile b))" for p by (cases "?t p") (auto intro: tree_entry.exhaust)
  have none: "map_of fls k = None" if "k \<notin> rel_path ` ?F" for k using wk that unfolding walked_def by auto
  have some: "\<exists>z. map_of fls (rel_path p) = Some (Some z) \<and> z \<in> set (w_frozen (disk fs')) \<and>
      contents (w_mem (disk fs')) (z_data z) = b \<and> z_source z = root_source fs'" if "?t p = Some (EFile b)" for p b
    using wk that unfolding walked_def by blast
  have dist: "distinct (map fst fls)" using wk unfolding walked_def by simp
  have vals: "\<exists>z. v = Some z \<and> z \<in> set (w_frozen (disk fs')) \<and> z_source z = root_source fs'" if "(k, v) \<in> set fls" for k v
  proof -
    have m: "map_of fls k = Some v" using dist that by simp
    then have "k \<in> rel_path ` ?F" using none by fastforce
    then obtain p b where "k = rel_path p" "?t p = Some (EFile b)" using F by auto
    then show ?thesis using some m by fastforce
  qed
  let ?fls = "map (\<lambda>(k, v). (k, the v)) fls"
  have "Some (the v) = v" if "(k, v) \<in> set fls" for k v using vals [OF that] by auto
  then have conv: "map (\<lambda>(k, z). (k, Some z)) ?fls = fls" by (auto simp: comp_def case_prod_beta intro!: map_idI)
  have keys: "map fst ?fls = map fst fls" by (simp add: comp_def case_prod_beta)
  have "fst ` set fls = rel_path ` ?F"
  proof (intro equalityI subsetI)
    fix k assume "k \<in> fst ` set fls"
    then have "map_of fls k \<noteq> None" by (simp add: map_of_eq_None_iff)
    then show "k \<in> rel_path ` ?F" using none [of k] by (rule contrapos_np)
  next
    fix k assume "k \<in> rel_path ` ?F"
    then obtain p b where "k = rel_path p" "?t p = Some (EFile b)" using F by auto
    then have "map_of fls k \<noteq> None" using some by fastforce
    then show "k \<in> fst ` set fls" by (simp add: map_of_eq_None_iff)
  qed
  then have k: "fst ` set ?fls = rel_path ` ?F" by (metis keys list.set_map)
  have c: "\<forall>p b. ?t p = Some (EFile b) \<longrightarrow> (\<exists>z. map_of ?fls (rel_path p) = Some z \<and> z \<in> set (w_frozen (disk fs')) \<and>
       contents (w_mem (disk fs')) (z_data z) = b)"
    using some by (fastforce simp: map_of_map)
  have v: "\<forall>(k, z)\<in>set ?fls. z \<in> set (w_frozen (disk fs')) \<and> z_source z = root_source fs'"
    using vals by fastforce
  have f: "freeze_walk sha [(n, ''.'')] [] [] fs = Some (Inr (ds, map (\<lambda>(k, z). (k, Some z)) ?fls), fs')"
    unfolding conv by (rule w(1))
  have d: "distinct (map fst ?fls)" unfolding keys by (rule dist)
  show ?thesis
    using f w(2-4) d k c v by - (rule exI [of _ ds], rule exI [of _ ?fls], rule exI [of _ fs'], intro conjI; assumption)
qed

lemma freeze_root_spec:
  assumes ready: "fs_ready fs" "block_storage fs" and base: "tree_of fs [''mariadb''] = Some EDir"
    and c: "awaits c (root_source fs) build"
  shows "\<exists>fs' r. freeze_root sha build c fs = Some (None, c\<lparr>c_native := Some r, c_expected := Some r\<rparr>, fs') \<and>
    same_view fs fs' \<and> r_build r = build \<and> r_source r = root_source fs \<and>
    root_shows (disk fs') r (sub_tree fs [''mariadb''])"
proof -
  let ?t = "sub_tree fs [''mariadb'']"
  have sh: "shape_inv fs" using ready by (simp add: fs_ready_def fs_inv_def)
  obtain n where n: "node_at fs [''mariadb''] = Some n" using base by (auto simp: tree_of_def)
  have "mem_split ''mariadb'' = [''mariadb'']" by code_simp
  then have look: "lookup fs ''mariadb'' = Inr n" using n by (simp add: lookup_node [OF sh])
  obtain ds fls fs' where w: "freeze_walk sha [(n, ''.'')] [] [] fs = Some (Inr (ds, map (\<lambda>(k, z). (k, Some z)) fls), fs')"
    "same_view fs fs'" and d: "set ds = rel_path ` {p. ?t p = Some EDir}" "distinct ds" and f: "distinct (map fst fls)"
    "fst ` set fls = rel_path ` {p. ?t p \<noteq> None \<and> ?t p \<noteq> Some EDir}"
    and cont: "\<forall>p b. ?t p = Some (EFile b) \<longrightarrow> (\<exists>z. map_of fls (rel_path p) = Some z \<and> z \<in> set (w_frozen (disk fs')) \<and>
       contents (w_mem (disk fs')) (z_data z) = b)"
    and src: "\<forall>(k, z)\<in>set fls. z \<in> set (w_frozen (disk fs')) \<and> z_source z = root_source fs'"
    using freeze_walk_all [OF ready base n, of sha] by - (elim exE conjE, rule that, assumption+)
  have inv: "world_inv (disk fs')" "world_keys (disk fs')" and same: "block_storage fs'" "root_source fs' = root_source fs"
    using w(2) ready(2) by (simp_all add: same_view_def fs_inv_def storage_inv_def)
  have closed: "closed_tree ?t" unfolding sub_tree_def by (rule sub_closed [OF tree_closed [OF sh] base])
  let ?m = "w_mem (disk fs')" and ?src = "root_source fs"
  let ?r = "built_root ?src build ds fls"
  have ok: "\<forall>(k, z)\<in>set fls. frozen_inv ?m z \<and> keyed (z_data z) \<and> z_source z = ?src"
    using src inv same unfolding world_inv_def world_keys_def by fastforce
  have check: "root_check ?m ?r build = None"
    by (rule built_root_check [OF f(1) d(2) ok closed_names [OF closed d f(2,1)]])
  have "\<not> (\<exists>(k, z)\<in>set (map (\<lambda>(k, z). (k, Some z)) fls). z = None)" by auto
  moreover have "map (\<lambda>(k, z). (k, the z)) (map (\<lambda>(k, z). (k, Some z)) fls) = fls" by (simp add: comp_def case_prod_beta)
  ultimately have "complete_root ?m (source_of fs') build ds (map (\<lambda>(k, z). (k, Some z)) fls) c =
      (None, c\<lparr>c_native := Some ?r, c_expected := Some ?r\<rparr>)"
    using c check same unfolding complete_root_def awaits_def source_of_def by (simp add: Let_def del: map_map)
  then have "freeze_root sha build c fs = Some (None, c\<lparr>c_native := Some ?r, c_expected := Some ?r\<rparr>, fs')"
    using look w(1) by (simp add: freeze_root_def)
  moreover have "root_shows (disk fs') ?r ?t"
    using closed check d f cont by (simp add: root_shows_def built_root_def)
  ultimately show ?thesis using w(2) by (intro exI [of _ fs'] exI [of _ ?r]) (simp add: built_root_def)
qed


section \<open>Restoring\<close>

text \<open>What making directories and attaching files keeps of the process.\<close>

definition same_process :: "mem_fs \<Rightarrow> mem_fs \<Rightarrow> bool" where
  "same_process fs fs' \<longleftrightarrow> w_mem (disk fs') = w_mem (disk fs) \<and> w_frozen (disk fs') = w_frozen (disk fs) \<and>
     block_storage fs' = block_storage fs \<and> root_source fs' = root_source fs"

lemma same_process_refl [simp]: "same_process fs fs"
  by (simp add: same_process_def)

lemma same_process_trans: "same_process a b \<Longrightarrow> same_process b c \<Longrightarrow> same_process a c"
  by (simp add: same_process_def)

lemma same_process_set_child [simp]: "same_process fs (set_child p b c fs') = same_process fs fs'"
  by (simp add: same_process_def)

lemma same_process_alloc: "alloc_node nd fs = (n, fs1) \<Longrightarrow> same_process fs fs1"
  by (auto simp: alloc_node_def same_process_def)

lemma same_process_enroll: "same_process fs (enroll n fs)"
  by (simp add: same_process_def enroll_disk)

lemma mkdir_parts_process: "same_process fs (snd (mkdir_parts name perm now n ks fs))"
proof (induction ks arbitrary: n fs)
  case (Cons k ks)
  show ?case
  proof (cases "child fs n k")
    case None
    obtain c fs1 where al: "alloc_node (dir_node (Some n) k perm now) fs = (c, fs1)" by (metis surj_pair)
    have "same_process fs (set_child n k c fs1)" using same_process_alloc [OF al] by simp
    from same_process_trans [OF this Cons.IH] show ?thesis using None al by simp
  next
    case (Some c)
    then show ?thesis using Cons.IH by simp
  qed
qed simp

lemma create_process: "same_process fs (snd (open_file dst create_flags perm now fs))"
proof (cases "lookup fs dst")
  case (Inl e)
  show ?thesis
  proof (cases "lookup_parent fs dst")
    case (Inr pb)
    obtain p b where pb: "pb = (p, b)" by (cases pb)
    obtain n fs1 where al: "alloc_node (file_node p b perm now) fs = (n, fs1)" by (metis surj_pair)
    have "same_process fs (set_child p b n fs1)" using same_process_alloc [OF al] by simp
    from same_process_trans [OF this same_process_enroll [of _ n]] show ?thesis
      using Inl Inr pb al by (simp add: open_file_def create_flags_def Let_def)
  qed (simp add: open_file_def create_flags_def Inl)
qed (simp add: open_file_def create_flags_def)

lemma fresh_file_process: "same_process fs (snd (fresh_file dst now fs))"
proof -
  obtain r fs' where o: "open_file dst create_flags 384 now fs = (r, fs')" by (metis surj_pair)
  then show ?thesis using create_process [of fs dst 384 now] by (cases r) (simp_all add: fresh_file_def)
qed

text \<open>A tree with every path up to \<open>d\<close> made a directory.\<close>

lemma spec_mkdirs_clear:
  "closed_tree t \<Longrightarrow> t p = Some EDir \<Longrightarrow> \<forall>c\<in>set ks. proper c \<Longrightarrow> \<forall>q b. prefix q (p @ ks) \<longrightarrow> t q \<noteq> Some (EFile b) \<Longrightarrow>
     spec_mkdirs name p ks t = (None, \<lambda>q. if prefix q (p @ ks) then Some EDir else t q)"
proof (induction ks arbitrary: p t)
  case Nil
  have "t q = Some EDir" if pre: "prefix q p" for q
  proof (cases "q = p")
    case False
    obtain s where "p = q @ s" using pre by (auto simp: prefix_def)
    then obtain k r where p: "p = q @ k # r" using False by (cases s) auto
    have "t (q @ k # r) \<noteq> None" using Nil.prems(2) unfolding p by simp
    then show ?thesis by (rule closed_up [OF Nil.prems(1)])
  qed (simp add: Nil.prems(2))
  then show ?case by (auto simp: fun_eq_iff)
next
  case (Cons k ks)
  have eq: "(p @ [k]) @ ks = p @ k # ks" by simp
  have nf: "\<forall>q b. prefix q ((p @ [k]) @ ks) \<longrightarrow> t q \<noteq> Some (EFile b)" using Cons.prems(4) by (simp only: eq)
  have k: "proper k" "\<forall>c\<in>set ks. proper c" using Cons.prems(3) by simp_all
  show ?case
  proof (cases "t (p @ [k])")
    case None
    let ?t = "put_entry (p @ [k]) (Some EDir) t"
    have put: "?t q = (if q = p @ [k] then Some EDir else t q)" for q
      using closed_below [OF Cons.prems(1), of "p @ [k]" q] None by (auto simp: put_entry_def)
    have "closed_tree ?t"
      unfolding closed_tree_def
    proof (intro conjI allI impI)
      show "?t [] = Some EDir" using Cons.prems(1) by (simp add: put closed_tree_def)
      fix q j assume q: "?t (q @ [j]) \<noteq> None"
      show "?t q = Some EDir" "proper j"
        using q Cons.prems(1,2) k(1) None by (auto simp: put closed_tree_def split: if_splits)
    qed
    moreover have "?t (p @ [k]) = Some EDir" by (simp add: put)
    moreover have "\<forall>q b. prefix q ((p @ [k]) @ ks) \<longrightarrow> ?t q \<noteq> Some (EFile b)" using nf by (simp add: put)
    ultimately have "spec_mkdirs name (p @ [k]) ks ?t = (None, \<lambda>q. if prefix q ((p @ [k]) @ ks) then Some EDir else ?t q)"
      using Cons.IH [of ?t "p @ [k]"] k(2) by blast
    moreover have "(\<lambda>q. if prefix q (p @ k # ks) then Some EDir else ?t q) = (\<lambda>q. if prefix q (p @ k # ks) then Some EDir else t q)"
      by (auto simp: put fun_eq_iff)
    ultimately show ?thesis using None by simp
  next
    case (Some x)
    then have "x = EDir" using Cons.prems(4) by (cases x) auto
    then have "spec_mkdirs name (p @ [k]) ks t = (None, \<lambda>q. if prefix q ((p @ [k]) @ ks) then Some EDir else t q)"
      using Cons.IH [OF Cons.prems(1) _ k(2) nf] Some by simp
    then show ?thesis using Some \<open>x = EDir\<close> by simp
  qed
qed

text \<open>Where a name of the root lands.\<close>

lemma mem_split_below:
  assumes "\<forall>c\<in>set P. proper c" "P \<noteq> []" "\<forall>c\<in>set p. proper c"
  shows "mem_split (path_join (join_path P) (rel_path p)) = P @ p"
proof -
  have pp: "\<forall>c\<in>set (P @ p). proper c" using assms by auto
  have ne: "join_path P \<noteq> []" using join_path_not_rooted(1) [OF assms(1,2)] .
  have r: "rel_path p \<noteq> []" using join_path_not_rooted(1) [OF assms(3)] by (auto simp: rel_path_def)
  have "path_clean (join_path P @ CHR ''/'' # rel_path p) = join_path (P @ p)"
  proof (cases "p = []")
    case True
    have "split_on CHR ''/'' (join_path P @ CHR ''/'' # ''.'') = P @ [''.'']"
      using split_on_app [of "CHR ''/''" "join_path P" "''.''"] split_rel [OF assms(1,2)] by simp
    moreover have "foldl (clean_step False) [] P = rev P" using foldl_clean_proper [OF assms(1), of False "[]"] by simp
    moreover have "\<not> has_prefix (join_path P @ CHR ''/'' # ''.'') ''/''"
      using join_path_not_rooted(2) [OF assms(1,2)] ne by (auto simp: has_prefix_def take_Cons' append_eq_Cons_conv neq_Nil_conv)
    ultimately show ?thesis using True assms(2)
      by (simp add: path_clean_def clean_components_def clean_step_def rel_path_def)
  next
    case False
    then have "join_path P @ CHR ''/'' # rel_path p = rel_path (P @ p)"
      using join_path_append [OF assms(2) False] by (simp add: rel_path_def)
    then show ?thesis using clean_rel [OF pp] assms(2) by (simp add: rel_path_def)
  qed
  then have "path_join (join_path P) (rel_path p) = join_path (P @ p)" using ne r by (simp add: path_join_def)
  then show ?thesis by (simp add: mem_split_join [OF pp])
qed


lemma make_dirs_spec:
  assumes P: "\<forall>c\<in>set P. proper c" "P \<noteq> []"
  shows "fs_ready fs \<Longrightarrow> \<forall>p\<in>set D. \<forall>c\<in>set p. proper c \<Longrightarrow> \<forall>p\<in>set D. \<forall>q b. prefix q (P @ p) \<longrightarrow> tree_of fs q \<noteq> Some (EFile b) \<Longrightarrow>
    \<exists>fs'. make_dirs (join_path P) now (map rel_path D) fs = (None, fs') \<and> fs_ready fs' \<and> same_process fs fs' \<and>
      tree_of fs' = (\<lambda>q. if \<exists>p\<in>set D. prefix q (P @ p) then Some EDir else tree_of fs q)"
proof (induction D arbitrary: fs)
  case (Cons p D)
  let ?d = "path_join (join_path P) (rel_path p)"
  have p: "\<forall>c\<in>set p. proper c" "\<forall>q b. prefix q (P @ p) \<longrightarrow> tree_of fs q \<noteq> Some (EFile b)" using Cons.prems by simp_all
  have pp: "\<forall>c\<in>set (P @ p). proper c" using P p by auto
  note cl = tree_closed [OF ready_shape [OF Cons.prems(1)]]
  have sp: "spec_mkdirs ?d [] (P @ p) (tree_of fs) = (None, \<lambda>q. if prefix q (P @ p) then Some EDir else tree_of fs q)"
    using spec_mkdirs_clear [OF cl _ pp, of "[]"] cl p(2) by (simp add: closed_tree_def)
  obtain e fs1 where m: "mkdir_all ?d 448 now fs = (e, fs1)" by (metis surj_pair)
  have "sim (e, fs1) (None, \<lambda>q. if prefix q (P @ p) then Some EDir else tree_of fs q)"
    using mkdir_all_sim [OF Cons.prems(1), of ?d 448 now] m sp by (simp add: mem_split_below [OF P p(1)])
  then have s: "e = None" "fs_ready fs1" "tree_of fs1 = (\<lambda>q. if prefix q (P @ p) then Some EDir else tree_of fs q)"
    by (simp_all add: sim_def)
  have pr: "same_process fs fs1" using mkdir_parts_process [of fs ?d 448 now 0 "mem_split ?d"] m by (simp add: mkdir_all_def)
  have "\<forall>p\<in>set D. \<forall>q b. prefix q (P @ p) \<longrightarrow> tree_of fs1 q \<noteq> Some (EFile b)" using Cons.prems(3) by (simp add: s(3))
  then obtain fs' where "make_dirs (join_path P) now (map rel_path D) fs1 = (None, fs')" "fs_ready fs'" "same_process fs1 fs'"
    "tree_of fs' = (\<lambda>q. if \<exists>p\<in>set D. prefix q (P @ p) then Some EDir else tree_of fs1 q)"
    using Cons.IH [OF s(2)] Cons.prems(2) by auto
  moreover have "(\<lambda>q. if \<exists>p\<in>set D. prefix q (P @ p) then Some EDir else tree_of fs1 q) =
      (\<lambda>q. if \<exists>p\<in>set (p # D). prefix q (P @ p) then Some EDir else tree_of fs q)"
    by (auto simp: s(3) fun_eq_iff)
  ultimately show ?case using m s(1) same_process_trans [OF pr] by simp
qed simp

lemma fresh_file_spec:
  assumes ready: "fs_ready fs" and q: "mem_split dst = q" "q \<noteq> []"
    and free: "tree_of fs q = None" "tree_of fs (butlast q) = Some EDir"
  shows "\<exists>n fs1. fresh_file dst now fs = (Inr n, fs1) \<and> fs_ready fs1 \<and> node_at fs1 q = Some n \<and>
    tree_of fs1 = put_entry q (Some (EFile [])) (tree_of fs)"
proof -
  have "spec_step (Open dst create_flags 384) (tree_of fs) = (None, put_entry q (Some (EFile [])) (tree_of fs))"
    using q free by (simp add: parent_error_def create_flags_def)
  then have s: "sim (no_handle (open_file dst create_flags 384 now fs)) (None, put_entry q (Some (EFile [])) (tree_of fs))"
    using open_sim [OF ready, of dst create_flags 384 now] by simp
  obtain r fs1 where o: "open_file dst create_flags 384 now fs = (r, fs1)" by (metis surj_pair)
  then obtain h where h: "r = Inr h" using s by (cases r) (simp_all add: no_handle_def sim_def)
  then have f: "fs_ready fs1" "tree_of fs1 = put_entry q (Some (EFile [])) (tree_of fs)"
    using s o by (simp_all add: no_handle_def sim_def)
  have "tree_of fs1 q = Some (EFile [])" by (simp add: f(2) put_entry_def)
  then obtain n where "node_at fs1 q = Some n" by (auto simp: tree_of_def)
  then show ?thesis using f o h q by (simp add: fresh_file_def lookup_node [OF ready_shape [OF f(1)]])
qed

lemma attach_change:
  assumes ready: "fs_ready fs" and n: "n < next_node fs" "block_storage fs" "\<not> m_dir (nodes fs n)"
    and z: "z \<in> set (w_frozen (disk fs))"
  shows "content_change fs n (contents (w_mem (disk fs)) (z_data z)) (attach_store n (frozen_fork (root_source fs) z) fs)"
proof -
  let ?w = "disk fs" and ?s = "frozen_fork (root_source fs) z"
  let ?fs = "attach_store n ?s fs" and ?L = "length (w_stores (disk fs))"
  have i: "fs_inv fs" "unsealed fs" "own_sources fs" "world_keys ?w" "shape_inv fs" "storage_inv fs"
    using ready by (simp_all add: fs_ready_def fs_inv_def)
  have w: "world_inv ?w" using i(6) by (simp add: storage_inv_def)
  obtain j where j: "j < length (w_frozen ?w)" "w_frozen ?w ! j = z" using z by (metis in_set_conv_nth)
  have "frozen_inv (w_mem ?w) z" using w z by (simp add: world_inv_def)
  note f = fork_spec [OF this, of "root_source fs"]
  have step: "disk ?fs = world_step (\<lambda>_. []) ?w (ForkOf j (root_source fs))" using j by (simp add: attach_store_def)
  have nd: "nodes ?fs m = (if m = n then (nodes fs n)\<lparr>m_blocks := Some ?L\<rparr> else nodes fs m)" for m
    by (simp add: attach_store_def update_node_def)
  have rest: "next_node ?fs = next_node fs" "block_storage ?fs = block_storage fs" "root_source ?fs = root_source fs"
    "w_mem (disk ?fs) = w_mem ?w" "w_stores (disk ?fs) = w_stores ?w @ [?s]"
    by (simp_all add: attach_store_def)
  have bound: "k < ?L" if "m < next_node fs" "m_blocks (nodes fs m) = Some k" for m k
    using i(6) that by (simp add: storage_inv_def)
  have old: "the_store ?fs k = the_store fs k" if "k < ?L" for k using that by (simp add: the_store_def rest nth_append)
  have new: "the_store ?fs ?L = ?s" by (simp add: the_store_def rest)
  have "shape_inv ?fs" using i(5) by (rule shape_cong) (simp_all add: rest nd child_def)
  moreover have "storage_inv ?fs"
    unfolding storage_inv_def
  proof (intro conjI allI impI)
    show "world_inv (disk ?fs)" unfolding step using world_step_inv [OF w] by blast
    fix m assume m: "m < next_node ?fs"
    show "used (m_data (nodes ?fs m)) \<le> length (arr (m_data (nodes ?fs m)))"
      "(m_blocks (nodes ?fs m) \<noteq> None) = (block_storage ?fs \<and> \<not> m_dir (nodes ?fs m))"
      using m i(6) n by (auto simp: nd rest storage_inv_def)
    fix k assume "m_blocks (nodes ?fs m) = Some k"
    then show "k < length (w_stores (disk ?fs))"
      using m bound [of m k] by (auto simp: nd rest less_Suc_eq split: if_splits)
  next
    fix m m' k
    assume a: "m < next_node ?fs \<and> m' < next_node ?fs \<and> m_blocks (nodes ?fs m) = Some k \<and> m_blocks (nodes ?fs m') = Some k"
    moreover have "m = m'" if "m \<noteq> n" "m' \<noteq> n" using a that i(6) unfolding storage_inv_def nd rest by auto
    ultimately show "m = m'" using bound [of m k] bound [of m' k] by (auto simp: nd rest split: if_splits)
  qed
  moreover have "unsealed ?fs" "own_sources ?fs"
    using i(2,3) f new old bound by (auto simp: unsealed_def own_sources_def nd rest)
  moreover have "world_keys (disk ?fs)" unfolding step by (rule world_keys_step [OF i(4)])
  moreover have "node_bytes ?fs n = contents (w_mem ?w) (z_data z)"
    using f by (simp add: node_bytes_def nd new rest)
  moreover have "node_bytes ?fs m = node_bytes fs m" if "m < next_node fs" "m \<noteq> n" for m
    using that bound [OF that(1)] old by (simp add: node_bytes_def nd rest split: option.split)
  ultimately show ?thesis by (simp add: content_change_def fs_ready_def fs_inv_def rest nd child_def)
qed

text \<open>The entry a root puts at a path of its tree.\<close>

definition root_entry :: "memory \<Rightarrow> root \<Rightarrow> string list \<Rightarrow> tree_entry" where
  "root_entry m r p = EFile (contents m (z_data (the (map_of (r_files r) (rel_path p)))))"

lemma map_root_files_spec:
  assumes P: "\<forall>c\<in>set P. proper c" "P \<noteq> []"
  shows "fs_ready fs \<Longrightarrow> block_storage fs \<Longrightarrow> distinct F \<Longrightarrow>
    \<forall>p\<in>set F. (\<forall>c\<in>set p. proper c) \<and> p \<noteq> [] \<and> butlast p \<notin> set F \<and> tree_of fs (P @ butlast p) = Some EDir \<and> tree_of fs (P @ p) = None \<and>
      (\<exists>z. map_of (r_files r) (rel_path p) = Some z \<and> z \<in> set (w_frozen (disk fs))) \<Longrightarrow>
    \<exists>fs'. map_root_files r (join_path P) now (map rel_path F) fs = (None, fs') \<and> fs_ready fs' \<and> same_process fs fs' \<and>
      (\<forall>q. tree_of fs' q = (if \<exists>p\<in>set F. q = P @ p then Some (root_entry (w_mem (disk fs)) r (drop (length P) q)) else tree_of fs q))"
proof (induction F arbitrary: fs)
  case (Cons p F)
  let ?dst = "path_join (join_path P) (rel_path p)"
  obtain z where p: "\<forall>c\<in>set p. proper c" "p \<noteq> []" "tree_of fs (P @ butlast p) = Some EDir" "tree_of fs (P @ p) = None"
    "map_of (r_files r) (rel_path p) = Some z" "z \<in> set (w_frozen (disk fs))" using Cons.prems(4) by auto
  have "butlast (P @ p) = P @ butlast p" using p(2) by (simp add: butlast_append)
  then obtain n fs1 where o: "fresh_file ?dst now fs = (Inr n, fs1)" "fs_ready fs1" "node_at fs1 (P @ p) = Some n"
    "tree_of fs1 = put_entry (P @ p) (Some (EFile [])) (tree_of fs)"
    using fresh_file_spec [OF Cons.prems(1) mem_split_below [OF P p(1)], of now] p P(2) by auto
  have pr: "same_process fs fs1" using fresh_file_process [of fs ?dst now] o(1) by simp
  then have same: "w_mem (disk fs1) = w_mem (disk fs)" "w_frozen (disk fs1) = w_frozen (disk fs)" "block_storage fs1"
    "root_source fs1 = root_source fs" using Cons.prems(2) by (simp_all add: same_process_def)
  note sh = ready_shape [OF o(2)]
  have leaf: "\<not> m_dir (nodes fs1 n)"
    using fun_cong [OF o(4), of "P @ p"] o(3) by (auto simp: tree_of_def entry_of_def put_entry_def split: if_splits)
  let ?fs = "attach_store n (frozen_fork (root_source fs1) z) fs1"
  have ch: "content_change fs1 n (contents (w_mem (disk fs)) (z_data z)) ?fs"
    using attach_change [OF o(2) node_at_bound [OF sh o(3)] same(3) leaf, of z] p(6) same by simp
  have t: "tree_of ?fs = put_entry (P @ p) (Some (EFile (contents (w_mem (disk fs)) (z_data z)))) (tree_of fs)"
    using content_change_put [OF ch sh leaf o(3)] by (simp add: o(4) put_entry_twice)
  have put: "tree_of ?fs q = (if q = P @ p then Some (root_entry (w_mem (disk fs)) r p) else tree_of fs q)" for q
    using closed_below [OF tree_closed [OF ready_shape [OF Cons.prems(1)]], of "P @ p" q] p(4,5)
    by (auto simp: t put_entry_def root_entry_def)
  have pr2: "same_process fs ?fs" using pr by (simp add: same_process_def attach_store_def)
  then have same2: "w_mem (disk ?fs) = w_mem (disk fs)" "w_frozen (disk ?fs) = w_frozen (disk fs)" "block_storage ?fs"
    using Cons.prems(2) by (simp_all add: same_process_def)
  have ready: "fs_ready ?fs" using ch by (simp add: content_change_def)
  have rest: "\<forall>p\<in>set F. (\<forall>c\<in>set p. proper c) \<and> p \<noteq> [] \<and> butlast p \<notin> set F \<and> tree_of ?fs (P @ butlast p) = Some EDir \<and>
      tree_of ?fs (P @ p) = None \<and> (\<exists>z. map_of (r_files r) (rel_path p) = Some z \<and> z \<in> set (w_frozen (disk ?fs)))"
    using Cons.prems(3,4) unfolding same2(2) by (auto simp: put)
  obtain fs' where f: "map_root_files r (join_path P) now (map rel_path F) ?fs = (None, fs')" "fs_ready fs'" "same_process ?fs fs'"
    and tf: "\<forall>q. tree_of fs' q = (if \<exists>p\<in>set F. q = P @ p then Some (root_entry (w_mem (disk fs)) r (drop (length P) q)) else tree_of ?fs q)"
    using Cons.IH [OF ready same2(3) _ rest] Cons.prems(3) unfolding same2(1) by auto
  have "tree_of fs' q = (if \<exists>p\<in>set (p # F). q = P @ p then Some (root_entry (w_mem (disk fs)) r (drop (length P) q)) else tree_of fs q)" for q
    using tf put by auto
  then show ?case using f o(1) p(5) same_process_trans [OF pr2 f(3)] by simp
qed simp


lemma map_root_spec:
  assumes shows_t: "root_shows w r t" and ready: "fs_ready fs" "block_storage fs"
    and world: "w_mem (disk fs) = w_mem w" "w_frozen (disk fs) = w_frozen w"
    and P: "\<forall>c\<in>set P. proper c" "P \<noteq> []" and free: "\<forall>q. q \<noteq> [] \<longrightarrow> tree_of fs q = None"
  shows "\<exists>fs'. map_root r (join_path P) now fs = (None, fs') \<and> fs_ready fs' \<and> (\<forall>p. tree_of fs' (P @ p) = t p)"
proof -
  have t: "closed_tree t" and check: "root_check (w_mem w) r (r_build r) = None"
    and dirs: "set (r_dirs r) = rel_path ` {p. t p = Some EDir}" "distinct (r_dirs r)"
    and files: "fst ` set (r_files r) = rel_path ` {p. t p \<noteq> None \<and> t p \<noteq> Some EDir}" "distinct (map fst (r_files r))"
    and cont: "\<forall>p b. t p = Some (EFile b) \<longrightarrow> (\<exists>z. map_of (r_files r) (rel_path p) = Some z \<and> z \<in> set (w_frozen w) \<and>
        contents (w_mem w) (z_data z) = b)"
    using shows_t unfolding root_shows_def by - (elim conjE, assumption)+
  have rootdir: "tree_of fs [] = Some EDir" using tree_root [OF ready_shape [OF ready(1)]] .
  obtain D where D: "r_dirs r = map rel_path D" "set D = {p. t p = Some EDir}" using closed_lists(1) [OF t dirs] by blast
  have "set (sorted_names (r_files r)) = rel_path ` {p. t p \<noteq> None \<and> t p \<noteq> Some EDir}" "distinct (sorted_names (r_files r))"
    using files by (simp_all add: sorted_names_def)
  from closed_lists(2) [OF t this] obtain F where F: "sorted_names (r_files r) = map rel_path F"
    "set F = {p. t p \<noteq> None \<and> t p \<noteq> Some EDir}" "distinct F" by blast
  have pd: "\<forall>p\<in>set D. \<forall>c\<in>set p. proper c"
  proof
    fix p assume "p \<in> set D"
    then show "\<forall>c\<in>set p. proper c" using closed_proper [OF t, of p] D(2) by simp
  qed
  have "\<forall>p\<in>set D. \<forall>q b. prefix q (P @ p) \<longrightarrow> tree_of fs q \<noteq> Some (EFile b)"
  proof (intro ballI allI impI)
    fix p q b show "tree_of fs q \<noteq> Some (EFile b)" using free rootdir by (cases "q = []") simp_all
  qed
  from make_dirs_spec [OF P ready(1) pd this, of now]
  obtain fs1 where f1: "make_dirs (join_path P) now (r_dirs r) fs = (None, fs1)" "fs_ready fs1" "same_process fs fs1"
    and t1: "tree_of fs1 = (\<lambda>q. if \<exists>p\<in>set D. prefix q (P @ p) then Some EDir else tree_of fs q)"
    unfolding D(1) by blast
  have same: "w_mem (disk fs1) = w_mem w" "w_frozen (disk fs1) = w_frozen w" "block_storage fs1"
    using f1(3) world ready(2) by (simp_all add: same_process_def)
  have up: "t p = Some EDir" if pre: "prefix p q" and q: "t q = Some EDir" for p q
  proof (cases "p = q")
    case False
    obtain s where s: "q = p @ s" using pre by (auto simp: prefix_def)
    then obtain k s' where "s = k # s'" using False by (cases s) auto
    then have "t (p @ k # s') \<noteq> None" using q s by simp
    then show ?thesis by (rule closed_up [OF t])
  qed (use q in simp)
  have below: "tree_of fs1 (P @ p) = (if t p = Some EDir then Some EDir else None)" for p
  proof -
    have "(\<exists>p'\<in>set D. prefix (P @ p) (P @ p')) \<longleftrightarrow> t p = Some EDir" using up D(2) by auto
    then show ?thesis using free P(2) by (simp add: t1)
  qed
  have F_ok: "\<forall>p\<in>set F. (\<forall>c\<in>set p. proper c) \<and> p \<noteq> [] \<and> butlast p \<notin> set F \<and> tree_of fs1 (P @ butlast p) = Some EDir \<and>
      tree_of fs1 (P @ p) = None \<and> (\<exists>z. map_of (r_files r) (rel_path p) = Some z \<and> z \<in> set (w_frozen (disk fs1)))"
  proof
    fix p assume "p \<in> set F"
    then have p: "t p \<noteq> None" "t p \<noteq> Some EDir" using F(2) by simp_all
    then obtain b where b: "t p = Some (EFile b)" by (metis option.exhaust tree_entry.exhaust)
    have found: "\<exists>z. map_of (r_files r) (rel_path p) = Some z \<and> z \<in> set (w_frozen w)" using cont b by blast
    have ne: "p \<noteq> []" using p(2) t by (auto simp: closed_tree_def)
    then have "t (butlast p @ [last p]) \<noteq> None" using p(1) by simp
    then have "t (butlast p) = Some EDir" by (rule closed_up [OF t])
    then show "(\<forall>c\<in>set p. proper c) \<and> p \<noteq> [] \<and> butlast p \<notin> set F \<and> tree_of fs1 (P @ butlast p) = Some EDir \<and>
      tree_of fs1 (P @ p) = None \<and> (\<exists>z. map_of (r_files r) (rel_path p) = Some z \<and> z \<in> set (w_frozen (disk fs1)))"
      using closed_proper [OF t p(1)] ne F(2) p(2) b below same(2) found by auto
  qed
  obtain fs' where f2: "map_root_files r (join_path P) now (sorted_names (r_files r)) fs1 = (None, fs')" "fs_ready fs'"
    and t2: "\<forall>q. tree_of fs' q = (if \<exists>p\<in>set F. q = P @ p then Some (root_entry (w_mem w) r (drop (length P) q)) else tree_of fs1 q)"
    using map_root_files_spec [OF P f1(2) same(3) F(3) F_ok, of now] unfolding F(1) same(1) by blast
  have "tree_of fs' (P @ p) = t p" for p
  proof (cases "p \<in> set F")
    case True
    then obtain b where b: "t p = Some (EFile b)" using F(2) by (metis (mono_tags, lifting) mem_Collect_eq option.exhaust tree_entry.exhaust)
    then show ?thesis using True t2 cont by (force simp: root_entry_def)
  next
    case False
    then have "t p = None \<or> t p = Some EDir" using F(2) by auto
    then show ?thesis using False t2 below by auto
  qed
  then show ?thesis using f1(1) f2 check ready(2) world by (simp add: map_root_def)
qed

text \<open>
  C25. A frozen file system restores exactly. Freezing any file system whose data directory exists, for a
  capture bound to its source, always succeeds: the recursive walk ends, every file is sealed, the root
  passes all its checks (names, stamps, block layout, ownership) and is handed over by the capture, and the
  frozen file system still shows what it showed. Every fresh file system that maps the root shows under the
  data directory the tree that was frozen, with the same directories, files and contents, nothing more.
\<close>
theorem frozen_root_restores:
  assumes ready: "fs_ready fs" "block_storage fs" and base: "tree_of fs [''mariadb''] = Some EDir"
    and c: "awaits c (root_source fs) build"
  shows "\<exists>fs' r c'. freeze_root sha build c fs = Some (None, c', fs') \<and> tree_of fs' = tree_of fs \<and>
    fst (take_root (w_mem (disk fs')) build c') = Inr r \<and>
    (\<forall>src now. \<exists>fs2. map_root r ''mariadb'' now (new_block_mem_fs (disk fs') src) = (None, fs2) \<and>
       (\<forall>p. tree_of fs2 (''mariadb'' # p) = tree_of fs (''mariadb'' # p)))"
proof -
  obtain fs' r where f: "freeze_root sha build c fs = Some (None, c\<lparr>c_native := Some r, c_expected := Some r\<rparr>, fs')"
    "same_view fs fs'" "r_build r = build" "r_source r = root_source fs" "root_shows (disk fs') r (sub_tree fs [''mariadb''])"
    using freeze_root_spec [OF ready base c, of sha] by blast
  have inv: "fs_inv fs" using ready(1) by (simp add: fs_ready_def)
  have world: "world_inv (disk fs')" "world_keys (disk fs')" using f(2) by (simp_all add: same_view_def fs_inv_def storage_inv_def)
  have "root_check (w_mem (disk fs')) r build = None" using f(3,5) by (simp add: root_shows_def)
  then have take: "fst (take_root (w_mem (disk fs')) build (c\<lparr>c_native := Some r, c_expected := Some r\<rparr>)) = Inr r"
    using c f(4) by (simp add: take_root_def awaits_def)
  have "\<exists>fs2. map_root r ''mariadb'' now (new_block_mem_fs (disk fs') src) = (None, fs2) \<and>
       (\<forall>p. tree_of fs2 (''mariadb'' # p) = tree_of fs (''mariadb'' # p))" for src now
  proof -
    let ?new = "new_block_mem_fs (disk fs') src"
    have "fs_ready ?new" by (rule new_block_mem_fs_ready [OF world])
    moreover have "block_storage ?new" "disk ?new = disk fs'" by (simp_all add: new_block_mem_fs_def new_mem_fs_def)
    moreover have "\<forall>c\<in>set [''mariadb'']. proper c" by (simp add: proper_def)
    ultimately show ?thesis
      using map_root_spec [OF f(5), of ?new "[''mariadb'']" now] by (auto simp: new_tree sub_tree_def)
  qed
  then show ?thesis using f(1) take same_view_tree [OF f(2) inv] by blast
qed


text \<open>A file system with a file in its data directory, for the witness.\<close>

definition sample_made :: mem_fs where
  "sample_made = snd (mkdir ''mariadb'' 448 0 (new_block_mem_fs empty_world 7))"

definition sample_data :: mem_fs where
  "sample_data = snd (open_file ''mariadb/a'' create_flags 384 0 sample_made)"

lemma sample_data_spec: "fs_ready sample_data \<and> block_storage sample_data \<and> root_source sample_data = 7 \<and>
    tree_of sample_data [''mariadb''] = Some EDir \<and> tree_of sample_data [''mariadb'', ''a''] = Some (EFile [])"
proof -
  let ?new = "new_block_mem_fs empty_world 7"
  have split: "mem_split ''mariadb'' = [''mariadb'']" "mem_split ''mariadb/a'' = [''mariadb'', ''a'']" by code_simp+
  have "fs_ready ?new" by (rule new_block_mem_fs_ready [OF empty_world_inv empty_world_keys])
  from mkdir_sim [OF this, of "''mariadb''" 448 0]
  have m: "fs_ready sample_made" "tree_of sample_made = put_entry [''mariadb''] (Some EDir) (\<lambda>p. if p = [] then Some EDir else None)"
    by (simp_all add: sim_def sample_made_def new_tree split parent_error_def)
  have "same_process ?new sample_made"
    by (auto simp: sample_made_def mkdir_def split: sum.split prod.split option.split dest: same_process_alloc)
  moreover have "same_process sample_made sample_data" unfolding sample_data_def by (rule create_process)
  ultimately have p: "block_storage sample_data" "root_source sample_data = 7"
    by (simp_all add: same_process_def new_block_mem_fs_def)
  have "tree_of sample_made [''mariadb'', ''a''] = None" "tree_of sample_made [''mariadb''] = Some EDir"
    by (simp_all add: m(2) put_entry_def)
  then have "sim (no_handle (open_file ''mariadb/a'' create_flags 384 0 sample_made))
      (None, put_entry [''mariadb'', ''a''] (Some (EFile [])) (tree_of sample_made))"
    using open_sim [OF m(1), of "''mariadb/a''" create_flags 384 0] by (simp add: split parent_error_def create_flags_def)
  moreover have "snd (no_handle x) = snd x" for x :: "(goerr + mem_file) \<times> mem_fs"
    by (simp add: no_handle_def split: prod.split sum.split)
  ultimately have "fs_ready sample_data" "tree_of sample_data = put_entry [''mariadb'', ''a''] (Some (EFile [])) (tree_of sample_made)"
    by (simp_all add: sim_def sample_data_def)
  then show ?thesis using p by (simp add: m(2) put_entry_def)
qed

theorem frozen_root_restores_witness:
  "\<exists>fs' r c' fs2. freeze_root (\<lambda>_. []) ''b'' (snd (bind_root_source (Some 7) ''b'' (capture_request new_capture))) sample_data = Some (None, c', fs') \<and>
     map_root r ''mariadb'' 1 (new_block_mem_fs (disk fs') 8) = (None, fs2) \<and> fst (take_root (w_mem (disk fs')) ''b'' c') = Inr r \<and>
     tree_of fs2 [''mariadb'', ''a''] = Some (EFile []) \<and> tree_of fs2 [''mariadb'', ''b''] = tree_of sample_data [''mariadb'', ''b'']"
proof -
  let ?c = "snd (bind_root_source (Some 7) ''b'' (capture_request new_capture))"
  have a: "awaits ?c (root_source sample_data) ''b''"
    using sample_data_spec by (simp add: awaits_def bind_root_source_def capture_request_def new_capture_def)
  obtain fs' r c' where f: "freeze_root (\<lambda>_. []) ''b'' ?c sample_data = Some (None, c', fs')"
    "fst (take_root (w_mem (disk fs')) ''b'' c') = Inr r"
    "\<forall>src now. \<exists>fs2. map_root r ''mariadb'' now (new_block_mem_fs (disk fs') src) = (None, fs2) \<and>
       (\<forall>p. tree_of fs2 (''mariadb'' # p) = tree_of sample_data (''mariadb'' # p))"
    using frozen_root_restores [OF _ _ _ a, of "\<lambda>_. []"] sample_data_spec by blast
  then obtain fs2 where "map_root r ''mariadb'' 1 (new_block_mem_fs (disk fs') 8) = (None, fs2)"
    "\<forall>p. tree_of fs2 (''mariadb'' # p) = tree_of sample_data (''mariadb'' # p)" by blast
  then show ?thesis using f(1,2) sample_data_spec
    by (intro exI [of _ fs'], intro exI [of _ r], intro exI [of _ c'], intro exI [of _ fs2]) simp
qed

end
