(* ===== verification/LiveEndpoint.thy ===== *)
theory LiveEndpoint
  imports GoError
begin

text \<open>
  The stable endpoint over replaceable children (\<open>internal/live/endpoint.go\<close>). A child and a client
  connection are numbers. What a call outside the package answers is an argument: \<open>ans\<close> answers
  \<open>Child.Close\<close>, given the calls of \<open>Close\<close> so far, and an environment record holds what one call of
  \<open>New\<close> or \<open>Reset\<close> meets (contexts, the factory, the disconnect wait). The gate makes \<open>Reset\<close> and
  \<open>Close\<close> exclude each other, so a call is one step; connections end during the drain of \<open>Reset\<close>, whose
  events are a list. The fields \<open>ep_log\<close> and \<open>ep_started\<close> record the calls of \<open>Close\<close> and the children
  started; no operation of the code reads them. The copying of bytes and the wake-up channel are not
  modelled.
\<close>

datatype live_state = Ready | Draining | Switching | Failed | Closed

fun state_name :: "live_state \<Rightarrow> string" where
  "state_name Ready = ''ready''"
| "state_name Draining = ''draining''"
| "state_name Switching = ''switching''"
| "state_name Failed = ''failed''"
| "state_name Closed = ''closed''"

type_synonym close_log = "(nat \<times> goerr option) list"

record endpoint =
  ep_child :: "nat option"
  ep_retired :: bool
  ep_pending :: "nat list"
  ep_state :: live_state
  ep_generation :: u64
  ep_cleanup_error :: string
  ep_clients :: "nat list"
  ep_close_err :: "goerr option"
  ep_log :: close_log
  ep_started :: "nat list"

definition live_failure :: "string \<Rightarrow> string \<Rightarrow> goerr \<Rightarrow> goerr" where
  "live_failure code stage e = Diag code stage e"

section \<open>Closing children\<close>

definition close_child :: "(close_log \<Rightarrow> nat \<Rightarrow> goerr option) \<Rightarrow> nat \<Rightarrow> endpoint \<Rightarrow> goerr option \<times> endpoint" where
  "close_child ans c e = (let r = ans (ep_log e) c in (r, e\<lparr>ep_log := ep_log e @ [(c, r)]\<rparr>))"

fun cleanup_each :: "(close_log \<Rightarrow> nat \<Rightarrow> goerr option) \<Rightarrow> nat option list \<Rightarrow> goerr option \<Rightarrow> endpoint \<Rightarrow> goerr option \<times> endpoint" where
  "cleanup_each ans [] err e = (err, e)"
| "cleanup_each ans (None # cs) err e = cleanup_each ans cs err e"
| "cleanup_each ans (Some c # cs) err e =
     (case close_child ans c e of
        (None, e') \<Rightarrow> cleanup_each ans cs err e'
      | (Some cause, e') \<Rightarrow> cleanup_each ans cs (err_join [err, Some cause]) (e'\<lparr>ep_pending := ep_pending e' @ [c]\<rparr>))"

definition live_cleanup :: "(close_log \<Rightarrow> nat \<Rightarrow> goerr option) \<Rightarrow> nat option list \<Rightarrow> endpoint \<Rightarrow> goerr option \<times> endpoint" where
  "live_cleanup ans cs e =
     (case cleanup_each ans cs None e of
        (None, e') \<Rightarrow> (None, e')
      | (Some x, e') \<Rightarrow> (Some x, e'\<lparr>ep_cleanup_error := err_text x\<rparr>))"

text \<open>Cleaning what is pending: the list is taken out first, what fails goes back in.\<close>

definition cleanup_pending :: "(close_log \<Rightarrow> nat \<Rightarrow> goerr option) \<Rightarrow> nat option list \<Rightarrow> endpoint \<Rightarrow> goerr option \<times> endpoint" where
  "cleanup_pending ans extra e = live_cleanup ans (map Some (ep_pending e) @ extra) (e\<lparr>ep_pending := []\<rparr>)"

section \<open>Starting\<close>

record new_env =
  n_ctx :: "goerr option"
  n_check :: "goerr option"
  n_reserve :: "goerr option"
  n_start :: "goerr \<times> nat option + nat"
  n_listen :: "goerr option"
  n_ctx_late :: "goerr option"

definition aborted :: "(close_log \<Rightarrow> nat \<Rightarrow> goerr option) \<Rightarrow> nat \<Rightarrow> goerr \<Rightarrow> endpoint option \<times> goerr option" where
  "aborted ans c cause =
     (let r = ans [] c; err = err_join [Some cause, r] in
      case r of
        None \<Rightarrow> (None, err)
      | Some x \<Rightarrow>
          (Some \<lparr>ep_child = None, ep_retired = False, ep_pending = [c], ep_state = Closed, ep_generation = 0,
                 ep_cleanup_error = err_text x, ep_clients = [], ep_close_err = err, ep_log = [(c, r)], ep_started = [c]\<rparr>, err))"

definition new_endpoint ::
  "(close_log \<Rightarrow> nat \<Rightarrow> goerr option) \<Rightarrow> (nat \<Rightarrow> int) \<Rightarrow> int \<Rightarrow> new_env \<Rightarrow> endpoint option \<times> goerr option" where
  "new_endpoint ans capacity shutdown v =
     (case n_ctx v of Some x \<Rightarrow> (None, Some x)
      | None \<Rightarrow>
          if shutdown \<le> 0 then (None, Some (Sentinel ''shutdown timeout must be positive''))
          else case n_check v of Some x \<Rightarrow> (None, Some (live_failure ''closed'' ''live_precondition'' x))
      | None \<Rightarrow>
          (case n_reserve v of Some x \<Rightarrow> (None, Some x)
      | None \<Rightarrow>
          (case n_start v of
             Inl (x, Some c) \<Rightarrow> aborted ans c x
           | Inl (x, None) \<Rightarrow> (None, Some x)
           | Inr c \<Rightarrow>
               if capacity c \<le> 0 then aborted ans c (Sentinel ''invalid child capacity'')
               else case n_listen v of Some x \<Rightarrow> aborted ans c x
               | None \<Rightarrow>
                   (case n_ctx_late v of Some x \<Rightarrow> aborted ans c x
                    | None \<Rightarrow>
                        (Some \<lparr>ep_child = Some c, ep_retired = False, ep_pending = [], ep_state = Ready, ep_generation = 0,
                               ep_cleanup_error = [], ep_clients = [], ep_close_err = None, ep_log = [], ep_started = [c]\<rparr>, None)))))"

section \<open>Connections\<close>

text \<open>One turn of the accept loop; \<open>failing\<close> is whether \<open>Child.Failure\<close> answers an error.\<close>

definition accept_client_live :: "(nat \<Rightarrow> int) \<Rightarrow> bool \<Rightarrow> nat \<Rightarrow> endpoint \<Rightarrow> bool \<times> endpoint" where
  "accept_client_live capacity failing k e =
     (if ep_state e \<noteq> Ready \<or> failing \<or> capacity (the (ep_child e)) \<le> int (length (ep_clients e)) then (False, e)
      else (True, e\<lparr>ep_clients := ep_clients e @ [k]\<rparr>))"

definition end_client :: "nat \<Rightarrow> endpoint \<Rightarrow> endpoint" where
  "end_client k e = e\<lparr>ep_clients := removeAll k (ep_clients e)\<rparr>"

record live_status =
  ls_state :: string
  ls_generation :: u64
  ls_active :: nat
  ls_cleanup_error :: string

definition live_status_of :: "bool \<Rightarrow> endpoint \<Rightarrow> live_status" where
  "live_status_of failing e =
     \<lparr>ls_state = state_name (if ep_state e = Ready \<and> failing then Failed else ep_state e),
      ls_generation = ep_generation e, ls_active = length (ep_clients e), ls_cleanup_error = ep_cleanup_error e\<rparr>"

section \<open>Reset\<close>

datatype drain_event =
    ClientLeft nat
  | DrainCancelled goerr
  | DrainExpired

record reset_env =
  r_lock :: "goerr option"
  r_check :: "goerr option"
  r_wait_failed :: "goerr option"
  r_reserve :: "goerr option"
  r_drain :: "drain_event list"
  r_ctx_drained :: "goerr option"
  r_start :: "goerr \<times> nat option + nat"
  r_wait :: "goerr option"
  r_ctx_commit :: "goerr option"

definition retire :: "(close_log \<Rightarrow> nat \<Rightarrow> goerr option) \<Rightarrow> goerr option \<Rightarrow> endpoint \<Rightarrow> goerr option \<times> endpoint" where
  "retire ans wait e =
     (if ep_retired e then (None, e)
      else case wait of
        Some x \<Rightarrow> (Some x, e)
      | None \<Rightarrow>
          (case close_child ans (the (ep_child e)) e of
             (Some x, e') \<Rightarrow> (Some x, e')
           | (None, e') \<Rightarrow> (None, e'\<lparr>ep_retired := True\<rparr>)))"

definition failed :: "(close_log \<Rightarrow> nat \<Rightarrow> goerr option) \<Rightarrow> goerr \<Rightarrow> nat option \<Rightarrow> endpoint \<Rightarrow> goerr option \<times> endpoint" where
  "failed ans err candidate e =
     (case live_cleanup ans [candidate] e of
        (c, e') \<Rightarrow> (Some (live_failure ''unusable'' ''live_replace'' (the (err_join [Some err, c]))), e'\<lparr>ep_state := Failed\<rparr>))"

text \<open>The drain loop; \<open>None\<close> is a wait that the events given do not end.\<close>

fun drain_loop :: "live_state \<Rightarrow> drain_event list \<Rightarrow> endpoint \<Rightarrow> (goerr option \<times> endpoint) option" where
  "drain_loop previous [] e = (if ep_clients e = [] then Some (None, e) else None)"
| "drain_loop previous (v # vs) e =
     (if ep_clients e = [] then Some (None, e)
      else case v of
        ClientLeft k \<Rightarrow> drain_loop previous vs (end_client k e)
      | DrainCancelled x \<Rightarrow> Some (Some (live_failure ''timeout'' ''live_drain'' x), e\<lparr>ep_state := previous\<rparr>)
      | DrainExpired \<Rightarrow>
          Some (Some (live_failure ''busy'' ''live_drain'' (Sentinel ''close all physical SQL connections before reset'')),
                e\<lparr>ep_state := previous\<rparr>))"

text \<open>What \<open>Reset\<close> does once drained: clean up, start, check, retire, commit.\<close>

definition reset_switch ::
  "(close_log \<Rightarrow> nat \<Rightarrow> goerr option) \<Rightarrow> (nat \<Rightarrow> int) \<Rightarrow> reset_env \<Rightarrow> endpoint \<Rightarrow> goerr option \<times> endpoint" where
  "reset_switch ans capacity v e =
     (case cleanup_pending ans [] (e\<lparr>ep_state := Switching\<rparr>) of
        (Some x, e1) \<Rightarrow> failed ans x None e1
      | (None, e1) \<Rightarrow>
          (case r_start v of
             Inl (x, c) \<Rightarrow>
               failed ans x c (e1\<lparr>ep_started := ep_started e1 @ (case c of None \<Rightarrow> [] | Some k \<Rightarrow> [k])\<rparr>)
           | Inr c \<Rightarrow>
               let e2 = e1\<lparr>ep_started := ep_started e1 @ [c]\<rparr> in
               if capacity c \<le> 0 then failed ans (Sentinel ''invalid child capacity'') (Some c) e2
               else case retire ans (r_wait v) e2 of
                 (Some x, e3) \<Rightarrow> failed ans x (Some c) e3
               | (None, e3) \<Rightarrow>
                   (case r_ctx_commit v of
                      Some x \<Rightarrow> failed ans x (Some c) e3
                    | None \<Rightarrow>
                        (None, e3\<lparr>ep_child := Some c, ep_retired := False, ep_state := Ready,
                                  ep_generation := ep_generation e3 + 1, ep_cleanup_error := []\<rparr>))))"

definition reset_drain ::
  "(close_log \<Rightarrow> nat \<Rightarrow> goerr option) \<Rightarrow> (nat \<Rightarrow> int) \<Rightarrow> reset_env \<Rightarrow> live_state \<Rightarrow> endpoint \<Rightarrow> (goerr option \<times> endpoint) option" where
  "reset_drain ans capacity v previous e =
     (case r_reserve v of
        Some x \<Rightarrow> Some (Some x, e)
      | None \<Rightarrow>
          (case drain_loop previous (r_drain v) (e\<lparr>ep_state := Draining\<rparr>) of
             None \<Rightarrow> None
           | Some (Some x, e1) \<Rightarrow> Some (Some x, e1)
           | Some (None, e1) \<Rightarrow>
               (case r_ctx_drained v of
                  Some x \<Rightarrow> Some (Some x, e1\<lparr>ep_state := previous\<rparr>)
                | None \<Rightarrow> Some (reset_switch ans capacity v e1))))"

definition reset ::
  "(close_log \<Rightarrow> nat \<Rightarrow> goerr option) \<Rightarrow> (nat \<Rightarrow> int) \<Rightarrow> int \<Rightarrow> reset_env \<Rightarrow> endpoint \<Rightarrow> (goerr option \<times> endpoint) option" where
  "reset ans capacity drain v e =
     (if drain \<le> 0
      then Some (Some (live_failure ''invalid_options'' ''live_precondition'' (Sentinel ''drain timeout must be positive'')), e)
      else case r_lock v of Some x \<Rightarrow> Some (Some x, e)
      | None \<Rightarrow>
          if ep_state e = Closed
          then Some (Some (live_failure ''closed'' ''live_precondition'' (Sentinel ''live is closed'')), e)
          else case r_check v of Some x \<Rightarrow> Some (Some (live_failure ''closed'' ''live_precondition'' x), e)
          | None \<Rightarrow>
              if ep_state e = Failed
              then (case cleanup_pending ans [] e of
                      (Some x, e1) \<Rightarrow> Some (failed ans x None e1)
                    | (None, e1) \<Rightarrow>
                        (case retire ans (r_wait_failed v) e1 of
                           (Some x, e2) \<Rightarrow> Some (failed ans x None e2)
                         | (None, e2) \<Rightarrow> reset_drain ans capacity v Failed e2))
              else reset_drain ans capacity v (ep_state e) e)"

section \<open>Close\<close>

text \<open>\<open>stuck\<close>: the connections whose relay has not ended when the shutdown time is over.\<close>

definition err_relay_timeout :: goerr where "err_relay_timeout = Sentinel ''live relay cleanup timed out''"

definition close_endpoint :: "(close_log \<Rightarrow> nat \<Rightarrow> goerr option) \<Rightarrow> nat list \<Rightarrow> endpoint \<Rightarrow> goerr option \<times> endpoint" where
  "close_endpoint ans stuck e =
     (if ep_state e = Closed
      then (case cleanup_pending ans [] e of (x, e') \<Rightarrow> (ep_close_err e', e'))
      else
        let left = filter (\<lambda>k. k \<in> set stuck) (ep_clients e);
            e1 = e\<lparr>ep_state := Closed, ep_clients := left,
                   ep_close_err := if left = [] then ep_close_err e else Some err_relay_timeout\<rparr> in
        case cleanup_pending ans [ep_child e1] e1 of
          (x, e2) \<Rightarrow>
            let err = err_join [ep_close_err e2, x] in (err, e2\<lparr>ep_close_err := err\<rparr>))"

definition final_cleanup :: "(close_log \<Rightarrow> nat \<Rightarrow> goerr option) \<Rightarrow> nat list \<Rightarrow> endpoint \<Rightarrow> goerr option \<times> endpoint" where
  "final_cleanup ans stuck e =
     (case close_endpoint ans stuck e of
        (first, e1) \<Rightarrow> (case cleanup_pending ans [] e1 of (x, e2) \<Rightarrow> (err_join [first, x], e2)))"

end
