(* ===== verification/LiveProperties.thy ===== *)
theory LiveProperties
  imports LiveEndpoint Prelude
begin

text \<open>
  The properties of the stable endpoint: no child is lost, a reset switches or keeps what was, a closed
  endpoint stays closed.
\<close>

section \<open>Accounting of children\<close>

text \<open>Every started child is one of \<open>X\<close>, pending cleanup, or was closed without an error.\<close>

definition accounted :: "nat set \<Rightarrow> endpoint \<Rightarrow> bool" where
  "accounted X e \<longleftrightarrow> (\<forall>c\<in>set (ep_started e). c \<in> X \<or> c \<in> set (ep_pending e) \<or> (c, None) \<in> set (ep_log e))"

definition current :: "endpoint \<Rightarrow> nat set" where
  "current e = set_option (ep_child e)"

text \<open>What a cleanup leaves alone; the log only grows.\<close>

definition only_cleans :: "endpoint \<Rightarrow> endpoint \<Rightarrow> bool" where
  "only_cleans e e' \<longleftrightarrow> ep_child e' = ep_child e \<and> ep_retired e' = ep_retired e \<and> ep_state e' = ep_state e \<and>
     ep_generation e' = ep_generation e \<and> ep_clients e' = ep_clients e \<and> ep_started e' = ep_started e \<and>
     ep_close_err e' = ep_close_err e \<and> set (ep_log e) \<subseteq> set (ep_log e')"

lemma only_cleans_refl: "only_cleans e e"
  by (simp add: only_cleans_def)

lemma only_cleans_trans: "only_cleans a b \<Longrightarrow> only_cleans b c \<Longrightarrow> only_cleans a c"
  by (auto simp: only_cleans_def)

lemma close_child_spec:
  "close_child ans c e = (r, e') \<Longrightarrow> only_cleans e e' \<and> ep_pending e' = ep_pending e \<and> (c, r) \<in> set (ep_log e')"
  by (auto simp: close_child_def only_cleans_def Let_def)

lemma cleanup_each_spec:
  "accounted (X \<union> {c. Some c \<in> set cs}) e \<Longrightarrow> cleanup_each ans cs err e = (r, e') \<Longrightarrow> only_cleans e e' \<and> accounted X e'"
proof (induction ans cs err e rule: cleanup_each.induct)
  case (1 ans err e)
  then show ?case by (simp add: only_cleans_refl)
next
  case (2 ans cs err e)
  then show ?case by simp
next
  case (3 ans c cs err e)
  obtain q e1 where cl: "close_child ans c e = (q, e1)" by (metis surj_pair)
  note s = close_child_spec [OF cl]
  show ?case
  proof (cases q)
    case None
    have "accounted (X \<union> {c. Some c \<in> set cs}) e1"
      using "3.prems"(1) s None by (auto simp: accounted_def only_cleans_def)
    moreover have "cleanup_each ans cs err e1 = (r, e')" using "3.prems"(2) cl None by simp
    ultimately have "only_cleans e1 e' \<and> accounted X e'" using "3.IH"(1) [OF cl [symmetric] None] by blast
    then show ?thesis using s only_cleans_trans by blast
  next
    case (Some x)
    let ?e = "e1\<lparr>ep_pending := ep_pending e1 @ [c]\<rparr>"
    have "accounted (X \<union> {c. Some c \<in> set cs}) ?e"
      using "3.prems"(1) s by (auto simp: accounted_def only_cleans_def)
    moreover have "cleanup_each ans cs (err_join [err, Some x]) ?e = (r, e')" using "3.prems"(2) cl Some by simp
    ultimately have "only_cleans ?e e' \<and> accounted X e'" using "3.IH"(2) [OF cl [symmetric] Some] by blast
    moreover have "only_cleans e ?e" using s by (simp add: only_cleans_def)
    ultimately show ?thesis using only_cleans_trans by blast
  qed
qed

lemma cleanup_spec:
  assumes "accounted (X \<union> {c. Some c \<in> set cs}) e" "live_cleanup ans cs e = (r, e')"
  shows "only_cleans e e' \<and> accounted X e'"
proof -
  obtain q e1 where c: "cleanup_each ans cs None e = (q, e1)" by (metis surj_pair)
  show ?thesis using cleanup_each_spec [OF assms(1) c] assms(2) c
    by (cases q) (auto simp: live_cleanup_def only_cleans_def accounted_def)
qed

lemma cleanup_pending_spec:
  assumes "accounted (X \<union> {c. Some c \<in> set extra}) e" "cleanup_pending ans extra e = (r, e')"
  shows "only_cleans e e' \<and> accounted X e'"
proof -
  have "accounted (X \<union> {c. Some c \<in> set (map Some (ep_pending e) @ extra)}) (e\<lparr>ep_pending := []\<rparr>)"
    using assms(1) by (auto simp: accounted_def)
  from cleanup_spec [OF this] assms(2) show ?thesis by (simp add: cleanup_pending_def only_cleans_def)
qed

lemma cleanup_each_none:
  "cleanup_each ans cs err e = (r, e') \<Longrightarrow> (err \<noteq> None \<longrightarrow> r \<noteq> None) \<and> (r = None \<longrightarrow> ep_pending e' = ep_pending e)"
proof (induction ans cs err e rule: cleanup_each.induct)
  case (3 ans c cs err e)
  obtain q e1 where cl: "close_child ans c e = (q, e1)" by (metis surj_pair)
  show ?case
  proof (cases q)
    case None
    then show ?thesis using "3.IH"(1) [OF cl [symmetric] None] "3.prems" cl close_child_spec [OF cl] by simp
  next
    case (Some x)
    have "err_join [err, Some x] \<noteq> None" by (cases err) simp_all
    then show ?thesis using "3.IH"(2) [OF cl [symmetric] Some] "3.prems" cl Some by auto
  qed
qed simp_all

lemma cleanup_pending_none:
  "cleanup_pending ans extra e = (None, e') \<Longrightarrow> ep_pending e' = []"
  by (auto simp: cleanup_pending_def live_cleanup_def dest: cleanup_each_none split: prod.splits option.splits)

lemma retire_spec:
  assumes "accounted X e" "ep_child e = Some c" "ep_retired e \<longrightarrow> (c, None) \<in> set (ep_log e)" "retire ans w e = (r, e')"
  shows "accounted X e' \<and> ep_child e' = ep_child e \<and> ep_state e' = ep_state e \<and> ep_generation e' = ep_generation e \<and>
    ep_clients e' = ep_clients e \<and> ep_started e' = ep_started e \<and> ep_pending e' = ep_pending e \<and> ep_close_err e' = ep_close_err e \<and>
    (ep_retired e' \<longrightarrow> (c, None) \<in> set (ep_log e')) \<and> (r = None \<longrightarrow> ep_retired e') \<and> set (ep_log e) \<subseteq> set (ep_log e')"
proof -
  obtain q e1 where cl: "close_child ans c e = (q, e1)" by (metis surj_pair)
  note s = close_child_spec [OF cl]
  have acc: "accounted X e1" using assms(1) s by (auto simp: accounted_def only_cleans_def)
  then have acc': "accounted X (e1\<lparr>ep_retired := True\<rparr>)" by (simp add: accounted_def)
  show ?thesis
    using assms s cl acc acc' by (cases "ep_retired e"; cases w; cases q) (auto simp: retire_def only_cleans_def)
qed

lemma failed_spec:
  assumes "accounted (X \<union> set_option k) e" "failed ans x k e = (r, e')"
  shows "accounted X e' \<and> ep_state e' = Failed \<and> ep_child e' = ep_child e \<and> ep_retired e' = ep_retired e \<and>
    ep_generation e' = ep_generation e \<and> ep_clients e' = ep_clients e \<and> ep_started e' = ep_started e \<and>
    ep_close_err e' = ep_close_err e \<and> set (ep_log e) \<subseteq> set (ep_log e') \<and> (\<exists>y. r = Some (Diag ''unusable'' ''live_replace'' y))"
proof -
  obtain q e1 where c: "live_cleanup ans [k] e = (q, e1)" by (metis surj_pair)
  have "accounted (X \<union> {c. Some c \<in> set [k]}) e" using assms(1) by (cases k) simp_all
  from cleanup_spec [OF this c] show ?thesis
    using assms(2) c by (auto simp: failed_def live_failure_def only_cleans_def accounted_def)
qed

section \<open>One reset\<close>

text \<open>The invariant between calls.\<close>

definition live_inv :: "(nat \<Rightarrow> int) \<Rightarrow> endpoint \<Rightarrow> bool" where
  "live_inv capacity e \<longleftrightarrow> accounted (if ep_state e = Closed then {} else current e) e \<and>
     ep_state e \<in> {Ready, Failed, Closed} \<and>
     (ep_state e \<noteq> Closed \<longrightarrow> (\<exists>c. ep_child e = Some c \<and> (ep_retired e \<longrightarrow> (c, None) \<in> set (ep_log e)))) \<and>
     (ep_state e = Failed \<longrightarrow> ep_clients e = []) \<and> (ep_state e = Ready \<longrightarrow> ep_pending e = [] \<and> \<not> ep_retired e) \<and>
     (ep_clients e \<noteq> [] \<longrightarrow> int (length (ep_clients e)) \<le> capacity (the (ep_child e)))"

text \<open>The ways a reset ends, seen from before: it switched, it kept everything, or it failed.\<close>

definition switched :: "endpoint \<Rightarrow> goerr option \<Rightarrow> endpoint \<Rightarrow> bool" where
  "switched e r e' \<longleftrightarrow> r = None \<and> ep_state e' = Ready \<and> ep_generation e' = ep_generation e + 1 \<and> ep_clients e' = [] \<and>
     ep_cleanup_error e' = [] \<and> \<not> ep_retired e' \<and> (the (ep_child e), None) \<in> set (ep_log e') \<and>
     (\<exists>c. ep_child e' = Some c \<and> ep_started e' = ep_started e @ [c])"

definition kept :: "endpoint \<Rightarrow> goerr option \<Rightarrow> endpoint \<Rightarrow> bool" where
  "kept e r e' \<longleftrightarrow> r \<noteq> None \<and> ep_state e' = ep_state e \<and> ep_generation e' = ep_generation e \<and> ep_child e' = ep_child e \<and>
     ep_started e' = ep_started e \<and> set (ep_clients e') \<subseteq> set (ep_clients e)"

definition broken :: "endpoint \<Rightarrow> goerr option \<Rightarrow> endpoint \<Rightarrow> bool" where
  "broken e r e' \<longleftrightarrow> (\<exists>y. r = Some (Diag ''unusable'' ''live_replace'' y)) \<and> ep_state e' = Failed \<and>
     ep_generation e' = ep_generation e \<and> ep_child e' = ep_child e \<and>
     (\<exists>cs. ep_started e' = ep_started e @ cs)"

definition grows :: "endpoint \<Rightarrow> endpoint \<Rightarrow> bool" where
  "grows e e' \<longleftrightarrow> set (ep_log e) \<subseteq> set (ep_log e')"

lemma reset_switch_spec:
  assumes acc: "accounted {c} e" and c: "ep_child e = Some c" "ep_retired e \<longrightarrow> (c, None) \<in> set (ep_log e)"
    and cl: "ep_clients e = []" and r: "reset_switch ans capacity v e = (r, e')"
  shows "live_inv capacity e' \<and> (switched e r e' \<or> broken e r e') \<and> grows e e'"
proof -
  obtain p e1 where p: "cleanup_pending ans [] (e\<lparr>ep_state := Switching\<rparr>) = (p, e1)" by (metis surj_pair)
  have "accounted ({c} \<union> {c. Some c \<in> set []}) (e\<lparr>ep_state := Switching\<rparr>)" using acc by (simp add: accounted_def)
  note s1 = cleanup_pending_spec [OF this p]
  have pn: "p = None \<longrightarrow> ep_pending e1 = []" using cleanup_pending_none p by blast
  have e1: "accounted {c} e1" "ep_child e1 = Some c" "ep_retired e1 \<longrightarrow> (c, None) \<in> set (ep_log e1)" "ep_clients e1 = []"
    "ep_generation e1 = ep_generation e" "ep_started e1 = ep_started e" "grows e e1"
    using s1 c cl by (auto simp: only_cleans_def grows_def)
  have fail: ?thesis
    if f: "failed ans x k f0 = (r, e')" and f0: "accounted ({c} \<union> set_option k) f0" "ep_child f0 = Some c"
      "ep_retired f0 \<longrightarrow> (c, None) \<in> set (ep_log f0)" "ep_clients f0 = []" "ep_generation f0 = ep_generation e"
      "\<exists>cs. ep_started f0 = ep_started e @ cs" "grows e f0" for x k f0
  proof -
    note s = failed_spec [OF f0(1) f]
    have "live_inv capacity e'" using s f0 by (auto simp: live_inv_def current_def)
    moreover have "broken e r e'" using s f0 c by (simp add: broken_def)
    moreover have "grows e e'" using s f0(7) by (auto simp: grows_def)
    ultimately show ?thesis by blast
  qed
  show ?thesis
  proof (cases p)
    case (Some x)
    then show ?thesis using fail [of x None e1] r p e1 by (simp add: reset_switch_def)
  next
    case None
    show ?thesis
    proof (cases "r_start v")
      case (Inl xk)
      obtain x k where xk: "xk = (x, k)" by (cases xk)
      let ?f = "e1\<lparr>ep_started := ep_started e1 @ (case k of None \<Rightarrow> [] | Some k \<Rightarrow> [k])\<rparr>"
      have "accounted ({c} \<union> set_option k) ?f" using e1(1) by (cases k) (auto simp: accounted_def)
      then show ?thesis using fail [of x k ?f] r p None Inl xk e1 by (simp add: reset_switch_def grows_def)
    next
      case (Inr k)
      let ?f = "e1\<lparr>ep_started := ep_started e1 @ [k]\<rparr>"
      have f: "accounted {c, k} ?f" using e1(1) by (auto simp: accounted_def)
      show ?thesis
      proof (cases "capacity k \<le> 0")
        case True
        then show ?thesis
          using fail [of "Sentinel ''invalid child capacity''" "Some k" ?f] r p None Inr e1 f
          by (simp add: reset_switch_def grows_def insert_commute)
      next
        case False
        obtain q e3 where q: "retire ans (r_wait v) ?f = (q, e3)" by (metis surj_pair)
        have fc: "ep_child ?f = Some c" "ep_retired ?f \<longrightarrow> (c, None) \<in> set (ep_log ?f)" using e1 by simp_all
        note s3 = retire_spec [OF f fc q]
        have g3: "accounted ({c} \<union> set_option (Some k)) e3" "ep_child e3 = Some c" "ep_retired e3 \<longrightarrow> (c, None) \<in> set (ep_log e3)"
          "ep_clients e3 = []" "ep_generation e3 = ep_generation e" "ep_started e3 = ep_started e @ [k]" "grows e e3"
          using s3 e1 by (auto simp: grows_def insert_commute)
        show ?thesis
        proof (cases q)
          case (Some x)
          then show ?thesis using fail [of x "Some k" e3] r p None Inr False q g3 by (simp add: reset_switch_def)
        next
          case qn: None
          show ?thesis
          proof (cases "r_ctx_commit v")
            case (Some x)
            then show ?thesis using fail [of x "Some k" e3] r p None Inr False q qn g3 by (simp add: reset_switch_def)
          next
            case rn: None
            have e': "r = None" "e' = e3\<lparr>ep_child := Some k, ep_retired := False, ep_state := Ready,
                ep_generation := ep_generation e3 + 1, ep_cleanup_error := []\<rparr>"
              using r p None Inr False q qn rn by (simp_all add: reset_switch_def)
            have done_c: "(c, None) \<in> set (ep_log e3)" using s3 qn by blast
            moreover have "ep_pending e3 = []" using s3 pn None by simp
            ultimately have "live_inv capacity e'" using g3 e' by (auto simp: live_inv_def current_def accounted_def)
            moreover have "switched e r e'" using e' g3 done_c c by (simp add: switched_def)
            moreover have "grows e e'" using e' g3(7) by (simp add: grows_def)
            ultimately show ?thesis by blast
          qed
        qed
      qed
    qed
  qed
qed

section \<open>The whole reset\<close>

lemma drain_loop_spec:
  "drain_loop p vs e = Some (r, e') \<Longrightarrow>
     \<exists>cs. set cs \<subseteq> set (ep_clients e) \<and> length cs \<le> length (ep_clients e) \<and>
       e' = e\<lparr>ep_clients := cs, ep_state := (if r = None then ep_state e else p)\<rparr> \<and> (r = None \<longrightarrow> cs = [])"
proof (induction p vs e rule: drain_loop.induct)
  case (1 p e)
  then show ?case by (auto split: if_splits intro!: exI [of _ "[]"])
next
  case (2 p v vs e)
  show ?case
  proof (cases "ep_clients e = []")
    case True
    then show ?thesis using "2.prems" by auto
  next
    case False
    show ?thesis
    proof (cases v)
      case (ClientLeft k)
      have "drain_loop p vs (end_client k e) = Some (r, e')" using "2.prems" False ClientLeft by simp
      moreover have "ep_state (end_client k e) = ep_state e" "ep_clients (end_client k e) = removeAll k (ep_clients e)"
        "end_client k e\<lparr>ep_clients := cs, ep_state := s\<rparr> = e\<lparr>ep_clients := cs, ep_state := s\<rparr>" for cs s
        by (simp_all add: end_client_def)
      ultimately obtain cs where
        "set cs \<subseteq> set (removeAll k (ep_clients e))" "length cs \<le> length (removeAll k (ep_clients e))"
        "e' = e\<lparr>ep_clients := cs, ep_state := (if r = None then ep_state e else p)\<rparr>" "r = None \<longrightarrow> cs = []"
        using "2.IH" [OF False ClientLeft] by metis
      moreover have "length (removeAll k (ep_clients e)) \<le> length (ep_clients e)" by (simp add: length_removeAll_less_eq)
      ultimately show ?thesis by (intro exI [of _ cs]) (auto intro: order_trans)
    next
      case (DrainCancelled x)
      then show ?thesis using "2.prems" False by (intro exI [of _ "ep_clients e"]) auto
    next
      case DrainExpired
      then show ?thesis using "2.prems" False by (intro exI [of _ "ep_clients e"]) auto
    qed
  qed
qed

lemma drain_bounded:
  "ep_clients e = [] \<or> DrainExpired \<in> set vs \<or> DrainCancelled x \<in> set vs \<Longrightarrow> drain_loop p vs e \<noteq> None"
  by (induction p vs e rule: drain_loop.induct) (auto split: drain_event.splits)

lemma reset_drain_spec:
  assumes inv: "live_inv capacity e" "ep_state e \<noteq> Closed" and r: "reset_drain ans capacity v (ep_state e) e = Some (r, e')"
  shows "live_inv capacity e' \<and> (switched e r e' \<or> kept e r e' \<or> broken e r e') \<and> grows e e'"
proof (cases "r_reserve v")
  case (Some x)
  then have "r = Some x" "e' = e" using r by (simp_all add: reset_drain_def)
  then show ?thesis using inv by (simp add: kept_def grows_def)
next
  case None
  obtain q e1 where d: "drain_loop (ep_state e) (r_drain v) (e\<lparr>ep_state := Draining\<rparr>) = Some (q, e1)"
    using r None by (cases "drain_loop (ep_state e) (r_drain v) (e\<lparr>ep_state := Draining\<rparr>)") (auto simp: reset_drain_def)
  obtain cs where cs: "set cs \<subseteq> set (ep_clients e)" "length cs \<le> length (ep_clients e)"
    "e1 = e\<lparr>ep_clients := cs, ep_state := (if q = None then Draining else ep_state e)\<rparr>" "q = None \<longrightarrow> cs = []"
    using drain_loop_spec [OF d] by (cases q) auto
  have bk: "live_inv capacity (e\<lparr>ep_clients := cs\<rparr>)"
    using inv cs(1,2) by (auto simp: live_inv_def accounted_def current_def)
  show ?thesis
  proof (cases q)
    case (Some x)
    then show ?thesis using r None d cs bk by (auto simp: reset_drain_def kept_def grows_def)
  next
    case qn: None
    show ?thesis
    proof (cases "r_ctx_drained v")
      case (Some x)
      then have "r = Some x" "e' = e\<lparr>ep_clients := cs\<rparr>" using r None d qn cs by (simp_all add: reset_drain_def)
      then show ?thesis using bk cs by (simp add: kept_def grows_def)
    next
      case cn: None
      obtain c where c: "ep_child e = Some c" "ep_retired e \<longrightarrow> (c, None) \<in> set (ep_log e)" "accounted {c} e"
        using inv by (auto simp: live_inv_def current_def)
      have e1: "accounted {c} e1" "ep_child e1 = Some c" "ep_retired e1 \<longrightarrow> (c, None) \<in> set (ep_log e1)" "ep_clients e1 = []"
        using c cs qn by (auto simp: accounted_def)
      have "reset_switch ans capacity v e1 = (r, e')" using r None d qn cn by (simp add: reset_drain_def)
      note s = reset_switch_spec [OF e1 this]
      have "ep_generation e1 = ep_generation e" "ep_child e1 = ep_child e" "ep_started e1 = ep_started e" "ep_log e1 = ep_log e"
        using cs by simp_all
      then have "switched e1 = switched e" "broken e1 = broken e" "grows e1 = grows e"
        by (simp_all add: fun_eq_iff switched_def broken_def grows_def)
      then show ?thesis using s by auto
    qed
  qed
qed

text \<open>The outcomes seen from a state that a failed endpoint's cleanup leaves.\<close>

lemma outcome_from:
  assumes "ep_state f = ep_state e" "ep_generation f = ep_generation e" "ep_child f = ep_child e" "ep_started f = ep_started e"
    "ep_clients f = ep_clients e" "grows e f"
  shows "switched f r e' \<or> kept f r e' \<or> broken f r e' \<Longrightarrow> switched e r e' \<or> kept e r e' \<or> broken e r e'"
    "grows f e' \<Longrightarrow> grows e e'"
  using assms by (auto simp: switched_def kept_def broken_def grows_def)

lemma failed_outcome:
  assumes f: "accounted {c} f" "ep_child f = Some c" "ep_retired f \<longrightarrow> (c, None) \<in> set (ep_log f)" "ep_clients f = []"
    and r: "failed ans x None f = (r, e')"
  shows "live_inv capacity e' \<and> broken f r e' \<and> grows f e'"
proof -
  have "accounted ({c} \<union> set_option None) f" using f by simp
  from failed_spec [OF this r] f show ?thesis by (auto simp: live_inv_def broken_def grows_def current_def)
qed

lemma reset_spec:
  assumes inv: "live_inv capacity e" and r: "reset ans capacity drain v e = Some (r, e')"
  shows "live_inv capacity e' \<and> (switched e r e' \<or> kept e r e' \<or> broken e r e') \<and> grows e e'"
proof (cases "drain \<le> 0 \<or> r_lock v \<noteq> None \<or> ep_state e = Closed \<or> r_check v \<noteq> None")
  case True
  then have "r \<noteq> None" "e' = e" using r by (cases "r_lock v"; cases "r_check v"; auto simp: reset_def split: if_splits)+
  then show ?thesis using inv by (simp add: kept_def grows_def)
next
  case False
  show ?thesis
  proof (cases "ep_state e = Failed")
    case nf: False
    have "reset_drain ans capacity v (ep_state e) e = Some (r, e')" using r False nf by (auto simp: reset_def)
    then show ?thesis using reset_drain_spec inv False by blast
  next
    case True
    obtain c where c: "ep_child e = Some c" "ep_retired e \<longrightarrow> (c, None) \<in> set (ep_log e)" "accounted {c} e" "ep_clients e = []"
      using inv True by (auto simp: live_inv_def current_def)
    obtain p e1 where p: "cleanup_pending ans [] e = (p, e1)" by (metis surj_pair)
    have "accounted ({c} \<union> {c. Some c \<in> set []}) e" using c by simp
    note s1 = cleanup_pending_spec [OF this p]
    have e1: "accounted {c} e1" "ep_child e1 = Some c" "ep_retired e1 \<longrightarrow> (c, None) \<in> set (ep_log e1)" "ep_clients e1 = []"
      using s1 c by (auto simp: only_cleans_def)
    have o1: "ep_state e1 = ep_state e" "ep_generation e1 = ep_generation e" "ep_child e1 = ep_child e" "ep_started e1 = ep_started e"
      "ep_clients e1 = ep_clients e" "grows e e1"
      using s1 by (auto simp: only_cleans_def grows_def)
    show ?thesis
    proof (cases p)
      case (Some x)
      have "failed ans x None e1 = (r, e')" using r False True p Some by (auto simp: reset_def)
      from failed_outcome [OF e1 this] show ?thesis using outcome_from [OF o1] by blast
    next
      case pn: None
      obtain q e2 where q: "retire ans (r_wait_failed v) e1 = (q, e2)" by (metis surj_pair)
      note s2 = retire_spec [OF e1(1,2,3) q]
      have e2: "accounted {c} e2" "ep_child e2 = Some c" "ep_retired e2 \<longrightarrow> (c, None) \<in> set (ep_log e2)" "ep_clients e2 = []"
        using s2 e1 by auto
      have o2: "ep_state e2 = ep_state e" "ep_generation e2 = ep_generation e" "ep_child e2 = ep_child e" "ep_started e2 = ep_started e"
        "ep_clients e2 = ep_clients e" "grows e e2"
        using s2 o1 by (auto simp: grows_def)
      show ?thesis
      proof (cases q)
        case (Some x)
        have "failed ans x None e2 = (r, e')" using r False True p pn q Some by (auto simp: reset_def)
        from failed_outcome [OF e2 this] show ?thesis using outcome_from [OF o2] by blast
      next
        case qn: None
        have inv2: "live_inv capacity e2" "ep_state e2 \<noteq> Closed" using e2 o2 True by (simp_all add: live_inv_def current_def)
        have "reset_drain ans capacity v (ep_state e2) e2 = Some (r, e')"
          using r False True p pn q qn o2 by (auto simp: reset_def)
        from reset_drain_spec [OF inv2 this] show ?thesis using outcome_from [OF o2] by blast
      qed
    qed
  qed
qed

section \<open>Close\<close>

lemma fewer_clients:
  assumes inv: "live_inv capacity e" and cs: "set cs \<subseteq> set (ep_clients e)" "length cs \<le> length (ep_clients e)"
  shows "cs \<noteq> [] \<longrightarrow> int (length cs) \<le> capacity (the (ep_child e))" "live_inv capacity (e\<lparr>ep_clients := cs\<rparr>)"
proof -
  show cap: "cs \<noteq> [] \<longrightarrow> int (length cs) \<le> capacity (the (ep_child e))"
  proof
    assume "cs \<noteq> []"
    then have "ep_clients e \<noteq> []" using cs(1) by auto
    then have "int (length (ep_clients e)) \<le> capacity (the (ep_child e))" using inv by (simp add: live_inv_def)
    then show "int (length cs) \<le> capacity (the (ep_child e))" using cs(2) by linarith
  qed
  show "live_inv capacity (e\<lparr>ep_clients := cs\<rparr>)"
    using inv cs(1) cap by (auto simp: live_inv_def accounted_def current_def)
qed

lemma close_spec:
  assumes inv: "live_inv capacity e" and c: "close_endpoint ans stuck e = (r, e')"
  shows "live_inv capacity e' \<and> ep_state e' = Closed \<and> r = ep_close_err e' \<and> grows e e' \<and> ep_started e' = ep_started e \<and>
    ep_generation e' = ep_generation e \<and> set (ep_clients e') \<subseteq> set (ep_clients e) \<and>
    (ep_state e = Closed \<longrightarrow> ep_close_err e' = ep_close_err e)"
proof (cases "ep_state e = Closed")
  case True
  obtain x e1 where p: "cleanup_pending ans [] e = (x, e1)" by (metis surj_pair)
  have "accounted ({} \<union> {c. Some c \<in> set []}) e" using inv True by (simp add: live_inv_def)
  from cleanup_pending_spec [OF this p] show ?thesis
    using inv True c p by (auto simp: close_endpoint_def live_inv_def only_cleans_def grows_def)
next
  case False
  let ?l = "filter (\<lambda>k. k \<in> set stuck) (ep_clients e)"
  let ?e = "e\<lparr>ep_state := Closed, ep_clients := ?l, ep_close_err := if ?l = [] then ep_close_err e else Some err_relay_timeout\<rparr>"
  obtain x e1 where p: "cleanup_pending ans [ep_child e] ?e = (x, e1)" by (metis surj_pair)
  have "accounted ({} \<union> {c. Some c \<in> set [ep_child e]}) ?e"
    using inv False by (auto simp: live_inv_def accounted_def current_def)
  note s = cleanup_pending_spec [OF this p]
  have e': "r = err_join [ep_close_err e1, x]" "e' = e1\<lparr>ep_close_err := err_join [ep_close_err e1, x]\<rparr>"
    using c p False by (auto simp: close_endpoint_def Let_def)
  have "?l \<noteq> [] \<longrightarrow> int (length ?l) \<le> capacity (the (ep_child e))" by (rule fewer_clients(1) [OF inv]) auto
  then have "live_inv capacity e'" using s e' by (auto simp: live_inv_def only_cleans_def accounted_def)
  then show ?thesis using s e' False by (auto simp: only_cleans_def grows_def)
qed

lemma final_spec:
  assumes inv: "live_inv capacity e" and c: "final_cleanup ans stuck e = (r, e')"
  shows "live_inv capacity e' \<and> ep_state e' = Closed \<and> grows e e' \<and> ep_started e' = ep_started e \<and>
    ep_generation e' = ep_generation e \<and> set (ep_clients e') \<subseteq> set (ep_clients e) \<and>
    (r = None \<longrightarrow> ep_pending e' = []) \<and> (ep_state e = Closed \<longrightarrow> ep_close_err e' = ep_close_err e)"
proof -
  obtain f e1 where f: "close_endpoint ans stuck e = (f, e1)" by (metis surj_pair)
  obtain x e2 where x: "cleanup_pending ans [] e1 = (x, e2)" by (metis surj_pair)
  note s1 = close_spec [OF inv f]
  have "accounted {} e1" using s1 by (auto simp: live_inv_def)
  then have "accounted ({} \<union> {c. Some c \<in> set []}) e1" by simp
  note s2 = cleanup_pending_spec [OF this x]
  have e': "e' = e2" "r = err_join [f, x]" using c f x by (simp_all add: final_cleanup_def)
  have "x = None \<longrightarrow> ep_pending e' = []" using cleanup_pending_none x e' by blast
  moreover have "live_inv capacity e'" using s1 s2 e' by (auto simp: live_inv_def only_cleans_def)
  ultimately show ?thesis using s1 s2 e' by (auto simp: only_cleans_def grows_def)
qed

section \<open>Runs\<close>

datatype live_op =
    AcceptOp bool nat
  | EndOp nat
  | ResetOp int reset_env
  | CloseOp "nat list"
  | FinalOp "nat list"

text \<open>One call or one connection event; a \<open>Reset\<close> is a step once its drain ends.\<close>

inductive live_step :: "(close_log \<Rightarrow> nat \<Rightarrow> goerr option) \<Rightarrow> (nat \<Rightarrow> int) \<Rightarrow> endpoint \<Rightarrow> live_op \<Rightarrow> endpoint \<Rightarrow> bool"
  for ans capacity where
  accepts: "accept_client_live capacity failing k e = (b, e') \<Longrightarrow> live_step ans capacity e (AcceptOp failing k) e'"
| ends: "live_step ans capacity e (EndOp k) (end_client k e)"
| resets: "reset ans capacity drain v e = Some (r, e') \<Longrightarrow> live_step ans capacity e (ResetOp drain v) e'"
| closes: "close_endpoint ans stuck e = (r, e') \<Longrightarrow> live_step ans capacity e (CloseOp stuck) e'"
| finals: "final_cleanup ans stuck e = (r, e') \<Longrightarrow> live_step ans capacity e (FinalOp stuck) e'"

inductive live_run :: "(close_log \<Rightarrow> nat \<Rightarrow> goerr option) \<Rightarrow> (nat \<Rightarrow> int) \<Rightarrow> endpoint \<Rightarrow> live_op list \<Rightarrow> endpoint \<Rightarrow> bool"
  for ans capacity where
  stay: "live_run ans capacity e [] e"
| go: "live_step ans capacity e op f \<Longrightarrow> live_run ans capacity f ops e' \<Longrightarrow> live_run ans capacity e (op # ops) e'"

inductive_cases live_step_cases: "live_step ans capacity e op e'"

inductive_simps live_step_simps:
  "live_step ans capacity e (AcceptOp failing k) e'" "live_step ans capacity e (EndOp k) e'"
  "live_step ans capacity e (ResetOp drain v) e'" "live_step ans capacity e (CloseOp stuck) e'"
  "live_step ans capacity e (FinalOp stuck) e'"

text \<open>What every step keeps beside the invariant: the log only grows, closed is for good.\<close>

definition live_goes :: "endpoint \<Rightarrow> endpoint \<Rightarrow> bool" where
  "live_goes e e' \<longleftrightarrow> grows e e' \<and> set (ep_started e) \<subseteq> set (ep_started e') \<and>
     (ep_state e = Closed \<longrightarrow> ep_state e' = Closed \<and> ep_started e' = ep_started e \<and> ep_close_err e' = ep_close_err e \<and>
        set (ep_clients e') \<subseteq> set (ep_clients e))"

lemma live_goes_trans: "live_goes a b \<Longrightarrow> live_goes b c \<Longrightarrow> live_goes a c"
  by (auto simp: live_goes_def grows_def)

lemma closed_reset: "ep_state e = Closed \<Longrightarrow> reset ans capacity drain v e = Some (r, e') \<Longrightarrow> e' = e"
  by (auto simp: reset_def split: if_splits option.splits)

lemma accept_spec:
  assumes "live_inv capacity e" "accept_client_live capacity failing k e = (b, e')"
  shows "live_inv capacity e' \<and> live_goes e e'"
proof (cases "ep_state e \<noteq> Ready \<or> failing \<or> capacity (the (ep_child e)) \<le> int (length (ep_clients e))")
  case True
  then show ?thesis using assms by (auto simp: accept_client_live_def live_goes_def grows_def)
next
  case False
  then have "e' = e\<lparr>ep_clients := ep_clients e @ [k]\<rparr>" using assms(2) by (simp add: accept_client_live_def)
  then show ?thesis using assms(1) False by (auto simp: live_inv_def accounted_def current_def live_goes_def grows_def)
qed

lemma live_step_keeps:
  assumes "live_inv capacity e" "live_step ans capacity e op e'"
  shows "live_inv capacity e' \<and> live_goes e e'"
  using assms(2)
proof cases
  case (accepts failing k b)
  then show ?thesis using accept_spec [OF assms(1)] by blast
next
  case (ends k)
  then show ?thesis using fewer_clients [OF assms(1)] by (auto simp: end_client_def live_goes_def grows_def)
next
  case (resets drain v r)
  note s = reset_spec [OF assms(1) resets(2)]
  moreover have "set (ep_started e) \<subseteq> set (ep_started e')" using s by (auto simp: switched_def kept_def broken_def)
  moreover have "ep_state e = Closed \<longrightarrow> e' = e" using closed_reset resets by blast
  ultimately show ?thesis by (auto simp: live_goes_def)
next
  case (closes stuck r)
  then show ?thesis using close_spec [OF assms(1) closes(2)] by (auto simp: live_goes_def)
next
  case (finals stuck r)
  then show ?thesis using final_spec [OF assms(1) finals(2)] by (auto simp: live_goes_def)
qed

lemma live_run_keeps:
  "live_run ans capacity e ops e' \<Longrightarrow> live_inv capacity e \<Longrightarrow> live_inv capacity e' \<and> live_goes e e'"
proof (induction rule: live_run.induct)
  case (stay e)
  then show ?case by (simp add: live_goes_def grows_def)
next
  case (go e op f ops e')
  then show ?case using live_step_keeps [OF go.prems go.hyps(1)] live_goes_trans by blast
qed

lemma new_endpoint_inv:
  "new_endpoint ans capacity shutdown v = (Some e, r) \<Longrightarrow> live_inv capacity e"
  by (auto simp: new_endpoint_def aborted_def live_inv_def accounted_def current_def Let_def
    split: option.splits sum.splits if_splits prod.splits)

lemma reset_bounded:
  assumes "DrainExpired \<in> set (r_drain v) \<or> DrainCancelled x \<in> set (r_drain v)"
  shows "reset ans capacity drain v e \<noteq> None"
proof -
  have "reset_drain ans capacity v p f \<noteq> None" for p f
    using drain_bounded [of "f\<lparr>ep_state := Draining\<rparr>" "r_drain v" x p] assms
    by (auto simp: reset_drain_def split: option.splits)
  note n = this
  show ?thesis
  proof
    assume "reset ans capacity drain v e = None"
    then show False using n by (auto simp del: not_None_eq simp: reset_def split: if_splits option.splits prod.splits)
  qed
qed

section \<open>Properties\<close>

text \<open>
  C26. No child is lost. On an endpoint that \<open>New\<close> returned, after any sequence of accepted and ended
  connections and of calls of \<open>Reset\<close>, \<open>Close\<close> and \<open>FinalCleanup\<close>, whatever \<open>Child.Close\<close> and the
  factory answered: every child ever started is the current one, is pending cleanup, or was closed
  without an error; a ready endpoint has no pending one; a closed endpoint has no current one; and when
  \<open>FinalCleanup\<close> returns no error, nothing is pending and every child was closed without an error. The connections never exceed
  the capacity of the child.
\<close>

theorem live_loses_no_child:
  assumes "new_endpoint ans capacity shutdown v = (Some e0, r0)" "live_run ans capacity e0 ops e"
  shows "(\<forall>c\<in>set (ep_started e).
      ep_state e \<noteq> Closed \<and> ep_child e = Some c \<or> c \<in> set (ep_pending e) \<or> (c, None) \<in> set (ep_log e)) \<and>
    (ep_state e = Ready \<longrightarrow> ep_pending e = [] \<and>
       (\<forall>c\<in>set (ep_started e). ep_child e = Some c \<or> (c, None) \<in> set (ep_log e))) \<and>
    (ep_clients e \<noteq> [] \<longrightarrow> int (length (ep_clients e)) \<le> capacity (the (ep_child e))) \<and>
    (\<forall>stuck e'. final_cleanup ans stuck e = (None, e') \<longrightarrow>
       ep_pending e' = [] \<and> ep_started e' = ep_started e \<and> (\<forall>c\<in>set (ep_started e'). (c, None) \<in> set (ep_log e')))"
proof (intro conjI)
  note inv = conjunct1 [OF live_run_keeps [OF assms(2) new_endpoint_inv [OF assms(1)]]]
  then have acc: "accounted (if ep_state e = Closed then {} else current e) e" by (simp add: live_inv_def)
  then show "\<forall>c\<in>set (ep_started e).
      ep_state e \<noteq> Closed \<and> ep_child e = Some c \<or> c \<in> set (ep_pending e) \<or> (c, None) \<in> set (ep_log e)"
    by (auto simp: accounted_def current_def split: if_splits)
  show "ep_state e = Ready \<longrightarrow> ep_pending e = [] \<and>
      (\<forall>c\<in>set (ep_started e). ep_child e = Some c \<or> (c, None) \<in> set (ep_log e))"
    using inv acc by (auto simp: live_inv_def accounted_def current_def)
  show "ep_clients e \<noteq> [] \<longrightarrow> int (length (ep_clients e)) \<le> capacity (the (ep_child e))"
    using inv by (simp add: live_inv_def)
  show "\<forall>stuck e'. final_cleanup ans stuck e = (None, e') \<longrightarrow>
       ep_pending e' = [] \<and> ep_started e' = ep_started e \<and> (\<forall>c\<in>set (ep_started e'). (c, None) \<in> set (ep_log e'))"
    using final_spec [OF inv] by (force simp: live_inv_def accounted_def)
qed

text \<open>
  C27. A reset switches, keeps or fails, and says which. On a reachable endpoint \<open>Reset\<close> either returns no
  error, and then the endpoint is ready with a new child, the next generation and no connection, and the
  old child was closed without an error; or returns an error and leaves state, generation and child as
  they were; or returns an \<open>unusable\<close> error, and then the state is failed, with generation and child as
  they were. Whatever connections do, it returns once the drain time expires.
\<close>

theorem reset_switches_or_keeps:
  assumes "new_endpoint ans capacity shutdown v = (Some e0, r0)" "live_run ans capacity e0 ops e"
    "DrainExpired \<in> set (r_drain w)"
  shows "\<exists>r e'. reset ans capacity drain w e = Some (r, e') \<and>
    (r = None \<and> ep_state e' = Ready \<and> ep_generation e' = ep_generation e + 1 \<and> ep_clients e' = [] \<and>
       (the (ep_child e), None) \<in> set (ep_log e') \<and> (\<exists>c. ep_child e' = Some c \<and> ep_started e' = ep_started e @ [c]) \<or>
     r \<noteq> None \<and> ep_state e' = ep_state e \<and> ep_generation e' = ep_generation e \<and> ep_child e' = ep_child e \<or>
     (\<exists>y. r = Some (Diag ''unusable'' ''live_replace'' y)) \<and> ep_state e' = Failed \<and>
       ep_generation e' = ep_generation e \<and> ep_child e' = ep_child e)"
proof -
  obtain r e' where r: "reset ans capacity drain w e = Some (r, e')" using reset_bounded [of w] assms(3) by (metis not_Some_eq surj_pair)
  note inv = conjunct1 [OF live_run_keeps [OF assms(2) new_endpoint_inv [OF assms(1)]]]
  show ?thesis using reset_spec [OF inv r] r by (auto simp: switched_def kept_def broken_def)
qed

text \<open>
  A closed endpoint stays closed. Once a reachable endpoint is closed, no sequence of events reopens
  it: no child is started, no connection accepted, and the result of \<open>Close\<close> stays the one recorded,
  even when later cleanup succeeds.
\<close>

lemma live_closed_for_good:
  assumes "new_endpoint ans capacity shutdown v = (Some e0, r0)" "live_run ans capacity e0 ops e" "ep_state e = Closed"
    "live_run ans capacity e later e'"
  shows "ep_state e' = Closed \<and> ep_started e' = ep_started e \<and> set (ep_clients e') \<subseteq> set (ep_clients e) \<and>
    fst (close_endpoint ans stuck e') = ep_close_err e"
proof -
  note inv = conjunct1 [OF live_run_keeps [OF assms(2) new_endpoint_inv [OF assms(1)]]]
  note s = live_run_keeps [OF assms(4) inv]
  obtain r f where c: "close_endpoint ans stuck e' = (r, f)" by (metis surj_pair)
  show ?thesis using s close_spec [OF conjunct1 [OF s] c] assms(3) c by (auto simp: live_goes_def)
qed

section \<open>Witnesses\<close>

text \<open>Child 0 starts, serves a connection, is replaced by child 1, whose \<open>Close\<close> fails the first time.\<close>

definition ex_ans :: "close_log \<Rightarrow> nat \<Rightarrow> goerr option" where
  "ex_ans l c = (if c = 1 \<and> (1, None) \<notin> set l \<and> length l < 2 then Some (Sentinel ''stuck'') else None)"

definition ex_new :: new_env where
  "ex_new = \<lparr>n_ctx = None, n_check = None, n_reserve = None, n_start = Inr 0, n_listen = None, n_ctx_late = None\<rparr>"

definition ex_reset :: reset_env where
  "ex_reset = \<lparr>r_lock = None, r_check = None, r_wait_failed = None, r_reserve = None, r_drain = [ClientLeft 7, DrainExpired],
     r_ctx_drained = None, r_start = Inr 1, r_wait = None, r_ctx_commit = None\<rparr>"

definition ex_live0 :: endpoint where "ex_live0 = the (fst (new_endpoint ex_ans (\<lambda>_. 4) 1 ex_new))"

definition ex_live1 :: endpoint where "ex_live1 = snd (accept_client_live (\<lambda>_. 4) False 7 ex_live0)"

definition ex_live2 :: endpoint where "ex_live2 = snd (the (reset ex_ans (\<lambda>_. 4) 1 ex_reset ex_live1))"

definition ex_live3 :: endpoint where "ex_live3 = snd (close_endpoint ex_ans [] ex_live2)"

lemmas ex_live_defs = ex_live0_def ex_live1_def ex_live2_def ex_live3_def ex_ans_def ex_new_def ex_reset_def

lemma ex_live_starts: "new_endpoint ex_ans (\<lambda>_. 4) 1 ex_new = (Some ex_live0, None)"
  by (simp add: new_endpoint_def ex_live0_def ex_new_def)

lemma ex_live_runs:
  "live_run ex_ans (\<lambda>_. 4) ex_live0 [AcceptOp False 7] ex_live1"
  "live_run ex_ans (\<lambda>_. 4) ex_live0 [AcceptOp False 7, ResetOp 1 ex_reset, CloseOp []] ex_live3"
  "live_run ex_ans (\<lambda>_. 4) ex_live3 [FinalOp []] (snd (final_cleanup ex_ans [] ex_live3))"
proof -
  have a: "live_step ex_ans (\<lambda>_. 4) ex_live0 (AcceptOp False 7) ex_live1"
    unfolding live_step_simps ex_live1_def by (rule exI, rule prod.collapse [symmetric])
  have r: "live_step ex_ans (\<lambda>_. 4) ex_live1 (ResetOp 1 ex_reset) ex_live2"
    using reset_bounded [of ex_reset undefined ex_ans "\<lambda>_. 4" 1 ex_live1]
    by (auto simp: live_step_simps ex_live2_def ex_reset_def)
  have c: "live_step ex_ans (\<lambda>_. 4) ex_live2 (CloseOp []) ex_live3"
    unfolding live_step_simps ex_live3_def by (rule exI, rule prod.collapse [symmetric])
  have f: "live_step ex_ans (\<lambda>_. 4) ex_live3 (FinalOp []) (snd (final_cleanup ex_ans [] ex_live3))"
    unfolding live_step_simps by (rule exI, rule prod.collapse [symmetric])
  show "live_run ex_ans (\<lambda>_. 4) ex_live0 [AcceptOp False 7] ex_live1"
    by (rule live_run.go [OF a live_run.stay])
  show "live_run ex_ans (\<lambda>_. 4) ex_live0 [AcceptOp False 7, ResetOp 1 ex_reset, CloseOp []] ex_live3"
    by (rule live_run.go [OF a live_run.go [OF r live_run.go [OF c live_run.stay]]])
  show "live_run ex_ans (\<lambda>_. 4) ex_live3 [FinalOp []] (snd (final_cleanup ex_ans [] ex_live3))"
    by (rule live_run.go [OF f live_run.stay])
qed

lemma ex_live_closed: "ep_state ex_live3 = Closed" "ep_pending ex_live3 = [1]" "ep_started ex_live3 = [0, 1]"
  "ep_close_err ex_live3 \<noteq> None"
  by code_simp+

lemma ex_drain: "DrainExpired \<in> set (r_drain ex_reset)"
  by (simp add: ex_reset_def)

theorem live_loses_no_child_witness:
  "ep_pending ex_live3 = [1] \<and> (0, None) \<in> set (ep_log ex_live3)"
  using live_loses_no_child [OF ex_live_starts ex_live_runs(2)] ex_live_closed by simp

lemma ex_live_reset: "map_option fst (reset ex_ans (\<lambda>_. 4) 1 ex_reset ex_live1) = Some None"
  by code_simp

theorem reset_switches_or_keeps_witness:
  "\<exists>e'. reset ex_ans (\<lambda>_. 4) 1 ex_reset ex_live1 = Some (None, e') \<and> ep_state e' = Ready \<and>
    ep_generation e' = ep_generation ex_live1 + 1"
  using reset_switches_or_keeps [OF ex_live_starts ex_live_runs(1) ex_drain, of 1] ex_live_reset by auto

lemma live_closed_for_good_example:
  "ep_state (snd (final_cleanup ex_ans [] ex_live3)) = Closed \<and>
    fst (close_endpoint ex_ans [] (snd (final_cleanup ex_ans [] ex_live3))) = ep_close_err ex_live3"
  using live_closed_for_good [OF ex_live_starts ex_live_runs(2) ex_live_closed(1) ex_live_runs(3)] by blast

end
