(* ===== verification/MemRelative.thy ===== *)
theory MemRelative
  imports MemProperties
begin

text \<open>
  Operations from a pinned directory (\<open>internal/generatedgo/code/base/relative.go\<close>). A \<open>Directory\<close> is
  the node of an open file, so it stays the same directory when a path above it is renamed. Names are
  resolved component by component, as they are written: \<open>..\<close> follows the parent of the node, and a
  missing component is an error even before a \<open>..\<close>. The WASI bindings, which check guest pointers and
  look up the descriptor, are not modelled.
\<close>

definition err_enotdir :: goerr where "err_enotdir = Sentinel ''not a directory''"

section \<open>The code\<close>

text \<open>\<open>PinDirectory\<close>; \<open>own\<close> is whether the file is an open file of this file system.\<close>

definition pin_directory :: "bool \<Rightarrow> mem_file \<Rightarrow> mem_fs \<Rightarrow> goerr + nat" where
  "pin_directory own f fs =
     (if \<not> own then Inl err_ebadf
      else if \<not> m_dir (nodes fs (mf_node f)) then Inl err_enotdir
      else Inr (mf_node f))"

fun dir_walk :: "mem_fs \<Rightarrow> nat \<Rightarrow> string list \<Rightarrow> goerr + nat" where
  "dir_walk fs n [] = Inr n"
| "dir_walk fs n (part # parts) =
     (if part = [] then dir_walk fs n parts
      else if \<not> m_dir (nodes fs n) then Inl err_enotdir
      else if part = ''.'' then dir_walk fs n parts
      else if part = ''..'' then dir_walk fs (case m_parent (nodes fs n) of Some p \<Rightarrow> p | None \<Rightarrow> n) parts
      else case child fs n part of
        None \<Rightarrow> Inl err_not_exist
      | Some c \<Rightarrow> dir_walk fs c parts)"

definition dir_lookup :: "mem_fs \<Rightarrow> nat \<Rightarrow> string \<Rightarrow> goerr + nat" where
  "dir_lookup fs d name =
     (if name = [] then Inl err_not_exist
      else case dir_walk fs (if hd name = CHR ''/'' then 0 else d) (split_on CHR ''/'' name) of
        Inl e \<Rightarrow> Inl e
      | Inr n \<Rightarrow> if last name = CHR ''/'' \<and> \<not> m_dir (nodes fs n) then Inl err_enotdir else Inr n)"

text \<open>\<open>strings.TrimRight(name, "/")\<close>, and the parts before and after the last slash.\<close>

definition trim_right :: "string \<Rightarrow> string" where
  "trim_right name = rev (dropWhile (\<lambda>c. c = CHR ''/'') (rev name))"

definition leaf_name :: "string \<Rightarrow> string" where
  "leaf_name clean = rev (takeWhile (\<lambda>c. c \<noteq> CHR ''/'') (rev clean))"

definition parent_name :: "string \<Rightarrow> string" where
  "parent_name clean =
     (if CHR ''/'' \<notin> set clean then ''.''
      else let p = take (length clean - Suc (length (leaf_name clean))) clean in if p = [] then ''/'' else p)"

definition unlinked :: "mem_fs \<Rightarrow> nat \<Rightarrow> bool" where
  "unlinked fs n \<longleftrightarrow> n \<noteq> 0 \<and>
     (case m_parent (nodes fs n) of None \<Rightarrow> True | Some p \<Rightarrow> child fs p (m_name (nodes fs n)) \<noteq> Some n)"

definition dir_parent :: "mem_fs \<Rightarrow> nat \<Rightarrow> string \<Rightarrow> goerr + nat \<times> string" where
  "dir_parent fs d name =
     (let clean = trim_right name; leaf = leaf_name clean in
      if leaf \<in> {[], ''.'', ''..''} then Inl err_einval
      else case dir_lookup fs d (parent_name clean) of
        Inl e \<Rightarrow> Inl e
      | Inr n \<Rightarrow>
          if \<not> m_dir (nodes fs n) then Inl err_enotdir
          else if unlinked fs n then Inl err_not_exist
          else Inr (n, leaf))"

definition dir_finish :: "nat \<Rightarrow> open_flags \<Rightarrow> int \<Rightarrow> mem_fs \<Rightarrow> (goerr + mem_file) \<times> mem_fs" where
  "dir_finish n flag now fs =
     (if m_dir (nodes fs n) \<and> (o_wronly flag \<or> o_rdwr flag \<or> o_trunc flag) then (Inl err_eisdir, fs)
      else case (if o_trunc flag then truncate_node n now fs else (None, fs)) of
        (Some e, fs') \<Rightarrow> (Inl e, fs')
      | (None, fs') \<Rightarrow> (Inr (open_handle fs' n flag), fs'))"

definition dir_open :: "nat \<Rightarrow> string \<Rightarrow> open_flags \<Rightarrow> 32 word \<Rightarrow> int \<Rightarrow> mem_fs \<Rightarrow> (goerr + mem_file) \<times> mem_fs" where
  "dir_open d name flag perm now fs =
     (case dir_lookup fs d name of
        Inl e \<Rightarrow>
          if e \<noteq> err_not_exist \<or> \<not> o_create flag then (Inl (path_error ''openat'' name e), fs)
          else
            (case dir_parent fs d name of
               Inl pe \<Rightarrow> (Inl (path_error ''openat'' name pe), fs)
             | Inr (p, leaf) \<Rightarrow>
                 (case alloc_node (file_node p leaf perm now) fs of
                    (n, fs1) \<Rightarrow> dir_finish n flag now (enroll n (set_child p leaf n fs1))))
      | Inr n \<Rightarrow>
          if o_create flag \<and> o_excl flag then (Inl err_exist, fs) else dir_finish n flag now fs)"

definition dir_lstat :: "nat \<Rightarrow> string \<Rightarrow> mem_fs \<Rightarrow> goerr + file_info" where
  "dir_lstat d name fs =
     (case dir_lookup fs d name of Inl e \<Rightarrow> Inl (path_error ''statat'' name e) | Inr n \<Rightarrow> Inr (node_info fs n))"

definition dir_readlink :: "nat \<Rightarrow> string \<Rightarrow> mem_fs \<Rightarrow> goerr + string" where
  "dir_readlink d name fs =
     (case dir_lookup fs d name of
        Inl e \<Rightarrow> Inl (path_error ''readlinkat'' name e)
      | Inr n \<Rightarrow> Inl (path_error ''readlinkat'' name err_einval))"

section \<open>The specification on trees of paths\<close>

fun tree_resolve :: "tree \<Rightarrow> string list \<Rightarrow> string list \<Rightarrow> goerr + string list" where
  "tree_resolve t p [] = Inr p"
| "tree_resolve t p (k # ks) =
     (if k = [] then tree_resolve t p ks
      else if t p \<noteq> Some EDir then Inl err_enotdir
      else if k = ''.'' then tree_resolve t p ks
      else if k = ''..'' then tree_resolve t (butlast p) ks
      else if t (p @ [k]) = None then Inl err_not_exist
      else tree_resolve t (p @ [k]) ks)"

definition spec_lookup :: "tree \<Rightarrow> string list \<Rightarrow> string \<Rightarrow> goerr + string list" where
  "spec_lookup t p name =
     (if name = [] then Inl err_not_exist
      else case tree_resolve t (if hd name = CHR ''/'' then [] else p) (split_on CHR ''/'' name) of
        Inl e \<Rightarrow> Inl e
      | Inr q \<Rightarrow> if last name = CHR ''/'' \<and> t q \<noteq> Some EDir then Inl err_enotdir else Inr q)"

definition spec_parent :: "tree \<Rightarrow> string list \<Rightarrow> string \<Rightarrow> goerr + string list" where
  "spec_parent t p name =
     (let clean = trim_right name; leaf = leaf_name clean in
      if leaf \<in> {[], ''.'', ''..''} then Inl err_einval
      else case spec_lookup t p (parent_name clean) of
        Inl e \<Rightarrow> Inl e
      | Inr q \<Rightarrow> if t q \<noteq> Some EDir then Inl err_enotdir else Inr (q @ [leaf]))"

text \<open>The path opened, or the error, and the tree after.\<close>

definition spec_openat :: "tree \<Rightarrow> string list \<Rightarrow> string \<Rightarrow> open_flags \<Rightarrow> (goerr + string list) \<times> tree" where
  "spec_openat t p name flag =
     (case spec_lookup t p name of
        Inl e \<Rightarrow>
          if e \<noteq> err_not_exist \<or> \<not> o_create flag then (Inl (path_error ''openat'' name e), t)
          else
            (case spec_parent t p name of
               Inl pe \<Rightarrow> (Inl (path_error ''openat'' name pe), t)
             | Inr q \<Rightarrow> (Inr q, put_entry q (Some (EFile [])) t))
      | Inr q \<Rightarrow>
          if o_create flag \<and> o_excl flag then (Inl err_exist, t)
          else if t q = Some EDir \<and> (o_wronly flag \<or> o_rdwr flag \<or> o_trunc flag) then (Inl err_eisdir, t)
          else (Inr q, if o_trunc flag then put_entry q (Some (EFile [])) t else t))"

section \<open>Resolution\<close>

lemma node_parent:
  assumes "shape_inv fs" "node_at fs p = Some n"
  shows "node_at fs (butlast p) = Some (case m_parent (nodes fs n) of Some q \<Rightarrow> q | None \<Rightarrow> n)"
proof (cases p rule: rev_cases)
  case Nil
  then show ?thesis using assms shape_root [OF assms(1)] by simp
next
  case (snoc q k)
  then obtain m where m: "node_at fs q = Some m" "child fs m k = Some n"
    using assms(2) by (auto simp: node_at_snoc bind_eq_Some_conv)
  then show ?thesis using shape_child(4) [OF assms(1) m(2)] snoc by simp
qed

lemma dir_walk_resolve:
  assumes "shape_inv fs"
  shows "node_at fs p = Some n \<Longrightarrow>
    (case tree_resolve (tree_of fs) p ks of
       Inl e \<Rightarrow> dir_walk fs n ks = Inl e
     | Inr q \<Rightarrow> \<exists>m. dir_walk fs n ks = Inr m \<and> node_at fs q = Some m)"
proof (induction ks arbitrary: p n)
  case Nil
  then show ?case by simp
next
  case (Cons k ks)
  have dir: "tree_of fs p = Some EDir \<longleftrightarrow> m_dir (nodes fs n)" using Cons.prems by (simp add: tree_of_def entry_of_def)
  have kid: "tree_of fs (p @ [k]) = map_option (entry_of fs) (child fs n k)"
    "node_at fs (p @ [k]) = child fs n k"
    using Cons.prems by (simp_all add: tree_of_def node_at_snoc)
  consider "k = []" | "k \<noteq> []" "\<not> m_dir (nodes fs n)" | "k = ''.''" "m_dir (nodes fs n)" | "k = ''..''" "m_dir (nodes fs n)"
    | "k \<noteq> []" "k \<noteq> ''.''" "k \<noteq> ''..''" "m_dir (nodes fs n)" by blast
  moreover have step: ?case if "tree_resolve (tree_of fs) p (k # ks) = tree_resolve (tree_of fs) p' ks"
    "dir_walk fs n (k # ks) = dir_walk fs n' ks" "node_at fs p' = Some n'" for p' n'
    using Cons.IH [OF that(3)] unfolding that(1,2) .
  ultimately show ?case
  proof cases
    case 1
    then show ?thesis by (intro step [of p n]) (use Cons.prems in simp_all)
  next
    case 2
    then show ?thesis using dir by simp
  next
    case 3
    then show ?thesis by (intro step [of p n]) (use Cons.prems dir in simp_all)
  next
    case 4
    then show ?thesis by (intro step [OF _ _ node_parent [OF assms Cons.prems]]) (use dir in simp_all)
  next
    case 5
    then show ?thesis
      by (cases "child fs n k") (use dir kid in simp, rule step [of "p @ [k]"], use dir kid in simp_all)
  qed
qed

lemma dir_lookup_spec:
  assumes "shape_inv fs" "node_at fs p = Some d"
  shows "case spec_lookup (tree_of fs) p name of
       Inl e \<Rightarrow> dir_lookup fs d name = Inl e
     | Inr q \<Rightarrow> \<exists>m. dir_lookup fs d name = Inr m \<and> node_at fs q = Some m"
proof (cases "name = []")
  case True
  then show ?thesis by (simp add: spec_lookup_def dir_lookup_def)
next
  case False
  have "node_at fs (if hd name = CHR ''/'' then [] else p) = Some (if hd name = CHR ''/'' then 0 else d)"
    using assms(2) by simp
  note w = dir_walk_resolve [OF assms(1) this, of "split_on CHR ''/'' name"]
  show ?thesis
  proof (cases "tree_resolve (tree_of fs) (if hd name = CHR ''/'' then [] else p) (split_on CHR ''/'' name)")
    case (Inl e)
    then show ?thesis using w False by (simp add: spec_lookup_def dir_lookup_def)
  next
    case (Inr q)
    then obtain m where m: "dir_walk fs (if hd name = CHR ''/'' then 0 else d) (split_on CHR ''/'' name) = Inr m"
      "node_at fs q = Some m"
      using w by auto
    then have "tree_of fs q = Some EDir \<longleftrightarrow> m_dir (nodes fs m)" by (simp add: tree_of_def entry_of_def)
    then show ?thesis using m False Inr by (simp add: spec_lookup_def dir_lookup_def)
  qed
qed

lemma linked_path:
  assumes "shape_inv fs" "node_at fs p = Some n"
  shows "\<not> unlinked fs n"
proof (cases p rule: rev_cases)
  case Nil
  then show ?thesis using assms by (simp add: unlinked_def)
next
  case (snoc q k)
  then obtain m where m: "node_at fs q = Some m" "child fs m k = Some n"
    using assms(2) by (auto simp: node_at_snoc bind_eq_Some_conv)
  then show ?thesis using shape_child(4,5) [OF assms(1) m(2)] by (simp add: unlinked_def)
qed

lemma dir_parent_spec:
  assumes "shape_inv fs" "node_at fs p = Some d"
  shows "case spec_parent (tree_of fs) p name of
       Inl e \<Rightarrow> dir_parent fs d name = Inl e
     | Inr q \<Rightarrow> \<exists>m. dir_parent fs d name = Inr (m, last q) \<and> node_at fs (butlast q) = Some m \<and> m_dir (nodes fs m) \<and>
         q = butlast q @ [last q] \<and> last q = leaf_name (trim_right name) \<and> last q \<notin> {[], ''.'', ''..''}"
proof -
  let ?n = "parent_name (trim_right name)" and ?l = "leaf_name (trim_right name)"
  note l = dir_lookup_spec [OF assms, of ?n]
  show ?thesis
  proof (cases "?l \<in> {[], ''.'', ''..''}")
    case True
    then show ?thesis by (simp add: spec_parent_def dir_parent_def Let_def)
  next
    case False
    show ?thesis
    proof (cases "spec_lookup (tree_of fs) p ?n")
      case (Inl e)
      then show ?thesis using l False by (simp add: spec_parent_def dir_parent_def Let_def)
    next
      case (Inr q)
      then obtain m where m: "dir_lookup fs d ?n = Inr m" "node_at fs q = Some m" using l by auto
      then have "tree_of fs q = Some EDir \<longleftrightarrow> m_dir (nodes fs m)" by (simp add: tree_of_def entry_of_def)
      then show ?thesis using m False Inr linked_path [OF assms(1) m(2)] by (simp add: spec_parent_def dir_parent_def Let_def)
    qed
  qed
qed

section \<open>Opening\<close>

lemma leaf_whole:
  assumes "CHR ''/'' \<notin> set s"
  shows "leaf_name s = s" "parent_name s = ''.''"
proof -
  have "takeWhile (\<lambda>c. c \<noteq> CHR ''/'') (rev s) = rev s"
    unfolding takeWhile_eq_all_conv using assms by auto
  then show "leaf_name s = s" by (simp only: leaf_name_def rev_rev_ident)
  show "parent_name s = ''.''" using assms by (simp add: parent_name_def)
qed

lemma leaf_no_slash: "CHR ''/'' \<notin> set (leaf_name s)"
  by (auto simp: leaf_name_def dest: set_takeWhileD)

text \<open>The last steps of \<open>OpenFile\<close> on the node at a path.\<close>

definition spec_finish :: "tree \<Rightarrow> string list \<Rightarrow> open_flags \<Rightarrow> (goerr + string list) \<times> tree" where
  "spec_finish t q flag =
     (if t q = Some EDir \<and> (o_wronly flag \<or> o_rdwr flag \<or> o_trunc flag) then (Inl err_eisdir, t)
      else (Inr q, if o_trunc flag then put_entry q (Some (EFile [])) t else t))"

text \<open>What a call on a pinned directory may do, against the specification.\<close>

definition opens :: "(goerr + string list) \<times> tree \<Rightarrow> (goerr + mem_file) \<times> mem_fs \<Rightarrow> bool" where
  "opens spec res \<longleftrightarrow> fs_ready (snd res) \<and> tree_of (snd res) = snd spec \<and>
     (case fst spec of
        Inl e \<Rightarrow> fst res = Inl e
      | Inr q \<Rightarrow> \<exists>h. fst res = Inr h \<and> node_at (snd res) q = Some (mf_node h))"

lemma finish_spec:
  assumes "fs_ready fs" "node_at fs q = Some n"
  shows "opens (spec_finish (tree_of fs) q flag) (dir_finish n flag now fs)"
proof -
  note sh = ready_shape [OF assms(1)]
  have dir: "tree_of fs q = Some EDir \<longleftrightarrow> m_dir (nodes fs n)" using assms(2) by (simp add: tree_of_def entry_of_def)
  show ?thesis
  proof (cases "m_dir (nodes fs n) \<or> \<not> o_trunc flag")
    case True
    then show ?thesis using dir assms by (auto simp: opens_def spec_finish_def dir_finish_def open_handle_def)
  next
    case False
    obtain e fs' where t: "truncate_node n now fs = (e, fs')" by (metis surj_pair)
    then have c: "e = None" "content_change fs n [] fs'"
      using truncate_change [OF assms(1) node_at_bound [OF sh assms(2)], of now] by simp_all
    have "tree_of fs' = put_entry q (Some (EFile [])) (tree_of fs)" "fs_ready fs'"
      using content_change_put [OF c(2) sh _ assms(2)] c(2) False by (simp_all add: content_change_def)
    moreover have "node_at fs' q = Some n"
      using c(2) assms(2) node_at_cong [of fs' fs q] by (simp add: content_change_def)
    ultimately show ?thesis using t c(1) dir False by (simp add: opens_def spec_finish_def dir_finish_def open_handle_def)
  qed
qed

lemma openat_refines:
  assumes inv: "fs_ready fs" and d: "node_at fs p = Some d"
  shows "opens (spec_openat (tree_of fs) p name flag) (dir_open d name flag perm now fs)"
proof -
  note sh = ready_shape [OF inv]
  note l = dir_lookup_spec [OF sh d, of name]
  note pa = dir_parent_spec [OF sh d, of name]
  show ?thesis
  proof (cases "spec_lookup (tree_of fs) p name")
    case (Inr q)
    then obtain n where n: "dir_lookup fs d name = Inr n" "node_at fs q = Some n" using l by auto
    have "spec_openat (tree_of fs) p name flag =
        (if o_create flag \<and> o_excl flag then (Inl err_exist, tree_of fs) else spec_finish (tree_of fs) q flag)"
      "dir_open d name flag perm now fs =
        (if o_create flag \<and> o_excl flag then (Inl err_exist, fs) else dir_finish n flag now fs)"
      using Inr n by (simp_all add: spec_openat_def spec_finish_def dir_open_def)
    then show ?thesis using finish_spec [OF inv n(2), of flag now] inv by (simp add: opens_def)
  next
    case (Inl e)
    then have le: "dir_lookup fs d name = Inl e" using l by simp
    show ?thesis
    proof (cases "e \<noteq> err_not_exist \<or> \<not> o_create flag")
      case True
      then show ?thesis using Inl le inv by (simp add: spec_openat_def dir_open_def opens_def)
    next
      case False
      show ?thesis
      proof (cases "spec_parent (tree_of fs) p name")
        case (Inl pe)
        then show ?thesis using \<open>spec_lookup _ _ _ = Inl e\<close> le pa False inv by (simp add: spec_openat_def dir_open_def opens_def)
      next
        case (Inr q)
        obtain m where m: "dir_parent fs d name = Inr (m, last q)" "node_at fs (butlast q) = Some m" "m_dir (nodes fs m)"
          "q = butlast q @ [last q]" "last q = leaf_name (trim_right name)" "last q \<notin> {[], ''.'', ''..''}"
          using pa Inr by auto
        have pr: "proper (last q)" using m(5,6) leaf_no_slash by (simp add: proper_def)
        obtain n fs1 where al: "alloc_node (file_node m (last q) perm now) fs = (n, fs1)" by (metis surj_pair)
        let ?fs = "set_child m (last q) n (enroll n fs1)"
        have "n \<noteq> m" using al node_at_bound [OF sh m(2)] by (auto simp: alloc_node_def)
        then have o: "dir_open d name flag perm now fs = dir_finish n flag now ?fs"
          using le False m(1) al by (simp add: dir_open_def enroll_set_child)
        have k: "fs_ready ?fs" "tree_of ?fs = put_entry q (Some (EFile [])) (tree_of fs)" "node_at ?fs q = Some n"
          using link_leaf [OF inv m(2,3) pr _ _ _ _ _ al] m(4) by simp_all
        have "spec_finish (tree_of ?fs) q flag = (Inr q, put_entry q (Some (EFile [])) (tree_of fs))"
          using k(2) by (auto simp: spec_finish_def put_entry_def fun_eq_iff)
        moreover have "spec_openat (tree_of fs) p name flag = (Inr q, put_entry q (Some (EFile [])) (tree_of fs))"
          using Inr \<open>spec_lookup _ _ _ = Inl e\<close> False by (simp add: spec_openat_def)
        ultimately show ?thesis using finish_spec [OF k(1,3), of flag now] o by simp
      qed
    qed
  qed
qed

section \<open>What an open leaves alone\<close>

lemma tree_resolve_append:
  "tree_resolve t p (ks @ ls) = (case tree_resolve t p ks of Inl e \<Rightarrow> Inl e | Inr q \<Rightarrow> tree_resolve t q ls)"
  by (induction t p ks rule: tree_resolve.induct) auto

lemma tree_resolve_empty: "\<forall>k\<in>set ks. k = [] \<Longrightarrow> tree_resolve t p ks = Inr p"
  by (induction ks) auto

lemma split_slashes: "split_on CHR ''/'' (s @ replicate n CHR ''/'') = split_on CHR ''/'' s @ replicate n []"
proof (induction n arbitrary: s)
  case (Suc n)
  have "split_on CHR ''/'' (s @ replicate (Suc n) CHR ''/'') = split_on CHR ''/'' s @ split_on CHR ''/'' (replicate n CHR ''/'')"
    by (simp add: split_on_app)
  also have "split_on CHR ''/'' (replicate n CHR ''/'') = [] # replicate n []"
    using Suc.IH [of "[]"] by simp
  finally show ?case by simp
qed simp

lemma trim_right_append: "\<exists>n. name = trim_right name @ replicate n CHR ''/''"
proof -
  have "takeWhile (\<lambda>c. c = CHR ''/'') (rev name) = replicate (length (takeWhile (\<lambda>c. c = CHR ''/'') (rev name))) CHR ''/''"
    by (rule replicate_eqI) (auto dest: set_takeWhileD)
  moreover have "rev name = takeWhile (\<lambda>c. c = CHR ''/'') (rev name) @ dropWhile (\<lambda>c. c = CHR ''/'') (rev name)" by simp
  ultimately have "name = trim_right name @ rev (replicate (length (takeWhile (\<lambda>c. c = CHR ''/'') (rev name))) CHR ''/'')"
    unfolding trim_right_def by (metis rev_append rev_rev_ident)
  then show ?thesis by (metis rev_replicate)
qed

lemma parent_leaf:
  assumes "CHR ''/'' \<in> set clean"
  shows "\<exists>pre. clean = pre @ CHR ''/'' # leaf_name clean \<and> parent_name clean = (if pre = [] then ''/'' else pre)"
proof -
  obtain a b where ab: "rev clean = a @ CHR ''/'' # b" "CHR ''/'' \<notin> set a"
    using assms split_list_first [of "CHR ''/''" "rev clean"] by auto
  have "takeWhile (\<lambda>c. c \<noteq> CHR ''/'') a = a" unfolding takeWhile_eq_all_conv using ab(2) by auto
  then have "takeWhile (\<lambda>c. c \<noteq> CHR ''/'') (rev clean) = a"
    unfolding ab(1) by (subst takeWhile_append2) (use ab(2) in auto)
  then have l: "leaf_name clean = rev a" by (simp add: leaf_name_def)
  have "clean = rev (a @ CHR ''/'' # b)" using ab(1) by (metis rev_rev_ident)
  then have c: "clean = rev b @ CHR ''/'' # rev a" by simp
  moreover have "parent_name clean = (if rev b = [] then ''/'' else rev b)"
    unfolding parent_name_def l Let_def using assms by (simp add: c)
  ultimately show ?thesis using l by auto
qed

text \<open>A file is created only where there is nothing.\<close>

lemma created_path_free:
  assumes root: "t [] = Some EDir" and look: "spec_lookup t p name = Inl err_not_exist" and par: "spec_parent t p name = Inr q"
  shows "t q = None"
proof -
  let ?c = "trim_right name" and ?l = "leaf_name (trim_right name)"
  obtain n where n: "name = ?c @ replicate n CHR ''/''" using trim_right_append by blast
  obtain r where r: "spec_lookup t p (parent_name ?c) = Inr r" "t r = Some EDir" "q = r @ [?l]" "?l \<notin> {[], ''.'', ''..''}"
    using par by (auto simp: spec_parent_def Let_def split: if_splits sum.splits)
  have c: "?c \<noteq> []" using r(4) by (auto simp: leaf_name_def)
  then have h: "hd name = hd ?c" "name \<noteq> []" using n by (metis hd_append2, metis append_is_Nil_conv)
  have sp: "split_on CHR ''/'' name = split_on CHR ''/'' ?c @ replicate n []" using split_slashes [of ?c n] n by simp
  have base: "tree_resolve t (if hd name = CHR ''/'' then [] else p) (split_on CHR ''/'' ?c) = tree_resolve t r [?l]"
  proof (cases "CHR ''/'' \<in> set ?c")
    case False
    then have "?l = ?c" "parent_name ?c = ''.''" by (rule leaf_whole)+
    moreover have "hd ?c \<noteq> CHR ''/''" using False c by (metis hd_in_set)
    ultimately show ?thesis using False r(1) h root
      by (auto simp: split_on_none spec_lookup_def split: if_splits)
  next
    case True
    obtain pre where pre: "?c = pre @ CHR ''/'' # ?l" "parent_name ?c = (if pre = [] then ''/'' else pre)"
      using parent_leaf [OF True] by blast
    have s: "split_on CHR ''/'' ?c = split_on CHR ''/'' pre @ [?l]"
      using split_on_app [of "CHR ''/''" pre ?l] pre(1) leaf_no_slash [of ?c] by (simp add: split_on_none)
    show ?thesis
    proof (cases "pre = []")
      case True
      then have "hd name = CHR ''/''" using pre(1) h by (metis append_Nil list.sel(1))
      then show ?thesis using r(1) pre(2) s True root by (auto simp: spec_lookup_def split: if_splits)
    next
      case False
      then have "hd name = hd pre" using pre(1) h by (metis hd_append2)
      then show ?thesis using r(1) pre(2) s False
        by (auto simp: spec_lookup_def tree_resolve_append split: if_splits sum.splits)
    qed
  qed
  have "t (r @ [?l]) = None"
  proof (rule ccontr)
    assume "t (r @ [?l]) \<noteq> None"
    then have "tree_resolve t r [?l] = Inr (r @ [?l])" using r(2,4) by simp
    then have "tree_resolve t (if hd name = CHR ''/'' then [] else p) (split_on CHR ''/'' name) = Inr (r @ [?l])"
      unfolding sp tree_resolve_append base by (simp add: tree_resolve_empty)
    then show False using look h(2) by (auto simp: spec_lookup_def err_not_exist_def err_enotdir_def split: if_splits)
  qed
  then show ?thesis using r(3) by simp
qed

lemma put_keeps:
  assumes "shape_inv fs" "tree_of fs q \<noteq> Some EDir" "tree_of fs x \<noteq> None"
  shows "put_entry q (Some e) (tree_of fs) x \<noteq> None"
proof (cases "prefix q x \<and> x \<noteq> q")
  case True
  then obtain k r where x: "x = q @ k # r" by (metis append.right_neutral neq_Nil_conv prefix_def)
  obtain n where "node_at fs x = Some n" using assms(3) by (auto simp: tree_of_def)
  then have "tree_of fs q = Some EDir" using node_at_inner_dir [OF assms(1), of q k r] by (auto simp: x tree_of_def entry_of_def)
  then show ?thesis using assms(2) by simp
next
  case False
  then show ?thesis using assms(3) by (auto simp: put_entry_def)
qed

lemma openat_keeps:
  assumes "shape_inv fs" "tree_of fs x \<noteq> None"
  shows "snd (spec_openat (tree_of fs) p name flag) x \<noteq> None"
proof (cases "spec_lookup (tree_of fs) p name")
  case (Inl e)
  then show ?thesis
    using put_keeps [OF assms(1) _ assms(2)] created_path_free [of "tree_of fs" p name] tree_root [OF assms(1)] assms(2)
    by (auto simp: spec_openat_def split: sum.splits)
next
  case (Inr q)
  then show ?thesis using put_keeps [OF assms(1) _ assms(2)] assms(2) by (auto simp: spec_openat_def)
qed

section \<open>Properties\<close>

text \<open>
  C28. Opening from a pinned directory is opening from its path. On a directory whose path is \<open>p\<close>, however
  it was reached and whatever names led to it before, \<open>Directory.OpenFile\<close> answers the specified errors
  and otherwise a handle on the node at the specified path, and makes of the tree what the specification
  says; \<open>Lstat\<close> describes the node of the resolved path. No call makes a path disappear, and a file is
  created only at a path that was free.
\<close>

theorem pinned_open_refines_tree:
  assumes "fs_ready fs" "node_at fs p = Some d" "dir_open d name flag perm now fs = (r, fs')"
  shows "fs_ready fs' \<and> tree_of fs' = snd (spec_openat (tree_of fs) p name flag) \<and>
    (case fst (spec_openat (tree_of fs) p name flag) of
       Inl e \<Rightarrow> r = Inl e
     | Inr q \<Rightarrow> \<exists>h. r = Inr h \<and> node_at fs' q = Some (mf_node h)) \<and>
    (case spec_lookup (tree_of fs) p name of
       Inl e \<Rightarrow> dir_lstat d name fs = Inl (path_error ''statat'' name e)
     | Inr q \<Rightarrow> \<exists>n. node_at fs q = Some n \<and> dir_lstat d name fs = Inr (node_info fs n)) \<and>
    (\<forall>x. tree_of fs x \<noteq> None \<longrightarrow> tree_of fs' x \<noteq> None) \<and>
    (\<forall>q. spec_lookup (tree_of fs) p name = Inl err_not_exist \<and> spec_parent (tree_of fs) p name = Inr q \<longrightarrow> tree_of fs q = None)"
proof -
  note sh = ready_shape [OF assms(1)]
  have o: "fs_ready fs'" "tree_of fs' = snd (spec_openat (tree_of fs) p name flag)"
    "case fst (spec_openat (tree_of fs) p name flag) of Inl e \<Rightarrow> r = Inl e | Inr q \<Rightarrow> \<exists>h. r = Inr h \<and> node_at fs' q = Some (mf_node h)"
    using openat_refines [OF assms(1,2), of name flag perm now] unfolding opens_def assms(3) fst_conv snd_conv by blast+
  have "case spec_lookup (tree_of fs) p name of Inl e \<Rightarrow> dir_lstat d name fs = Inl (path_error ''statat'' name e)
     | Inr q \<Rightarrow> \<exists>n. node_at fs q = Some n \<and> dir_lstat d name fs = Inr (node_info fs n)"
    using dir_lookup_spec [OF sh assms(2), of name] by (auto simp: dir_lstat_def split: sum.splits)
  then show ?thesis using o openat_keeps [OF sh] created_path_free [of "tree_of fs" p name] tree_root [OF sh] by simp
qed

text \<open>
  An unlinked directory takes no new entries. When the entry of a pinned directory was removed or
  replaced, creating a file in it fails and changes nothing, also when another directory has taken
  its name.
\<close>

lemma unlinked_directory_is_frozen:
  assumes "unlinked fs d" "proper k" "child fs d k = None"
  shows "dir_open d k flag perm now fs = (Inl (path_error ''openat'' k (if m_dir (nodes fs d) then err_not_exist else err_enotdir)), fs)"
proof -
  have k: "k \<noteq> []" "CHR ''/'' \<notin> set k" "k \<noteq> ''.''" "k \<noteq> ''..''" using assms(2) by (simp_all add: proper_def)
  then have h: "hd k \<noteq> CHR ''/''" "last k \<noteq> CHR ''/''" by (metis hd_in_set, metis last_in_set)
  have t: "trim_right k = k" using h(2) k(1) by (simp add: trim_right_def) (metis dropWhile_eq_self_iff hd_rev rev_swap)
  have l: "leaf_name k = k" "parent_name k = ''.''" using leaf_whole [OF k(2)] .
  have "dir_lookup fs d k = Inl (if m_dir (nodes fs d) then err_not_exist else err_enotdir)"
    using k h assms(3) by (simp add: dir_lookup_def split_on_none)
  moreover have "m_dir (nodes fs d) \<Longrightarrow> dir_parent fs d k = Inl err_not_exist"
    using k assms(1) by (simp add: dir_parent_def t l dir_lookup_def split_on_none)
  ultimately show ?thesis by (simp add: dir_open_def err_not_exist_def err_enotdir_def)
qed

section \<open>Witnesses\<close>

text \<open>A file system with the directory \<open>d\<close>, pinned; then with its entry removed.\<close>

definition pin_fs :: mem_fs where "pin_fs = snd (mkdir ''d'' 448 0 (new_mem_fs empty_world))"

definition pin_flags :: open_flags where
  "pin_flags = \<lparr>o_wronly = False, o_rdwr = True, o_create = True, o_excl = True, o_trunc = False, o_append = False\<rparr>"

lemma pin_ready: "fs_ready pin_fs"
  using mkdir_sim [OF new_mem_fs_ready [OF empty_world_inv empty_world_keys], of "''d''" 448 0] by (auto simp: sim_def pin_fs_def)

lemma pin_opens: "node_at pin_fs [''d''] = Some 1" "fst (spec_openat (tree_of pin_fs) [''d''] ''../d//x'' pin_flags) = Inr [''d'', ''x'']"
  "spec_lookup (tree_of pin_fs) [''d''] ''../d//x'' = Inl err_not_exist"
  "spec_parent (tree_of pin_fs) [''d''] ''../d//x'' = Inr [''d'', ''x'']"
  by code_simp+

theorem pinned_open_refines_tree_witness:
  "\<exists>h fs'. dir_open 1 ''../d//x'' pin_flags 384 0 pin_fs = (Inr h, fs') \<and> node_at fs' [''d'', ''x''] = Some (mf_node h) \<and>
    tree_of fs' [''d'', ''x''] = Some (EFile []) \<and> tree_of pin_fs [''d'', ''x''] = None"
proof -
  obtain r fs' where o: "dir_open 1 ''../d//x'' pin_flags 384 0 pin_fs = (r, fs')" by (metis surj_pair)
  have "o_create pin_flags" by (simp add: pin_flags_def)
  then have "snd (spec_openat (tree_of pin_fs) [''d''] ''../d//x'' pin_flags) [''d'', ''x''] = Some (EFile [])"
    using pin_opens by (simp add: spec_openat_def put_entry_def)
  then show ?thesis
    using pinned_open_refines_tree [OF pin_ready pin_opens(1) o] pin_opens o by auto
qed

definition unpinned_fs :: mem_fs where "unpinned_fs = snd (remove_name ''d'' pin_fs)"

lemma unpinned: "unlinked unpinned_fs 1" "m_dir (nodes unpinned_fs 1)" "child unpinned_fs 1 ''x'' = None" "proper ''x''"
  by code_simp+

lemma unlinked_directory_is_frozen_example:
  "dir_open 1 ''x'' pin_flags 384 0 unpinned_fs = (Inl (path_error ''openat'' ''x'' err_not_exist), unpinned_fs)"
  using unlinked_directory_is_frozen [OF unpinned(1,4,3)] unpinned(2) by simp

end
