(* ===== verification/GuestMemory.thy ===== *)
theory GuestMemory
  imports GoError Prelude
begin

text \<open>
  The linear memory of a guest (\<open>internal/generatedgo/code/base\<close>: \<open>memory_mapping.go\<close>, and the bounds
  rule of \<open>base.go\<close>). A mapping is a record, its mapped region a flag; the global counters are a record
  of their own, words as the code has them. What \<open>mmap\<close>, \<open>mprotect\<close> and \<open>munmap\<close> answer is an argument
  of each call. The counters are atomics, updated one by one; a call is one step here.
\<close>

unbundle bit_operations_syntax

section \<open>Bounds\<close>

definition memory_in_bounds :: "u64 \<Rightarrow> u64 \<Rightarrow> u64 \<Rightarrow> u64 \<Rightarrow> bool" where
  "memory_in_bounds bound addr offset sz \<longleftrightarrow> addr \<le> bound \<and> offset \<le> bound - addr \<and> sz \<le> bound - addr - offset"

text \<open>\<open>MemoryEA\<close>; \<open>None\<close> is the trap.\<close>

definition memory_ea :: "u64 \<Rightarrow> u64 \<Rightarrow> u64 \<Rightarrow> u64 \<Rightarrow> u64 option" where
  "memory_ea bound addr offset sz = (if memory_in_bounds bound addr offset sz then Some (addr + offset) else None)"

lemma memory_in_bounds_exact:
  "memory_in_bounds bound addr offset sz \<longleftrightarrow> unat addr + unat offset + unat sz \<le> unat bound"
proof (cases "addr \<le> bound \<and> offset \<le> bound - addr")
  case True
  then have "unat (bound - addr) = unat bound - unat addr" "unat (bound - addr - offset) = unat (bound - addr) - unat offset"
    by (auto simp: unat_sub)
  then show ?thesis using True by (auto simp: memory_in_bounds_def word_le_nat_alt)
next
  case False
  have "unat (bound - addr) = unat bound - unat addr" if "addr \<le> bound" using that by (rule unat_sub)
  then show ?thesis using False by (auto simp: memory_in_bounds_def word_le_nat_alt)
qed

section \<open>Mappings\<close>

definition wasm_page :: u64 where "wasm_page = 65536"

record counters =
  k_active :: u64
  k_reserved :: u64
  k_enabled :: u64
  k_creates :: u64
  k_releases :: u64
  k_release_failures :: u64
  k_grow_calls :: u64
  k_grow_failures :: u64
  k_peak :: u64

record mapping =
  mm_maximum :: u64
  mm_mapped :: bool
  mm_enabled :: u64

record mappings =
  counts :: counters
  maps :: "mapping list"

definition no_mappings :: mappings where
  "no_mappings = \<lparr>counts = \<lparr>k_active = 0, k_reserved = 0, k_enabled = 0, k_creates = 0, k_releases = 0,
     k_release_failures = 0, k_grow_calls = 0, k_grow_failures = 0, k_peak = 0\<rparr>, maps = []\<rparr>"

definition err_mapping_size :: goerr where "err_mapping_size = Sentinel ''OS page size does not divide WASM page''"
definition err_map_einval :: goerr where "err_map_einval = Sentinel ''invalid argument''"

definition record_peak :: "counters \<Rightarrow> counters" where
  "record_peak k = (if k_peak k < k_enabled k then k\<lparr>k_peak := k_enabled k\<rparr> else k)"

text \<open>\<open>MemoryMapping.Grow\<close>.\<close>

definition grow_mapping :: "nat \<Rightarrow> u64 \<Rightarrow> u64 \<Rightarrow> goerr option \<Rightarrow> mappings \<Rightarrow> goerr option \<times> mappings" where
  "grow_mapping i old next_size protect s =
     (let b = maps s ! i; k = (counts s)\<lparr>k_grow_calls := k_grow_calls (counts s) + 1\<rparr>;
          refused = s\<lparr>counts := k\<lparr>k_grow_failures := k_grow_failures k + 1\<rparr>\<rparr> in
      if \<not> mm_mapped b \<or> old \<noteq> mm_enabled b \<or> next_size < old \<or> mm_maximum b < next_size \<or> next_size mod wasm_page \<noteq> 0
      then (Some err_map_einval, refused)
      else if next_size = old then (None, s\<lparr>counts := k\<rparr>)
      else case protect of
        Some e \<Rightarrow> (Some e, refused)
      | None \<Rightarrow>
          (None, s\<lparr>counts := record_peak (k\<lparr>k_enabled := k_enabled k + (next_size - old)\<rparr>),
                   maps := (maps s)[i := b\<lparr>mm_enabled := next_size\<rparr>]\<rparr>))"

text \<open>\<open>MemoryMapping.Close\<close>; its error keeps the mapping, which is the index here.\<close>

definition close_mapping :: "nat \<Rightarrow> goerr option \<Rightarrow> mappings \<Rightarrow> goerr option \<times> mappings" where
  "close_mapping i unmap s =
     (let b = maps s ! i; k = counts s in
      if \<not> mm_mapped b then (None, s)
      else case unmap of
        Some e \<Rightarrow>
          (Some (Wrapped ''linear memory release: '' e []), s\<lparr>counts := k\<lparr>k_release_failures := k_release_failures k + 1\<rparr>\<rparr>)
      | None \<Rightarrow>
          (None, s\<lparr>counts := k\<lparr>k_enabled := k_enabled k + NOT (mm_enabled b - 1), k_reserved := k_reserved k + NOT (mm_maximum b - 1),
                     k_active := k_active k + NOT 0, k_releases := k_releases k + 1\<rparr>,
                   maps := (maps s)[i := b\<lparr>mm_mapped := False, mm_enabled := 0\<rparr>]\<rparr>))"

text \<open>\<open>reserveMemoryMapping\<close>, given the page size of the system and its answers.\<close>

definition reserve_mapping ::
  "u64 \<Rightarrow> u64 \<Rightarrow> u64 \<Rightarrow> goerr option \<Rightarrow> goerr option \<Rightarrow> goerr option \<Rightarrow> mappings \<Rightarrow> goerr option \<times> mappings" where
  "reserve_mapping page initial maximum mmap protect unmap s =
     (if wasm_page mod page \<noteq> 0 \<or> maximum = 0 \<or> push_bit 31 1 < maximum \<or> maximum < initial
         \<or> initial mod wasm_page \<noteq> 0 \<or> maximum mod wasm_page \<noteq> 0
      then (Some err_mapping_size, s)
      else case mmap of
        Some e \<Rightarrow> (Some e, s)
      | None \<Rightarrow>
          let k = counts s; i = length (maps s);
              s1 = s\<lparr>counts := k\<lparr>k_active := k_active k + 1, k_reserved := k_reserved k + maximum, k_creates := k_creates k + 1\<rparr>,
                     maps := maps s @ [\<lparr>mm_maximum = maximum, mm_mapped = True, mm_enabled = 0\<rparr>]\<rparr> in
          case grow_mapping i 0 initial protect s1 of
            (None, s2) \<Rightarrow> (None, s2)
          | (Some e, s2) \<Rightarrow> (case close_mapping i unmap s2 of (c, s3) \<Rightarrow> (err_join [Some e, c], s3)))"

datatype map_op =
    Reserve u64 u64 u64 "goerr option" "goerr option" "goerr option"
  | GrowMap nat u64 u64 "goerr option"
  | CloseMap nat "goerr option"

fun map_step :: "mappings \<Rightarrow> map_op \<Rightarrow> mappings" where
  "map_step s (Reserve page initial maximum mmap protect unmap) = snd (reserve_mapping page initial maximum mmap protect unmap s)"
| "map_step s (GrowMap i old next_size protect) = (if i < length (maps s) then snd (grow_mapping i old next_size protect s) else s)"
| "map_step s (CloseMap i unmap) = (if i < length (maps s) then snd (close_mapping i unmap s) else s)"

section \<open>The counters are exact\<close>

definition mapped :: "mappings \<Rightarrow> mapping list" where "mapped s = filter mm_mapped (maps s)"

definition mapping_ok :: "mapping \<Rightarrow> bool" where
  "mapping_ok b \<longleftrightarrow> mm_enabled b \<le> mm_maximum b \<and> mm_enabled b mod wasm_page = 0 \<and> mm_maximum b \<le> push_bit 31 1 \<and>
     (\<not> mm_mapped b \<longrightarrow> mm_enabled b = 0)"

definition mappings_inv :: "mappings \<Rightarrow> bool" where
  "mappings_inv s \<longleftrightarrow> (\<forall>b\<in>set (maps s). mapping_ok b) \<and>
     k_active (counts s) = of_nat (length (mapped s)) \<and>
     k_reserved (counts s) = sum_list (map mm_maximum (mapped s)) \<and>
     k_enabled (counts s) = sum_list (map mm_enabled (mapped s)) \<and>
     k_creates (counts s) = k_active (counts s) + k_releases (counts s)"

text \<open>Replacing one element of a list in a filtered sum.\<close>

lemma sum_mapped_update:
  fixes f :: "mapping \<Rightarrow> u64"
  assumes "i < length xs"
  shows "sum_list (map f (filter mm_mapped (xs[i := b]))) + (if mm_mapped (xs ! i) then f (xs ! i) else 0) =
    sum_list (map f (filter mm_mapped xs)) + (if mm_mapped b then f b else 0)"
  using assms
proof (induction xs arbitrary: i)
  case (Cons x xs)
  show ?case
  proof (cases i)
    case (Suc j)
    then show ?thesis using Cons.IH [of j] Cons.prems by (simp add: algebra_simps split: if_splits)
  qed (simp add: algebra_simps)
qed simp

lemma length_mapped_update:
  assumes "i < length xs"
  shows "length (filter mm_mapped (xs[i := b])) + (if mm_mapped (xs ! i) then 1 else 0) =
    length (filter mm_mapped xs) + (if mm_mapped b then 1 else 0)"
  using assms
proof (induction xs arbitrary: i)
  case (Cons x xs)
  show ?case
  proof (cases i)
    case (Suc j)
    then show ?thesis using Cons.IH [of j] Cons.prems by (simp split: if_splits)
  qed simp
qed simp

lemma not_minus_one: "NOT (x - 1) = - (x::u64)"
  by (simp add: minus_eq_not_minus_1)

lemma not_zero: "NOT (0::u64) = - 1"
  by simp

lemma record_peak_simps [simp]:
  "k_active (record_peak k) = k_active k" "k_reserved (record_peak k) = k_reserved k" "k_enabled (record_peak k) = k_enabled k"
  "k_creates (record_peak k) = k_creates k" "k_releases (record_peak k) = k_releases k"
  by (simp_all add: record_peak_def)

lemma no_mappings_inv: "mappings_inv no_mappings"
  by (simp add: mappings_inv_def no_mappings_def mapped_def)

lemma all_mappings_update:
  "\<forall>b\<in>set bs. mapping_ok b \<Longrightarrow> mapping_ok b' \<Longrightarrow> \<forall>b\<in>set (bs[i := b']). mapping_ok b"
  using set_update_subset_insert [of bs i b'] by auto

lemma grow_mapping_inv:
  assumes inv: "mappings_inv s" and i: "i < length (maps s)" and g: "grow_mapping i old n protect s = (r, s')"
  shows "mappings_inv s' \<and> length (maps s') = length (maps s) \<and> (\<forall>j. mm_mapped (maps s' ! j) = mm_mapped (maps s ! j))"
proof (cases "r = None \<and> n \<noteq> old")
  case False
  then have "maps s' = maps s" "k_active (counts s') = k_active (counts s)" "k_reserved (counts s') = k_reserved (counts s)"
    "k_enabled (counts s') = k_enabled (counts s)" "k_creates (counts s') = k_creates (counts s)"
    "k_releases (counts s') = k_releases (counts s)"
    using g by (auto simp: grow_mapping_def Let_def split: if_splits option.splits)
  then show ?thesis using inv by (simp add: mappings_inv_def mapped_def)
next
  case True
  let ?b = "(maps s ! i)\<lparr>mm_enabled := n\<rparr>"
  have c: "mm_mapped (maps s ! i)" "old = mm_enabled (maps s ! i)" "old \<le> n" "n \<le> mm_maximum (maps s ! i)" "n mod wasm_page = 0"
    and m: "maps s' = (maps s)[i := ?b]"
    and k: "k_active (counts s') = k_active (counts s)" "k_reserved (counts s') = k_reserved (counts s)"
      "k_enabled (counts s') = k_enabled (counts s) + (n - old)" "k_creates (counts s') = k_creates (counts s)"
      "k_releases (counts s') = k_releases (counts s)"
    using g True by (auto simp: grow_mapping_def Let_def not_less split: if_splits option.splits)
  have "mapping_ok (maps s ! i)" using inv i by (simp add: mappings_inv_def)
  then have ok: "mapping_ok ?b" using c by (simp add: mapping_ok_def)
  have b: "mm_mapped ?b" using c by simp
  have "\<forall>b\<in>set (maps s'). mapping_ok b" unfolding m by (rule all_mappings_update [OF _ ok]) (use inv in \<open>simp add: mappings_inv_def\<close>)
  moreover have "length (mapped s') = length (mapped s)" using length_mapped_update [OF i, of ?b] c(1) b m by (simp add: mapped_def)
  moreover have "sum_list (map mm_maximum (mapped s')) = sum_list (map mm_maximum (mapped s))"
    using sum_mapped_update [OF i, of mm_maximum ?b] c(1) b m by (simp add: mapped_def)
  moreover have "sum_list (map mm_enabled (mapped s')) = sum_list (map mm_enabled (mapped s)) + (n - old)"
    using sum_mapped_update [OF i, of mm_enabled ?b] c(1,2) b m by (simp add: mapped_def algebra_simps)
  ultimately have "mappings_inv s'" using inv k by (simp add: mappings_inv_def)
  then show ?thesis using m i by (simp add: nth_list_update)
qed

lemma close_mapping_inv:
  assumes inv: "mappings_inv s" and i: "i < length (maps s)" and c: "close_mapping i unmap s = (r, s')"
  shows "mappings_inv s' \<and> length (maps s') = length (maps s) \<and>
    (\<forall>j. mm_mapped (maps s' ! j) = (mm_mapped (maps s ! j) \<and> (j = i \<longrightarrow> r \<noteq> None)))"
proof (cases "r = None \<and> mm_mapped (maps s ! i)")
  case False
  then have "maps s' = maps s" "k_active (counts s') = k_active (counts s)" "k_reserved (counts s') = k_reserved (counts s)"
    "k_enabled (counts s') = k_enabled (counts s)" "k_creates (counts s') = k_creates (counts s)"
    "k_releases (counts s') = k_releases (counts s)"
    using c by (auto simp: close_mapping_def Let_def split: if_splits option.splits)
  then show ?thesis using inv False by (auto simp: mappings_inv_def mapped_def)
next
  case True
  let ?b = "(maps s ! i)\<lparr>mm_mapped := False, mm_enabled := 0\<rparr>" and ?a = "maps s ! i"
  have m: "maps s' = (maps s)[i := ?b]"
    and k: "k_active (counts s') = k_active (counts s) - 1" "k_reserved (counts s') = k_reserved (counts s) - mm_maximum ?a"
      "k_enabled (counts s') = k_enabled (counts s) - mm_enabled ?a" "k_creates (counts s') = k_creates (counts s)"
      "k_releases (counts s') = k_releases (counts s) + 1"
    using c True by (auto simp: close_mapping_def Let_def not_minus_one split: if_splits option.splits)
  have "mapping_ok ?a" using inv i by (simp add: mappings_inv_def)
  then have ok: "mapping_ok ?b" by (simp add: mapping_ok_def)
  have "\<forall>b\<in>set (maps s'). mapping_ok b" unfolding m by (rule all_mappings_update [OF _ ok]) (use inv in \<open>simp add: mappings_inv_def\<close>)
  moreover have "length (mapped s) = Suc (length (mapped s'))" using length_mapped_update [OF i, of ?b] True m by (simp add: mapped_def)
  moreover have "sum_list (map mm_maximum (mapped s')) = sum_list (map mm_maximum (mapped s)) - mm_maximum ?a"
    using sum_mapped_update [OF i, of mm_maximum ?b] True m by (simp add: mapped_def algebra_simps)
  moreover have "sum_list (map mm_enabled (mapped s')) = sum_list (map mm_enabled (mapped s)) - mm_enabled ?a"
    using sum_mapped_update [OF i, of mm_enabled ?b] True m by (simp add: mapped_def algebra_simps)
  ultimately have "mappings_inv s'" using inv k by (simp add: mappings_inv_def)
  then show ?thesis using m i True by (auto simp: nth_list_update)
qed

lemma reserve_mapping_inv:
  assumes inv: "mappings_inv s" and r: "reserve_mapping page initial maximum mmap protect unmap s = (r, s')"
  shows "mappings_inv s' \<and> (\<forall>j<length (maps s). mm_mapped (maps s' ! j) = mm_mapped (maps s ! j)) \<and> length (maps s) \<le> length (maps s')"
proof (cases "wasm_page mod page \<noteq> 0 \<or> maximum = 0 \<or> push_bit 31 1 < maximum \<or> maximum < initial
    \<or> initial mod wasm_page \<noteq> 0 \<or> maximum mod wasm_page \<noteq> 0 \<or> mmap \<noteq> None")
  case True
  then have "s' = s" using r by (auto simp: reserve_mapping_def split: if_splits option.splits)
  then show ?thesis using inv by simp
next
  case False
  let ?b = "\<lparr>mm_maximum = maximum, mm_mapped = True, mm_enabled = 0\<rparr>"
  let ?s = "s\<lparr>counts := (counts s)\<lparr>k_active := k_active (counts s) + 1, k_reserved := k_reserved (counts s) + maximum,
      k_creates := k_creates (counts s) + 1\<rparr>, maps := maps s @ [?b]\<rparr>"
  obtain e s2 where g: "grow_mapping (length (maps s)) 0 initial protect ?s = (e, s2)" by (metis surj_pair)
  have ok: "maximum \<le> push_bit 31 1" using False by (simp add: not_less)
  have s': "(case e of None \<Rightarrow> (None, s2)
      | Some x \<Rightarrow> (case close_mapping (length (maps s)) unmap s2 of (c, s3) \<Rightarrow> (err_join [Some x, c], s3))) = (r, s')"
    using r g False by (simp add: reserve_mapping_def Let_def)
  have "mapping_ok ?b" using ok by (simp add: mapping_ok_def)
  then have "mappings_inv ?s" using inv by (auto simp: mappings_inv_def mapped_def)
  note g2 = grow_mapping_inv [OF this _ g]
  show ?thesis
  proof (cases e)
    case None
    then show ?thesis using g2 s' by (auto simp: nth_append)
  next
    case (Some x)
    obtain c s3 where cl: "close_mapping (length (maps s)) unmap s2 = (c, s3)" by (metis surj_pair)
    have "mappings_inv s2" "length (maps s) < length (maps s2)" using g2 by simp_all
    note c2 = close_mapping_inv [OF this cl]
    have "s' = s3" using s' Some cl by simp
    then show ?thesis using g2 c2 by (auto simp: nth_append)
  qed
qed

lemma map_step_inv: "mappings_inv s \<Longrightarrow> mappings_inv (map_step s x)"
proof (cases x)
  case (Reserve page initial maximum mmap protect unmap)
  assume "mappings_inv s"
  from reserve_mapping_inv [OF this prod.collapse [symmetric], of page initial maximum mmap protect unmap] show ?thesis
    using Reserve by simp
next
  case (GrowMap i old n protect)
  assume "mappings_inv s"
  with grow_mapping_inv [OF this _ prod.collapse [symmetric], of i old n protect] show ?thesis using GrowMap by simp
next
  case (CloseMap i unmap)
  assume "mappings_inv s"
  with close_mapping_inv [OF this _ prod.collapse [symmetric], of i unmap] show ?thesis using CloseMap by simp
qed

interpretation mapping_machine: inv_machine map_step mappings_inv
  by unfold_locales (rule map_step_inv)

text \<open>A mapping once released is never mapped again.\<close>

definition stays_released :: "mappings \<Rightarrow> mappings \<Rightarrow> bool" where
  "stays_released s s' \<longleftrightarrow> length (maps s) \<le> length (maps s') \<and>
     (\<forall>i<length (maps s). mm_mapped (maps s' ! i) \<longrightarrow> mm_mapped (maps s ! i))"

lemma map_step_released:
  assumes inv: "mappings_inv s"
  shows "stays_released s (map_step s x)"
proof (cases x)
  case (Reserve page initial maximum mmap protect unmap)
  from reserve_mapping_inv [OF inv prod.collapse [symmetric], of page initial maximum mmap protect unmap] show ?thesis
    using Reserve by (simp add: stays_released_def)
next
  case (GrowMap i old n protect)
  with grow_mapping_inv [OF inv _ prod.collapse [symmetric], of i old n protect] show ?thesis by (simp add: stays_released_def)
next
  case (CloseMap i unmap)
  with close_mapping_inv [OF inv _ prod.collapse [symmetric], of i unmap] show ?thesis by (simp add: stays_released_def)
qed

lemma map_run_released: "mappings_inv s \<Longrightarrow> stays_released s (foldl map_step s ops)"
proof (induction ops arbitrary: s)
  case Nil
  then show ?case by (simp add: stays_released_def)
next
  case (Cons x ops)
  then have "stays_released (map_step s x) (foldl map_step (map_step s x) ops)" using map_step_inv by blast
  then show ?case using map_step_released [OF Cons.prems, of x] by (auto simp: stays_released_def)
qed

section \<open>Properties\<close>

text \<open>
  An access is in bounds exactly when it is in bounds as integers: no combination of address, offset and
  size makes the check of \<open>MemoryInBounds\<close> wrap around, and the address it then yields does not wrap.
\<close>

lemma memory_bounds_never_wrap:
  "(memory_ea bound addr offset sz = None \<longleftrightarrow> unat bound < unat addr + unat offset + unat sz) \<and>
    (\<forall>ea\<in>set_option (memory_ea bound addr offset sz). unat ea = unat addr + unat offset \<and> unat ea + unat sz \<le> unat bound)"
proof (cases "memory_in_bounds bound addr offset sz")
  case True
  then have le: "unat addr + unat offset + unat sz \<le> unat bound" by (simp add: memory_in_bounds_exact)
  then have "unat (addr + offset) = unat addr + unat offset"
    using order.strict_trans1 [OF _ unat_u64_less [of bound], of "unat addr + unat offset"] by (simp add: unat_word_ariths)
  then show ?thesis using True le by (simp add: memory_ea_def)
next
  case False
  then show ?thesis by (simp add: memory_ea_def memory_in_bounds_exact)
qed

text \<open>
  The accounting of linear memory is exact. After any sequence of reservations, growths and releases,
  whatever the system answered: the counters of active, reserved and enabled memory are the number and
  the sums over the mappings that are still mapped, every mapping created is active or was released
  once, and the enabled part of a mapping is a number of WASM pages within its maximum of at most
  2 GiB. A mapping that was released stays released, whatever follows.
\<close>

lemma mapping_counters_exact:
  assumes "s = foldl map_step no_mappings ops"
  shows "k_active (counts s) = of_nat (length (mapped s)) \<and>
    k_reserved (counts s) = sum_list (map mm_maximum (mapped s)) \<and>
    k_enabled (counts s) = sum_list (map mm_enabled (mapped s)) \<and>
    k_creates (counts s) = k_active (counts s) + k_releases (counts s) \<and>
    (\<forall>b\<in>set (maps s). mm_enabled b \<le> mm_maximum b \<and> mm_maximum b \<le> 2147483648 \<and> mm_enabled b mod wasm_page = 0) \<and>
    (\<forall>i<length (maps s). \<not> mm_mapped (maps s ! i) \<longrightarrow> \<not> mm_mapped (maps (foldl map_step s later) ! i))"
proof -
  have inv: "mappings_inv s" unfolding assms by (rule mapping_machine.run_inv [OF no_mappings_inv])
  show ?thesis
    using inv map_run_released [OF inv, of later]
    by (auto simp: mappings_inv_def mapping_ok_def stays_released_def)
qed

section \<open>Witnesses\<close>

lemma memory_bounds_never_wrap_example:
  "memory_ea 65536 65535 18446744073709551615 2 = None \<and> memory_ea 65536 65532 2 2 = Some 65534"
  using memory_bounds_never_wrap [of 65536 65535 18446744073709551615 2] by (simp add: memory_ea_def memory_in_bounds_def)

text \<open>Two mappings; the first refuses its release once.\<close>

definition ex_maps :: mappings where
  "ex_maps = foldl map_step no_mappings
     [Reserve 4096 65536 131072 None None None, Reserve 4096 0 65536 None None None, GrowMap 0 65536 131072 None,
      CloseMap 0 (Some (Sentinel ''busy'')), CloseMap 1 None]"

lemma ex_maps_value: "mapped ex_maps = [\<lparr>mm_maximum = 131072, mm_mapped = True, mm_enabled = 131072\<rparr>]"
  by code_simp

lemma mapping_counters_exact_example:
  "k_active (counts ex_maps) = 1 \<and> k_reserved (counts ex_maps) = 131072 \<and> k_enabled (counts ex_maps) = 131072"
  using mapping_counters_exact [OF ex_maps_def] ex_maps_value by simp

end
