(* ===== verification/GuestThreads.thy ===== *)
theory GuestThreads
  imports GuestMemory
begin

text \<open>
  The lifetime of worker stacks (\<open>internal/generatedgo/code/base/thread_lifetime.go\<close>). An allocation is
  its position in the list of those registered, a module is a number. The code of one critical section
  is one step; between the steps of a completion or of a waiting free, others may run. A \<open>panic\<close> is \<open>None\<close>.
  The phase of an allocation says where its worker is: running, past the critical section of
  \<open>complete\<close> (with what it read there), or with its channel closed. \<open>lt_reclaimed\<close> records the calls of
  the reclaimer; no operation of the code reads it.
\<close>

datatype phase = Running | Leaving bool | Ended

record allocation =
  a_ptr :: u32
  a_owner :: nat
  a_phase :: phase
  a_deferred :: bool

record lifetime =
  lt_maps :: "u32 \<Rightarrow> nat option"
  lt_allocs :: "allocation list"
  lt_waits :: "(nat \<times> u32 \<times> nat) list"
  lt_reclaimed :: "nat list"

definition new_lifetime :: lifetime where
  "new_lifetime = \<lparr>lt_maps = (\<lambda>_. None), lt_allocs = [], lt_waits = [], lt_reclaimed = []\<rparr>"

definition alloc_at :: "lifetime \<Rightarrow> nat \<Rightarrow> allocation" where "alloc_at s a = lt_allocs s ! a"

definition set_alloc :: "nat \<Rightarrow> allocation \<Rightarrow> lifetime \<Rightarrow> lifetime" where
  "set_alloc a x s = s\<lparr>lt_allocs := (lt_allocs s)[a := x]\<rparr>"

section \<open>Registration\<close>

text \<open>\<open>threadWord\<close> on a memory of bytes; \<open>None\<close> is the trap.\<close>

definition thread_word :: "bytes \<Rightarrow> u64 \<Rightarrow> u32 option" where
  "thread_word mem addr =
     map_option (\<lambda>ea. get_le (take 4 (drop (unat ea) mem))) (memory_ea (of_nat (length mem)) addr 0 4)"

definition register_thread :: "nat \<Rightarrow> bytes \<Rightarrow> u32 \<Rightarrow> lifetime \<Rightarrow> (nat option \<times> lifetime) option" where
  "register_thread m mem arg s =
     Option.bind (thread_word mem (ucast arg + 16)) (\<lambda>w.
       let td = ucast w in
       Option.bind (thread_word mem (td + 40)) (\<lambda>ptr.
         if ptr = 0 then Some (None, s)
         else Option.bind (thread_word mem (td + 44)) (\<lambda>sz.
           if sz = 0 then None
           else Option.bind (memory_ea (of_nat (length mem)) (ucast ptr) 0 (ucast sz)) (\<lambda>_.
             if lt_maps s ptr \<noteq> None then None
             else
               let a = length (lt_allocs s) in
               Some (Some a, s\<lparr>lt_maps := (lt_maps s)(ptr \<mapsto> a),
                 lt_allocs := lt_allocs s @ [\<lparr>a_ptr = ptr, a_owner = m, a_phase = Running, a_deferred = False\<rparr>]\<rparr>)))))"

section \<open>Completion\<close>

text \<open>The critical section of \<open>complete\<close>, and what follows it: a deferred reclaim, then \<open>close(done)\<close>.\<close>

definition leave_thread :: "nat \<Rightarrow> lifetime \<Rightarrow> lifetime option" where
  "leave_thread a s =
     (let x = alloc_at s a in
      if a_deferred x
      then if lt_maps s (a_ptr x) \<noteq> Some a then None
           else Some (set_alloc a (x\<lparr>a_phase := Leaving True\<rparr>) (s\<lparr>lt_maps := (lt_maps s)(a_ptr x := None)\<rparr>))
      else Some (set_alloc a (x\<lparr>a_phase := Leaving False\<rparr>) s))"

definition finish_thread :: "nat \<Rightarrow> lifetime \<Rightarrow> lifetime" where
  "finish_thread a s =
     (let x = alloc_at s a;
          s1 = (if a_phase x = Leaving True then s\<lparr>lt_reclaimed := lt_reclaimed s @ [a]\<rparr> else s) in
      set_alloc a (x\<lparr>a_phase := Ended\<rparr>) s1)"

section \<open>Freeing\<close>

text \<open>
  \<open>DeferThreadAllocationFree\<close> up to its wait, and after it. The first answers \<open>Some b\<close> when the call
  returns \<open>b\<close>, and \<open>None\<close> when it waits for the worker of another module.
\<close>

definition free_start :: "nat \<Rightarrow> u32 \<Rightarrow> lifetime \<Rightarrow> (bool option \<times> lifetime) option" where
  "free_start m ptr s =
     (case lt_maps s ptr of
        None \<Rightarrow> Some (Some False, s)
      | Some a \<Rightarrow>
          let x = alloc_at s a in
          if a_owner x = m
          then if a_deferred x then None else Some (Some True, set_alloc a (x\<lparr>a_deferred := True\<rparr>) s)
          else Some (None, s\<lparr>lt_waits := lt_waits s @ [(m, ptr, a)]\<rparr>))"

definition free_finish :: "nat \<Rightarrow> u32 \<Rightarrow> nat \<Rightarrow> lifetime \<Rightarrow> (bool \<times> lifetime) option" where
  "free_finish m ptr a s =
     (if lt_maps s ptr \<noteq> Some a then None
      else Some (True, s\<lparr>lt_maps := (lt_maps s)(ptr := None), lt_waits := remove1 (m, ptr, a) (lt_waits s),
                         lt_reclaimed := lt_reclaimed s @ [a]\<rparr>))"

section \<open>Runs\<close>

text \<open>
  The steps of workers and frees. A module frees its own stack only while its worker runs: its code does
  not run later. A waiting free goes on when the channel of the allocation is closed.
\<close>

inductive thread_step :: "lifetime \<Rightarrow> lifetime \<Rightarrow> bool" where
  registers: "register_thread m mem arg s = Some (r, s') \<Longrightarrow> thread_step s s'"
| leaves: "a < length (lt_allocs s) \<Longrightarrow> a_phase (alloc_at s a) = Running \<Longrightarrow> leave_thread a s = Some s' \<Longrightarrow> thread_step s s'"
| finishes: "a < length (lt_allocs s) \<Longrightarrow> a_phase (alloc_at s a) = Leaving d \<Longrightarrow> thread_step s (finish_thread a s)"
| frees: "(\<And>a. lt_maps s ptr = Some a \<Longrightarrow> a_owner (alloc_at s a) = m \<Longrightarrow> a_phase (alloc_at s a) = Running) \<Longrightarrow>
    free_start m ptr s = Some (r, s') \<Longrightarrow> thread_step s s'"
| wakes: "(m, ptr, a) \<in> set (lt_waits s) \<Longrightarrow> a_phase (alloc_at s a) = Ended \<Longrightarrow> free_finish m ptr a s = Some (b, s') \<Longrightarrow>
    thread_step s s'"

inductive thread_reach :: "lifetime \<Rightarrow> bool" where
  begin_run: "thread_reach new_lifetime"
| next_run: "thread_reach s \<Longrightarrow> thread_step s s' \<Longrightarrow> thread_reach s'"

section \<open>The invariant\<close>

text \<open>Registered is: not reclaimed, and not about to reclaim itself.\<close>

definition held :: "lifetime \<Rightarrow> nat \<Rightarrow> bool" where
  "held s a \<longleftrightarrow> a < length (lt_allocs s) \<and> a \<notin> set (lt_reclaimed s) \<and> a_phase (alloc_at s a) \<noteq> Leaving True"

definition lifetime_inv :: "lifetime \<Rightarrow> bool" where
  "lifetime_inv s \<longleftrightarrow> (\<forall>p a. lt_maps s p = Some a \<longleftrightarrow> held s a \<and> a_ptr (alloc_at s a) = p) \<and>
     distinct (lt_reclaimed s) \<and> (\<forall>a\<in>set (lt_reclaimed s). a < length (lt_allocs s) \<and> a_phase (alloc_at s a) = Ended) \<and>
     (\<forall>a<length (lt_allocs s). (\<forall>d. a_phase (alloc_at s a) = Leaving d \<longrightarrow> d = a_deferred (alloc_at s a)) \<and>
        (a_phase (alloc_at s a) = Ended \<and> a_deferred (alloc_at s a) \<longrightarrow> a \<in> set (lt_reclaimed s))) \<and>
     (\<forall>m p a. (m, p, a) \<in> set (lt_waits s) \<longrightarrow> a < length (lt_allocs s) \<and> a_ptr (alloc_at s a) = p)"

lemma alloc_set [simp]:
  "a < length (lt_allocs s) \<Longrightarrow> alloc_at (set_alloc a x s) b = (if b = a then x else alloc_at s b)"
  "lt_maps (set_alloc a x s) = lt_maps s" "lt_waits (set_alloc a x s) = lt_waits s"
  "lt_reclaimed (set_alloc a x s) = lt_reclaimed s" "length (lt_allocs (set_alloc a x s)) = length (lt_allocs s)"
  by (auto simp: alloc_at_def set_alloc_def nth_list_update)

lemma alloc_edit [simp]:
  "alloc_at (s\<lparr>lt_maps := m\<rparr>) = alloc_at s" "alloc_at (s\<lparr>lt_waits := w\<rparr>) = alloc_at s"
  "alloc_at (s\<lparr>lt_reclaimed := r\<rparr>) = alloc_at s"
  by (simp_all add: alloc_at_def fun_eq_iff)

text \<open>The parts of the invariant, to use and to show.\<close>

lemma lifetime_parts:
  assumes "lifetime_inv s"
  shows "lt_maps s p = Some a \<longleftrightarrow> held s a \<and> a_ptr (alloc_at s a) = p" "distinct (lt_reclaimed s)"
    "a \<in> set (lt_reclaimed s) \<Longrightarrow> a < length (lt_allocs s) \<and> a_phase (alloc_at s a) = Ended"
    "a < length (lt_allocs s) \<Longrightarrow> a_phase (alloc_at s a) = Leaving d \<Longrightarrow> d = a_deferred (alloc_at s a)"
    "a < length (lt_allocs s) \<Longrightarrow> a_phase (alloc_at s a) = Ended \<Longrightarrow> a_deferred (alloc_at s a) \<Longrightarrow> a \<in> set (lt_reclaimed s)"
    "(m, p, a) \<in> set (lt_waits s) \<Longrightarrow> a < length (lt_allocs s) \<and> a_ptr (alloc_at s a) = p"
  using assms unfolding lifetime_inv_def by blast+

lemma lifetime_invI:
  assumes "\<And>p a. lt_maps s p = Some a \<longleftrightarrow> held s a \<and> a_ptr (alloc_at s a) = p" "distinct (lt_reclaimed s)"
    "\<And>a. a \<in> set (lt_reclaimed s) \<Longrightarrow> a < length (lt_allocs s) \<and> a_phase (alloc_at s a) = Ended"
    "\<And>a d. a < length (lt_allocs s) \<Longrightarrow> a_phase (alloc_at s a) = Leaving d \<Longrightarrow> d = a_deferred (alloc_at s a)"
    "\<And>a. a < length (lt_allocs s) \<Longrightarrow> a_phase (alloc_at s a) = Ended \<Longrightarrow> a_deferred (alloc_at s a) \<Longrightarrow> a \<in> set (lt_reclaimed s)"
    "\<And>m p a. (m, p, a) \<in> set (lt_waits s) \<Longrightarrow> a < length (lt_allocs s) \<and> a_ptr (alloc_at s a) = p"
  shows "lifetime_inv s"
  unfolding lifetime_inv_def using assms by blast

lemma register_inv:
  assumes inv: "lifetime_inv s" and r: "register_thread m mem arg s = Some (r, s')"
  shows "lifetime_inv s'"
proof (cases r)
  case None
  then have "s' = s" using r by (auto simp: register_thread_def Let_def bind_eq_Some_conv split: if_splits)
  then show ?thesis using inv by simp
next
  case (Some a)
  obtain p where free: "lt_maps s p = None" and a: "a = length (lt_allocs s)"
    and s': "s' = s\<lparr>lt_maps := (lt_maps s)(p \<mapsto> a),
      lt_allocs := lt_allocs s @ [\<lparr>a_ptr = p, a_owner = m, a_phase = Running, a_deferred = False\<rparr>]\<rparr>"
    using r Some by (auto simp: register_thread_def Let_def bind_eq_Some_conv split: if_splits)
  have old: "alloc_at s' b = alloc_at s b" if "b < length (lt_allocs s)" for b
    using that by (simp add: s' alloc_at_def nth_append)
  have new: "alloc_at s' a = \<lparr>a_ptr = p, a_owner = m, a_phase = Running, a_deferred = False\<rparr>"
    by (simp add: s' a alloc_at_def)
  have len: "length (lt_allocs s') = Suc a" "lt_reclaimed s' = lt_reclaimed s" "lt_waits s' = lt_waits s"
    "lt_maps s' = (lt_maps s)(p \<mapsto> a)" by (simp_all add: s' a)
  have rec: "b < a" if "b \<in> set (lt_reclaimed s)" for b using inv that by (simp add: lifetime_inv_def a)
  have hd: "held s' b \<longleftrightarrow> b = a \<or> held s b" for b
    using old new len rec by (cases "b < a") (auto simp: held_def a less_Suc_eq)
  have ha: "held s b \<Longrightarrow> b < a" for b by (simp add: held_def a)
  note i = lifetime_parts [OF inv]
  show ?thesis
  proof (rule lifetime_invI)
    fix q b
    show "lt_maps s' q = Some b \<longleftrightarrow> held s' b \<and> a_ptr (alloc_at s' b) = q"
    proof (cases "b = a")
      case True
      have "lt_maps s q \<noteq> Some a" using i(1) [of q a] ha [of a] by blast
      then show ?thesis using True by (auto simp: len hd new)
    next
      case False
      have "lt_maps s' q = Some b \<longleftrightarrow> lt_maps s q = Some b" using free False by (simp add: len)
      also have "\<dots> \<longleftrightarrow> held s b \<and> a_ptr (alloc_at s b) = q" by (rule i(1))
      also have "\<dots> \<longleftrightarrow> held s' b \<and> a_ptr (alloc_at s' b) = q" using False old [of b] ha [of b] by (auto simp: hd a)
      finally show ?thesis .
    qed
  next
    show "distinct (lt_reclaimed s')" using i(2) by (simp add: len)
  next
    fix b assume "b \<in> set (lt_reclaimed s')"
    then show "b < length (lt_allocs s') \<and> a_phase (alloc_at s' b) = Ended" using i(3) [of b] old [of b] by (simp add: len a)
  next
    fix b d assume "b < length (lt_allocs s')" "a_phase (alloc_at s' b) = Leaving d"
    then show "d = a_deferred (alloc_at s' b)" using i(4) [of b d] old [of b] new by (cases "b = a") (simp_all add: len a)
  next
    fix b assume "b < length (lt_allocs s')" "a_phase (alloc_at s' b) = Ended" "a_deferred (alloc_at s' b)"
    then show "b \<in> set (lt_reclaimed s')" using i(5) [of b] old [of b] new by (cases "b = a") (simp_all add: len a)
  next
    fix m' p' b assume "(m', p', b) \<in> set (lt_waits s')"
    then show "b < length (lt_allocs s') \<and> a_ptr (alloc_at s' b) = p'" using i(6) [of m' p' b] old [of b] by (simp add: len a)
  qed
qed

lemma leave_inv:
  assumes inv: "lifetime_inv s" and a: "a < length (lt_allocs s)" "a_phase (alloc_at s a) = Running"
    and l: "leave_thread a s = Some s'"
  shows "lifetime_inv s'"
proof -
  note i = lifetime_parts [OF inv]
  let ?x = "alloc_at s a"
  have nr: "a \<notin> set (lt_reclaimed s)" using i(3) a by auto
  then have ha: "held s a" using a by (simp add: held_def)
  then have mp: "lt_maps s (a_ptr ?x) = Some a" using i(1) by blast
  have s': "s' = set_alloc a (?x\<lparr>a_phase := Leaving (a_deferred ?x)\<rparr>)
      (s\<lparr>lt_maps := (if a_deferred ?x then (lt_maps s)(a_ptr ?x := None) else lt_maps s)\<rparr>)"
    using l mp by (auto simp: leave_thread_def Let_def split: if_splits)
  have at: "alloc_at s' b = (if b = a then ?x\<lparr>a_phase := Leaving (a_deferred ?x)\<rparr> else alloc_at s b)" for b
    using a by (simp add: s')
  have hd: "held s' b \<longleftrightarrow> held s b \<and> (b = a \<longrightarrow> \<not> a_deferred ?x)" for b
    using nr a by (auto simp: held_def at) (simp_all add: s')
  have len: "lt_reclaimed s' = lt_reclaimed s" "lt_waits s' = lt_waits s" "length (lt_allocs s') = length (lt_allocs s)"
    by (simp_all add: s')
  have ms: "lt_maps s' q = (if a_deferred ?x \<and> q = a_ptr ?x then None else lt_maps s q)" for q by (simp add: s')
  show ?thesis
  proof (rule lifetime_invI)
    fix q b
    show "lt_maps s' q = Some b \<longleftrightarrow> held s' b \<and> a_ptr (alloc_at s' b) = q"
    proof (cases "b = a")
      case True
      then show ?thesis using i(1) [of q a] by (auto simp: ms hd at)
    next
      case False
      then have "lt_maps s' q = Some b \<longleftrightarrow> lt_maps s q = Some b" using mp by (auto simp: ms)
      then show ?thesis using i(1) [of q b] False by (simp add: hd at)
    qed
  next
    show "distinct (lt_reclaimed s')" using i(2) by (simp add: len)
  next
    fix b assume "b \<in> set (lt_reclaimed s')"
    then show "b < length (lt_allocs s') \<and> a_phase (alloc_at s' b) = Ended" using i(3) [of b] nr by (auto simp: len at)
  next
    fix b d' assume "b < length (lt_allocs s')" "a_phase (alloc_at s' b) = Leaving d'"
    then show "d' = a_deferred (alloc_at s' b)" using i(4) [of b d'] by (simp add: len at split: if_splits)
  next
    fix b assume "b < length (lt_allocs s')" "a_phase (alloc_at s' b) = Ended" "a_deferred (alloc_at s' b)"
    then show "b \<in> set (lt_reclaimed s')" using i(5) [of b] by (simp add: len at split: if_splits)
  next
    fix m' p' b assume "(m', p', b) \<in> set (lt_waits s')"
    then show "b < length (lt_allocs s') \<and> a_ptr (alloc_at s' b) = p'" using i(6) [of m' p' b] by (auto simp: len at)
  qed
qed

lemma finish_inv:
  assumes inv: "lifetime_inv s" and a: "a < length (lt_allocs s)" "a_phase (alloc_at s a) = Leaving d"
  shows "lifetime_inv (finish_thread a s)"
proof -
  note i = lifetime_parts [OF inv]
  let ?x = "alloc_at s a" and ?s = "finish_thread a s"
  have nr: "a \<notin> set (lt_reclaimed s)" using i(3) a by auto
  have d: "d = a_deferred ?x" using i(4) a by blast
  have s': "?s = set_alloc a (?x\<lparr>a_phase := Ended\<rparr>) (s\<lparr>lt_reclaimed := lt_reclaimed s @ (if d then [a] else [])\<rparr>)"
    using a by (auto simp: finish_thread_def Let_def)
  have at: "alloc_at ?s b = (if b = a then ?x\<lparr>a_phase := Ended\<rparr> else alloc_at s b)" for b
    using a by (simp add: s')
  have hd: "held ?s b \<longleftrightarrow> held s b" for b
    using nr a by (auto simp: held_def at) (simp_all add: s')
  have len: "set (lt_reclaimed ?s) = set (lt_reclaimed s) \<union> (if d then {a} else {})" "lt_waits ?s = lt_waits s"
    "length (lt_allocs ?s) = length (lt_allocs s)" "lt_maps ?s = lt_maps s"
    "distinct (lt_reclaimed ?s)"
    using nr i(2) by (simp_all add: s')
  show ?thesis
  proof (rule lifetime_invI)
    fix q b
    show "lt_maps ?s q = Some b \<longleftrightarrow> held ?s b \<and> a_ptr (alloc_at ?s b) = q"
      using i(1) [of q b] by (simp add: len hd at)
  next
    show "distinct (lt_reclaimed ?s)" by (rule len(5))
  next
    fix b assume "b \<in> set (lt_reclaimed ?s)"
    then show "b < length (lt_allocs ?s) \<and> a_phase (alloc_at ?s b) = Ended" using i(3) [of b] a(1) by (auto simp: len at split: if_splits)
  next
    fix b d' assume "b < length (lt_allocs ?s)" "a_phase (alloc_at ?s b) = Leaving d'"
    then show "d' = a_deferred (alloc_at ?s b)" using i(4) [of b d'] by (simp add: len at split: if_splits)
  next
    fix b assume "b < length (lt_allocs ?s)" "a_phase (alloc_at ?s b) = Ended" "a_deferred (alloc_at ?s b)"
    then show "b \<in> set (lt_reclaimed ?s)" using i(5) [of b] d by (simp add: len at split: if_splits)
  next
    fix m' p' b assume "(m', p', b) \<in> set (lt_waits ?s)"
    then show "b < length (lt_allocs ?s) \<and> a_ptr (alloc_at ?s b) = p'" using i(6) [of m' p' b] by (auto simp: len at)
  qed
qed

lemma free_start_inv:
  assumes inv: "lifetime_inv s" and own: "\<And>a. lt_maps s ptr = Some a \<Longrightarrow> a_owner (alloc_at s a) = m \<Longrightarrow> a_phase (alloc_at s a) = Running"
    and f: "free_start m ptr s = Some (r, s')"
  shows "lifetime_inv s'"
proof (cases "lt_maps s ptr")
  case None
  then show ?thesis using f inv by (simp add: free_start_def)
next
  case (Some a)
  note i = lifetime_parts [OF inv]
  let ?x = "alloc_at s a"
  have a: "held s a" "a_ptr ?x = ptr" using i(1) Some by auto
  then have al: "a < length (lt_allocs s)" by (simp add: held_def)
  show ?thesis
  proof (cases "a_owner ?x = m")
    case False
    then have s': "s' = s\<lparr>lt_waits := lt_waits s @ [(m, ptr, a)]\<rparr>" using f Some by (simp add: free_start_def Let_def)
    have hd: "held s' b \<longleftrightarrow> held s b" for b by (simp add: held_def s')
    have same: "alloc_at s' = alloc_at s" "lt_maps s' = lt_maps s" "lt_reclaimed s' = lt_reclaimed s" "lt_allocs s' = lt_allocs s"
      "set (lt_waits s') = insert (m, ptr, a) (set (lt_waits s))" by (simp_all add: s')
    show ?thesis
      by (rule lifetime_invI) (use i(1-5) in \<open>simp_all only: same hd\<close>, use i(6) a(2) al in blast)
  next
    case True
    then have s': "s' = set_alloc a (?x\<lparr>a_deferred := True\<rparr>) s"
      using f Some by (auto simp: free_start_def Let_def split: if_splits)
    have run: "a_phase ?x = Running" by (rule own [OF Some True])
    have at: "alloc_at s' b = (if b = a then ?x\<lparr>a_deferred := True\<rparr> else alloc_at s b)" for b
      using al by (simp add: s')
    have hd: "held s' b \<longleftrightarrow> held s b" for b by (auto simp: held_def at) (simp_all add: s')
    have len: "lt_reclaimed s' = lt_reclaimed s" "lt_waits s' = lt_waits s"
      "length (lt_allocs s') = length (lt_allocs s)" "lt_maps s' = lt_maps s" by (simp_all add: s')
    show ?thesis
    proof (rule lifetime_invI)
      fix q b
      show "lt_maps s' q = Some b \<longleftrightarrow> held s' b \<and> a_ptr (alloc_at s' b) = q"
        using i(1) [of q b] by (simp add: len hd at)
    next
      show "distinct (lt_reclaimed s')" using i(2) by (simp add: len)
    next
      fix b assume "b \<in> set (lt_reclaimed s')"
      then show "b < length (lt_allocs s') \<and> a_phase (alloc_at s' b) = Ended" using i(3) [of b] by (auto simp: len at)
    next
      fix b d' assume "b < length (lt_allocs s')" "a_phase (alloc_at s' b) = Leaving d'"
      then show "d' = a_deferred (alloc_at s' b)" using i(4) [of b d'] run by (simp add: len at split: if_splits)
    next
      fix b assume "b < length (lt_allocs s')" "a_phase (alloc_at s' b) = Ended" "a_deferred (alloc_at s' b)"
      then show "b \<in> set (lt_reclaimed s')" using i(5) [of b] run by (simp add: len at split: if_splits)
    next
      fix m' p' b assume "(m', p', b) \<in> set (lt_waits s')"
      then show "b < length (lt_allocs s') \<and> a_ptr (alloc_at s' b) = p'" using i(6) [of m' p' b] by (auto simp: len at)
    qed
  qed
qed

lemma free_finish_inv:
  assumes inv: "lifetime_inv s" and a: "a_phase (alloc_at s a) = Ended" and f: "free_finish m ptr a s = Some (b, s')"
  shows "lifetime_inv s' \<and> a \<in> set (lt_reclaimed s')"
proof -
  note i = lifetime_parts [OF inv]
  have mp: "lt_maps s ptr = Some a"
    and s': "s' = s\<lparr>lt_maps := (lt_maps s)(ptr := None), lt_waits := remove1 (m, ptr, a) (lt_waits s), lt_reclaimed := lt_reclaimed s @ [a]\<rparr>"
    using f by (auto simp: free_finish_def split: if_splits)
  have h: "held s a" "a_ptr (alloc_at s a) = ptr" using i(1) mp by auto
  then have nr: "a \<notin> set (lt_reclaimed s)" "a < length (lt_allocs s)" by (simp_all add: held_def)
  have hd: "held s' b \<longleftrightarrow> held s b \<and> b \<noteq> a" for b by (auto simp: held_def s')
  have at: "alloc_at s' = alloc_at s" "length (lt_allocs s') = length (lt_allocs s)" by (simp_all add: s')
  have ms: "lt_maps s' q = (if q = ptr then None else lt_maps s q)" for q by (simp add: s')
  have rc: "set (lt_reclaimed s') = insert a (set (lt_reclaimed s))" "distinct (lt_reclaimed s')" using nr i(2) by (auto simp: s')
  have w: "set (lt_waits s') \<subseteq> set (lt_waits s)" by (simp add: s' set_remove1_subset)
  have "lifetime_inv s'"
  proof (rule lifetime_invI)
    fix q b
    show "lt_maps s' q = Some b \<longleftrightarrow> held s' b \<and> a_ptr (alloc_at s' b) = q"
    proof (cases "q = ptr")
      case True
      then show ?thesis using i(1) [of ptr b] mp by (auto simp: ms hd at)
    next
      case False
      then show ?thesis using i(1) [of q b] h(2) by (auto simp: ms hd at)
    qed
  next
    show "distinct (lt_reclaimed s')" by (rule rc(2))
  next
    fix b assume "b \<in> set (lt_reclaimed s')"
    then show "b < length (lt_allocs s') \<and> a_phase (alloc_at s' b) = Ended" using i(3) [of b] nr(2) assms(2) by (auto simp: rc at)
  next
    fix b d' assume "b < length (lt_allocs s')" "a_phase (alloc_at s' b) = Leaving d'"
    then show "d' = a_deferred (alloc_at s' b)" using i(4) [of b d'] by (simp add: at)
  next
    fix b assume "b < length (lt_allocs s')" "a_phase (alloc_at s' b) = Ended" "a_deferred (alloc_at s' b)"
    then show "b \<in> set (lt_reclaimed s')" using i(5) [of b] by (simp add: rc at)
  next
    fix m' p' b assume "(m', p', b) \<in> set (lt_waits s')"
    then show "b < length (lt_allocs s') \<and> a_ptr (alloc_at s' b) = p'" using i(6) [of m' p' b] w by (auto simp: at)
  qed
  then show ?thesis using rc by simp
qed

lemma thread_step_inv:
  assumes "lifetime_inv s" "thread_step s s'"
  shows "lifetime_inv s'"
  using assms(2)
proof cases
  case (registers m mem arg r)
  then show ?thesis using register_inv [OF assms(1)] by blast
next
  case (leaves a)
  then show ?thesis using leave_inv [OF assms(1)] by blast
next
  case (finishes a d)
  then show ?thesis using finish_inv [OF assms(1)] by blast
next
  case (frees ptr m r)
  then show ?thesis using free_start_inv [OF assms(1)] by blast
next
  case (wakes m ptr a b)
  then show ?thesis using free_finish_inv [OF assms(1)] by blast
qed

lemma thread_reach_inv: "thread_reach s \<Longrightarrow> lifetime_inv s"
proof (induction rule: thread_reach.induct)
  case begin_run
  show ?case by (simp add: lifetime_inv_def new_lifetime_def held_def)
next
  case (next_run s s')
  then show ?case using thread_step_inv by blast
qed

section \<open>Properties\<close>

text \<open>
  C29. A worker's stack is reclaimed once, and only after its worker ended. In every reachable state: no
  allocation was reclaimed twice, every reclaimed one belongs to an ended worker, one that is not
  reclaimed is still registered (or its worker is just reclaiming it), a deferred reclaim happened
  by the time the worker ended, and an address has at most one live allocation. The completion of a
  worker never finds its registration stale, and a free of an ended worker's stack by another module
  reclaims it and releases the address.
\<close>

theorem stacks_reclaimed_once:
  assumes "thread_reach s"
  shows "distinct (lt_reclaimed s) \<and> (\<forall>a\<in>set (lt_reclaimed s). a_phase (alloc_at s a) = Ended) \<and>
    (\<forall>a<length (lt_allocs s). a \<notin> set (lt_reclaimed s) \<longrightarrow>
       lt_maps s (a_ptr (alloc_at s a)) = Some a \<or> a_phase (alloc_at s a) = Leaving True) \<and>
    (\<forall>a<length (lt_allocs s). a_deferred (alloc_at s a) \<and> a_phase (alloc_at s a) = Ended \<longrightarrow> a \<in> set (lt_reclaimed s)) \<and>
    (\<forall>a b. held s a \<and> held s b \<and> a_ptr (alloc_at s a) = a_ptr (alloc_at s b) \<longrightarrow> a = b) \<and>
    (\<forall>a<length (lt_allocs s). a_phase (alloc_at s a) = Running \<longrightarrow> leave_thread a s \<noteq> None) \<and>
    (\<forall>m p a. lt_maps s p = Some a \<and> a_owner (alloc_at s a) \<noteq> m \<and> a_phase (alloc_at s a) = Ended \<longrightarrow>
       (\<exists>s1 s2. free_start m p s = Some (None, s1) \<and> free_finish m p a s1 = Some (True, s2) \<and>
          lt_reclaimed s2 = lt_reclaimed s @ [a] \<and> lt_maps s2 p = None))"
proof -
  note i = lifetime_parts [OF thread_reach_inv [OF assms]]
  have 1: "lt_maps s (a_ptr (alloc_at s a)) = Some a \<or> a_phase (alloc_at s a) = Leaving True"
    if "a < length (lt_allocs s)" "a \<notin> set (lt_reclaimed s)" for a
    using i(1) [of _ a] that by (auto simp: held_def)
  have 2: "a = b" if "held s a" "held s b" "a_ptr (alloc_at s a) = a_ptr (alloc_at s b)" for a b
    using i(1) that by (metis option.inject)
  have 3: "leave_thread a s \<noteq> None" if "a < length (lt_allocs s)" "a_phase (alloc_at s a) = Running" for a
    using 1 [of a] i(3) [of a] that by (auto simp: leave_thread_def Let_def)
  show ?thesis using i(2,3,5) 1 2 3 by (auto simp: free_start_def free_finish_def Let_def)
qed

section \<open>Witness\<close>

text \<open>A worker of module 1 whose stack is at 64, joined by module 2 while it still runs.\<close>

definition ex_memory :: bytes where
  "ex_memory = replicate 16 0 @ [32, 0, 0, 0] @ replicate 52 0 @ [64, 0, 0, 0, 16, 0, 0, 0] @ replicate 20 0"

definition ex_threads1 :: lifetime where "ex_threads1 = snd (the (register_thread 1 ex_memory 0 new_lifetime))"
definition ex_threads2 :: lifetime where "ex_threads2 = snd (the (free_start 2 64 ex_threads1))"
definition ex_threads3 :: lifetime where "ex_threads3 = finish_thread 0 (the (leave_thread 0 ex_threads2))"
definition ex_threads4 :: lifetime where "ex_threads4 = snd (the (free_finish 2 64 0 ex_threads3))"

lemma ex_threads1: "register_thread 1 ex_memory 0 new_lifetime = Some (Some 0, ex_threads1)"
  "lt_maps ex_threads1 64 = Some 0" "a_owner (alloc_at ex_threads1 0) = 1"
  by code_simp+

lemma ex_threads2: "free_start 2 64 ex_threads1 = Some (None, ex_threads2)" "length (lt_allocs ex_threads2) = 1"
  "a_phase (alloc_at ex_threads2 0) = Running"
  by code_simp+

lemma ex_threads3: "leave_thread 0 ex_threads2 = Some (the (leave_thread 0 ex_threads2))"
  "length (lt_allocs (the (leave_thread 0 ex_threads2))) = 1" "a_phase (alloc_at (the (leave_thread 0 ex_threads2)) 0) = Leaving False"
  "(2, 64, 0) \<in> set (lt_waits ex_threads3)" "a_phase (alloc_at ex_threads3 0) = Ended"
  by code_simp+

lemma ex_threads4: "free_finish 2 64 0 ex_threads3 = Some (True, ex_threads4)" "lt_reclaimed ex_threads4 = [0]"
  by code_simp+

lemma ex_threads_reach: "thread_reach ex_threads4"
proof -
  have "thread_reach ex_threads1" by (rule next_run [OF begin_run registers [OF ex_threads1(1)]])
  moreover have "thread_step ex_threads1 ex_threads2"
    by (rule frees [OF _ ex_threads2(1)]) (use ex_threads1 in simp)
  ultimately have "thread_reach ex_threads2" by (rule next_run)
  moreover have "thread_step ex_threads2 (the (leave_thread 0 ex_threads2))"
    by (rule leaves [OF _ ex_threads2(3) ex_threads3(1)]) (use ex_threads2 in simp)
  ultimately have "thread_reach (the (leave_thread 0 ex_threads2))" by (rule next_run)
  moreover have "thread_step (the (leave_thread 0 ex_threads2)) ex_threads3"
    unfolding ex_threads3_def by (rule finishes [OF _ ex_threads3(3)]) (use ex_threads3 in simp)
  ultimately have "thread_reach ex_threads3" by (rule next_run)
  then show ?thesis by (rule next_run) (rule wakes [OF ex_threads3(4,5) ex_threads4(1)])
qed

theorem stacks_reclaimed_once_witness:
  "lt_reclaimed ex_threads4 = [0] \<and> a_phase (alloc_at ex_threads4 0) = Ended"
  using stacks_reclaimed_once [OF ex_threads_reach] ex_threads4(2) by simp

end
