(* ===== verification/HostServer.thy ===== *)
theory HostServer
  imports PreparedRoot Disposal
begin

text \<open>
  The host of one guest (\<open>internal/host\<close>: \<open>server.go\<close>, \<open>disposal.go\<close>, \<open>heap_snapshot.go\<close>): admission of
  SQL sessions to guest slots, the activity of a session, shutdown, snapshots and the ownership of what
  they leave to clean up. A connection is a number; the map of clients is an association list, whose
  order is the order in which Go ranges over it. A critical section of the server's lock is one step.
  What the guest, the contexts and the file system answer is an argument of the call that asks.
\<close>

record host_session =
  hs_busy :: bool
  hs_status :: u16
  hs_slot :: nat

record host =
  ho_clients :: "(nat \<times> host_session) list"
  ho_slots :: "bool list"
  ho_closing :: bool
  ho_failure :: "goerr option"
  ho_capable :: bool
  ho_build :: string
  ho_capture :: capture
  ho_disposer :: "nat option"

definition new_host :: "nat \<Rightarrow> bool \<Rightarrow> string \<Rightarrow> capture \<Rightarrow> host" where
  "new_host sessions capable build c =
     \<lparr>ho_clients = [], ho_slots = replicate sessions False, ho_closing = False, ho_failure = None, ho_capable = capable,
      ho_build = build, ho_capture = c, ho_disposer = None\<rparr>"

datatype rejected = Rejected string string

section \<open>Admission\<close>

fun first_free :: "bool list \<Rightarrow> nat option" where
  "first_free [] = None"
| "first_free (occupied # bs) = (if occupied then map_option Suc (first_free bs) else Some 0)"

definition allocate_slot :: "bool list \<Rightarrow> (nat \<times> bool list) option" where
  "allocate_slot slots = map_option (\<lambda>i. (i, slots[i := True])) (first_free slots)"

text \<open>\<open>attach\<close>: the refusal, with the guest's error where one is joined to it.\<close>

definition attach :: "nat \<Rightarrow> host \<Rightarrow> (rejected \<times> goerr option) option \<times> host" where
  "attach conn h =
     (if ho_closing h then (Some (Rejected ''closed'' ''database is closing'', None), h)
      else case ho_failure h of
        Some cause \<Rightarrow> (Some (Rejected ''unusable'' ''database instance terminated'', Some cause), h)
      | None \<Rightarrow>
          (case allocate_slot (ho_slots h) of
             None \<Rightarrow> (Some (Rejected ''capacity'' ''mariamem session capacity exhausted'', None), h)
           | Some (slot, slots) \<Rightarrow>
               (None, h\<lparr>ho_clients := ho_clients h @ [(conn, \<lparr>hs_busy = True, hs_status = 0, hs_slot = slot\<rparr>)],
                        ho_slots := slots\<rparr>)))"

definition dial :: "goerr option \<Rightarrow> nat \<Rightarrow> host \<Rightarrow> (goerr + (rejected \<times> goerr option) option) \<times> host" where
  "dial ctx conn h = (case ctx of Some e \<Rightarrow> (Inl e, h) | None \<Rightarrow> (case attach conn h of (r, h') \<Rightarrow> (Inr r, h')))"

definition change_session :: "nat \<Rightarrow> (host_session \<Rightarrow> host_session) \<Rightarrow> host \<Rightarrow> host" where
  "change_session conn f h =
     h\<lparr>ho_clients := map (\<lambda>(k, x). (k, if k = conn then f x else x)) (ho_clients h)\<rparr>"

definition activity_begin :: "nat \<Rightarrow> host \<Rightarrow> bool \<times> host" where
  "activity_begin conn h =
     (if ho_closing h then (False, h) else (True, change_session conn (\<lambda>x. x\<lparr>hs_busy := True\<rparr>) h))"

definition activity_idle :: "nat \<Rightarrow> u16 \<Rightarrow> host \<Rightarrow> host" where
  "activity_idle conn st h = change_session conn (\<lambda>x. x\<lparr>hs_status := st, hs_busy := False\<rparr>) h"

definition activity_cleanup :: "nat \<Rightarrow> host \<Rightarrow> host" where
  "activity_cleanup conn h = change_session conn (\<lambda>x. x\<lparr>hs_busy := True\<rparr>) h"

text \<open>\<open>Guest.Abort\<close> keeps the first failure.\<close>

definition guest_abort :: "goerr \<Rightarrow> host \<Rightarrow> host" where
  "guest_abort e h = (if ho_failure h = None then h\<lparr>ho_failure := Some e\<rparr> else h)"

text \<open>The end of a worker: it aborts the guest on an error of the session, then gives its slot back.\<close>

definition worker_failed :: "goerr \<Rightarrow> host \<Rightarrow> host" where
  "worker_failed e h = guest_abort (Wrapped ''SQL session: '' e []) h"

definition worker_ends :: "nat \<Rightarrow> host \<Rightarrow> host" where
  "worker_ends conn h =
     (case map_of (ho_clients h) conn of
        None \<Rightarrow> h
      | Some x \<Rightarrow> h\<lparr>ho_clients := filter (\<lambda>(k, _). k \<noteq> conn) (ho_clients h), ho_slots := (ho_slots h)[hs_slot x := False]\<rparr>)"

definition host_active :: "host \<Rightarrow> nat" where "host_active h = length (ho_clients h)"
definition host_busy :: "host \<Rightarrow> bool" where "host_busy h = list_ex (\<lambda>(_, x). hs_busy x) (ho_clients h)"
definition host_capacity :: "host \<Rightarrow> nat" where "host_capacity h = length (ho_slots h)"
definition snapshot_capable :: "host \<Rightarrow> bool" where "snapshot_capable h \<longleftrightarrow> ho_capable h \<and> ho_build h \<noteq> []"

text \<open>Its lock is held by the caller: no session starts in between.\<close>

definition stop_accepting :: "host \<Rightarrow> host" where
  "stop_accepting h = h\<lparr>ho_closing := True\<rparr>"

fun snapshot_precondition :: "bool \<Rightarrow> (nat \<times> host_session) list \<Rightarrow> rejected option" where
  "snapshot_precondition rollback [] = None"
| "snapshot_precondition rollback ((k, x) # cs) =
     (if hs_busy x then Some (Rejected ''busy'' ''handshake, query or session cleanup is active'')
      else if hs_status x AND 1 \<noteq> 0 \<and> \<not> rollback
      then Some (Rejected ''transaction_active'' ''commit/rollback first, or request rollback'')
      else snapshot_precondition rollback cs)"

section \<open>Finishing\<close>

text \<open>
  What \<open>finish\<close> meets: whether the workers ended before the context (\<open>None\<close>) or with which error the
  context ended first; what \<open>Export\<close> or \<open>Shutdown\<close> answered; whether the guest and then the sessions
  were joined within their ten seconds; and what the guest did to the capture while it stopped.
\<close>

record finish_env =
  fe_context :: "goerr option"
  fe_answer :: "goerr option"
  fe_guest_joined :: bool
  fe_sessions_joined :: bool
  fe_freeze :: "capture \<Rightarrow> capture"

definition all_leave :: "host \<Rightarrow> host" where
  "all_leave h = foldl (\<lambda>g (k, _). worker_ends k g) h (ho_clients h)"

definition timed_out :: "string \<Rightarrow> goerr option \<Rightarrow> goerr" where
  "timed_out what e = (case e of None \<Rightarrow> Sentinel (what @ ''%!w(<nil>)'') | Some x \<Rightarrow> Wrapped what x [])"

definition finish :: "finish_env \<Rightarrow> host \<Rightarrow> goerr option \<times> host" where
  "finish v h =
     (let h1 = (if fe_context v = None then all_leave h else h);
          err = (case fe_context v of None \<Rightarrow> fe_answer v | Some e \<Rightarrow> Some e);
          h2 = (case err of None \<Rightarrow> h1 | Some e \<Rightarrow> guest_abort e h1);
          h3 = h2\<lparr>ho_capture := fe_freeze v (ho_capture h2)\<rparr> in
      if \<not> fe_guest_joined v then (Some (timed_out ''guest cleanup timed out: '' err), h3)
      else if fe_context v \<noteq> None \<and> \<not> fe_sessions_joined v then (Some (timed_out ''session cleanup timed out: '' err), h3)
      else (err, if fe_context v = None then h3 else all_leave h3))"

section \<open>Disposal\<close>

text \<open>
  The cleanup of the host's owner: join the guest, join the workers, remove the transfer directory.
  A second cleanup, of the owner that \<open>RemoveAfter\<close> makes, removes a destination. The facts it meets are
  a record; a context that is not canceled ends with its deadline when there is nothing to join.
\<close>

record host_world =
  hw_guest_done :: bool
  hw_workers_done :: bool
  hw_remove :: "nat \<Rightarrow> goerr option"
  hw_removed :: "nat list"

definition remove_all :: "nat \<Rightarrow> host_world \<Rightarrow> goerr option \<times> host_world" where
  "remove_all k w = (case hw_remove w k of None \<Rightarrow> (None, w\<lparr>hw_removed := hw_removed w @ [k]\<rparr>) | Some e \<Rightarrow> (Some e, w))"

text \<open>What \<open>finish\<close> saw end has ended for the cleanup as well.\<close>

definition observed :: "finish_env \<Rightarrow> host_world owners \<Rightarrow> host_world owners" where
  "observed v s =
     (fst s, (snd s)\<lparr>hw_guest_done := hw_guest_done (snd s) \<or> fe_guest_joined v,
        hw_workers_done := hw_workers_done (snd s) \<or> fe_context v = None \<or> fe_guest_joined v \<and> fe_sessions_joined v\<rparr>)"

definition host_cleanup :: "host_world cleanup" where
  "host_cleanup canceled k w =
     (let ctx = Some (if canceled then err_canceled else err_deadline) in
      if k \<noteq> 0 then remove_all k w
      else case the (wait_joined (hw_guest_done w) ctx) of
        Some e \<Rightarrow> (Some e, w)
      | None \<Rightarrow>
          (case the (wait_joined (hw_workers_done w) ctx) of
             Some e \<Rightarrow> (Some e, w)
           | None \<Rightarrow> remove_all 0 w))"

text \<open>An attempt without waiting; an owner whose cleanup is unfinished goes on, retained by the error.\<close>

definition probe_or_retain :: "'w cleanup \<Rightarrow> goerr option \<Rightarrow> nat \<Rightarrow> 'w owners \<Rightarrow> goerr option \<times> 'w owners" where
  "probe_or_retain run cause i s =
     (case probe run i s of
        (Some e, (os, w)) \<Rightarrow> (case retain cause e i os of (e', os') \<Rightarrow> (Some e', (os', w)))
      | (None, s2) \<Rightarrow> (cause, s2))"

definition dispose_after :: "goerr option \<Rightarrow> host \<Rightarrow> host_world owners \<Rightarrow> goerr option \<times> host \<times> host_world owners" where
  "dispose_after cause h s =
     (case (case ho_disposer h of
              Some i \<Rightarrow> (i, h, s)
            | None \<Rightarrow> (length (fst s), h\<lparr>ho_disposer := Some (length (fst s))\<rparr>,
                (fst s @ [\<lparr>o_done = False, o_dep = None, o_run = 0, o_continue = False\<rparr>], snd s))) of
        (i, h1, s1) \<Rightarrow> (case probe_or_retain host_cleanup cause i s1 of (r, s2) \<Rightarrow> (r, h1, s2)))"

definition disposal_complete :: "host \<Rightarrow> owner list \<Rightarrow> bool" where
  "disposal_complete h os = (case ho_disposer h of None \<Rightarrow> False | Some i \<Rightarrow> o_done (os ! i))"

definition close_host :: "finish_env \<Rightarrow> host \<Rightarrow> host_world owners \<Rightarrow> goerr option \<times> host \<times> host_world owners" where
  "close_host v h s = (case finish v (stop_accepting h) of (e, h1) \<Rightarrow> dispose_after e h1 (observed v s))"

section \<open>Snapshots\<close>

datatype snap_error = Refused rejected | Failure goerr

text \<open>\<open>Snapshot\<close>: whether the host closed, and the error. \<open>made\<close> is what making the destination answers.\<close>

definition snapshot_files ::
  "bool \<Rightarrow> bool \<Rightarrow> goerr option \<Rightarrow> goerr option \<Rightarrow> finish_env \<Rightarrow> host \<Rightarrow> host_world owners
     \<Rightarrow> (bool \<times> snap_error option) \<times> host \<times> host_world owners" where
  "snapshot_files rollback named made published v h s =
     (if \<not> snapshot_capable h
      then ((False, Some (Refused (Rejected ''unsupported'' ''guest does not support snapshots''))), h, s)
      else if ho_closing h then ((False, Some (Refused (Rejected ''closed'' ''database is closing''))), h, s)
      else case snapshot_precondition rollback (ho_clients h) of
        Some r \<Rightarrow> ((False, Some (Refused r)), h, s)
      | None \<Rightarrow>
          if \<not> named then ((False, Some (Refused (Rejected ''destination'' ''snapshot destination is required''))), h, s)
          else case made of
            Some e \<Rightarrow> ((False, Some (Refused (Rejected ''destination'' (err_text e)))), h, s)
          | None \<Rightarrow>
              (case finish v (stop_accepting h) of
                 (e, h1) \<Rightarrow>
                   (case dispose_after (if e = None then published else e) h1 (observed v s) of
                      (e1, h2, s1) \<Rightarrow>
                        (case (if e1 = None then (None, s1) else after_cause host_cleanup e1 1 s1) of
                           (e2, s2) \<Rightarrow> ((True, map_option Failure e2), h2, s2)))))"

text \<open>\<open>snapshot.OwnRoot\<close> and \<open>SnapshotHeap\<close>: the root handed over, whether the host was consumed, the error.\<close>

definition own_root :: "memory \<Rightarrow> root \<Rightarrow> string \<Rightarrow> goerr + root" where
  "own_root m r build = (case root_check m r build of Some e \<Rightarrow> Inl e | None \<Rightarrow> Inr r)"

definition snapshot_heap ::
  "memory \<Rightarrow> bool \<Rightarrow> goerr option \<Rightarrow> finish_env \<Rightarrow> host \<Rightarrow> host_world owners
     \<Rightarrow> (root option \<times> bool \<times> snap_error option) \<times> host \<times> host_world owners" where
  "snapshot_heap m rollback ctx v h s =
     (if \<not> snapshot_capable h
      then ((None, False, Some (Refused (Rejected ''unsupported'' ''guest does not support snapshots''))), h, s)
      else if ho_closing h then ((None, False, Some (Refused (Rejected ''closed'' ''database is closing''))), h, s)
      else case snapshot_precondition rollback (ho_clients h) of
        Some r \<Rightarrow> ((None, False, Some (Refused r)), h, s)
      | None \<Rightarrow>
          (case ctx of
             Some e \<Rightarrow> ((None, False, Some (Failure e)), h, s)
           | None \<Rightarrow>
               (case finish v (stop_accepting (h\<lparr>ho_capture := capture_request (ho_capture h)\<rparr>)) of
                  (Some e, h1) \<Rightarrow>
                    (case dispose_after (Some e) (h1\<lparr>ho_capture := capture_discard (ho_capture h1)\<rparr>) (observed v s) of
                       (e', h2, s') \<Rightarrow> ((None, True, map_option Failure e'), h2, s'))
                | (None, h1) \<Rightarrow>
                    (case take_root m (ho_build h1) (ho_capture h1) of
                       (taken, c) \<Rightarrow>
                         (case (case taken of Inl e \<Rightarrow> Inl e | Inr r \<Rightarrow> own_root m r (ho_build h1)) of
                            Inl e \<Rightarrow>
                              (case dispose_after (Some e) (h1\<lparr>ho_capture := c\<rparr>) (observed v s) of
                                 (e', h2, s') \<Rightarrow> ((None, True, map_option Failure e'), h2, s'))
                          | Inr r \<Rightarrow>
                              (case dispose_after None (h1\<lparr>ho_capture := c\<rparr>) (observed v s) of
                                 (e', h2, s') \<Rightarrow> ((Some r, True, map_option Failure e'), h2, s')))))))"

end
