(* ===== verification/HostProperties.thy ===== *)
theory HostProperties
  imports HostServer RootProperties
begin

text \<open>
  The properties of the host: sessions own distinct slots, a snapshot takes only an idle host, what is
  not disposed of is retained.
\<close>

section \<open>Slots\<close>

definition slots_of :: "(nat \<times> host_session) list \<Rightarrow> nat list" where
  "slots_of cs = map (\<lambda>c. hs_slot (snd c)) cs"

definition host_inv :: "host \<Rightarrow> bool" where
  "host_inv h \<longleftrightarrow> distinct (map fst (ho_clients h)) \<and> distinct (slots_of (ho_clients h)) \<and>
     (\<forall>i. i \<in> set (slots_of (ho_clients h)) \<longleftrightarrow> i < length (ho_slots h) \<and> ho_slots h ! i)"

lemma slots_of_iff: "i \<in> set (slots_of cs) \<longleftrightarrow> (\<exists>k x. (k, x) \<in> set cs \<and> hs_slot x = i)"
  by (force simp: slots_of_def)

lemma first_free_None: "first_free bs = None \<longleftrightarrow> (\<forall>b\<in>set bs. b)"
  by (induction bs) auto

lemma first_free_Some: "first_free bs = Some i \<Longrightarrow> i < length bs \<and> \<not> bs ! i \<and> (\<forall>j<i. bs ! j)"
proof (induction bs arbitrary: i)
  case (Cons b bs)
  show ?case
  proof (cases b)
    case True
    then obtain j where j: "first_free bs = Some j" "i = Suc j" using Cons.prems by auto
    then show ?thesis using Cons.IH [OF j(1)] True by (auto simp: less_Suc_eq_0_disj)
  next
    case False
    then show ?thesis using Cons.prems by auto
  qed
qed simp

lemma new_host_inv: "host_inv (new_host n capable build c)"
  by (simp add: host_inv_def new_host_def slots_of_def)

lemma attach_inv:
  assumes "host_inv h" "conn \<notin> fst ` set (ho_clients h)" "attach conn h = (r, h')"
  shows "host_inv h' \<and> length (ho_slots h') = length (ho_slots h) \<and> ho_disposer h' = ho_disposer h \<and> ho_closing h' = ho_closing h"
proof (cases "h' = h")
  case True
  then show ?thesis using assms(1) by simp
next
  case False
  then obtain i where i: "first_free (ho_slots h) = Some i"
    and h': "h' = h\<lparr>ho_clients := ho_clients h @ [(conn, \<lparr>hs_busy = True, hs_status = 0, hs_slot = i\<rparr>)], ho_slots := (ho_slots h)[i := True]\<rparr>"
    using assms(3) by (auto simp: attach_def allocate_slot_def split: if_splits option.splits)
  note f = first_free_Some [OF i]
  have "i \<notin> set (slots_of (ho_clients h))" using assms(1) f by (simp add: host_inv_def)
  then have "host_inv h'" using assms(1,2) f by (auto simp: host_inv_def h' slots_of_def nth_list_update)
  then show ?thesis by (simp add: h')
qed

lemma change_session_keeps:
  assumes "\<And>x. hs_slot (f x) = hs_slot x"
  shows "map fst (ho_clients (change_session k f h)) = map fst (ho_clients h)"
    "slots_of (ho_clients (change_session k f h)) = slots_of (ho_clients h)"
    "ho_slots (change_session k f h) = ho_slots h"
  using assms by (auto simp: change_session_def slots_of_def comp_def case_prod_unfold)

lemma change_session_inv:
  "(\<And>x. hs_slot (f x) = hs_slot x) \<Longrightarrow> host_inv h \<Longrightarrow> host_inv (change_session k f h)"
  unfolding host_inv_def by (simp add: change_session_keeps)

lemma worker_ends_inv:
  assumes "host_inv h"
  shows "host_inv (worker_ends k h) \<and> length (ho_slots (worker_ends k h)) = length (ho_slots h)"
proof (cases "map_of (ho_clients h) k")
  case None
  then show ?thesis using assms by (simp add: worker_ends_def)
next
  case (Some x)
  let ?cs = "ho_clients h" and ?cs' = "filter (\<lambda>(k', _). k' \<noteq> k) (ho_clients h)"
  have kx: "(k, x) \<in> set ?cs" using Some by (rule map_of_SomeD)
  have d: "distinct (map fst ?cs)" "distinct (slots_of ?cs)" using assms by (simp_all add: host_inv_def)
  have "distinct (map fst ?cs')" using d(1) by (rule distinct_map_filter)
  moreover have "distinct (slots_of ?cs')" using d(2) unfolding slots_of_def by (rule distinct_map_filter)
  moreover have sl: "i \<in> set (slots_of ?cs') \<longleftrightarrow> i \<in> set (slots_of ?cs) \<and> i \<noteq> hs_slot x" for i
  proof -
    have u: "k' = k" if "(k', y) \<in> set ?cs" "hs_slot y = hs_slot x" for k' y
    proof -
      have "inj_on (\<lambda>c. hs_slot (snd c)) (set ?cs)" using d(2) unfolding slots_of_def distinct_map by blast
      from inj_onD [OF this _ that(1) kx] that(2) have "(k', y) = (k, x)" by simp
      then show ?thesis by simp
    qed
    have w: "y = x" if "(k, y) \<in> set ?cs" for y by (rule eq_key_imp_eq_value [OF d(1) that kx])
    show ?thesis unfolding slots_of_iff using u w by auto metis
  qed
  moreover have "i \<in> set (slots_of ?cs') \<longleftrightarrow> i < length (ho_slots h) \<and> (ho_slots h)[hs_slot x := False] ! i" for i
  proof -
    have "i \<in> set (slots_of ?cs) \<longleftrightarrow> i < length (ho_slots h) \<and> ho_slots h ! i" using assms unfolding host_inv_def by blast
    then show ?thesis unfolding sl by (cases "i = hs_slot x") auto
  qed
  ultimately show ?thesis using Some by (simp add: host_inv_def worker_ends_def)
qed

lemma leave_fold:
  "host_inv h \<Longrightarrow> host_inv (foldl (\<lambda>g (k, _). worker_ends k g) h cs) \<and>
     length (ho_slots (foldl (\<lambda>g (k, _). worker_ends k g) h cs)) = length (ho_slots h)"
proof (induction cs arbitrary: h)
  case (Cons c cs)
  then show ?case using worker_ends_inv [OF Cons.prems, of "fst c"] Cons.IH [of "worker_ends (fst c) h"] by (simp add: case_prod_unfold)
qed simp

text \<open>What leaving never touches, and that everyone leaves.\<close>

lemma worker_ends_rest [simp]:
  "ho_closing (worker_ends k h) = ho_closing h" "ho_failure (worker_ends k h) = ho_failure h"
  "ho_capture (worker_ends k h) = ho_capture h" "ho_disposer (worker_ends k h) = ho_disposer h"
  "ho_build (worker_ends k h) = ho_build h" "ho_capable (worker_ends k h) = ho_capable h"
  by (simp_all add: worker_ends_def split: option.split)

lemma leave_fold_rest [simp]:
  "ho_closing (foldl (\<lambda>g (k, _). worker_ends k g) h cs) = ho_closing h"
  "ho_capture (foldl (\<lambda>g (k, _). worker_ends k g) h cs) = ho_capture h"
  "ho_disposer (foldl (\<lambda>g (k, _). worker_ends k g) h cs) = ho_disposer h"
  "ho_build (foldl (\<lambda>g (k, _). worker_ends k g) h cs) = ho_build h"
  by (induction cs arbitrary: h) auto

lemma all_leave_inv:
  "host_inv h \<Longrightarrow> host_inv (all_leave h) \<and> length (ho_slots (all_leave h)) = length (ho_slots h)"
  unfolding all_leave_def by (rule leave_fold)

lemma all_leave_rest [simp]:
  "ho_closing (all_leave h) = ho_closing h" "ho_capture (all_leave h) = ho_capture h"
  "ho_disposer (all_leave h) = ho_disposer h" "ho_build (all_leave h) = ho_build h"
  by (simp_all add: all_leave_def)

lemma guest_abort_rest [simp]:
  "ho_closing (guest_abort e h) = ho_closing h" "ho_capture (guest_abort e h) = ho_capture h"
  "ho_disposer (guest_abort e h) = ho_disposer h" "ho_build (guest_abort e h) = ho_build h"
  "ho_slots (guest_abort e h) = ho_slots h" "ho_clients (guest_abort e h) = ho_clients h"
  by (simp_all add: guest_abort_def)

lemma host_inv_frame [simp]: "host_inv (guest_abort e h) = host_inv h" "host_inv (h\<lparr>ho_capture := c\<rparr>) = host_inv h"
  "host_inv (h\<lparr>ho_closing := b\<rparr>) = host_inv h" "host_inv (h\<lparr>ho_disposer := d\<rparr>) = host_inv h"
  by (simp_all add: host_inv_def)

lemma host_finish_spec:
  assumes "host_inv h" "finish v h = (r, h')"
  shows "host_inv h' \<and> length (ho_slots h') = length (ho_slots h) \<and> ho_closing h' = ho_closing h \<and> ho_disposer h' = ho_disposer h \<and>
    ho_build h' = ho_build h \<and> ho_capture h' = fe_freeze v (ho_capture h)"
proof -
  let ?h1 = "if fe_context v = None then all_leave h else h"
  define err where "err = (case fe_context v of None \<Rightarrow> fe_answer v | Some e \<Rightarrow> Some e)"
  let ?h2 = "case err of None \<Rightarrow> ?h1 | Some e \<Rightarrow> guest_abort e ?h1"
  let ?h3 = "?h2\<lparr>ho_capture := fe_freeze v (ho_capture ?h2)\<rparr>"
  have 1: "host_inv ?h1" "length (ho_slots ?h1) = length (ho_slots h)" using assms(1) all_leave_inv by auto
  then have "host_inv ?h2" "length (ho_slots ?h2) = length (ho_slots h)"
    by (cases err; simp)+
  then have 3: "host_inv ?h3" "length (ho_slots ?h3) = length (ho_slots h)" by simp_all
  have rest: "ho_closing ?h3 = ho_closing h" "ho_disposer ?h3 = ho_disposer h" "ho_build ?h3 = ho_build h"
    "ho_capture ?h3 = fe_freeze v (ho_capture h)" by (simp_all split: option.split)
  have "h' = ?h3 \<or> h' = all_leave ?h3"
    using assms(2) unfolding finish_def err_def Let_def by (cases "fe_context v") (auto split: if_splits)
  then show ?thesis using 3 rest all_leave_inv [OF 3(1)] by auto
qed

definition same_owner :: "owner \<Rightarrow> owner \<Rightarrow> bool" where
  "same_owner x y \<longleftrightarrow> o_run y = o_run x \<and> o_dep y = o_dep x"

lemma advances_same: "advances os os' \<Longrightarrow> i < length os \<Longrightarrow> same_owner (os ! i) (os' ! i)"
proof -
  assume "advances os os'" "i < length os"
  then have "(os' ! i)\<lparr>o_done := False\<rparr> = (os ! i)\<lparr>o_done := False\<rparr>" by (simp add: advances_def)
  from arg_cong [OF this, of o_dep] arg_cong [OF this, of o_run] show ?thesis by (simp add: same_owner_def)
qed

lemma probe_ok:
  assumes "Disposal.store_inv (fst s)" "i < length (fst s)" "probe run i s = (r, s')"
  shows "Disposal.store_inv (fst s') \<and> length (fst s') = length (fst s) \<and> (\<forall>j<length (fst s). same_owner (fst s ! j) (fst s' ! j)) \<and>
    (r = None \<longleftrightarrow> o_done (fst s' ! i))"
proof -
  obtain q s1 where q: "retry_at run True i s = (q, s1)" by (metis surj_pair)
  have s1: "s1 = s' \<and> (q = None \<longleftrightarrow> r = None)" using assms(3) unfolding probe_def q by (cases q) auto
  have "attempt_ok i s (q, s1)" using retry_at_ok [OF assms(2,1), of run True] q by simp
  then show ?thesis using s1 advances_same [of "fst s" "fst s'"] by (auto simp: attempt_ok_def advances_def)
qed

section \<open>Cleanups that leave a record\<close>

text \<open>
  The contract of cleanups whose world records which of them succeeded: a success is recorded, and no
  cleanup takes a record back, changes the facts it waits for or breaks what holds of the world. Then a
  finished owner's cleanup is on record.
\<close>

locale recorded =
  fixes run :: "'w cleanup" and rec :: "'w \<Rightarrow> nat set" and facts :: "'w \<Rightarrow> 'f" and good :: "'w \<Rightarrow> bool"
  assumes run_records: "run c k w = (None, w') \<Longrightarrow> k \<in> rec w'"
    and run_keeps: "run c k w = (r, w') \<Longrightarrow> rec w \<subseteq> rec w' \<and> facts w' = facts w"
    and run_good: "run c k w = (r, w') \<Longrightarrow> good w \<Longrightarrow> good w'"
begin

definition keeps :: "'w \<Rightarrow> 'w \<Rightarrow> bool" where
  "keeps w w' \<longleftrightarrow> rec w \<subseteq> rec w' \<and> facts w' = facts w"

lemma keeps_refl [simp]: "keeps w w"
  by (simp add: keeps_def)

lemma keeps_trans: "keeps a b \<Longrightarrow> keeps b c \<Longrightarrow> keeps a c"
  by (auto simp: keeps_def)

definition on_record :: "'w owners \<Rightarrow> bool" where
  "on_record s \<longleftrightarrow> (\<forall>j<length (fst s). o_done (fst s ! j) \<longrightarrow> o_run (fst s ! j) \<in> rec (snd s)) \<and> good (snd s)"

lemma on_record_fold:
  assumes "\<And>j s r s'. on_record s \<Longrightarrow> f j s = (r, s') \<Longrightarrow> on_record s' \<and> keeps (snd s) (snd s')"
  shows "on_record s \<Longrightarrow> foldl (\<lambda>(acc, s1) j. case f j s1 of (r, s2) \<Rightarrow> (err_join [acc, r], s2)) (acc, s) js = (r, s') \<Longrightarrow>
    on_record s' \<and> keeps (snd s) (snd s')"
proof (induction js arbitrary: acc s)
  case (Cons j js)
  obtain r1 s1 where f: "f j s = (r1, s1)" by (metis surj_pair)
  have "on_record s1" "keeps (snd s) (snd s1)" using assms [OF Cons.prems(1) f] by blast+
  then show ?case using Cons.IH [of s1 "err_join [acc, r1]"] Cons.prems(2) f keeps_trans by auto
qed simp

lemma on_record_finish:
  "on_record (os, w) \<Longrightarrow> o_run (os ! i) \<in> rec w' \<Longrightarrow> keeps w w' \<Longrightarrow> good w' \<Longrightarrow>
    on_record (os[i := (os ! i)\<lparr>o_done := True\<rparr>], w')"
  unfolding on_record_def keeps_def by (cases "i < length os") (auto simp: nth_list_update list_update_beyond)

lemma on_record_world: "on_record (os, w) \<Longrightarrow> rec w \<subseteq> rec w' \<Longrightarrow> good w' \<Longrightarrow> on_record (os, w')"
  unfolding on_record_def by auto

lemma retry_owner_records:
  "on_record s \<Longrightarrow> retry_owner f run c i s = (r, s') \<Longrightarrow> on_record s' \<and> keeps (snd s) (snd s')"
proof (induction f arbitrary: i s r s')
  case (Suc f)
  show ?case
  proof (cases "o_done (fst s ! i)")
    case True
    then show ?thesis using Suc.prems by simp
  next
    case False
    obtain q os w where fold: "foldl (\<lambda>(acc, s1) j. case retry_owner f run c j s1 of (r, s2) \<Rightarrow> (err_join [acc, r], s2))
        (None, s) (owners_of (o_dep (fst s ! i))) = (q, (os, w))" by (metis surj_pair)
    have k: "on_record (os, w)" "keeps (snd s) w"
      using on_record_fold [OF Suc.IH Suc.prems(1) fold] by simp_all
    show ?thesis
    proof (cases q)
      case (Some e)
      then have "s' = (os, w)" using Suc.prems(2) False fold by simp
      then show ?thesis using k by simp
    next
      case None
      obtain x w' where x: "run c (o_run (os ! i)) w = (x, w')" by (metis surj_pair)
      have w': "keeps w w'" "good w'" using run_keeps [OF x] run_good [OF x] k(1) by (simp_all add: on_record_def keeps_def)
      then have "keeps (snd s) w'" using k(2) keeps_trans by blast
      then show ?thesis
        using Suc.prems False fold None x w' on_record_finish [OF k(1), of i w'] on_record_world [OF k(1), of w'] run_records
        by (cases x) (auto simp: keeps_def)
    qed
  qed
qed simp

lemma retry_at_records: "on_record s \<Longrightarrow> retry_at run c i s = (r, s') \<Longrightarrow> on_record s' \<and> keeps (snd s) (snd s')"
  unfolding retry_at_def by (rule retry_owner_records)

lemma probe_records: "on_record s \<Longrightarrow> probe run i s = (r, s') \<Longrightarrow> on_record s' \<and> keeps (snd s) (snd s')"
proof -
  assume s: "on_record s" and p: "probe run i s = (r, s')"
  obtain q s1 where q: "retry_at run True i s = (q, s1)" by (metis surj_pair)
  then have "s' = s1" using p by (cases q) (simp_all add: probe_def)
  then show ?thesis using retry_at_records [OF s q] by blast
qed

lemma on_record_new: "on_record s \<Longrightarrow> \<not> o_done x \<Longrightarrow> on_record (fst s @ [x], snd s)"
  unfolding on_record_def by (auto simp: nth_append less_Suc_eq)

lemma on_record_continue: "on_record (os, w) \<Longrightarrow> on_record (os[i := (os ! i)\<lparr>o_continue := True\<rparr>], w)"
  unfolding on_record_def by (cases "i < length os") (auto simp: nth_list_update list_update_beyond)

text \<open>One attempt of an owner that its error retains when it is not finished.\<close>

lemma probe_or_retain_ok:
  assumes s: "Disposal.store_inv (fst s)" "on_record s" "i < length (fst s)" and p: "probe_or_retain run cause i s = (r, s')"
  shows "Disposal.store_inv (fst s') \<and> on_record s' \<and> keeps (snd s) (snd s') \<and> length (fst s') = length (fst s) \<and>
    (\<forall>j<length (fst s). same_owner (fst s ! j) (fst s' ! j)) \<and>
    (o_done (fst s' ! i) \<and> r = cause \<or>
     \<not> o_done (fst s' ! i) \<and> o_continue (fst s' ! i) \<and> (\<exists>e. r = Some (Pending cause e i)))"
proof -
  obtain q os w where q: "probe run i s = (q, (os, w))" by (metis surj_pair)
  note k = probe_ok [OF s(1,3) q] probe_records [OF s(2) q]
  show ?thesis
  proof (cases q)
    case None
    then have "s' = (os, w)" "r = cause" using p q by (simp_all add: probe_or_retain_def)
    then show ?thesis using k None by simp
  next
    case (Some e)
    then have "s' = (os[i := (os ! i)\<lparr>o_continue := True\<rparr>], w)" "r = Some (Pending cause e i)"
      using p q by (simp_all add: probe_or_retain_def retain_def)
    moreover have "same_owner x (os[i := (os ! i)\<lparr>o_continue := True\<rparr>] ! j) = same_owner x (os ! j)" for x j
      by (cases "i < length os") (simp_all add: nth_list_update list_update_beyond same_owner_def)
    ultimately show ?thesis
      using k Some s(3) store_inv_continue [of os i] on_record_continue [of os w i] by simp
  qed
qed

lemma after_ok:
  assumes s: "Disposal.store_inv (fst s)" "on_record s" "\<forall>j\<in>set (owners_of cause). j < length (fst s)"
    and a: "after_cause run cause k s = (r, s')"
  shows "Disposal.store_inv (fst s') \<and> on_record s' \<and> keeps (snd s) (snd s') \<and> length (fst s') = Suc (length (fst s)) \<and>
    (\<forall>j<length (fst s). same_owner (fst s ! j) (fst s' ! j))"
proof -
  let ?o = "\<lparr>o_done = False, o_dep = cause, o_run = k, o_continue = False\<rparr>"
  have "probe_or_retain run cause (length (fst s)) (fst s @ [?o], snd s) = (r, s')"
    using a unfolding after_cause_def after_def probe_or_retain_def Let_def if_True .
  then show ?thesis
    using probe_or_retain_ok [of "(fst s @ [?o], snd s)" "length (fst s)" cause r s'] store_inv_append [OF s(1,3)]
      on_record_new [OF s(2), of ?o] by (simp add: nth_append less_Suc_eq)
qed

end

lemma remove_all_records: "remove_all k w = (r, w') \<Longrightarrow> set (hw_removed w) \<subseteq> set (hw_removed w') \<and>
    (r = None \<longrightarrow> k \<in> set (hw_removed w')) \<and> hw_guest_done w' = hw_guest_done w \<and> hw_workers_done w' = hw_workers_done w \<and>
    set (hw_removed w') \<subseteq> insert k (set (hw_removed w))"
  by (auto simp: remove_all_def split: option.splits)

text \<open>The transfer directory goes only when guest and workers are joined.\<close>

definition joined_first :: "host_world \<Rightarrow> bool" where
  "joined_first w \<longleftrightarrow> (0 \<in> set (hw_removed w) \<longrightarrow> hw_guest_done w \<and> hw_workers_done w)"

text \<open>The flags of the world are facts no cleanup changes.\<close>

definition joined_flags :: "host_world \<Rightarrow> bool \<times> bool" where
  "joined_flags w = (hw_guest_done w, hw_workers_done w)"

interpretation host_records: recorded host_cleanup "\<lambda>w. set (hw_removed w)" joined_flags joined_first
proof
  fix c k and w w' :: host_world and r
  show "host_cleanup c k w = (None, w') \<Longrightarrow> k \<in> set (hw_removed w')"
    using remove_all_records [of k w None w'] by (auto simp: host_cleanup_def wait_joined_def Let_def split: if_splits)
  show "host_cleanup c k w = (r, w') \<Longrightarrow> set (hw_removed w) \<subseteq> set (hw_removed w') \<and> joined_flags w' = joined_flags w"
    using remove_all_records [of k w r w']
    by (auto simp: host_cleanup_def wait_joined_def joined_flags_def Let_def split: if_splits)
  show "host_cleanup c k w = (r, w') \<Longrightarrow> joined_first w \<Longrightarrow> joined_first w'"
    using remove_all_records [of k w r w']
    by (auto simp: host_cleanup_def wait_joined_def joined_first_def Let_def split: if_splits)
qed

section \<open>The host and its owners\<close>

text \<open>
  What has been joined is gone: no client is left once the workers have ended, and none comes back.
\<close>

definition host_ok :: "host \<times> host_world owners \<Rightarrow> bool" where
  "host_ok hs \<longleftrightarrow> host_inv (fst hs) \<and> Disposal.store_inv (fst (snd hs)) \<and> host_records.on_record (snd hs) \<and>
     (\<forall>i. ho_disposer (fst hs) = Some i \<longrightarrow> i < length (fst (snd hs)) \<and> o_run (fst (snd hs) ! i) = 0 \<and> o_dep (fst (snd hs) ! i) = None) \<and>
     (hw_workers_done (snd (snd hs)) \<longrightarrow> ho_closing (fst hs) \<and> ho_clients (fst hs) = [])"

lemma joined_flags_iff: "joined_flags w' = joined_flags w \<longleftrightarrow>
    hw_guest_done w' = hw_guest_done w \<and> hw_workers_done w' = hw_workers_done w"
  by (simp add: joined_flags_def)

lemma dispose_after_spec:
  assumes ok: "host_ok (h, s)" and d: "dispose_after cause h s = (r, h', s')"
  shows "\<exists>i. h' = h\<lparr>ho_disposer := Some i\<rparr> \<and> host_ok (h', s') \<and> length (fst s) \<le> length (fst s') \<and>
    joined_flags (snd s') = joined_flags (snd s) \<and>
    (o_done (fst s' ! i) \<and> r = cause \<or>
     \<not> o_done (fst s' ! i) \<and> o_continue (fst s' ! i) \<and> (\<exists>e. r = Some (Pending cause e i)))"
proof -
  obtain i s1 where s1: "Disposal.store_inv (fst s1)" "host_records.on_record s1" "i < length (fst s1)" "o_run (fst s1 ! i) = 0 \<and> o_dep (fst s1 ! i) = None"
      "length (fst s) \<le> length (fst s1)" "snd s1 = snd s"
    and d1: "dispose_after cause h s = (case probe_or_retain host_cleanup cause i s1 of (r, s2) \<Rightarrow> (r, h\<lparr>ho_disposer := Some i\<rparr>, s2))"
  proof (cases "ho_disposer h")
    case None
    let ?o = "\<lparr>o_done = False, o_dep = None, o_run = 0, o_continue = False\<rparr>"
    have inv: "Disposal.store_inv (fst s @ [?o])" using store_inv_append [of "fst s" None 0 False] ok by (simp add: host_ok_def)
    have "host_records.on_record (fst s @ [?o], snd s)"
      by (rule host_records.on_record_new) (use ok in \<open>simp_all add: host_ok_def\<close>)
    then show ?thesis
      by (rule that [of "(fst s @ [?o], snd s)" "length (fst s)", rotated 1]) (simp_all add: inv dispose_after_def None)
  next
    case (Some i)
    then have e: "h\<lparr>ho_disposer := Some i\<rparr> = h" by simp
    have "dispose_after cause h s = (case probe_or_retain host_cleanup cause i s of (r, s2) \<Rightarrow> (r, h\<lparr>ho_disposer := Some i\<rparr>, s2))"
      unfolding e by (simp add: dispose_after_def Some)
    then show ?thesis using ok Some by (intro that [of s i]) (simp_all add: host_ok_def)
  qed
  obtain q s2 where p: "probe_or_retain host_cleanup cause i s1 = (q, s2)" by (metis surj_pair)
  have h': "h' = h\<lparr>ho_disposer := Some i\<rparr>" "s' = s2" "r = q" using d d1 p by simp_all
  note k = host_records.probe_or_retain_ok [OF s1(1-3) p]
  then have "joined_flags (snd s2) = joined_flags (snd s)" using s1(6) by (simp add: host_records.keeps_def)
  then show ?thesis
    using k ok s1 h' by (intro exI [of _ i]) (auto simp: host_ok_def joined_flags_iff same_owner_def)
qed

section \<open>Finishing empties the host\<close>

lemma worker_ends_clients: "ho_clients (worker_ends k h) = filter (\<lambda>(k', _). k' \<noteq> k) (ho_clients h)"
proof (cases "map_of (ho_clients h) k")
  case None
  then have "\<forall>x\<in>set (ho_clients h). case x of (k', _) \<Rightarrow> k' \<noteq> k" by (auto simp: map_of_eq_None_iff image_iff)
  then show ?thesis using None by (simp add: worker_ends_def filter_id_conv)
qed (simp add: worker_ends_def)

lemma leave_fold_clients:
  "ho_clients (foldl (\<lambda>g (k, _). worker_ends k g) h cs) = filter (\<lambda>(k', _). k' \<notin> fst ` set cs) (ho_clients h)"
  by (induction cs arbitrary: h) (simp_all add: worker_ends_clients case_prod_unfold)

lemma all_leave_clients [simp]: "ho_clients (all_leave h) = []"
  by (force simp: all_leave_def leave_fold_clients filter_empty_conv)

lemma finish_clients:
  assumes "finish v h = (r, h')"
  shows "(ho_clients h = [] \<or> fe_context v = None \<or> fe_guest_joined v \<and> fe_sessions_joined v) \<longrightarrow> ho_clients h' = []"
    "set (owners_of r) \<subseteq> set (owners_of (fe_context v)) \<union> set (owners_of (fe_answer v))"
  using assms unfolding finish_def Let_def
  by (cases "fe_context v"; cases "fe_answer v"; auto simp: set_owners_of timed_out_def split: if_splits)+

lemma finish_ok:
  assumes ok: "host_ok (h, s)" and f: "finish v (stop_accepting h) = (r, h')"
  shows "host_ok (h', observed v s) \<and> ho_closing h' \<and> ho_capture h' = fe_freeze v (ho_capture h) \<and> ho_build h' = ho_build h \<and>
    length (ho_slots h') = length (ho_slots h)"
proof -
  have inv: "host_inv (stop_accepting h)" using ok by (simp add: host_ok_def stop_accepting_def)
  note fs = host_finish_spec [OF inv f] and c = finish_clients(1) [OF f]
  have "host_records.on_record (observed v s)"
    using ok by (auto simp: host_ok_def host_records.on_record_def observed_def joined_first_def)
  then show ?thesis using fs c ok by (auto simp: host_ok_def stop_accepting_def observed_def)
qed

lemma host_ok_capture [simp]: "host_ok (h\<lparr>ho_capture := c\<rparr>, s) = host_ok (h, s)"
  by (simp add: host_ok_def)

section \<open>The machine of the host\<close>

datatype host_op =
    Attach nat
  | BeginQuery nat
  | GoIdle nat u16
  | CleanupSession nat
  | WorkerReturns nat "goerr option"
  | GuestFails goerr
  | GuestStops
  | WorkersJoined
  | RemoveAnswers "nat \<Rightarrow> goerr option"
  | CloseHost finish_env
  | SnapFiles bool bool "goerr option" "goerr option" finish_env
  | SnapHeap memory bool "goerr option" finish_env
  | ContinueDisposal nat

text \<open>The owners in errors from outside exist; a connection attaches once.\<close>

definition owners_exist :: "goerr option list \<Rightarrow> nat \<Rightarrow> bool" where
  "owners_exist es n = list_all (\<lambda>e. list_all (\<lambda>j. j < n) (owners_of e)) es"

fun host_step :: "host \<times> host_world owners \<Rightarrow> host_op \<Rightarrow> host \<times> host_world owners" where
  "host_step (h, s) (Attach k) = (if k \<in> set (map fst (ho_clients h)) then (h, s) else (snd (attach k h), s))"
| "host_step (h, s) (BeginQuery k) = (snd (activity_begin k h), s)"
| "host_step (h, s) (GoIdle k st) = (activity_idle k st h, s)"
| "host_step (h, s) (CleanupSession k) = (activity_cleanup k h, s)"
| "host_step (h, s) (WorkerReturns k e) = (worker_ends k (case e of None \<Rightarrow> h | Some x \<Rightarrow> worker_failed x h), s)"
| "host_step (h, s) (GuestFails e) = (guest_abort e h, s)"
| "host_step (h, s) GuestStops = (guest_abort (Sentinel ''guest exited'') h, (fst s, (snd s)\<lparr>hw_guest_done := True\<rparr>))"
| "host_step (h, s) WorkersJoined =
     (if ho_closing h \<and> ho_clients h = [] then (h, (fst s, (snd s)\<lparr>hw_workers_done := True\<rparr>)) else (h, s))"
| "host_step (h, s) (RemoveAnswers f) = (h, (fst s, (snd s)\<lparr>hw_remove := f\<rparr>))"
| "host_step (h, s) (CloseHost v) = snd (close_host v h s)"
| "host_step (h, s) (SnapFiles rollback named made published v) =
     (if owners_exist [published, fe_context v, fe_answer v] (length (fst s))
      then snd (snapshot_files rollback named made published v h s) else (h, s))"
| "host_step (h, s) (SnapHeap m rollback ctx v) = snd (snapshot_heap m rollback ctx v h s)"
| "host_step (h, s) (ContinueDisposal i) =
     (if i < length (fst s) then (h, continue_owner host_cleanup i s) else (h, s))"

definition host_init :: "nat \<Rightarrow> bool \<Rightarrow> string \<Rightarrow> capture \<Rightarrow> (nat \<Rightarrow> goerr option) \<Rightarrow> host \<times> host_world owners" where
  "host_init n capable build c f =
     (new_host n capable build c, ([], \<lparr>hw_guest_done = False, hw_workers_done = False, hw_remove = f, hw_removed = []\<rparr>))"

lemma host_init_ok: "host_ok (host_init n capable build c f)"
  using new_host_inv [of n capable build c]
  by (simp add: host_init_def host_ok_def host_records.on_record_def joined_first_def new_host_def store_inv_def)

lemma host_ok_host:
  assumes "host_ok (h, s)" "host_inv h'" "ho_disposer h' = ho_disposer h" "ho_closing h' = ho_closing h"
    "ho_clients h = [] \<Longrightarrow> ho_closing h \<Longrightarrow> ho_clients h' = []"
  shows "host_ok (h', s)"
  using assms unfolding host_ok_def by auto

lemma host_ok_world:
  assumes "host_ok (h, (os, w))" "hw_removed w' = hw_removed w" "hw_guest_done w \<longrightarrow> hw_guest_done w'"
    "hw_workers_done w \<longrightarrow> hw_workers_done w'" "hw_workers_done w' \<Longrightarrow> ho_closing h \<and> ho_clients h = []"
  shows "host_ok (h, (os, w'))"
  using assms unfolding host_ok_def host_records.on_record_def joined_first_def by auto

lemma close_host_ok:
  assumes "host_ok (h, s)" "close_host v h s = (r, h', s')"
  shows "host_ok (h', s') \<and> ho_closing h' \<and> length (ho_slots h') = length (ho_slots h)"
proof -
  obtain e h1 where f: "finish v (stop_accepting h) = (e, h1)" by (metis surj_pair)
  then have d: "dispose_after e h1 (observed v s) = (r, h', s')" using assms(2) by (simp add: close_host_def)
  show ?thesis using finish_ok [OF assms(1) f] dispose_after_spec [OF _ d] by auto
qed

lemma snapshot_files_ok:
  assumes ok: "host_ok (h, s)" and f: "owners_exist [published, fe_context v, fe_answer v] (length (fst s))"
    and x: "snapshot_files rollback named made published v h s = (r, h', s')"
  shows "host_ok (h', s') \<and> length (ho_slots h') = length (ho_slots h)"
proof (cases "(h', s') = (h, s)")
  case True
  then show ?thesis using ok by simp
next
  case False
  obtain e h1 where fin: "finish v (stop_accepting h) = (e, h1)" by (metis surj_pair)
  let ?e = "if e = None then published else e"
  obtain e1 h2 s1 where d: "dispose_after ?e h1 (observed v s) = (e1, h2, s1)" by (metis surj_pair)
  have h': "h' = h2 \<and> s' = snd (if e1 = None then (None, s1) else after_cause host_cleanup e1 1 s1)"
    using x False unfolding snapshot_files_def fin prod.case d by (auto split: if_splits option.splits prod.splits)
  have fok: "host_ok (h1, observed v s)" "length (ho_slots h1) = length (ho_slots h)" using finish_ok [OF ok fin] by blast+
  then obtain i where i: "host_ok (h2, s1)" "h2 = h1\<lparr>ho_disposer := Some i\<rparr>" "length (fst s) \<le> length (fst s1)"
      "joined_flags (snd s1) = joined_flags (snd (observed v s))" "e1 = ?e \<or> (\<exists>e. e1 = Some (Pending ?e e i))"
    using dispose_after_spec [OF _ d] by (auto simp: observed_def)
  have "j < length (fst s)" if "j \<in> set (owners_of ?e)" for j
    using that f finish_clients(2) [OF fin] by (auto simp: owners_exist_def list_all_iff split: if_splits)
  moreover have "i < length (fst s1)" using i by (simp add: host_ok_def)
  ultimately have own: "\<forall>j\<in>set (owners_of e1). j < length (fst s1)"
    using i(3,5) by (fastforce simp: set_owners_of)
  show ?thesis
  proof (cases e1)
    case None
    then show ?thesis using i h' fok by simp
  next
    case (Some y)
    obtain q s2 where a: "after_cause host_cleanup e1 1 s1 = (q, s2)" by (metis surj_pair)
    have s1: "Disposal.store_inv (fst s1)" "host_records.on_record s1" using i(1) by (simp_all add: host_ok_def)
    note k = host_records.after_ok [OF s1 own a]
    have "s' = s2" "h' = h2" using h' a Some by simp_all
    then show ?thesis using k i(1,2) fok(2) by (auto simp: host_ok_def host_records.keeps_def joined_flags_iff same_owner_def)
  qed
qed

text \<open>The two ways a heap snapshot ends: refused with nothing changed, or the host is consumed.\<close>

lemma snapshot_heap_cases:
  assumes x: "snapshot_heap m rollback ctx v h s = ((owned, consumed, err), h', s')"
  obtains (refused) "\<not> consumed" "h' = h" "s' = s" "owned = None" "err \<noteq> None"
  | (consumed) e h1 c cause e' where "consumed" "snapshot_capable h" "\<not> ho_closing h" "ctx = None"
      "snapshot_precondition rollback (ho_clients h) = None"
      "finish v (stop_accepting (h\<lparr>ho_capture := capture_request (ho_capture h)\<rparr>)) = (e, h1)"
      "dispose_after cause (h1\<lparr>ho_capture := c\<rparr>) (observed v s) = (e', h', s')" "err = map_option Failure e'"
      "c = (if e = None then snd (take_root m (ho_build h1) (ho_capture h1)) else capture_discard (ho_capture h1))"
      "case owned of None \<Rightarrow> cause \<noteq> None | Some r \<Rightarrow> e = None \<and> cause = None \<and>
         fst (take_root m (ho_build h1) (ho_capture h1)) = Inr r \<and> root_check m r (ho_build h1) = None"
proof (cases consumed)
  case False
  then have "h' = h \<and> s' = s \<and> owned = None \<and> err \<noteq> None"
    using x unfolding snapshot_heap_def by (auto split: if_splits option.splits prod.splits sum.splits)
  then show thesis using refused False by blast
next
  case True
  obtain e h1 where f: "finish v (stop_accepting (h\<lparr>ho_capture := capture_request (ho_capture h)\<rparr>)) = (e, h1)" by (metis surj_pair)
  obtain taken c where t: "take_root m (ho_build h1) (ho_capture h1) = (taken, c)" by (metis surj_pair)
  have g: "snapshot_capable h" "\<not> ho_closing h" "ctx = None" "snapshot_precondition rollback (ho_clients h) = None"
    using x True unfolding snapshot_heap_def by (auto split: if_splits option.splits)
  show thesis
  proof (cases e)
    case (Some e0)
    obtain e1 h2 s2 where d: "dispose_after (Some e0) (h1\<lparr>ho_capture := capture_discard (ho_capture h1)\<rparr>) (observed v s) = (e1, h2, s2)"
      by (metis surj_pair)
    show thesis using x True g f t d Some by (intro consumed [of e h1 "Some e0" "capture_discard (ho_capture h1)" e1]) (auto simp: snapshot_heap_def)
  next
    case None
    show thesis
    proof (cases "case taken of Inl e \<Rightarrow> Inl e | Inr r \<Rightarrow> own_root m r (ho_build h1)")
      case (Inl e0)
      obtain e1 h2 s2 where d: "dispose_after (Some e0) (h1\<lparr>ho_capture := c\<rparr>) (observed v s) = (e1, h2, s2)" by (metis surj_pair)
      show thesis using x True g f t d None Inl by (intro consumed [of e h1 "Some e0" c e1]) (auto simp: snapshot_heap_def)
    next
      case (Inr r)
      obtain e1 h2 s2 where d: "dispose_after None (h1\<lparr>ho_capture := c\<rparr>) (observed v s) = (e1, h2, s2)" by (metis surj_pair)
      have "taken = Inr r \<and> root_check m r (ho_build h1) = None"
        using Inr by (auto simp: own_root_def split: sum.splits option.splits)
      then show thesis using x True g f t d None Inr by (intro consumed [of e h1 None c e1]) (auto simp: snapshot_heap_def)
    qed
  qed
qed

lemma snapshot_heap_ok:
  assumes ok: "host_ok (h, s)" and x: "snapshot_heap m rollback ctx v h s = (r, h', s')"
  shows "host_ok (h', s') \<and> length (ho_slots h') = length (ho_slots h)"
proof -
  obtain owned consumed err where r: "r = (owned, consumed, err)" by (metis surj_pair)
  show ?thesis using x unfolding r
  proof (cases rule: snapshot_heap_cases)
    case refused
    then show ?thesis using ok by simp
  next
    case (consumed e h1 c cause e')
    have "host_ok (h\<lparr>ho_capture := capture_request (ho_capture h)\<rparr>, s)" using ok by simp
    then have "host_ok (h1\<lparr>ho_capture := c\<rparr>, observed v s)" "length (ho_slots h1) = length (ho_slots h)"
      using finish_ok [OF _ consumed(6)] by simp_all
    then show ?thesis using dispose_after_spec [OF _ consumed(7)] by auto
  qed
qed

lemma continue_ok:
  assumes "host_ok (h, s)" "i < length (fst s)"
  shows "host_ok (h, continue_owner host_cleanup i s)"
proof -
  obtain q s1 where q: "retry_at host_cleanup False i s = (q, s1)" by (metis surj_pair)
  have s: "Disposal.store_inv (fst s)" "host_records.on_record s" using assms(1) by (simp_all add: host_ok_def)
  have "attempt_ok i s (q, s1)" using retry_at_ok [OF assms(2) s(1), of host_cleanup False] q by simp
  then have a: "Disposal.store_inv (fst s1)" "length (fst s1) = length (fst s)" "\<forall>j<length (fst s). same_owner (fst s ! j) (fst s1 ! j)"
    using advances_same [of "fst s" "fst s1"] by (auto simp: attempt_ok_def advances_def)
  have "host_records.on_record s1" "joined_flags (snd s1) = joined_flags (snd s)"
    using host_records.retry_at_records [OF s(2) q] by (simp_all add: host_records.keeps_def)
  then have "host_ok (h, s1)" using a assms(1) by (simp add: host_ok_def joined_flags_iff same_owner_def)
  then show ?thesis using assms(1) q by (simp add: continue_owner_def)
qed

lemma attach_ok:
  assumes "host_ok (h, s)" "k \<notin> set (map fst (ho_clients h))"
  shows "host_ok (snd (attach k h), s)"
proof -
  obtain r h' where a: "attach k h = (r, h')" by (metis surj_pair)
  have "host_inv h' \<and> length (ho_slots h') = length (ho_slots h) \<and> ho_disposer h' = ho_disposer h \<and> ho_closing h' = ho_closing h"
    using attach_inv [OF _ _ a] assms by (simp add: host_ok_def)
  moreover have "ho_closing h \<Longrightarrow> h' = h" using a by (simp add: attach_def)
  ultimately show ?thesis unfolding a using host_ok_host [OF assms(1), of h'] by auto
qed

lemma change_session_ok:
  "(\<And>x. hs_slot (f x) = hs_slot x) \<Longrightarrow> host_ok (h, s) \<Longrightarrow> host_ok (change_session k f h, s)"
  using host_ok_host [of h s "change_session k f h"] change_session_inv [of f h k]
  by (simp add: host_ok_def change_session_def)

lemma worker_ok:
  assumes "host_ok (h, s)"
  shows "host_ok (worker_ends k (case e of None \<Rightarrow> h | Some x \<Rightarrow> worker_failed x h), s)"
proof -
  let ?h = "case e of None \<Rightarrow> h | Some x \<Rightarrow> worker_failed x h"
  have h: "ho_clients ?h = ho_clients h" "ho_disposer ?h = ho_disposer h" "ho_closing ?h = ho_closing h" "host_inv ?h = host_inv h"
    by (simp_all add: worker_failed_def split: option.split)
  show ?thesis
    by (rule host_ok_host [OF assms]) (use worker_ends_inv [of ?h k] assms h in \<open>simp_all add: host_ok_def worker_ends_clients\<close>)
qed

lemma host_step_ok: "host_ok hs \<Longrightarrow> host_ok (host_step hs x)"
proof -
  assume "host_ok hs"
  obtain h s where Pair: "hs = (h, s)" by (cases hs)
  have ok: "host_ok (h, s)" using \<open>host_ok hs\<close> Pair by simp
  have w: "host_ok (h, (fst s, snd s))" using ok by simp
  show ?thesis unfolding Pair
  proof (cases x)
    case (Attach k)
    then show "host_ok (host_step (h, s) x)" using ok attach_ok by simp
  next
    case (BeginQuery k)
    then show "host_ok (host_step (h, s) x)" using ok by (simp add: activity_begin_def change_session_ok)
  next
    case (GoIdle k st)
    then show "host_ok (host_step (h, s) x)" using ok by (simp add: activity_idle_def change_session_ok)
  next
    case (CleanupSession k)
    then show "host_ok (host_step (h, s) x)" using ok by (simp add: activity_cleanup_def change_session_ok)
  next
    case (WorkerReturns k e)
    then show "host_ok (host_step (h, s) x)" using ok worker_ok by simp
  next
    case (GuestFails e)
    then show "host_ok (host_step (h, s) x)" using ok host_ok_host [OF ok, of "guest_abort e h"] by (simp add: host_ok_def)
  next
    case GuestStops
    have "host_ok (h, (fst s, (snd s)\<lparr>hw_guest_done := True\<rparr>))"
      by (rule host_ok_world [OF w]) (use ok in \<open>simp_all add: host_ok_def\<close>)
    then show "host_ok (host_step (h, s) x)"
      using GuestStops host_ok_host [of h _ "guest_abort (Sentinel ''guest exited'') h"] by (simp add: host_ok_def)
  next
    case WorkersJoined
    then show "host_ok (host_step (h, s) x)" using ok host_ok_world [OF w, of "(snd s)\<lparr>hw_workers_done := True\<rparr>"] by simp
  next
    case (RemoveAnswers f)
    then show "host_ok (host_step (h, s) x)" using ok host_ok_world [OF w, of "(snd s)\<lparr>hw_remove := f\<rparr>"] by (simp add: host_ok_def)
  next
    case (CloseHost v)
    then show "host_ok (host_step (h, s) x)" using close_host_ok [OF ok, of v] by (metis host_step.simps(10) prod.collapse)
  next
    case (SnapFiles rollback named made published v)
    then show "host_ok (host_step (h, s) x)" using ok snapshot_files_ok [OF ok, of published v rollback named made]
      by (metis host_step.simps(11) prod.collapse)
  next
    case (SnapHeap m rollback ctx v)
    then show "host_ok (host_step (h, s) x)" using snapshot_heap_ok [OF ok, of m rollback ctx v] by (metis host_step.simps(12) prod.collapse)
  next
    case (ContinueDisposal i)
    then show "host_ok (host_step (h, s) x)" using ok continue_ok by simp
  qed
qed

interpretation host_machine: inv_machine host_step host_ok
  by unfold_locales (rule host_step_ok)

lemma host_run_ok: "host_ok (foldl host_step (host_init n capable build c f) ops)"
  by (rule host_machine.run_inv) (rule host_init_ok)

text \<open>The capacity is that of the start.\<close>

lemma worker_ends_slots [simp]: "length (ho_slots (worker_ends k h)) = length (ho_slots h)"
  by (simp add: worker_ends_def split: option.split)

lemma attach_slots: "length (ho_slots (snd (attach k h))) = length (ho_slots h)"
  by (auto simp: attach_def allocate_slot_def split: option.split)

lemma change_session_slots [simp]: "ho_slots (change_session k f h) = ho_slots h"
  by (simp add: change_session_def)

lemma host_step_slots:
  assumes "host_ok (h, s)"
  shows "length (ho_slots (fst (host_step (h, s) x))) = length (ho_slots h)"
proof (cases x)
  case (CloseHost v)
  then show ?thesis using close_host_ok [OF assms, of v] by (metis fst_conv host_step.simps(10) prod.collapse)
next
  case (SnapFiles rollback named made published v)
  then show ?thesis using snapshot_files_ok [OF assms, of published v rollback named made]
    by (metis fst_conv host_step.simps(11) prod.collapse)
next
  case (SnapHeap m rollback ctx v)
  then show ?thesis using snapshot_heap_ok [OF assms, of m rollback ctx v] by (metis fst_conv host_step.simps(12) prod.collapse)
qed (simp_all add: attach_slots activity_begin_def activity_idle_def activity_cleanup_def worker_failed_def split: option.split)

interpretation host_capacity: inv_machine host_step "\<lambda>hs. host_ok hs \<and> length (ho_slots (fst hs)) = n" for n
  by unfold_locales (metis host_step_ok host_step_slots prod.collapse)

lemma host_run:
  "host_ok (foldl host_step (host_init n capable build c f) ops) \<and>
   length (ho_slots (fst (foldl host_step (host_init n capable build c f) ops))) = n"
  by (rule host_capacity.run_inv) (simp add: host_init_ok, simp add: host_init_def new_host_def)

section \<open>What admission answers\<close>

lemma slots_full_iff:
  assumes "host_inv h" "length (ho_slots h) = n"
  shows "set (slots_of (ho_clients h)) \<subseteq> {..<n}" "first_free (ho_slots h) = None \<longleftrightarrow> length (ho_clients h) = n"
    "length (ho_clients h) \<le> n"
proof -
  let ?S = "slots_of (ho_clients h)"
  have d: "distinct ?S" and m: "\<And>i. i \<in> set ?S \<longleftrightarrow> i < n \<and> ho_slots h ! i" using assms by (simp_all add: host_inv_def)
  show sub: "set ?S \<subseteq> {..<n}" using m by auto
  have len: "length (ho_clients h) = card (set ?S)" using distinct_card [OF d] by (simp add: slots_of_def)
  show "length (ho_clients h) \<le> n" unfolding len using card_mono [OF finite_lessThan sub] by (simp only: card_lessThan)
  have "first_free (ho_slots h) = None \<longleftrightarrow> set ?S = {..<n}"
    unfolding first_free_None all_set_conv_all_nth assms(2) set_eq_iff m by auto
  also have "\<dots> \<longleftrightarrow> card (set ?S) = card {..<n}" using card_subset_eq [OF finite_lessThan sub] by metis
  finally show "first_free (ho_slots h) = None \<longleftrightarrow> length (ho_clients h) = n" by (simp only: len card_lessThan)
qed

lemma first_free_least:
  assumes "host_inv h" "first_free (ho_slots h) = Some i"
  shows "i = (LEAST j. j \<notin> set (slots_of (ho_clients h)))"
proof (rule Least_equality [symmetric])
  note f = first_free_Some [OF assms(2)]
  have m: "\<And>j. j \<in> set (slots_of (ho_clients h)) \<longleftrightarrow> j < length (ho_slots h) \<and> ho_slots h ! j"
    using assms(1) by (simp add: host_inv_def)
  show "i \<notin> set (slots_of (ho_clients h))" using m f by simp
  show "i \<le> j" if "j \<notin> set (slots_of (ho_clients h))" for j using that m f by (meson leI less_trans)
qed

lemma attach_answer:
  assumes "host_inv h" "length (ho_slots h) = n"
  shows "fst (attach k h) =
      (if ho_closing h then Some (Rejected ''closed'' ''database is closing'', None)
       else case ho_failure h of
         Some cause \<Rightarrow> Some (Rejected ''unusable'' ''database instance terminated'', Some cause)
       | None \<Rightarrow>
           if length (ho_clients h) = n then Some (Rejected ''capacity'' ''mariamem session capacity exhausted'', None) else None) \<and>
    snd (attach k h) = (if fst (attach k h) = None then snd (attach k h) else h) \<and>
    slots_of (ho_clients (snd (attach k h))) = slots_of (ho_clients h) @
      (if fst (attach k h) = None then [LEAST j. j \<notin> set (slots_of (ho_clients h))] else [])"
proof (cases "first_free (ho_slots h)")
  case None
  then show ?thesis using slots_full_iff [OF assms] by (simp add: attach_def allocate_slot_def split: option.split)
next
  case (Some i)
  then show ?thesis using slots_full_iff [OF assms] first_free_least [OF assms(1) Some]
    by (simp add: attach_def allocate_slot_def slots_of_def split: option.split)
qed

section \<open>When disposal completes\<close>

definition removable :: "host_world \<Rightarrow> bool" where
  "removable w \<longleftrightarrow> hw_guest_done w \<and> hw_workers_done w \<and> hw_remove w 0 = None"

lemma retry_completes:
  assumes "o_dep (fst s ! i) = None" "o_run (fst s ! i) = 0" "i < length (fst s)" "removable (snd s)"
  shows "fst (retry_at host_cleanup c i s) = None \<and> o_done (fst (snd (retry_at host_cleanup c i s)) ! i)"
  using assms by (cases s) (auto simp: retry_at_def host_cleanup_def wait_joined_def remove_all_def removable_def Let_def)

lemma probe_or_retain_completes:
  assumes "o_dep (fst s ! i) = None" "o_run (fst s ! i) = 0" "i < length (fst s)" "removable (snd s)"
  shows "o_done (fst (snd (probe_or_retain host_cleanup cause i s)) ! i)"
proof -
  obtain s' where "retry_at host_cleanup True i s = (None, s')" "o_done (fst s' ! i)"
    using retry_completes [OF assms, of True] by (metis prod.collapse)
  then show ?thesis by (simp add: probe_or_retain_def probe_def)
qed

lemma dispose_completes:
  assumes "host_ok (h, s)" "removable (snd s)" "dispose_after cause h s = (r, h', s')"
  shows "disposal_complete h' (fst s')"
proof (cases "ho_disposer h")
  case None
  let ?s = "(fst s @ [\<lparr>o_done = False, o_dep = None, o_run = 0, o_continue = False\<rparr>], snd s)"
  have "o_done (fst (snd (probe_or_retain host_cleanup cause (length (fst s)) ?s)) ! length (fst s))"
    by (rule probe_or_retain_completes) (simp_all add: assms(2))
  then show ?thesis using assms(3) None by (auto simp: dispose_after_def disposal_complete_def split: prod.splits)
next
  case (Some i)
  have "o_done (fst (snd (probe_or_retain host_cleanup cause i s)) ! i)"
    by (rule probe_or_retain_completes) (use assms(1,2) Some in \<open>simp_all add: host_ok_def\<close>)
  then show ?thesis using assms(3) Some by (auto simp: dispose_after_def disposal_complete_def split: prod.splits)
qed

section \<open>Properties\<close>

text \<open>
  C30. After any run of admissions, queries, failures, shutdowns and snapshots, the sessions
  own pairwise distinct guest slots below the capacity; a new session gets the lowest slot nobody owns,
  and is refused exactly when the host is closing, failed or full, with the error of that case and no
  effect.
\<close>

theorem sessions_own_slots:
  "(let h = fst (foldl host_step (host_init n capable build c f) ops); S = slots_of (ho_clients h) in
      distinct S \<and> set S \<subseteq> {..<n} \<and>
      fst (attach k h) =
        (if ho_closing h then Some (Rejected ''closed'' ''database is closing'', None)
         else case ho_failure h of
           Some cause \<Rightarrow> Some (Rejected ''unusable'' ''database instance terminated'', Some cause)
         | None \<Rightarrow> if length S = n then Some (Rejected ''capacity'' ''mariamem session capacity exhausted'', None) else None) \<and>
      snd (attach k h) = (if fst (attach k h) = None then snd (attach k h) else h) \<and>
      slots_of (ho_clients (snd (attach k h))) = S @ (if fst (attach k h) = None then [LEAST j. j \<notin> set S] else []))"
proof -
  let ?h = "fst (foldl host_step (host_init n capable build c f) ops)"
  have h: "host_inv ?h" "length (ho_slots ?h) = n"
    using host_run [of n capable build c f ops] by (simp_all add: host_ok_def)
  have l: "length (slots_of (ho_clients ?h)) = length (ho_clients ?h)" by (simp add: slots_of_def)
  have d: "distinct (slots_of (ho_clients ?h))" using h(1) by (simp add: host_inv_def)
  show ?thesis unfolding Let_def l using d slots_full_iff(1) [OF h] attach_answer [OF h, of k] by blast
qed

text \<open>
  C31. A heap snapshot that does not consume the host changes nothing and reports why; one that
  does found a capable, open host whose every session was idle, with no open transaction unless rollback
  was asked for, and closes it. A root is handed over only with the guest stopped without error; it is the
  one the guest froze, it passes its check, and no second root can be taken.
\<close>

theorem heap_snapshot_takes_idle_host:
  assumes "snapshot_heap m rollback ctx v h s = ((owned, consumed, err), h', s')" and "host_ok (h, s)"
  shows "(if consumed
      then snapshot_capable h \<and> \<not> ho_closing h \<and> ctx = None \<and> ho_closing h' \<and>
        list_all (\<lambda>(k, x). \<not> hs_busy x \<and> (rollback \<or> hs_status x AND 1 = 0)) (ho_clients h)
      else h' = h \<and> s' = s \<and> owned = None \<and> err \<noteq> None) \<and>
    (case owned of
       None \<Rightarrow> err \<noteq> None
     | Some r \<Rightarrow> consumed \<and> fe_guest_joined v \<and> ho_clients h' = [] \<and> root_check m r (ho_build h) = None \<and>
         c_native (fe_freeze v (capture_request (ho_capture h))) = Some r \<and>
         fst (take_root m (ho_build h) (ho_capture h')) = Inl (Sentinel ''missing/substituted capture root''))"
  using assms(1)
proof (cases rule: snapshot_heap_cases)
  case refused
  then show ?thesis by simp
next
  case (consumed e h1 c cause e')
  let ?h = "h\<lparr>ho_capture := capture_request (ho_capture h)\<rparr>"
  have ok: "host_ok (?h, s)" using assms(2) by simp
  note fin = finish_ok [OF ok consumed(6)]
  have idle: "list_all (\<lambda>(k, x). \<not> hs_busy x \<and> (rollback \<or> hs_status x AND 1 = 0)) cs"
    if "snapshot_precondition rollback cs = None" for cs
    using that by (induction rollback cs rule: snapshot_precondition.induct) (auto split: if_splits)
  have "host_ok (h1\<lparr>ho_capture := c\<rparr>, observed v s)" using fin by simp
  from dispose_after_spec [OF this consumed(7)] obtain i where
    h': "h' = h1\<lparr>ho_capture := c, ho_disposer := Some i\<rparr>" and r: "e' = cause \<or> e' \<noteq> None" by auto
  have closed: "ho_closing h'" using fin h' by simp
  show ?thesis
  proof (cases owned)
    case None
    then have "err \<noteq> None" using consumed(8,10) r by auto
    then show ?thesis using consumed closed None idle by simp
  next
    case (Some root)
    then have t: "e = None" "fst (take_root m (ho_build h1) (ho_capture h1)) = Inr root" "root_check m root (ho_build h1) = None"
      "c = snd (take_root m (ho_build h1) (ho_capture h1))" using consumed(9,10) by auto
    have nat: "c_native (ho_capture h1) = Some root" "c = capture_emptied (ho_capture h1)"
      using t by (auto simp: take_root_def split: option.splits if_splits)
    have again: "fst (take_root m (ho_build h) (ho_capture h')) = Inl (Sentinel ''missing/substituted capture root'')"
      by (simp add: h' nat(2) take_root_def capture_emptied_def)
    have j: "fe_guest_joined v" "fe_context v = None"
      using consumed(6) t(1) by (auto simp: finish_def Let_def timed_out_def split: if_splits option.splits)
    have "ho_clients h' = []" using finish_clients(1) [OF consumed(6)] j h' by simp
    then show ?thesis using consumed(1-5) closed Some idle t(3) nat(1) again fin j by simp
  qed
qed

theorem heap_snapshot_takes_idle_host_witness:
  "(let m = \<lparr>cells = (\<lambda>_. []), next_cell = 0\<rparr>; root = built_root 5 ''b'' [''.''] [];
        v = \<lparr>fe_context = None, fe_answer = None, fe_guest_joined = True, fe_sessions_joined = True,
             fe_freeze = \<lambda>c. c\<lparr>c_native := Some root, c_expected := Some root, c_source := Some 5\<rparr>\<rparr>;
        hs = foldl host_step (host_init 2 True ''b'' new_capture (\<lambda>_. None)) [Attach 7, GoIdle 7 2];
        res = snapshot_heap m False None v (fst hs) (snd hs) in
      length (ho_clients (fst hs)) = 1 \<and> fst res = (Some root, True, None) \<and> ho_closing (fst (snd res)) \<and>
      ho_clients (fst (snd res)) = [] \<and>
      fst (take_root m ''b'' (ho_capture (fst (snd res)))) = Inl (Sentinel ''missing/substituted capture root''))"
proof -
  let ?m = "\<lparr>cells = (\<lambda>_. []), next_cell = 0\<rparr> :: memory" and ?root = "built_root 5 ''b'' [''.''] []"
  let ?v = "\<lparr>fe_context = None, fe_answer = None, fe_guest_joined = True, fe_sessions_joined = True,
             fe_freeze = \<lambda>c. c\<lparr>c_native := Some ?root, c_expected := Some ?root, c_source := Some 5\<rparr>\<rparr> :: finish_env"
  let ?hs = "foldl host_step (host_init 2 True ''b'' new_capture (\<lambda>_. None)) [Attach 7, GoIdle 7 2]"
  have hs: "fst ?hs = \<lparr>ho_clients = [(7, \<lparr>hs_busy = False, hs_status = 2, hs_slot = 0\<rparr>)], ho_slots = [True, False],
      ho_closing = False, ho_failure = None, ho_capable = True, ho_build = ''b'', ho_capture = new_capture, ho_disposer = None\<rparr>"
    by (simp add: host_init_def new_host_def attach_def allocate_slot_def activity_idle_def change_session_def numeral_2_eq_2)
  have v: "valid_name ''.''" by code_simp
  have c: "root_check ?m ?root ''b'' = None"
    by (simp add: root_check_def built_root_def check_root_names_def check_names_def v Let_def)
  have src: "r_source ?root = 5" by (simp add: built_root_def)
  have res: "fst (snapshot_heap ?m False None ?v (fst ?hs) (snd ?hs)) = (Some ?root, True, None)"
    unfolding hs
    by (simp add: snapshot_heap_def snapshot_capable_def finish_def all_leave_def stop_accepting_def take_root_def own_root_def c src
        worker_ends_def dispose_after_def host_init_def new_capture_def capture_request_def probe_or_retain_def probe_def
        retry_at_def host_cleanup_def wait_joined_def remove_all_def observed_def new_host_def Let_def)
  obtain h' s' where r: "snapshot_heap ?m False None ?v (fst ?hs) (snd ?hs) = ((Some ?root, True, None), h', s')"
    using res by (metis prod.collapse)
  have "host_ok (fst ?hs, snd ?hs)" unfolding prod.collapse by (rule host_run_ok)
  from heap_snapshot_takes_idle_host [OF r this] show ?thesis using res r hs by (simp add: Let_def)
qed

text \<open>
  C32. Closing a reachable host always leaves it closed to sessions. It reports the error of
  finishing with the disposal complete, or retains the unfinished disposal in its error, whose owner goes
  on. The disposal is complete when guest and sessions were joined and the transfer directory could be
  removed.
\<close>

theorem close_disposes_or_retains:
  assumes "host_ok (h, s)" and "close_host v h s = (r, h', s')"
  shows "fst (attach k h') = Some (Rejected ''closed'' ''database is closing'', None) \<and>
    (case ho_disposer h' of
       None \<Rightarrow> False
     | Some i \<Rightarrow>
         (if disposal_complete h' (fst s') then r = fst (finish v (stop_accepting h))
          else o_continue (fst s' ! i) \<and>
            (case r of Some (Pending cause e j) \<Rightarrow> j = i \<and> cause = fst (finish v (stop_accepting h)) | _ \<Rightarrow> False))) \<and>
    (fe_guest_joined v \<and> (fe_context v = None \<or> fe_sessions_joined v) \<and> hw_remove (snd s) 0 = None \<longrightarrow>
     disposal_complete h' (fst s'))"
proof -
  obtain e h1 where f: "finish v (stop_accepting h) = (e, h1)" by (metis surj_pair)
  then have d: "dispose_after e h1 (observed v s) = (r, h', s')" using assms(2) by (simp add: close_host_def)
  have ok: "host_ok (h1, observed v s)" "ho_closing h1" using finish_ok [OF assms(1) f] by simp_all
  obtain i where i: "h' = h1\<lparr>ho_disposer := Some i\<rparr>"
    "o_done (fst s' ! i) \<and> r = e \<or> \<not> o_done (fst s' ! i) \<and> o_continue (fst s' ! i) \<and> (\<exists>x. r = Some (Pending e x i))"
    using dispose_after_spec [OF ok(1) d] by blast
  have "removable (snd (observed v s))"
    if "fe_guest_joined v" "fe_context v = None \<or> fe_sessions_joined v" "hw_remove (snd s) 0 = None"
    using that by (auto simp: removable_def observed_def)
  then show ?thesis using dispose_completes [OF ok(1) _ d] i ok(2) f by (auto simp: attach_def disposal_complete_def)
qed

theorem close_disposes_or_retains_witness:
  "(let h = new_host 1 True ''b'' new_capture; s = snd (host_init 1 True ''b'' new_capture (\<lambda>_. None));
        v = \<lparr>fe_context = Some err_deadline, fe_answer = None, fe_guest_joined = False, fe_sessions_joined = False, fe_freeze = \<lambda>c. c\<rparr>;
        res = close_host v h s in
      fst (attach 3 (fst (snd res))) = Some (Rejected ''closed'' ''database is closing'', None) \<and>
      \<not> disposal_complete (fst (snd res)) (fst (snd (snd res))) \<and> ho_disposer (fst (snd res)) \<noteq> None)"
proof -
  let ?h = "new_host 1 True ''b'' new_capture" and ?s = "snd (host_init 1 True ''b'' new_capture (\<lambda>_. None))"
  let ?v = "\<lparr>fe_context = Some err_deadline, fe_answer = None, fe_guest_joined = False, fe_sessions_joined = False, fe_freeze = \<lambda>c. c\<rparr> :: finish_env"
  obtain r h' s' where c: "close_host ?v ?h ?s = (r, h', s')" by (metis surj_pair)
  have "\<not> disposal_complete (fst (snd (close_host ?v ?h ?s))) (fst (snd (snd (close_host ?v ?h ?s))))"
    by (simp add: close_host_def finish_def stop_accepting_def new_host_def host_init_def dispose_after_def observed_def
        probe_or_retain_def probe_def retry_at_def host_cleanup_def wait_joined_def retain_def disposal_complete_def Let_def)
  moreover have "host_ok (?h, ?s)" using host_init_ok [of 1 True "''b''" new_capture "\<lambda>_. None"] by (simp add: host_init_def)
  ultimately show ?thesis using close_disposes_or_retains [OF _ c, of 3] c by (simp add: Let_def split: option.splits del: One_nat_def)
qed

text \<open>
  C33. In every reachable state the transfer directory is removed only with the guest and all
  sessions gone and the host closed, a complete disposal has removed it, and a disposal that is still
  pending completes at the next attempt of its owner once guest and sessions are joined and the directory
  can be removed.
\<close>

theorem disposal_is_last_and_completes:
  assumes "foldl host_step (host_init n capable build c f) ops = (h, (os, w))"
  shows "(0 \<in> set (hw_removed w) \<longrightarrow> hw_guest_done w \<and> hw_workers_done w \<and> ho_closing h \<and> ho_clients h = []) \<and>
    (disposal_complete h os \<longrightarrow> 0 \<in> set (hw_removed w)) \<and>
    (case ho_disposer h of
       None \<Rightarrow> True
     | Some i \<Rightarrow>
         o_continue (os ! i) \<and> hw_guest_done w \<and> hw_workers_done w \<and> hw_remove w 0 = None \<longrightarrow>
         disposal_complete h (fst (continue_owner host_cleanup i (os, w))))"
proof -
  have ok: "host_ok (h, (os, w))" using host_run [of n capable build c f ops] assms by simp
  show ?thesis
  proof (cases "ho_disposer h")
    case None
    then show ?thesis using ok
      by (auto simp: host_ok_def host_records.on_record_def joined_first_def disposal_complete_def)
  next
    case (Some i)
    have "disposal_complete h (fst (continue_owner host_cleanup i (os, w)))"
      if "o_continue (os ! i)" "hw_guest_done w" "hw_workers_done w" "hw_remove w 0 = None"
      using retry_completes [of "(os, w)" i False] that ok Some
      by (simp add: continue_owner_def disposal_complete_def host_ok_def removable_def)
    then show ?thesis using ok Some
      by (auto simp: host_ok_def host_records.on_record_def joined_first_def disposal_complete_def)
  qed
qed

theorem disposal_is_last_and_completes_witness:
  "(let (h, os, w) = foldl host_step (host_init 1 True ''b'' new_capture (\<lambda>_. None))
        [Attach 7, CloseHost \<lparr>fe_context = Some err_deadline, fe_answer = None, fe_guest_joined = False,
           fe_sessions_joined = False, fe_freeze = \<lambda>c. c\<rparr>, GuestStops, WorkerReturns 7 None, WorkersJoined] in
      \<not> disposal_complete h os \<and> ho_disposer h = Some 0 \<and> disposal_complete h (fst (continue_owner host_cleanup 0 (os, w))))"
proof -
  let ?r = "foldl host_step (host_init 1 True ''b'' new_capture (\<lambda>_. None))
        [Attach 7, CloseHost \<lparr>fe_context = Some err_deadline, fe_answer = None, fe_guest_joined = False,
           fe_sessions_joined = False, fe_freeze = \<lambda>c. c\<rparr>, GuestStops, WorkerReturns 7 None, WorkersJoined]"
  obtain h os w where r: "?r = (h, (os, w))" by (metis prod.collapse)
  have "\<not> disposal_complete h os \<and> ho_disposer h = Some 0 \<and> o_continue (os ! 0) \<and> hw_guest_done w \<and> hw_workers_done w \<and>
      hw_remove w 0 = None"
    using r
    by (auto simp: close_host_def finish_def stop_accepting_def new_host_def host_init_def dispose_after_def observed_def
        attach_def allocate_slot_def worker_ends_def guest_abort_def
        probe_or_retain_def probe_def retry_at_def host_cleanup_def wait_joined_def retain_def disposal_complete_def Let_def)
  then show ?thesis using disposal_is_last_and_completes [OF r] r by auto
qed

end
