(* ===== verification/GuestProcess.thy ===== *)
theory GuestProcess
  imports GuestResult PreparedRequest
begin

text \<open>
  The host's end of the guest protocol (\<open>internal/guest/guest.go\<close> and the joining of \<open>linked.go\<close>): calls
  of concurrent sessions share one pipe, each under a request identifier of its own; one reader hands
  every reply to the channel its identifier is registered for; the first failure answers everything
  pending. A channel is a number, its state the list of what was sent on it: its single receiver takes
  the first element. A critical section is one step. JSON decoding is the parameter \<open>decode\<close>, what a
  write, a context or the execution of the guest does is an argument of the operation that meets it.
\<close>

datatype guest_reply = Answer result | Broken goerr

record process =
  gp_next :: u32
  gp_pending :: "(u32 \<times> nat) list"
  gp_chans :: "guest_reply list list"
  gp_failure :: "goerr option"
  gp_stopping :: bool
  gp_aborted :: bool
  gp_in_open :: bool
  gp_out_open :: bool
  gp_done :: bool
  gp_exit :: "goerr option"
  gp_sent :: bytes

text \<open>\<open>connectWithFailure\<close>: the process before anything ran; channel 0 waits for the ready message.\<close>

definition new_process :: process where
  "new_process = \<lparr>gp_next = 0, gp_pending = [(0, 0)], gp_chans = [[]], gp_failure = None, gp_stopping = False,
     gp_aborted = False, gp_in_open = True, gp_out_open = True, gp_done = False, gp_exit = None, gp_sent = []\<rparr>"

definition put_reply :: "nat \<Rightarrow> guest_reply \<Rightarrow> process \<Rightarrow> process" where
  "put_reply ch r p = p\<lparr>gp_chans := (gp_chans p)[ch := gp_chans p ! ch @ [r]]\<rparr>"

section \<open>Failure\<close>

definition guest_fail :: "goerr \<Rightarrow> process \<Rightarrow> process" where
  "guest_fail e p =
     (let p1 = (if gp_failure p = None then p\<lparr>gp_failure := Some e\<rparr> else p);
          e1 = the (gp_failure p1) in
      (foldl (\<lambda>q (_, ch). put_reply ch (Broken e1) q) p1 (gp_pending p1))\<lparr>gp_pending := []\<rparr>)"

definition process_abort :: "goerr \<Rightarrow> process \<Rightarrow> process" where
  "process_abort e p =
     (if gp_aborted p then p
      else (guest_fail e (p\<lparr>gp_aborted := True\<rparr>))\<lparr>gp_in_open := False, gp_out_open := False\<rparr>)"

definition process_err :: "process \<Rightarrow> goerr option" where
  "process_err p =
     (case gp_failure p of
        Some e \<Rightarrow>
          (if gp_done p
           then case gp_exit p of
             Some x \<Rightarrow> err_join [Some e, Some (Wrapped ''guest process: '' x [])]
           | None \<Rightarrow> Some e
           else Some e)
      | None \<Rightarrow>
          (if gp_done p
           then case gp_exit p of
             Some x \<Rightarrow> Some (Wrapped ''guest exited: '' x [])
           | None \<Rightarrow> Some (Sentinel ''guest exited'')
           else None))"

text \<open>
  \<open>abortAndWait\<close>: joined within the grace or not; the owner retained in the second case is the number
  \<open>owner\<close>.
\<close>

definition abort_and_wait :: "goerr \<Rightarrow> bool \<Rightarrow> nat \<Rightarrow> process \<Rightarrow> goerr option \<times> process" where
  "abort_and_wait e joined owner p =
     (let p1 = process_abort e p in
      if joined then (err_join [Some e, process_err p1], p1)
      else (Some (Pending (Some e) (Sentinel ''guest cleanup timed out'') owner), p1))"

section \<open>The reader\<close>

definition read_failed :: "goerr \<Rightarrow> process \<Rightarrow> process" where
  "read_failed e p =
     (if gp_stopping p then guest_fail e p
      else process_abort (Wrapped ''guest output closed unexpectedly: '' e []) p)"

definition err_eof :: goerr where "err_eof = Sentinel ''EOF''"
definition err_unexpected_eof :: goerr where "err_unexpected_eof = Sentinel ''unexpected EOF''"

text \<open>\<open>io.ReadFull\<close> on the bytes the pipe still delivers before it ends with an error.\<close>

definition take_full :: "nat \<Rightarrow> bytes \<Rightarrow> goerr \<Rightarrow> goerr + (bytes \<times> bytes)" where
  "take_full n bs e =
     (if n \<le> length bs then Inr (take n bs, drop n bs)
      else if bs \<noteq> [] \<and> e = err_eof then Inl err_unexpected_eof else Inl e)"

definition max_guest_frame :: nat where "max_guest_frame = 33554432"

definition hand_over :: "u32 \<Rightarrow> result \<Rightarrow> process \<Rightarrow> bool \<times> process" where
  "hand_over i r p =
     (case map_of (gp_pending p) i of
        None \<Rightarrow> (False, process_abort (Sentinel ''unknown guest response ID'') p)
      | Some ch \<Rightarrow> (True, put_reply ch (Answer r) (p\<lparr>gp_pending := filter (\<lambda>(k, _). k \<noteq> i) (gp_pending p)\<rparr>)))"

text \<open>One round of \<open>read\<close>: whether it goes on, the bytes left, the message it took.\<close>

definition read_round ::
  "(bytes \<Rightarrow> goerr + (u32 \<times> result)) \<Rightarrow> bytes \<Rightarrow> goerr \<Rightarrow> process \<Rightarrow> (bytes \<times> (u32 \<times> result)) option \<times> process" where
  "read_round decode bs e p =
     (case take_full 4 bs e of
        Inl x \<Rightarrow> (None, read_failed x p)
      | Inr (h, bs1) \<Rightarrow>
          (let n = unat (get_le h :: u32) in
           if n = 0 \<or> max_guest_frame < n then (None, process_abort (Sentinel ''invalid guest frame'') p)
           else case take_full n bs1 e of
             Inl x \<Rightarrow> (None, read_failed x p)
           | Inr (b, bs2) \<Rightarrow>
               (case decode b of
                  Inl x \<Rightarrow> (None, process_abort x p)
                | Inr (i, r) \<Rightarrow> (case hand_over i r p of (goes_on, p1) \<Rightarrow> (if goes_on then Some (bs2, (i, r)) else None, p1)))))"

lemma read_round_shorter: "read_round decode bs e p = (Some (bs', m), p') \<Longrightarrow> length bs' < length bs"
  by (auto simp: read_round_def take_full_def hand_over_def Let_def split: if_splits sum.splits prod.splits option.splits)

function read_loop :: "(bytes \<Rightarrow> goerr + (u32 \<times> result)) \<Rightarrow> bytes \<Rightarrow> goerr \<Rightarrow> process \<Rightarrow> (u32 \<times> result) list \<times> process" where
  "read_loop decode bs e p =
     (case read_round decode bs e p of
        (None, p1) \<Rightarrow> ([], p1)
      | (Some (bs1, m), p1) \<Rightarrow> (case read_loop decode bs1 e p1 of (ms, p2) \<Rightarrow> (m # ms, p2)))"
  by pat_completeness auto

termination by (relation "measure (\<lambda>(_, bs, _, _). length bs)") (auto dest: read_round_shorter [OF sym])

declare read_loop.simps [simp del]

section \<open>Writing\<close>

text \<open>
  \<open>writeAll\<close> against the answers of the pipe, each how many bytes one write took and its error; a pipe
  without further answers takes everything. The result is what was taken.
\<close>

fun write_all :: "(nat \<times> goerr option) list \<Rightarrow> bytes \<Rightarrow> goerr option \<times> bytes" where
  "write_all answers [] = (None, [])"
| "write_all [] b = (None, b)"
| "write_all ((n, Some e) # as) b = (Some e, take n b)"
| "write_all ((n, None) # as) b =
     (if n = 0 then (Some (Sentinel ''short write''), [])
      else case write_all as (drop n b) of (e, t) \<Rightarrow> (e, take n b @ t))"

text \<open>
  \<open>write\<close>: the context ends before it is this frame's turn, the pipe answers, or the context ends while
  the pipe has taken a part. A closed pipe takes nothing.
\<close>

datatype write_outcome = NoTurn goerr | Answers "(nat \<times> goerr option) list" | CutOff nat goerr

definition err_pipe_closed :: goerr where
  "err_pipe_closed = Wrapped ''write |1: '' (Sentinel ''file already closed'') []"

fun write_frame :: "write_outcome \<Rightarrow> bytes \<Rightarrow> process \<Rightarrow> goerr option \<times> process" where
  "write_frame (NoTurn e) b p = (Some e, process_abort e p)"
| "write_frame (Answers as) b p =
     (if \<not> gp_in_open p then (Some err_pipe_closed, process_abort err_pipe_closed p)
      else case write_all as b of
        (None, t) \<Rightarrow> (None, p\<lparr>gp_sent := gp_sent p @ t\<rparr>)
      | (Some e, t) \<Rightarrow> (Some e, process_abort e (p\<lparr>gp_sent := gp_sent p @ t\<rparr>)))"
| "write_frame (CutOff n e) b p =
     (Some e, process_abort e (if gp_in_open p then p\<lparr>gp_sent := gp_sent p @ take n b\<rparr> else p))"

section \<open>Calls\<close>

definition guest_opcode :: u8 where "guest_opcode = 5"

definition request_frame :: "u8 \<Rightarrow> u32 \<Rightarrow> u32 \<Rightarrow> bytes \<Rightarrow> bytes" where
  "request_frame op i slot sql = le32 (word_of_nat (9 + length sql)) @ [op] @ le32 i @ le32 slot @ sql"

definition payload_limit :: "u8 \<Rightarrow> nat" where
  "payload_limit op = (if op = guest_opcode then max_envelope else 1048576)"

text \<open>\<open>Call\<close> up to its registration: the channel and the frame to write.\<close>

definition call_begin :: "u8 \<Rightarrow> u32 \<Rightarrow> bytes \<Rightarrow> process \<Rightarrow> (goerr + (nat \<times> bytes)) \<times> process" where
  "call_begin op slot sql p =
     (if payload_limit op < length sql then (Inl (Sentinel ''guest request exceeds payload limit''), p)
      else case gp_failure p of
        Some e \<Rightarrow> (Inl e, p)
      | None \<Rightarrow>
          if gp_stopping p then (Inl (Sentinel ''guest is stopping''), p)
          else
            (let i = gp_next p + 1; ch = length (gp_chans p) in
             (Inr (ch, request_frame op i slot sql),
              p\<lparr>gp_next := i, gp_pending := (i, ch) # filter (\<lambda>(k, _). k \<noteq> i) (gp_pending p), gp_chans := gp_chans p @ [[]]\<rparr>)))"

text \<open>Its wait: the reply, or the context's error; nothing yet is \<open>None\<close>.\<close>

definition call_end :: "nat \<Rightarrow> goerr option \<Rightarrow> process \<Rightarrow> guest_reply option \<times> process" where
  "call_end ch ctx p =
     (case ctx of
        Some e \<Rightarrow> (Some (Broken e), process_abort e p)
      | None \<Rightarrow> (case gp_chans p ! ch of [] \<Rightarrow> (None, p) | r # _ \<Rightarrow> (Some r, p)))"

section \<open>Stopping\<close>

text \<open>
  \<open>stop\<close> waits at up to four places; between them the other steps of the process go on. \<open>None\<close> as the
  context resumes it when what it waits for has happened.
\<close>

datatype stop_state =
    Stopped "goerr option"
  | AwaitFailedExit
  | AwaitSaved nat
  | AwaitExit
  | AwaitAbort goerr

definition stop_begin :: "bool \<Rightarrow> write_outcome \<Rightarrow> process \<Rightarrow> stop_state \<times> process" where
  "stop_begin export v p =
     (let saved = length (gp_chans p);
          p1 = p\<lparr>gp_stopping := True\<rparr>;
          p2 = (if export
                then p1\<lparr>gp_pending := (0, saved) # filter (\<lambda>(k, _). k \<noteq> 0) (gp_pending p1), gp_chans := gp_chans p1 @ [[]]\<rparr>
                else p1) in
      if gp_failure p \<noteq> None \<and> \<not> export then (AwaitFailedExit, p2)
      else if gp_done p2
      then (Stopped (if export then Some (Sentinel ''guest exited before snapshot'') else None), p2)
      else case write_frame v (if export then le32 0xFFFFFFFE else [0, 0, 0, 0]) p2 of
        (Some e, p3) \<Rightarrow> (if \<not> export \<and> process_err p3 \<noteq> None then AwaitFailedExit else Stopped (Some e), p3)
      | (None, p3) \<Rightarrow> (if export then AwaitSaved saved else AwaitExit, p3\<lparr>gp_in_open := False\<rparr>))"

definition stop_saved :: "guest_reply \<Rightarrow> process \<Rightarrow> stop_state \<times> process" where
  "stop_saved r p =
     (case r of
        Broken e \<Rightarrow> (AwaitAbort e, process_abort e p)
      | Answer x \<Rightarrow>
          if \<not> snapshot (body x) \<or> snapshot_version (body x) \<noteq> 1
          then (AwaitAbort (Sentinel ''invalid snapshot acknowledgement''),
                process_abort (Sentinel ''invalid snapshot acknowledgement'') p)
          else (AwaitExit, p))"

definition stop_exit :: "process \<Rightarrow> goerr option" where
  "stop_exit p = (case gp_exit p of Some x \<Rightarrow> Some (Wrapped ''guest shutdown: '' x []) | None \<Rightarrow> None)"

text \<open>A resumption; in \<open>AwaitAbort\<close> the context stands for the ten seconds and \<open>owner\<close> is what is retained.\<close>

fun stop_resume :: "goerr option \<Rightarrow> nat \<Rightarrow> stop_state \<Rightarrow> process \<Rightarrow> stop_state \<times> process" where
  "stop_resume ctx owner (Stopped e) p = (Stopped e, p)"
| "stop_resume ctx owner AwaitFailedExit p =
     (case ctx of
        Some e \<Rightarrow> (Stopped (Some e), p)
      | None \<Rightarrow> (if gp_done p then Stopped None else AwaitFailedExit, p))"
| "stop_resume ctx owner (AwaitSaved ch) p =
     (case ctx of
        Some e \<Rightarrow> (AwaitAbort e, process_abort e p)
      | None \<Rightarrow> (case gp_chans p ! ch of [] \<Rightarrow> (AwaitSaved ch, p) | r # _ \<Rightarrow> stop_saved r p))"
| "stop_resume ctx owner AwaitExit p =
     (case ctx of
        Some e \<Rightarrow> (Stopped (Some e), process_abort e p)
      | None \<Rightarrow> (if gp_done p then Stopped (stop_exit p) else AwaitExit, p))"
| "stop_resume ctx owner (AwaitAbort e) p =
     (case ctx of
        Some _ \<Rightarrow> (Stopped (Some (Pending (Some e) (Sentinel ''guest cleanup timed out'') owner)), p)
      | None \<Rightarrow> (if gp_done p then Stopped (err_join [Some e, process_err p]) else AwaitAbort e, p))"

section \<open>Starting and exiting\<close>

text \<open>The execution of the guest ends, after the reader did.\<close>

definition guest_exits :: "goerr option \<Rightarrow> process \<Rightarrow> process" where
  "guest_exits e p =
     (let p1 = (case e of None \<Rightarrow> p | Some x \<Rightarrow> process_abort x p) in
      guest_fail (Sentinel ''guest exited'') (p1\<lparr>gp_out_open := False, gp_exit := e, gp_done := True\<rparr>))"

text \<open>What the ready message must say.\<close>

definition ready_accepted :: "guest_reply \<Rightarrow> goerr option" where
  "ready_accepted r =
     (case r of
        Broken e \<Rightarrow> Some e
      | Answer x \<Rightarrow>
          if ready (body x) \<and> api_version (body x) = 2 \<and> 0 < max_sessions (body x) \<and> max_sessions (body x) \<le> 65536 then None
          else Some (Sentinel ''unsupported guest: requires multi-session API v2 with valid capacity''))"

definition connect_ends :: "guest_reply \<Rightarrow> bool \<Rightarrow> nat \<Rightarrow> process \<Rightarrow> (goerr option + result_fields) \<times> process" where
  "connect_ends r joined owner p =
     (case ready_accepted r of
        Some e \<Rightarrow> (case abort_and_wait e joined owner p of (e1, p1) \<Rightarrow> (Inl e1, p1))
      | None \<Rightarrow> (case r of Answer x \<Rightarrow> (Inr (body x), p) | Broken e \<Rightarrow> (Inl (Some e), p)))"

text \<open>The tail of the log a failed start reports: its last 1024 bytes.\<close>

definition tail_write :: "bytes \<Rightarrow> bytes \<Rightarrow> nat \<times> bytes" where
  "tail_write b t =
     (let t1 = t @ b in (length b, if 1024 < length t1 then drop (length t1 - 1024) t1 else t1))"

end
