(* ===== verification/GuestProperties.thy ===== *)
theory GuestProperties
  imports GuestProcess
begin

text \<open>
  The properties of the guest protocol's host end: every call gets one reply, its own; what is written
  is a sequence of whole frames; a stop reports an orderly end only when there was one.
\<close>

section \<open>Channels\<close>

text \<open>
  \<open>ids ! ch\<close> is the identifier channel \<open>ch\<close> was registered for, \<open>rd\<close> what the reader took. An unanswered
  channel is pending and an answered one has one reply, its own message or the failure. The identifiers in
  use are at most the counter, which is smaller than the number of channels: it has not wrapped.
\<close>

definition reply_ok :: "u32 \<Rightarrow> (u32 \<times> result) set \<Rightarrow> goerr option \<Rightarrow> guest_reply list \<Rightarrow> bool" where
  "reply_ok i rd failure rs =
     (case rs of
        [] \<Rightarrow> True
      | [Answer r] \<Rightarrow> (i, r) \<in> rd
      | [Broken e] \<Rightarrow> failure = Some e
      | _ \<Rightarrow> False)"

definition calls_ok :: "u32 list \<Rightarrow> (u32 \<times> result) set \<Rightarrow> process \<Rightarrow> bool" where
  "calls_ok ids rd p \<longleftrightarrow>
     length ids = length (gp_chans p) \<and> distinct (map fst (gp_pending p)) \<and>
     (\<forall>i ch. (i, ch) \<in> set (gp_pending p) \<longleftrightarrow> ch < length ids \<and> ids ! ch = i \<and> gp_chans p ! ch = []) \<and>
     (\<forall>ch<length ids. reply_ok (ids ! ch) rd (gp_failure p) (gp_chans p ! ch)) \<and>
     unat (gp_next p) < length ids \<and> (\<forall>i\<in>fst ` set (gp_pending p). i \<le> gp_next p) \<and>
     (gp_failure p \<noteq> None \<longrightarrow> fst ` set (gp_pending p) \<subseteq> {0})"

lemma calls_okD:
  assumes "calls_ok ids rd p"
  shows "length ids = length (gp_chans p)" "distinct (map fst (gp_pending p))"
    "\<And>i ch. (i, ch) \<in> set (gp_pending p) \<longleftrightarrow> ch < length ids \<and> ids ! ch = i \<and> gp_chans p ! ch = []"
    "\<And>ch. ch < length ids \<Longrightarrow> reply_ok (ids ! ch) rd (gp_failure p) (gp_chans p ! ch)"
    "unat (gp_next p) < length ids" "\<And>i. i \<in> fst ` set (gp_pending p) \<Longrightarrow> i \<le> gp_next p"
    "gp_failure p \<noteq> None \<Longrightarrow> fst ` set (gp_pending p) \<subseteq> {0}"
  using assms unfolding calls_ok_def by blast+

lemma calls_okI:
  assumes "length ids = length (gp_chans p)" "distinct (map fst (gp_pending p))"
    "\<And>i ch. (i, ch) \<in> set (gp_pending p) \<longleftrightarrow> ch < length ids \<and> ids ! ch = i \<and> gp_chans p ! ch = []"
    "\<And>ch. ch < length ids \<Longrightarrow> reply_ok (ids ! ch) rd (gp_failure p) (gp_chans p ! ch)"
    "unat (gp_next p) < length ids" "\<And>i. i \<in> fst ` set (gp_pending p) \<Longrightarrow> i \<le> gp_next p"
    "gp_failure p \<noteq> None \<Longrightarrow> fst ` set (gp_pending p) \<subseteq> {0}"
  shows "calls_ok ids rd p"
  using assms unfolding calls_ok_def by blast

lemma calls_ok_frame [simp]:
  "calls_ok ids rd (p\<lparr>gp_stopping := b\<rparr>) = calls_ok ids rd p"
  "calls_ok ids rd (p\<lparr>gp_aborted := b\<rparr>) = calls_ok ids rd p"
  "calls_ok ids rd (p\<lparr>gp_in_open := b\<rparr>) = calls_ok ids rd p"
  "calls_ok ids rd (p\<lparr>gp_out_open := b\<rparr>) = calls_ok ids rd p"
  "calls_ok ids rd (p\<lparr>gp_done := b\<rparr>) = calls_ok ids rd p"
  "calls_ok ids rd (p\<lparr>gp_exit := x\<rparr>) = calls_ok ids rd p"
  "calls_ok ids rd (p\<lparr>gp_sent := t\<rparr>) = calls_ok ids rd p"
  by (simp_all add: calls_ok_def)

lemma new_process_ok: "calls_ok [0] {} new_process"
  by (auto simp: calls_ok_def new_process_def reply_ok_def)

section \<open>Failing\<close>

definition answer_all :: "goerr \<Rightarrow> (u32 \<times> nat) list \<Rightarrow> process \<Rightarrow> process" where
  "answer_all e ps p = foldl (\<lambda>q (_, ch). put_reply ch (Broken e) q) p ps"

lemma answer_all_rest [simp]:
  "gp_next (answer_all e ps p) = gp_next p" "gp_pending (answer_all e ps p) = gp_pending p"
  "gp_failure (answer_all e ps p) = gp_failure p" "gp_stopping (answer_all e ps p) = gp_stopping p"
  "gp_aborted (answer_all e ps p) = gp_aborted p" "gp_in_open (answer_all e ps p) = gp_in_open p"
  "gp_out_open (answer_all e ps p) = gp_out_open p" "gp_done (answer_all e ps p) = gp_done p"
  "gp_exit (answer_all e ps p) = gp_exit p" "gp_sent (answer_all e ps p) = gp_sent p"
  "length (gp_chans (answer_all e ps p)) = length (gp_chans p)"
  unfolding answer_all_def by (induction ps arbitrary: p) (auto simp: put_reply_def)

lemma answer_all_Cons: "answer_all e ((i, ch) # ps) p = answer_all e ps (put_reply ch (Broken e) p)"
  by (simp add: answer_all_def)

lemma answer_all_chans:
  "distinct (map snd ps) \<Longrightarrow> ch < length (gp_chans p) \<Longrightarrow>
     gp_chans (answer_all e ps p) ! ch = gp_chans p ! ch @ (if ch \<in> snd ` set ps then [Broken e] else [])"
proof (induction ps arbitrary: p)
  case (Cons x ps)
  obtain i c where x: "x = (i, c)" by (cases x)
  have "gp_chans (put_reply c (Broken e) p) ! ch = gp_chans p ! ch @ (if ch = c then [Broken e] else [])"
    using Cons.prems(2) by (cases "ch = c") (simp_all add: put_reply_def)
  then show ?case using Cons.prems Cons.IH [of "put_reply c (Broken e) p"]
    by (auto simp: x answer_all_Cons put_reply_def)
qed (simp add: answer_all_def)

lemma guest_fail_eq:
  "guest_fail e p = (let e1 = (case gp_failure p of None \<Rightarrow> e | Some x \<Rightarrow> x) in
     (answer_all e1 (gp_pending p) (p\<lparr>gp_failure := Some e1\<rparr>))\<lparr>gp_pending := []\<rparr>)"
proof (cases "gp_failure p")
  case (Some a)
  then have "p\<lparr>gp_failure := Some a\<rparr> = p" by (cases p) simp
  then show ?thesis
    unfolding guest_fail_def answer_all_def Let_def Some by (simp only: option.simps option.sel if_False Some)
qed (simp add: guest_fail_def answer_all_def Let_def)

lemma pending_channels_distinct:
  assumes "calls_ok ids rd p" shows "distinct (map snd (gp_pending p))"
proof -
  have d: "distinct (gp_pending p)" using assms by (simp add: calls_ok_def distinct_map)
  have "inj_on snd (set (gp_pending p))"
    using assms unfolding calls_ok_def by (intro inj_onI) (metis prod.collapse)
  then show ?thesis using d by (simp add: distinct_map)
qed

lemma guest_fail_ok:
  assumes ok: "calls_ok ids rd p"
  shows "calls_ok ids rd (guest_fail e p)"
proof -
  let ?e = "case gp_failure p of None \<Rightarrow> e | Some x \<Rightarrow> x"
  let ?q = "guest_fail e p"
  note len = calls_okD(1) [OF ok]
  have c: "gp_chans ?q ! ch = gp_chans p ! ch @ (if gp_chans p ! ch = [] then [Broken ?e] else [])" if "ch < length ids" for ch
  proof -
    have "ch \<in> snd ` set (gp_pending p) \<longleftrightarrow> gp_chans p ! ch = []"
      using calls_okD(3) [OF ok] that by (force simp: image_iff)
    then show ?thesis using answer_all_chans [OF pending_channels_distinct [OF ok], of ch "p\<lparr>gp_failure := Some ?e\<rparr>" ?e] that len
      by (simp add: guest_fail_eq Let_def)
  qed
  have f: "gp_failure ?q = Some ?e" "gp_pending ?q = []" "gp_next ?q = gp_next p" "length (gp_chans ?q) = length (gp_chans p)"
    by (simp_all add: guest_fail_eq Let_def)
  have r: "reply_ok (ids ! ch) rd (gp_failure p) (gp_chans p ! ch)" if "ch < length ids" for ch
    using calls_okD(4) [OF ok that] .
  have "reply_ok (ids ! ch) rd (Some ?e) (gp_chans ?q ! ch)" if "ch < length ids" for ch
    using r [OF that] c [OF that] by (auto simp: reply_ok_def split: list.splits guest_reply.splits option.splits)
  moreover have "gp_chans ?q ! ch \<noteq> []" if "ch < length ids" for ch using c [OF that] by simp
  ultimately show ?thesis using calls_okD(5) [OF ok] f len by (intro calls_okI) auto
qed

lemma guest_fail_rest [simp]:
  "gp_next (guest_fail e p) = gp_next p" "gp_pending (guest_fail e p) = []" "gp_stopping (guest_fail e p) = gp_stopping p"
  "gp_aborted (guest_fail e p) = gp_aborted p" "gp_in_open (guest_fail e p) = gp_in_open p"
  "gp_done (guest_fail e p) = gp_done p" "gp_exit (guest_fail e p) = gp_exit p" "gp_sent (guest_fail e p) = gp_sent p"
  "length (gp_chans (guest_fail e p)) = length (gp_chans p)" "gp_failure (guest_fail e p) \<noteq> None"
  by (simp_all add: guest_fail_eq Let_def)

lemma process_abort_ok: "calls_ok ids rd p \<Longrightarrow> calls_ok ids rd (process_abort e p)"
  by (simp add: process_abort_def guest_fail_ok)

lemma process_abort_rest [simp]:
  "gp_next (process_abort e p) = gp_next p" "gp_stopping (process_abort e p) = gp_stopping p"
  "gp_done (process_abort e p) = gp_done p" "gp_exit (process_abort e p) = gp_exit p"
  "gp_sent (process_abort e p) = gp_sent p" "gp_aborted (process_abort e p)"
  "length (gp_chans (process_abort e p)) = length (gp_chans p)"
  by (simp_all add: process_abort_def)

section \<open>Reading\<close>

lemma reply_ok_mono: "reply_ok i rd f rs \<Longrightarrow> rd \<subseteq> rd' \<Longrightarrow> reply_ok i rd' f rs"
  by (auto simp: reply_ok_def split: list.splits guest_reply.splits)

lemma calls_ok_mono: "calls_ok ids rd p \<Longrightarrow> rd \<subseteq> rd' \<Longrightarrow> calls_ok ids rd' p"
proof -
  assume a: "calls_ok ids rd p" "rd \<subseteq> rd'"
  show ?thesis
    by (rule calls_okI) (fact calls_okD [OF a(1)] reply_ok_mono [OF calls_okD(4) [OF a(1)] a(2)])+
qed

lemma hand_over_ok:
  assumes ok: "calls_ok ids rd p" and h: "hand_over i r p = (b, p')"
  shows "calls_ok ids (if b then insert (i, r) rd else rd) p'"
proof (cases "map_of (gp_pending p) i")
  case None
  then show ?thesis using h process_abort_ok [OF ok] by (auto simp: hand_over_def)
next
  case (Some ch)
  note d = calls_okD(2) [OF ok] and len = calls_okD(1) [OF ok] and pend = calls_okD(3) [OF ok]
  have "(i, ch) \<in> set (gp_pending p)" using Some by (rule map_of_SomeD)
  then have ch: "ch < length ids" "ids ! ch = i" "gp_chans p ! ch = []" using pend by blast+
  have uniq: "c = ch" if "c < length ids" "ids ! c = i" "gp_chans p ! c = []" for c
    using that pend [of i c] Some d by (metis map_of_is_SomeI option.inject)
  have p': "p' = p\<lparr>gp_pending := filter (\<lambda>(k, _). k \<noteq> i) (gp_pending p), gp_chans := (gp_chans p)[ch := [Answer r]]\<rparr>" and b
    using h Some ch by (auto simp: hand_over_def put_reply_def)
  have pend': "(k, c) \<in> set (gp_pending p') \<longleftrightarrow> c < length ids \<and> ids ! c = k \<and> gp_chans p' ! c = []" for k c
    using uniq [of c] ch len pend [of k c] by (cases "c = ch") (auto simp: p')
  have "reply_ok (ids ! c) (insert (i, r) rd) (gp_failure p) (gp_chans p' ! c)" if "c < length ids" for c
  proof (cases "c = ch")
    case True
    then show ?thesis using ch len by (simp add: p' reply_ok_def)
  next
    case False
    then have "reply_ok (ids ! c) rd (gp_failure p) (gp_chans p' ! c)" using calls_okD(4) [OF ok that] by (simp add: p')
    then show ?thesis by (rule reply_ok_mono) auto
  qed
  moreover have "fst ` set (gp_pending p') \<subseteq> fst ` set (gp_pending p)" by (auto simp: p')
  moreover have "length (gp_chans p') = length (gp_chans p)" "gp_next p' = gp_next p" "gp_failure p' = gp_failure p"
    "distinct (map fst (gp_pending p'))" using distinct_map_filter [OF d] by (simp_all add: p')
  ultimately have "calls_ok ids (insert (i, r) rd) p'"
    using calls_okD(5-7) [OF ok] pend' len by (intro calls_okI) (simp_all, blast+)
  then show ?thesis using \<open>b\<close> by simp
qed

section \<open>Registering\<close>

text \<open>A new channel under an identifier that nobody waits for.\<close>

definition register :: "u32 \<Rightarrow> process \<Rightarrow> process" where
  "register i p = p\<lparr>gp_pending := (i, length (gp_chans p)) # filter (\<lambda>(k, _). k \<noteq> i) (gp_pending p),
     gp_chans := gp_chans p @ [[]]\<rparr>"

lemma register_ok:
  assumes ok: "calls_ok ids rd p" and i: "i \<notin> fst ` set (gp_pending p)" "i \<le> n" "gp_failure p \<noteq> None \<Longrightarrow> i = 0"
    and n: "gp_next p \<le> n" "unat n \<le> length ids"
  shows "calls_ok (ids @ [i]) rd (register i (p\<lparr>gp_next := n\<rparr>))" (is "calls_ok _ _ ?q")
proof (rule calls_okI)
  note len = calls_okD(1) [OF ok]
  have f: "filter (\<lambda>(k, _). k \<noteq> i) (gp_pending p) = gp_pending p" using i(1) by (force simp: filter_id_conv)
  show "length (ids @ [i]) = length (gp_chans ?q)" using len by (simp add: register_def)
  show "distinct (map fst (gp_pending ?q))" using calls_okD(2) [OF ok] i(1) by (simp add: register_def f)
  show "(k, ch) \<in> set (gp_pending ?q) \<longleftrightarrow> ch < length (ids @ [i]) \<and> (ids @ [i]) ! ch = k \<and> gp_chans ?q ! ch = []" for k ch
    using calls_okD(3) [OF ok, of k ch] len by (cases "ch = length ids") (auto simp: register_def f nth_append)
  show "reply_ok ((ids @ [i]) ! ch) rd (gp_failure ?q) (gp_chans ?q ! ch)" if "ch < length (ids @ [i])" for ch
    using calls_okD(4) [OF ok, of ch] len that
    by (cases "ch = length ids") (auto simp: register_def nth_append reply_ok_def)
  show "unat (gp_next ?q) < length (ids @ [i])" using n(2) by (simp add: register_def)
  show "k \<le> gp_next ?q" if "k \<in> fst ` set (gp_pending ?q)" for k
  proof -
    have "k = i \<or> k \<in> fst ` set (gp_pending p)" using that by (auto simp: register_def f)
    then have "k \<le> n" using order_trans [OF calls_okD(6) [OF ok, of k] n(1)] i(2) by blast
    then show ?thesis by (simp add: register_def)
  qed
  show "fst ` set (gp_pending ?q) \<subseteq> {0}" if "gp_failure ?q \<noteq> None"
    using that calls_okD(7) [OF ok] i(3) by (auto simp: register_def f)
qed

text \<open>The next identifier is fresh while fewer channels than identifiers were made.\<close>

lemma next_id:
  assumes "calls_ok ids rd p" "length ids < 2 ^ 32"
  shows "unat (gp_next p + 1) = Suc (unat (gp_next p))" "gp_next p + 1 \<notin> fst ` set (gp_pending p)"
proof -
  have n: "Suc (unat (gp_next p)) < 2 ^ 32" using calls_okD(5) [OF assms(1)] assms(2) by simp
  then show u: "unat (gp_next p + 1) = Suc (unat (gp_next p))" by (simp add: unat_word_ariths)
  show "gp_next p + 1 \<notin> fst ` set (gp_pending p)"
    using calls_okD(6) [OF assms(1), of "gp_next p + 1"] u by (auto simp: word_le_nat_alt)
qed

lemma call_begin_ok:
  assumes ok: "calls_ok ids rd p" and len: "length ids < 2 ^ 32" and c: "call_begin op slot sql p = (Inr (ch, b), p')"
  shows "calls_ok (ids @ [gp_next p']) rd p' \<and> ch = length ids \<and> b = request_frame op (gp_next p') slot sql"
proof -
  let ?i = "gp_next p + 1"
  have p': "p' = register ?i (p\<lparr>gp_next := ?i\<rparr>)" "ch = length (gp_chans p)" "b = request_frame op ?i slot sql" "gp_failure p = None"
    using c by (auto simp: call_begin_def register_def Let_def split: if_splits option.splits)
  note n = next_id [OF ok len]
  have "calls_ok (ids @ [?i]) rd p'" unfolding p'(1)
    by (rule register_ok [OF ok n(2)]) (use n p'(4) calls_okD(5) [OF ok] in \<open>simp_all add: word_le_nat_alt\<close>)
  then show ?thesis using p' calls_okD(1) [OF ok] by (simp add: register_def)
qed

lemma call_begin_fails: "call_begin op slot sql p = (Inl e, p') \<Longrightarrow> p' = p"
  by (auto simp: call_begin_def Let_def split: if_splits option.splits)

section \<open>Writing whole frames\<close>

lemma write_all_nil [simp]: "write_all [] b = (None, b)"
  by (cases b) simp_all

lemma write_all_done: "write_all as b = (None, t) \<Longrightarrow> t = b"
  by (induction as b arbitrary: t rule: write_all.induct) (auto split: if_splits prod.splits)

lemma write_frame_ok: "calls_ok ids rd p \<Longrightarrow> write_frame v b p = (r, p') \<Longrightarrow> calls_ok ids rd p'"
  by (cases v) (auto simp: process_abort_ok split: if_splits prod.splits option.splits)

text \<open>
  What was written: the frames of \<open>log\<close>, and a part of one more only on a pipe that takes nothing any
  more.
\<close>

definition stream_ok :: "bytes list \<Rightarrow> process \<Rightarrow> bool" where
  "stream_ok log p \<longleftrightarrow> take (length (concat log)) (gp_sent p) = concat log \<and>
     (gp_in_open p \<longrightarrow> gp_sent p = concat log) \<and> (gp_aborted p \<longrightarrow> \<not> gp_in_open p)"

lemma stream_ok_abort: "stream_ok log p \<Longrightarrow> stream_ok log (process_abort e p)"
  by (auto simp: stream_ok_def process_abort_def)

lemma stream_ok_fail: "stream_ok log p \<Longrightarrow> stream_ok log (guest_fail e p)"
  by (simp add: stream_ok_def)

lemma stream_ok_cut:
  "stream_ok log p \<Longrightarrow> gp_in_open p \<Longrightarrow> stream_ok log (process_abort e (p\<lparr>gp_sent := gp_sent p @ t\<rparr>))"
  by (auto simp: stream_ok_def process_abort_def)

lemma write_frame_stream:
  assumes s: "stream_ok log p" and w: "write_frame v b p = (r, p')"
  shows "stream_ok (if r = None then log @ [b] else log) p' \<and> (r = None \<longrightarrow> gp_in_open p')"
proof (cases v)
  case (NoTurn e)
  then show ?thesis using w stream_ok_abort [OF s] by auto
next
  case (Answers as)
  obtain x t where x: "write_all as b = (x, t)" by (metis surj_pair)
  show ?thesis
  proof (cases "gp_in_open p")
    case False
    then show ?thesis using w Answers stream_ok_abort [OF s] by auto
  next
    case True
    then show ?thesis using w Answers x write_all_done [of as b t] s stream_ok_cut [OF s True]
      by (cases x) (auto simp: stream_ok_def)
  qed
next
  case (CutOff n e)
  then show ?thesis using w stream_ok_abort [OF s] stream_ok_cut [OF s] by auto
qed

lemma hand_over_stream: "stream_ok log p \<Longrightarrow> hand_over i r p = (b, p') \<Longrightarrow> stream_ok log p'"
  using stream_ok_abort [of log p] by (auto simp: hand_over_def put_reply_def stream_ok_def split: option.splits)

section \<open>The frames\<close>

text \<open>The guest's side of the pipe, as a reader of length-prefixed frames.\<close>

datatype guest_frame = Request u8 u32 u32 bytes | StopFrame | ExportFrame

definition frame_ok :: "guest_frame \<Rightarrow> bool" where
  "frame_ok f = (case f of Request op i slot sql \<Rightarrow> length sql \<le> max_envelope | _ \<Rightarrow> True)"

definition enc_frame :: "guest_frame \<Rightarrow> bytes" where
  "enc_frame f =
     (case f of
        Request op i slot sql \<Rightarrow> request_frame op i slot sql
      | StopFrame \<Rightarrow> [0, 0, 0, 0]
      | ExportFrame \<Rightarrow> le32 0xFFFFFFFE)"

definition parse_frame :: "bytes \<Rightarrow> (guest_frame \<times> bytes) option" where
  "parse_frame b =
     (let n = (get_le (take 4 b) :: u32); r = drop 4 b in
      if length b < 4 then None
      else if n = 0 then Some (StopFrame, r)
      else if n = 0xFFFFFFFE then Some (ExportFrame, r)
      else if unat n < 9 \<or> length r < unat n then None
      else Some (Request (r ! 0) (get_le (take 4 (drop 1 r))) (get_le (take 4 (drop 5 r))) (take (unat n - 9) (drop 9 r)), drop (unat n) r))"

lemma parse_enc_frame: "frame_ok f \<Longrightarrow> parse_frame (enc_frame f @ rest) = Some (f, rest)"
proof (cases f)
  case (Request op i slot sql)
  assume "frame_ok f"
  then have n: "9 + length sql < 4294967294" using Request by (simp add: frame_ok_def max_envelope_def)
  let ?n = "word_of_nat (9 + length sql) :: u32"
  have u: "unat ?n = 9 + length sql" using n by (intro unat_of_nat_u32) simp
  have "unat ?n \<noteq> unat (0 :: u32)" "unat ?n \<noteq> unat (0xFFFFFFFE :: u32)" unfolding u using n by simp_all
  then have "?n \<noteq> 0" "?n \<noteq> 0xFFFFFFFE" by metis+
  moreover have "drop (9 + length sql) (op # le32 i @ le32 slot @ sql @ rest) = rest"
    using take_drop_append_eq [of "op # le32 i @ le32 slot @ sql" "9 + length sql" rest] by simp
  ultimately show ?thesis using u
    by (simp add: Request enc_frame_def request_frame_def parse_frame_def Let_def del: of_nat_add)
next
  case StopFrame
  have "take 4 ([0, 0, 0, 0] @ rest) = put_le 4 (0 :: u32)" by (simp add: numeral_nat)
  then show ?thesis unfolding StopFrame enc_frame_def parse_frame_def Let_def
    by (simp only: guest_frame.case get_put_le32) simp
next
  case ExportFrame
  then show ?thesis by (simp add: enc_frame_def parse_frame_def Let_def)
qed

interpretation frame_codec: prefix_codec enc_frame parse_frame frame_ok
  by unfold_locales (rule parse_enc_frame)

section \<open>The machine of a guest\<close>

text \<open>
  The process with its surroundings: which identifier each channel has, the calls registered and not yet
  written, the frames written whole, the messages read, whether the reader runs, and the stop.
\<close>

record guest =
  gs_proc :: process
  gs_ids :: "u32 list"
  gs_todo :: "(nat \<times> bytes) list"
  gs_log :: "bytes list"
  gs_read :: "(u32 \<times> result) list"
  gs_reading :: bool
  gs_stop :: "(bool \<times> stop_state) option"

datatype guest_op =
    GStart u8 u32 bytes
  | GWrite nat write_outcome
  | GWait nat "goerr option"
  | GRead bytes goerr
  | GStop bool write_outcome
  | GResume "goerr option" nat
  | GAbort goerr
  | GExit "goerr option"

fun guest_step :: "(bytes \<Rightarrow> goerr + (u32 \<times> result)) \<Rightarrow> guest \<Rightarrow> guest_op \<Rightarrow> guest" where
  "guest_step decode g (GStart op slot sql) =
     (case call_begin op slot sql (gs_proc g) of
        (Inl _, p) \<Rightarrow> g\<lparr>gs_proc := p\<rparr>
      | (Inr (ch, b), p) \<Rightarrow> g\<lparr>gs_proc := p, gs_ids := gs_ids g @ [gp_next p], gs_todo := gs_todo g @ [(ch, b)]\<rparr>)"
| "guest_step decode g (GWrite ch v) =
     (case map_of (gs_todo g) ch of
        None \<Rightarrow> g
      | Some b \<Rightarrow>
          (case write_frame v b (gs_proc g) of
             (r, p) \<Rightarrow> g\<lparr>gs_proc := p, gs_todo := filter (\<lambda>(k, _). k \<noteq> ch) (gs_todo g),
               gs_log := (if r = None then gs_log g @ [b] else gs_log g)\<rparr>))"
| "guest_step decode g (GWait ch ctx) = g\<lparr>gs_proc := snd (call_end ch ctx (gs_proc g))\<rparr>"
| "guest_step decode g (GRead bs e) =
     (if \<not> gs_reading g then g
      else case read_round decode bs e (gs_proc g) of
        (None, p) \<Rightarrow> g\<lparr>gs_proc := p, gs_reading := False\<rparr>
      | (Some (_, m), p) \<Rightarrow> g\<lparr>gs_proc := p, gs_read := gs_read g @ [m]\<rparr>)"
| "guest_step decode g (GStop export v) =
     (if gs_stop g \<noteq> None \<or> 0 \<in> fst ` set (gp_pending (gs_proc g)) then g
      else case stop_begin export v (gs_proc g) of
        (st, p) \<Rightarrow> g\<lparr>gs_proc := p, gs_ids := gs_ids g @ (if export then [0] else []), gs_stop := Some (export, st),
          gs_log := (case st of AwaitSaved _ \<Rightarrow> gs_log g @ [enc_frame ExportFrame]
                     | AwaitExit \<Rightarrow> gs_log g @ [enc_frame StopFrame] | _ \<Rightarrow> gs_log g)\<rparr>)"
| "guest_step decode g (GResume ctx owner) =
     (case gs_stop g of
        None \<Rightarrow> g
      | Some (export, st) \<Rightarrow>
          (case stop_resume ctx owner st (gs_proc g) of (st', p) \<Rightarrow> g\<lparr>gs_proc := p, gs_stop := Some (export, st')\<rparr>))"
| "guest_step decode g (GAbort e) = g\<lparr>gs_proc := process_abort e (gs_proc g)\<rparr>"
| "guest_step decode g (GExit e) =
     (if gs_reading g \<or> gp_done (gs_proc g) then g else g\<lparr>gs_proc := guest_exits e (gs_proc g)\<rparr>)"

definition guest_init :: guest where
  "guest_init = \<lparr>gs_proc = new_process, gs_ids = [0], gs_todo = [], gs_log = [], gs_read = [], gs_reading = True, gs_stop = None\<rparr>"

section \<open>The invariant\<close>

definition acked :: "(u32 \<times> result) set \<Rightarrow> bool" where
  "acked rd \<longleftrightarrow> (\<exists>r. (0, r) \<in> rd \<and> snapshot (body r) \<and> snapshot_version (body r) = 1)"

text \<open>What a stop has seen at each of its places.\<close>

fun stop_ok :: "u32 list \<Rightarrow> (u32 \<times> result) set \<Rightarrow> process \<Rightarrow> (bool \<times> stop_state) option \<Rightarrow> bool" where
  "stop_ok ids rd p None = True"
| "stop_ok ids rd p (Some (export, Stopped e)) =
     (gp_stopping p \<and> (e = None \<longrightarrow> gp_done p \<and> (export \<longrightarrow> acked rd \<and> gp_exit p = None)))"
| "stop_ok ids rd p (Some (export, AwaitFailedExit)) = (gp_stopping p \<and> \<not> export)"
| "stop_ok ids rd p (Some (export, AwaitSaved ch)) = (gp_stopping p \<and> export \<and> ch < length ids \<and> ids ! ch = 0)"
| "stop_ok ids rd p (Some (export, AwaitExit)) = (gp_stopping p \<and> (export \<longrightarrow> acked rd))"
| "stop_ok ids rd p (Some (export, AwaitAbort e)) = gp_stopping p"

definition is_frame :: "bytes \<Rightarrow> bool" where
  "is_frame b \<longleftrightarrow> (\<exists>f. frame_ok f \<and> b = enc_frame f)"

definition guest_ok :: "guest \<Rightarrow> bool" where
  "guest_ok g \<longleftrightarrow> calls_ok (gs_ids g) (set (gs_read g)) (gs_proc g) \<and> stream_ok (gs_log g) (gs_proc g) \<and>
     list_all is_frame (gs_log g) \<and> list_all (\<lambda>(_, b). is_frame b) (gs_todo g) \<and>
     stop_ok (gs_ids g) (set (gs_read g)) (gs_proc g) (gs_stop g)"

lemma guest_init_ok: "guest_ok guest_init"
  using new_process_ok by (simp add: guest_ok_def guest_init_def stream_ok_def new_process_def)

text \<open>The part of a process the stop and the frames look at.\<close>

lemma stop_ok_cong:
  "gp_stopping p' = gp_stopping p \<Longrightarrow> gp_done p' = gp_done p \<Longrightarrow> gp_exit p' = gp_exit p \<Longrightarrow> stop_ok ids rd p' st = stop_ok ids rd p st"
  by (cases "(ids, rd, p, st)" rule: stop_ok.cases) auto

lemma stop_ok_mono:
  "stop_ok ids rd p st \<Longrightarrow> rd \<subseteq> rd' \<Longrightarrow> stop_ok (ids @ xs) rd' p st"
  by (cases "(ids, rd, p, st)" rule: stop_ok.cases) (auto simp: acked_def nth_append)

lemma write_frame_keeps:
  assumes "write_frame v b p = (r, p')"
  shows "gp_stopping p' = gp_stopping p" "gp_done p' = gp_done p" "gp_exit p' = gp_exit p"
    "length (gp_chans p') = length (gp_chans p)"
  using assms by (cases v; auto split: if_splits prod.splits option.splits)+

lemma hand_over_keeps:
  assumes "hand_over i r p = (b, p')"
  shows "gp_stopping p' = gp_stopping p" "gp_done p' = gp_done p" "gp_exit p' = gp_exit p"
  using assms by (auto simp: hand_over_def put_reply_def split: option.splits)

lemma request_is_frame: "length sql \<le> payload_limit op \<Longrightarrow> is_frame (request_frame op i slot sql)"
  unfolding is_frame_def
  by (rule exI [of _ "Request op i slot sql"]) (auto simp: frame_ok_def enc_frame_def payload_limit_def max_envelope_def split: if_splits)

lemma start_ok:
  assumes ok: "guest_ok g" and len: "length (gs_ids (guest_step decode g (GStart op slot sql))) \<le> 2 ^ 32"
  shows "guest_ok (guest_step decode g (GStart op slot sql))"
proof (cases "fst (call_begin op slot sql (gs_proc g))")
  case (Inl e)
  then show ?thesis using ok call_begin_fails [of op slot sql "gs_proc g" e]
    by (cases "call_begin op slot sql (gs_proc g)") auto
next
  case (Inr x)
  then obtain ch b p where c: "call_begin op slot sql (gs_proc g) = (Inr (ch, b), p)"
    by (cases "call_begin op slot sql (gs_proc g)"; cases x) auto
  have k: "calls_ok (gs_ids g) (set (gs_read g)) (gs_proc g)" "length (gs_ids g) < 2 ^ 32"
    using ok len c by (simp_all add: guest_ok_def)
  note n = call_begin_ok [OF k c]
  have p: "gp_stopping p = gp_stopping (gs_proc g)" "gp_done p = gp_done (gs_proc g)" "gp_exit p = gp_exit (gs_proc g)"
      "gp_sent p = gp_sent (gs_proc g)" "gp_in_open p = gp_in_open (gs_proc g)" "gp_aborted p = gp_aborted (gs_proc g)"
      "length sql \<le> payload_limit op"
    using c by (auto simp: call_begin_def Let_def split: if_splits option.splits)
  have "stream_ok (gs_log g) p" using ok p by (simp add: guest_ok_def stream_ok_def)
  moreover have "stop_ok (gs_ids g @ [gp_next p]) (set (gs_read g)) p (gs_stop g)"
    using ok stop_ok_mono [OF _ subset_refl, of "gs_ids g" "set (gs_read g)" "gs_proc g"] stop_ok_cong [OF p(1-3)]
    by (simp add: guest_ok_def)
  moreover have "is_frame b" using n p request_is_frame by simp
  ultimately show ?thesis using ok n c by (simp add: guest_ok_def)
qed

lemma write_ok: "guest_ok g \<Longrightarrow> guest_ok (guest_step decode g (GWrite ch v))"
proof (cases "map_of (gs_todo g) ch")
  case (Some b)
  assume ok: "guest_ok g"
  obtain r p where w: "write_frame v b (gs_proc g) = (r, p)" by (metis surj_pair)
  note k = write_frame_ok [OF _ w] write_frame_stream [OF _ w] write_frame_keeps [OF w]
  have "is_frame b" using ok map_of_SomeD [OF Some] by (auto simp: guest_ok_def list_all_iff)
  moreover have "list_all (\<lambda>(_, b). is_frame b) (filter (\<lambda>(k, _). k \<noteq> ch) (gs_todo g))"
    using ok by (simp add: guest_ok_def list_all_iff)
  ultimately show ?thesis using ok Some w k stop_ok_cong [OF k(3-5)] by (auto simp: guest_ok_def)
qed simp

lemma abort_ok: "guest_ok g \<Longrightarrow> guest_ok (g\<lparr>gs_proc := process_abort e (gs_proc g)\<rparr>)"
  using stop_ok_cong [of "process_abort e (gs_proc g)" "gs_proc g"]
  by (simp add: guest_ok_def process_abort_ok stream_ok_abort)

lemma read_round_ok:
  assumes ok: "guest_ok g" and r: "read_round decode bs e (gs_proc g) = (x, p)"
  shows "guest_ok (g\<lparr>gs_proc := p, gs_read := gs_read g @ (case x of None \<Rightarrow> [] | Some (_, m) \<Rightarrow> [m])\<rparr>)"
proof -
  have c: "calls_ok (gs_ids g) (set (gs_read g)) (gs_proc g)" and s: "stream_ok (gs_log g) (gs_proc g)"
    and st: "stop_ok (gs_ids g) (set (gs_read g)) (gs_proc g) (gs_stop g)" using ok by (simp_all add: guest_ok_def)
  have ended: "guest_ok (g\<lparr>gs_proc := q\<rparr>)" if "q = guest_fail y (gs_proc g) \<or> q = process_abort y (gs_proc g)" for q y
    using that ok abort_ok [OF ok] guest_fail_ok [OF c] stream_ok_fail [OF s] stop_ok_cong [of "guest_fail y (gs_proc g)" "gs_proc g"]
    by (auto simp: guest_ok_def)
  show ?thesis
  proof (cases x)
    case None
    then have "\<exists>y. p = guest_fail y (gs_proc g) \<or> p = process_abort y (gs_proc g)" using r
      by (auto simp: read_round_def Let_def hand_over_def read_failed_def split: sum.splits prod.splits if_splits option.splits)
    then show ?thesis using ended None by auto
  next
    case (Some y)
    then obtain i m b where h: "hand_over i m (gs_proc g) = (True, p)" "x = Some (b, (i, m))"
      using r by (auto simp: read_round_def Let_def split: sum.splits prod.splits if_splits)
    have "stop_ok (gs_ids g) (insert (i, m) (set (gs_read g))) p (gs_stop g)"
      using stop_ok_mono [OF st, of "insert (i, m) (set (gs_read g))" "[]"] stop_ok_cong [OF hand_over_keeps [OF h(1)]]
      by auto
    then show ?thesis using ok hand_over_ok [OF c h(1)] hand_over_stream [OF s h(1)] h(2) by (simp add: guest_ok_def)
  qed
qed

text \<open>Beginning a stop: the state it waits in, after the channel of the acknowledgement is registered.\<close>

lemma stop_begin_cases:
  assumes b: "stop_begin export v p = (st, p')"
  obtains (early) q where "q = (if export then register 0 (p\<lparr>gp_stopping := True\<rparr>) else p\<lparr>gp_stopping := True\<rparr>)" "p' = q"
      "st = AwaitFailedExit \<and> \<not> export \<or> (\<exists>e. st = Stopped e \<and> (e = None \<longrightarrow> gp_done p' \<and> \<not> export))"
  | (failed) q e where "q = (if export then register 0 (p\<lparr>gp_stopping := True\<rparr>) else p\<lparr>gp_stopping := True\<rparr>)"
      "write_frame v (enc_frame (if export then ExportFrame else StopFrame)) q = (Some e, p')"
      "st = AwaitFailedExit \<and> \<not> export \<or> st = Stopped (Some e)"
  | (written) q q' where "q = (if export then register 0 (p\<lparr>gp_stopping := True\<rparr>) else p\<lparr>gp_stopping := True\<rparr>)"
      "write_frame v (enc_frame (if export then ExportFrame else StopFrame)) q = (None, q')" "p' = q'\<lparr>gp_in_open := False\<rparr>"
      "st = (if export then AwaitSaved (length (gp_chans p)) else AwaitExit)"
proof -
  define q where "q = (if export then register 0 (p\<lparr>gp_stopping := True\<rparr>) else p\<lparr>gp_stopping := True\<rparr>)"
  have f: "enc_frame (if export then ExportFrame else StopFrame) = (if export then le32 0xFFFFFFFE else [0, 0, 0, 0])"
    by (simp add: enc_frame_def)
  have b': "stop_begin export v p =
     (if gp_failure p \<noteq> None \<and> \<not> export then (AwaitFailedExit, q)
      else if gp_done q
      then (Stopped (if export then Some (Sentinel ''guest exited before snapshot'') else None), q)
      else case write_frame v (enc_frame (if export then ExportFrame else StopFrame)) q of
        (Some e, p3) \<Rightarrow> (if \<not> export \<and> process_err p3 \<noteq> None then AwaitFailedExit else Stopped (Some e), p3)
      | (None, p3) \<Rightarrow> (if export then AwaitSaved (length (gp_chans p)) else AwaitExit, p3\<lparr>gp_in_open := False\<rparr>))"
    unfolding f q_def stop_begin_def Let_def register_def by (cases export) simp_all
  obtain r p3 where w: "write_frame v (enc_frame (if export then ExportFrame else StopFrame)) q = (r, p3)" by (metis surj_pair)
  show thesis
  proof (cases "(gp_failure p \<noteq> None \<and> \<not> export) \<or> gp_done q")
    case True
    then have "p' = q" "st = AwaitFailedExit \<and> \<not> export \<or> (\<exists>e. st = Stopped e \<and> (e = None \<longrightarrow> gp_done p' \<and> \<not> export))"
      using b unfolding b' by (auto split: if_splits)
    then show thesis using early q_def by blast
  next
    case False
    then have x: "(st, p') = (case r of
        Some e \<Rightarrow> (if \<not> export \<and> process_err p3 \<noteq> None then AwaitFailedExit else Stopped (Some e), p3)
      | None \<Rightarrow> (if export then AwaitSaved (length (gp_chans p)) else AwaitExit, p3\<lparr>gp_in_open := False\<rparr>))"
      using b unfolding b' w by (cases r) (auto split: if_splits)
    show thesis
    proof (cases r)
      case None
      then show thesis using written [OF q_def] w x by simp
    next
      case (Some e)
      then show thesis using failed [OF q_def] w x by (auto split: if_splits)
    qed
  qed
qed

lemma stop_begin_ok:
  assumes ok: "guest_ok g" and z: "0 \<notin> fst ` set (gp_pending (gs_proc g))" and n: "gs_stop g = None"
  shows "guest_ok (guest_step decode g (GStop export v))"
proof -
  let ?p = "gs_proc g"
  let ?ids = "gs_ids g @ (if export then [0] else [])"
  obtain st p' where b: "stop_begin export v ?p = (st, p')" by (metis surj_pair)
  have c: "calls_ok (gs_ids g) (set (gs_read g)) ?p" and s: "stream_ok (gs_log g) ?p" using ok by (simp_all add: guest_ok_def)
  define q where "q = (if export then register 0 (?p\<lparr>gp_stopping := True\<rparr>) else ?p\<lparr>gp_stopping := True\<rparr>)"
  have "calls_ok (gs_ids g @ [0]) (set (gs_read g)) (register 0 ((?p\<lparr>gp_stopping := True\<rparr>)\<lparr>gp_next := gp_next ?p\<rparr>))"
    by (rule register_ok) (use c z calls_okD(5) [OF c] in simp_all)
  then have cq: "calls_ok ?ids (set (gs_read g)) q" using c by (simp add: q_def)
  have sq: "stream_ok (gs_log g) q" using s by (simp add: q_def register_def stream_ok_def)
  have qs: "gp_stopping q" "length (gp_chans ?p) = length (gs_ids g)"
    using calls_okD(1) [OF c] by (simp_all add: q_def register_def)
  have fr: "is_frame (enc_frame f)" if "f = ExportFrame \<or> f = StopFrame" for f
    unfolding is_frame_def using that by (intro exI [of _ f]) (auto simp: frame_ok_def)
  have step: "guest_step decode g (GStop export v) =
      g\<lparr>gs_proc := p', gs_ids := ?ids, gs_stop := Some (export, st),
        gs_log := (case st of AwaitSaved _ \<Rightarrow> gs_log g @ [enc_frame ExportFrame]
                   | AwaitExit \<Rightarrow> gs_log g @ [enc_frame StopFrame] | _ \<Rightarrow> gs_log g)\<rparr>"
    using b n z by simp
  from b show ?thesis
  proof (cases rule: stop_begin_cases)
    case (early q')
    then have "p' = q" by (simp add: q_def)
    then show ?thesis unfolding step using early(3) ok cq sq qs by (auto simp: guest_ok_def)
  next
    case (failed q' e)
    then have w: "write_frame v (enc_frame (if export then ExportFrame else StopFrame)) q = (Some e, p')" by (simp add: q_def)
    show ?thesis unfolding step
      using failed(3) ok write_frame_ok [OF cq w] write_frame_stream [OF sq w] write_frame_keeps(1) [OF w] qs
      by (auto simp: guest_ok_def)
  next
    case (written q' q'')
    then have w: "write_frame v (enc_frame (if export then ExportFrame else StopFrame)) q = (None, q'')" by (simp add: q_def)
    have "stream_ok (gs_log g @ [enc_frame (if export then ExportFrame else StopFrame)]) p'"
      using write_frame_stream [OF sq w] written(3) by (auto simp: stream_ok_def)
    then show ?thesis unfolding step
      using written(3,4) ok write_frame_ok [OF cq w] write_frame_keeps(1) [OF w] qs fr
      by (auto simp: guest_ok_def nth_append)
  qed
qed

lemma resume_ok:
  assumes ok: "guest_ok g"
  shows "guest_ok (guest_step decode g (GResume ctx owner))"
proof (cases "gs_stop g")
  case (Some x)
  obtain export st where st: "gs_stop g = Some (export, st)" using Some by (cases x) auto
  let ?p = "gs_proc g"
  obtain st' p' where r: "stop_resume ctx owner st ?p = (st', p')" by (metis surj_pair)
  have c: "calls_ok (gs_ids g) (set (gs_read g)) ?p" and s: "stream_ok (gs_log g) ?p"
    and so: "stop_ok (gs_ids g) (set (gs_read g)) ?p (Some (export, st))" using ok st by (simp_all add: guest_ok_def)
  have ack: "acked (set (gs_read g))" if "st = AwaitSaved ch" "gp_chans ?p ! ch = Answer y # rs" "snapshot (body y)" "snapshot_version (body y) = 1" for ch y rs
    using so that calls_okD(4) [OF c, of ch] by (auto simp: acked_def reply_ok_def split: list.splits)
  have p': "p' = ?p \<or> (\<exists>e. p' = process_abort e ?p)"
    using r by (cases st) (auto simp: stop_saved_def split: option.splits if_splits list.splits guest_reply.splits)
  have "stop_ok (gs_ids g) (set (gs_read g)) p' (Some (export, st'))"
    using r so ack by (cases st) (auto simp: stop_saved_def stop_exit_def split: option.splits if_splits list.splits guest_reply.splits)
  then show ?thesis using ok st r p' process_abort_ok [OF c] stream_ok_abort [OF s] by (auto simp: guest_ok_def)
qed (use ok in simp)

lemma exit_ok:
  assumes ok: "guest_ok g" and d: "\<not> gp_done (gs_proc g)"
  shows "guest_ok (g\<lparr>gs_proc := guest_exits e (gs_proc g)\<rparr>)"
proof -
  let ?p = "gs_proc g"
  define q where "q = (case e of None \<Rightarrow> ?p | Some x \<Rightarrow> process_abort x ?p)"
  have c: "calls_ok (gs_ids g) (set (gs_read g)) q" and s: "stream_ok (gs_log g) q"
    using ok by (auto simp: q_def guest_ok_def process_abort_ok stream_ok_abort split: option.split)
  have k: "gp_stopping q = gp_stopping ?p" by (simp add: q_def split: option.split)
  have "stop_ok (gs_ids g) (set (gs_read g)) (guest_exits e ?p) (gs_stop g)"
    using ok d k unfolding guest_ok_def
    by (cases "(gs_ids g, set (gs_read g), ?p, gs_stop g)" rule: stop_ok.cases)
      (auto simp: guest_exits_def Let_def simp flip: q_def)
  moreover have "stream_ok (gs_log g) (guest_exits e ?p)"
    using s by (simp add: guest_exits_def stream_ok_def Let_def flip: q_def)
  moreover have "calls_ok (gs_ids g) (set (gs_read g)) (guest_exits e ?p)"
    using c by (simp add: guest_exits_def guest_fail_ok Let_def flip: q_def)
  ultimately show ?thesis using ok by (simp add: guest_ok_def)
qed

lemma guest_step_ok:
  assumes "length (gs_ids (guest_step decode g x)) \<le> 2 ^ 32" "guest_ok g"
  shows "guest_ok (guest_step decode g x)"
proof (cases x)
  case (GWait ch ctx)
  then show ?thesis using assms(2) abort_ok [OF assms(2)] by (auto simp: call_end_def split: option.split list.split)
next
  case (GRead bs e)
  obtain r p where r: "read_round decode bs e (gs_proc g) = (r, p)" by (metis surj_pair)
  have eq: "guest_ok (h\<lparr>gs_reading := b\<rparr>) = guest_ok h" for h b by (simp add: guest_ok_def)
  have "guest_ok (g\<lparr>gs_proc := p, gs_reading := b\<rparr>)" if "guest_ok (g\<lparr>gs_proc := p\<rparr>)" for b
    using that eq [where h = "g\<lparr>gs_proc := p\<rparr>" and b = b] by simp
  then show ?thesis using GRead assms(2) read_round_ok [OF assms(2) r] r by (cases r) (auto split: option.splits)
next
  case (GStop export v)
  then show ?thesis using assms(2) stop_begin_ok [OF assms(2), of decode export v] by (cases "gs_stop g") auto
qed (use assms start_ok write_ok resume_ok abort_ok exit_ok in auto)

lemma guest_step_ids: "length (gs_ids g) \<le> length (gs_ids (guest_step decode g x))"
  by (cases x) (auto split: option.split prod.split sum.split)

interpretation guest_machine: inv_machine "guest_step decode" "\<lambda>g. length (gs_ids g) \<le> 2 ^ 32 \<longrightarrow> guest_ok g" for decode
  by unfold_locales (use guest_step_ok guest_step_ids order_trans in blast)

interpretation guest_channels: mono_machine "guest_step decode" "\<lambda>g. length (gs_ids g)" for decode
  by unfold_locales (rule guest_step_ids)

lemma guest_run_ok:
  "length (gs_ids (foldl (guest_step decode) guest_init ops)) \<le> 2 ^ 32 \<Longrightarrow> guest_ok (foldl (guest_step decode) guest_init ops)"
  using guest_machine.run_inv [of guest_init decode ops] guest_init_ok by blast

section \<open>The reader on well-formed input\<close>

definition reply_frame :: "bytes \<Rightarrow> bytes" where
  "reply_frame b = le32 (word_of_nat (length b)) @ b"

lemma read_round_frame:
  assumes "0 < length b" "length b \<le> max_guest_frame" "decode b = Inr (i, r)" "map_of (gp_pending p) i = Some ch"
  shows "read_round decode (reply_frame b @ rest) e p = (Some (rest, (i, r)), snd (hand_over i r p))"
proof -
  have u: "unat (word_of_nat (length b) :: u32) = length b"
    using assms(2) by (intro unat_of_nat_u32) (simp add: max_guest_frame_def)
  show ?thesis using assms u by (simp add: read_round_def take_full_def reply_frame_def hand_over_def)
qed

lemma map_of_filter_other: "k \<noteq> i \<Longrightarrow> map_of (filter (\<lambda>(k, _). k \<noteq> i) xs) k = map_of xs k"
  by (induction xs) auto

lemma hand_over_pending:
  "map_of (gp_pending p) i = Some ch \<Longrightarrow> k \<noteq> i \<Longrightarrow> map_of (gp_pending (snd (hand_over i r p))) k = map_of (gp_pending p) k"
  by (simp add: hand_over_def put_reply_def map_of_filter_other)

section \<open>Properties\<close>

text \<open>
  C34. Whatever sessions, reader, failures and stops do, a call gets at most one reply: the message the
  guest sent under the call's own identifier, or the first failure of the process. A call without a reply
  is still registered, and no call stays without one after a failure. The identifiers are exact up to
  2 ^ 32 channels of one process, where the 32-bit counter wraps.
\<close>

theorem guest_calls_answered_once:
  assumes "g = foldl (guest_step decode) guest_init ops" and "length (gs_ids g) \<le> 2 ^ 32" and "ch < length (gs_ids g)"
  shows "case gp_chans (gs_proc g) ! ch of
      [] \<Rightarrow> map_of (gp_pending (gs_proc g)) (gs_ids g ! ch) = Some ch \<and>
        (if gs_ids g ! ch = 0 then True else gp_failure (gs_proc g) = None)
    | [Answer r] \<Rightarrow> (gs_ids g ! ch, r) \<in> set (gs_read g)
    | [Broken e] \<Rightarrow> gp_failure (gs_proc g) = Some e
    | _ \<Rightarrow> False"
proof -
  let ?p = "gs_proc g"
  have c: "calls_ok (gs_ids g) (set (gs_read g)) ?p"
    using guest_run_ok [of decode ops] assms(1,2) by (simp add: guest_ok_def)
  have "reply_ok (gs_ids g ! ch) (set (gs_read g)) (gp_failure ?p) (gp_chans ?p ! ch)" by (rule calls_okD(4) [OF c assms(3)])
  moreover have "map_of (gp_pending ?p) (gs_ids g ! ch) = Some ch \<and> (gs_ids g ! ch \<noteq> 0 \<longrightarrow> gp_failure ?p = None)"
    if "gp_chans ?p ! ch = []"
  proof -
    have m: "(gs_ids g ! ch, ch) \<in> set (gp_pending ?p)" using calls_okD(3) [OF c] that assms(3) by blast
    then have "gs_ids g ! ch \<in> fst ` set (gp_pending ?p)" by force
    then have "gs_ids g ! ch \<noteq> 0 \<longrightarrow> gp_failure ?p = None" using calls_okD(7) [OF c] by blast
    then show ?thesis using map_of_is_SomeI [OF calls_okD(2) [OF c] m] by simp
  qed
  ultimately show ?thesis by (auto simp: reply_ok_def split: list.split guest_reply.split)
qed

theorem guest_calls_answered_once_witness:
  "(let g = foldl (guest_step (\<lambda>b. Inr (1, Result zero_fields None))) guest_init
        [GStart 3 0 [97], GWrite 1 (Answers []), GRead (reply_frame [65]) err_eof, GAbort err_canceled] in
      gp_chans (gs_proc g) = [[Broken err_canceled], [Answer (Result zero_fields None)]] \<and>
      (1, Result zero_fields None) \<in> set (gs_read g))"
proof -
  let ?g = "foldl (guest_step (\<lambda>b. Inr (1, Result zero_fields None))) guest_init
        [GStart 3 0 [97], GWrite 1 (Answers []), GRead (reply_frame [65]) err_eof, GAbort err_canceled]"
  have g: "gp_chans (gs_proc ?g) = [[Broken err_canceled], [Answer (Result zero_fields None)]]" "gs_ids ?g = [0, 1]"
    by (simp_all add: guest_init_def new_process_def call_begin_def payload_limit_def guest_opcode_def read_round_def take_full_def
        reply_frame_def max_guest_frame_def hand_over_def put_reply_def process_abort_def guest_fail_def Let_def)
  show ?thesis using guest_calls_answered_once [OF refl, of "\<lambda>b. Inr (1, Result zero_fields None)"
      "[GStart 3 0 [97], GWrite 1 (Answers []), GRead (reply_frame [65]) err_eof, GAbort err_canceled]" 1] g
    by (simp add: Let_def)
qed

text \<open>
  C35. The guest receives whole request and stop frames, in the order in which they were written, never
  interleaved; a frame can be cut short only on a pipe that is closed and takes nothing afterwards.
\<close>

theorem guest_stream_is_whole_frames:
  assumes "g = foldl (guest_step decode) guest_init ops" and "length (gs_ids g) \<le> 2 ^ 32"
  shows "\<exists>fs rest. decode_seq parse_frame (length (gs_log g)) (gp_sent (gs_proc g)) = Some (fs, rest) \<and>
    map enc_frame fs = gs_log g \<and> (if gp_in_open (gs_proc g) then rest = [] else True)"
proof -
  have ok: "stream_ok (gs_log g) (gs_proc g)" "list_all is_frame (gs_log g)"
    using guest_run_ok [of decode ops] assms by (simp_all add: guest_ok_def)
  have "\<exists>fs. map enc_frame fs = xs \<and> list_all frame_ok fs" if "list_all is_frame xs" for xs
    using that
  proof (induction xs)
    case (Cons x xs)
    then obtain f fs where "map enc_frame fs = xs" "list_all frame_ok fs" "frame_ok f" "x = enc_frame f"
      by (auto simp: is_frame_def)
    then show ?case by (intro exI [of _ "f # fs"]) simp
  qed simp
  then obtain fs where fs: "map enc_frame fs = gs_log g" "list_all frame_ok fs" using ok(2) by blast
  obtain rest where rest: "gp_sent (gs_proc g) = concat (gs_log g) @ rest" "gp_in_open (gs_proc g) \<longrightarrow> rest = []"
    using ok(1) unfolding stream_ok_def by (metis append.right_neutral append_take_drop_id)
  have "length fs = length (gs_log g)" using fs(1) by (metis length_map)
  then show ?thesis using frame_codec.decode_seq_concat [OF fs(2), of rest] fs(1) rest
    by (intro exI [of _ fs] exI [of _ rest]) simp
qed

theorem guest_stream_is_whole_frames_witness:
  "(let g = foldl (guest_step (\<lambda>b. Inl err_canceled)) guest_init [GStart 3 0 [97], GStart 5 1 [98, 99], GWrite 2 (Answers []),
        GWrite 1 (CutOff 6 err_deadline)] in
      \<exists>fs rest. decode_seq parse_frame 1 (gp_sent (gs_proc g)) = Some (fs, rest) \<and> map enc_frame fs = [request_frame 5 2 1 [98, 99]])"
proof -
  let ?ops = "[GStart 3 0 [97], GStart 5 1 [98, 99], GWrite 2 (Answers []), GWrite 1 (CutOff 6 err_deadline)]"
  let ?g = "foldl (guest_step (\<lambda>b. Inl err_canceled)) guest_init ?ops"
  have g: "gs_log ?g = [request_frame 5 2 1 [98, 99]]" "gs_ids ?g = [0, 1, 2]"
    by (simp_all add: guest_init_def new_process_def call_begin_def payload_limit_def guest_opcode_def max_envelope_def
        request_frame_def process_abort_def guest_fail_def put_reply_def Let_def)
  show ?thesis using guest_stream_is_whole_frames [OF refl, of "\<lambda>b. Inl err_canceled" ?ops] g unfolding Let_def by auto
qed

text \<open>
  C36. A stop that reports no error was answered by an exit of the guest, an export that reports none
  also by an acknowledgement of version 1 and an exit without an error; no stop that began admits another
  call.
\<close>

theorem stop_reports_orderly_end:
  assumes "g = foldl (guest_step decode) guest_init ops" and "length (gs_ids g) \<le> 2 ^ 32"
    and "gs_stop g = Some (export, st)"
  shows "fst (call_begin op slot sql (gs_proc g)) =
      Inl (if payload_limit op < length sql then Sentinel ''guest request exceeds payload limit''
           else case gp_failure (gs_proc g) of Some e \<Rightarrow> e | None \<Rightarrow> Sentinel ''guest is stopping'') \<and>
    (case st of
       Stopped None \<Rightarrow> gp_done (gs_proc g) \<and>
         (if export
          then gp_exit (gs_proc g) = None \<and>
            list_ex (\<lambda>(i, r). i = 0 \<and> snapshot (body r) \<and> snapshot_version (body r) = 1) (gs_read g)
          else True)
     | _ \<Rightarrow> True)"
proof -
  have so: "stop_ok (gs_ids g) (set (gs_read g)) (gs_proc g) (Some (export, st))"
    using guest_run_ok [of decode ops] assms by (simp add: guest_ok_def)
  then have "gp_stopping (gs_proc g)" by (cases st) auto
  then have "fst (call_begin op slot sql (gs_proc g)) =
      Inl (if payload_limit op < length sql then Sentinel ''guest request exceeds payload limit''
           else case gp_failure (gs_proc g) of Some e \<Rightarrow> e | None \<Rightarrow> Sentinel ''guest is stopping'')"
    by (simp add: call_begin_def split: option.split)
  moreover have "list_ex (\<lambda>(i, r). i = 0 \<and> snapshot (body r) \<and> snapshot_version (body r) = 1) (gs_read g)"
    if "acked (set (gs_read g))" using that by (force simp: acked_def list_ex_iff)
  ultimately show ?thesis using so by (cases st) (auto split: option.split)
qed

theorem stop_reports_orderly_end_witness:
  "(let x = Result (zero_fields\<lparr>snapshot := True, snapshot_version := 1\<rparr>) None;
        g = foldl (guest_step (\<lambda>b. Inr (0, x))) guest_init [GRead (reply_frame [65]) err_eof, GStop True (Answers []),
          GRead (reply_frame [66]) err_eof, GResume None 0, GRead [] err_eof, GExit None, GResume None 0] in
      gs_stop g = Some (True, Stopped None) \<and> gp_done (gs_proc g) \<and>
      list_ex (\<lambda>(i, r). i = 0 \<and> snapshot (body r) \<and> snapshot_version (body r) = 1) (gs_read g))"
proof -
  let ?x = "Result (zero_fields\<lparr>snapshot := True, snapshot_version := 1\<rparr>) None"
  let ?ops = "[GRead (reply_frame [65]) err_eof, GStop True (Answers []),
          GRead (reply_frame [66]) err_eof, GResume None 0, GRead [] err_eof, GExit None, GResume None 0]"
  let ?g = "foldl (guest_step (\<lambda>b. Inr (0, ?x))) guest_init ?ops"
  let ?d = "\<lambda>b. Inr (0, ?x)"
  have r: "read_round ?d (reply_frame [b]) err_eof p = (Some ([], (0, ?x)), snd (hand_over 0 ?x p))"
    if "map_of (gp_pending p) 0 \<noteq> None" for p b
    using read_round_frame [of "[b]" ?d 0 ?x p _ "[]"] that by (auto simp: max_guest_frame_def)
  define p1 where "p1 = new_process\<lparr>gp_pending := [], gp_chans := [[Answer ?x]]\<rparr>"
  define g1 where "g1 = guest_init\<lparr>gs_proc := p1, gs_read := [(0, ?x)]\<rparr>"
  have 1: "guest_step ?d guest_init (GRead (reply_frame [65]) err_eof) = g1"
    by (simp add: guest_init_def r new_process_def hand_over_def put_reply_def g1_def p1_def)
  define p2 where "p2 = p1\<lparr>gp_pending := [(0, 1)], gp_chans := [[Answer ?x], []], gp_stopping := True, gp_in_open := False,
      gp_sent := enc_frame ExportFrame\<rparr>"
  define g2 where "g2 = g1\<lparr>gs_proc := p2, gs_ids := [0, 0], gs_stop := Some (True, AwaitSaved 1), gs_log := [enc_frame ExportFrame]\<rparr>"
  have 2: "guest_step ?d g1 (GStop True (Answers [])) = g2"
    by (simp add: g1_def g2_def p1_def p2_def stop_begin_def guest_init_def new_process_def enc_frame_def Let_def)
  define p3 where "p3 = p2\<lparr>gp_pending := [], gp_chans := [[Answer ?x], [Answer ?x]]\<rparr>"
  define g3 where "g3 = g2\<lparr>gs_proc := p3, gs_read := [(0, ?x), (0, ?x)]\<rparr>"
  have 3: "guest_step ?d g2 (GRead (reply_frame [66]) err_eof) = g3"
    by (simp add: g2_def g1_def g3_def r p2_def p3_def hand_over_def put_reply_def guest_init_def)
  have 4: "guest_step ?d g3 (GResume None 0) = g3\<lparr>gs_stop := Some (True, AwaitExit)\<rparr>"
    by (simp add: g3_def g2_def p3_def stop_saved_def)
  have 5: "guest_step ?d (g3\<lparr>gs_stop := Some (True, AwaitExit)\<rparr>) (GRead [] err_eof) =
      g3\<lparr>gs_stop := Some (True, AwaitExit), gs_proc := guest_fail err_eof p3, gs_reading := False\<rparr>"
    by (simp add: g3_def g2_def g1_def guest_init_def read_round_def take_full_def read_failed_def p3_def p2_def)
  define p4 where "p4 = guest_exits None (guest_fail err_eof p3)"
  have p3: "\<not> gp_done p3" "gp_exit p3 = None" by (simp_all add: p3_def p2_def p1_def new_process_def)
  have p4: "gp_done p4" "gp_exit p4 = None" by (simp_all add: p4_def guest_exits_def)
  have 6: "guest_step ?d (g3\<lparr>gs_stop := Some (True, AwaitExit), gs_proc := guest_fail err_eof p3, gs_reading := False\<rparr>) (GExit None) =
      g3\<lparr>gs_stop := Some (True, AwaitExit), gs_proc := p4, gs_reading := False\<rparr>"
    by (simp add: p3 p4_def)
  have g: "gs_stop ?g = Some (True, Stopped None)" "gs_ids ?g = [0, 0]"
    unfolding foldl.simps 1 2 3 4 5 6 by (simp_all add: p4 stop_exit_def) (simp_all add: g3_def g2_def)
  have l: "length (gs_ids ?g) \<le> 2 ^ 32" unfolding g(2) by simp
  from stop_reports_orderly_end [OF refl l g(1), of 3 0 "[]"]
  have "gp_done (gs_proc ?g)" "list_ex (\<lambda>(i, r). i = 0 \<and> snapshot (body r) \<and> snapshot_version (body r) = 1) (gs_read ?g)"
    by (simp_all only: stop_state.case option.case if_True)
  then show ?thesis unfolding Let_def using g(1) by blast
qed

text \<open>
  On a stream of well-formed reply frames whose identifiers are registered, the reader takes every
  message, hands each to its channel in order and ends with the end of the stream.
\<close>

lemma reader_delivers_in_order:
  assumes "list_all (\<lambda>(b, i, r). 0 < length b \<and> length b \<le> max_guest_frame \<and> decode b = Inr (i, r)) ms"
    and "distinct (map (\<lambda>(b, i, r). i) ms)"
    and "set (map (\<lambda>(b, i, r). i) ms) \<subseteq> fst ` set (gp_pending p)"
  shows "read_loop decode (concat (map (\<lambda>(b, _). reply_frame b) ms)) err_eof p =
    (map snd ms, read_failed err_eof (foldl (\<lambda>q (_, i, r). snd (hand_over i r q)) p ms))"
  using assms
proof (induction ms arbitrary: p)
  case Nil
  show ?case by (simp add: read_loop.simps [of decode "[]"] read_round_def take_full_def)
next
  case (Cons m ms)
  obtain b i r where m: "m = (b, i, r)" by (cases m)
  let ?q = "snd (hand_over i r p)"
  obtain ch where ch: "map_of (gp_pending p) i = Some ch" using Cons.prems(3) by (force simp: m map_of_eq_None_iff dest: not_None_eq [THEN iffD1])
  have round: "read_round decode (reply_frame b @ concat (map (\<lambda>(b, _). reply_frame b) ms)) err_eof p =
      (Some (concat (map (\<lambda>(b, _). reply_frame b) ms), (i, r)), ?q)"
    by (rule read_round_frame [OF _ _ _ ch]) (use Cons.prems(1) in \<open>simp_all add: m\<close>)
  have "fst ` set (gp_pending ?q) = fst ` set (gp_pending p) - {i}" using ch by (force simp: hand_over_def put_reply_def)
  moreover have "i \<notin> set (map (\<lambda>(b, i, r). i) ms)" "set (map (\<lambda>(b, i, r). i) ms) \<subseteq> fst ` set (gp_pending p)"
    using Cons.prems(2,3) by (simp_all add: m)
  ultimately have "set (map (\<lambda>(b, i, r). i) ms) \<subseteq> fst ` set (gp_pending ?q)"
    by (simp only: subset_Diff_insert Diff_empty simp_thms)
  then have "read_loop decode (concat (map (\<lambda>(b, _). reply_frame b) ms)) err_eof ?q =
      (map snd ms, read_failed err_eof (foldl (\<lambda>q (_, i, r). snd (hand_over i r q)) ?q ms))"
    using Cons.prems(1,2) by (intro Cons.IH) (simp_all add: m)
  then show ?case unfolding m by (subst read_loop.simps) (simp add: round)
qed

lemma reader_delivers_in_order_example:
  "fst (read_loop (\<lambda>b. Inr (if hd b = 2 then 2 else 1, Result zero_fields None)) (concat (map reply_frame [[2], [1, 9]])) err_eof
      (new_process\<lparr>gp_pending := [(1, 5), (2, 6)], gp_chans := [[], [], [], [], [], [], []]\<rparr>)) =
    [(2, Result zero_fields None), (1, Result zero_fields None)]"
proof -
  let ?ms = "[([2], 2, Result zero_fields None), ([1, 9], 1, Result zero_fields None)] :: (bytes \<times> u32 \<times> result) list"
  let ?p = "new_process\<lparr>gp_pending := [(1, 5), (2, 6)], gp_chans := [[], [], [], [], [], [], []]\<rparr>"
  let ?d = "\<lambda>b :: bytes. Inr (if hd b = 2 then 2 else 1 :: u32, Result zero_fields None) :: goerr + (u32 \<times> result)"
  have m: "map reply_frame [[2], [1, 9]] = map (\<lambda>(b, _). reply_frame b) ?ms" by simp
  have "read_loop ?d (concat (map (\<lambda>(b, _). reply_frame b) ?ms)) err_eof ?p =
      (map snd ?ms, read_failed err_eof (foldl (\<lambda>q (_, i, r). snd (hand_over i r q)) ?p ?ms))"
    by (rule reader_delivers_in_order [where ms = ?ms and p = ?p and decode = ?d]) (simp_all add: max_guest_frame_def)
  then show ?thesis unfolding m by (simp only: fst_conv list.map snd_conv)
qed

end
