(* ===== verification/SnapshotStore.thy ===== *)
theory SnapshotStore
  imports MemSnapshot Disposal
begin

text \<open>
  Cold snapshots and the baselines pinned from them (\<open>internal/snapshot\<close>): manifests and their check,
  the adoption of a directory under its manifest, the borrowing, closing and inheriting of an owned
  baseline and the files written for another process. The digest is the parameter \<open>sha\<close>, the hex text of
  SHA-256; what the host answers about a descriptor is a function, what it answers to the other system
  calls an argument. A Go map is an association list with distinct keys, in the order Go ranges over it.
\<close>

section \<open>Manifests\<close>

record snap_entry =
  en_kind :: string
  en_bytes :: "int option"
  en_sha :: string

record manifest =
  mf_format :: string
  mf_version :: int
  mf_wasm :: string
  mf_storage :: string
  mf_entries :: "(string \<times> snap_entry) list"

definition no_manifest :: manifest where
  "no_manifest = \<lparr>mf_format = [], mf_version = 0, mf_wasm = [], mf_storage = [], mf_entries = []\<rparr>"

definition new_manifest :: "string \<Rightarrow> (string \<times> snap_entry) list \<Rightarrow> manifest" where
  "new_manifest build es = \<lparr>mf_format = ''mariamem-cold-snapshot'', mf_version = 1, mf_wasm = build, mf_storage = ''memory'',
     mf_entries = es\<rparr>"

definition dir_entry :: snap_entry where
  "dir_entry = \<lparr>en_kind = ''directory'', en_bytes = None, en_sha = []\<rparr>"

definition file_entry :: "int \<Rightarrow> string \<Rightarrow> snap_entry" where
  "file_entry n digest = \<lparr>en_kind = ''file'', en_bytes = Some n, en_sha = digest\<rparr>"

definition check_kind :: "string \<Rightarrow> snap_entry \<Rightarrow> goerr option" where
  "check_kind name e =
     (if en_kind e = ''directory''
      then if en_bytes e \<noteq> None \<or> en_sha e \<noteq> [] then Some (Sentinel ''invalid directory entry'') else None
      else if en_kind e = ''file''
      then case (en_bytes e, hex_decode (en_sha e)) of
          (Some n, Some h) \<Rightarrow>
            if n < 0 \<or> length h \<noteq> 32 \<or> name = ''.'' then Some (Sentinel ''invalid file entry'') else None
        | _ \<Rightarrow> Some (Sentinel ''invalid file entry'')
      else Some (Sentinel ''invalid snapshot entry kind''))"

text \<open>The loop over the entries; the quoted name in the first message is left out.\<close>

fun check_entries :: "(string \<times> snap_entry) list \<Rightarrow> (string \<times> snap_entry) list \<Rightarrow> goerr option" where
  "check_entries all [] = None"
| "check_entries all ((name, e) # es) =
     (if name \<noteq> ''.'' \<and> (name = [] \<or> has_prefix name ''/'' \<or> path_clean name \<noteq> name \<or> name = ''..'' \<or> has_prefix name ''../'')
      then Some (Sentinel ''invalid snapshot entry'')
      else case check_kind name e of
        Some x \<Rightarrow> Some x
      | None \<Rightarrow>
          if name = ''.'' then check_entries all es
          else case map_of all (path_dir name) of
            None \<Rightarrow> Some (Sentinel ''missing snapshot parent directory'')
          | Some p \<Rightarrow>
              if en_kind p \<noteq> ''directory'' then Some (Sentinel ''missing snapshot parent directory'') else check_entries all es)"

definition check_manifest :: "manifest \<Rightarrow> string \<Rightarrow> goerr option" where
  "check_manifest m build =
     (if mf_format m \<noteq> ''mariamem-cold-snapshot'' \<or> mf_version m \<noteq> 1 \<or> mf_storage m \<noteq> ''memory'' \<or> mf_wasm m \<noteq> build
      then Some (Sentinel ''snapshot format or WASM build mismatch'')
      else case map_of (mf_entries m) ''.'' of
        None \<Rightarrow> Some (Sentinel ''missing snapshot data root'')
      | Some root \<Rightarrow>
          if en_kind root \<noteq> ''directory'' then Some (Sentinel ''missing snapshot data root'')
          else check_entries (mf_entries m) (mf_entries m))"

section \<open>Independent checks\<close>

text \<open>
  \<open>VerifyIndependent\<close>: two workers, each with every second index, write the errors of their checks into
  places of their own; the first error in input order is the answer.
\<close>

function stride :: "nat \<Rightarrow> nat \<Rightarrow> nat \<Rightarrow> (nat \<Rightarrow> goerr option) \<Rightarrow> goerr option list \<Rightarrow> goerr option list" where
  "stride i step count check errs =
     (if step = 0 \<or> count \<le> i then errs else stride (i + step) step count check (errs[i := check i]))"
  by pat_completeness auto

termination by (relation "measure (\<lambda>(i, step, count, _). count - i)") auto

declare stride.simps [simp del]

fun first_error :: "goerr option list \<Rightarrow> goerr option" where
  "first_error [] = None"
| "first_error (e # es) = (case e of Some x \<Rightarrow> Some x | None \<Rightarrow> first_error es)"

definition verify_independent :: "nat \<Rightarrow> (nat \<Rightarrow> goerr option) \<Rightarrow> goerr option" where
  "verify_independent count check =
     (let workers = min 2 count in
      first_error (foldl (\<lambda>errs w. stride w workers count check errs) (replicate count None) [0..<workers]))"

section \<open>Owned baselines\<close>

text \<open>What the host says of an open descriptor.\<close>

record descriptor =
  fd_regular :: bool
  fd_bytes :: int
  fd_links :: nat
  fd_readonly :: bool
  fd_content :: bytes

record owned =
  ow_heap :: "heap option"
  ow_root :: "root option"
  ow_manifest :: manifest
  ow_entries :: "prepared_entry list"
  ow_files :: "int list"
  ow_closed :: bool
  ow_close_err :: "goerr option"

definition no_owned :: owned where
  "no_owned = \<lparr>ow_heap = None, ow_root = None, ow_manifest = no_manifest, ow_entries = [], ow_files = [],
     ow_closed = False, ow_close_err = None\<rparr>"

definition own_heap :: "(bytes \<Rightarrow> string) \<Rightarrow> memory \<Rightarrow> heap \<Rightarrow> string \<Rightarrow> goerr + owned" where
  "own_heap sha m h build =
     (case heap_verify sha m (Some h) build of Some e \<Rightarrow> Inl e | None \<Rightarrow> Inr (no_owned\<lparr>ow_heap := Some h\<rparr>))"

definition own_checked_root :: "memory \<Rightarrow> root \<Rightarrow> string \<Rightarrow> goerr + owned" where
  "own_checked_root m r build =
     (case root_check m r build of Some e \<Rightarrow> Inl e | None \<Rightarrow> Inr (no_owned\<lparr>ow_root := Some r\<rparr>))"

text \<open>\<open>Close\<close> of the descriptors is answered by \<open>closes\<close>, every descriptor once.\<close>

definition close_owned :: "(int \<Rightarrow> goerr option) \<Rightarrow> owned \<Rightarrow> goerr option \<times> int list \<times> owned" where
  "close_owned closes ob =
     (if ow_closed ob then (ow_close_err ob, [], ob)
      else
        (let e = foldl (\<lambda>acc fd. err_join [acc, closes fd]) (ow_close_err ob) (ow_files ob) in
         (e, ow_files ob, ob\<lparr>ow_closed := True, ow_heap := None, ow_root := None, ow_close_err := e, ow_files := [], ow_entries := []\<rparr>)))"

definition dir_prepared :: "string \<Rightarrow> prepared_entry" where
  "dir_prepared n = \<lparr>e_name = n, e_directory = True, e_fd = -1, e_size = 0, e_root = None, e_heap = None\<rparr>"

definition file_prepared :: "string \<Rightarrow> int \<Rightarrow> int \<Rightarrow> prepared_entry" where
  "file_prepared n sz fd = \<lparr>e_name = n, e_directory = False, e_fd = fd, e_size = sz, e_root = None, e_heap = None\<rparr>"

text \<open>\<open>Acquire\<close>: the metadata of every file of an imported template, then the borrowed entries.\<close>

fun check_backing :: "(int \<Rightarrow> goerr + descriptor) \<Rightarrow> int list \<Rightarrow> prepared_entry list \<Rightarrow> goerr option" where
  "check_backing fstat files [] = None"
| "check_backing fstat files (v # vs) =
     (if e_directory v then check_backing fstat files vs
      else if e_fd v \<notin> set files then Some (Sentinel ''missing owned descriptor'')
      else case fstat (e_fd v) of
        Inl e \<Rightarrow> Some e
      | Inr st \<Rightarrow>
          if \<not> fd_regular st \<or> fd_bytes st \<noteq> e_size v \<or> fd_links st \<noteq> 0
          then Some (Sentinel ''owned snapshot metadata changed'')
          else check_backing fstat files vs)"

definition borrowed_root :: "root \<Rightarrow> prepared_entry" where
  "borrowed_root r = \<lparr>e_name = [], e_directory = False, e_fd = 0, e_size = 0, e_root = Some r, e_heap = None\<rparr>"

definition borrowed_heap :: "heap \<Rightarrow> prepared_entry" where
  "borrowed_heap h = \<lparr>e_name = [], e_directory = False, e_fd = 0, e_size = 0, e_root = None, e_heap = Some h\<rparr>"

definition acquire_owned :: "memory \<Rightarrow> (int \<Rightarrow> goerr + descriptor) \<Rightarrow> string \<Rightarrow> owned \<Rightarrow> goerr + prepared_entry list" where
  "acquire_owned m fstat build ob =
     (if ow_closed ob then Inl (Sentinel ''snapshot is closed'')
      else case ow_root ob of
        Some r \<Rightarrow> (case root_check m r build of Some e \<Rightarrow> Inl e | None \<Rightarrow> Inr [borrowed_root r])
      | None \<Rightarrow>
          (case ow_heap ob of
             Some h \<Rightarrow> (case heap_check (Some h) build of Some e \<Rightarrow> Inl e | None \<Rightarrow> Inr [borrowed_heap h])
           | None \<Rightarrow>
               (case check_manifest (ow_manifest ob) build of
                  Some e \<Rightarrow> Inl e
                | None \<Rightarrow>
                    (case check_backing fstat (ow_files ob) (ow_entries ob) of
                       Some e \<Rightarrow> Inl e
                     | None \<Rightarrow> Inr (ow_entries ob)))))"

text \<open>
  The lock: borrowers share it from \<open>Acquire\<close> to the release they are given; \<open>Close\<close> waits until nobody
  borrows. \<open>None\<close> is still waiting.
\<close>

record shared =
  sh_owned :: owned
  sh_borrows :: nat

definition shared_acquire :: "memory \<Rightarrow> (int \<Rightarrow> goerr + descriptor) \<Rightarrow> string \<Rightarrow> shared \<Rightarrow> (goerr + prepared_entry list) \<times> shared" where
  "shared_acquire m fstat build s =
     (case acquire_owned m fstat build (sh_owned s) of
        Inl e \<Rightarrow> (Inl e, s)
      | Inr es \<Rightarrow> (Inr es, s\<lparr>sh_borrows := Suc (sh_borrows s)\<rparr>))"

definition shared_release :: "shared \<Rightarrow> shared" where
  "shared_release s = s\<lparr>sh_borrows := sh_borrows s - 1\<rparr>"

definition shared_close :: "(int \<Rightarrow> goerr option) \<Rightarrow> shared \<Rightarrow> (goerr option \<times> int list \<times> shared) option" where
  "shared_close closes s =
     (if sh_borrows s \<noteq> 0 then None
      else case close_owned closes (sh_owned s) of (e, closed, ob) \<Rightarrow> Some (e, closed, s\<lparr>sh_owned := ob\<rparr>))"

end
