(* ===== verification/SnapshotTransfer.thy ===== *)
theory SnapshotTransfer
  imports SnapshotStore
begin

text \<open>
  Baselines that cross a process or a directory (\<open>internal/snapshot\<close>): inherited descriptors, the
  adoption and import of a directory, and the two handoffs that write one.
\<close>

section \<open>Inherited descriptors\<close>

text \<open>
  \<open>ReceiveInherited\<close> takes every acceptable descriptor of the message first, so that a refusal closes them
  all. The first loop keeps the descriptors by name, the numbers seen and whether something was malformed;
  a later descriptor of the same name replaces the earlier one, and a later complaint the earlier one.
\<close>

record inheriting =
  ih_files :: "int list"
  ih_names :: "(string \<times> int) list"
  ih_malformed :: "goerr option"

fun take_descriptors :: "(string \<times> int) list \<Rightarrow> inheriting \<Rightarrow> inheriting" where
  "take_descriptors [] x = x"
| "take_descriptors ((name, fd) # vs) x =
     (if fd < 3 \<or> fd \<in> set (ih_files x)
      then take_descriptors vs (x\<lparr>ih_malformed := Some (Sentinel ''invalid inherited descriptor'')\<rparr>)
      else take_descriptors vs
        \<lparr>ih_files = ih_files x @ [fd], ih_names = AList.update name fd (ih_names x),
         ih_malformed = (if map_of (ih_names x) name \<noteq> None then Some (Sentinel ''duplicate inherited name'') else ih_malformed x)\<rparr>)"

text \<open>The loop over the sorted names; the names still unused are threaded through.\<close>

fun match_entries ::
  "(int \<Rightarrow> goerr + descriptor) \<Rightarrow> (string \<times> snap_entry) list \<Rightarrow> string list \<Rightarrow> (string \<times> int) list \<Rightarrow> prepared_entry list
     \<Rightarrow> goerr + (prepared_entry list \<times> (string \<times> int) list)" where
  "match_entries fstat es [] left acc = Inr (acc, left)"
| "match_entries fstat es (name # names) left acc =
     (let e = the (map_of es name) in
      if en_kind e = ''directory'' then match_entries fstat es names left (acc @ [dir_prepared name])
      else case map_of left name of
        None \<Rightarrow> Inl (Sentinel ''missing inherited file'')
      | Some fd \<Rightarrow>
          (case fstat fd of
             Inl x \<Rightarrow> Inl x
           | Inr st \<Rightarrow>
               if \<not> fd_readonly st \<or> \<not> fd_regular st \<or> fd_bytes st \<noteq> the (en_bytes e) \<or> fd_links st \<noteq> 0
               then Inl (Sentinel ''inherited backing is not owned read-only state'')
               else match_entries fstat es names (AList.delete name left) (acc @ [file_prepared name (the (en_bytes e)) fd])))"

definition refuse :: "(int \<Rightarrow> goerr option) \<Rightarrow> goerr \<Rightarrow> owned \<Rightarrow> (goerr option + owned) \<times> int list" where
  "refuse closes e ob = (case close_owned closes ob of (ce, closed, _) \<Rightarrow> (Inl (err_join [Some e, ce]), closed))"

text \<open>The result, and which descriptors were closed.\<close>

definition receive_inherited ::
  "(int \<Rightarrow> goerr + descriptor) \<Rightarrow> (int \<Rightarrow> goerr option) \<Rightarrow> manifest \<Rightarrow> (string \<times> int) list \<Rightarrow> string \<Rightarrow> (goerr option + owned) \<times> int list" where
  "receive_inherited fstat closes mf files build =
     (let x = take_descriptors files \<lparr>ih_files = [], ih_names = [], ih_malformed = None\<rparr>;
          ob = no_owned\<lparr>ow_manifest := mf, ow_files := ih_files x\<rparr> in
      case ih_malformed x of
        Some e \<Rightarrow> refuse closes e ob
      | None \<Rightarrow>
          (case check_manifest mf build of
             Some e \<Rightarrow> refuse closes e ob
           | None \<Rightarrow>
               (case match_entries fstat (mf_entries mf) (sort (map fst (mf_entries mf))) (ih_names x) [] of
                  Inl e \<Rightarrow> refuse closes e ob
                | Inr (es, left) \<Rightarrow>
                    if left \<noteq> [] then refuse closes (Sentinel ''extra inherited files'') ob
                    else (Inr (ob\<lparr>ow_entries := es\<rparr>), []))))"

section \<open>Adoption\<close>

text \<open>What the walk of a directory meets at a name: a directory, a file opened as a descriptor, something else, an error.\<close>

datatype dir_item = WalkDir | WalkFile int | WalkOther | WalkFails goerr

record adopting =
  ad_actual :: "(string \<times> snap_entry) list"
  ad_owned :: owned

fun adopt_walk :: "(int \<Rightarrow> goerr + descriptor) \<Rightarrow> (string \<times> dir_item) list \<Rightarrow> adopting \<Rightarrow> goerr option \<times> adopting" where
  "adopt_walk fstat [] a = (None, a)"
| "adopt_walk fstat ((name, x) # xs) a =
     (case x of
        WalkFails e \<Rightarrow> (Some e, a)
      | WalkOther \<Rightarrow> (Some (Sentinel ''snapshot contains link or special file''), a)
      | WalkDir \<Rightarrow>
          adopt_walk fstat xs
            \<lparr>ad_actual = AList.update name dir_entry (ad_actual a),
             ad_owned = (ad_owned a)\<lparr>ow_entries := ow_entries (ad_owned a) @ [dir_prepared name]\<rparr>\<rparr>
      | WalkFile fd \<Rightarrow>
          (let ob = (ad_owned a)\<lparr>ow_files := ow_files (ad_owned a) @ [fd]\<rparr> in
           case fstat fd of
             Inl e \<Rightarrow> (Some e, a\<lparr>ad_owned := ob\<rparr>)
           | Inr st \<Rightarrow>
               if \<not> fd_regular st then (Some (Sentinel ''snapshot backing is not regular''), a\<lparr>ad_owned := ob\<rparr>)
               else adopt_walk fstat xs
                 \<lparr>ad_actual = AList.update name \<lparr>en_kind = ''file'', en_bytes = Some (fd_bytes st), en_sha = []\<rparr> (ad_actual a),
                  ad_owned = ob\<lparr>ow_entries := ow_entries ob @ [file_prepared name (fd_bytes st) fd]\<rparr>\<rparr>))"

text \<open>The check of one retained file, after its names are removed: no link is left, and all its bytes are read.\<close>

definition verify_entry :: "(int \<Rightarrow> goerr + descriptor) \<Rightarrow> int list \<Rightarrow> prepared_entry \<Rightarrow> goerr option" where
  "verify_entry unlinked files v =
     (if e_directory v then None
      else if e_fd v \<notin> set files then Some (Sentinel ''missing owned descriptor'')
      else case unlinked (e_fd v) of
        Inl e \<Rightarrow> Some e
      | Inr st \<Rightarrow>
          if fd_links st \<noteq> 0 then Some (Sentinel ''owned backing retains path aliases'')
          else if length (fd_content st) < nat (e_size v) then Some (Sentinel ''unexpected EOF'') else None)"

definition entry_digest :: "(bytes \<Rightarrow> string) \<Rightarrow> (int \<Rightarrow> goerr + descriptor) \<Rightarrow> prepared_entry \<Rightarrow> string" where
  "entry_digest sha unlinked v =
     (case unlinked (e_fd v) of Inr st \<Rightarrow> sha (take (nat (e_size v)) (fd_content st)) | Inl _ \<Rightarrow> [])"

fun add_digests :: "(prepared_entry \<Rightarrow> string) \<Rightarrow> prepared_entry list \<Rightarrow> (string \<times> snap_entry) list \<Rightarrow> (string \<times> snap_entry) list" where
  "add_digests digest [] actual = actual"
| "add_digests digest (v # vs) actual =
     (if e_directory v then add_digests digest vs actual
      else case map_of actual (e_name v) of
        None \<Rightarrow> add_digests digest vs (AList.update (e_name v) \<lparr>en_kind = [], en_bytes = None, en_sha = digest v\<rparr> actual)
      | Some e \<Rightarrow> add_digests digest vs (AList.update (e_name v) (e\<lparr>en_sha := digest v\<rparr>) actual))"

definition same_map :: "(string \<times> 'v) list \<Rightarrow> (string \<times> 'v) list \<Rightarrow> bool" where
  "same_map a b \<longleftrightarrow> list_all (\<lambda>k. map_of a k = map_of b k) (map fst a @ map fst b)"

text \<open>
  \<open>adopt\<close>: \<open>fstat\<close> answers while the files have names, \<open>unlinked\<close> after \<open>removal\<close> took them.
\<close>

definition adopt ::
  "(bytes \<Rightarrow> string) \<Rightarrow> (int \<Rightarrow> goerr + descriptor) \<Rightarrow> (int \<Rightarrow> goerr + descriptor) \<Rightarrow> goerr option \<Rightarrow> (int \<Rightarrow> goerr option)
     \<Rightarrow> (string \<times> dir_item) list \<Rightarrow> manifest \<Rightarrow> (goerr option + owned) \<times> int list" where
  "adopt sha fstat unlinked removal closes items mf =
     (case adopt_walk fstat items \<lparr>ad_actual = [], ad_owned = no_owned\<lparr>ow_manifest := mf\<rparr>\<rparr> of
        (Some e, a) \<Rightarrow> refuse closes e (ad_owned a)
      | (None, a) \<Rightarrow>
          (let ob = ad_owned a; vs = ow_entries ob in
           case removal of
             Some e \<Rightarrow> refuse closes e ob
           | None \<Rightarrow>
               (case verify_independent (length vs) (\<lambda>i. verify_entry unlinked (ow_files ob) (vs ! i)) of
                  Some e \<Rightarrow> refuse closes e ob
                | None \<Rightarrow>
                    if \<not> same_map (add_digests (entry_digest sha unlinked) vs (ad_actual a)) (mf_entries mf)
                    then refuse closes (Sentinel ''snapshot file manifest mismatch'') ob
                    else (Inr ob, []))))"

text \<open>\<open>readManifest\<close>: what \<open>Lstat\<close> says of the two paths, the children, the decoded manifest.\<close>

definition read_manifest :: "goerr + bool \<Rightarrow> goerr + bool \<Rightarrow> goerr + string list \<Rightarrow> goerr + manifest \<Rightarrow> string \<Rightarrow> goerr + manifest" where
  "read_manifest root_dir manifest_regular children decoded build =
     (case root_dir of
        Inl e \<Rightarrow> Inl e
      | Inr False \<Rightarrow> Inl (Sentinel ''invalid snapshot root or manifest'')
      | Inr True \<Rightarrow>
          (case manifest_regular of
             Inl e \<Rightarrow> Inl e
           | Inr False \<Rightarrow> Inl (Sentinel ''invalid snapshot root or manifest'')
           | Inr True \<Rightarrow>
               (case children of
                  Inl e \<Rightarrow> Inl e
                | Inr cs \<Rightarrow>
                    if cs \<noteq> [''data'', ''manifest.json''] then Inl (Sentinel ''snapshot must contain only data and manifest.json'')
                    else case decoded of
                      Inl e \<Rightarrow> Inl e
                    | Inr m \<Rightarrow> (case check_manifest m build of Some e \<Rightarrow> Inl e | None \<Rightarrow> Inr m))))"

section \<open>Handoff\<close>

text \<open>
  \<open>io.Copy\<close> of a section: reads of 32 KiB at increasing offsets until the end of the section or of the
  file; \<open>rd\<close> is \<open>ReadAt\<close>.
\<close>

function copy_section :: "(nat \<Rightarrow> int \<Rightarrow> bytes \<times> goerr option) \<Rightarrow> nat \<Rightarrow> nat \<Rightarrow> goerr option \<times> bytes" where
  "copy_section rd n off =
     (if n \<le> off then (None, [])
      else
        let k = min 32768 (n - off) in
        case rd k (int off) of
          (b, None) \<Rightarrow> (case copy_section rd n (off + k) of (e, t) \<Rightarrow> (e, b @ t))
        | (b, Some e) \<Rightarrow> (if e = err_eof then None else Some e, b))"
  by pat_completeness auto

termination by (relation "measure (\<lambda>(rd, n, off). n - off)") auto

declare copy_section.simps [simp del]

text \<open>
  The directories and the files of a handoff; \<open>io\<close> answers making a directory or creating, filling and
  closing a file. What was written is the second component.
\<close>

fun write_dirs :: "(string \<Rightarrow> goerr option) \<Rightarrow> string list \<Rightarrow> goerr option" where
  "write_dirs io [] = None"
| "write_dirs io (n # ns) = (case io n of Some e \<Rightarrow> Some e | None \<Rightarrow> write_dirs io ns)"

fun write_files ::
  "(string \<Rightarrow> goerr option) \<Rightarrow> (string \<Rightarrow> goerr option \<times> bytes) \<Rightarrow> string list \<Rightarrow> goerr + (string \<times> bytes) list" where
  "write_files io copied [] = Inr []"
| "write_files io copied (n # ns) =
     (case io n of
        Some e \<Rightarrow> Inl e
      | None \<Rightarrow>
          (case copied n of
             (Some e, _) \<Rightarrow> Inl e
           | (None, b) \<Rightarrow> (case write_files io copied ns of Inl e \<Rightarrow> Inl e | Inr fs \<Rightarrow> Inr ((n, b) # fs))))"

record written =
  wr_manifest :: manifest
  wr_dirs :: "string list"
  wr_files :: "(string \<times> bytes) list"

text \<open>\<open>handoffRoot\<close>: the digests are those of the bytes written; a failure removes the destination.\<close>

definition handoff_root ::
  "(bytes \<Rightarrow> string) \<Rightarrow> memory \<Rightarrow> root \<Rightarrow> string \<Rightarrow> goerr option \<Rightarrow> (string \<Rightarrow> goerr option) \<Rightarrow> goerr option \<Rightarrow> goerr + written" where
  "handoff_root sha m r build made io stored =
     (case root_check m r build of
        Some e \<Rightarrow> Inl e
      | None \<Rightarrow>
          (case made of
             Some e \<Rightarrow> Inl e
           | None \<Rightarrow>
               (case write_dirs io (r_dirs r) of
                  Some e \<Rightarrow> Inl e
                | None \<Rightarrow>
                    (case write_files io
                        (\<lambda>n. let z = the (map_of (r_files r) n) in copy_section (frozen_read m z) (f_size (z_data z)) 0)
                        (sorted_names (r_files r)) of
                       Inl e \<Rightarrow> Inl e
                     | Inr fs \<Rightarrow>
                         (case stored of
                            Some e \<Rightarrow> Inl e
                          | None \<Rightarrow>
                              Inr \<lparr>wr_manifest = new_manifest build
                                     (map (\<lambda>n. (n, dir_entry)) (r_dirs r) @
                                      map (\<lambda>(n, b). (n, file_entry (int (f_size (z_data (the (map_of (r_files r) n))))) (sha b))) fs),
                                   wr_dirs = r_dirs r, wr_files = fs\<rparr>)))))"

text \<open>\<open>Handoff\<close> of a baseline: a root as above, a heap with the digests it carries.\<close>

definition handoff_heap ::
  "memory \<Rightarrow> heap \<Rightarrow> string \<Rightarrow> goerr option \<Rightarrow> (string \<Rightarrow> goerr option) \<Rightarrow> goerr option \<Rightarrow> goerr + written" where
  "handoff_heap m h build made io stored =
     (case heap_check (Some h) build of
        Some e \<Rightarrow> Inl e
      | None \<Rightarrow>
          (case made of
             Some e \<Rightarrow> Inl e
           | None \<Rightarrow>
               (case write_dirs io (hp_dirs h) of
                  Some e \<Rightarrow> Inl e
                | None \<Rightarrow>
                    (case write_files io
                        (\<lambda>n. let f = the (the (map_of (hp_files h) n)) in copy_section (heap_read m f) (h_size f) 0)
                        (sorted_names (hp_files h)) of
                       Inl e \<Rightarrow> Inl e
                     | Inr fs \<Rightarrow>
                         (case stored of
                            Some e \<Rightarrow> Inl e
                          | None \<Rightarrow>
                              Inr \<lparr>wr_manifest = new_manifest build
                                     (map (\<lambda>n. (n, dir_entry)) (hp_dirs h) @
                                      map (\<lambda>(n, b). let f = the (the (map_of (hp_files h) n)) in
                                        (n, file_entry (int (h_size f)) (h_digest f))) fs),
                                   wr_dirs = hp_dirs h, wr_files = fs\<rparr>)))))"

definition handoff ::
  "(bytes \<Rightarrow> string) \<Rightarrow> memory \<Rightarrow> owned \<Rightarrow> string \<Rightarrow> goerr option \<Rightarrow> (string \<Rightarrow> goerr option) \<Rightarrow> goerr option \<Rightarrow> goerr + written" where
  "handoff sha m ob build made io stored =
     (case (ow_closed ob, ow_root ob, ow_heap ob) of
        (False, Some r, _) \<Rightarrow> handoff_root sha m r build made io stored
      | (False, None, Some h) \<Rightarrow> handoff_heap m h build made io stored
      | _ \<Rightarrow> Inl (Sentinel ''handoff requires a live heap baseline''))"

end
