(* ===== verification/SnapshotProperties.thy ===== *)
theory SnapshotProperties
  imports SnapshotTransfer RootProperties
begin

text \<open>
  The properties of cold snapshots: which manifests pass, that what a baseline hands off comes back when
  it is adopted, that inherited descriptors are matched exactly and never leak, and that a borrowed
  baseline stays open.
\<close>

section \<open>The check of a manifest\<close>

definition dirs_of :: "(string \<times> snap_entry) list \<Rightarrow> string list" where
  "dirs_of es = map fst (filter (\<lambda>(_, e). en_kind e = ''directory'') es)"

definition files_of :: "(string \<times> snap_entry) list \<Rightarrow> string list" where
  "files_of es = map fst (filter (\<lambda>(_, e). en_kind e \<noteq> ''directory'') es)"

lemma valid_name_dot: "valid_name ''.''"
  by code_simp

lemma check_entries_None:
  "check_entries all es = None \<longleftrightarrow>
     (\<forall>(n, e)\<in>set es. valid_name n \<and> check_kind n e = None \<and>
        (n = ''.'' \<or> (\<exists>p. map_of all (path_dir n) = Some p \<and> en_kind p = ''directory'')))"
proof (induction es)
  case (Cons x es)
  obtain n e where x: "x = (n, e)" by (cases x)
  have v: "(n \<noteq> ''.'' \<and> (n = [] \<or> has_prefix n ''/'' \<or> path_clean n \<noteq> n \<or> n = ''..'' \<or> has_prefix n ''../'')) = (\<not> valid_name n)"
    using valid_name_dot by (auto simp: valid_name_def)
  show ?case unfolding x check_entries.simps v using Cons.IH
    by (cases "check_kind n e"; cases "map_of all (path_dir n)") auto
qed simp

lemma dirs_of_iff: "n \<in> set (dirs_of es) \<longleftrightarrow> (\<exists>e. (n, e) \<in> set es \<and> en_kind e = ''directory'')"
  by (force simp: dirs_of_def)

lemma files_of_iff: "n \<in> set (files_of es) \<longleftrightarrow> (\<exists>e. (n, e) \<in> set es \<and> en_kind e \<noteq> ''directory'')"
  by (force simp: files_of_def)

lemma dirs_of_lookup:
  "distinct (map fst es) \<Longrightarrow> n \<in> set (dirs_of es) \<longleftrightarrow> (\<exists>p. map_of es n = Some p \<and> en_kind p = ''directory'')"
  by (auto simp: dirs_of_iff map_of_eq_Some_iff)

lemma dirs_files_disjoint: "distinct (map fst es) \<Longrightarrow> n \<in> set (files_of es) \<Longrightarrow> n \<notin> set (dirs_of es)"
  by (auto simp: dirs_of_iff files_of_iff dest: eq_key_imp_eq_value)

text \<open>What the shape of an entry must be.\<close>

definition entry_shape :: "string \<Rightarrow> snap_entry \<Rightarrow> bool" where
  "entry_shape n e \<longleftrightarrow> e = dir_entry \<or>
     (\<exists>k digest h. e = file_entry (int k) digest \<and> hex_decode digest = Some h \<and> length h = 32 \<and> n \<noteq> ''.'')"

lemma check_kind_None: "check_kind n e = None \<longleftrightarrow> entry_shape n e"
proof
  assume "check_kind n e = None"
  then show "entry_shape n e"
    by (cases e) (auto simp: check_kind_def entry_shape_def dir_entry_def file_entry_def not_less split: if_splits option.splits
        dest!: zero_le_imp_eq_int)
next
  assume "entry_shape n e"
  then show "check_kind n e = None" by (auto simp: check_kind_def entry_shape_def dir_entry_def file_entry_def)
qed

lemma check_names_None:
  "check_names msgs dirs files = None \<longleftrightarrow>
     distinct dirs \<and> ''.'' \<in> set dirs \<and> (\<forall>n\<in>set dirs. valid_name n \<and> (n = ''.'' \<or> path_dir n \<in> set dirs)) \<and>
     (\<forall>(n, present)\<in>set files. valid_name n \<and> n \<notin> set dirs \<and> path_dir n \<in> set dirs \<and> present)"
proof -
  obtain a b c d where m: "msgs = (a, b, c, d)" by (cases msgs) auto
  show ?thesis unfolding m check_names_def by (auto simp: check_dirs_result split: if_splits)
qed

lemma check_manifest_None:
  assumes d: "distinct (map fst (mf_entries mf))"
  shows "check_manifest mf build = None \<longleftrightarrow>
     mf = new_manifest build (mf_entries mf) \<and> (\<forall>(n, e)\<in>set (mf_entries mf). entry_shape n e) \<and>
     check_root_names (dirs_of (mf_entries mf)) (map (\<lambda>n. (n, Some ())) (files_of (mf_entries mf))) = None"
proof -
  let ?es = "mf_entries mf"
  have lookup: "(\<exists>p. map_of ?es k = Some p \<and> en_kind p = ''directory'') \<longleftrightarrow> k \<in> set (dirs_of ?es)" for k
    using dirs_of_lookup [OF d] by simp
  have dd: "distinct (dirs_of ?es)" unfolding dirs_of_def using d by (rule distinct_map_filter)
  have dot: "n \<noteq> ''.''" if "n \<in> set (files_of ?es)" "entry_shape n e" "(n, e) \<in> set ?es" for n e
    using that by (auto simp: entry_shape_def dir_entry_def files_of_iff dest: eq_key_imp_eq_value [OF d])
  have entries: "(\<forall>(n, e)\<in>set ?es. P n) \<longleftrightarrow> (\<forall>n\<in>set (dirs_of ?es). P n) \<and> (\<forall>n\<in>set (files_of ?es). P n)" for P
  proof -
    have "fst ` set ?es = set (dirs_of ?es) \<union> set (files_of ?es)" by (force simp: dirs_of_iff files_of_iff)
    then show ?thesis by (simp add: ball_Un case_prod_unfold flip: ball_simps(9))
  qed
  have names: "check_root_names (dirs_of ?es) (map (\<lambda>n. (n, Some ())) (files_of ?es)) = None \<longleftrightarrow>
      ''.'' \<in> set (dirs_of ?es) \<and> (\<forall>n\<in>set (dirs_of ?es). valid_name n \<and> (n = ''.'' \<or> path_dir n \<in> set (dirs_of ?es))) \<and>
      (\<forall>n\<in>set (files_of ?es). valid_name n \<and> path_dir n \<in> set (dirs_of ?es))"
    using dd dirs_files_disjoint [OF d] by (auto simp: check_root_names_def check_names_None)
  have header: "check_manifest mf build = None \<longleftrightarrow>
      mf = new_manifest build ?es \<and> ''.'' \<in> set (dirs_of ?es) \<and> check_entries ?es ?es = None"
    unfolding lookup [symmetric] by (cases mf) (auto simp: check_manifest_def new_manifest_def split: option.splits if_splits)
  have "check_entries ?es ?es = None \<longleftrightarrow> (\<forall>(n, e)\<in>set ?es. entry_shape n e) \<and>
      (\<forall>(n, e)\<in>set ?es. valid_name n \<and> (n = ''.'' \<or> path_dir n \<in> set (dirs_of ?es)))"
    unfolding check_entries_None check_kind_None lookup by blast
  also have "\<dots> \<longleftrightarrow> (\<forall>(n, e)\<in>set ?es. entry_shape n e) \<and>
      (\<forall>n\<in>set (dirs_of ?es). valid_name n \<and> (n = ''.'' \<or> path_dir n \<in> set (dirs_of ?es))) \<and>
      (\<forall>n\<in>set (files_of ?es). valid_name n \<and> path_dir n \<in> set (dirs_of ?es))"
    unfolding entries
  proof (rule conj_cong [OF refl], rule conj_cong [OF refl], rule ball_cong [OF refl])
    fix n assume shapes: "\<forall>(n, e)\<in>set ?es. entry_shape n e" and n: "n \<in> set (files_of ?es)"
    obtain e where "(n, e) \<in> set ?es" using n files_of_iff by blast
    then have "n \<noteq> ''.''" using shapes dot [OF n] by blast
    then show "(valid_name n \<and> (n = ''.'' \<or> path_dir n \<in> set (dirs_of ?es))) = (valid_name n \<and> path_dir n \<in> set (dirs_of ?es))"
      by simp
  qed
  finally show ?thesis unfolding header names by (simp only: conj_assoc conj_left_commute conj_commute)
qed

section \<open>Independent checks\<close>

lemma stride_length [simp]: "length (stride i step count check errs) = length errs"
  by (induction i step count check errs rule: stride.induct) (subst stride.simps, simp)

text \<open>A worker fills its own places, from its first index on.\<close>

lemma stride_nth:
  "j < length errs \<Longrightarrow> length errs = count \<Longrightarrow> 0 < step \<Longrightarrow>
     stride i step count check errs ! j = (if i \<le> j \<and> (j - i) mod step = 0 then check j else errs ! j)"
proof (induction i step count check errs rule: stride.induct)
  case (1 i step count check errs)
  show ?case
  proof (cases "count \<le> i")
    case True
    then show ?thesis using "1.prems" by (subst stride.simps) simp
  next
    case False
    have IH: "stride (i + step) step count check (errs[i := check i]) ! j =
        (if i + step \<le> j \<and> (j - (i + step)) mod step = 0 then check j else errs[i := check i] ! j)"
      using "1.IH" "1.prems" False by simp
    have m: "(j - i) mod step = 0 \<longleftrightarrow> j = i \<or> i + step \<le> j \<and> (j - (i + step)) mod step = 0" if "i \<le> j"
    proof (cases "i + step \<le> j")
      case True
      then show ?thesis by (metis diff_diff_left le_add_diff_inverse2 le_mod_geq nat_le_linear diff_le_mono add_diff_cancel_left' "1.prems"(3) not_add_less1 add_leD2)
    next
      case False
      then have "j - i < step" using that by simp
      then show ?thesis using that False by auto
    qed
    show ?thesis using False "1.prems" IH m by (subst stride.simps) (auto simp: nth_list_update)
  qed
qed

lemma verify_independent_eq: "verify_independent count check = first_error (map check [0..<count])"
proof -
  let ?w = "min 2 count"
  let ?errs = "foldl (\<lambda>errs w. stride w ?w count check errs) (replicate count None) [0..<?w]"
  have "?errs = map check [0..<count]"
  proof (rule nth_equalityI)
    have "length (foldl (\<lambda>errs w. stride w ?w count check errs) es ws) = length es" for es ws
      by (induction ws arbitrary: es) simp_all
    then show "length ?errs = length (map check [0..<count])" by simp
  next
    fix j assume "j < length ?errs"
    moreover have "length ?errs = count"
    proof -
      have "length (foldl (\<lambda>errs w. stride w ?w count check errs) es ws) = length es" for es ws
        by (induction ws arbitrary: es) simp_all
      then show ?thesis by simp
    qed
    ultimately have j: "j < count" by simp
    consider "count = 1" | "2 \<le> count" using j by linarith
    then show "?errs ! j = map check [0..<count] ! j"
    proof cases
      case 1
      then show ?thesis using j by (simp add: stride_nth)
    next
      case 2
      then have w: "?w = 2" "[0..<2] = [0, 1 :: nat]" by (simp_all add: upt_rec)
      show ?thesis
      proof (cases "j mod 2 = 0")
        case True
        then show ?thesis unfolding w using j by (simp add: stride_nth)
      next
        case False
        then have "1 \<le> j" "(j - 1) mod 2 = 0" by presburger+
        then show ?thesis unfolding w using j by (simp add: stride_nth)
      qed
    qed
  qed
  then show ?thesis by (simp add: verify_independent_def Let_def)
qed

lemma first_error_None: "first_error es = None \<longleftrightarrow> (\<forall>e\<in>set es. e = None)"
  by (induction es) (auto split: option.split)

section \<open>Adoption\<close>

definition stat_of :: "(int \<Rightarrow> goerr + descriptor) \<Rightarrow> int \<Rightarrow> descriptor" where
  "stat_of fstat fd = (case fstat fd of Inr st \<Rightarrow> st | Inl _ \<Rightarrow> undefined)"

text \<open>What a dir_item item must be, and the entries it makes.\<close>

definition walk_ok :: "(int \<Rightarrow> goerr + descriptor) \<Rightarrow> dir_item \<Rightarrow> bool" where
  "walk_ok fstat x = (case x of WalkDir \<Rightarrow> True | WalkFile fd \<Rightarrow> (\<exists>st. fstat fd = Inr st \<and> fd_regular st) | _ \<Rightarrow> False)"

definition item_entry :: "(int \<Rightarrow> goerr + descriptor) \<Rightarrow> (int \<Rightarrow> string) \<Rightarrow> dir_item \<Rightarrow> snap_entry" where
  "item_entry fstat digest x = (case x of WalkFile fd \<Rightarrow> file_entry (fd_bytes (stat_of fstat fd)) (digest fd) | _ \<Rightarrow> dir_entry)"

definition walk_prepared :: "(int \<Rightarrow> goerr + descriptor) \<Rightarrow> string \<times> dir_item \<Rightarrow> prepared_entry" where
  "walk_prepared fstat nx =
     (case nx of (n, x) \<Rightarrow> (case x of WalkFile fd \<Rightarrow> file_prepared n (fd_bytes (stat_of fstat fd)) fd | _ \<Rightarrow> dir_prepared n))"

definition walk_fds :: "(string \<times> dir_item) list \<Rightarrow> int list" where
  "walk_fds items = concat (map (\<lambda>(_, x). case x of WalkFile fd \<Rightarrow> [fd] | _ \<Rightarrow> []) items)"

lemma adopt_walk_spec:
  "distinct (map fst items) \<Longrightarrow> adopt_walk fstat items a = (r, a') \<Longrightarrow>
     (r = None \<longleftrightarrow> (\<forall>(n, x)\<in>set items. walk_ok fstat x)) \<and>
     (r = None \<longrightarrow>
        ad_owned a' = (ad_owned a)\<lparr>ow_entries := ow_entries (ad_owned a) @ map (walk_prepared fstat) items,
                                   ow_files := ow_files (ad_owned a) @ walk_fds items\<rparr> \<and>
        (\<forall>n. map_of (ad_actual a') n = (case map_of items n of Some x \<Rightarrow> Some (item_entry fstat (\<lambda>_. []) x) | None \<Rightarrow> map_of (ad_actual a) n)))"
proof (induction items arbitrary: a r a')
  case Nil
  then show ?case by (simp add: walk_fds_def)
next
  case (Cons nx items)
  obtain n x where nx: "nx = (n, x)" by (cases nx)
  have n: "map_of items n = None" "distinct (map fst items)" using Cons.prems(1) by (auto simp: nx map_of_eq_None_iff)
  show ?case
  proof (cases "walk_ok fstat x")
    case False
    then show ?thesis using Cons.prems(2)
      by (auto simp: nx walk_ok_def Let_def split: dir_item.splits sum.splits if_splits)
  next
    case True
    define a1 where "a1 = \<lparr>ad_actual = AList.update n (item_entry fstat (\<lambda>_. []) x) (ad_actual a),
        ad_owned = (ad_owned a)\<lparr>ow_files := ow_files (ad_owned a) @ walk_fds [(n, x)],
                               ow_entries := ow_entries (ad_owned a) @ [walk_prepared fstat (n, x)]\<rparr>\<rparr>"
    have "adopt_walk fstat items a1 = (r, a')"
      using Cons.prems(2) True
      by (cases x) (auto simp: nx walk_ok_def a1_def item_entry_def walk_prepared_def walk_fds_def stat_of_def file_entry_def Let_def)
    note IH = Cons.IH [OF n(2) this]
    have fds: "walk_fds (nx # items) = walk_fds [(n, x)] @ walk_fds items" by (simp add: walk_fds_def nx)
    have act: "map_of (ad_actual a1) = (map_of (ad_actual a))(n \<mapsto> item_entry fstat (\<lambda>_. []) x)"
      by (simp add: a1_def update_conv')
    show ?thesis
    proof (intro conjI impI allI)
      show "r = None \<longleftrightarrow> (\<forall>(n, x)\<in>set (nx # items). walk_ok fstat x)" using IH True by (simp add: nx)
    next
      fix k assume "r = None"
      then show "map_of (ad_actual a') k =
          (case map_of (nx # items) k of Some x \<Rightarrow> Some (item_entry fstat (\<lambda>_. []) x) | None \<Rightarrow> map_of (ad_actual a) k)"
        using IH n(1) by (simp add: act nx split: option.split)
    next
      assume "r = None"
      then have "ad_owned a' = (ad_owned a1)\<lparr>ow_entries := ow_entries (ad_owned a1) @ map (walk_prepared fstat) items,
          ow_files := ow_files (ad_owned a1) @ walk_fds items\<rparr>" using IH by simp
      then show "ad_owned a' = (ad_owned a)\<lparr>ow_entries := ow_entries (ad_owned a) @ map (walk_prepared fstat) (nx # items),
          ow_files := ow_files (ad_owned a) @ walk_fds (nx # items)\<rparr>" unfolding fds by (simp add: a1_def nx)
    qed
  qed
qed

lemma add_digests_other:
  "(\<And>v. v \<in> set vs \<Longrightarrow> e_name v = n \<Longrightarrow> e_directory v) \<Longrightarrow> map_of (add_digests digest vs actual) n = map_of actual n"
proof (induction vs arbitrary: actual)
  case (Cons v vs)
  have IH: "map_of (add_digests digest vs act) n = map_of act n" for act using Cons.prems by (intro Cons.IH) auto
  have "e_directory v \<or> e_name v \<noteq> n" using Cons.prems by auto
  then show ?case by (auto simp: IH update_conv' split: option.split)
qed simp

lemma add_digests_file:
  "distinct (map e_name vs) \<Longrightarrow> v \<in> set vs \<Longrightarrow> \<not> e_directory v \<Longrightarrow> map_of actual (e_name v) = Some e \<Longrightarrow>
     map_of (add_digests digest vs actual) (e_name v) = Some (e\<lparr>en_sha := digest v\<rparr>)"
proof (induction vs arbitrary: actual)
  case (Cons u vs)
  show ?case
  proof (cases "u = v")
    case True
    have "e_name v \<notin> e_name ` set vs" using Cons.prems(1) True by simp
    then have "map_of (add_digests digest vs act) (e_name v) = map_of act (e_name v)" for act
      by (intro add_digests_other) (metis imageI)
    then show ?thesis using Cons.prems True by (simp add: update_conv')
  next
    case False
    then have "e_name u \<noteq> e_name v" "v \<in> set vs" using Cons.prems(1,2) by force+
    then show ?thesis using Cons.prems Cons.IH by (auto simp: update_conv' split: option.split)
  qed
qed simp

lemma same_map_iff: "same_map a b \<longleftrightarrow> map_of a = map_of b"
proof
  assume "same_map a b"
  then have k: "map_of a k = map_of b k" if "k \<in> set (map fst a) \<union> set (map fst b)" for k
    using that by (auto simp: same_map_def list_all_iff)
  show "map_of a = map_of b"
  proof
    fix k
    show "map_of a k = map_of b k"
    proof (cases "k \<in> set (map fst a) \<union> set (map fst b)")
      case True
      then show ?thesis by (rule k)
    next
      case False
      then have "map_of a k = None" "map_of b k = None" by (auto simp: map_of_eq_None_iff)
      then show ?thesis by simp
    qed
  qed
qed (simp add: same_map_def list_all_iff)

definition content_digest :: "(bytes \<Rightarrow> string) \<Rightarrow> (int \<Rightarrow> goerr + descriptor) \<Rightarrow> (int \<Rightarrow> goerr + descriptor) \<Rightarrow> int \<Rightarrow> string" where
  "content_digest sha fstat unlinked fd =
     (case unlinked fd of Inr st \<Rightarrow> sha (take (nat (fd_bytes (stat_of fstat fd))) (fd_content st)) | Inl _ \<Rightarrow> [])"

lemma walk_prepared_simps [simp]:
  "e_name (walk_prepared fstat (n, x)) = n"
  "e_directory (walk_prepared fstat (n, x)) = (case x of WalkFile fd \<Rightarrow> False | _ \<Rightarrow> True)"
  by (cases x; simp add: walk_prepared_def file_prepared_def dir_prepared_def)+

lemma walk_prepared_name [simp]: "e_name (walk_prepared fstat nx) = fst nx"
  by (cases nx) simp

lemma adopted_actual:
  assumes d: "distinct (map fst items)" and w: "adopt_walk fstat items a = (None, a')" and a: "ad_actual a = []"
  shows "map_of (add_digests (entry_digest sha unlinked) (map (walk_prepared fstat) items) (ad_actual a')) n =
    map_option (item_entry fstat (content_digest sha fstat unlinked)) (map_of items n)"
proof -
  have act: "map_of (ad_actual a') n = map_option (item_entry fstat (\<lambda>_. [])) (map_of items n)"
    using adopt_walk_spec [OF d w] a by (simp add: map_option_case split: option.split)
  have names: "e_name \<circ> walk_prepared fstat = fst" by (rule ext) simp
  show ?thesis
  proof (cases "\<exists>fd. (n, WalkFile fd) \<in> set items")
    case True
    then obtain fd where fd: "(n, WalkFile fd) \<in> set items" by blast
    let ?v = "walk_prepared fstat (n, WalkFile fd)"
    have lk: "map_of items n = Some (WalkFile fd)" using d fd by (rule map_of_is_SomeI)
    have "map_of (add_digests (entry_digest sha unlinked) (map (walk_prepared fstat) items) (ad_actual a')) (e_name ?v) =
        Some ((item_entry fstat (\<lambda>_. []) (WalkFile fd))\<lparr>en_sha := entry_digest sha unlinked ?v\<rparr>)"
      by (rule add_digests_file) (use d names fd act lk in \<open>simp_all\<close>)
    then show ?thesis
      by (cases "unlinked fd")
        (simp_all add: lk item_entry_def file_entry_def entry_digest_def walk_prepared_def file_prepared_def content_digest_def)
  next
    case False
    have "e_directory v" if "v \<in> set (map (walk_prepared fstat) items)" "e_name v = n" for v
      using that False by (auto split: dir_item.split)
    then have "map_of (add_digests (entry_digest sha unlinked) (map (walk_prepared fstat) items) (ad_actual a')) n = map_of (ad_actual a') n"
      by (rule add_digests_other)
    moreover have "x \<noteq> WalkFile fd" if "map_of items n = Some x" for x fd using False map_of_SomeD [OF that] by auto
    ultimately show ?thesis using act by (cases "map_of items n") (auto simp: item_entry_def split: dir_item.splits)
  qed
qed

text \<open>A file that is retained: regular while it had a name, without links and complete afterwards.\<close>

definition retained_file :: "(int \<Rightarrow> goerr + descriptor) \<Rightarrow> (int \<Rightarrow> goerr + descriptor) \<Rightarrow> dir_item \<Rightarrow> bool" where
  "retained_file fstat unlinked x =
     (case x of
        WalkDir \<Rightarrow> True
      | WalkFile fd \<Rightarrow>
          (case (fstat fd, unlinked fd) of
             (Inr st, Inr st') \<Rightarrow> fd_regular st \<and> fd_links st' = 0 \<and> nat (fd_bytes st) \<le> length (fd_content st')
           | _ \<Rightarrow> False)
      | _ \<Rightarrow> False)"

definition adopted :: "(int \<Rightarrow> goerr + descriptor) \<Rightarrow> (string \<times> dir_item) list \<Rightarrow> manifest \<Rightarrow> owned" where
  "adopted fstat items mf = no_owned\<lparr>ow_manifest := mf, ow_entries := map (walk_prepared fstat) items, ow_files := walk_fds items\<rparr>"

lemma verify_walked:
  assumes "nx \<in> set items" "walk_ok fstat (snd nx)"
  shows "verify_entry unlinked (walk_fds items) (walk_prepared fstat nx) = None \<longleftrightarrow> retained_file fstat unlinked (snd nx)"
proof (cases nx)
  case (Pair n x)
  show ?thesis
  proof (cases x)
    case (WalkFile fd)
    then have "fd \<in> set (walk_fds items)" using assms(1) Pair by (force simp: walk_fds_def)
    then show ?thesis using assms(2)
      by (cases "unlinked fd") (auto simp: Pair WalkFile verify_entry_def walk_prepared_def file_prepared_def walk_ok_def retained_file_def stat_of_def)
  qed (use assms(2) Pair in \<open>simp_all add: verify_entry_def retained_file_def walk_ok_def walk_prepared_def dir_prepared_def\<close>)
qed

lemma adopt_iff:
  assumes d: "distinct (map fst items)"
  shows "adopt sha fstat unlinked removal closes items mf = (Inr ob, closed) \<longleftrightarrow>
    ob = adopted fstat items mf \<and> closed = [] \<and> removal = None \<and> list_all (\<lambda>(_, x). retained_file fstat unlinked x) items \<and>
    map_of (mf_entries mf) = map_option (item_entry fstat (content_digest sha fstat unlinked)) \<circ> map_of items"
proof -
  let ?a0 = "\<lparr>ad_actual = [], ad_owned = no_owned\<lparr>ow_manifest := mf\<rparr>\<rparr>"
  obtain r a where w: "adopt_walk fstat items ?a0 = (r, a)" by (metis surj_pair)
  note sp = adopt_walk_spec [OF d w]
  have ref: "fst (refuse closes e x) \<noteq> Inr ob" for e x by (auto simp: refuse_def split: prod.split)
  show ?thesis
  proof (cases r)
    case (Some e)
    have "\<not> list_all (\<lambda>(_, x). retained_file fstat unlinked x) items"
    proof
      assume "list_all (\<lambda>(_, x). retained_file fstat unlinked x) items"
      moreover have "walk_ok fstat x" if "retained_file fstat unlinked x" for x
        using that by (auto simp: retained_file_def walk_ok_def split: dir_item.splits sum.splits)
      ultimately have "\<forall>(n, x)\<in>set items. walk_ok fstat x" by (auto simp: list_all_iff)
      then show False using sp Some by simp
    qed
    then show ?thesis using ref [of e "ad_owned a"] w Some by (auto simp: adopt_def)
  next
    case None
    then have ok: "\<forall>(n, x)\<in>set items. walk_ok fstat x" and ow: "ad_owned a = adopted fstat items mf"
      using sp by (simp_all add: adopted_def no_owned_def)
    have es: "ow_entries (adopted fstat items mf) = map (walk_prepared fstat) items" "ow_files (adopted fstat items mf) = walk_fds items"
      by (simp_all add: adopted_def)
    have v: "verify_independent (length items) (\<lambda>i. verify_entry unlinked (walk_fds items) (map (walk_prepared fstat) items ! i)) = None
        \<longleftrightarrow> list_all (\<lambda>(_, x). retained_file fstat unlinked x) items"
      unfolding verify_independent_eq first_error_None list_all_length using verify_walked [OF nth_mem] ok
      by (auto simp: case_prod_unfold)
    have m: "map_of (add_digests (entry_digest sha unlinked) (map (walk_prepared fstat) items) (ad_actual a)) =
        map_option (item_entry fstat (content_digest sha fstat unlinked)) \<circ> map_of items"
      using adopted_actual [OF d] w None by (intro ext) simp
    have "adopt sha fstat unlinked removal closes items mf =
       (case removal of
          Some e \<Rightarrow> refuse closes e (adopted fstat items mf)
        | None \<Rightarrow>
            (case verify_independent (length items) (\<lambda>i. verify_entry unlinked (walk_fds items) (map (walk_prepared fstat) items ! i)) of
               Some e \<Rightarrow> refuse closes e (adopted fstat items mf)
             | None \<Rightarrow>
                 if \<not> same_map (add_digests (entry_digest sha unlinked) (map (walk_prepared fstat) items) (ad_actual a)) (mf_entries mf)
                 then refuse closes (Sentinel ''snapshot file manifest mismatch'') (adopted fstat items mf)
                 else (Inr (adopted fstat items mf), [])))"
      unfolding adopt_def w None Let_def prod.case option.case ow es length_map by (rule refl)
    then show ?thesis unfolding same_map_iff m using ref v
      by (cases removal; cases "verify_independent (length items) (\<lambda>i. verify_entry unlinked (walk_fds items) (map (walk_prepared fstat) items ! i))")
        (auto simp: prod_eq_iff)
  qed
qed

section \<open>Handoff\<close>

lemma copy_section_contents:
  "file_ok m (z_data z) \<Longrightarrow> copy_section (frozen_read m z) (f_size (z_data z)) off = (None, drop off (contents m (z_data z)))"
proof (induction "frozen_read m z" "f_size (z_data z)" off rule: copy_section.induct)
  case (1 off)
  let ?n = "f_size (z_data z)" and ?c = "contents m (z_data z)"
  have len: "length ?c = ?n" by (simp add: contents_def)
  show ?case
  proof (cases "?n \<le> off")
    case True
    then show ?thesis using len by (subst copy_section.simps) simp
  next
    case False
    define k where "k = min 32768 (?n - off)"
    have rd: "frozen_read m z k (int off) = (take k (drop off ?c), None)"
      using root_read_contents [OF "1.prems", of k "int off"] False by (simp add: frozen_read_def k_def)
    have "copy_section (frozen_read m z) ?n (off + k) = (None, drop (off + k) ?c)"
      using "1.hyps" [OF False k_def rd [symmetric] refl] "1.prems" by blast
    then show ?thesis using False drop_split [of off ?c k] by (subst copy_section.simps) (simp add: rd flip: k_def)
  qed
qed

lemma write_files_result:
  "write_files io copied ns = Inr fs \<Longrightarrow> fs = map (\<lambda>n. (n, snd (copied n))) ns \<and> (\<forall>n\<in>set ns. fst (copied n) = None)"
  by (induction ns arbitrary: fs) (auto split: option.splits prod.splits sum.splits)

lemma root_check_names: "root_check m r build = None \<Longrightarrow> r_build r = build \<and> check_root_names (r_dirs r) (map (\<lambda>(n, f). (n, Some f)) (r_files r)) = None"
  by (auto simp: root_check_def split: if_splits option.splits)

lemma handoff_root_result:
  assumes h: "handoff_root sha m r build made io stored = Inr w" and d: "distinct (map fst (r_files r))"
    and ok: "\<forall>(n, z)\<in>set (r_files r). file_ok m (z_data z)"
  shows "root_check m r build = None \<and> wr_dirs w = r_dirs r \<and>
    wr_files w = map (\<lambda>n. (n, contents m (z_data (the (map_of (r_files r) n))))) (sorted_names (r_files r)) \<and>
    wr_manifest w = new_manifest build (map (\<lambda>n. (n, dir_entry)) (wr_dirs w) @
      map (\<lambda>(n, b). (n, file_entry (int (length b)) (sha b))) (wr_files w))"
proof -
  let ?z = "\<lambda>n. the (map_of (r_files r) n)"
  let ?copied = "\<lambda>n. copy_section (frozen_read m (?z n)) (f_size (z_data (?z n))) 0"
  obtain fs where fs: "write_files io ?copied (sorted_names (r_files r)) = Inr fs" and rc: "root_check m r build = None"
    and w: "w = \<lparr>wr_manifest = new_manifest build (map (\<lambda>n. (n, dir_entry)) (r_dirs r) @
         map (\<lambda>(n, b). (n, file_entry (int (f_size (z_data (?z n)))) (sha b))) fs), wr_dirs = r_dirs r, wr_files = fs\<rparr>"
    using h by (auto simp: handoff_root_def Let_def split: option.splits sum.splits)
  have z: "file_ok m (z_data (?z n))" if "n \<in> set (sorted_names (r_files r))" for n
  proof -
    obtain f where f: "(n, f) \<in> set (r_files r)" using \<open>n \<in> set (sorted_names (r_files r))\<close> by (auto simp: sorted_names_def)
    then have "map_of (r_files r) n = Some f" using d by simp
    then show ?thesis using ok f by auto
  qed
  have fs': "fs = map (\<lambda>n. (n, contents m (z_data (?z n)))) (sorted_names (r_files r))"
    using write_files_result [OF fs] copy_section_contents [OF z] by (auto intro!: map_cong)
  have e: "map (\<lambda>(n, b). (n, file_entry (int (f_size (z_data (?z n)))) (sha b))) fs =
      map (\<lambda>(n, b). (n, file_entry (int (length b)) (sha b))) fs"
    unfolding fs' by (simp add: contents_def)
  have "wr_files w = fs" "wr_dirs w = r_dirs r" by (simp_all add: w)
  moreover have "wr_manifest w = new_manifest build (map (\<lambda>n. (n, dir_entry)) (r_dirs r) @
      map (\<lambda>(n, b). (n, file_entry (int (length b)) (sha b))) fs)"
    unfolding w by (simp only: written.select_convs e)
  ultimately show ?thesis using rc fs' by simp
qed

text \<open>The walk of a written directory: its directories, and its files opened as \<open>fd\<close>.\<close>

definition written_tree :: "(string \<Rightarrow> int) \<Rightarrow> written \<Rightarrow> (string \<times> dir_item) list" where
  "written_tree fd w = map (\<lambda>n. (n, WalkDir)) (wr_dirs w) @ map (\<lambda>(n, _). (n, WalkFile (fd n))) (wr_files w)"

definition serves :: "(string \<Rightarrow> int) \<Rightarrow> (int \<Rightarrow> goerr + descriptor) \<Rightarrow> (int \<Rightarrow> goerr + descriptor) \<Rightarrow> string \<times> bytes \<Rightarrow> bool" where
  "serves fd fstat unlinked nb =
     (case nb of (n, b) \<Rightarrow>
        (case (fstat (fd n), unlinked (fd n)) of
           (Inr st, Inr st') \<Rightarrow> fd_regular st \<and> fd_bytes st = int (length b) \<and> fd_content st = b \<and> st' = st\<lparr>fd_links := 0\<rparr>
         | _ \<Rightarrow> False))"

lemma map_of_same_set:
  assumes "distinct (map fst xs)" "distinct (map fst ys)" "set xs = set ys"
  shows "map_of xs = map_of ys"
proof
  fix k
  have "map_of xs k = Some v \<longleftrightarrow> map_of ys k = Some v" for v using assms by simp
  then show "map_of xs k = map_of ys k" by (metis option.exhaust)
qed

lemma written_checked:
  assumes rc: "root_check m r build = None" and d: "distinct (map fst (r_files r))"
    and w: "wr_dirs w = r_dirs r" "map fst (wr_files w) = sorted_names (r_files r)"
    and mf: "wr_manifest w = new_manifest build (map (\<lambda>n. (n, dir_entry)) (wr_dirs w) @
      map (\<lambda>(n, b). (n, file_entry (int (length b)) (sha b))) (wr_files w))"
    and sha: "\<forall>c. \<exists>h. hex_decode (sha c) = Some h \<and> length h = 32"
  shows "check_manifest (wr_manifest w) build = None \<and> distinct (wr_dirs w @ map fst (wr_files w))"
proof -
  let ?F = "map fst (wr_files w)" and ?D = "wr_dirs w"
  let ?es = "map (\<lambda>n. (n, dir_entry)) ?D @ map (\<lambda>(n, b). (n, file_entry (int (length b)) (sha b))) (wr_files w)"
  have sf: "set ?F = fst ` set (r_files r)" "distinct ?F" using d by (simp_all add: w(2) sorted_names_def)
  have names: "distinct ?D" "''.'' \<in> set ?D" "\<forall>n\<in>set ?D. valid_name n \<and> (n = ''.'' \<or> path_dir n \<in> set ?D)"
    "\<forall>n\<in>set ?F. valid_name n \<and> n \<notin> set ?D \<and> path_dir n \<in> set ?D"
    using root_check_names [OF rc] sf(1) unfolding check_root_names_def check_names_None w(1) by auto
  have keys: "map fst ?es = ?D @ ?F" by (simp add: comp_def case_prod_unfold)
  have dist: "distinct (?D @ ?F)" using names(1,4) sf(2) by auto
  have "dirs_of ?es = ?D" "files_of ?es = ?F"
    by (simp_all add: dirs_of_def files_of_def filter_map comp_def case_prod_unfold dir_entry_def file_entry_def)
  then have "check_root_names (dirs_of ?es) (map (\<lambda>n. (n, Some ())) (files_of ?es)) = None"
    using names by (simp add: check_root_names_def check_names_None)
  moreover have "\<forall>(n, e)\<in>set ?es. entry_shape n e"
  proof -
    have "entry_shape n (file_entry (int (length b)) (sha b))" if "(n, b) \<in> set (wr_files w)" for n b
    proof -
      have "n \<in> set ?F" using that by force
      then have "n \<noteq> ''.''" using names(2,4) by auto
      then show ?thesis using sha unfolding entry_shape_def by blast
    qed
    then show ?thesis by (auto simp: entry_shape_def)
  qed
  ultimately have "check_manifest (wr_manifest w) build = None"
    using check_manifest_None [of "wr_manifest w" build] dist unfolding mf by (simp add: new_manifest_def keys comp_def case_prod_unfold)
  then show ?thesis using dist by blast
qed

lemma written_adopted:
  assumes d: "distinct (wr_dirs w @ map fst (wr_files w))" and di: "distinct (map fst items)" and set: "set items = set (written_tree fd w)"
    and srv: "\<forall>nb\<in>set (wr_files w). serves fd fstat unlinked nb"
    and mf: "wr_manifest w = new_manifest build (map (\<lambda>n. (n, dir_entry)) (wr_dirs w) @
      map (\<lambda>(n, b). (n, file_entry (int (length b)) (sha b))) (wr_files w))"
  shows "adopt sha fstat unlinked None closes items (wr_manifest w) = (Inr (adopted fstat items (wr_manifest w)), [])"
proof -
  let ?t = "written_tree fd w"
  have keys: "map fst ?t = wr_dirs w @ map fst (wr_files w)" by (simp add: written_tree_def comp_def case_prod_unfold)
  have srv': "retained_file fstat unlinked (WalkFile (fd n)) \<and>
      item_entry fstat (content_digest sha fstat unlinked) (WalkFile (fd n)) = file_entry (int (length b)) (sha b)"
    if "(n, b) \<in> set (wr_files w)" for n b
    using srv that by (fastforce simp: serves_def retained_file_def item_entry_def content_digest_def stat_of_def split: sum.splits)
  have "list_all (\<lambda>(_, x). retained_file fstat unlinked x) items"
    using srv' unfolding list_all_iff set by (auto simp: written_tree_def retained_file_def)
  moreover have "mf_entries (wr_manifest w) = map (\<lambda>(n, x). (n, item_entry fstat (content_digest sha fstat unlinked) x)) ?t"
    unfolding mf written_tree_def using srv' by (auto simp: new_manifest_def item_entry_def)
  then have "map_of (mf_entries (wr_manifest w)) = map_option (item_entry fstat (content_digest sha fstat unlinked)) \<circ> map_of ?t"
    by (simp add: map_of_map)
  moreover have "map_of items = map_of ?t" by (rule map_of_same_set [OF di _ set]) (use d keys in simp)
  ultimately show ?thesis unfolding adopt_iff [OF di] by simp
qed

section \<open>Inherited descriptors\<close>

text \<open>The descriptors that are taken: those from 3 on, each at its first mention.\<close>

definition taken_fds :: "(string \<times> int) list \<Rightarrow> int set" where
  "taken_fds vs = {fd \<in> snd ` set vs. 3 \<le> fd}"

lemma take_descriptors_files:
  "distinct (ih_files x) \<Longrightarrow>
     distinct (ih_files (take_descriptors vs x)) \<and> set (ih_files (take_descriptors vs x)) = set (ih_files x) \<union> taken_fds vs"
proof (induction vs arbitrary: x)
  case (Cons v vs)
  obtain n fd where v: "v = (n, fd)" by (cases v)
  show ?case
  proof (cases "fd < 3 \<or> fd \<in> set (ih_files x)")
    case True
    then show ?thesis using Cons.IH [of "x\<lparr>ih_malformed := Some (Sentinel ''invalid inherited descriptor'')\<rparr>"] Cons.prems
      by (auto simp: v taken_fds_def)
  next
    case False
    then show ?thesis
      using Cons.IH [of "\<lparr>ih_files = ih_files x @ [fd], ih_names = AList.update n fd (ih_names x),
         ih_malformed = (if map_of (ih_names x) n \<noteq> None then Some (Sentinel ''duplicate inherited name'') else ih_malformed x)\<rparr>"] Cons.prems
      by (auto simp: v taken_fds_def)
  qed
qed (simp add: taken_fds_def)

text \<open>Without a complaint the descriptors are the given ones, under distinct names and numbers.\<close>

lemma alist_update_new: "k \<notin> set (map fst xs) \<Longrightarrow> AList.update k v xs = xs @ [(k, v)]"
  by (induction xs) auto

lemma take_descriptors_clean:
  "ih_malformed (take_descriptors vs x) = None \<Longrightarrow>
     ih_malformed x = None \<and> (\<forall>(n, fd)\<in>set vs. 3 \<le> fd) \<and> distinct (map snd vs) \<and> distinct (map fst vs) \<and>
     set (map snd vs) \<inter> set (ih_files x) = {} \<and> set (map fst vs) \<inter> set (map fst (ih_names x)) = {} \<and>
     ih_files (take_descriptors vs x) = ih_files x @ map snd vs \<and> ih_names (take_descriptors vs x) = ih_names x @ vs"
proof (induction vs arbitrary: x)
  case (Cons v vs)
  obtain n fd where v: "v = (n, fd)" by (cases v)
  show ?case
  proof (cases "fd < 3 \<or> fd \<in> set (ih_files x)")
    case True
    then show ?thesis using Cons.IH [of "x\<lparr>ih_malformed := Some (Sentinel ''invalid inherited descriptor'')\<rparr>"] Cons.prems
      by (simp add: v)
  next
    case False
    let ?x = "\<lparr>ih_files = ih_files x @ [fd], ih_names = AList.update n fd (ih_names x),
         ih_malformed = (if map_of (ih_names x) n \<noteq> None then Some (Sentinel ''duplicate inherited name'') else ih_malformed x)\<rparr>"
    note IH = Cons.IH [of ?x]
    have m: "ih_malformed (take_descriptors vs ?x) = None" using Cons.prems False by (simp add: v)
    then have n: "map_of (ih_names x) n = None" "ih_malformed x = None" using IH by (auto split: if_splits)
    then have "n \<notin> set (map fst (ih_names x))" by (simp add: map_of_eq_None_iff)
    moreover from this have "AList.update n fd (ih_names x) = ih_names x @ [(n, fd)]" by (rule alist_update_new)
    ultimately show ?thesis using IH m n False by (auto simp: v)
  qed
qed simp

text \<open>What a matched descriptor must be, and the entry it makes.\<close>

definition inherits :: "(int \<Rightarrow> goerr + descriptor) \<Rightarrow> snap_entry \<Rightarrow> int \<Rightarrow> bool" where
  "inherits fstat e fd =
     (case fstat fd of
        Inl _ \<Rightarrow> False
      | Inr st \<Rightarrow> fd_readonly st \<and> fd_regular st \<and> Some (fd_bytes st) = en_bytes e \<and> fd_links st = 0)"

definition matched :: "(string \<times> snap_entry) list \<Rightarrow> (string \<times> int) list \<Rightarrow> string \<Rightarrow> prepared_entry" where
  "matched es left n =
     (if en_kind (the (map_of es n)) = ''directory'' then dir_prepared n
      else file_prepared n (the (en_bytes (the (map_of es n)))) (the (map_of left n)))"

lemma map_of_delete_other: "k \<noteq> n \<Longrightarrow> map_of (AList.delete n xs) k = map_of xs k"
  by (simp add: delete_conv')

lemma match_entries_spec:
  assumes "match_entries fstat es names left acc = Inr (out, rest)" "distinct names"
    "\<forall>n\<in>set names. en_kind (the (map_of es n)) \<noteq> ''directory'' \<longrightarrow> en_bytes (the (map_of es n)) \<noteq> None"
  shows "out = acc @ map (matched es left) names \<and>
    (\<forall>n\<in>set names. en_kind (the (map_of es n)) \<noteq> ''directory'' \<longrightarrow>
       (\<exists>fd. map_of left n = Some fd \<and> inherits fstat (the (map_of es n)) fd)) \<and>
    set rest = {x \<in> set left. fst x \<notin> set names \<or> en_kind (the (map_of es (fst x))) = ''directory''}"
  using assms
proof (induction names arbitrary: left acc)
  case Nil
  then show ?case by auto
next
  case (Cons n ns)
  let ?e = "the (map_of es n)"
  show ?case
  proof (cases "en_kind ?e = ''directory''")
    case True
    then have "match_entries fstat es ns left (acc @ [dir_prepared n]) = Inr (out, rest)" using Cons.prems(1) by simp
    from Cons.IH [OF this] Cons.prems(2,3) True show ?thesis by (auto simp: matched_def)
  next
    case False
    then obtain fd st where fd: "map_of left n = Some fd" "fstat fd = Inr st" "fd_readonly st" "fd_regular st"
        "fd_bytes st = the (en_bytes ?e)" "fd_links st = 0"
      and m: "match_entries fstat es ns (AList.delete n left) (acc @ [file_prepared n (the (en_bytes ?e)) fd]) = Inr (out, rest)"
      using Cons.prems(1) by (auto simp: Let_def split: option.splits sum.splits if_splits)
    have "en_bytes ?e \<noteq> None" using Cons.prems(3) False by simp
    then have inh: "inherits fstat ?e fd" using fd by (auto simp: inherits_def)
    have other: "map_of (AList.delete n left) k = map_of left k" if "k \<in> set ns" for k
      using that Cons.prems(2) by (intro map_of_delete_other) auto
    have "matched es (AList.delete n left) k = matched es left k" if "k \<in> set ns" for k
      using other [OF that] by (simp add: matched_def)
    then have eq: "map (matched es (AList.delete n left)) ns = map (matched es left) ns" by (intro map_cong) auto
    have "set (AList.delete n left) = {x \<in> set left. fst x \<noteq> n}" by (auto simp: AList.delete_eq)
    then show ?thesis using Cons.IH [OF m] Cons.prems(2,3) False inh fd(1) other eq by (auto simp: matched_def)
  qed
qed

lemma check_backing_None:
  "check_backing fstat files vs = None \<longleftrightarrow>
     (\<forall>v\<in>set vs. e_directory v \<or> e_fd v \<in> set files \<and>
        (\<exists>st. fstat (e_fd v) = Inr st \<and> fd_regular st \<and> fd_bytes st = e_size v \<and> fd_links st = 0))"
  by (induction vs) (auto split: sum.split)

lemma refuse_result: "refuse closes e ob = (x, closed) \<Longrightarrow> \<not> ow_closed ob \<Longrightarrow> closed = ow_files ob \<and> (\<exists>j. x = Inl (Some j))"
proof -
  assume r: "refuse closes e ob = (x, closed)" and c: "\<not> ow_closed ob"
  have "err_join [Some e, ce] \<noteq> None" for ce by simp
  then have "\<exists>j. err_join [Some e, ce] = Some j" for ce by (simp only: not_None_eq)
  then show ?thesis using r c by (auto simp: refuse_def close_owned_def Let_def)
qed

lemma receive_inherited_ok:
  assumes d: "distinct (map fst (mf_entries mf))" and r: "receive_inherited fstat closes mf files build = (Inr ob, closed)"
  shows "closed = [] \<and> check_manifest mf build = None \<and> distinct (map snd files) \<and> distinct (map fst files) \<and>
    set (map fst files) = set (files_of (mf_entries mf)) \<and>
    (\<forall>(n, fd)\<in>set files. 3 \<le> fd \<and> inherits fstat (the (map_of (mf_entries mf) n)) fd) \<and>
    ob = no_owned\<lparr>ow_manifest := mf, ow_files := map snd files, ow_entries := map (matched (mf_entries mf) files) (sort (map fst (mf_entries mf)))\<rparr>"
proof -
  let ?es = "mf_entries mf" and ?x = "take_descriptors files \<lparr>ih_files = [], ih_names = [], ih_malformed = None\<rparr>"
  have nr: "refuse closes e y \<noteq> (Inr ob, closed)" for e y by (simp add: refuse_def split: prod.split)
  from r nr have m: "ih_malformed ?x = None" and c: "check_manifest mf build = None"
    by (auto simp: receive_inherited_def Let_def split: option.splits)
  note cl = take_descriptors_clean [OF m]
  then have files: "ih_files ?x = map snd files" "ih_names ?x = files" by simp_all
  from r nr m c files obtain out where out: "match_entries fstat ?es (sort (map fst ?es)) files [] = Inr (out, [])"
    and ob: "ob = no_owned\<lparr>ow_manifest := mf, ow_files := map snd files, ow_entries := out\<rparr>" and closed: "closed = []"
    by (auto simp: receive_inherited_def Let_def split: sum.splits if_splits)
  have look: "map_of ?es n = Some e" if "(n, e) \<in> set ?es" for n e using d that by simp
  have shapes: "\<forall>(n, e)\<in>set ?es. entry_shape n e" using check_manifest_None [OF d] c by blast
  have "en_bytes (the (map_of ?es n)) \<noteq> None" if "n \<in> set (map fst ?es)" "en_kind (the (map_of ?es n)) \<noteq> ''directory''" for n
  proof -
    obtain e where e: "(n, e) \<in> set ?es" using \<open>n \<in> set (map fst ?es)\<close> by auto
    then have "entry_shape n e" "en_kind e \<noteq> ''directory''" using shapes that(2) look by auto
    then show ?thesis using look [OF e] by (auto simp: entry_shape_def dir_entry_def file_entry_def)
  qed
  then have ms: "out = map (matched ?es files) (sort (map fst ?es)) \<and>
    (\<forall>n\<in>set (map fst ?es). en_kind (the (map_of ?es n)) \<noteq> ''directory'' \<longrightarrow>
       (\<exists>fd. map_of files n = Some fd \<and> inherits fstat (the (map_of ?es n)) fd)) \<and>
    {x \<in> set files. fst x \<notin> set (map fst ?es) \<or> en_kind (the (map_of ?es (fst x))) = ''directory''} = {}"
    using match_entries_spec [OF out] d by simp
  have fl: "n \<in> set (files_of ?es) \<longleftrightarrow> n \<in> set (map fst ?es) \<and> en_kind (the (map_of ?es n)) \<noteq> ''directory''" for n
    using look by (force simp: files_of_iff)
  have sub: "n \<in> set (files_of ?es) \<and> inherits fstat (the (map_of ?es n)) fd" if "(n, fd) \<in> set files" for n fd
  proof -
    have "n \<in> set (files_of ?es)" using ms that unfolding fl by fastforce
    moreover from this obtain fd' where "map_of files n = Some fd'" "inherits fstat (the (map_of ?es n)) fd'"
      using ms unfolding fl by blast
    moreover have "map_of files n = Some fd" using cl that by simp
    ultimately show ?thesis by simp
  qed
  have "set (map fst files) = set (files_of ?es)"
  proof
    show "set (files_of ?es) \<subseteq> set (map fst files)"
    proof
      fix n assume "n \<in> set (files_of ?es)"
      then obtain fd where "map_of files n = Some fd" using ms unfolding fl by blast
      then show "n \<in> set (map fst files)" by (force dest: map_of_SomeD)
    qed
    show "set (map fst files) \<subseteq> set (files_of ?es)" using sub by auto
  qed
  then show ?thesis using closed c cl sub ob ms by auto
qed

section \<open>Sharing a baseline\<close>

datatype share_op = Borrow memory "int \<Rightarrow> goerr + descriptor" string | GiveBack | CloseShared "int \<Rightarrow> goerr option"

text \<open>
  The baseline, how many of the releases that its borrowers were given have not been called, the descriptors
  closed so far. A borrower that was refused got no release; each release is called once.
\<close>

fun share_step :: "shared \<times> nat \<times> int list \<Rightarrow> share_op \<Rightarrow> shared \<times> nat \<times> int list" where
  "share_step (s, held, log) (Borrow m fstat build) =
     (case shared_acquire m fstat build s of (Inl _, s') \<Rightarrow> (s', held, log) | (Inr _, s') \<Rightarrow> (s', Suc held, log))"
| "share_step (s, held, log) GiveBack = (if held = 0 then (s, held, log) else (shared_release s, held - 1, log))"
| "share_step (s, held, log) (CloseShared closes) =
     (case shared_close closes s of None \<Rightarrow> (s, held, log) | Some (_, closed, s') \<Rightarrow> (s', held, log @ closed))"

definition share_inv :: "owned \<Rightarrow> shared \<times> nat \<times> int list \<Rightarrow> bool" where
  "share_inv ob sl = (case sl of (s, held, log) \<Rightarrow> sh_borrows s = held \<and>
     (if ow_closed (sh_owned s) then held = 0 \<and> log = ow_files ob \<and> ow_files (sh_owned s) = []
      else sh_owned s = ob \<and> log = []))"

lemma share_step_inv: "share_inv ob sl \<Longrightarrow> share_inv ob (share_step sl x)"
  by (cases sl; cases x)
    (auto simp: share_inv_def shared_acquire_def shared_release_def shared_close_def close_owned_def acquire_owned_def Let_def
      split: sum.splits if_splits)

interpretation share_machine: inv_machine share_step "share_inv ob" for ob
  by unfold_locales (rule share_step_inv)

lemma adopted_acquired:
  assumes items: "set items = set (written_tree fd w)" and srv: "\<forall>nb\<in>set (wr_files w). serves fd fstat unlinked nb"
    and c: "check_manifest mf build = None"
  shows "acquire_owned m unlinked build (adopted fstat items mf) = Inr (map (walk_prepared fstat) items)"
proof -
  have "check_backing unlinked (walk_fds items) (map (walk_prepared fstat) items) = None"
    unfolding check_backing_None
  proof
    fix v assume "v \<in> set (map (walk_prepared fstat) items)"
    then obtain n x where x: "(n, x) \<in> set items" "v = walk_prepared fstat (n, x)" by auto
    show "e_directory v \<or> e_fd v \<in> set (walk_fds items) \<and>
        (\<exists>st. unlinked (e_fd v) = Inr st \<and> fd_regular st \<and> fd_bytes st = e_size v \<and> fd_links st = 0)"
    proof (cases x)
      case (WalkFile k)
      then obtain b where b: "(n, b) \<in> set (wr_files w)" "k = fd n" using x(1) items by (auto simp: written_tree_def)
      have "fd n \<in> set (walk_fds items)" using x(1) WalkFile b(2) by (force simp: walk_fds_def)
      then show ?thesis using srv b(1) x(2) WalkFile b(2)
        by (fastforce simp: serves_def walk_prepared_def file_prepared_def stat_of_def split: sum.splits)
    qed (use x in \<open>simp_all add: walk_prepared_def dir_prepared_def\<close>)
  qed
  then show ?thesis using c by (simp add: acquire_owned_def adopted_def no_owned_def)
qed

section \<open>Properties\<close>

text \<open>
  C37. The check of a manifest accepts exactly the manifests of this format and build whose
  directories and files pass the name check of roots, a tree with leaf files, and whose entries carry what
  their kind needs: a directory nothing, a file its size and a digest of 32 bytes.
\<close>

theorem manifest_check_is_tree_check:
  assumes "distinct (map fst (mf_entries mf))"
  shows "check_manifest mf build = None \<longleftrightarrow>
     mf = new_manifest build (mf_entries mf) \<and> list_all (\<lambda>(n, e). entry_shape n e) (mf_entries mf) \<and>
     check_root_names (dirs_of (mf_entries mf)) (map (\<lambda>n. (n, Some ())) (files_of (mf_entries mf))) = None"
  unfolding list_all_iff by (rule check_manifest_None [OF assms])

theorem manifest_check_is_tree_check_witness:
  "check_manifest (new_manifest ''b'' [(''.'', dir_entry), (''ibdata1'', file_entry 3 (replicate 64 CHR ''a''))]) ''b'' = None"
proof -
  let ?es = "[(''.'', dir_entry), (''ibdata1'', file_entry 3 (replicate 64 CHR ''a''))]"
  have h: "hex_decode (replicate 64 CHR ''a'') = Some (replicate 32 170)" by code_simp
  have "entry_shape ''ibdata1'' (file_entry 3 (replicate 64 CHR ''a''))"
    unfolding entry_shape_def
    by (rule disjI2, rule exI [of _ 3], rule exI [of _ "replicate 64 CHR ''a''"], rule exI [of _ "replicate 32 170"]) (simp add: h)
  moreover have "check_root_names [''.''] [(''ibdata1'', Some ())] = None" by code_simp
  ultimately show ?thesis
    using manifest_check_is_tree_check [of "new_manifest ''b'' ?es" "''b''"]
    by (simp add: new_manifest_def dirs_of_def files_of_def dir_entry_def file_entry_def entry_shape_def)
qed

text \<open>
  C38. A baseline handed off comes back unchanged: what \<open>handoffRoot\<close> writes are the directories and the
  exact contents of the sealed files under a manifest that passes its check, and adopting that directory,
  however it is dir_item, succeeds, retains every file, and the adopted baseline can be borrowed.
\<close>

theorem handoff_imports_back:
  assumes "handoff_root sha m r build made io stored = Inr w" and "distinct (map fst (r_files r))"
    and "\<forall>(n, z)\<in>set (r_files r). file_ok m (z_data z)"
    and "\<forall>c. \<exists>h. hex_decode (sha c) = Some h \<and> length h = 32"
    and "distinct (map fst items)" and "set items = set (written_tree fd w)"
    and "\<forall>nb\<in>set (wr_files w). serves fd fstat unlinked nb"
  shows "check_manifest (wr_manifest w) build = None \<and> wr_dirs w = r_dirs r \<and>
    wr_files w = map (\<lambda>n. (n, contents m (z_data (the (map_of (r_files r) n))))) (sorted_names (r_files r)) \<and>
    adopt sha fstat unlinked None closes items (wr_manifest w) = (Inr (adopted fstat items (wr_manifest w)), []) \<and>
    acquire_owned m unlinked build (adopted fstat items (wr_manifest w)) = Inr (map (walk_prepared fstat) items)"
proof -
  note h = handoff_root_result [OF assms(1-3)]
  then have n: "map fst (wr_files w) = sorted_names (r_files r)" by (simp add: comp_def)
  have "check_manifest (wr_manifest w) build = None \<and> distinct (wr_dirs w @ map fst (wr_files w))"
    by (rule written_checked [OF _ assms(2) _ n _ assms(4), of m]) (use h in blast)+
  then have c: "check_manifest (wr_manifest w) build = None" "distinct (wr_dirs w @ map fst (wr_files w))" by blast+
  then show ?thesis
    using h written_adopted [OF c(2) assms(5-7)] adopted_acquired [OF assms(6,7) c(1)] by blast
qed

theorem handoff_imports_back_witness:
  "(let m = \<lparr>cells = (\<lambda>_. []), next_cell = 0\<rparr>; z = \<lparr>z_source = 5, z_data = empty_file\<lparr>f_size := 3, f_sealed := True\<rparr>\<rparr>;
        sha = (\<lambda>_. replicate 64 CHR ''a''); fstat = (\<lambda>_. Inr \<lparr>fd_regular = True, fd_bytes = 3, fd_links = 1, fd_readonly = True, fd_content = [0, 0, 0]\<rparr>);
        unlinked = (\<lambda>_. Inr \<lparr>fd_regular = True, fd_bytes = 3, fd_links = 0, fd_readonly = True, fd_content = [0, 0, 0]\<rparr>) in
      \<exists>w ob. handoff_root sha m (built_root 5 ''b'' [''.''] [(''f'', z)]) ''b'' None (\<lambda>_. None) None = Inr w \<and>
        wr_files w = [(''f'', [0, 0, 0])] \<and> check_manifest (wr_manifest w) ''b'' = None \<and>
        adopt sha fstat unlinked None (\<lambda>_. None) (rev (written_tree (\<lambda>_. 7) w)) (wr_manifest w) = (Inr ob, []))"
proof -
  let ?m = "\<lparr>cells = (\<lambda>_. []), next_cell = 0\<rparr> :: memory"
  let ?z = "\<lparr>z_source = 5, z_data = empty_file\<lparr>f_size := 3, f_sealed := True\<rparr>\<rparr> :: frozen"
  let ?r = "built_root 5 ''b'' [''.''] [(''f'', ?z)]"
  let ?sha = "\<lambda>_. replicate 64 CHR ''a''"
  let ?fstat = "\<lambda>_. Inr \<lparr>fd_regular = True, fd_bytes = 3, fd_links = 1, fd_readonly = True, fd_content = [0, 0, 0]\<rparr> :: goerr + descriptor"
  let ?unlinked = "\<lambda>_. Inr \<lparr>fd_regular = True, fd_bytes = 3, fd_links = 0, fd_readonly = True, fd_content = [0, 0, 0]\<rparr> :: goerr + descriptor"
  have names: "check_root_names [''.''] [(''f'', Some ?z)] = None" unfolding check_root_names_def by simp code_simp
  have rc: "root_check ?m ?r ''b'' = None"
    using names by (simp add: root_check_def built_root_def file_changed_def empty_file_def)
  have files: "r_files ?r = [(''f'', ?z)]" "r_dirs ?r = [''.'']" by (simp_all add: built_root_def)
  have ok: "file_ok ?m (z_data ?z)" by (simp add: file_ok_def empty_file_def)
  have cont: "contents ?m (z_data ?z) = [0, 0, 0]"
    by (simp add: contents_def byte_at_def empty_file_def upt_rec numeral_3_eq_3)
  have hex: "hex_decode (replicate 64 CHR ''a'') = Some (replicate 32 170)" by code_simp
  have copy: "copy_section (frozen_read ?m ?z) (f_size (z_data ?z)) 0 = (None, [0, 0, 0])"
    using copy_section_contents [OF ok, of 0] cont by simp
  obtain w where w: "handoff_root ?sha ?m ?r ''b'' None (\<lambda>_. None) None = Inr w"
    unfolding handoff_root_def rc files by (simp add: sorted_names_def copy [simplified])
  have d: "distinct (map fst (r_files ?r))" "\<forall>(n, z)\<in>set (r_files ?r). file_ok ?m (z_data z)" using ok by (simp_all add: files)
  note res = handoff_root_result [OF w d]
  have wf: "wr_files w = [(''f'', [0, 0, 0])]" "wr_dirs w = [''.'']" using res cont by (simp_all add: files sorted_names_def)
  have sha: "\<forall>c. \<exists>h. hex_decode (?sha c) = Some h \<and> length h = 32" using hex by simp
  have tree: "distinct (map fst (rev (written_tree (\<lambda>_. 7) w)))" by (simp add: wf written_tree_def)
  have srv: "\<forall>nb\<in>set (wr_files w). serves (\<lambda>_. 7) ?fstat ?unlinked nb" by (simp add: wf serves_def)
  note hand = handoff_imports_back [OF w d sha tree set_rev srv, where closes = "\<lambda>_. None"]
  have "adopt ?sha ?fstat ?unlinked None (\<lambda>_. None) (rev (written_tree (\<lambda>_. 7) w)) (wr_manifest w) =
      (Inr (adopted ?fstat (rev (written_tree (\<lambda>_. 7) w)) (wr_manifest w)), []) \<and> check_manifest (wr_manifest w) ''b'' = None"
    using hand by blast
  then show ?thesis unfolding Let_def using w wf by blast
qed

text \<open>
  C39. Descriptors are inherited only as a whole: either every one of them is private, read-only, unlinked
  backing of its own file of a checked manifest and all files are there; the baseline then has one entry for
  each name of the manifest, a directory or the descriptor of that file with its size, and can be borrowed; or
  exactly the descriptors that were taken are closed, each once, and an error says why.
\<close>

theorem inherited_exactly_matched:
  assumes "distinct (map fst (mf_entries mf))" and "receive_inherited fstat closes mf files build = (res, closed)"
  shows "case res of
      Inl e \<Rightarrow> e \<noteq> None \<and> distinct closed \<and> set closed = taken_fds files
    | Inr ob \<Rightarrow>
        closed = [] \<and> check_manifest mf build = None \<and> distinct (map fst files) \<and> distinct (map snd files) \<and>
        set (map fst files) = set (files_of (mf_entries mf)) \<and> ow_files ob = map snd files \<and>
        list_all (\<lambda>(n, fd). 3 \<le> fd \<and> inherits fstat (the (map_of (mf_entries mf) n)) fd) files \<and>
        ow_manifest ob = mf \<and> map e_name (ow_entries ob) = sort (map fst (mf_entries mf)) \<and>
        list_all (\<lambda>v. e_root v = None \<and> e_heap v = None \<and>
          (let e = the (map_of (mf_entries mf) (e_name v)) in
           if en_kind e = ''directory'' then e_directory v
           else \<not> e_directory v \<and> en_bytes e = Some (e_size v) \<and> (e_name v, e_fd v) \<in> set files)) (ow_entries ob) \<and>
        acquire_owned m fstat build ob = Inr (ow_entries ob)"
proof (cases res)
  case (Inl e)
  let ?x = "take_descriptors files \<lparr>ih_files = [], ih_names = [], ih_malformed = None\<rparr>"
  let ?ob = "no_owned\<lparr>ow_manifest := mf, ow_files := ih_files ?x\<rparr>"
  have "\<exists>y. refuse closes y ?ob = (res, closed)"
    using assms(2) Inl by (auto simp: receive_inherited_def Let_def split: option.splits sum.splits if_splits)
  then have "closed = ih_files ?x \<and> (\<exists>j. res = Inl (Some j))" using refuse_result [of closes _ ?ob res closed] by (auto simp: no_owned_def)
  then show ?thesis using take_descriptors_files [of "\<lparr>ih_files = [], ih_names = [], ih_malformed = None\<rparr>" files] Inl by auto
next
  case (Inr ob)
  note r = receive_inherited_ok [OF assms(1), of fstat closes files build ob closed] assms(2) Inr
  let ?es = "mf_entries mf"
  have "check_backing fstat (map snd files) (map (matched ?es files) (sort (map fst ?es))) = None"
    unfolding check_backing_None
  proof
    fix v assume "v \<in> set (map (matched ?es files) (sort (map fst ?es)))"
    then obtain n e where n: "(n, e) \<in> set ?es" "v = matched ?es files n" by auto
    show "e_directory v \<or> e_fd v \<in> set (map snd files) \<and>
        (\<exists>st. fstat (e_fd v) = Inr st \<and> fd_regular st \<and> fd_bytes st = e_size v \<and> fd_links st = 0)"
    proof (cases "en_kind e = ''directory''")
      case True
      then show ?thesis using n assms(1) by (simp add: matched_def dir_prepared_def)
    next
      case False
      then have "n \<in> set (map fst files)" using n r files_of_iff by auto
      then obtain fd where fd: "(n, fd) \<in> set files" by auto
      then have "map_of files n = Some fd" "inherits fstat (the (map_of ?es n)) fd" using r by auto
      then show ?thesis using n assms(1) fd False
        by (auto simp: matched_def file_prepared_def inherits_def split: sum.splits dest: sym [of "Some _"] intro!: image_eqI)
    qed
  qed
  then have acq: "acquire_owned m fstat build ob = Inr (ow_entries ob)" using r by (auto simp: acquire_owned_def no_owned_def)
  have ob: "ow_manifest ob = mf" "ow_entries ob = map (matched ?es files) (sort (map fst ?es))" using r by (simp_all add: no_owned_def)
  have "e_name (matched ?es files n) = n" for n by (simp add: matched_def dir_prepared_def file_prepared_def)
  then have names: "map e_name (ow_entries ob) = sort (map fst ?es)" by (simp add: ob comp_def)
  have "e_root v = None \<and> e_heap v = None \<and>
      (let e = the (map_of ?es (e_name v)) in
       if en_kind e = ''directory'' then e_directory v
       else \<not> e_directory v \<and> en_bytes e = Some (e_size v) \<and> (e_name v, e_fd v) \<in> set files)"
    if "v \<in> set (ow_entries ob)" for v
  proof -
    have "v \<in> matched ?es files ` fst ` set ?es" using that unfolding ob(2) by simp
    then obtain n e where n: "(n, e) \<in> set ?es" "v = matched ?es files n" by auto
    have look: "map_of ?es n = Some e" using n(1) assms(1) by simp
    show ?thesis
    proof (cases "en_kind e = ''directory''")
      case True
      then show ?thesis using n(2) look by (simp add: matched_def dir_prepared_def)
    next
      case False
      then have "n \<in> set (map fst files)" using n(1) r files_of_iff by auto
      then obtain fd where fd: "(n, fd) \<in> set files" by auto
      then have "map_of files n = Some fd" "inherits fstat e fd" using r look by auto
      then show ?thesis using n(2) look fd False
        by (auto simp: matched_def file_prepared_def inherits_def split: sum.splits dest: sym [of "Some _"])
    qed
  qed
  then have "list_all (\<lambda>v. e_root v = None \<and> e_heap v = None \<and>
      (let e = the (map_of ?es (e_name v)) in
       if en_kind e = ''directory'' then e_directory v
       else \<not> e_directory v \<and> en_bytes e = Some (e_size v) \<and> (e_name v, e_fd v) \<in> set files)) (ow_entries ob)"
    unfolding list_all_iff by blast
  then show ?thesis using r acq names ob(1) by (auto simp: list_all_iff simp del: set_map)
qed

theorem inherited_exactly_matched_witness:
  "(let mf = new_manifest ''b'' [(''.'', dir_entry), (''f'', file_entry 3 (replicate 64 CHR ''a''))];
        fstat = (\<lambda>_. Inr \<lparr>fd_regular = True, fd_bytes = 3, fd_links = 0, fd_readonly = True, fd_content = []\<rparr>) in
      snd (receive_inherited fstat (\<lambda>_. None) mf [(''f'', 7)] ''b'') = [] \<and>
      distinct (snd (receive_inherited fstat (\<lambda>_. None) mf [(''f'', 7), (''g'', 8)] ''b'')) \<and>
      set (snd (receive_inherited fstat (\<lambda>_. None) mf [(''f'', 7), (''g'', 8)] ''b'')) = {7, 8})"
proof -
  let ?mf = "new_manifest ''b'' [(''.'', dir_entry), (''f'', file_entry 3 (replicate 64 CHR ''a''))]"
  let ?fstat = "\<lambda>_. Inr \<lparr>fd_regular = True, fd_bytes = 3, fd_links = 0, fd_readonly = True, fd_content = []\<rparr> :: goerr + descriptor"
  have c: "check_manifest ?mf ''b'' = None" by code_simp
  have d: "distinct (map fst (mf_entries ?mf))" by (simp add: new_manifest_def)
  obtain r1 c1 where 1: "receive_inherited ?fstat (\<lambda>_. None) ?mf [(''f'', 7)] ''b'' = (r1, c1)" by (metis surj_pair)
  obtain r2 c2 where 2: "receive_inherited ?fstat (\<lambda>_. None) ?mf [(''f'', 7), (''g'', 8)] ''b'' = (r2, c2)" by (metis surj_pair)
  have s: "sort [''.'', ''f''] = [''.'', ''f'']" by code_simp
  have "\<exists>ob. r1 = Inr ob" using 1 c
    by (auto simp: receive_inherited_def Let_def new_manifest_def s dir_entry_def file_entry_def)
  moreover have "\<exists>e. r2 = Inl e" using 2 c
    by (auto simp: receive_inherited_def Let_def new_manifest_def s dir_entry_def file_entry_def refuse_def split: prod.splits)
  ultimately show ?thesis
    using inherited_exactly_matched [OF d 1] inherited_exactly_matched [OF d 2] 1 2 by (auto simp: taken_fds_def)
qed

text \<open>
  C40. However borrowing, giving back and closing interleave, as long as one borrower has not called the
  release it was given, the baseline is open and unchanged and a close waits. With no borrower left a close
  goes ahead; then each descriptor has been closed exactly once and nobody borrows the baseline again.
\<close>

theorem borrowed_stays_open:
  assumes "\<not> ow_closed ob" and "foldl share_step (\<lparr>sh_owned = ob, sh_borrows = 0\<rparr>, 0, []) ops = (s, held, log)"
  shows "(if 0 < held then sh_owned s = ob \<and> log = [] \<and> shared_close closes s = None
     else (\<exists>e closed s'. shared_close closes s = Some (e, closed, s') \<and> ow_closed (sh_owned s') \<and> log @ closed = ow_files ob)) \<and>
    (if ow_closed (sh_owned s)
     then log = ow_files ob \<and> fst (shared_acquire m fstat build s) = Inl (Sentinel ''snapshot is closed'')
     else sh_owned s = ob \<and> log = [] \<and> fst (shared_acquire m fstat build s) = acquire_owned m fstat build ob)"
proof -
  have "share_inv ob (s, held, log)"
    using share_machine.run_inv [of ob "(\<lparr>sh_owned = ob, sh_borrows = 0\<rparr>, 0, [])" ops] assms by (simp add: share_inv_def)
  then have i: "sh_borrows s = held" "if ow_closed (sh_owned s) then held = 0 \<and> log = ow_files ob \<and> ow_files (sh_owned s) = []
      else sh_owned s = ob \<and> log = []" by (simp_all add: share_inv_def)
  show ?thesis
  proof (cases "ow_closed (sh_owned s)")
    case True
    then show ?thesis using i by (simp add: shared_close_def close_owned_def shared_acquire_def acquire_owned_def)
  next
    case False
    then show ?thesis using i by (auto simp: shared_close_def close_owned_def shared_acquire_def Let_def split: sum.split)
  qed
qed

theorem borrowed_stays_open_witness:
  "(let ob = no_owned\<lparr>ow_manifest := new_manifest ''b'' [(''.'', dir_entry)], ow_files := [7, 9]\<rparr>; nothing = (\<lambda>_. None);
        start = (\<lparr>sh_owned = ob, sh_borrows = 0\<rparr>, 0, []);
        ops = [Borrow \<lparr>cells = (\<lambda>_. []), next_cell = 0\<rparr> (\<lambda>_. Inl err_canceled) ''b'', CloseShared nothing] in
      sh_owned (fst (foldl share_step start ops)) = ob \<and>
      snd (snd (foldl share_step start (ops @ [GiveBack, CloseShared nothing, CloseShared nothing]))) = [7, 9])"
proof -
  let ?m = "\<lparr>cells = (\<lambda>_. []), next_cell = 0\<rparr> :: memory"
  let ?ob = "no_owned\<lparr>ow_manifest := new_manifest ''b'' [(''.'', dir_entry)], ow_files := [7, 9]\<rparr>"
  let ?start = "(\<lparr>sh_owned = ?ob, sh_borrows = 0\<rparr>, 0, [])"
  let ?ops = "[Borrow ?m (\<lambda>_. Inl err_canceled) ''b'', CloseShared (\<lambda>_. None)]"
  let ?all = "?ops @ [GiveBack, CloseShared (\<lambda>_. None), CloseShared (\<lambda>_. None)]"
  obtain s h log where r: "foldl share_step ?start ?ops = (s, h, log)" by (metis prod_cases3)
  obtain s' h' log' where r': "foldl share_step ?start ?all = (s', h', log')" by (metis prod_cases3)
  have c: "check_manifest (new_manifest ''b'' [(''.'', dir_entry)]) ''b'' = None" by code_simp
  have "h = 1" using r c
    by (auto simp: shared_acquire_def acquire_owned_def shared_close_def close_owned_def shared_release_def no_owned_def Let_def)
  moreover have "ow_closed (sh_owned s')" using r' c
    by (auto simp: shared_acquire_def acquire_owned_def shared_close_def close_owned_def shared_release_def no_owned_def Let_def)
  ultimately have "sh_owned s = ?ob" "log' = [7, 9]"
    using borrowed_stays_open [OF _ r, of "\<lambda>_. None"] borrowed_stays_open [OF _ r', of "\<lambda>_. None"]
    by (simp_all add: no_owned_def)
  then show ?thesis unfolding Let_def using r r' by simp
qed

end
