(* ===== verification/ControlState.thy ===== *)
theory ControlState
  imports ForkPool SnapshotStore LiveEndpoint "HOL-Library.AList"
begin

text \<open>
  The shared host of \<open>internal/control\<close>: its state and the helpers of its requests. A baseline is its
  position in the list of baselines, so that the pointers a request holds outlive the table of
  handles; a lease is its baseline and its number in the baseline's pool. A Go map is an association
  list. What \<open>host.Server\<close>, \<open>makeDB\<close>'s system calls, \<open>time.ParseDuration\<close> and \<open>crypto/rand\<close> answer are
  arguments; the disposal owners are those of the theory \<open>Disposal\<close>, whose callbacks are \<open>run\<close>. The
  texts of logs are left out.
\<close>

section \<open>Data\<close>

datatype rv_stage = Reserved | Starting | Exported

record reservation =
  rv_base :: nat
  rv_handle :: nat
  rv_lease :: nat
  rv_stage :: rv_stage
  rv_path :: string

record times =
  t_query :: int
  t_startup :: int
  t_shutdown :: int

text \<open>A database; its server is never nil, since only \<open>makeDB\<close> creates one.\<close>

record db =
  d_server :: nat
  d_times :: times
  d_id :: string
  d_closed :: bool
  d_close_err :: "goerr option"
  d_lease :: "(nat \<times> nat) option"
  d_debt :: "goerr option"
  d_owned_log :: bool
  d_log :: nat

text \<open>\<open>bl_readers\<close> counts the requests that hold the baseline's lock for reading.\<close>

record baseline =
  bl_owned :: "owned option"
  bl_times :: times
  bl_closed :: bool
  bl_readers :: nat
  bl_pool :: pool

text \<open>A live child: a database with whether its first Close was tried, or a startup that failed (\<open>failedStartup\<close>).\<close>

datatype live_child = Child db bool | FailedStart "goerr option" nat nat

text \<open>
  Requests between two of their critical sections, with the locals they still use. The last
  argument of \<open>Retiring\<close> is the number of sections \<open>snapshot_close\<close> has passed.
\<close>

datatype flight =
    Reserving nat nat nat
  | Admitted nat nat
  | Launching nat nat
  | Exporting string nat nat
  | HandingOff string nat nat
  | Releasing string reservation
  | Retiring nat nat
  | LiveHeld nat nat
  | LiveStarting nat nat

record 'w control =
  ct_seq :: nat
  ct_lives :: "(nat \<times> endpoint) list"
  ct_dbs :: "(nat \<times> db) list"
  ct_snaps :: "(nat \<times> nat) list"
  ct_reservations :: "(string \<times> reservation) list"
  ct_retained :: "(string \<times> goerr option) list"
  ct_bases :: "baseline list"
  ct_children :: "live_child list"
  ct_flights :: "(nat \<times> flight) list"
  ct_store :: "'w owners"

definition new_manager :: "'w \<Rightarrow> 'w control" where
  "new_manager w = \<lparr>ct_seq = 0, ct_lives = [], ct_dbs = [], ct_snaps = [], ct_reservations = [], ct_retained = [],
     ct_bases = [], ct_children = [], ct_flights = [], ct_store = ([], w)\<rparr>"

text \<open>The fields of an answer that name resources or say what became of them; a field not set is not in the map.\<close>

record answer =
  an_closed :: "bool option"
  an_disposed :: "bool option"
  an_full :: "bool option"
  an_max :: "nat option"
  an_occupied :: "nat option"
  an_reservation :: "string option"
  an_lease :: "string option"
  an_cleanup :: "string option"
  an_cleanup_handle :: "nat option"
  an_database :: "nat option"
  an_snapshot :: "nat option"
  an_live :: "nat option"
  an_committed :: bool

definition no_answer :: answer where
  "no_answer = \<lparr>an_closed = None, an_disposed = None, an_full = None, an_max = None, an_occupied = None, an_reservation = None,
     an_lease = None, an_cleanup = None, an_cleanup_handle = None, an_database = None, an_snapshot = None, an_live = None,
     an_committed = False\<rparr>"

definition still_open :: answer where "still_open = no_answer\<lparr>an_closed := Some False\<rparr>"

text \<open>What a step of a request answers: nothing while it runs on or waits, else a map, or nil, and an error.\<close>

type_synonym ct_outcome = "(answer option \<times> goerr option) option"

definition answered :: "answer \<Rightarrow> goerr option \<Rightarrow> ct_outcome" where "answered a e = Some (Some a, e)"

section \<open>Options and tokens\<close>

definition invalid :: "string \<Rightarrow> goerr \<Rightarrow> ct_outcome" where
  "invalid stage e = answered still_open (Some (Diag ''invalid_options'' stage e))"

definition admission :: "goerr \<Rightarrow> goerr" where
  "admission e =
     (if err_is e err_cleanup then Diag ''unusable'' ''fork_admission'' e
      else if err_is e err_closed then Diag ''closed'' ''fork_wait'' e
      else if err_is e err_full then Diag ''busy'' ''fork_wait'' e
      else if err_is e err_canceled \<or> err_is e err_deadline then Diag ''pool_timeout'' ''fork_wait'' e
      else if err_is e err_lease then Diag ''invalid_options'' ''fork_options'' e
      else Diag ''unusable'' ''fork_admission'' e)"

definition capacity_code :: "goerr \<Rightarrow> string" where
  "capacity_code e = the (diag_code (admission e))"

text \<open>The argument is what the JSON field holds when it is a string.\<close>

definition token_field :: "string option \<Rightarrow> goerr + string" where
  "token_field raw =
     (case raw of
        Some s \<Rightarrow>
          if length s \<noteq> 32 then Inl (Sentinel ''expected an issued reservation/cleanup token'')
          else if hex_decode s = None then Inl (Sentinel ''invalid reservation/cleanup token'') else Inr s
      | None \<Rightarrow> Inl (Sentinel ''expected an issued reservation/cleanup token''))"

fun hex_digits :: "nat \<Rightarrow> nat \<Rightarrow> string" where
  "hex_digits 0 n = []"
| "hex_digits (Suc k) n = hex_digits k (n div 16) @ [''0123456789abcdef'' ! (n mod 16)]"

definition cleanup_token :: "nat \<Rightarrow> string" where "cleanup_token n = hex_digits 32 n"

definition duration :: "(string \<Rightarrow> goerr + int) \<Rightarrow> string \<Rightarrow> int \<Rightarrow> goerr + int" where
  "duration parse s fallback =
     (if s = [] then Inr fallback
      else case parse s of
        Inl _ \<Rightarrow> Inl (Sentinel ''timeouts must be positive and finite'')
      | Inr d \<Rightarrow> if d \<le> 0 then Inl (Sentinel ''timeouts must be positive and finite'') else Inr d)"

section \<open>Leases and databases\<close>

definition pending_cleanup :: "owner list \<Rightarrow> goerr option \<Rightarrow> bool" where
  "pending_cleanup os e \<longleftrightarrow> list_ex (\<lambda>i. \<not> o_done (os ! i)) (owners_of e)"

definition change_pool :: "nat \<Rightarrow> (pool \<Rightarrow> pool) \<Rightarrow> baseline list \<Rightarrow> baseline list" where
  "change_pool b f bs = bs[b := (bs ! b)\<lparr>bl_pool := f (bl_pool (bs ! b))\<rparr>]"

definition settle_startup :: "owner list \<Rightarrow> (nat \<times> nat) option \<Rightarrow> goerr option \<Rightarrow> baseline list \<Rightarrow> baseline list" where
  "settle_startup os lease e bs =
     (case lease of
        None \<Rightarrow> bs
      | Some (b, l) \<Rightarrow> if pending_cleanup os e then change_pool b (track_cleanup l e) bs else change_pool b (settle l None) bs)"

text \<open>\<open>complete\<close> is \<open>Server.DisposalComplete\<close>.\<close>

definition disposed :: "owner list \<Rightarrow> bool \<Rightarrow> db \<Rightarrow> bool" where
  "disposed os complete d \<longleftrightarrow> d_closed d \<and> d_debt d = None \<and> \<not> pending_cleanup os (d_close_err d) \<and> complete"

definition settle_db :: "owner list \<Rightarrow> bool \<Rightarrow> db \<Rightarrow> goerr option \<Rightarrow> baseline list \<Rightarrow> baseline list" where
  "settle_db os complete d e bs =
     (case d_lease d of
        None \<Rightarrow> bs
      | Some (b, l) \<Rightarrow>
          if d_debt d \<noteq> None then change_pool b (settle l e) bs
          else if pending_cleanup os e then change_pool b (track_cleanup l e) bs
          else if e = None \<or> disposed os complete d then change_pool b (settle l None) bs
          else change_pool b (settle l e) bs)"

text \<open>A server as its callers see it.\<close>

record 'w server_ops =
  sv_close :: "'w owners \<Rightarrow> goerr option \<times> 'w owners"
  sv_complete :: "'w \<Rightarrow> bool"

definition close_db ::
  "'w cleanup \<Rightarrow> 'w server_ops \<Rightarrow> db \<Rightarrow> baseline list \<Rightarrow> 'w owners \<Rightarrow> goerr option \<times> db \<times> baseline list \<times> 'w owners" where
  "close_db run sv d bs s =
     (if d_closed d then (d_close_err d, d, bs, s)
      else
        case sv_close sv s of
          (e, s1) \<Rightarrow>
            (case cleanup_after run e (d_log d) s1 of
               (ce, s2) \<Rightarrow>
                 let err = err_join [e, ce]; d1 = d\<lparr>d_closed := True, d_close_err := err\<rparr> in
                 (err, d1, settle_db (fst s2) (sv_complete sv (snd s2)) d1 err bs, s2)))"

definition retry_cleanup ::
  "'w cleanup \<Rightarrow> 'w server_ops \<Rightarrow> bool \<Rightarrow> db \<Rightarrow> baseline list \<Rightarrow> 'w owners \<Rightarrow> goerr option \<times> baseline list \<times> 'w owners" where
  "retry_cleanup run sv canceled d bs s =
     (case retry run canceled (d_close_err d) s of
        (Some e, s1) \<Rightarrow> (Some e, bs, s1)
      | (None, s1) \<Rightarrow>
          (case sv_close sv s1 of
             (e, s2) \<Rightarrow>
               (case cleanup_after run e (d_log d) s2 of
                  (ce, s3) \<Rightarrow>
                    let err = err_join [e, ce, d_debt d] in
                    (err,
                     if \<not> pending_cleanup (fst s3) err \<and> d_debt d = None \<and> (err = None \<or> sv_complete sv (snd s3))
                     then (case d_lease d of None \<Rightarrow> bs | Some (b, l) \<Rightarrow> change_pool b (settle l None) bs)
                     else bs,
                     s3))))"

section \<open>Starting a database\<close>

text \<open>
  \<open>makeDB\<close>. \<open>mk_flag\<close> is the field \<open>owned_log\<close>: absent, not a bool, or a bool. \<open>mk_open\<close> answers the
  creation of the log, \<open>mk_start\<close> is \<open>host.StartGenerated\<close>, \<open>mk_log\<close> the callback that closes and removes
  the log.
\<close>

record 'w making =
  mk_flag :: "bool option option"
  mk_query :: string
  mk_startup :: string
  mk_shutdown :: string
  mk_parse :: "string \<Rightarrow> goerr + int"
  mk_open :: "goerr option"
  mk_start :: "'w owners \<Rightarrow> (goerr + nat) \<times> 'w owners"
  mk_server :: "'w server_ops"
  mk_token :: "goerr + string"
  mk_ctx :: "goerr option"
  mk_log :: nat

definition default_times :: times where
  "default_times = \<lparr>t_query = 30 * 10 ^ 9, t_startup = 120 * 10 ^ 9, t_shutdown = 30 * 10 ^ 9\<rparr>"

definition make_times :: "'w making \<Rightarrow> times option \<Rightarrow> goerr + times" where
  "make_times mk base =
     (let t = (case base of None \<Rightarrow> default_times | Some t \<Rightarrow> t) in
      case duration (mk_parse mk) (mk_query mk) (t_query t) of
        Inl e \<Rightarrow> Inl e
      | Inr q \<Rightarrow>
          (case duration (mk_parse mk) (mk_startup mk) (t_startup t) of
             Inl e \<Rightarrow> Inl e
           | Inr st \<Rightarrow>
               (case duration (mk_parse mk) (mk_shutdown mk) (t_shutdown t) of
                  Inl e \<Rightarrow> Inl e
                | Inr sh \<Rightarrow> Inr \<lparr>t_query = q, t_startup = st, t_shutdown = sh\<rparr>)))"

definition abandon_db :: "'w cleanup \<Rightarrow> 'w making \<Rightarrow> db \<Rightarrow> goerr \<Rightarrow> 'w owners \<Rightarrow> goerr option \<times> 'w owners" where
  "abandon_db run mk d e s =
     (case close_db run (mk_server mk) d [] s of
        (ce, _, _, s1) \<Rightarrow> after_cause run (err_join [Some e, ce]) (mk_log mk) s1)"

definition make_db :: "'w cleanup \<Rightarrow> 'w making \<Rightarrow> times option \<Rightarrow> bool \<Rightarrow> 'w owners \<Rightarrow> (goerr option + db) \<times> 'w owners" where
  "make_db run mk base owned_log s =
     (if mk_flag mk = Some None
      then (Inl (Some (Diag ''invalid_options'' ''fork_options'' (Sentinel ''owned_log must be a bool''))), s)
      else
        case make_times mk base of
          Inl e \<Rightarrow> (Inl (Some e), s)
        | Inr t \<Rightarrow>
            (case mk_open mk of
               Some e \<Rightarrow> (Inl (Some e), s)
             | None \<Rightarrow>
                 (case mk_start mk s of
                    (Inl e, s1) \<Rightarrow> (case after_cause run (Some e) (mk_log mk) s1 of (e', s2) \<Rightarrow> (Inl e', s2))
                  | (Inr sv, s1) \<Rightarrow>
                      (let d = \<lparr>d_server = sv, d_times = t, d_id = [], d_closed = False, d_close_err = None, d_lease = None,
                               d_debt = None, d_owned_log = owned_log \<or> mk_flag mk = Some (Some True), d_log = mk_log mk\<rparr> in
                       case mk_token mk of
                         Inl e \<Rightarrow> (case abandon_db run mk d e s1 of (e', s2) \<Rightarrow> (Inl e', s2))
                       | Inr token \<Rightarrow>
                           (case mk_ctx mk of
                              Some e \<Rightarrow> (case abandon_db run mk (d\<lparr>d_id := token\<rparr>) e s1 of (e', s2) \<Rightarrow> (Inl e', s2))
                            | None \<Rightarrow> (Inr (d\<lparr>d_id := token\<rparr>), s1))))))"

text \<open>\<open>retainFailure\<close>: an unfinished cleanup is kept under a token the client can ask about.\<close>

definition retain_failure :: "goerr option \<Rightarrow> 'w control \<Rightarrow> answer \<times> 'w control" where
  "retain_failure e c =
     (if \<not> pending_cleanup (fst (ct_store c)) e
      then (no_answer\<lparr>an_closed := Some True, an_disposed := Some True\<rparr>, c)
      else
        let n = Suc (ct_seq c); token = cleanup_token n in
        (no_answer\<lparr>an_closed := Some True, an_disposed := Some False, an_cleanup := Some token\<rparr>,
         c\<lparr>ct_seq := n, ct_retained := AList.update token e (ct_retained c)\<rparr>))"

text \<open>\<open>create\<close>; the lease is the database's from here on.\<close>

definition create :: "'w cleanup \<Rightarrow> 'w making \<Rightarrow> times option \<Rightarrow> (nat \<times> nat) option \<Rightarrow> 'w control \<Rightarrow> ct_outcome \<times> 'w control" where
  "create run mk base lease c =
     (case make_db run mk base False (ct_store c) of
        (Inl e, s) \<Rightarrow>
          (case retain_failure e (c\<lparr>ct_store := s, ct_bases := settle_startup (fst s) lease e (ct_bases c)\<rparr>) of
             (a, c') \<Rightarrow> (answered a e, c'))
      | (Inr d, s) \<Rightarrow>
          (let n = Suc (ct_seq c) in
           (answered (no_answer\<lparr>an_database := Some n\<rparr>) None,
            c\<lparr>ct_store := s, ct_seq := n, ct_dbs := AList.update n (d\<lparr>d_lease := lease\<rparr>) (ct_dbs c)\<rparr>)))"

end
