(* ===== verification/ControlPlane.thy ===== *)
theory ControlPlane
  imports ControlState
begin

text \<open>
  The requests of the shared host (\<open>internal/control\<close>), one critical section per definition: forks and
  their reservations (\<open>fork.go\<close>), the factory of live endpoints (\<open>live.go\<close>, \<open>internal/live/startup.go\<close>),
  databases, captures and closes (\<open>shared.go\<close>). A request between two sections is a flight under its
  request number \<open>r\<close>.
\<close>

abbreviation pool_at :: "'w control \<Rightarrow> nat \<Rightarrow> pool" where
  "pool_at c b \<equiv> bl_pool (ct_bases c ! b)"

definition on_pool :: "nat \<Rightarrow> (pool \<Rightarrow> pool) \<Rightarrow> 'w control \<Rightarrow> 'w control" where
  "on_pool b f c = c\<lparr>ct_bases := change_pool b f (ct_bases c)\<rparr>"

definition fly :: "nat \<Rightarrow> flight \<Rightarrow> 'w control \<Rightarrow> 'w control" where
  "fly r f c = c\<lparr>ct_flights := AList.update r f (ct_flights c)\<rparr>"

definition land :: "nat \<Rightarrow> 'w control \<Rightarrow> 'w control" where
  "land r c = c\<lparr>ct_flights := AList.delete r (ct_flights c)\<rparr>"

definition lock_read :: "nat \<Rightarrow> 'w control \<Rightarrow> 'w control" where
  "lock_read b c = c\<lparr>ct_bases := (ct_bases c)[b := (ct_bases c ! b)\<lparr>bl_readers := Suc (bl_readers (ct_bases c ! b))\<rparr>]\<rparr>"

definition unlock_read :: "nat \<Rightarrow> 'w control \<Rightarrow> 'w control" where
  "unlock_read b c = c\<lparr>ct_bases := (ct_bases c)[b := (ct_bases c ! b)\<lparr>bl_readers := bl_readers (ct_bases c ! b) - 1\<rparr>]\<rparr>"

section \<open>Reservations\<close>

text \<open>\<open>fork_reserve\<close>: the admission, then the token and the entry of the table.\<close>

definition reserve_begin :: "nat \<Rightarrow> nat \<Rightarrow> 'w control \<Rightarrow> ct_outcome \<times> 'w control" where
  "reserve_begin r h c =
     (case map_of (ct_snaps c) h of
        None \<Rightarrow> (answered still_open (Some (admission err_closed)), c)
      | Some b \<Rightarrow>
          (case try_acquire False (pool_at c b) of
             (Inl e, p) \<Rightarrow>
               if e = err_full
               then (answered (still_open\<lparr>an_full := Some True, an_max := Some (fst (usage p)), an_occupied := Some (snd (usage p))\<rparr>) None, c)
               else (answered still_open (Some (admission (the (describe p (Some e))))), c)
           | (Inr l, p) \<Rightarrow> (None, fly r (Reserving h b l) (on_pool b (\<lambda>_. p) c))))"

definition reserve_end :: "nat \<Rightarrow> nat \<Rightarrow> nat \<Rightarrow> nat \<Rightarrow> goerr + string \<Rightarrow> 'w control \<Rightarrow> ct_outcome \<times> 'w control" where
  "reserve_end r h b l token c =
     (case token of
        Inl e \<Rightarrow> (Some (None, Some e), land r (on_pool b (cancel l) c))
      | Inr tok \<Rightarrow>
          (answered (still_open\<lparr>an_reservation := Some tok, an_full := Some False\<rparr>) None,
           land r (c\<lparr>ct_reservations := AList.update tok
             \<lparr>rv_base = b, rv_handle = h, rv_lease = l, rv_stage = Reserved, rv_path = []\<rparr> (ct_reservations c)\<rparr>)))"

text \<open>What the requests on an issued reservation share.\<close>

definition find_reservation :: "nat \<Rightarrow> string option \<Rightarrow> 'w control \<Rightarrow> ct_outcome + (string \<times> reservation)" where
  "find_reservation h raw c =
     (case token_field raw of
        Inl e \<Rightarrow> Inl (invalid ''fork_options'' e)
      | Inr tok \<Rightarrow>
          (case map_of (ct_reservations c) tok of
             None \<Rightarrow> Inl (answered (still_open\<lparr>an_disposed := Some True\<rparr>) None)
           | Some a \<Rightarrow>
               if rv_handle a \<noteq> h then Inl (invalid ''fork_options'' (Sentinel ''reservation belongs to another Snapshot''))
               else Inr (tok, a)))"

definition fork_cancel :: "nat \<Rightarrow> string option \<Rightarrow> 'w control \<Rightarrow> ct_outcome \<times> 'w control" where
  "fork_cancel h raw c =
     (case find_reservation h raw c of
        Inl out \<Rightarrow> (out, c)
      | Inr (tok, a) \<Rightarrow>
          (answered still_open None,
           if rv_stage a = Reserved
           then on_pool (rv_base a) (cancel (rv_lease a)) (c\<lparr>ct_reservations := AList.delete tok (ct_reservations c)\<rparr>)
           else c))"

definition not_exported :: ct_outcome where
  "not_exported = invalid ''fork_options'' (Sentinel ''handoff has not completed'')"

definition handoff_abandon :: "nat \<Rightarrow> string option \<Rightarrow> 'w control \<Rightarrow> ct_outcome \<times> 'w control" where
  "handoff_abandon h raw c =
     (case find_reservation h raw c of
        Inl out \<Rightarrow> (out, c)
      | Inr (tok, a) \<Rightarrow>
          if rv_stage a \<noteq> Exported then (not_exported, c)
          else (answered still_open None,
                on_pool (rv_base a) (settle (rv_lease a) (Some (Sentinel ''remote child cleanup is not confirmed''))) c))"

text \<open>Two pointers to reservations are equal when their leases are.\<close>

definition still_there :: "string \<Rightarrow> reservation \<Rightarrow> (string \<times> reservation) list \<Rightarrow> bool" where
  "still_there tok a vs \<longleftrightarrow>
     (case map_of vs tok of None \<Rightarrow> False | Some v \<Rightarrow> rv_base v = rv_base a \<and> rv_lease v = rv_lease a)"

text \<open>\<open>handoff_release\<close>: the entry is found under the lock, the path removed outside it by the callback \<open>k\<close>.\<close>

definition release_begin :: "nat \<Rightarrow> nat \<Rightarrow> string option \<Rightarrow> 'w control \<Rightarrow> ct_outcome \<times> 'w control" where
  "release_begin r h raw c =
     (case find_reservation h raw c of
        Inl out \<Rightarrow> (out, c)
      | Inr (tok, a) \<Rightarrow>
          if rv_stage a \<noteq> Exported then (not_exported, c) else (None, fly r (Releasing tok a) c))"

definition release_end :: "'w cleanup \<Rightarrow> nat \<Rightarrow> string \<Rightarrow> reservation \<Rightarrow> nat \<Rightarrow> 'w control \<Rightarrow> ct_outcome \<times> 'w control" where
  "release_end run r tok a k c =
     (case after_cause run None k (ct_store c) of
        (Some e, s) \<Rightarrow>
          (answered still_open (Some e), land r (on_pool (rv_base a) (track_cleanup (rv_lease a) (Some e)) (c\<lparr>ct_store := s\<rparr>)))
      | (None, s) \<Rightarrow>
          (answered (still_open\<lparr>an_disposed := Some True\<rparr>) None,
           land r (on_pool (rv_base a) (settle (rv_lease a) None)
             (c\<lparr>ct_store := s, ct_reservations :=
                (if still_there tok a (ct_reservations c) then AList.delete tok (ct_reservations c) else ct_reservations c)\<rparr>))))"

definition cleanup_status :: "'w cleanup \<Rightarrow> string option \<Rightarrow> bool \<Rightarrow> 'w control \<Rightarrow> ct_outcome \<times> 'w control" where
  "cleanup_status run raw canceled c =
     (case token_field raw of
        Inl e \<Rightarrow> (invalid ''fork_options'' e, c)
      | Inr tok \<Rightarrow>
          (let cause = (case map_of (ct_retained c) tok of None \<Rightarrow> None | Some e \<Rightarrow> e) in
           case retry run canceled cause (ct_store c) of
             (e, s) \<Rightarrow>
               let ok = \<not> pending_cleanup (fst s) cause \<and> e = None in
               (answered (no_answer\<lparr>an_closed := Some True, an_disposed := Some ok\<rparr>) e,
                (if ok then c\<lparr>ct_store := s, ct_retained := AList.delete tok (ct_retained c)\<rparr> else c\<lparr>ct_store := s\<rparr>))))"

definition claim :: "nat \<Rightarrow> string option \<Rightarrow> bool \<Rightarrow> 'w control \<Rightarrow> (goerr + (string \<times> reservation)) \<times> 'w control" where
  "claim h raw export c =
     (case token_field raw of
        Inl e \<Rightarrow> (Inl e, c)
      | Inr tok \<Rightarrow>
          (case map_of (ct_reservations c) tok of
             None \<Rightarrow> (Inl err_lease, c)
           | Some a \<Rightarrow>
               if rv_handle a \<noteq> h \<or> rv_stage a \<noteq> Reserved then (Inl err_lease, c)
               else if \<not> export then (Inr (tok, a), c\<lparr>ct_reservations := AList.delete tok (ct_reservations c)\<rparr>)
               else (Inr (tok, a), c\<lparr>ct_reservations := AList.update tok (a\<lparr>rv_stage := Starting\<rparr>) (ct_reservations c)\<rparr>)))"

text \<open>\<open>cancelReservations\<close>, in the order of the table.\<close>

fun cancel_each :: "nat \<Rightarrow> (string \<times> reservation) list \<Rightarrow> 'w control \<Rightarrow> 'w control" where
  "cancel_each b [] c = c"
| "cancel_each b ((tok, a) # vs) c =
     cancel_each b vs
       (if rv_base a = b \<and> rv_stage a = Reserved
        then on_pool b (cancel (rv_lease a)) (c\<lparr>ct_reservations := AList.delete tok (ct_reservations c)\<rparr>)
        else c)"

definition cancel_reservations :: "nat \<Rightarrow> 'w control \<Rightarrow> 'w control" where
  "cancel_reservations b c = cancel_each b (ct_reservations c) c"

section \<open>Forks\<close>

text \<open>
  \<open>fork\<close>. \<open>wait\<close> is the decoded \<open>fork_timeout\<close>, \<open>raw\<close> the reservation; both may be absent. \<open>before\<close> and \<open>now\<close>
  are the waiting context's error around an attempt of \<open>Acquire\<close>; without a place and without an error
  the request waits for another attempt.
\<close>

definition fork_begin ::
  "nat \<Rightarrow> nat \<Rightarrow> (goerr + int) option \<Rightarrow> string option option \<Rightarrow> goerr option \<Rightarrow> goerr option \<Rightarrow> 'w control \<Rightarrow> ct_outcome \<times> 'w control" where
  "fork_begin r h wait raw before now c =
     (case (wait, raw) of
        (Some (Inl e), _) \<Rightarrow> (invalid ''fork_options'' e, c)
      | (Some (Inr _), Some _) \<Rightarrow> (invalid ''fork_options'' (Sentinel ''reserved startup cannot wait for capacity again''), c)
      | (_, Some token) \<Rightarrow>
          (case claim h token False c of
             (Inl e, c') \<Rightarrow> (answered still_open (Some (admission e)), c')
           | (Inr (tok, a), c') \<Rightarrow> (None, fly r (Admitted (rv_base a) (rv_lease a)) c'))
      | (_, None) \<Rightarrow>
          (case map_of (ct_snaps c) h of
             None \<Rightarrow> (answered still_open (Some (admission err_closed)), c)
           | Some b \<Rightarrow>
               (case acquire_once before now (pool_at c b) of
                  (Refused e, p) \<Rightarrow> (answered still_open (Some (admission (the (describe p (Some e))))), on_pool b (\<lambda>_. p) c)
                | (Waiting _, _) \<Rightarrow> (None, c)
                | (Got l, p) \<Rightarrow> (None, fly r (Admitted b l) (on_pool b (\<lambda>_. p) c)))))"

definition fork_enter :: "nat \<Rightarrow> nat \<Rightarrow> nat \<Rightarrow> 'w control \<Rightarrow> ct_outcome \<times> 'w control" where
  "fork_enter r b l c =
     (if bl_closed (ct_bases c ! b)
      then (answered still_open (Some (admission err_closed)), land r (on_pool b (cancel l) c))
      else case activate l (pool_at c b) of
        (Some e, p) \<Rightarrow> (invalid ''fork_options'' e, land r (on_pool b (cancel l) c))
      | (None, p) \<Rightarrow> (None, fly r (Launching b l) (lock_read b (on_pool b (\<lambda>_. p) c))))"

definition fork_end :: "'w cleanup \<Rightarrow> nat \<Rightarrow> nat \<Rightarrow> nat \<Rightarrow> 'w making \<Rightarrow> 'w control \<Rightarrow> ct_outcome \<times> 'w control" where
  "fork_end run r b l mk c =
     (case create run mk (Some (bl_times (ct_bases c ! b))) (Some (b, l)) c of (out, c') \<Rightarrow> (out, unlock_read b (land r c')))"

text \<open>\<open>start\<close>, without or with a transferred baseline, which \<open>Import\<close> answered and \<open>k\<close> closes.\<close>

definition start_db :: "'w cleanup \<Rightarrow> 'w making \<Rightarrow> ((goerr + owned) \<times> nat) option \<Rightarrow> 'w control \<Rightarrow> ct_outcome \<times> 'w control" where
  "start_db run mk transfer c =
     (case transfer of
        None \<Rightarrow> create run mk None None c
      | Some (Inl e, _) \<Rightarrow> (Some (None, Some e), c)
      | Some (Inr _, k) \<Rightarrow>
          (case create run mk (Some default_times) None c of
             (Some (a, e), c') \<Rightarrow>
               (case after_cause run e k (ct_store c') of (e', s) \<Rightarrow> (Some (a, e'), c'\<lparr>ct_store := s\<rparr>))
           | (None, c') \<Rightarrow> (None, c')))"

section \<open>Exports\<close>

definition export_begin :: "nat \<Rightarrow> nat \<Rightarrow> string option \<Rightarrow> 'w control \<Rightarrow> ct_outcome \<times> 'w control" where
  "export_begin r h raw c =
     (case claim h raw True c of
        (Inl e, c') \<Rightarrow> (invalid ''fork_options'' e, c')
      | (Inr (tok, a), c') \<Rightarrow> (None, fly r (Exporting tok (rv_base a) (rv_lease a)) c'))"

text \<open>The local \<open>fail\<close> of \<open>exportReserved\<close>.\<close>

definition export_fail :: "nat \<Rightarrow> string \<Rightarrow> nat \<Rightarrow> nat \<Rightarrow> goerr option \<Rightarrow> 'w control \<Rightarrow> ct_outcome \<times> 'w control" where
  "export_fail r tok b l e c =
     (let c1 = c\<lparr>ct_bases := settle_startup (fst (ct_store c)) (Some (b, l)) e (ct_bases c),
                 ct_reservations := AList.delete tok (ct_reservations c)\<rparr> in
      case retain_failure e c1 of (a, c2) \<Rightarrow> (answered a e, land r c2))"

text \<open>The locked baseline is checked, the lease activated and the transfer directory \<open>path\<close> made.\<close>

definition export_enter ::
  "nat \<Rightarrow> string \<Rightarrow> nat \<Rightarrow> nat \<Rightarrow> goerr option \<Rightarrow> goerr option \<Rightarrow> string \<Rightarrow> 'w control \<Rightarrow> ct_outcome \<times> 'w control" where
  "export_enter r tok b l ctx made path c =
     (if bl_closed (ct_bases c ! b) then export_fail r tok b l (Some (admission err_closed)) (on_pool b (cancel l) c)
      else case activate l (pool_at c b) of
        (Some e, p) \<Rightarrow> export_fail r tok b l (Some (admission e)) (on_pool b (cancel l) c)
      | (None, p) \<Rightarrow>
          (let c1 = on_pool b (\<lambda>_. p) c in
           case ctx of
             Some e \<Rightarrow> export_fail r tok b l (Some e) c1
           | None \<Rightarrow>
               (case made of
                  Some e \<Rightarrow> export_fail r tok b l (Some e) c1
                | None \<Rightarrow>
                    (None, fly r (HandingOff tok b l) (lock_read b (c1\<lparr>ct_reservations :=
                       AList.update tok ((the (map_of (ct_reservations c) tok))\<lparr>rv_path := path\<rparr>) (ct_reservations c)\<rparr>))))))"

text \<open>\<open>written\<close> is what \<open>Owned.Handoff\<close> answers; after a failure the callback \<open>k\<close> removes the directory.\<close>

definition export_end ::
  "'w cleanup \<Rightarrow> nat \<Rightarrow> string \<Rightarrow> nat \<Rightarrow> nat \<Rightarrow> goerr option \<Rightarrow> nat \<Rightarrow> 'w control \<Rightarrow> ct_outcome \<times> 'w control" where
  "export_end run r tok b l written k c =
     (case written of
        Some e \<Rightarrow>
          (case after_cause run (Some e) k (ct_store c) of
             (e', s) \<Rightarrow>
               (case export_fail r tok b l e' (c\<lparr>ct_store := s\<rparr>) of (out, c') \<Rightarrow> (out, unlock_read b c')))
      | None \<Rightarrow>
          (answered (still_open\<lparr>an_lease := Some tok\<rparr>) None,
           unlock_read b (land r (c\<lparr>ct_reservations :=
             AList.update tok ((the (map_of (ct_reservations c) tok))\<lparr>rv_stage := Exported\<rparr>) (ct_reservations c)\<rparr>))))"

end
