(* ===== verification/ControlRequests.thy ===== *)
theory ControlRequests
  imports ControlPlane ForkCapacity
begin

text \<open>
  The rest of the shared host (\<open>internal/control\<close>): the factory and the requests of live endpoints,
  closing, capturing and cleaning up, the roll-back of a request nobody waits for any more, and the
  steps of all of it.
\<close>

section \<open>Live endpoints\<close>

text \<open>The factory of \<open>createLive\<close>: \<open>Reserve\<close> and its \<open>Cancel\<close>, then \<open>Start\<close> around \<open>makeDB\<close>.\<close>

definition live_reserve :: "nat \<Rightarrow> nat \<Rightarrow> bool \<Rightarrow> goerr option \<Rightarrow> 'w control \<Rightarrow> ct_outcome \<times> 'w control" where
  "live_reserve r b recover ctx c =
     (case ctx of
        Some e \<Rightarrow> (Some (None, Some e), c)
      | None \<Rightarrow>
          (case try_acquire recover (pool_at c b) of
             (Inl e, p) \<Rightarrow> (Some (None, diag_wrap (capacity_code e) ''live_capacity'' (describe p (Some e))), on_pool b (\<lambda>_. p) c)
           | (Inr l, p) \<Rightarrow> (None, fly r (LiveHeld b l) (on_pool b (\<lambda>_. p) c))))"

definition live_cancel :: "nat \<Rightarrow> nat \<Rightarrow> nat \<Rightarrow> 'w control \<Rightarrow> ct_outcome \<times> 'w control" where
  "live_cancel r b l c = (Some (None, None), land r (on_pool b (cancel l) c))"

definition live_enter :: "nat \<Rightarrow> nat \<Rightarrow> nat \<Rightarrow> goerr option \<Rightarrow> 'w control \<Rightarrow> ct_outcome \<times> 'w control" where
  "live_enter r b l random c =
     (if bl_closed (ct_bases c ! b)
      then (Some (None, Some (Sentinel ''snapshot is closed'')), land r (on_pool b (cancel l) c))
      else case activate l (pool_at c b) of
        (Some e, p) \<Rightarrow> (Some (None, Some (admission e)), land r (on_pool b (cancel l) c))
      | (None, p) \<Rightarrow>
          (case random of
             Some e \<Rightarrow> (Some (None, Some e), land r (on_pool b (settle l None) (on_pool b (\<lambda>_. p) c)))
           | None \<Rightarrow> (None, fly r (LiveStarting b l) (lock_read b (on_pool b (\<lambda>_. p) c)))))"

definition retain_startup :: "goerr option \<Rightarrow> nat \<Rightarrow> nat \<Rightarrow> live_child list" where
  "retain_startup e b l = (if owners_of e = [] then [] else [FailedStart e b l])"

definition live_end :: "'w cleanup \<Rightarrow> nat \<Rightarrow> nat \<Rightarrow> nat \<Rightarrow> 'w making \<Rightarrow> 'w control \<Rightarrow> ct_outcome \<times> 'w control" where
  "live_end run r b l mk c =
     (case make_db run mk (Some (bl_times (ct_bases c ! b))) True (ct_store c) of
        (Inl e, s) \<Rightarrow>
          (Some (None, e),
           unlock_read b (land r (c\<lparr>ct_store := s, ct_bases := settle_startup (fst s) (Some (b, l)) e (ct_bases c),
             ct_children := ct_children c @ retain_startup e b l\<rparr>)))
      | (Inr d, s) \<Rightarrow>
          (Some (None, None),
           unlock_read b (land r (c\<lparr>ct_store := s, ct_children := ct_children c @ [Child (d\<lparr>d_lease := Some (b, l)\<rparr>) False]\<rparr>))))"

text \<open>\<open>Close\<close> of a child; the callback \<open>k\<close> closes and removes the child's log.\<close>

definition close_started ::
  "'w cleanup \<Rightarrow> 'w server_ops \<Rightarrow> bool \<Rightarrow> nat \<Rightarrow> db \<Rightarrow> bool \<Rightarrow> baseline list \<Rightarrow> 'w owners \<Rightarrow> goerr option \<times> db \<times> baseline list \<times> 'w owners" where
  "close_started run sv canceled k d attempted bs s =
     (case (if attempted then (case retry_cleanup run sv canceled d bs s of (e, bs1, s1) \<Rightarrow> (e, d, bs1, s1))
            else close_db run sv d bs s) of
        (e, d1, bs1, s1) \<Rightarrow>
          (case cleanup_after run e k s1 of
             (ce, s2) \<Rightarrow>
               let err = err_join [e, ce] in (err, d1, settle_db (fst s2) (sv_complete sv (snd s2)) d1 err bs1, s2)))"

definition child_close :: "'w cleanup \<Rightarrow> 'w server_ops \<Rightarrow> bool \<Rightarrow> nat \<Rightarrow> nat \<Rightarrow> 'w control \<Rightarrow> ct_outcome \<times> 'w control" where
  "child_close run sv canceled k i c =
     (if length (ct_children c) \<le> i then (None, c)
      else case ct_children c ! i of
        Child d attempted \<Rightarrow>
          (case close_started run sv canceled k d attempted (ct_bases c) (ct_store c) of
             (e, d1, bs, s) \<Rightarrow> (Some (None, e), c\<lparr>ct_children := (ct_children c)[i := Child d1 True], ct_bases := bs, ct_store := s\<rparr>))
      | FailedStart cause b l \<Rightarrow>
          (case retry run canceled cause (ct_store c) of
             (Some e, s) \<Rightarrow> (Some (None, Some e), c\<lparr>ct_store := s\<rparr>)
           | (None, s) \<Rightarrow> (Some (None, None), on_pool b (settle l None) (c\<lparr>ct_store := s\<rparr>))))"

text \<open>\<open>createLive\<close> and \<open>callLive\<close>; \<open>made\<close> is \<open>live.New\<close>, \<open>f\<close> the endpoint's own \<open>Reset\<close> or \<open>Close\<close>.\<close>

definition create_live :: "nat \<Rightarrow> endpoint option \<times> goerr option \<Rightarrow> 'w control \<Rightarrow> ct_outcome \<times> 'w control" where
  "create_live h made c =
     (case map_of (ct_snaps c) h of
        None \<Rightarrow> (answered still_open (Some (Diag ''closed'' ''live_precondition'' (Sentinel ''snapshot is closed''))), c)
      | Some b \<Rightarrow>
          if limit (pool_at c b) < 2 then (invalid ''live_precondition'' (Sentinel ''Live requires max_forks >= 2''), c)
          else
            let n = Suc (ct_seq c); keep = (\<lambda>e. c\<lparr>ct_seq := n, ct_lives := AList.update n e (ct_lives c)\<rparr>) in
            (case made of
               (live, Some x) \<Rightarrow> (answered still_open (Some x), case live of None \<Rightarrow> c | Some e \<Rightarrow> keep e)
             | (Some e, None) \<Rightarrow> (answered (still_open\<lparr>an_live := Some n\<rparr>) None, keep e)
             | (None, None) \<Rightarrow> (None, c)))"

datatype live_call = CallReset string string | CallClose | CallStatus

definition call_live ::
  "(string \<Rightarrow> goerr + int) \<Rightarrow> nat \<Rightarrow> live_call \<Rightarrow> (endpoint \<Rightarrow> goerr option \<times> endpoint) \<Rightarrow> 'w control \<Rightarrow> ct_outcome \<times> 'w control" where
  "call_live parse h call f c =
     (case map_of (ct_lives c) h of
        None \<Rightarrow>
          (answered (no_answer\<lparr>an_closed := Some True\<rparr>)
             (if call = CallClose then None else Some (Diag ''closed'' ''live_control'' (Sentinel ''live is closed''))), c)
      | Some e \<Rightarrow>
          (let reply = (\<lambda>x e'. answered (no_answer\<lparr>an_closed := Some (ep_state e' = Closed),
                 an_committed := (case call of CallReset _ _ \<Rightarrow> x = None | _ \<Rightarrow> False)\<rparr>) x);
               put = (\<lambda>e'. c\<lparr>ct_lives := AList.update h e' (ct_lives c)\<rparr>) in
           case call of
             CallReset timeout drain \<Rightarrow>
               (case duration parse timeout (120 * 10 ^ 9) of
                  Inl x \<Rightarrow> (invalid ''live_precondition'' x, c)
                | Inr _ \<Rightarrow>
                    (case duration parse drain (5 * 10 ^ 9) of
                       Inl x \<Rightarrow> (invalid ''live_precondition'' x, c)
                     | Inr _ \<Rightarrow> (case f e of (x, e') \<Rightarrow> (reply x e', put e'))))
           | CallClose \<Rightarrow>
               (case f e of
                  (Some x, e') \<Rightarrow> (reply (Some x) e', put e')
                | (None, e') \<Rightarrow> (reply None e', c\<lparr>ct_lives := AList.delete h (ct_lives c)\<rparr>))
           | CallStatus \<Rightarrow> (reply None e, c)))"

section \<open>Closing a snapshot\<close>

definition snapshot_close :: "nat \<Rightarrow> nat \<Rightarrow> 'w control \<Rightarrow> ct_outcome \<times> 'w control" where
  "snapshot_close r h c =
     (case map_of (ct_snaps c) h of
        None \<Rightarrow> (answered no_answer None, c)
      | Some b \<Rightarrow> (None, fly r (Retiring b 0) (c\<lparr>ct_snaps := AList.delete h (ct_snaps c)\<rparr>)))"

definition close_backing :: "(int \<Rightarrow> goerr option) \<Rightarrow> owned option \<Rightarrow> goerr option \<times> owned option" where
  "close_backing closes x =
     (case x of None \<Rightarrow> (None, None) | Some ob \<Rightarrow> (case close_owned closes ob of (e, _, ob') \<Rightarrow> (e, Some ob')))"

text \<open>The pool closes, the reservations go, and once no request reads the baseline its backing is closed.\<close>

definition retire_step :: "nat \<Rightarrow> nat \<Rightarrow> nat \<Rightarrow> (int \<Rightarrow> goerr option) \<Rightarrow> 'w control \<Rightarrow> ct_outcome \<times> 'w control" where
  "retire_step r b n closes c =
     (if n = 0 then (None, fly r (Retiring b 1) (on_pool b close_pool c))
      else if n = 1 then (None, fly r (Retiring b 2) (cancel_reservations b c))
      else if bl_readers (ct_bases c ! b) \<noteq> 0 then (None, c)
      else case close_backing closes (bl_owned (ct_bases c ! b)) of
        (e, x) \<Rightarrow>
          (answered no_answer e,
           land r (c\<lparr>ct_bases := (ct_bases c)[b := (ct_bases c ! b)\<lparr>bl_closed := True, bl_owned := x\<rparr>]\<rparr>)))"

section \<open>Databases\<close>

text \<open>\<open>gate\<close> is the error of the wait for the database's turn.\<close>

definition put_db :: "nat \<Rightarrow> db \<Rightarrow> 'w control \<Rightarrow> 'w control" where
  "put_db h d c = c\<lparr>ct_dbs := AList.update h d (ct_dbs c)\<rparr>"

definition drop_db :: "nat \<Rightarrow> 'w control \<Rightarrow> 'w control" where
  "drop_db h c = c\<lparr>ct_dbs := AList.delete h (ct_dbs c)\<rparr>"

definition db_close :: "'w cleanup \<Rightarrow> 'w server_ops \<Rightarrow> goerr option \<Rightarrow> nat \<Rightarrow> 'w control \<Rightarrow> ct_outcome \<times> 'w control" where
  "db_close run sv gate h c =
     (case map_of (ct_dbs c) h of
        None \<Rightarrow> (answered (no_answer\<lparr>an_closed := Some True, an_disposed := Some True\<rparr>) None, c)
      | Some d \<Rightarrow>
          (case gate of
             Some e \<Rightarrow> (Some (None, Some e), c)
           | None \<Rightarrow>
               (case close_db run sv d (ct_bases c) (ct_store c) of
                  (e, d1, bs, s) \<Rightarrow>
                    let gone = disposed (fst s) (sv_complete sv (snd s)) d1; c1 = put_db h d1 (c\<lparr>ct_bases := bs, ct_store := s\<rparr>) in
                    (answered (no_answer\<lparr>an_closed := Some True, an_disposed := Some gone,
                        an_cleanup_handle := (if gone then None else Some h)\<rparr>) e,
                     if gone then drop_db h c1 else c1))))"

definition db_cleanup :: "'w cleanup \<Rightarrow> 'w server_ops \<Rightarrow> bool \<Rightarrow> goerr option \<Rightarrow> nat \<Rightarrow> 'w control \<Rightarrow> ct_outcome \<times> 'w control" where
  "db_cleanup run sv canceled gate h c =
     (case map_of (ct_dbs c) h of
        None \<Rightarrow> (answered (no_answer\<lparr>an_closed := Some True, an_disposed := Some True\<rparr>) None, c)
      | Some d \<Rightarrow>
          (case gate of
             Some e \<Rightarrow> (Some (None, Some e), c)
           | None \<Rightarrow>
               (case retry_cleanup run sv canceled d (ct_bases c) (ct_store c) of
                  (e, bs, s) \<Rightarrow>
                    let gone = disposed (fst s) (sv_complete sv (snd s)) d; c1 = c\<lparr>ct_bases := bs, ct_store := s\<rparr> in
                    (answered (no_answer\<lparr>an_closed := Some True, an_disposed := Some gone\<rparr>) e, if gone then drop_db h c1 else c1))))"

definition finish_consumed :: "bool \<Rightarrow> nat \<Rightarrow> db \<Rightarrow> answer \<Rightarrow> goerr option \<Rightarrow> 'w control \<Rightarrow> answer \<times> 'w control" where
  "finish_consumed complete h d a e c =
     (let os = fst (ct_store c); c1 = c\<lparr>ct_bases := settle_db os complete d e (ct_bases c)\<rparr> in
      if disposed os complete d then (a\<lparr>an_disposed := Some True\<rparr>, drop_db h c1)
      else (a\<lparr>an_disposed := Some False, an_cleanup_handle := Some h\<rparr>, c1))"

text \<open>
  \<open>snapshot\<close>. \<open>capacity\<close> is what \<open>DecodeCapacity\<close> and \<open>Resolve\<close> made of the request, \<open>timeout\<close> its decoded time,
  \<open>capture\<close> is \<open>Server.SnapshotHeap\<close>: the baseline, whether the server was consumed, and an error.
\<close>

definition snapshot_request ::
  "'w cleanup \<Rightarrow> 'w server_ops \<Rightarrow> ('w owners \<Rightarrow> (owned option \<times> bool \<times> goerr option) \<times> 'w owners) \<Rightarrow> (int \<Rightarrow> goerr option)
     \<Rightarrow> goerr + int \<Rightarrow> goerr + int \<Rightarrow> goerr option \<Rightarrow> goerr option \<Rightarrow> nat \<Rightarrow> 'w control \<Rightarrow> ct_outcome \<times> 'w control" where
  "snapshot_request run sv capture closes capacity timeout gate ctx h c =
     (case map_of (ct_dbs c) h of
        None \<Rightarrow> (Some (None, Some (Sentinel ''database is closed'')), c)
      | Some d \<Rightarrow>
     (case gate of
        Some e \<Rightarrow> (Some (None, Some e), c)
      | None \<Rightarrow>
     if d_closed d then (answered (no_answer\<lparr>an_closed := Some True\<rparr>) (Some (Sentinel ''database is closed'')), c)
     else case capacity of
        Inl e \<Rightarrow> (invalid ''snapshot_options'' e, c)
      | Inr n \<Rightarrow>
     (case new_pool n of
        Inl e \<Rightarrow> (invalid ''snapshot_options'' e, c)
      | Inr p \<Rightarrow>
     (case timeout of
        Inl e \<Rightarrow> (Some (None, Some e), c)
      | Inr _ \<Rightarrow>
     (case capture (ct_store c) of
        ((ob, consumed, e0), s0) \<Rightarrow>
     (case (if consumed then cleanup_after run e0 (d_log d) s0 else (None, s0)) of
        (ce, s) \<Rightarrow>
          let d1 = (if consumed then d\<lparr>d_closed := True, d_close_err := ce\<rparr> else d);
              e1 = (if consumed then err_join [e0, ce] else e0);
              e2 = (if e1 = None then ctx else e1);
              a = no_answer\<lparr>an_closed := Some consumed\<rparr>;
              complete = sv_complete sv (snd s) in
          if e2 \<noteq> None
          then
            let xe = fst (close_backing closes ob);
                e3 = (if ob = None then e2 else err_join [e2, xe]);
                d2 = (if xe = None then d1 else d1\<lparr>d_debt := err_join [d_debt d1, xe]\<rparr>);
                c1 = put_db h d2 (c\<lparr>ct_store := s\<rparr>) in
            if consumed then (case finish_consumed complete h d2 a e3 c1 of (a', c2) \<Rightarrow> (answered a' e3, c2))
            else (answered a e3, c1)
          else
            let c1 = put_db h d1 (c\<lparr>ct_store := s\<rparr>) in
            (case (if consumed then finish_consumed complete h d1 a None c1 else (a, c1)) of
               (a', c2) \<Rightarrow>
                 let m = Suc (ct_seq c2);
                     base = \<lparr>bl_owned = ob, bl_times = d_times d1, bl_closed = False, bl_readers = 0, bl_pool = p\<rparr> in
                 (answered (a'\<lparr>an_snapshot := Some m, an_max := Some (nat n)\<rparr>) None,
                  c2\<lparr>ct_seq := m, ct_snaps := AList.update m (length (ct_bases c2)) (ct_snaps c2), ct_bases := ct_bases c2 @ [base]\<rparr>))))))))"

end
