(* ===== verification/ControlSteps.thy ===== *)
theory ControlSteps
  imports ControlRequests
begin

text \<open>
  The shared host as a whole (\<open>internal/control/shared.go\<close>): the error of a reply, the roll-back of what a
  failed or cancelled request had made, the final cleanup, and one step of the host with any number of
  requests under way.
\<close>

section \<open>Replies\<close>

fun diag_first :: "goerr \<Rightarrow> (string \<times> string) option" and diag_first_list :: "goerr list \<Rightarrow> (string \<times> string) option" where
  "diag_first (Sentinel _) = None"
| "diag_first (Wrapped _ e _) = diag_first e"
| "diag_first (Joined es) = diag_first_list es"
| "diag_first (Pending (Some c) e _) = (case diag_first c of None \<Rightarrow> diag_first e | Some k \<Rightarrow> Some k)"
| "diag_first (Pending None e _) = diag_first e"
| "diag_first (Diag k stage _) = Some (k, stage)"
| "diag_first_list [] = None"
| "diag_first_list (e # es) = (case diag_first e of None \<Rightarrow> diag_first_list es | Some k \<Rightarrow> Some k)"

text \<open>\<open>replyError\<close>: the code and the stage; \<open>rejected\<close> is the code of a \<open>host.Rejected\<close> in the error.\<close>

definition reply_error :: "string option \<Rightarrow> goerr option \<Rightarrow> (string \<times> string) option" where
  "reply_error rejected e =
     (case e of
        None \<Rightarrow> None
      | Some x \<Rightarrow>
          (let cs = (case diag_first x of None \<Rightarrow> (''unusable'', ''host_control'') | Some cs \<Rightarrow> cs);
               code = (case rejected of None \<Rightarrow> fst cs | Some k \<Rightarrow> k) in
           Some (control_code x code, snd cs)))"

section \<open>Roll-back\<close>

definition outcome_error :: "ct_outcome \<Rightarrow> goerr option" where
  "outcome_error out = (case out of None \<Rightarrow> None | Some (_, e) \<Rightarrow> e)"

text \<open>What the roll-back of a request calls: the callbacks and the answers of its calls.\<close>

record 'w undoing =
  un_release :: nat
  un_server :: "'w server_ops"
  un_live :: "endpoint \<Rightarrow> goerr option \<times> endpoint"
  un_closes :: "int \<Rightarrow> goerr option"

definition undo_reservation :: "nat \<Rightarrow> answer \<times> goerr option \<times> 'w control \<Rightarrow> answer \<times> goerr option \<times> 'w control" where
  "undo_reservation h x =
     (case x of (a, e, c) \<Rightarrow>
        (case an_reservation a of
           None \<Rightarrow> (a, e, c)
         | Some t \<Rightarrow> (case fork_cancel h (Some t) c of (out, c') \<Rightarrow>
             (a\<lparr>an_reservation := None\<rparr>, err_join [e, outcome_error out], c'))))"

definition undo_lease :: "'w cleanup \<Rightarrow> 'w undoing \<Rightarrow> nat \<Rightarrow> nat \<Rightarrow> answer \<times> goerr option \<times> 'w control \<Rightarrow> answer \<times> goerr option \<times> 'w control" where
  "undo_lease run u r h x =
     (case x of (a, e, c) \<Rightarrow>
        (case an_lease a of
           None \<Rightarrow> (a, e, c)
         | Some t \<Rightarrow>
             (case release_begin r h (Some t) c of
                (Some out, c') \<Rightarrow> (a, err_join [e, snd out], c')
              | (None, c') \<Rightarrow>
                  (case map_of (ct_flights c') r of
                     Some (Releasing tok v) \<Rightarrow>
                       (case release_end run r tok v (un_release u) c' of (out, c'') \<Rightarrow> (a, err_join [e, outcome_error out], c''))
                   | _ \<Rightarrow> (a, e, c')))))"

definition undo_database :: "'w cleanup \<Rightarrow> 'w undoing \<Rightarrow> answer \<times> goerr option \<times> 'w control \<Rightarrow> answer \<times> goerr option \<times> 'w control" where
  "undo_database run u x =
     (case x of (a, e, c) \<Rightarrow>
        (case an_database a of
           None \<Rightarrow> (a, e, c)
         | Some h \<Rightarrow>
             (case db_close run (un_server u) None h c of
                (out, c') \<Rightarrow>
                  let state = (case out of Some (Some s, _) \<Rightarrow> an_disposed s | _ \<Rightarrow> None) in
                  (a\<lparr>an_database := None, an_closed := Some True, an_disposed := state,
                     an_cleanup_handle := (if state = Some True then an_cleanup_handle a else Some h)\<rparr>,
                   err_join [e, outcome_error out], c'))))"

definition undo_live :: "'w undoing \<Rightarrow> answer \<times> goerr option \<times> 'w control \<Rightarrow> answer \<times> goerr option \<times> 'w control" where
  "undo_live u x =
     (case x of (a, e, c) \<Rightarrow>
        (case an_live a of
           None \<Rightarrow> (a, e, c)
         | Some h \<Rightarrow>
             (case call_live (\<lambda>_. Inl err_canceled) h CallClose (un_live u) c of
                (out, c') \<Rightarrow> (a\<lparr>an_live := None\<rparr>, err_join [e, outcome_error out], c'))))"

text \<open>The three sections of \<open>snapshot_close\<close> one after the other.\<close>

definition undo_snapshot :: "'w undoing \<Rightarrow> nat \<Rightarrow> answer \<times> goerr option \<times> 'w control \<Rightarrow> answer \<times> goerr option \<times> 'w control" where
  "undo_snapshot u r x =
     (case x of (a, e, c) \<Rightarrow>
        (case an_snapshot a of
           None \<Rightarrow> (a, e, c)
         | Some h \<Rightarrow>
             (case map_of (ct_snaps c) h of
                None \<Rightarrow> (a\<lparr>an_snapshot := None\<rparr>, err_join [e, outcome_error (fst (snapshot_close r h c))], c)
              | Some b \<Rightarrow>
                  (case retire_step r b 2 (un_closes u) (snd (retire_step r b 1 (un_closes u)
                      (snd (retire_step r b 0 (un_closes u) (snd (snapshot_close r h c)))))) of
                     (out, c') \<Rightarrow> (a\<lparr>an_snapshot := None\<rparr>, err_join [e, outcome_error out], c')))))"

definition roll_back ::
  "'w cleanup \<Rightarrow> 'w undoing \<Rightarrow> nat \<Rightarrow> nat \<Rightarrow> goerr option \<Rightarrow> answer \<Rightarrow> goerr option \<Rightarrow> 'w control \<Rightarrow> answer \<times> goerr option \<times> 'w control" where
  "roll_back run u r h ctx a e c =
     (if (ctx = None \<and> e = None) \<or> (an_committed a \<and> e = None) then (a, e, c)
      else
        case undo_snapshot u r (undo_live u (undo_database run u (undo_lease run u r h (undo_reservation h (a, e, c))))) of
          (a', e', c') \<Rightarrow> (a', err_join [e', ctx], c'))"

text \<open>\<open>shutdown\<close> is granted to a host that owns nothing; \<open>waiting\<close> are the other pending requests.\<close>

definition shutdown_idle :: "nat list \<Rightarrow> 'w control \<Rightarrow> bool" where
  "shutdown_idle waiting c \<longleftrightarrow> ct_dbs c = [] \<and> ct_snaps c = [] \<and> ct_lives c = [] \<and> waiting = [] \<and> ct_reservations c = [] \<and> ct_retained c = []"

section \<open>The final cleanup\<close>

text \<open>
  It runs when every request has returned, so nothing is in flight. The goroutines of the databases, of the
  endpoints and of the baselines touch different resources; they run in the order of the tables.
\<close>

record 'w finishing =
  fi_live :: "endpoint \<Rightarrow> goerr option \<times> endpoint"
  fi_server :: "nat \<Rightarrow> 'w server_ops"
  fi_closes :: "int \<Rightarrow> goerr option"
  fi_remove :: "string \<Rightarrow> nat"

fun close_pools :: "(nat \<times> nat) list \<Rightarrow> 'w control \<Rightarrow> 'w control" where
  "close_pools [] c = c"
| "close_pools ((h, b) # vs) c = close_pools vs (on_pool b close_pool c)"

fun finish_lives :: "(endpoint \<Rightarrow> goerr option \<times> endpoint) \<Rightarrow> (nat \<times> endpoint) list \<Rightarrow> goerr option \<Rightarrow> goerr option" where
  "finish_lives f [] acc = acc"
| "finish_lives f ((h, e) # es) acc = finish_lives f es (err_join [acc, fst (f e)])"

fun finish_dbs :: "'w cleanup \<Rightarrow> (nat \<Rightarrow> 'w server_ops) \<Rightarrow> (nat \<times> db) list \<Rightarrow> goerr option \<times> 'w control \<Rightarrow> goerr option \<times> 'w control" where
  "finish_dbs run sv [] x = x"
| "finish_dbs run sv ((h, d) # ds) (acc, c) =
     (case close_db run (sv (d_server d)) d (ct_bases c) (ct_store c) of
        (e1, d1, bs1, s1) \<Rightarrow>
          (case retry_cleanup run (sv (d_server d)) False d1 bs1 s1 of
             (e2, bs2, s2) \<Rightarrow> finish_dbs run sv ds (err_join [acc, err_join [e1, e2]], c\<lparr>ct_bases := bs2, ct_store := s2\<rparr>)))"

fun finish_bases :: "(int \<Rightarrow> goerr option) \<Rightarrow> (nat \<times> nat) list \<Rightarrow> goerr option \<times> 'w control \<Rightarrow> goerr option \<times> 'w control" where
  "finish_bases closes [] x = x"
| "finish_bases closes ((h, b) # vs) (acc, c) =
     (let c1 = on_pool b close_pool c in
      case close_backing closes (bl_owned (ct_bases c1 ! b)) of
        (e, x) \<Rightarrow> finish_bases closes vs (err_join [acc, e], c1\<lparr>ct_bases := (ct_bases c1)[b := (ct_bases c1 ! b)\<lparr>bl_owned := x\<rparr>]\<rparr>))"

fun finish_reservations :: "'w cleanup \<Rightarrow> (string \<Rightarrow> nat) \<Rightarrow> (string \<times> reservation) list \<Rightarrow> goerr option \<times> 'w control \<Rightarrow> goerr option \<times> 'w control" where
  "finish_reservations run rm [] x = x"
| "finish_reservations run rm ((t, a) # vs) (acc, c) =
     (let c1 = on_pool (rv_base a) (cancel (rv_lease a)) c in
      if rv_path a = [] then finish_reservations run rm vs (acc, c1)
      else case after_cause run None (rm (rv_path a)) (ct_store c1) of
        (e, s) \<Rightarrow> finish_reservations run rm vs (err_join [acc, e], c1\<lparr>ct_store := s\<rparr>))"

fun finish_retained :: "'w cleanup \<Rightarrow> (string \<times> goerr option) list \<Rightarrow> goerr option \<times> 'w control \<Rightarrow> goerr option \<times> 'w control" where
  "finish_retained run [] x = x"
| "finish_retained run ((t, cause) # vs) (acc, c) =
     (case retry run False cause (ct_store c) of
        (e, s) \<Rightarrow> finish_retained run vs (err_join [acc, e], c\<lparr>ct_store := s\<rparr>))"

definition final_host_cleanup :: "'w cleanup \<Rightarrow> 'w finishing \<Rightarrow> 'w control \<Rightarrow> goerr option \<times> 'w control" where
  "final_host_cleanup run v c =
     (let c0 = c\<lparr>ct_lives := [], ct_dbs := [], ct_snaps := [], ct_reservations := [], ct_retained := []\<rparr> in
      finish_retained run (ct_retained c)
        (finish_reservations run (fi_remove v) (ct_reservations c)
          (finish_bases (fi_closes v) (ct_snaps c)
            (finish_dbs run (fi_server v) (ct_dbs c)
              (finish_lives (fi_live v) (ct_lives c) None, close_pools (ct_snaps c) c0)))))"

section \<open>Steps\<close>

text \<open>
  The sections of all requests. One that continues a flight names only its request; the others begin or
  are a whole request. \<open>Watcher\<close> is the goroutine of a pool that waits for owners, \<open>Disposes\<close> an owner's
  continuation, \<open>World\<close> anything the world does by itself.
\<close>

datatype 'w control_op =
    Reserve nat nat
  | Issue nat "goerr + string"
  | CancelReservation nat "string option"
  | Abandon nat "string option"
  | Release nat nat "string option"
  | Released nat nat
  | CleanupStatus "string option" bool
  | Fork nat nat "(goerr + int) option" "string option option" "goerr option" "goerr option"
  | Enter nat
  | Launch nat "'w making"
  | Start "'w making" "((goerr + owned) \<times> nat) option"
  | Export nat nat "string option"
  | EnterExport nat "goerr option" "goerr option" string
  | EndExport nat "goerr option" nat
  | LiveReserve nat nat bool "goerr option"
  | LiveCancel nat
  | LiveEnter nat "goerr option"
  | LiveLaunch nat "'w making"
  | ChildClose "'w server_ops" bool nat nat
  | CreateLive nat "endpoint option \<times> goerr option"
  | CallLive "string \<Rightarrow> goerr + int" nat live_call "endpoint \<Rightarrow> goerr option \<times> endpoint"
  | SnapshotClose nat nat
  | Retire nat "int \<Rightarrow> goerr option"
  | DbClose "'w server_ops" "goerr option" nat
  | DbCleanup "'w server_ops" bool "goerr option" nat
  | Capture "'w server_ops" "'w owners \<Rightarrow> (owned option \<times> bool \<times> goerr option) \<times> 'w owners" "int \<Rightarrow> goerr option"
      "goerr + int" "goerr + int" "goerr option" "goerr option" nat
  | Watcher nat nat "nat list"
  | Disposes nat
  | World "'w owners \<Rightarrow> 'w owners"

text \<open>
  A request number is used once at a time, and a fresh token is none of those in use, as 16 random bytes are.
  A client asks for the cleanup of a database only when an answer named its handle, so the database is closed.
\<close>

definition unused :: "nat \<Rightarrow> 'w control \<Rightarrow> bool" where "unused r c \<longleftrightarrow> map_of (ct_flights c) r = None"

fun control_step :: "'w cleanup \<Rightarrow> 'w control \<Rightarrow> 'w control_op \<Rightarrow> ct_outcome \<times> 'w control" where
  "control_step run c (Reserve r h) = (if unused r c then reserve_begin r h c else (None, c))"
| "control_step run c (Issue r tok) =
     (case map_of (ct_flights c) r of
        Some (Reserving h b l) \<Rightarrow>
          if (case tok of Inr t \<Rightarrow> map_of (ct_reservations c) t \<noteq> None | Inl _ \<Rightarrow> False) then (None, c)
          else reserve_end r h b l tok c
      | _ \<Rightarrow> (None, c))"
| "control_step run c (CancelReservation h raw) = fork_cancel h raw c"
| "control_step run c (Abandon h raw) = handoff_abandon h raw c"
| "control_step run c (Release r h raw) = (if unused r c then release_begin r h raw c else (None, c))"
| "control_step run c (Released r k) =
     (case map_of (ct_flights c) r of Some (Releasing tok a) \<Rightarrow> release_end run r tok a k c | _ \<Rightarrow> (None, c))"
| "control_step run c (CleanupStatus raw canceled) = cleanup_status run raw canceled c"
| "control_step run c (Fork r h wait raw before now) = (if unused r c then fork_begin r h wait raw before now c else (None, c))"
| "control_step run c (Enter r) =
     (case map_of (ct_flights c) r of Some (Admitted b l) \<Rightarrow> fork_enter r b l c | _ \<Rightarrow> (None, c))"
| "control_step run c (Launch r mk) =
     (case map_of (ct_flights c) r of Some (Launching b l) \<Rightarrow> fork_end run r b l mk c | _ \<Rightarrow> (None, c))"
| "control_step run c (Start mk transfer) = start_db run mk transfer c"
| "control_step run c (Export r h raw) = (if unused r c then export_begin r h raw c else (None, c))"
| "control_step run c (EnterExport r ctx made path) =
     (case map_of (ct_flights c) r of Some (Exporting tok b l) \<Rightarrow> export_enter r tok b l ctx made path c | _ \<Rightarrow> (None, c))"
| "control_step run c (EndExport r written k) =
     (case map_of (ct_flights c) r of Some (HandingOff tok b l) \<Rightarrow> export_end run r tok b l written k c | _ \<Rightarrow> (None, c))"
| "control_step run c (LiveReserve r b recover ctx) =
     (if unused r c \<and> b < length (ct_bases c) then live_reserve r b recover ctx c else (None, c))"
| "control_step run c (LiveCancel r) =
     (case map_of (ct_flights c) r of Some (LiveHeld b l) \<Rightarrow> live_cancel r b l c | _ \<Rightarrow> (None, c))"
| "control_step run c (LiveEnter r random) =
     (case map_of (ct_flights c) r of Some (LiveHeld b l) \<Rightarrow> live_enter r b l random c | _ \<Rightarrow> (None, c))"
| "control_step run c (LiveLaunch r mk) =
     (case map_of (ct_flights c) r of Some (LiveStarting b l) \<Rightarrow> live_end run r b l mk c | _ \<Rightarrow> (None, c))"
| "control_step run c (ChildClose sv canceled k i) = child_close run sv canceled k i c"
| "control_step run c (CreateLive h made) = create_live h made c"
| "control_step run c (CallLive parse h call f) = call_live parse h call f c"
| "control_step run c (SnapshotClose r h) = (if unused r c then snapshot_close r h c else (None, c))"
| "control_step run c (Retire r closes) =
     (case map_of (ct_flights c) r of Some (Retiring b n) \<Rightarrow> retire_step r b n closes c | _ \<Rightarrow> (None, c))"
| "control_step run c (DbClose sv gate h) = db_close run sv gate h c"
| "control_step run c (DbCleanup sv canceled gate h) =
     (if list_all d_closed (map snd (filter (\<lambda>(k, _). k = h) (ct_dbs c))) then db_cleanup run sv canceled gate h c else (None, c))"
| "control_step run c (Capture sv capture closes capacity timeout gate ctx h) =
     snapshot_request run sv capture closes capacity timeout gate ctx h c"
| "control_step run c (Watcher b l os) =
     (None, if b < length (ct_bases c)
            then on_pool b (watcher_done l os (set (filter (\<lambda>i. o_done (fst (ct_store c) ! i)) os))) c else c)"
| "control_step run c (Disposes i) = (None, c\<lparr>ct_store := continue_owner run i (ct_store c)\<rparr>)"
| "control_step run c (World f) = (None, c\<lparr>ct_store := f (ct_store c)\<rparr>)"

end
