(* ===== verification/ControlPools.thy ===== *)
theory ControlPools
  imports ControlSteps
begin

text \<open>
  The shared host and its admission pools: whatever requests are in flight, the host changes the pool of a
  baseline by runs of the pool's own operations only, and recovers a stopped pool only for a live endpoint
  that asks for it. What the theory \<open>ForkPool\<close> proves of every run of a pool then holds in the host.
\<close>

section \<open>Runs of the pools\<close>

text \<open>\<open>recover\<close>: an explicit recovery may be among the operations.\<close>

definition pool_runs :: "bool \<Rightarrow> pool \<Rightarrow> pool \<Rightarrow> bool" where
  "pool_runs recover p p' \<longleftrightarrow> (\<exists>ops. p' = foldl pool_step p ops \<and> (Try True \<in> set ops \<longrightarrow> recover))"

lemma pool_runs_refl [simp, intro]: "pool_runs k p p"
  unfolding pool_runs_def by (rule exI [of _ "[]"]) simp

lemma pool_runs_trans [trans]: "pool_runs k p q \<Longrightarrow> pool_runs k q r \<Longrightarrow> pool_runs k p r"
proof -
  assume "pool_runs k p q" "pool_runs k q r"
  then obtain xs ys where "q = foldl pool_step p xs" "Try True \<in> set xs \<longrightarrow> k" "r = foldl pool_step q ys" "Try True \<in> set ys \<longrightarrow> k"
    by (auto simp: pool_runs_def)
  then show ?thesis unfolding pool_runs_def by (intro exI [of _ "xs @ ys"]) auto
qed

lemma pool_runs_step: "op \<noteq> Try True \<or> k \<Longrightarrow> pool_runs k p (pool_step p op)"
  unfolding pool_runs_def by (rule exI [of _ "[op]"]) auto

lemma pool_runs_ops [simp, intro]:
  "pool_runs k p (close_pool p)" "pool_runs k p (cancel l p)" "pool_runs k p (settle l e p)"
  "pool_runs k p (track_cleanup l e p)" "pool_runs k p (watcher_done l os f p)"
  using pool_runs_step [of Close k p] pool_runs_step [of "Cancel l" k p] pool_runs_step [of "Settle l e" k p]
    pool_runs_step [of "Track l e" k p] pool_runs_step [of "Watched l os f" k p] by simp_all

lemma pool_runs_answers:
  "try_acquire r p = (x, p') \<Longrightarrow> r \<longrightarrow> k \<Longrightarrow> pool_runs k p p'"
  "acquire_once b n p = (y, p') \<Longrightarrow> pool_runs k p p'" "activate l p = (z, p') \<Longrightarrow> pool_runs k p p'"
  using pool_runs_step [of "Try r" k p] pool_runs_step [of "Acquire b n" k p] pool_runs_step [of "Activate l" k p] by auto

text \<open>The same for all baselines; new ones have new pools. \<open>R\<close> are the baselines that may be recovered.\<close>

definition bases_run :: "nat set \<Rightarrow> baseline list \<Rightarrow> baseline list \<Rightarrow> bool" where
  "bases_run R bs bs' \<longleftrightarrow> length bs \<le> length bs' \<and>
     (\<forall>b<length bs. pool_runs (b \<in> R) (bl_pool (bs ! b)) (bl_pool (bs' ! b))) \<and>
     (\<forall>b<length bs'. length bs \<le> b \<longrightarrow> (\<exists>n p. new_pool n = Inr p \<and> pool_runs (b \<in> R) p (bl_pool (bs' ! b))))"

lemma bases_run_refl [simp, intro]: "bases_run R bs bs"
  by (simp add: bases_run_def)

lemma bases_run_trans [trans]: "bases_run R as bs \<Longrightarrow> bases_run R bs cs \<Longrightarrow> bases_run R as cs"
  unfolding bases_run_def
proof (elim conjE, intro conjI allI impI)
  assume l: "length as \<le> length bs" "length bs \<le> length cs"
    and r1: "\<forall>b<length as. pool_runs (b \<in> R) (bl_pool (as ! b)) (bl_pool (bs ! b))"
    and n1: "\<forall>b<length bs. length as \<le> b \<longrightarrow> (\<exists>n p. new_pool n = Inr p \<and> pool_runs (b \<in> R) p (bl_pool (bs ! b)))"
    and r2: "\<forall>b<length bs. pool_runs (b \<in> R) (bl_pool (bs ! b)) (bl_pool (cs ! b))"
    and n2: "\<forall>b<length cs. length bs \<le> b \<longrightarrow> (\<exists>n p. new_pool n = Inr p \<and> pool_runs (b \<in> R) p (bl_pool (cs ! b)))"
  show "length as \<le> length cs" using l by simp
  fix b
  show "pool_runs (b \<in> R) (bl_pool (as ! b)) (bl_pool (cs ! b))" if "b < length as"
    using r1 r2 that l pool_runs_trans by (meson order_less_le_trans)
  show "\<exists>n p. new_pool n = Inr p \<and> pool_runs (b \<in> R) p (bl_pool (cs ! b))" if "b < length cs" "length as \<le> b"
  proof (cases "b < length bs")
    case True
    then show ?thesis using n1 r2 that(2) pool_runs_trans by meson
  next
    case False
    then show ?thesis using n2 that(1) by simp
  qed
qed

lemma change_pool_length [simp]: "length (change_pool b f bs) = length bs"
  by (simp add: change_pool_def)

lemma bases_change:
  assumes "\<And>p. b < length bs \<Longrightarrow> p = bl_pool (bs ! b) \<Longrightarrow> pool_runs (b \<in> R) p (f p)"
  shows "bases_run R bs (change_pool b f bs)"
proof -
  have "pool_runs (k \<in> R) (bl_pool (bs ! k)) (bl_pool (change_pool b f bs ! k))" if "k < length bs" for k
    using that assms [of "bl_pool (bs ! b)"] by (cases "k = b") (simp_all add: change_pool_def)
  then show ?thesis by (simp add: bases_run_def)
qed

lemma bases_same: "length bs' = length bs \<Longrightarrow> (\<And>b. b < length bs \<Longrightarrow> bl_pool (bs' ! b) = bl_pool (bs ! b)) \<Longrightarrow> bases_run R bs bs'"
  by (simp add: bases_run_def)

lemma bases_new: "new_pool n = Inr p \<Longrightarrow> bl_pool x = p \<Longrightarrow> bases_run R bs (bs @ [x])"
  by (auto simp: bases_run_def nth_append less_Suc_eq)

lemma startup_bases: "bases_run R bs (settle_startup os lease e bs)"
  by (auto simp: settle_startup_def intro!: bases_change split: option.split)

lemma db_bases: "bases_run R bs (settle_db os complete d e bs)"
  by (auto simp: settle_db_def intro!: bases_change split: option.split)

lemma close_db_bases: "close_db run sv d bs s = (e, d', bs', s') \<Longrightarrow> bases_run R bs bs'"
  by (auto simp: close_db_def Let_def db_bases split: if_splits prod.splits)

lemma retry_cleanup_bases: "retry_cleanup run sv k d bs s = (e, bs', s') \<Longrightarrow> bases_run R bs bs'"
  by (auto simp: retry_cleanup_def Let_def intro!: bases_change split: if_splits prod.splits option.splits)

section \<open>The requests\<close>

lemma bases_ops [simp]:
  "ct_bases (fly r v c) = ct_bases c" "ct_bases (land r c) = ct_bases c" "ct_bases (on_pool b f c) = change_pool b f (ct_bases c)"
  "ct_bases (put_db h d c) = ct_bases c" "ct_bases (drop_db h c) = ct_bases c"
  by (simp_all add: fly_def land_def on_pool_def put_db_def drop_db_def)

lemma bases_locks [simp]:
  "bases_run R bs (ct_bases (lock_read b c)) = bases_run R bs (ct_bases c)"
  "bases_run R bs (ct_bases (unlock_read b c)) = bases_run R bs (ct_bases c)"
proof -
  have same: "bl_pool (xs[b := (xs ! b)\<lparr>bl_readers := n\<rparr>] ! k) = bl_pool (xs ! k)" for xs n k
    by (cases "b < length xs"; cases "k = b") (simp_all add: list_update_beyond)
  show "bases_run R bs (ct_bases (lock_read b c)) = bases_run R bs (ct_bases c)"
    "bases_run R bs (ct_bases (unlock_read b c)) = bases_run R bs (ct_bases c)"
    by (simp_all add: bases_run_def lock_read_def unlock_read_def same)
qed

text \<open>A request that puts back the pool an operation answered.\<close>

lemma bases_put: "(b < length (ct_bases c) \<Longrightarrow> pool_runs (b \<in> R) (pool_at c b) p) \<Longrightarrow> bases_run R (ct_bases c) (change_pool b (\<lambda>_. p) (ct_bases c))"
  by (rule bases_change) simp

lemma bases_op: "(\<And>p k. pool_runs k p (f p)) \<Longrightarrow> bases_run R bs (change_pool b f bs)"
  by (rule bases_change) simp

lemma retain_pools: "retain_failure e c = (a, c') \<Longrightarrow> ct_bases c' = ct_bases c"
  by (auto simp: retain_failure_def Let_def split: if_splits)

lemma create_pools: "create run mk base lease c = (out, c') \<Longrightarrow> bases_run R (ct_bases c) (ct_bases c')"
  by (auto simp: create_def Let_def startup_bases dest!: retain_pools split: prod.splits sum.splits)

lemma claim_pools: "claim h raw export c = (x, c') \<Longrightarrow> ct_bases c' = ct_bases c"
  by (auto simp: claim_def split: sum.splits option.splits if_splits)

lemma reserve_begin_pools: "reserve_begin r h c = (out, c') \<Longrightarrow> bases_run R (ct_bases c) (ct_bases c')"
  by (auto simp: reserve_begin_def intro!: bases_put intro: pool_runs_answers split: option.splits prod.splits sum.splits if_splits)

lemma reserve_end_pools: "reserve_end r h b l token c = (out, c') \<Longrightarrow> bases_run R (ct_bases c) (ct_bases c')"
  by (auto simp: reserve_end_def intro!: bases_op split: sum.splits)

lemma fork_cancel_pools: "fork_cancel h raw c = (out, c') \<Longrightarrow> bases_run R (ct_bases c) (ct_bases c')"
  by (auto simp: fork_cancel_def intro!: bases_op split: sum.splits if_splits)

lemma handoff_abandon_pools: "handoff_abandon h raw c = (out, c') \<Longrightarrow> bases_run R (ct_bases c) (ct_bases c')"
  by (auto simp: handoff_abandon_def intro!: bases_op split: sum.splits if_splits)

lemma release_begin_pools: "release_begin r h raw c = (out, c') \<Longrightarrow> ct_bases c' = ct_bases c"
  by (auto simp: release_begin_def split: sum.splits if_splits)

lemma release_end_pools: "release_end run r tok a k c = (out, c') \<Longrightarrow> bases_run R (ct_bases c) (ct_bases c')"
  by (auto simp: release_end_def intro!: bases_op split: prod.splits option.splits)

lemma cleanup_status_pools: "cleanup_status run raw k c = (out, c') \<Longrightarrow> ct_bases c' = ct_bases c"
  by (auto simp: cleanup_status_def Let_def split: sum.splits prod.splits if_splits)

lemma cancel_each_pools: "bases_run R (ct_bases c) (ct_bases (cancel_each b vs c))"
proof (induction b vs c rule: cancel_each.induct)
  case (2 b tok a vs c)
  let ?c = "if rv_base a = b \<and> rv_stage a = Reserved
        then on_pool b (cancel (rv_lease a)) (c\<lparr>ct_reservations := AList.delete tok (ct_reservations c)\<rparr>) else c"
  have "bases_run R (ct_bases c) (ct_bases ?c)" by (auto intro!: bases_op)
  also have "bases_run R (ct_bases ?c) (ct_bases (cancel_each b vs ?c))" by (rule "2.IH")
  finally show ?case by simp
qed simp

lemma fork_begin_pools: "fork_begin r h wait raw before now c = (out, c') \<Longrightarrow> bases_run R (ct_bases c) (ct_bases c')"
  by (auto simp: fork_begin_def intro!: bases_put intro: pool_runs_answers dest!: claim_pools
      split: option.splits prod.splits sum.splits acquired.splits)

lemma fork_enter_pools: "fork_enter r b l c = (out, c') \<Longrightarrow> bases_run R (ct_bases c) (ct_bases c')"
  by (auto simp: fork_enter_def intro!: bases_op bases_put intro: pool_runs_answers split: if_splits prod.splits option.splits)

lemma fork_end_pools: "fork_end run r b l mk c = (out, c') \<Longrightarrow> bases_run R (ct_bases c) (ct_bases c')"
  by (auto simp: fork_end_def create_pools split: prod.splits)

lemma start_db_pools: "start_db run mk transfer c = (out, c') \<Longrightarrow> bases_run R (ct_bases c) (ct_bases c')"
  by (auto simp: start_db_def dest: create_pools [of run mk _ _ c] split: option.splits sum.splits prod.splits)

lemma export_begin_pools: "export_begin r h raw c = (out, c') \<Longrightarrow> bases_run R (ct_bases c) (ct_bases c')"
  by (auto simp: export_begin_def dest!: claim_pools split: prod.splits sum.splits)

lemma export_fail_pools: "export_fail r tok b l e c = (out, c') \<Longrightarrow> bases_run R (ct_bases c) (ct_bases c')"
  by (auto simp: export_fail_def Let_def startup_bases dest!: retain_pools split: prod.splits)

lemma export_enter_pools: "export_enter r tok b l ctx made path c = (out, c') \<Longrightarrow> bases_run R (ct_bases c) (ct_bases c')"
proof -
  assume run: "export_enter r tok b l ctx made path c = (out, c')"
  obtain x p where a: "activate l (pool_at c b) = (x, p)" by fastforce
  have 1: "bases_run R (ct_bases c) (ct_bases (on_pool b (cancel l) c))" by (auto intro!: bases_op)
  have 2: "bases_run R (ct_bases c) (ct_bases (on_pool b (\<lambda>_. p) c))" using pool_runs_answers(3) [OF a] by (auto intro!: bases_put)
  have f: "bases_run R (ct_bases c) (ct_bases c')"
    if "export_fail r tok b l e d = (out, c')" "bases_run R (ct_bases c) (ct_bases d)" for e d
    using export_fail_pools [OF that(1)] that(2) bases_run_trans by blast
  show ?thesis using run f [OF _ 1] f [OF _ 2] 2
    by (auto simp: export_enter_def a Let_def split: if_splits option.splits)
qed

lemma export_end_pools: "export_end run r tok b l written k c = (out, c') \<Longrightarrow> bases_run R (ct_bases c) (ct_bases c')"
  by (auto simp: export_end_def split: option.splits prod.splits dest: export_fail_pools [where R = R])

lemma live_reserve_pools:
  "live_reserve r b recover ctx c = (out, c') \<Longrightarrow> recover \<longrightarrow> b \<in> R \<Longrightarrow> bases_run R (ct_bases c) (ct_bases c')"
  by (auto simp: live_reserve_def intro!: bases_put intro: pool_runs_answers split: option.splits prod.splits sum.splits)

lemma live_enter_pools: "live_enter r b l random c = (out, c') \<Longrightarrow> bases_run R (ct_bases c) (ct_bases c')"
proof -
  assume run: "live_enter r b l random c = (out, c')"
  obtain x p where a: "activate l (pool_at c b) = (x, p)" by fastforce
  have 1: "bases_run R (ct_bases c) (change_pool b (cancel l) (ct_bases c))" by (auto intro!: bases_op)
  have 2: "bases_run R (ct_bases c) (change_pool b (\<lambda>_. p) (ct_bases c))" using pool_runs_answers(3) [OF a] by (auto intro!: bases_put)
  have 3: "bases_run R (ct_bases c) (change_pool b (settle l None) (change_pool b (\<lambda>_. p) (ct_bases c)))"
    by (rule bases_run_trans [OF 2]) (auto intro!: bases_op)
  show ?thesis using run 1 2 3 by (auto simp: live_enter_def a split: if_splits option.splits)
qed

lemma live_end_pools: "live_end run r b l mk c = (out, c') \<Longrightarrow> bases_run R (ct_bases c) (ct_bases c')"
  by (auto simp: live_end_def startup_bases split: prod.splits sum.splits)

lemma close_started_bases: "close_started run sv k n d attempted bs s = (e, d', bs', s') \<Longrightarrow> bases_run R bs bs'"
  by (auto simp: close_started_def Let_def split: if_splits prod.splits
      intro: bases_run_trans [OF close_db_bases db_bases] bases_run_trans [OF retry_cleanup_bases db_bases])

lemma child_close_pools: "child_close run sv k n i c = (out, c') \<Longrightarrow> bases_run R (ct_bases c) (ct_bases c')"
  by (auto simp: child_close_def intro!: bases_op dest: close_started_bases split: if_splits live_child.splits prod.splits option.splits)

lemma create_live_pools: "create_live h made c = (out, c') \<Longrightarrow> ct_bases c' = ct_bases c"
  by (auto simp: create_live_def Let_def split: option.splits if_splits prod.splits)

lemma call_live_pools: "call_live parse h call f c = (out, c') \<Longrightarrow> ct_bases c' = ct_bases c"
  by (auto simp: call_live_def Let_def split: option.splits live_call.splits sum.splits prod.splits)

lemma snapshot_close_pools: "snapshot_close r h c = (out, c') \<Longrightarrow> ct_bases c' = ct_bases c"
  by (auto simp: snapshot_close_def split: option.splits)

lemma retire_step_pools: "retire_step r b n closes c = (out, c') \<Longrightarrow> bases_run R (ct_bases c) (ct_bases c')"
proof -
  have same: "bl_pool (xs[b := (xs ! b)\<lparr>bl_closed := True, bl_owned := x\<rparr>] ! k) = bl_pool (xs ! k)" for xs x k
    by (cases "b < length xs"; cases "k = b") (simp_all add: list_update_beyond)
  assume "retire_step r b n closes c = (out, c')"
  then show ?thesis
    by (auto simp: retire_step_def cancel_reservations_def cancel_each_pools same intro!: bases_op
        intro: bases_same split: if_splits prod.splits)
qed

lemma db_close_pools: "db_close run sv gate h c = (out, c') \<Longrightarrow> bases_run R (ct_bases c) (ct_bases c')"
  by (auto simp: db_close_def Let_def close_db_bases split: option.splits prod.splits if_splits)

lemma db_cleanup_pools: "db_cleanup run sv k gate h c = (out, c') \<Longrightarrow> bases_run R (ct_bases c) (ct_bases c')"
  by (auto simp: db_cleanup_def Let_def retry_cleanup_bases split: option.splits prod.splits if_splits)

lemma finish_consumed_pools: "finish_consumed complete h d a e c = (a', c') \<Longrightarrow> bases_run R (ct_bases c) (ct_bases c')"
  by (auto simp: finish_consumed_def Let_def db_bases split: if_splits)

lemma snapshot_request_pools:
  assumes "snapshot_request run sv capture closes capacity timeout gate ctx h c = (out, c')"
  shows "bases_run R (ct_bases c) (ct_bases c')"
proof -
  have add: "bases_run R (ct_bases c) (ct_bases c2 @ [x])"
    if "bases_run R (ct_bases c) (ct_bases c2)" "new_pool n = Inr p" "bl_pool x = p" for c2 :: "'a control" and n p x
    using bases_run_trans [OF that(1) bases_new [OF that(2,3)]] .
  show ?thesis
    using assms
    by (auto simp: snapshot_request_def Let_def split: option.splits sum.splits prod.splits if_splits
        intro!: add dest!: finish_consumed_pools [where R = R])
qed

section \<open>The host\<close>

text \<open>The baselines a step may recover.\<close>

definition recovers :: "'w control_op \<Rightarrow> nat set" where
  "recovers op = (case op of LiveReserve r b True ctx \<Rightarrow> {b} | _ \<Rightarrow> {})"

lemma control_step_pools: "bases_run (recovers op) (ct_bases c) (ct_bases (snd (control_step run c op)))"
proof -
  obtain out c' where run: "control_step run c op = (out, c')" by fastforce
  have same: "x = y \<Longrightarrow> bases_run R x y" for R x y by simp
  have "bases_run (recovers op) (ct_bases c) (ct_bases c')"
  proof (cases op)
    case (LiveReserve r b recover ctx)
    then show ?thesis using run live_reserve_pools [of r b recover ctx c out c']
      by (cases recover) (auto simp: recovers_def split: if_splits)
  next
    case (Watcher b l os)
    then show ?thesis using run by (auto intro!: bases_op split: if_splits)
  qed (use run in \<open>auto intro: reserve_begin_pools reserve_end_pools fork_cancel_pools handoff_abandon_pools release_end_pools
      fork_begin_pools fork_enter_pools fork_end_pools start_db_pools export_begin_pools export_enter_pools export_end_pools
      live_enter_pools live_end_pools child_close_pools retire_step_pools db_close_pools db_cleanup_pools snapshot_request_pools
      simp: live_cancel_def bases_op dest!: release_begin_pools cleanup_status_pools create_live_pools call_live_pools snapshot_close_pools
      split: if_splits option.splits flight.splits sum.splits\<close>)
  then show ?thesis by (simp add: run)
qed

text \<open>The roll-back of a request and the final cleanup change the pools in the same way.\<close>

lemma roll_back_pools: "roll_back run u r h ctx a e c = (a', e', c') \<Longrightarrow> bases_run R (ct_bases c) (ct_bases c')"
proof -
  have 1: "bases_run R (ct_bases d) (ct_bases (snd (snd (undo_reservation h (a, e, d)))))" for a e and d :: "'a control"
    by (auto simp: undo_reservation_def split: option.splits prod.splits dest: fork_cancel_pools [where R = R])
  have 2: "bases_run R (ct_bases d) (ct_bases (snd (snd (undo_lease run u r h (a, e, d)))))" for a e d
    by (auto simp: undo_lease_def split: option.splits prod.splits flight.splits
        dest!: release_begin_pools dest: release_end_pools [where R = R])
  have 3: "bases_run R (ct_bases d) (ct_bases (snd (snd (undo_database run u (a, e, d)))))" for a e d
    by (auto simp: undo_database_def Let_def split: option.splits prod.splits dest: db_close_pools [where R = R])
  have 4: "bases_run R (ct_bases d) (ct_bases (snd (snd (undo_live u (a, e, d)))))" for a e d
    by (auto simp: undo_live_def split: option.splits prod.splits dest!: call_live_pools)
  have rt: "bases_run R (ct_bases d) (ct_bases (snd (retire_step r b n closes d)))" for b n closes and d :: "'a control"
    by (cases "retire_step r b n closes d") (auto dest: retire_step_pools)
  have 5: "bases_run R (ct_bases d) (ct_bases (snd (snd (undo_snapshot u r (a, e, d)))))" for a e d
  proof (cases "an_snapshot a")
    case None
    then show ?thesis by (simp add: undo_snapshot_def)
  next
    case (Some k)
    show ?thesis
    proof (cases "map_of (ct_snaps d) k")
      case None
      then show ?thesis using Some by (simp add: undo_snapshot_def)
    next
      case b: (Some b)
      define d0 where "d0 = snd (snapshot_close r k d)"
      have same: "ct_bases d0 = ct_bases d" by (cases "snapshot_close r k d") (simp add: d0_def snapshot_close_pools)
      define d1 where "d1 = snd (retire_step r b 0 (un_closes u) d0)"
      define d2 where "d2 = snd (retire_step r b 1 (un_closes u) d1)"
      have "bases_run R (ct_bases d) (ct_bases d1)" unfolding d1_def same [symmetric] by (rule rt)
      also have "bases_run R (ct_bases d1) (ct_bases d2)" unfolding d2_def by (rule rt)
      also have "bases_run R (ct_bases d2) (ct_bases (snd (retire_step r b 2 (un_closes u) d2)))" by (rule rt)
      finally have "bases_run R (ct_bases d) (ct_bases (snd (retire_step r b 2 (un_closes u) (snd (retire_step r b 1 (un_closes u)
          (snd (retire_step r b 0 (un_closes u) (snd (snapshot_close r k d)))))))))"
        by (simp only: d0_def d1_def d2_def)
      then show ?thesis using Some b by (auto simp: undo_snapshot_def split: prod.split)
    qed
  qed
  have all: "bases_run R (ct_bases d) (ct_bases (snd (snd (undo_snapshot u r (undo_live u (undo_database run u
      (undo_lease run u r h (undo_reservation h (a, e, d)))))))))" for a e d
  proof -
    obtain a1 e1 d1 where x1: "undo_reservation h (a, e, d) = (a1, e1, d1)" by (metis prod_cases3)
    obtain a2 e2 d2 where x2: "undo_lease run u r h (a1, e1, d1) = (a2, e2, d2)" by (metis prod_cases3)
    obtain a3 e3 d3 where x3: "undo_database run u (a2, e2, d2) = (a3, e3, d3)" by (metis prod_cases3)
    obtain a4 e4 d4 where x4: "undo_live u (a3, e3, d3) = (a4, e4, d4)" by (metis prod_cases3)
    have "bases_run R (ct_bases d) (ct_bases d1)" using 1 [of d a e] x1 by simp
    also have "bases_run R (ct_bases d1) (ct_bases d2)" using 2 [of d1 a1 e1] x2 by simp
    also have "bases_run R (ct_bases d2) (ct_bases d3)" using 3 [of d2 a2 e2] x3 by simp
    also have "bases_run R (ct_bases d3) (ct_bases d4)" using 4 [of d3 a3 e3] x4 by simp
    also have "bases_run R (ct_bases d4) (ct_bases (snd (snd (undo_snapshot u r (a4, e4, d4)))))" by (rule 5)
    finally show ?thesis by (simp only: x1 x2 x3 x4)
  qed
  assume "roll_back run u r h ctx a e c = (a', e', c')"
  then show ?thesis using all [of c a e] by (auto simp: roll_back_def split: if_splits prod.splits)
qed

lemma close_pools_run: "bases_run R (ct_bases c) (ct_bases (close_pools vs c))"
proof (induction vs c rule: close_pools.induct)
  case (2 h b vs c)
  have "bases_run R (ct_bases c) (ct_bases (on_pool b close_pool c))" by (auto intro!: bases_op)
  then show ?case using "2.IH" bases_run_trans by auto
qed simp

lemma finish_dbs_run: "finish_dbs run sv ds (acc, c) = (e, c') \<Longrightarrow> bases_run R (ct_bases c) (ct_bases c')"
proof (induction ds arbitrary: acc c)
  case (Cons hd ds)
  obtain h d where hd: "hd = (h, d)" by fastforce
  obtain e1 d1 bs1 s1 where 1: "close_db run (sv (d_server d)) d (ct_bases c) (ct_store c) = (e1, d1, bs1, s1)" by (metis prod_cases4)
  obtain e2 bs2 s2 where 2: "retry_cleanup run (sv (d_server d)) False d1 bs1 s1 = (e2, bs2, s2)" by (metis prod_cases3)
  have "bases_run R (ct_bases c) bs2" using bases_run_trans [OF close_db_bases [OF 1] retry_cleanup_bases [OF 2]] .
  moreover have "finish_dbs run sv ds (err_join [acc, err_join [e1, e2]], c\<lparr>ct_bases := bs2, ct_store := s2\<rparr>) = (e, c')"
    using Cons.prems by (simp add: hd 1 2)
  ultimately show ?case using Cons.IH bases_run_trans by fastforce
qed simp

lemma finish_bases_run: "finish_bases closes vs (acc, c) = (e, c') \<Longrightarrow> bases_run R (ct_bases c) (ct_bases c')"
proof (induction vs arbitrary: acc c)
  case (Cons v vs)
  obtain h b where v: "v = (h, b)" by fastforce
  obtain e1 x where x: "close_backing closes (bl_owned (ct_bases (on_pool b close_pool c) ! b)) = (e1, x)" by fastforce
  let ?c1 = "on_pool b close_pool c"
  let ?c2 = "?c1\<lparr>ct_bases := (ct_bases ?c1)[b := (ct_bases ?c1 ! b)\<lparr>bl_owned := x\<rparr>]\<rparr>"
  have same: "bl_pool (xs[b := (xs ! b)\<lparr>bl_owned := x\<rparr>] ! k) = bl_pool (xs ! k)" for xs x k
    by (cases "b < length xs"; cases "k = b") (simp_all add: list_update_beyond)
  have "bases_run R (ct_bases c) (ct_bases ?c1)" by (auto intro!: bases_op)
  also have "bases_run R (ct_bases ?c1) (ct_bases ?c2)" by (rule bases_same) (simp_all add: same)
  also have "bases_run R (ct_bases ?c2) (ct_bases c')" using Cons.IH [of "err_join [acc, e1]" ?c2] Cons.prems x by (simp add: v Let_def)
  finally show ?case .
qed simp

lemma finish_reservations_run: "finish_reservations run rm vs (acc, c) = (e, c') \<Longrightarrow> bases_run R (ct_bases c) (ct_bases c')"
proof (induction vs arbitrary: acc c)
  case (Cons v vs)
  obtain t a where v: "v = (t, a)" by fastforce
  have 1: "bases_run R (ct_bases c) (ct_bases (on_pool (rv_base a) (cancel (rv_lease a)) c))" by (auto intro!: bases_op)
  obtain c2 acc2 where "finish_reservations run rm vs (acc2, c2) = (e, c')"
    "ct_bases c2 = ct_bases (on_pool (rv_base a) (cancel (rv_lease a)) c)"
    using Cons.prems by (auto simp: v Let_def split: if_splits prod.splits)
  then show ?case using Cons.IH 1 bases_run_trans by metis
qed simp

lemma finish_retained_same: "finish_retained run vs (acc, c) = (e, c') \<Longrightarrow> ct_bases c' = ct_bases c"
proof (induction vs arbitrary: acc c)
  case (Cons v vs)
  then show ?case by (cases v) (force split: prod.splits)
qed simp

lemma final_cleanup_pools: "final_host_cleanup run v c = (e, c') \<Longrightarrow> bases_run R (ct_bases c) (ct_bases c')"
proof -
  let ?c0 = "c\<lparr>ct_lives := [], ct_dbs := [], ct_snaps := [], ct_reservations := [], ct_retained := []\<rparr>"
  let ?c1 = "close_pools (ct_snaps c) ?c0"
  obtain e2 c2 where 2: "finish_dbs run (fi_server v) (ct_dbs c) (finish_lives (fi_live v) (ct_lives c) None, ?c1) = (e2, c2)" by fastforce
  obtain e3 c3 where 3: "finish_bases (fi_closes v) (ct_snaps c) (e2, c2) = (e3, c3)" by fastforce
  obtain e4 c4 where 4: "finish_reservations run (fi_remove v) (ct_reservations c) (e3, c3) = (e4, c4)" by fastforce
  assume "final_host_cleanup run v c = (e, c')"
  then have 5: "finish_retained run (ct_retained c) (e4, c4) = (e, c')" by (simp add: final_host_cleanup_def Let_def 2 3 4)
  have "bases_run R (ct_bases c) (ct_bases ?c1)" using close_pools_run [of R ?c0] by simp
  then show ?thesis
    using finish_dbs_run [OF 2] finish_bases_run [OF 3] finish_reservations_run [OF 4] finish_retained_same [OF 5]
    by (metis bases_run_trans)
qed

section \<open>What the pools promise, in the host\<close>

definition pools_ok :: "'w control \<Rightarrow> bool" where
  "pools_ok c \<longleftrightarrow> (\<forall>b<length (ct_bases c). pool_inv (pool_at c b))"

lemma pool_runs_inv: "pool_runs k p p' \<Longrightarrow> pool_inv p \<Longrightarrow> pool_inv p'"
  using pool_machine.run_inv by (auto simp: pool_runs_def)

lemma bases_run_ok: "bases_run R (ct_bases c) (ct_bases c') \<Longrightarrow> pools_ok c \<Longrightarrow> pools_ok c'"
  unfolding pools_ok_def bases_run_def using pool_runs_inv new_pool_inv by (meson not_le)

interpretation host_pools: inv_machine "\<lambda>c op. snd (control_step run c op)" pools_ok
  by unfold_locales (rule bases_run_ok [OF control_step_pools])

lemma pool_runs_weaken: "pool_runs k p p' \<Longrightarrow> k \<longrightarrow> k' \<Longrightarrow> pool_runs k' p p'"
  by (auto simp: pool_runs_def)

text \<open>A stopped pool stays stopped in a run of the host that does not recover it.\<close>

lemma host_stays_blocked:
  assumes "b < length (ct_bases c)" and "blocked (pool_at c b)" and "\<forall>op\<in>set ops. b \<notin> recovers op"
  shows "b < length (ct_bases (foldl (\<lambda>c op. snd (control_step run c op)) c ops)) \<and>
    blocked (pool_at (foldl (\<lambda>c op. snd (control_step run c op)) c ops) b)"
  using assms
proof (induction ops arbitrary: c)
  case Nil
  then show ?case by simp
next
  case (Cons op ops)
  have b: "bases_run (recovers op) (ct_bases c) (ct_bases (snd (control_step run c op)))" by (rule control_step_pools)
  then obtain pops where "pool_at (snd (control_step run c op)) b = foldl pool_step (pool_at c b) pops" "Try True \<notin> set pops"
    using Cons.prems(1,3) by (auto simp: bases_run_def pool_runs_def)
  then have "blocked (pool_at (snd (control_step run c op)) b)" using blocked_run [OF Cons.prems(2)] by simp
  moreover have "b < length (ct_bases (snd (control_step run c op)))" using b Cons.prems(1) by (simp add: bases_run_def)
  ultimately show ?case using Cons.IH [of "snd (control_step run c op)"] Cons.prems(3) by simp
qed

end
