(* ===== verification/Spec2Isabelle.thy ===== *)
theory Spec2Isabelle
  imports WireServe ForkPool ForkCapacity RootProperties MemRestore LiveProperties MemRelative GuestThreads HostProperties GuestProperties SnapshotProperties ControlPools
begin

text \<open>
  A verification library of mariamem: a Go program that runs a MariaDB engine, compiled to Go, as an
  in-process guest, keeps its data in memory, and serves it over the MySQL protocol. Hosts can be frozen into
  snapshots and forked from them.

  The parts and how they meet. A client speaks the MySQL protocol to a host (\<open>internal/mysqlwire\<close>), which turns its
  commands into requests to the guest; requests for prepared statements have an envelope and value codecs of
  their own (\<open>internal/preparedproto\<close>). All sessions of a host share one pipe to the guest
  (\<open>internal/guest\<close>), and the host (\<open>internal/host\<close>) owns the guest, its sessions and what is left to clean up.
  The guest's files are an in-memory file system (\<open>internal/generatedgo/code/base\<close>) over copy-on-write stores
  (\<open>internal/prepared\<close>); an idle host's files are frozen into a root, which becomes a baseline
  (\<open>internal/snapshot\<close>) that new hosts map. How many forks of a baseline may exist is a pool's business
  (\<open>internal/forklimit\<close>). A live endpoint (\<open>internal/live\<close>) keeps an address while the host behind it is
  replaced. The shared host (\<open>internal/control\<close>) serves all of this to other processes. Cleanup that could not
  finish is retained in the error of the operation and retried by whoever holds it (\<open>internal/disposal\<close>).

  Foundations. \<open>Prelude\<close> has the machine types, the little-endian codecs, the lemmas on lists and words and the
  locales the components interpret: \<open>inv_machine\<close> and \<open>mono_machine\<close> (an invariant or a measure over the runs of a state
  machine) and \<open>prefix_codec\<close> (a self-delimiting format, decoded item by item). \<open>GoStd\<close>, \<open>GoPath\<close> and
  \<open>GoError\<close> model what the code uses of Go's library: text and number conversions, clean paths, and trees of
  errors with \<open>errors.Is\<close>, \<open>errors.As\<close> and \<open>errors.Join\<close>.

  Prepared statements and the wire.
    \<open>PreparedRequest\<close> (\<open>preparedproto/request.go\<close>): the envelope and its round trip.
    \<open>PreparedRegistry\<close> (\<open>registry.go\<close>): wire ids and native handles, inverse to each other, ids never reused.
    \<open>PreparedValues\<close>, \<open>PreparedExecute\<close> (\<open>values.go\<close>): the typed values, COM_STMT_EXECUTE and binary rows; both
      codecs are bijections on their valid inputs, the decoder recovers what a client sent, the encoder writes what a
      client reads.
    \<open>GuestResult\<close> (\<open>guest/guest.go\<close>), \<open>WirePackets\<close> (\<open>mysqlwire/wire.go\<close>), \<open>PreparedPackets\<close> (\<open>prepared.go\<close>,
      \<open>prepared_flags.go\<close>, \<open>prepared_execute.go\<close>): results as packets. The readers of columns, cells and rows in these theories
      are a client's, and the serializers are stated against them.
    \<open>PreparedSession\<close> (\<open>prepared_session.go\<close>, \<open>prepared_execute.go\<close>, \<open>prepared_long_data.go\<close>): the statements of a client over an arbitrary guest:
      its invariant, which requests a command can cause, what PREPARE and EXECUTE do.
    \<open>WireFrame\<close>, \<open>WireServe\<close> (\<open>wire.go\<close>): the framed connection with its bounded read-ahead, and \<open>Serve\<close> with handshake, commands
      and the guest session it opens and closes. \<open>serve\<close> takes fuel, one unit for a command; a unit for every five
      bytes of the client's input and one more are enough, as \<open>serve_terminates\<close> shows.

  Ownership and admission.
    \<open>Disposal\<close> (\<open>disposal/disposal.go\<close>): owners, retries, and the errors that retain them. An owner depends on older
      ones only, so its position is enough fuel for the recursion over its dependencies.
    \<open>ForkPool\<close> (\<open>forklimit/pool.go\<close>): the pool as a machine of its locked sections: its limit, what frees a place, when
      admission stops, and that no wake-up is lost.
    \<open>ForkCapacity\<close> (\<open>options.go\<close>, \<open>memory_sources.go\<close>, \<open>cgroup.go\<close>, \<open>memory_linux.go\<close>): the capacity as the largest the observed memory allows.

  Files and snapshots.
    \<open>PreparedFile\<close>, \<open>PreparedStore\<close>, \<open>StoreWorld\<close>, \<open>StoreKeys\<close> (\<open>prepared/heap.go\<close>, \<open>root.go\<close>): blocks in an explicit memory of addresses,
      so that sharing is sharing; any sequence of calls refines flat byte arrays, and a write shows in no other file.
    \<open>PreparedRoot\<close>, \<open>RootProperties\<close> (\<open>heap.go\<close>, \<open>root.go\<close>, \<open>root_names.go\<close>): heaps, roots, captures and the checks of names against directory trees.
    \<open>MemFS\<close>, \<open>MemTree\<close>, \<open>MemRefine\<close>, \<open>MemFiles\<close>, \<open>MemProperties\<close> (\<open>base/memfs.go\<close>, \<open>memfs_growth.go\<close>, \<open>block_storage.go\<close>): the file system as a
      heap of nodes, its abstraction to a map from clean paths, and the simulation of every operation, errors included.
    \<open>MemSnapshot\<close>, \<open>MemFreeze\<close>, \<open>MemRestore\<close> (\<open>heap_snapshot.go\<close>, \<open>owned_prepared.go\<close>, \<open>prepared_files.go\<close>, \<open>prepared/entry.go\<close>): freezing and mapping; the
      walk of the freeze is a work list, proved to end on every tree.
    \<open>MemRelative\<close> (\<open>relative.go\<close>): names resolved from a pinned directory.
    \<open>SnapshotStore\<close>, \<open>SnapshotTransfer\<close>, \<open>SnapshotProperties\<close> (\<open>internal/snapshot\<close>): manifests, adoption, inheritance, handoff, borrowing and closing
      of baselines.

  Guest, host and control.
    \<open>GuestMemory\<close>, \<open>GuestThreads\<close> (\<open>base/memory_mapping.go\<close>, \<open>thread_lifetime.go\<close>): linear memory with its counters, and the reclaiming of worker stacks.
    \<open>GuestProcess\<close>, \<open>GuestProperties\<close> (\<open>guest/guest.go\<close>, \<open>linked.go\<close>): calls, the reader, whole frames, failure and stop.
    \<open>HostServer\<close>, \<open>HostProperties\<close> (\<open>host/server.go\<close>, \<open>disposal.go\<close>, \<open>heap_snapshot.go\<close>): admission to slots, shutdown, snapshots, and the ordered disposal.
    \<open>LiveEndpoint\<close>, \<open>LiveProperties\<close> (\<open>live/endpoint.go\<close>): children, drains, \<open>Reset\<close>, \<open>Close\<close>.
    \<open>ControlState\<close>, \<open>ControlPlane\<close>, \<open>ControlRequests\<close>, \<open>ControlSteps\<close>, \<open>ControlPools\<close> (\<open>internal/control\<close>, \<open>live/startup.go\<close>): the shared host; a request is its
      critical sections, one step each, with any number of requests between two of theirs. \<open>ControlPools\<close> shows
      that the host touches the pools by their own operations only; the two theorems below follow from that
      and from \<open>ForkPool\<close>.

  How the model corresponds to the code. A struct is a record with the fields the code reads, an enumeration a datatype, a
  fixed-width integer a word, a Go map an association list or a function to options, a nil-able value an
  option. An error result is \<open>Inl\<close> of a sum or an error option; a panic is \<open>None\<close>. Code under a mutex is one step; where the code
  gives the lock up between two sections, other steps may come between, except where a theory says that two
  sections are one (the settling of a lease whose waiter's context ended in \<open>acquire_once\<close>; a call of
  \<open>monitored_call\<close> before its abort; the frame write with its semaphore; the reclaiming of a stack with the closing of
  its channel). Pointers whose identity matters are positions in a list or numbers in a store; roots and captures are compared by
  value. Fields that record what happened for the theorems (\<open>ep_log\<close>, \<open>ep_started\<close>, \<open>lt_reclaimed\<close>, journals of runs) are
  read by no operation.

  Parameters. What lies outside the source is an argument of the operation that meets it: system calls,
  contexts and clocks, the guest's answers, JSON decoding, the digest, random tokens, the callbacks of
  owners. Theorems quantify over them; where one needs a fact of the outside (the digest is 32 bytes, a descriptor shows
  the bytes that were written to it) it is a hypothesis, and a witness meets it.

  Not modelled: the generated engine and the runtime it is compiled against, except the files named above; the
  copying of bytes between connections, TLS and deadlines (scripts of errors); hashing and walking of files on disk; the JSON
  lines and read loop of the control protocol, texts of logs, starting a host process, the text that wraps a
  guest's failed start, a second stop of a guest; \<open>time.ParseDuration\<close>; the public API's
  delegation, commands, benchmarks and test helpers.
\<close>

section \<open>Across components: admission in the shared host\<close>

text \<open>
  Whatever requests of any clients interleave in the shared host, every baseline's pool keeps its
  invariant; no baseline ever has more forks, reserved, running or uncertain ones, than its limit.
\<close>

theorem host_within_capacity:
  assumes "foldl (\<lambda>c op. snd (control_step run c op)) (new_manager w) ops = c" and "b < length (ct_bases c)"
  shows "pool_inv (pool_at c b) \<and> 1 \<le> fst (usage (pool_at c b)) \<and> snd (usage (pool_at c b)) \<le> fst (usage (pool_at c b))"
proof -
  have "pools_ok (new_manager w)" by (simp add: pools_ok_def new_manager_def)
  then have "pools_ok c" using host_pools.run_inv [of "new_manager w" run ops] assms(1) by simp
  then show ?thesis using assms(2) by (simp add: pools_ok_def pool_inv_def usage_def)
qed

text \<open>
  Once the cleanup of one fork of a baseline is uncertain, and until a live endpoint recovers the pool, the
  host issues no reservation of that baseline, admits no fork of it, and starts none that it had admitted.
\<close>

theorem host_stops_on_uncertain_cleanup:
  assumes "foldl (\<lambda>c op. snd (control_step run c op)) (new_manager w) before = c"
    and "b < length (ct_bases c)" and "find_lease (pool_at c b) l = Some x" and "l_debt x \<noteq> None"
    and "foldl (\<lambda>c op. snd (control_step run c op)) c later = c'" and "\<forall>op\<in>set later. b \<notin> recovers op"
  shows "(map_of (ct_snaps c') h = Some b \<and> unused r c' \<longrightarrow>
      (\<exists>e. control_step run c' (Reserve r h) = (answered still_open (Some e), c')) \<and>
      (\<exists>e. control_step run c' (Fork r h None None ctx now) = (answered still_open (Some e), c'))) \<and>
    (map_of (ct_flights c') r = Some (Admitted b k) \<longrightarrow>
      (\<exists>a e. fst (control_step run c' (Enter r)) = answered a (Some e)) \<and>
      map_of (ct_flights (snd (control_step run c' (Enter r)))) r = None)"
proof -
  have "pools_ok (new_manager w)" by (simp add: pools_ok_def new_manager_def)
  then have "pools_ok c" using host_pools.run_inv [of "new_manager w" run before] assms(1) by simp
  then have inv: "pool_inv (pool_at c b)" using assms(2) by (simp add: pools_ok_def)
  have m: "(l, x) \<in> set (leases (pool_at c b))" using assms(3) by (auto simp: find_lease_def dest: map_of_SomeD)
  have all: "\<forall>(l, x)\<in>set (leases (pool_at c b)). l_debt x \<noteq> None \<longrightarrow> blocked (pool_at c b) \<and> l_active x"
    using inv by (simp add: pool_inv_def)
  have "blocked (pool_at c b)" using bspec [OF all m] assms(4) by simp
  then have q: "b < length (ct_bases c')" "blocked (pool_at c' b)"
    using host_stays_blocked [OF assms(2) _ assms(6)] assms(5) by auto
  obtain e where e: "acquire_locked False (pool_at c' b) = (Inl e, pool_at c' b)" using blocked_acquire [OF q(2)] by blast
  have same: "on_pool b (\<lambda>_. pool_at c' b) c' = c'" using q(1) by (simp add: on_pool_def change_pool_def)
  have full: "e \<noteq> err_full"
    using e q(2) err_join_is
    by (auto simp: acquire_locked_def pool_errors err_join.simps split: if_splits)
  obtain y where y: "activate k (pool_at c' b) = (Some y, pool_at c' b)"
    using q(2) blocked_refuses [OF q(2), of k] by (metis option.exhaust prod.collapse)
  show ?thesis
  proof (intro conjI impI)
    assume s: "map_of (ct_snaps c') h = Some b \<and> unused r c'"
    show "\<exists>e. control_step run c' (Reserve r h) = (answered still_open (Some e), c')"
      using s e full by (simp add: reserve_begin_def try_acquire_def answered_def)
    show "\<exists>e. control_step run c' (Fork r h None None ctx now) = (answered still_open (Some e), c')"
      using s e full same by (cases ctx) (simp_all add: fork_begin_def acquire_once_def answered_def)
  next
    assume f: "map_of (ct_flights c') r = Some (Admitted b k)"
    show "\<exists>a e. fst (control_step run c' (Enter r)) = answered a (Some e)"
      "map_of (ct_flights (snd (control_step run c' (Enter r)))) r = None"
      using f y by (simp_all add: fork_enter_def invalid_def answered_def land_def on_pool_def delete_conv')
  qed
qed

end
